(* ===== verification/Sivfs_Prelude.thy ===== *)
theory Sivfs_Prelude
  imports Main "HOL-Library.Word"
begin

unbundle bit_operations_syntax

text \<open>
  Types, return codes and generic lemmas shared by every component, together with the two
  smallest headers of the kernel module: \<^verbatim>\<open>kern/sivfs_types.h\<close> (timestamps and their dirty
  bit) and \<^verbatim>\<open>kern/sivfs_common.h\<close> (the size helpers).

  \<^item> Every \<^verbatim>\<open>unsigned long\<close>, \<^verbatim>\<open>size_t\<close>, \<^verbatim>\<open>__u64\<close> and pointer of the C code is a
    \<open>64 word\<close>; \<open>+\<close>, \<open>-\<close> and \<open>*\<close> wrap as they do in C.
  \<^item> A function that returns \<^verbatim>\<open>int rc\<close> returns a value of type \<open>rc\<close>: \<open>OK\<close> for 0,
    \<open>E e\<close> for a negative error number, \<open>UB\<close> where the C code would read or write outside
    the memory it owns, follow a null pointer or free memory twice, and \<open>HANG\<close> where a loop
    used up the fuel of the model.
\<close>

section \<open>Machine words, return codes\<close>

type_synonym u64 = "64 word"
type_synonym sivfs_ts = "64 word"
type_synonym sivfs_word_t = "64 word"

datatype errno = EPERM | EINVAL | ENOMEM | EEXIST | EFAULT | EINTR

datatype rc = OK | E errno | UB | HANG

named_theorems ws_simps \<open>unfolding rules of the writeset operations\<close>
named_theorems cp_simps \<open>unfolding rules of the checkpoint operations\<close>

section \<open>Timestamps (sivfs\_types.h)\<close>

definition SIVFS_INVALID_TS :: sivfs_ts where
  "SIVFS_INVALID_TS = - 1"

definition SIVFS_TS_BIT_DIRTY :: sivfs_ts where
  "SIVFS_TS_BIT_DIRTY = push_bit 63 1"

definition sivfs_ts_is_dirty :: "sivfs_ts \<Rightarrow> bool" where
  "sivfs_ts_is_dirty ts \<longleftrightarrow> ts AND SIVFS_TS_BIT_DIRTY \<noteq> 0"

definition sivfs_ts_unset_dirty :: "sivfs_ts \<Rightarrow> sivfs_ts" where
  "sivfs_ts_unset_dirty ts = ts AND NOT SIVFS_TS_BIT_DIRTY"

definition sivfs_ts_set_dirty :: "sivfs_ts \<Rightarrow> sivfs_ts" where
  "sivfs_ts_set_dirty ts = ts OR SIVFS_TS_BIT_DIRTY"

section \<open>Size helpers (sivfs\_common.h)\<close>

definition max3_size_t :: "u64 \<Rightarrow> u64 \<Rightarrow> u64 \<Rightarrow> u64" where
  "max3_size_t a b c =
     (if a \<ge> b \<and> a \<ge> c then a else if b \<ge> a \<and> b \<ge> c then b else c)"

definition max2_size_t :: "u64 \<Rightarrow> u64 \<Rightarrow> u64" where
  "max2_size_t a b = (if a \<ge> b then a else b)"

section \<open>Generic lemmas on words\<close>

lemma bit_SIVFS_TS_BIT_DIRTY [simp]: "bit SIVFS_TS_BIT_DIRTY n \<longleftrightarrow> n = 63"
  unfolding SIVFS_TS_BIT_DIRTY_def bit_push_bit_iff bit_1_iff by auto

lemma u64_eq_iff: "(a::u64) = b \<longleftrightarrow> (\<forall>n<64. bit a n = bit b n)"
  using bit_word_eqI [of a b] by auto

lemma word_and_single_bit_iff: "(w AND push_bit n 1 \<noteq> (0::u64)) \<longleftrightarrow> n < 64 \<and> bit w n"
  unfolding u64_eq_iff bit_and_iff bit_push_bit_iff bit_1_iff by auto

lemma not_bit_of_small: "unat (w::u64) < 2 ^ m \<Longrightarrow> m \<le> n \<Longrightarrow> \<not> bit w n"
proof
  assume "unat w < 2 ^ m" and "m \<le> n" and "bit w n"
  then have "unat w < 2 ^ n"
    by (meson order_less_le_trans one_le_numeral power_increasing)
  moreover have "bit (unat w) n"
    using \<open>bit w n\<close> by (simp add: bit_unsigned_iff)
  ultimately show False by (simp add: bit_iff_odd)
qed

lemma ts_le_INVALID [simp]: "(t::sivfs_ts) \<le> SIVFS_INVALID_TS"
  by (simp add: SIVFS_INVALID_TS_def)

lemma ts_less_INVALID [simp]: "(t < SIVFS_INVALID_TS) = (t \<noteq> SIVFS_INVALID_TS)"
  by (auto simp: SIVFS_INVALID_TS_def word_order.not_eq_extremum)

lemma ts_not_INVALID_less [simp]: "\<not> SIVFS_INVALID_TS < t"
  by (simp add: SIVFS_INVALID_TS_def)

lemma unat_of_nat_u64: "n < 2 ^ 64 \<Longrightarrow> unat (of_nat n :: u64) = n"
  by (simp add: unat_of_nat take_bit_nat_eq_self)

lemma unat_less_u64: "unat (w::u64) < 2 ^ 64"
proof -
  have "unat w < 2 ^ LENGTH(64)" by (rule unsigned_less)
  then show ?thesis by simp
qed

lemma unat_inc: "(a::u64) + 1 \<noteq> 0 \<Longrightarrow> unat (a + 1) = unat a + 1"
  using unatSuc [of a] by (simp add: add.commute)

lemma inc_le_iff: "(a::u64) + 1 \<noteq> 0 \<Longrightarrow> a + 1 \<le> t \<longleftrightarrow> a < t"
  by (simp add: word_le_nat_alt word_less_nat_alt unat_inc Suc_le_eq)

lemma less_inc_iff: "(a::u64) + 1 \<noteq> 0 \<Longrightarrow> t < a + 1 \<longleftrightarrow> t \<le> a"
  by (simp add: word_le_nat_alt word_less_nat_alt unat_inc less_Suc_eq_le)

lemma le_inc_iff: "(a::u64) + 1 \<noteq> 0 \<Longrightarrow> t \<le> a + 1 \<longleftrightarrow> t = a + 1 \<or> t \<le> a"
  by (metis le_less less_inc_iff)

lemma less_inc_nonzero: "(a::u64) < t \<Longrightarrow> a + 1 \<noteq> 0"
proof
  assume "a < t" and "a + 1 = 0"
  then have "- 1 < t" by (metis eq_neg_iff_add_eq_0)
  then show False by simp
qed

lemma unat_add_u64: "unat (a::u64) + unat b < 2 ^ 64 \<Longrightarrow> unat (a + b) = unat a + unat b"
  by (simp add: unat_word_ariths)

lemma unat_mult_u64: "unat (a::u64) * unat b < 2 ^ 64 \<Longrightarrow> unat (a * b) = unat a * unat b"
  by (simp add: unat_word_ariths)

lemma of_nat_eq_iff_u64:
  "a < 2 ^ 64 \<Longrightarrow> b < 2 ^ 64 \<Longrightarrow> (of_nat a :: u64) = of_nat b \<longleftrightarrow> a = b"
  by (metis unat_of_nat_u64)

lemma of_nat_le_iff_u64:
  "a < 2 ^ 64 \<Longrightarrow> b < 2 ^ 64 \<Longrightarrow> (of_nat a :: u64) \<le> of_nat b \<longleftrightarrow> a \<le> b"
  by (simp add: word_le_nat_alt unat_of_nat_u64)

lemma of_nat_less_iff_u64:
  "a < 2 ^ 64 \<Longrightarrow> b < 2 ^ 64 \<Longrightarrow> (of_nat a :: u64) < of_nat b \<longleftrightarrow> a < b"
  by (simp add: word_less_nat_alt unat_of_nat_u64)

text \<open>The size in bytes of \<open>n\<close> 64-bit words, and its arithmetic below the wrap-around.\<close>

definition bytes :: "nat \<Rightarrow> u64" where
  "bytes n = of_nat (8 * n)"

lemma unat_bytes [simp]: "n < 2 ^ 61 \<Longrightarrow> unat (bytes n) = 8 * n"
  unfolding bytes_def by (rule unat_of_nat_u64) simp

lemma bytes_le_iff [simp]: "m < 2 ^ 61 \<Longrightarrow> n < 2 ^ 61 \<Longrightarrow> bytes m \<le> bytes n \<longleftrightarrow> m \<le> n"
  by (simp add: word_le_nat_alt)

lemma bytes_less_iff [simp]: "m < 2 ^ 61 \<Longrightarrow> n < 2 ^ 61 \<Longrightarrow> bytes m < bytes n \<longleftrightarrow> m < n"
  by (simp add: word_less_nat_alt)

lemma bytes_eq_iff: "m < 2 ^ 61 \<Longrightarrow> n < 2 ^ 61 \<Longrightarrow> bytes m = bytes n \<longleftrightarrow> m = n"
  by (metis bytes_le_iff order_antisym order_refl)

lemma bytes_0 [simp]: "bytes 0 = 0"
  by (simp add: bytes_def)

lemma bytes_eq_0_iff [simp]: "n < 2 ^ 61 \<Longrightarrow> bytes n = 0 \<longleftrightarrow> n = 0"
  using bytes_eq_iff [of n 0] by simp

lemma bytes_add: "bytes (m + n) = bytes m + bytes n"
  by (simp add: bytes_def algebra_simps)

lemma bytes_add_diff [simp]: "bytes (m + n) - bytes m = bytes n"
  by (simp add: bytes_add)

section \<open>Properties of the helpers\<close>

lemma max3_size_t_is_max: "max3_size_t a b c = max a (max b c)"
  by (auto simp: max3_size_t_def max_def)

lemma max2_size_t_is_max: "max2_size_t a b = max a b"
  by (auto simp: max2_size_t_def max_def)

lemma ts_dirty_set [simp]: "sivfs_ts_is_dirty (sivfs_ts_set_dirty ts)"
  by (auto simp: sivfs_ts_is_dirty_def sivfs_ts_set_dirty_def u64_eq_iff bit_simps)

lemma ts_dirty_unset [simp]: "\<not> sivfs_ts_is_dirty (sivfs_ts_unset_dirty ts)"
  by (auto simp: sivfs_ts_is_dirty_def sivfs_ts_unset_dirty_def u64_eq_iff bit_simps)

lemma ts_dirty_roundtrip:
  "\<not> sivfs_ts_is_dirty ts \<Longrightarrow> sivfs_ts_unset_dirty (sivfs_ts_set_dirty ts) = ts"
  by (auto simp: sivfs_ts_is_dirty_def sivfs_ts_unset_dirty_def sivfs_ts_set_dirty_def
      u64_eq_iff bit_simps)

end
