(* ===== verification/Writeset.thy ===== *)
theory Writeset
  imports Sivfs_Prelude
begin

text \<open>
  The writeset of a transaction, \<^verbatim>\<open>kern/sivfs_writeset.h\<close>: entries with a stream extension, the
  growable buffer they are kept in, and the loop with which every consumer of a writeset
  (validation, metadata, checkpoints, page updates) walks over that buffer.

  A buffer is a list of 64-bit words.  All fields of \<^verbatim>\<open>struct sivfs_writeset_entry\<close> are eight bytes
  wide and \<^verbatim>\<open>sivfs_wse_size\<close> is always a multiple of eight, so the pointer \<^verbatim>\<open>ent\<close> of the C loops
  moves by whole words and the word list is exact.  Byte counts stay 64-bit words and wrap.
  Whether \<^verbatim>\<open>kzalloc\<close> succeeds is an argument of the operations that call it.

  Main results: the walk over the entries of a well-formed buffer visits exactly these entries
  (\<open>wse_loop_encode\<close>), appending an entry and walking gives back the old entries followed by the
  new one, and an entry whose stream length makes \<^verbatim>\<open>sivfs_wse_size\<close> wrap to zero passes the size
  check and stops the walk from ever advancing.
\<close>

section \<open>Entries and stream information\<close>

record sivfs_writeset_entry =
  wse_ino :: u64
  wse_file_offset :: u64
  wse_address :: u64
  wse_stream_control :: u64
  wse_value :: sivfs_word_t

record sivfs_wse_stream_info =
  value_words :: u64
  dest_words :: u64
  is_stream :: bool
  is_const_stream :: bool

definition SIVFS_ENTRY_IS_STREAM :: u64 where
  "SIVFS_ENTRY_IS_STREAM = push_bit 63 1"

definition SIVFS_STREAM_CONSTANT :: u64 where
  "SIVFS_STREAM_CONSTANT = push_bit 62 1"

definition SIVFS_STREAM_FLAGS :: u64 where
  "SIVFS_STREAM_FLAGS = SIVFS_ENTRY_IS_STREAM OR SIVFS_STREAM_CONSTANT"

text \<open>\<^verbatim>\<open>sizeof(struct sivfs_writeset_entry)\<close>: five 8-byte fields.\<close>

definition SIVFS_WRITESET_ENTRY_MIN_SIZE :: u64 where
  "SIVFS_WRITESET_ENTRY_MIN_SIZE = 40"

definition sivfs_wse_size :: "sivfs_wse_stream_info \<Rightarrow> u64" where
  "sivfs_wse_size info = SIVFS_WRITESET_ENTRY_MIN_SIZE + (value_words info - 1) * 8"

definition sivfs_wse_to_stream_info ::
  "sivfs_writeset_entry \<Rightarrow> u64 \<Rightarrow> errno + sivfs_wse_stream_info" where
  "sivfs_wse_to_stream_info entry sz =
     (let sc = wse_stream_control entry in
      if sc = 0 then
        Inr \<lparr>value_words = 1, dest_words = 1, is_stream = False, is_const_stream = False\<rparr>
      else
        let is_stream' = (sc AND SIVFS_ENTRY_IS_STREAM \<noteq> 0);
            is_const_stream' = (sc AND SIVFS_STREAM_CONSTANT \<noteq> 0);
            dest_words' = sc AND NOT SIVFS_STREAM_FLAGS
        in
        if \<not> is_stream' then Inl EINVAL
        else if dest_words' = 0 then Inl EINVAL
        else
          let info = \<lparr>value_words = (if is_const_stream' then 1 else dest_words'),
                      dest_words = dest_words',
                      is_stream = is_stream',
                      is_const_stream = is_const_stream'\<rparr>
          in if sivfs_wse_size info > sz then Inl EINVAL else Inr info)"

section \<open>The writeset buffer\<close>

record sivfs_writeset =
  capacity_bytes :: u64
  size_bytes :: u64
  entries :: "u64 list"

definition sivfs_writeset_zero :: sivfs_writeset where
  "sivfs_writeset_zero = \<lparr>capacity_bytes = 0, size_bytes = 0, entries = []\<rparr>"

definition sivfs_writeset_empty :: "sivfs_writeset \<Rightarrow> bool" where
  "sivfs_writeset_empty ws \<longleftrightarrow> size_bytes ws = 0"

text \<open>\<^verbatim>\<open>memcpy\<close> of \<open>n\<close> words between buffers: \<open>None\<close> when it would leave one of them.\<close>

definition memcpy_words :: "u64 list \<Rightarrow> nat \<Rightarrow> u64 list \<Rightarrow> nat \<Rightarrow> u64 list option" where
  "memcpy_words dest at src n =
     (if at + n \<le> length dest \<and> n \<le> length src
      then Some (take at dest @ take n src @ drop (at + n) dest) else None)"

definition words_of_bytes :: "u64 \<Rightarrow> nat" where
  "words_of_bytes b = unat b div 8"

definition sivfs_writeset_reserve ::
  "bool \<Rightarrow> sivfs_writeset \<Rightarrow> u64 \<Rightarrow> rc \<times> sivfs_writeset" where
  "sivfs_writeset_reserve kzalloc_ok ws new_capacity =
     (if new_capacity \<ge> capacity_bytes ws then
        let new_capacity' = max3_size_t (capacity_bytes ws * 2)
                              (4 * SIVFS_WRITESET_ENTRY_MIN_SIZE) new_capacity
        in if \<not> kzalloc_ok then (E ENOMEM, ws)
           else case memcpy_words (replicate (words_of_bytes new_capacity') 0) 0
                       (entries ws) (words_of_bytes (size_bytes ws)) of
                  None \<Rightarrow> (UB, ws)
                | Some buf \<Rightarrow> (OK, ws\<lparr>capacity_bytes := new_capacity', entries := buf\<rparr>)
      else (OK, ws))"

definition SIVFS_WRITESET_DISABLED_FLAG :: u64 where
  "SIVFS_WRITESET_DISABLED_FLAG = push_bit 63 1"

definition sivfs_disable_ws :: "sivfs_writeset \<Rightarrow> bool \<Rightarrow> rc \<times> sivfs_writeset" where
  "sivfs_disable_ws ws disable =
     (if disable then
        if size_bytes ws \<noteq> 0 then (E EINVAL, ws)
        else (OK, ws\<lparr>size_bytes := size_bytes ws OR SIVFS_WRITESET_DISABLED_FLAG\<rparr>)
      else
        let ws' = ws\<lparr>size_bytes := size_bytes ws AND NOT SIVFS_WRITESET_DISABLED_FLAG\<rparr>
        in if size_bytes ws' \<noteq> 0 then (E EINVAL, ws') else (OK, ws'))"

definition sivfs_ws_is_disabled :: "sivfs_writeset \<Rightarrow> bool" where
  "sivfs_ws_is_disabled ws \<longleftrightarrow> 0 \<noteq> size_bytes ws AND SIVFS_WRITESET_DISABLED_FLAG"

text \<open>The entry a pointer into a buffer points to; \<open>None\<close> when the buffer ends before it.\<close>

fun wse_read :: "u64 list \<Rightarrow> sivfs_writeset_entry option" where
  "wse_read (i # fo # a # sc # v # _) =
     Some \<lparr>wse_ino = i, wse_file_offset = fo, wse_address = a,
           wse_stream_control = sc, wse_value = v\<rparr>"
| "wse_read _ = None"

text \<open>
  \<open>toAdd\<close> is the memory the pointer \<^verbatim>\<open>toAdd\<close> leads to: the entry and, for a stream, the value
  words behind it.
\<close>

definition sivfs_add_to_writeset ::
  "bool \<Rightarrow> sivfs_writeset \<Rightarrow> u64 list \<Rightarrow> u64 \<Rightarrow> rc \<times> sivfs_writeset" where
  "sivfs_add_to_writeset kzalloc_ok ws toAdd sz =
     (if sivfs_ws_is_disabled ws then (OK, ws)
      else case wse_read toAdd of None \<Rightarrow> (UB, ws) | Some ent \<Rightarrow>
        case sivfs_wse_to_stream_info ent sz of
          Inl e \<Rightarrow> (E e, ws)
        | Inr info \<Rightarrow>
            let wse_size = sivfs_wse_size info;
                new_size = size_bytes ws + wse_size
            in case sivfs_writeset_reserve kzalloc_ok ws new_size of
                 (OK, ws') \<Rightarrow>
                   (case memcpy_words (entries ws') (words_of_bytes (size_bytes ws'))
                           toAdd (words_of_bytes wse_size) of
                      None \<Rightarrow> (UB, ws')
                    | Some buf \<Rightarrow> (OK, ws'\<lparr>entries := buf, size_bytes := new_size\<rparr>))
               | (r, ws') \<Rightarrow> (r, ws'))"

definition sivfs_writeset_copy :: "sivfs_writeset \<Rightarrow> sivfs_writeset \<Rightarrow> rc \<times> sivfs_writeset" where
  "sivfs_writeset_copy dest src =
     (if capacity_bytes dest < size_bytes src then (OK, dest\<lparr>size_bytes := 0\<rparr>)
      else case memcpy_words (entries dest) 0 (entries src) (words_of_bytes (size_bytes src)) of
             None \<Rightarrow> (UB, dest)
           | Some buf \<Rightarrow> (OK, dest\<lparr>entries := buf, size_bytes := size_bytes src\<rparr>))"

text \<open>
  \<^verbatim>\<open>PAGE_SIZE\<close> is 4096: the static assertion of \<^verbatim>\<open>sivfs_checkpoint_iter_init\<close> ties \<^verbatim>\<open>PAGE_SIZE / 8\<close> to
  \<open>2 ^ 9\<close>.  A page of memory is a function from its 512 word indices, of type \<open>9 word\<close>, to words.  An
  offset that is not word aligned would write across two words: \<open>None\<close>.
\<close>

definition PAGE_SIZE :: u64 where
  "PAGE_SIZE = 4096"

type_synonym page_mem = "9 word \<Rightarrow> u64"

definition sivfs_apply_ws_ent_pg ::
  "page_mem \<Rightarrow> sivfs_writeset_entry \<Rightarrow> page_mem option" where
  "sivfs_apply_ws_ent_pg mem ent =
     (let off = wse_file_offset ent mod PAGE_SIZE
      in if off mod 8 = 0 then Some (mem(ucast (off div 8) := wse_value ent)) else None)"

section \<open>The walk over a writeset\<close>

text \<open>
  Every consumer contains the same loop: \<^verbatim>\<open>while(size_left)\<close>, decode the entry, do something with
  it, advance by \<^verbatim>\<open>sivfs_wse_size\<close>.  \<open>wse_loop\<close> is that loop with the consumer's statements as
  \<open>body\<close>, which either goes on (\<open>Next\<close>) or leaves the loop (\<open>Stop\<close>).  Running out of fuel is
  \<open>HANG\<close>.
\<close>

datatype 's step = Next 's | Stop rc 's

fun wse_loop ::
  "nat \<Rightarrow> (sivfs_writeset_entry \<Rightarrow> sivfs_wse_stream_info \<Rightarrow> 's \<Rightarrow> 's step) \<Rightarrow>
   u64 list \<Rightarrow> u64 \<Rightarrow> 's \<Rightarrow> rc \<times> 's" where
  "wse_loop 0 body mem size_left s = (if size_left = 0 then (OK, s) else (HANG, s))"
| "wse_loop (Suc fuel) body mem size_left s =
     (if size_left = 0 then (OK, s)
      else case wse_read mem of None \<Rightarrow> (UB, s) | Some ent \<Rightarrow>
        case sivfs_wse_to_stream_info ent size_left of
          Inl e \<Rightarrow> (E e, s)
        | Inr info \<Rightarrow>
            case body ent info s of
              Stop r s' \<Rightarrow> (r, s')
            | Next s' \<Rightarrow>
                wse_loop fuel body (drop (words_of_bytes (sivfs_wse_size info)) mem)
                  (size_left - sivfs_wse_size info) s')"

text \<open>Enough fuel for every walk that advances: at least one word per round.\<close>

definition wse_fuel :: "u64 list \<Rightarrow> nat" where
  "wse_fuel mem = Suc (length mem)"

definition ws_for_each ::
  "(sivfs_writeset_entry \<Rightarrow> sivfs_wse_stream_info \<Rightarrow> 's \<Rightarrow> 's step) \<Rightarrow>
   sivfs_writeset \<Rightarrow> 's \<Rightarrow> rc \<times> 's" where
  "ws_for_each body ws s = wse_loop (wse_fuel (entries ws)) body (entries ws) (size_bytes ws) s"

section \<open>Well-formed buffers\<close>

text \<open>
  A well-formed entry is a header together with the value words that follow it in memory.
  The bound on the stream length is the one under which \<^verbatim>\<open>sivfs_wse_size\<close> does not wrap.
\<close>

definition info_of :: "sivfs_writeset_entry \<Rightarrow> sivfs_wse_stream_info" where
  "info_of e = (case sivfs_wse_to_stream_info e (- 1) of
                  Inl _ \<Rightarrow> \<lparr>value_words = 0, dest_words = 0, is_stream = False,
                            is_const_stream = False\<rparr>
                | Inr info \<Rightarrow> info)"

definition wse_valid :: "sivfs_writeset_entry \<times> u64 list \<Rightarrow> bool" where
  "wse_valid = (\<lambda>(e, xs).
     sivfs_wse_to_stream_info e (- 1) = Inr (info_of e) \<and>
     value_words (info_of e) = of_nat (Suc (length xs)) \<and> length xs < 2 ^ 58)"

definition wse_encode :: "sivfs_writeset_entry \<times> u64 list \<Rightarrow> u64 list" where
  "wse_encode = (\<lambda>(e, xs).
     [wse_ino e, wse_file_offset e, wse_address e, wse_stream_control e, wse_value e] @ xs)"

definition ws_encode :: "(sivfs_writeset_entry \<times> u64 list) list \<Rightarrow> u64 list" where
  "ws_encode es = concat (map wse_encode es)"

definition ws_repr :: "sivfs_writeset \<Rightarrow> (sivfs_writeset_entry \<times> u64 list) list \<Rightarrow> bool" where
  "ws_repr ws es \<longleftrightarrow>
     list_all wse_valid es \<and>
     length (ws_encode es) < 2 ^ 58 \<and>
     size_bytes ws = bytes (length (ws_encode es)) \<and>
     capacity_bytes ws = bytes (length (entries ws)) \<and>
     length (entries ws) < 2 ^ 59 \<and>
     length (ws_encode es) \<le> length (entries ws) \<and>
     take (length (ws_encode es)) (entries ws) = ws_encode es"

text \<open>What a loop body does to a list of entries, without any memory.\<close>

fun ws_run ::
  "(sivfs_writeset_entry \<Rightarrow> sivfs_wse_stream_info \<Rightarrow> 's \<Rightarrow> 's step) \<Rightarrow>
   (sivfs_writeset_entry \<times> u64 list) list \<Rightarrow> 's \<Rightarrow> rc \<times> 's" where
  "ws_run body [] s = (OK, s)"
| "ws_run body ((e, xs) # es) s =
     (case body e (info_of e) s of Stop r s' \<Rightarrow> (r, s') | Next s' \<Rightarrow> ws_run body es s')"

lemma ws_encode_simps [simp]:
  "ws_encode [] = []"
  "ws_encode (e # es) = wse_encode e @ ws_encode es"
  "ws_encode (es @ fs) = ws_encode es @ ws_encode fs"
  by (simp_all add: ws_encode_def)

lemma length_wse_encode [simp]: "length (wse_encode (e, xs)) = 5 + length xs"
  by (simp add: wse_encode_def)

lemma wse_read_encode [simp]: "wse_read (wse_encode (e, xs) @ rest) = Some e"
  by (simp add: wse_encode_def)

lemma wse_size_value_words:
  assumes "value_words info = of_nat (Suc n)" and "n < 2 ^ 58"
  shows "sivfs_wse_size info = bytes (5 + n)"
  using assms by (simp add: sivfs_wse_size_def SIVFS_WRITESET_ENTRY_MIN_SIZE_def bytes_def)

lemma wse_valid_size:
  "wse_valid (e, xs) \<Longrightarrow> sivfs_wse_size (info_of e) = bytes (5 + length xs)"
  by (rule wse_size_value_words) (auto simp: wse_valid_def)

lemma wse_valid_to_stream_info:
  assumes v: "wse_valid (e, xs)" and le: "5 + length xs \<le> n" and n: "n < 2 ^ 61"
  shows "sivfs_wse_to_stream_info e (bytes n) = Inr (info_of e)"
proof (cases "wse_stream_control e = 0")
  case True
  with v show ?thesis by (simp add: wse_valid_def sivfs_wse_to_stream_info_def)
next
  case False
  have "sivfs_wse_size (info_of e) \<le> bytes n"
    using wse_valid_size [OF v] le n by simp
  with False v show ?thesis
    by (auto simp: wse_valid_def sivfs_wse_to_stream_info_def Let_def split: if_splits)
qed

lemma words_of_bytes_bytes [simp]:
  "n < 2 ^ 61 \<Longrightarrow> words_of_bytes (bytes n) = n"
  by (simp add: words_of_bytes_def)

section \<open>Walking a well-formed buffer\<close>

lemma wse_loop_encode:
  assumes "list_all wse_valid es" and "length (ws_encode es) < 2 ^ 61" and "length es \<le> fuel"
  shows "wse_loop fuel body (ws_encode es @ rest) (bytes (length (ws_encode es))) s =
         ws_run body es s"
  using assms
proof (induction es arbitrary: fuel s)
  case Nil
  then show ?case by (cases fuel) simp_all
next
  case (Cons ex es)
  obtain e xs where ex: "ex = (e, xs)" by fastforce
  obtain f where f: "fuel = Suc f" and "length es \<le> f"
    using Cons.prems(3) by (cases fuel) auto
  have v: "wse_valid (e, xs)" and vs: "list_all wse_valid es"
    using Cons.prems(1) ex by auto
  let ?n = "length (ws_encode es)"
  have n: "5 + length xs + ?n < 2 ^ 61"
    using Cons.prems(2) ex by simp
  have size: "sivfs_wse_size (info_of e) = bytes (5 + length xs)"
    using v by (rule wse_valid_size)
  have info: "sivfs_wse_to_stream_info e (bytes (5 + length xs + ?n)) = Inr (info_of e)"
    using wse_valid_to_stream_info [OF v _ n] by simp
  have "drop (words_of_bytes (bytes (5 + length xs))) (wse_encode (e, xs) @ ws_encode es @ rest)
        = ws_encode es @ rest"
    using n by (simp del: append_assoc)
  then show ?case
    using Cons.IH [OF vs _ \<open>length es \<le> f\<close>] n info size ex f
    by (auto split: step.split)
qed

lemma wse_loop_repr:
  assumes "ws_repr ws es"
  shows "ws_for_each body ws s = ws_run body es s"
proof -
  have split: "entries ws = ws_encode es @ drop (length (ws_encode es)) (entries ws)"
    using assms by (metis append_take_drop_id ws_repr_def)
  have "length es \<le> length (ws_encode es)"
    by (induction es) (auto simp: wse_encode_def)
  also have "\<dots> \<le> wse_fuel (entries ws)"
    using assms by (simp add: ws_repr_def wse_fuel_def)
  finally have "wse_loop (wse_fuel (entries ws)) body
      (ws_encode es @ drop (length (ws_encode es)) (entries ws))
      (bytes (length (ws_encode es))) s = ws_run body es s"
    using assms by (intro wse_loop_encode) (auto simp: ws_repr_def)
  then show ?thesis
    using split assms by (simp add: ws_for_each_def ws_repr_def)
qed

section \<open>Reserving and appending\<close>

lemma ws_repr_not_disabled: "ws_repr ws es \<Longrightarrow> \<not> sivfs_ws_is_disabled ws"
proof -
  assume r: "ws_repr ws es"
  let ?n = "length (ws_encode es)"
  have n: "?n < 2 ^ 58" and sz: "size_bytes ws = bytes ?n"
    using r by (auto simp: ws_repr_def)
  have "unat (bytes ?n) < 2 ^ 61"
    using n by simp
  then have "\<not> bit (bytes ?n) 63"
    by (rule not_bit_of_small) simp
  then show ?thesis
    unfolding sivfs_ws_is_disabled_def sz SIVFS_WRITESET_DISABLED_FLAG_def
    using word_and_single_bit_iff [of "bytes ?n" 63] by metis
qed

lemma max3_bytes:
  assumes "\<not> n < c" and "n < 2 ^ 58"
  shows "max3_size_t (bytes c * 2) (4 * SIVFS_WRITESET_ENTRY_MIN_SIZE) (bytes n) =
         bytes (max (c + c) (max 20 n))"
proof -
  have "bytes c * 2 = bytes (c + c)" by (simp add: bytes_add)
  moreover have "4 * SIVFS_WRITESET_ENTRY_MIN_SIZE = bytes 20"
    by (simp add: SIVFS_WRITESET_ENTRY_MIN_SIZE_def bytes_def)
  ultimately show ?thesis
    using assms by (simp add: max3_size_t_is_max max_def)
qed

lemma sivfs_writeset_reserve_repr:
  assumes "ws_repr ws es" and "n < 2 ^ 58"
  shows "\<exists>ws'. sivfs_writeset_reserve True ws (bytes n) = (OK, ws') \<and> ws_repr ws' es \<and>
               n \<le> length (entries ws')"
proof -
  let ?c = "length (entries ws)" and ?k = "length (ws_encode es)"
  let ?nc = "max (?c + ?c) (max 20 n)"
  have r: "list_all wse_valid es" "?k < 2 ^ 58" "size_bytes ws = bytes ?k"
      "capacity_bytes ws = bytes ?c" "?c < 2 ^ 59" "?k \<le> ?c"
      "take ?k (entries ws) = ws_encode es"
    using assms(1) by (auto simp: ws_repr_def)
  show ?thesis
  proof (cases "n < ?c")
    case True
    then show ?thesis
      using assms r by (intro exI [of _ ws]) (simp add: sivfs_writeset_reserve_def)
  next
    case False
    then have nc: "?nc < 2 ^ 59" and knc: "?k \<le> ?nc"
      using assms(2) r(6) by auto
    have cap: "max3_size_t (bytes ?c * 2) (4 * SIVFS_WRITESET_ENTRY_MIN_SIZE) (bytes n) = bytes ?nc"
      using False assms(2) by (rule max3_bytes)
    let ?ws' = "ws\<lparr>capacity_bytes := bytes ?nc,
                   entries := ws_encode es @ replicate (?nc - ?k) 0\<rparr>"
    have "sivfs_writeset_reserve True ws (bytes n) = (OK, ?ws')"
      using False assms(2) r nc knc
      by (simp add: sivfs_writeset_reserve_def cap memcpy_words_def Let_def)
    moreover have "ws_repr ?ws' es"
      using r nc knc by (simp add: ws_repr_def)
    ultimately show ?thesis
      using knc by auto
  qed
qed

lemma sivfs_add_to_writeset_repr:
  assumes r: "ws_repr ws es" and v: "wse_valid (e, xs)"
    and bound: "length (ws_encode (es @ [(e, xs)])) < 2 ^ 58"
  shows "\<exists>ws'. sivfs_add_to_writeset True ws (wse_encode (e, xs)) (bytes (5 + length xs)) = (OK, ws') \<and>
               ws_repr ws' (es @ [(e, xs)])"
proof -
  let ?k = "length (ws_encode es)" and ?m = "5 + length xs"
  have b: "?k + ?m < 2 ^ 58" using bound by simp
  obtain ws1 where ws1: "sivfs_writeset_reserve True ws (bytes (?k + ?m)) = (OK, ws1)"
      "ws_repr ws1 es" "?k + ?m \<le> length (entries ws1)"
    using sivfs_writeset_reserve_repr [OF r b] by blast
  have info: "sivfs_wse_to_stream_info e (bytes ?m) = Inr (info_of e)"
    using b by (intro wse_valid_to_stream_info [OF v]) auto
  have size: "sivfs_wse_size (info_of e) = bytes ?m"
    using v by (rule wse_valid_size)
  have sz: "size_bytes ws = bytes ?k" "size_bytes ws1 = bytes ?k"
    using r ws1(2) by (simp_all add: ws_repr_def)
  have rd: "wse_read (wse_encode (e, xs)) = Some e"
    using wse_read_encode [of e xs "[]"] by simp
  have add: "bytes ?k + bytes ?m = bytes (?k + ?m)" by (simp only: bytes_add)
  have wsz: "words_of_bytes (bytes ?m) = ?m" using b by simp
  let ?buf = "take ?k (entries ws1) @ wse_encode (e, xs) @ drop (?k + ?m) (entries ws1)"
  have cp: "memcpy_words (entries ws1) ?k (wse_encode (e, xs)) ?m = Some ?buf"
    using ws1(3) by (simp add: memcpy_words_def)
  let ?ws' = "ws1\<lparr>entries := ?buf, size_bytes := bytes ?k + bytes ?m\<rparr>"
  have "sivfs_add_to_writeset True ws (wse_encode (e, xs)) (bytes ?m) = (OK, ?ws')"
    using ws_repr_not_disabled [OF r] info size sz rd ws1(1) cp b
    by (simp add: sivfs_add_to_writeset_def Let_def add wsz)
  moreover have "ws_repr ?ws' (es @ [(e, xs)])"
    using ws1(2,3) v b by (auto simp: ws_repr_def bytes_add min_def)
  ultimately show ?thesis by blast
qed

section \<open>Entries whose size wraps\<close>

lemma eight_dvd_wse_size: "8 dvd unat (sivfs_wse_size info)"
proof -
  have "sivfs_wse_size info = 8 * (5 + (value_words info - 1))"
    by (simp add: sivfs_wse_size_def SIVFS_WRITESET_ENTRY_MIN_SIZE_def)
  moreover have "8 dvd unat (8 * (w::u64))" for w
    by (simp add: unat_word_ariths dvd_mod)
  ultimately show ?thesis by metis
qed

lemma words_of_wse_size_pos:
  assumes "sivfs_wse_size info \<noteq> 0"
  shows "0 < words_of_bytes (sivfs_wse_size info)"
proof -
  have "unat (sivfs_wse_size info) \<noteq> 0"
    using assms by (simp add: unat_eq_0)
  then have "8 \<le> unat (sivfs_wse_size info)"
    using eight_dvd_wse_size [of info] by (auto dest: dvd_imp_le)
  then show ?thesis by (simp add: words_of_bytes_def)
qed

text \<open>
  The fuel \<open>wse_fuel\<close> is enough: a walk that uses it up has met an entry of size zero, at which
  the C loop stays forever.
\<close>

lemma wse_loop_HANG:
  assumes "wse_loop fuel body mem left s = (HANG, s')" and "length mem < fuel"
    and "\<forall>e i s r s'. body e i s = Stop r s' \<longrightarrow> r \<noteq> HANG"
  shows "\<exists>k ent left' info. wse_read (drop k mem) = Some ent \<and>
           sivfs_wse_to_stream_info ent left' = Inr info \<and> sivfs_wse_size info = 0"
  using assms
proof (induction fuel body mem left s rule: wse_loop.induct)
  case (1 body mem left s)
  then show ?case by simp
next
  case (2 fuel body mem left s)
  then obtain ent info where rd: "wse_read mem = Some ent"
      and info: "sivfs_wse_to_stream_info ent left = Inr info" and nz: "left \<noteq> 0"
    by (auto split: if_splits option.splits sum.splits)
  show ?case
  proof (cases "sivfs_wse_size info = 0")
    case True
    then show ?thesis using rd info by (intro exI [of _ 0]) auto
  next
    case False
    let ?k = "words_of_bytes (sivfs_wse_size info)"
    obtain s1 where s1: "body ent info s = Next s1"
      using 2(2,4) rd info nz by (cases "body ent info s") auto
    have "mem \<noteq> []" using rd by auto
    then have "length (drop ?k mem) < fuel"
      using 2(3) words_of_wse_size_pos [OF False] by (cases mem) auto
    then obtain k ent' left' info' where "wse_read (drop k (drop ?k mem)) = Some ent'"
        "sivfs_wse_to_stream_info ent' left' = Inr info'" "sivfs_wse_size info' = 0"
      using 2(1) [OF nz rd info s1 _ _ 2(4)] 2(2) rd info nz s1 by auto
    then show ?thesis by (auto simp: drop_drop)
  qed
qed

section \<open>Properties\<close>

text \<open>
  C30: the walk that every consumer of a writeset performs (decode the entry, run the body,
  advance by \<^verbatim>\<open>sivfs_wse_size\<close>) over a buffer that holds well-formed entries behaves exactly like
  running the body on these entries in order; it neither leaves the buffer nor runs forever.
\<close>

theorem ws_for_each_visits_entries:
  assumes "ws_repr ws es"
  shows "ws_for_each body ws s = ws_run body es s"
  using assms by (rule wse_loop_repr)

definition example_entry :: sivfs_writeset_entry where
  "example_entry = \<lparr>wse_ino = 7, wse_file_offset = 4104, wse_address = 0, wse_stream_control = 0,
                    wse_value = 42\<rparr>"

definition example_ws :: sivfs_writeset where
  "example_ws = \<lparr>capacity_bytes = 80, size_bytes = 40,
                 entries = [7, 4104, 0, 0, 42, 0, 0, 0, 0, 0]\<rparr>"

lemma example_valid: "wse_valid (example_entry, [])"
  by (simp add: wse_valid_def info_of_def example_entry_def sivfs_wse_to_stream_info_def)

lemma example_repr: "ws_repr example_ws [(example_entry, [])]"
  by (simp add: ws_repr_def example_valid)
     (simp add: example_ws_def example_entry_def wse_encode_def bytes_def)

theorem ws_for_each_visits_entries_witness:
  "ws_repr example_ws [(example_entry, [])] \<and>
   ws_for_each (\<lambda>e i s. Next (s + wse_value e)) example_ws 1 = (OK, 43)"
  using ws_for_each_visits_entries [OF example_repr, of "\<lambda>e i s. Next (s + wse_value e)" 1]
    example_repr
  by (simp add: example_entry_def)

text \<open>
  Appending a well-formed entry with \<^verbatim>\<open>sivfs_add_to_writeset\<close> (when the allocation succeeds)
  succeeds, keeps every entry that was there, in order, and puts the new one last, also across
  the reallocation and copy in \<^verbatim>\<open>sivfs_writeset_reserve\<close>.
\<close>

theorem add_to_writeset_appends:
  assumes "ws_repr ws es" and "wse_valid (e, xs)"
    and "length (ws_encode (es @ [(e, xs)])) < 2 ^ 58"
  shows "\<exists>ws'. sivfs_add_to_writeset True ws (wse_encode (e, xs)) (bytes (5 + length xs)) = (OK, ws') \<and>
               ws_repr ws' (es @ [(e, xs)])"
  using assms by (rule sivfs_add_to_writeset_repr)

theorem add_to_writeset_appends_witness:
  "\<exists>ws'. sivfs_add_to_writeset True example_ws (wse_encode (example_entry, [])) (bytes (5 + length ([]::u64 list))) =
      (OK, ws') \<and> ws_repr ws' ([(example_entry, [])] @ [(example_entry, [])])"
  by (rule add_to_writeset_appends [OF example_repr example_valid])
     (simp add: wse_encode_def example_entry_def)

text \<open>
  When \<^verbatim>\<open>sivfs_add_to_writeset\<close> reports an error number, the writeset is unmodified, whatever
  the entry and the size passed are.
\<close>

theorem add_to_writeset_error_unmodified:
  assumes "sivfs_add_to_writeset ok ws toAdd sz = (E err, ws')"
  shows "ws' = ws"
  using assms
  by (auto simp: sivfs_add_to_writeset_def sivfs_writeset_reserve_def Let_def
      split: if_splits option.splits sum.splits prod.splits rc.splits)

theorem add_to_writeset_error_unmodified_witness:
  "sivfs_add_to_writeset False sivfs_writeset_zero (wse_encode (example_entry, [])) 40
     = (E ENOMEM, sivfs_writeset_zero) \<and> sivfs_writeset_zero = sivfs_writeset_zero"
proof -
  have *: "sivfs_add_to_writeset False sivfs_writeset_zero (wse_encode (example_entry, [])) 40
     = (E ENOMEM, sivfs_writeset_zero)"
    by (simp add: sivfs_add_to_writeset_def wse_encode_def example_entry_def
        sivfs_wse_to_stream_info_def sivfs_writeset_zero_def sivfs_ws_is_disabled_def
        sivfs_writeset_reserve_def sivfs_wse_size_def SIVFS_WRITESET_ENTRY_MIN_SIZE_def)
  show ?thesis using * add_to_writeset_error_unmodified [OF *] by simp
qed

definition wrapping_stream_control :: u64 where
  "wrapping_stream_control = 0x9FFFFFFFFFFFFFFC"

lemma two_power_64_u64: "(18446744073709551616::u64) = 0"
  by simp

lemma wrapping_stream_info:
  assumes "wse_stream_control e = wrapping_stream_control"
  shows "\<exists>info. sivfs_wse_to_stream_info e sz = Inr info \<and> sivfs_wse_size info = 0"
  using assms
  by (simp add: sivfs_wse_to_stream_info_def wrapping_stream_control_def SIVFS_ENTRY_IS_STREAM_def
      SIVFS_STREAM_CONSTANT_def SIVFS_STREAM_FLAGS_def sivfs_wse_size_def
      SIVFS_WRITESET_ENTRY_MIN_SIZE_def Let_def two_power_64_u64)

text \<open>
  C40: an entry whose \<^verbatim>\<open>stream_control\<close> is \<^verbatim>\<open>0x9FFFFFFFFFFFFFFC\<close> (a stream of \<open>2 ^ 61 - 4\<close> words) passes the
  size check of \<^verbatim>\<open>sivfs_wse_to_stream_info\<close> for every claimed size, because the computed entry
  size wraps to zero, and a consumer loop whose body does not leave the loop never gets past it,
  whatever fuel it is given.
\<close>

theorem wrapping_stream_entry_hangs:
  assumes "wse_stream_control e = wrapping_stream_control"
    and "left \<noteq> 0" and "\<And>i s. \<exists>s'. body e i s = Next s'"
  shows "\<exists>s'. wse_loop fuel body (wse_encode (e, xs) @ rest) left s = (HANG, s')"
proof (induction fuel arbitrary: s)
  case 0
  then show ?case using assms(2) by simp
next
  case (Suc fuel)
  obtain info where info: "sivfs_wse_to_stream_info e left = Inr info" "sivfs_wse_size info = 0"
    using wrapping_stream_info [OF assms(1)] by blast
  obtain s1 where "body e info s = Next s1" using assms(3) by blast
  then show ?case using Suc.IH [of s1] info assms(2) by (simp add: words_of_bytes_def)
qed

theorem wrapping_stream_entry_hangs_witness:
  "\<exists>s'. wse_loop 1000 (\<lambda>_ _ n. Next (Suc n))
     (wse_encode (example_entry\<lparr>wse_stream_control := wrapping_stream_control\<rparr>, []) @ []) 40 0 = (HANG, s')"
  by (rule wrapping_stream_entry_hangs) simp_all

end
