(* ===== verification/Radix_Tree.thy ===== *)
theory Radix_Tree
  imports Sivfs_Prelude
begin

text \<open>
  Linux radix trees as the code uses them, and the helpers of \<^verbatim>\<open>kern/sivfs_radix_tree.h\<close>.

  The tree itself belongs to the kernel.  Its documented behaviour is the locale \<open>ordered_map\<close>: a map
  from 64-bit indices with insertion that reports \<^verbatim>\<open>-EEXIST\<close> or \<^verbatim>\<open>-ENOMEM\<close>, deletion, and iteration in
  ascending index order.  The components compute with the representation \<open>rt\<close>, a list sorted by index,
  which is an interpretation of the contract.  A stored null pointer does not occur; the tombstone of
  \<^verbatim>\<open>sivfs_radix_tree.h\<close> is the constructor \<open>Tombstone\<close>.
\<close>

section \<open>Trees\<close>

type_synonym 'v rt = "(u64 \<times> 'v) list"

definition rt_inv :: "'v rt \<Rightarrow> bool" where
  "rt_inv t \<longleftrightarrow> sorted_wrt (<) (map fst t)"

definition radix_tree_lookup :: "'v rt \<Rightarrow> u64 \<Rightarrow> 'v option" where
  "radix_tree_lookup t i = map_of t i"

fun rt_ins :: "u64 \<Rightarrow> 'v \<Rightarrow> 'v rt \<Rightarrow> 'v rt" where
  "rt_ins i v [] = [(i, v)]"
| "rt_ins i v ((j, w) # t) =
     (if i < j then (i, v) # (j, w) # t
      else if i = j then (i, v) # t
      else (j, w) # rt_ins i v t)"

definition radix_tree_insert :: "bool \<Rightarrow> 'v rt \<Rightarrow> u64 \<Rightarrow> 'v \<Rightarrow> rc \<times> 'v rt" where
  "radix_tree_insert mem_ok t i v =
     (if radix_tree_lookup t i \<noteq> None then (E EEXIST, t)
      else if \<not> mem_ok then (E ENOMEM, t)
      else (OK, rt_ins i v t))"

definition radix_tree_delete :: "'v rt \<Rightarrow> u64 \<Rightarrow> 'v rt" where
  "radix_tree_delete t i = filter (\<lambda>(j, _). j \<noteq> i) t"

text \<open>The slots an iteration that starts at index \<open>start\<close> visits, in order.\<close>

definition rt_from :: "'v rt \<Rightarrow> u64 \<Rightarrow> 'v rt" where
  "rt_from t start = dropWhile (\<lambda>(j, _). j < start) t"

section \<open>The contract\<close>

locale ordered_map =
  fixes lookup :: "'t \<Rightarrow> u64 \<Rightarrow> 'v option"
    and insert :: "bool \<Rightarrow> 't \<Rightarrow> u64 \<Rightarrow> 'v \<Rightarrow> rc \<times> 't"
    and delete :: "'t \<Rightarrow> u64 \<Rightarrow> 't"
    and slots :: "'t \<Rightarrow> u64 \<Rightarrow> (u64 \<times> 'v) list"
    and inv :: "'t \<Rightarrow> bool"
  assumes insert_exists: "inv t \<Longrightarrow> lookup t i \<noteq> None \<Longrightarrow> insert ok t i v = (E EEXIST, t)"
    and insert_nomem: "inv t \<Longrightarrow> lookup t i = None \<Longrightarrow> insert False t i v = (E ENOMEM, t)"
    and insert_new: "inv t \<Longrightarrow> lookup t i = None \<Longrightarrow>
           \<exists>t'. insert True t i v = (OK, t') \<and> inv t' \<and> lookup t' = (lookup t)(i \<mapsto> v)"
    and delete_lookup: "inv t \<Longrightarrow> inv (delete t i) \<and> lookup (delete t i) = (lookup t)(i := None)"
    and slots_sorted: "inv t \<Longrightarrow> sorted_wrt (<) (map fst (slots t start))"
    and slots_lookup: "inv t \<Longrightarrow> (i, v) \<in> set (slots t start) \<longleftrightarrow> lookup t i = Some v \<and> start \<le> i"
begin

text \<open>What the searches of the code rely on: the first slot visited is the one with the least index.\<close>

lemma slots_first_least:
  assumes "inv t" and "slots t start = (i, v) # rest"
  shows "lookup t i = Some v \<and> start \<le> i \<and> (\<forall>j w. lookup t j = Some w \<longrightarrow> start \<le> j \<longrightarrow> i \<le> j)"
proof -
  have 1: "lookup t i = Some v \<and> start \<le> i"
    using slots_lookup [OF assms(1), of i v start] assms(2) by simp
  have "i \<le> j" if "lookup t j = Some w" "start \<le> j" for j w
  proof -
    have "(j, w) \<in> set ((i, v) # rest)"
      using slots_lookup [OF assms(1), of j w start] that assms(2) by simp
    moreover have "\<forall>x \<in> set (map fst rest). i < x"
      using slots_sorted [OF assms(1), of start] assms(2) by simp
    ultimately show ?thesis by force
  qed
  with 1 show ?thesis by blast
qed

lemma slots_Nil:
  assumes "inv t" and "slots t start = []" and "lookup t j = Some w"
  shows "j < start"
  using slots_lookup [OF assms(1), of j w start] assms(2,3) by fastforce

end

section \<open>The representation keeps the contract\<close>

lemma rt_inv_Nil [simp]: "rt_inv []"
  by (simp add: rt_inv_def)

lemma rt_inv_Cons [simp]: "rt_inv ((i, v) # t) \<longleftrightarrow> (\<forall>j \<in> fst ` set t. i < j) \<and> rt_inv t"
  by (simp add: rt_inv_def)

lemma rt_inv_distinct: "rt_inv t \<Longrightarrow> distinct (map fst t)"
  by (simp add: rt_inv_def strict_sorted_iff)

lemma fst_set_rt_ins [simp]: "fst ` set (rt_ins i v t) = Set.insert i (fst ` set t)"
  by (induction i v t rule: rt_ins.induct) auto

lemma rt_inv_ins [simp]: "rt_inv t \<Longrightarrow> rt_inv (rt_ins i v t)"
  by (induction i v t rule: rt_ins.induct) (auto simp: rt_inv_def dest: order_less_trans)

lemma map_of_rt_ins [simp]: "map_of (rt_ins i v t) = (map_of t)(i \<mapsto> v)"
  by (induction i v t rule: rt_ins.induct) (auto simp: fun_eq_iff)

lemma rt_inv_filter [simp]: "rt_inv t \<Longrightarrow> rt_inv (filter P t)"
  by (induction t) auto

lemma map_of_rt_delete [simp]: "map_of (filter (\<lambda>(j, _). j \<noteq> i) t) = (map_of t)(i := None)"
  by (induction t) (auto simp: fun_eq_iff)

lemma rt_from_set:
  "rt_inv t \<Longrightarrow> set (rt_from t start) = {(j, w). (j, w) \<in> set t \<and> start \<le> j}"
proof (induction t)
  case Nil
  then show ?case by (simp add: rt_from_def)
next
  case (Cons p t)
  obtain i v where p: "p = (i, v)" by fastforce
  show ?case
  proof (cases "i < start")
    case True
    then show ?thesis using Cons p by (auto simp: rt_from_def)
  next
    case False
    then have "start \<le> j" if "(j, w) \<in> set t" for j w
      using Cons.prems p that by (fastforce dest: order_less_imp_le)
    with False show ?thesis using p by (auto simp: rt_from_def)
  qed
qed

lemma rt_inv_suffix: "rt_inv (ys @ xs) \<Longrightarrow> rt_inv xs"
  by (simp add: rt_inv_def sorted_wrt_append)

lemma rt_inv_from: "rt_inv t \<Longrightarrow> rt_inv (rt_from t start)"
  unfolding rt_from_def by (metis rt_inv_suffix takeWhile_dropWhile_id)

interpretation rtree: ordered_map radix_tree_lookup radix_tree_insert radix_tree_delete rt_from rt_inv
proof unfold_locales
  fix t :: "'v rt" and i v start
  assume i: "rt_inv t"
  show "(i, v) \<in> set (rt_from t start) \<longleftrightarrow> radix_tree_lookup t i = Some v \<and> start \<le> i"
    using rt_from_set [OF i] rt_inv_distinct [OF i]
    by (auto simp: radix_tree_lookup_def)
  show "sorted_wrt (<) (map fst (rt_from t start))"
    using rt_inv_from [OF i] by (simp add: rt_inv_def)
  show "rt_inv (radix_tree_delete t i) \<and>
        radix_tree_lookup (radix_tree_delete t i) = (radix_tree_lookup t)(i := None)"
    using i by (simp add: radix_tree_delete_def radix_tree_lookup_def fun_eq_iff)
qed (auto simp: radix_tree_insert_def radix_tree_lookup_def fun_eq_iff)

section \<open>The helpers of sivfs\_radix\_tree.h\<close>

datatype 'v slot = Tombstone | Ptr 'v

definition sivfs_radix_tree_size :: "'v rt \<Rightarrow> nat" where
  "sivfs_radix_tree_size t = fold (\<lambda>_ n. n + 1) (rt_from t 0) 0"

definition sivfs_radix_tree_empty :: "'v rt \<Rightarrow> bool" where
  "sivfs_radix_tree_empty t = (case rt_from t 0 of [] \<Rightarrow> True | _ # _ \<Rightarrow> False)"

definition sivfs_radix_tree_tombstone :: "'v slot rt \<Rightarrow> u64 \<Rightarrow> 'v slot rt" where
  "sivfs_radix_tree_tombstone t i =
     (case radix_tree_lookup t i of None \<Rightarrow> t | Some _ \<Rightarrow> rt_ins i Tombstone t)"

text \<open>
  One round of the clearing loop collects at most 16 indices and deletes them; the loop ends with the
  first round that collects none.
\<close>

definition clear_round :: "'v rt \<Rightarrow> u64 list" where
  "clear_round t = map fst (take 16 (rt_from t 0))"

function sivfs_radix_tree_clear :: "'v rt \<Rightarrow> 'v rt" where
  "sivfs_radix_tree_clear t =
     (let indices = clear_round t;
          t' = fold (\<lambda>i t. radix_tree_delete t i) indices t
      in if length indices > 0 then sivfs_radix_tree_clear t' else t')"
  by pat_completeness auto

lemma rt_from_0 [simp]: "rt_from t 0 = t"
  by (induction t) (auto simp: rt_from_def)

lemma fold_delete_eq:
  "fold (\<lambda>i t. radix_tree_delete t i) is t = filter (\<lambda>(j, _). j \<notin> set is) t"
  by (induction "is" arbitrary: t)
     (auto simp: radix_tree_delete_def intro!: filter_cong)

termination sivfs_radix_tree_clear
proof (relation "measure length")
  fix t :: "'v rt" and indices t'
  assume "indices = clear_round t" and "t' = fold (\<lambda>i t. radix_tree_delete t i) indices t"
    and "length indices > 0"
  then have "t \<noteq> []" and t': "t' = filter (\<lambda>(j, _). j \<notin> set (clear_round t)) t"
    by (auto simp: clear_round_def fold_delete_eq)
  then obtain p rest where "t = p # rest" and "fst p \<in> set (clear_round t)"
    by (cases t) (auto simp: clear_round_def)
  then have "length t' < length t"
    using t' by (cases p) (auto simp: less_Suc_eq_le)
  then show "(t', t) \<in> measure length" by simp
qed simp

definition sivfs_radix_tree_set ::
  "bool \<Rightarrow> 'v slot rt \<Rightarrow> u64 \<Rightarrow> 'v \<Rightarrow> rc \<times> 'v slot rt" where
  "sivfs_radix_tree_set mem_ok t i entry =
     (case radix_tree_lookup t i of
        None \<Rightarrow> radix_tree_insert mem_ok t i (Ptr entry)
      | Some Tombstone \<Rightarrow> radix_tree_insert mem_ok (radix_tree_delete t i) i (Ptr entry)
      | Some (Ptr e) \<Rightarrow> if e = entry then (OK, t) else (E EEXIST, t))"

declare sivfs_radix_tree_clear.simps [simp del]

section \<open>Properties\<close>

text \<open>
  \<^verbatim>\<open>sivfs_radix_tree_clear\<close>, which deletes at most 16 slots per round, terminates and leaves an
  empty tree.
\<close>

theorem radix_tree_clear_empties: "sivfs_radix_tree_empty (sivfs_radix_tree_clear t)"
proof (induction t rule: sivfs_radix_tree_clear.induct)
  case (1 t)
  show ?case
  proof (cases "clear_round t = []")
    case True
    then have "t = []" by (simp add: clear_round_def)
    then show ?thesis
      by (subst sivfs_radix_tree_clear.simps)
         (simp add: clear_round_def sivfs_radix_tree_empty_def)
  next
    case False
    then show ?thesis
      using "1.IH" [OF refl refl] by (subst sivfs_radix_tree_clear.simps) (simp add: Let_def)
  qed
qed

text \<open>
  \<^verbatim>\<open>sivfs_radix_tree_set\<close> makes the index hold the entry when it was absent, a tombstone or already
  equal, reports \<^verbatim>\<open>-EEXIST\<close> and changes nothing when another entry is there, and leaves every other
  index alone in all cases.
\<close>

theorem radix_tree_set_behaviour:
  assumes "rt_inv t" and "sivfs_radix_tree_set ok t i e = (r, t')"
  shows "rt_inv t' \<and>
    (r = OK \<longrightarrow> radix_tree_lookup t' i = Some (Ptr e)) \<and>
    (r = E EEXIST \<longrightarrow> t' = t \<and> (\<exists>e'. e' \<noteq> e \<and> radix_tree_lookup t i = Some (Ptr e'))) \<and>
    (\<forall>j. j \<noteq> i \<longrightarrow> radix_tree_lookup t' j = radix_tree_lookup t j)"
  using assms
  by (auto simp: sivfs_radix_tree_set_def radix_tree_insert_def radix_tree_lookup_def
      radix_tree_delete_def split: option.splits slot.splits if_splits)

theorem radix_tree_set_behaviour_witness:
  "sivfs_radix_tree_set True [(3, Tombstone), (9, Ptr True)] 3 False =
     (OK, [(3, Ptr False), (9, Ptr True)]) \<and>
   radix_tree_lookup [(3, Ptr False), (9, Ptr True)] 3 = Some (Ptr False)"
proof -
  have *: "sivfs_radix_tree_set True [(3, Tombstone), (9, Ptr True)] 3 False =
     (OK, [(3, Ptr False), (9, Ptr True)])"
    by (simp add: sivfs_radix_tree_set_def radix_tree_lookup_def radix_tree_delete_def
        radix_tree_insert_def)
  show ?thesis using * radix_tree_set_behaviour [OF _ *] by simp
qed

end
