(* ===== verification/Sivfs_Stack.thy ===== *)
theory Sivfs_Stack
  imports Sivfs_Prelude
begin

text \<open>
  The growable array of \<^verbatim>\<open>kern/sivfs_stack.h\<close>, used for obsoleted pages, blocked garbage-collection
  entries and checked-out versions.  Sizes are natural numbers (a stack of \<open>2 ^ 61\<close> pointers does not
  fit in memory); whether \<^verbatim>\<open>vzalloc\<close> succeeds is an argument.  The contract a client relies on is the
  locale \<open>lifo\<close>; the stack of the code is its interpretation \<open>stk\<close>.
\<close>

section \<open>The data structure\<close>

record sivfs_stack =
  stack_size :: nat
  stack_capacity :: nat
  stack_values :: "u64 list"

definition sivfs_new_stack :: "bool \<Rightarrow> rc \<times> sivfs_stack" where
  "sivfs_new_stack kzalloc_ok =
     (if kzalloc_ok then (OK, \<lparr>stack_size = 0, stack_capacity = 0, stack_values = []\<rparr>)
      else (E ENOMEM, \<lparr>stack_size = 0, stack_capacity = 0, stack_values = []\<rparr>))"

definition sivfs_stack_empty :: "sivfs_stack \<Rightarrow> bool" where
  "sivfs_stack_empty st \<longleftrightarrow> stack_size st = 0"

definition sivfs_stack_reserve :: "bool \<Rightarrow> sivfs_stack \<Rightarrow> nat \<Rightarrow> rc \<times> sivfs_stack" where
  "sivfs_stack_reserve vzalloc_ok st new_capacity =
     (if new_capacity \<ge> stack_capacity st then
        let new_capacity' = max (stack_capacity st * 2) (max 4 new_capacity)
        in if \<not> vzalloc_ok then (E ENOMEM, st)
           else (OK, st\<lparr>stack_capacity := new_capacity',
                        stack_values := take (stack_size st) (stack_values st) @
                                        replicate (new_capacity' - stack_size st) 0\<rparr>)
      else (OK, st))"

definition sivfs_stack_push :: "bool \<Rightarrow> sivfs_stack \<Rightarrow> u64 \<Rightarrow> rc \<times> sivfs_stack" where
  "sivfs_stack_push vzalloc_ok st value =
     (let new_size = stack_size st + 1
      in case sivfs_stack_reserve vzalloc_ok st new_size of
           (OK, st') \<Rightarrow> (OK, st'\<lparr>stack_values := (stack_values st')[stack_size st' := value],
                                stack_size := new_size\<rparr>)
         | (r, st') \<Rightarrow> (r, st'))"

fun stack_push_loop :: "sivfs_stack \<Rightarrow> u64 list \<Rightarrow> sivfs_stack" where
  "stack_push_loop st [] = st"
| "stack_push_loop st (v # vs) =
     stack_push_loop (st\<lparr>stack_values := (stack_values st)[stack_size st := v],
                         stack_size := stack_size st + 1\<rparr>) vs"

text \<open>A null \<^verbatim>\<open>stack_dest\<close> or \<^verbatim>\<open>stack_src\<close> is \<open>None\<close>.\<close>

definition sivfs_stack_push_all ::
  "bool \<Rightarrow> sivfs_stack option \<Rightarrow> sivfs_stack option \<Rightarrow> rc \<times> sivfs_stack option" where
  "sivfs_stack_push_all vzalloc_ok stack_dest stack_src =
     (case (stack_dest, stack_src) of
        (Some dest, Some src) \<Rightarrow>
          (let nadd = stack_size src;
               new_size = stack_size dest + nadd
           in case sivfs_stack_reserve vzalloc_ok dest new_size of
                (OK, dest') \<Rightarrow> (OK, Some (stack_push_loop dest' (take nadd (stack_values src))))
              | (r, dest') \<Rightarrow> (r, Some dest'))
      | _ \<Rightarrow> (E EINVAL, stack_dest))"

definition sivfs_stack_peek :: "sivfs_stack \<Rightarrow> u64" where
  "sivfs_stack_peek st =
     (if sivfs_stack_empty st then 0 else stack_values st ! (stack_size st - 1))"

definition sivfs_stack_pop :: "sivfs_stack \<Rightarrow> u64 \<times> sivfs_stack" where
  "sivfs_stack_pop st =
     (if sivfs_stack_empty st then (0, st)
      else (stack_values st ! (stack_size st - 1), st\<lparr>stack_size := stack_size st - 1\<rparr>))"

text \<open>
  The C code moves the tail with \<^verbatim>\<open>memcpy\<close> although source and destination overlap; the model
  copies in ascending order.
\<close>

definition sivfs_stack_remove :: "sivfs_stack \<Rightarrow> nat \<Rightarrow> sivfs_stack" where
  "sivfs_stack_remove st i =
     (if i \<ge> stack_size st then st
      else let trailing = stack_size st - i - 1
           in st\<lparr>stack_values := take i (stack_values st) @
                                 take trailing (drop (i + 1) (stack_values st)) @
                                 drop (i + trailing) (stack_values st),
                 stack_size := stack_size st - 1\<rparr>)"

section \<open>The contract of a stack\<close>

locale lifo =
  fixes push :: "bool \<Rightarrow> 's \<Rightarrow> u64 \<Rightarrow> rc \<times> 's"
    and pop :: "'s \<Rightarrow> u64 \<times> 's"
    and peek :: "'s \<Rightarrow> u64"
    and is_empty :: "'s \<Rightarrow> bool"
    and elems :: "'s \<Rightarrow> u64 list"
    and inv :: "'s \<Rightarrow> bool"
  assumes push_ok: "inv s \<Longrightarrow> \<exists>s'. push True s v = (OK, s') \<and> inv s' \<and> elems s' = elems s @ [v]"
    and push_fail: "inv s \<Longrightarrow> push ok s v = (r, s') \<Longrightarrow> r \<noteq> OK \<Longrightarrow> r = E ENOMEM \<and> s' = s"
    and push_any: "inv s \<Longrightarrow> push ok s v = (OK, s') \<Longrightarrow> inv s' \<and> elems s' = elems s @ [v]"
    and pop_elems: "inv s \<Longrightarrow> elems s \<noteq> [] \<Longrightarrow>
                    inv (snd (pop s)) \<and> fst (pop s) = last (elems s) \<and>
                    elems (snd (pop s)) = butlast (elems s)"
    and peek_elems: "inv s \<Longrightarrow> elems s \<noteq> [] \<Longrightarrow> peek s = last (elems s)"
    and is_empty_iff: "inv s \<Longrightarrow> is_empty s \<longleftrightarrow> elems s = []"
begin

lemma push_then_pop:
  assumes "inv s" and "push ok s v = (OK, s')"
  shows "fst (pop s') = v \<and> elems (snd (pop s')) = elems s \<and> \<not> is_empty s'"
  using push_any [OF assms] pop_elems [of s'] is_empty_iff [of s'] by simp

fun push_list :: "'s \<Rightarrow> u64 list \<Rightarrow> 's" where
  "push_list s [] = s"
| "push_list s (v # vs) = push_list (snd (push True s v)) vs"

lemma push_list_elems: "inv s \<Longrightarrow> inv (push_list s vs) \<and> elems (push_list s vs) = elems s @ vs"
proof (induction vs arbitrary: s)
  case Nil
  then show ?case by simp
next
  case (Cons v vs)
  obtain s' where s': "push True s v = (OK, s')" "inv s'" "elems s' = elems s @ [v]"
    using push_ok [OF Cons.prems] by blast
  then show ?case using Cons.IH [of s'] by simp
qed

end

section \<open>The code's stack keeps the contract\<close>

definition stack_elems :: "sivfs_stack \<Rightarrow> u64 list" where
  "stack_elems st = take (stack_size st) (stack_values st)"

definition stack_inv :: "sivfs_stack \<Rightarrow> bool" where
  "stack_inv st \<longleftrightarrow> length (stack_values st) = stack_capacity st \<and>
                   stack_size st \<le> stack_capacity st"

lemma stack_reserve_ok:
  assumes "stack_inv st"
  shows "\<exists>st'. sivfs_stack_reserve True st n = (OK, st') \<and> stack_inv st' \<and>
               stack_elems st' = stack_elems st \<and> stack_size st' = stack_size st \<and>
               n \<le> stack_capacity st'"
  using assms
  by (auto simp: sivfs_stack_reserve_def stack_inv_def stack_elems_def Let_def)

lemma stack_reserve_cases:
  assumes "stack_inv st" and "sivfs_stack_reserve ok st n = (r, st')"
  shows "(r = OK \<and> stack_inv st' \<and> stack_elems st' = stack_elems st \<and>
           stack_size st' = stack_size st \<and> n \<le> stack_capacity st') \<or> (r = E ENOMEM \<and> st' = st)"
  using assms
  by (auto simp: sivfs_stack_reserve_def stack_inv_def stack_elems_def Let_def split: if_splits)

lemma stack_store:
  assumes "stack_inv st" and "stack_size st < stack_capacity st"
  shows "stack_inv (st\<lparr>stack_values := (stack_values st)[stack_size st := v],
                      stack_size := stack_size st + 1\<rparr>)"
    and "stack_elems (st\<lparr>stack_values := (stack_values st)[stack_size st := v],
                        stack_size := stack_size st + 1\<rparr>) = stack_elems st @ [v]"
  using assms by (auto simp: stack_inv_def stack_elems_def take_Suc_conv_app_nth)

lemma stack_push_cases:
  assumes "stack_inv st" and "sivfs_stack_push ok st v = (r, st')"
  shows "(r = OK \<and> stack_inv st' \<and> stack_elems st' = stack_elems st @ [v]) \<or>
         (r = E ENOMEM \<and> st' = st)"
proof -
  obtain r1 st1 where r1: "sivfs_stack_reserve ok st (stack_size st + 1) = (r1, st1)"
    by fastforce
  from stack_reserve_cases [OF assms(1) r1] show ?thesis
  proof
    assume *: "r1 = OK \<and> stack_inv st1 \<and> stack_elems st1 = stack_elems st \<and>
      stack_size st1 = stack_size st \<and> stack_size st + 1 \<le> stack_capacity st1"
    then show ?thesis
      using assms(2) r1 stack_store [of st1 v] by (auto simp: sivfs_stack_push_def Let_def)
  next
    assume "r1 = E ENOMEM \<and> st1 = st"
    then show ?thesis using assms(2) r1 by (auto simp: sivfs_stack_push_def Let_def)
  qed
qed

lemma stack_push_True: "stack_inv st \<Longrightarrow> fst (sivfs_stack_push True st v) = OK"
  using stack_reserve_ok [of st "stack_size st + 1"] by (auto simp: sivfs_stack_push_def Let_def)

lemma stack_elems_Nil: "stack_inv st \<Longrightarrow> stack_elems st = [] \<longleftrightarrow> stack_size st = 0"
  by (auto simp: stack_inv_def stack_elems_def)

lemma stack_last:
  assumes "stack_inv st" and "stack_elems st \<noteq> []"
  shows "stack_values st ! (stack_size st - 1) = last (stack_elems st)"
  using assms by (auto simp: stack_inv_def stack_elems_def last_conv_nth min_def)

interpretation stk: lifo sivfs_stack_push sivfs_stack_pop sivfs_stack_peek sivfs_stack_empty
  stack_elems stack_inv
proof unfold_locales
  fix s v assume "stack_inv s"
  then show "\<exists>s'. sivfs_stack_push True s v = (OK, s') \<and> stack_inv s' \<and>
               stack_elems s' = stack_elems s @ [v]"
    using stack_push_cases [of s True v] stack_push_True [of s v]
    by (cases "sivfs_stack_push True s v") auto
next
  fix s ok v r s'
  assume "stack_inv s" "sivfs_stack_push ok s v = (r, s')" "r \<noteq> OK"
  then show "r = E ENOMEM \<and> s' = s" using stack_push_cases by blast
next
  fix s ok v s'
  assume "stack_inv s" "sivfs_stack_push ok s v = (OK, s')"
  then show "stack_inv s' \<and> stack_elems s' = stack_elems s @ [v]" using stack_push_cases by blast
next
  fix s assume i: "stack_inv s" "stack_elems s \<noteq> []"
  then have "0 < stack_size s" by (simp add: stack_elems_Nil)
  then show "stack_inv (snd (sivfs_stack_pop s)) \<and>
      fst (sivfs_stack_pop s) = last (stack_elems s) \<and>
      stack_elems (snd (sivfs_stack_pop s)) = butlast (stack_elems s)"
    using stack_last [OF i] i
    by (auto simp: sivfs_stack_pop_def sivfs_stack_empty_def stack_inv_def stack_elems_def
        butlast_take)
next
  fix s assume "stack_inv s" "stack_elems s \<noteq> []"
  then show "sivfs_stack_peek s = last (stack_elems s)"
    using stack_last [of s] by (simp add: sivfs_stack_peek_def sivfs_stack_empty_def stack_elems_Nil)
next
  fix s assume "stack_inv s"
  then show "sivfs_stack_empty s \<longleftrightarrow> stack_elems s = []"
    by (simp add: sivfs_stack_empty_def stack_elems_Nil)
qed

lemma stack_push_loop_elems:
  assumes "stack_inv st" and "stack_size st + length vs \<le> stack_capacity st"
  shows "stack_inv (stack_push_loop st vs) \<and>
         stack_elems (stack_push_loop st vs) = stack_elems st @ vs"
  using assms
proof (induction vs arbitrary: st)
  case Nil
  then show ?case by simp
next
  case (Cons v vs)
  let ?st = "st\<lparr>stack_values := (stack_values st)[stack_size st := v],
                stack_size := stack_size st + 1\<rparr>"
  have "stack_size st < stack_capacity st" using Cons.prems(2) by simp
  with stack_store [OF Cons.prems(1)] have "stack_inv ?st" "stack_elems ?st = stack_elems st @ [v]"
    by auto
  with Cons.IH [of ?st] Cons.prems(2) show ?case by simp
qed

section \<open>Properties\<close>

lemma stack_push_all_cases:
  assumes "stack_inv dest" and "stack_inv src"
    and "sivfs_stack_push_all ok (Some dest) (Some src) = (r, d')"
  shows "(\<exists>dest'. r = OK \<and> d' = Some dest' \<and> stack_inv dest' \<and>
             stack_elems dest' = stack_elems dest @ stack_elems src) \<or>
         (r = E ENOMEM \<and> d' = Some dest)"
proof -
  obtain r1 d1 where r1: "sivfs_stack_reserve ok dest (stack_size dest + stack_size src) = (r1, d1)"
    by fastforce
  have "length (stack_elems src) = stack_size src"
    using assms(2) by (simp add: stack_inv_def stack_elems_def)
  with stack_reserve_cases [OF assms(1) r1] stack_push_loop_elems [of d1 "stack_elems src"] assms(3) r1
  show ?thesis
    by (auto simp: sivfs_stack_push_all_def stack_elems_def [of src] Let_def)
qed

definition example_stack :: "u64 list \<Rightarrow> sivfs_stack" where
  "example_stack vs = \<lparr>stack_size = length vs, stack_capacity = length vs, stack_values = vs\<rparr>"

text \<open>
  \<^verbatim>\<open>sivfs_stack_push_all\<close> is all or nothing: either it succeeds and the destination holds its old
  elements followed by all elements of the source, or it reports \<^verbatim>\<open>-ENOMEM\<close> and the destination is
  unmodified.
\<close>

theorem stack_push_all_atomic:
  assumes "stack_inv dest" and "stack_inv src"
    and "sivfs_stack_push_all ok (Some dest) (Some src) = (r, d')"
  shows "(\<exists>dest'. r = OK \<and> d' = Some dest' \<and> stack_inv dest' \<and>
             stack_elems dest' = stack_elems dest @ stack_elems src) \<or>
         (r = E ENOMEM \<and> d' = Some dest)"
  by (rule stack_push_all_cases [OF assms])

theorem stack_push_all_atomic_witness:
  "\<exists>dest'. sivfs_stack_push_all True (Some (example_stack [1])) (Some (example_stack [2, 3])) =
      (OK, Some dest') \<and> stack_elems dest' = [1, 2, 3]"
proof -
  have i: "stack_inv (example_stack vs)" for vs
    by (simp add: stack_inv_def example_stack_def)
  obtain d where d: "sivfs_stack_push_all True (Some (example_stack [1])) (Some (example_stack [2, 3]))
      = (OK, Some d)"
    by (simp add: sivfs_stack_push_all_def example_stack_def sivfs_stack_reserve_def)
  show ?thesis
    using stack_push_all_atomic [OF i i d] d by (auto simp: stack_elems_def example_stack_def)
qed

text \<open>
  \<^verbatim>\<open>sivfs_stack_remove\<close> with an index in range removes exactly the element at that index and
  keeps the order of the others; out of range it changes nothing.
\<close>

theorem stack_remove_elems:
  assumes "stack_inv st"
  shows "stack_inv (sivfs_stack_remove st i) \<and>
         stack_elems (sivfs_stack_remove st i) =
           take i (stack_elems st) @ drop (Suc i) (stack_elems st)"
proof (cases "i < stack_size st")
  case True
  define t where "t = stack_size st - Suc i"
  define A where "A = take i (stack_values st)"
  define B where "B = take t (drop (Suc i) (stack_values st))"
  have len: "stack_size st \<le> length (stack_values st)"
    using assms by (simp add: stack_inv_def)
  have n: "stack_size st = Suc (i + t)" using True by (simp add: t_def)
  have lA: "length A = i" and lB: "length B = t"
    using True len by (simp_all add: A_def B_def t_def)
  have "take (Suc i + t) (stack_values st) = take (Suc i) (stack_values st) @ B"
    unfolding B_def by (rule take_add)
  also have "take (Suc i) (stack_values st) = A @ [stack_values st ! i]"
    using True len by (simp add: A_def take_Suc_conv_app_nth)
  finally have el: "stack_elems st = A @ [stack_values st ! i] @ B"
    by (simp add: stack_elems_def n)
  define st' where
    "st' = st\<lparr>stack_values := A @ B @ drop (i + t) (stack_values st), stack_size := i + t\<rparr>"
  have st': "sivfs_stack_remove st i = st'"
    using True n by (simp add: sivfs_stack_remove_def A_def B_def st'_def)
  have "stack_elems st' = A @ B"
    by (simp add: stack_elems_def st'_def lA lB)
  moreover have "take i (stack_elems st) @ drop (Suc i) (stack_elems st) = A @ B"
    by (simp add: el lA)
  moreover have "stack_inv st'"
    using assms len n by (simp add: stack_inv_def st'_def lA lB)
  ultimately show ?thesis by (simp add: st')
next
  case False
  with assms show ?thesis
    by (simp add: sivfs_stack_remove_def stack_inv_def stack_elems_def)
qed

theorem stack_remove_elems_witness:
  "stack_elems (sivfs_stack_remove (example_stack [5, 6, 7]) 1) = [5, 7]"
  using stack_remove_elems [of "example_stack [5, 6, 7]" 1]
  by (simp add: stack_inv_def example_stack_def stack_elems_def [of "example_stack [5, 6, 7]"])
     (simp add: stack_elems_def example_stack_def)?

end
