(* ===== verification/Checkpoints.thy ===== *)
theory Checkpoints
  imports Writeset Radix_Tree Sivfs_Stack
begin

text \<open>
  Checkpoint pages and checkpoint trees, \<^verbatim>\<open>kern/sivfs_checkpoints.h\<close>, \<^verbatim>\<open>kern/sivfs_checkpoints.c\<close> and the
  page-table helpers of \<^verbatim>\<open>kern/sivfs_mm.h\<close>.

  A \<^verbatim>\<open>struct page*\<close> is identified with the physical address of its page, and \<^verbatim>\<open>NULL\<close> with address 0.
  All checkpoint pages live in one store, \<open>cps_pages\<close>, a map from addresses to pages.  A page holds 512
  words, which are page-table entries above level 0 and file contents at level 0.

  Parameters that stand for kernel code: \<open>mmu\<close> holds the kernel's flag and mask constants, and
  \<open>cps_supply\<close> says what the next calls of \<^verbatim>\<open>alloc_page\<close> and \<^verbatim>\<open>kzalloc\<close> in \<^verbatim>\<open>sivfs_new_checkpoint_page\<close> give
  (a page with arbitrary old contents, or a failure).  The configuration is the one of
  \<^verbatim>\<open>sivfs_config.h\<close>: \<^verbatim>\<open>SIVFS_FIGURE_CHECKOUT_CPS\<close> is off, so the code under that flag is not compiled.
\<close>

section \<open>Page-table entries (sivfs\_mm.h)\<close>

record mmu =
  PTE_PFN_MASK :: u64
  PAGE_TABLE_FLAGS :: u64
  PAGE_READONLY_EXEC :: u64

definition PAGE_ROUND_DOWN :: "u64 \<Rightarrow> u64" where
  "PAGE_ROUND_DOWN a = (a div PAGE_SIZE) * PAGE_SIZE"

definition PAGE_ROUND_UP :: "u64 \<Rightarrow> u64" where
  "PAGE_ROUND_UP a = PAGE_ROUND_DOWN (a + PAGE_SIZE - 1)"

definition sivfs_pxd_to_pa :: "mmu \<Rightarrow> u64 \<Rightarrow> u64" where
  "sivfs_pxd_to_pa m entry = entry AND PTE_PFN_MASK m"

definition sivfs_pxd_present :: "mmu \<Rightarrow> u64 \<Rightarrow> bool" where
  "sivfs_pxd_present m entry \<longleftrightarrow> sivfs_pxd_to_pa m entry \<noteq> 0"

definition sivfs_mk_pxd_ent :: "mmu \<Rightarrow> u64 \<Rightarrow> u64" where
  "sivfs_mk_pxd_ent m pa = pa OR PAGE_TABLE_FLAGS m"

definition sivfs_mk_pte :: "mmu \<Rightarrow> u64 \<Rightarrow> u64" where
  "sivfs_mk_pte m pa = pa OR PAGE_READONLY_EXEC m"

section \<open>Checkpoint pages\<close>

record sivfs_checkpoint_pginfo =
  pgi_checkpoint_ts :: sivfs_ts
  pgi_obsoleted_ts :: sivfs_ts
  pgi_level :: nat
  pgi_is_pmd :: bool
  pgi_is_pte :: bool
  pgi_is_zero_page :: bool
  pgi_is_noprivate :: bool
  pgi_order :: nat

record cp_page =
  page_mem :: page_mem
  page_info :: "sivfs_checkpoint_pginfo option"
  page_index :: u64
  page_refct :: int
  page_mapct :: int
  page_locked :: bool

datatype page_grant = NoPage | NoPginfo u64 | HighMem u64 | Grant u64 page_mem

record cp_store =
  cps_pages :: "u64 \<Rightarrow> cp_page option"
  cps_npages :: int
  cps_supply :: "page_grant list"
  cps_zero_page :: u64
  cps_zero_pxd :: "nat \<Rightarrow> u64"
  cps_zero_refcount :: int

definition SIVFS_MAX_CHECKPOINT_PAGES :: int where
  "SIVFS_MAX_CHECKPOINT_PAGES = 4000 * 2 ^ 20 div 4096"

definition sivfs_is_checkpoint_page :: "cp_store \<Rightarrow> u64 \<Rightarrow> bool" where
  "sivfs_is_checkpoint_page st page \<longleftrightarrow>
     page = cps_zero_page st \<or> cps_pages st page \<noteq> None"

definition sivfs_checkpoint_page_to_pginfo ::
  "cp_store \<Rightarrow> u64 \<Rightarrow> sivfs_checkpoint_pginfo option" where
  "sivfs_checkpoint_page_to_pginfo st page =
     (case cps_pages st page of None \<Rightarrow> None | Some p \<Rightarrow> page_info p)"

definition sivfs_is_zero_page :: "cp_store \<Rightarrow> u64 \<Rightarrow> bool" where
  "sivfs_is_zero_page st page \<longleftrightarrow> page = cps_zero_page st \<or>
     (case sivfs_checkpoint_page_to_pginfo st page of
        None \<Rightarrow> False | Some info \<Rightarrow> pgi_is_zero_page info)"

text \<open>
  The result carries the value written to \<^verbatim>\<open>page_out\<close>, \<open>None\<close> when nothing is written.  On a page in
  high memory the code jumps to its cleanup without setting \<^verbatim>\<open>rc\<close>, so it returns 0 and no page.
\<close>

definition sivfs_new_checkpoint_page ::
  "cp_store \<Rightarrow> sivfs_ts \<Rightarrow> nat \<Rightarrow> rc \<times> u64 option \<times> cp_store" where
  "sivfs_new_checkpoint_page st checkpoint_ts level =
     (let n = cps_npages st + 1 in
      if n > SIVFS_MAX_CHECKPOINT_PAGES then (E ENOMEM, None, st)
      else case cps_supply st of
        [] \<Rightarrow> (E ENOMEM, None, st)
      | NoPage # gs \<Rightarrow> (E ENOMEM, None, st\<lparr>cps_supply := gs\<rparr>)
      | NoPginfo _ # gs \<Rightarrow> (E ENOMEM, None, st\<lparr>cps_supply := gs\<rparr>)
      | HighMem _ # gs \<Rightarrow> (OK, None, st\<lparr>cps_supply := gs\<rparr>)
      | Grant pa junk # gs \<Rightarrow>
          (OK, Some pa,
           st\<lparr>cps_supply := gs, cps_npages := n,
              cps_pages := (cps_pages st)(pa \<mapsto>
                \<lparr>page_mem = junk,
                 page_info = Some \<lparr>pgi_checkpoint_ts = checkpoint_ts,
                   pgi_obsoleted_ts = SIVFS_INVALID_TS, pgi_level = level, pgi_is_pmd = False,
                   pgi_is_pte = False, pgi_is_zero_page = False, pgi_is_noprivate = False,
                   pgi_order = 0\<rparr>,
                 page_index = 0, page_refct = 1, page_mapct = 0, page_locked = False\<rparr>)\<rparr>))"

definition sivfs_put_checkpoint_page :: "cp_store \<Rightarrow> u64 \<Rightarrow> rc \<times> cp_store" where
  "sivfs_put_checkpoint_page st page =
     (case cps_pages st page of
        None \<Rightarrow> (UB, st)
      | Some p \<Rightarrow>
          (case page_info p of
             None \<Rightarrow> (OK, st)
           | Some info \<Rightarrow>
               if page_refct p \<noteq> 1 \<or> page_mapct p \<noteq> 0 then (OK, st)
               else if page_locked p then (OK, st)
               else (OK, st\<lparr>cps_npages := cps_npages st - 1,
                            cps_pages := (cps_pages st)(page := None)\<rparr>)))"

section \<open>The iterator over the levels of a tree\<close>

definition SIVFS_CHECKPOINT_INO_LEVELS :: nat where
  "SIVFS_CHECKPOINT_INO_LEVELS = 3"

definition SIVFS_CHECKPOINT_FOFFSET_LEVELS :: nat where
  "SIVFS_CHECKPOINT_FOFFSET_LEVELS = 4"

definition SIVFS_CHECKPOINT_TOTAL_LEVELS :: nat where
  "SIVFS_CHECKPOINT_TOTAL_LEVELS = SIVFS_CHECKPOINT_INO_LEVELS + SIVFS_CHECKPOINT_FOFFSET_LEVELS"

definition SIVFS_CHECKPOINT_MIN_INO_LEVEL :: nat where
  "SIVFS_CHECKPOINT_MIN_INO_LEVEL = SIVFS_CHECKPOINT_FOFFSET_LEVELS"

definition SIVFS_CHECKPOINT_NODE_SHIFT :: nat where
  "SIVFS_CHECKPOINT_NODE_SHIFT = 9"

definition SIVFS_CHECKPOINT_CHILDREN_PER_NODE :: u64 where
  "SIVFS_CHECKPOINT_CHILDREN_PER_NODE = PAGE_SIZE div 8"

definition SIVFS_CHECKPOINT_NODE_MASK :: u64 where
  "SIVFS_CHECKPOINT_NODE_MASK = SIVFS_CHECKPOINT_CHILDREN_PER_NODE - 1"

text \<open>The two loops of \<^verbatim>\<open>sivfs_checkpoint_iter_init\<close>; the list holds the levels still to come.\<close>

fun iter_ino_loop :: "u64 \<Rightarrow> nat list \<Rightarrow> errno + u64 list" where
  "iter_ino_loop file_ino [] = Inr []"
| "iter_ino_loop file_ino (level # levels) =
     (let sublevel = level - SIVFS_CHECKPOINT_MIN_INO_LEVEL;
          shift = sublevel * SIVFS_CHECKPOINT_NODE_SHIFT
      in if sublevel = SIVFS_CHECKPOINT_INO_LEVELS - 1 \<and>
            drop_bit shift file_ino \<ge> SIVFS_CHECKPOINT_CHILDREN_PER_NODE
         then Inl EINVAL
         else case iter_ino_loop file_ino levels of
                Inl e \<Rightarrow> Inl e
              | Inr os \<Rightarrow> Inr ((drop_bit shift file_ino AND SIVFS_CHECKPOINT_NODE_MASK) # os))"

fun iter_foffset_loop :: "u64 \<Rightarrow> nat list \<Rightarrow> errno + u64 list" where
  "iter_foffset_loop file_offset_pg [] = Inr []"
| "iter_foffset_loop file_offset_pg (level # levels) =
     (let sublevel = level - 1;
          shift = sublevel * SIVFS_CHECKPOINT_NODE_SHIFT
      in if level = SIVFS_CHECKPOINT_FOFFSET_LEVELS - 1 \<and>
            drop_bit shift file_offset_pg \<ge> SIVFS_CHECKPOINT_CHILDREN_PER_NODE
         then Inl EINVAL
         else case iter_foffset_loop file_offset_pg levels of
                Inl e \<Rightarrow> Inl e
              | Inr os \<Rightarrow> Inr ((drop_bit shift file_offset_pg AND SIVFS_CHECKPOINT_NODE_MASK) # os))"

record sivfs_checkpoint_iter =
  iter_offsets :: "u64 list"
  iter_cur_i :: nat

definition sivfs_checkpoint_iter_init :: "u64 \<Rightarrow> u64 \<Rightarrow> errno + sivfs_checkpoint_iter" where
  "sivfs_checkpoint_iter_init file_ino file_offset =
     (let file_offset_pg = file_offset div PAGE_SIZE in
      case iter_ino_loop file_ino
             (rev [SIVFS_CHECKPOINT_MIN_INO_LEVEL ..< SIVFS_CHECKPOINT_TOTAL_LEVELS]) of
        Inl e \<Rightarrow> Inl e
      | Inr os \<Rightarrow>
          (case iter_foffset_loop file_offset_pg (rev [1 ..< SIVFS_CHECKPOINT_MIN_INO_LEVEL]) of
             Inl e \<Rightarrow> Inl e
           | Inr os' \<Rightarrow> Inr \<lparr>iter_offsets = os @ os', iter_cur_i = 0\<rparr>))"

definition sivfs_checkpoint_iter_advance :: "sivfs_checkpoint_iter \<Rightarrow> sivfs_checkpoint_iter" where
  "sivfs_checkpoint_iter_advance it = it\<lparr>iter_cur_i := iter_cur_i it + 1\<rparr>"

definition sivfs_checkpoint_iter_next_offset :: "sivfs_checkpoint_iter \<Rightarrow> u64" where
  "sivfs_checkpoint_iter_next_offset it = iter_offsets it ! iter_cur_i it"

section \<open>Looking a page up\<close>

text \<open>\<open>n\<close> is the number of levels above \<^verbatim>\<open>level_stop\<close>.\<close>

fun traverse_loop ::
  "mmu \<Rightarrow> cp_store \<Rightarrow> u64 \<Rightarrow> sivfs_checkpoint_iter \<Rightarrow> nat \<Rightarrow> rc \<times> u64" where
  "traverse_loop m st pa it 0 = (OK, pa)"
| "traverse_loop m st pa it (Suc n) =
     (if pa = 0 then (OK, 0)
      else case cps_pages st pa of
        None \<Rightarrow> (UB, 0)
      | Some p \<Rightarrow>
          let offset = sivfs_checkpoint_iter_next_offset it;
              next_phys = sivfs_pxd_to_pa m (page_mem p (ucast offset))
          in traverse_loop m st next_phys (sivfs_checkpoint_iter_advance it) n)"

definition sivfs_checkpoint_traverse_partial ::
  "mmu \<Rightarrow> cp_store \<Rightarrow> u64 \<Rightarrow> u64 \<Rightarrow> u64 \<Rightarrow> nat \<Rightarrow> rc \<times> u64" where
  "sivfs_checkpoint_traverse_partial m st checkpoint_root file_ino file_offset level_stop =
     (case sivfs_checkpoint_iter_init file_ino file_offset of
        Inl e \<Rightarrow> (E e, 0)
      | Inr it \<Rightarrow> traverse_loop m st checkpoint_root it
                    (SIVFS_CHECKPOINT_TOTAL_LEVELS - 1 - level_stop))"

definition sivfs_checkpoint_traverse ::
  "mmu \<Rightarrow> cp_store \<Rightarrow> u64 \<Rightarrow> u64 \<Rightarrow> u64 \<Rightarrow> rc \<times> u64" where
  "sivfs_checkpoint_traverse m st checkpoint_root file_ino file_offset =
     sivfs_checkpoint_traverse_partial m st checkpoint_root file_ino file_offset 0"

text \<open>The fields of \<^verbatim>\<open>struct sivfs_inode_info\<close> a checkpoint inode uses.\<close>

record checkpoint_inode =
  cp_root :: u64
  cp_ts :: sivfs_ts
  cp_obsoleted_ts :: sivfs_ts

definition sivfs_read_checkpoint ::
  "mmu \<Rightarrow> cp_store \<Rightarrow> page_mem \<Rightarrow> u64 \<Rightarrow> checkpoint_inode option \<Rightarrow> u64 \<Rightarrow> u64 \<Rightarrow> rc \<times> page_mem" where
  "sivfs_read_checkpoint m st mem mem_size checkpoint file_ino file_offset =
     (if file_offset mod PAGE_SIZE \<noteq> 0 \<or> mem_size \<noteq> PAGE_SIZE then (E EINVAL, mem)
      else case checkpoint of
        None \<Rightarrow> (E EINVAL, mem)
      | Some cpinfo \<Rightarrow>
          (case sivfs_checkpoint_traverse m st (cp_root cpinfo) file_ino file_offset of
             (OK, cp_page) \<Rightarrow>
               if cp_page \<noteq> 0 then
                 (case cps_pages st cp_page of
                    None \<Rightarrow> (UB, mem) | Some p \<Rightarrow> (OK, page_mem p))
               else (OK, (\<lambda>_. 0))
           | (r, _) \<Rightarrow> (r, mem)))"

definition sivfs_lookup_cp_page_at_level ::
  "mmu \<Rightarrow> cp_store \<Rightarrow> checkpoint_inode option \<Rightarrow> u64 \<Rightarrow> u64 \<Rightarrow> nat \<Rightarrow> rc \<times> u64" where
  "sivfs_lookup_cp_page_at_level m st checkpoint file_ino file_offset level_stop =
     (case checkpoint of
        None \<Rightarrow> (E EINVAL, 0)
      | Some cpinfo \<Rightarrow>
          if level_stop > SIVFS_CHECKPOINT_FOFFSET_LEVELS then (E EINVAL, 0)
          else sivfs_checkpoint_traverse_partial m st (cp_root cpinfo) file_ino file_offset level_stop)"

section \<open>Zero pages\<close>

definition sivfs_mk_zero_checkpoint_page :: "mmu \<Rightarrow> cp_store \<Rightarrow> nat \<Rightarrow> page_mem" where
  "sivfs_mk_zero_checkpoint_page m st level =
     (if level = 0 then (\<lambda>_. 0)
      else let ent_to_fill =
                 (if level = 1 then sivfs_mk_pte m (cps_zero_page st)
                  else if level \<le> SIVFS_CHECKPOINT_FOFFSET_LEVELS
                  then sivfs_mk_pxd_ent m (cps_zero_pxd st (level - 1))
                  else 0)
           in (\<lambda>_. ent_to_fill))"

definition set_page_mem :: "cp_store \<Rightarrow> u64 \<Rightarrow> page_mem \<Rightarrow> cp_store" where
  "set_page_mem st pa mem =
     st\<lparr>cps_pages := (cps_pages st)(pa := map_option (\<lambda>p. p\<lparr>page_mem := mem\<rparr>) (cps_pages st pa))\<rparr>"

definition set_page_info ::
  "cp_store \<Rightarrow> u64 \<Rightarrow> (sivfs_checkpoint_pginfo \<Rightarrow> sivfs_checkpoint_pginfo) \<Rightarrow> cp_store" where
  "set_page_info st pa f =
     st\<lparr>cps_pages := (cps_pages st)(pa :=
          map_option (\<lambda>p. p\<lparr>page_info := map_option f (page_info p)\<rparr>) (cps_pages st pa))\<rparr>"

fun destroy_zero_loop :: "nat list \<Rightarrow> cp_store \<Rightarrow> rc \<times> cp_store" where
  "destroy_zero_loop [] st = (OK, st)"
| "destroy_zero_loop (level # levels) st =
     (if cps_zero_pxd st level \<noteq> 0 then
        (case sivfs_put_checkpoint_page st (cps_zero_pxd st level) of
           (OK, st') \<Rightarrow> destroy_zero_loop levels st'
         | (r, st') \<Rightarrow> (r, st'))
      else destroy_zero_loop levels st)"

definition sivfs_destroy_zero_checkpoint_pages :: "cp_store \<Rightarrow> rc \<times> cp_store" where
  "sivfs_destroy_zero_checkpoint_pages st =
     destroy_zero_loop [1 ..< SIVFS_CHECKPOINT_FOFFSET_LEVELS] st"

text \<open>On an error the loop falls into the cleanup, which frees the pages it made.\<close>

fun init_zero_loop :: "mmu \<Rightarrow> nat list \<Rightarrow> cp_store \<Rightarrow> rc \<times> cp_store" where
  "init_zero_loop m [] st = (OK, st)"
| "init_zero_loop m (level # levels) st =
     (case sivfs_new_checkpoint_page st 0 level of
        (OK, Some new_page, st1) \<Rightarrow>
          let st2 = set_page_info st1 new_page (\<lambda>i. i\<lparr>pgi_is_zero_page := True\<rparr>);
              st3 = st2\<lparr>cps_zero_pxd := (cps_zero_pxd st2)(level := new_page)\<rparr>;
              st4 = set_page_mem st3 new_page (sivfs_mk_zero_checkpoint_page m st3 level)
          in init_zero_loop m levels st4
      | (OK, None, st1) \<Rightarrow> (UB, st1)
      | (r, _, st1) \<Rightarrow>
          (case sivfs_destroy_zero_checkpoint_pages st1 of
             (OK, st2) \<Rightarrow> (r, st2) | (r', st2) \<Rightarrow> (r', st2)))"

definition sivfs_init_zero_checkpoint_pages :: "mmu \<Rightarrow> cp_store \<Rightarrow> rc \<times> cp_store" where
  "sivfs_init_zero_checkpoint_pages m st =
     init_zero_loop m [1 ..< SIVFS_CHECKPOINT_FOFFSET_LEVELS]
       (st\<lparr>cps_zero_pxd := (cps_zero_pxd st)(0 := cps_zero_page st)\<rparr>)"

definition sivfs_get_zero_checkpoint_pages :: "mmu \<Rightarrow> cp_store \<Rightarrow> rc \<times> cp_store" where
  "sivfs_get_zero_checkpoint_pages m st =
     (if cps_zero_refcount st = 0 then
        (case sivfs_init_zero_checkpoint_pages m st of
           (OK, st') \<Rightarrow> (OK, st'\<lparr>cps_zero_refcount := cps_zero_refcount st' + 1\<rparr>)
         | (r, st') \<Rightarrow> (r, st'))
      else (OK, st\<lparr>cps_zero_refcount := cps_zero_refcount st + 1\<rparr>))"

definition sivfs_put_zero_checkpoint_pages :: "cp_store \<Rightarrow> rc \<times> cp_store" where
  "sivfs_put_zero_checkpoint_pages st =
     (if cps_zero_refcount st \<le> 0 then (OK, st)
      else let st' = st\<lparr>cps_zero_refcount := cps_zero_refcount st - 1\<rparr>
           in if cps_zero_refcount st' = 0 then sivfs_destroy_zero_checkpoint_pages st'
              else (OK, st'))"

end
