(* ===== verification/Checkpoint_Tree.thy ===== *)
theory Checkpoint_Tree
  imports Checkpoints
begin

text \<open>
  What a checkpoint tree means.  \<open>cp_path\<close> is the list of table indices that leads to a page of a
  file, \<open>cp_walk\<close> follows such a list from a root and \<open>cp_leaf\<close> is the contents found there (zeros when
  there is no page).  The lemmas show that the iterator of the code computes \<open>cp_path\<close>, that it
  separates different pages, and that \<^verbatim>\<open>sivfs_checkpoint_traverse\<close> and \<^verbatim>\<open>sivfs_read_checkpoint\<close> compute
  \<open>cp_walk\<close> and \<open>cp_leaf\<close>.
\<close>

section \<open>Paths\<close>

definition cp_addressable :: "u64 \<Rightarrow> u64 \<Rightarrow> bool" where
  "cp_addressable file_ino file_offset \<longleftrightarrow>
     unat file_ino < 2 ^ 27 \<and> unat (file_offset div PAGE_SIZE) < 2 ^ 27"

definition cp_digits :: "u64 \<Rightarrow> 9 word list" where
  "cp_digits n = [ucast (drop_bit 18 n), ucast (drop_bit 9 n), ucast n]"

definition cp_path :: "u64 \<Rightarrow> u64 \<Rightarrow> 9 word list" where
  "cp_path file_ino file_offset = cp_digits file_ino @ cp_digits (file_offset div PAGE_SIZE)"

lemma length_cp_path [simp]: "length (cp_path i f) = 6"
  by (simp add: cp_path_def cp_digits_def)

lemma drop_bit_18_ge_512: "(512::u64) \<le> drop_bit 18 n \<longleftrightarrow> \<not> unat n < 2 ^ 27"
proof -
  have "unat (drop_bit 18 n) = unat n div 2 ^ 18"
    by (simp add: drop_bit_eq_div unat_div)
  then show ?thesis
    by (simp add: word_le_nat_alt) linarith
qed

lemma ucast_mask_9: "ucast (w AND 511 :: u64) = (ucast w :: 9 word)"
proof (rule bit_word_eqI)
  fix n assume n: "n < LENGTH(9)"
  have m: "(511::u64) = mask 9" by (simp add: mask_eq_decr_exp)
  have "bit (511::u64) n" using n by (subst m) (simp add: bit_mask_iff)
  then show "bit (ucast (w AND 511) :: 9 word) n = bit (ucast w :: 9 word) n"
    using n by (simp add: bit_simps)
qed

lemma ino_levels: "rev [SIVFS_CHECKPOINT_MIN_INO_LEVEL ..< SIVFS_CHECKPOINT_TOTAL_LEVELS] = [6, 5, 4]"
  by (simp add: SIVFS_CHECKPOINT_MIN_INO_LEVEL_def SIVFS_CHECKPOINT_TOTAL_LEVELS_def
      SIVFS_CHECKPOINT_FOFFSET_LEVELS_def SIVFS_CHECKPOINT_INO_LEVELS_def upt_rec)

lemma foffset_levels: "rev [1 ..< SIVFS_CHECKPOINT_MIN_INO_LEVEL] = [3, 2, 1]"
  by (simp add: SIVFS_CHECKPOINT_MIN_INO_LEVEL_def SIVFS_CHECKPOINT_FOFFSET_LEVELS_def upt_rec)

lemmas level_consts =
  SIVFS_CHECKPOINT_MIN_INO_LEVEL_def SIVFS_CHECKPOINT_FOFFSET_LEVELS_def
  SIVFS_CHECKPOINT_INO_LEVELS_def SIVFS_CHECKPOINT_TOTAL_LEVELS_def
  SIVFS_CHECKPOINT_NODE_SHIFT_def SIVFS_CHECKPOINT_CHILDREN_PER_NODE_def
  SIVFS_CHECKPOINT_NODE_MASK_def PAGE_SIZE_def

lemma iter_ino_loop_eq:
  "iter_ino_loop i [6, 5, 4] =
     (if unat i < 2 ^ 27
      then Inr [drop_bit 18 i AND 511, drop_bit 9 i AND 511, i AND 511] else Inl EINVAL)"
  using drop_bit_18_ge_512 [of i] by (simp add: level_consts)

lemma iter_foffset_loop_eq:
  "iter_foffset_loop p [3, 2, 1] =
     (if unat p < 2 ^ 27
      then Inr [drop_bit 18 p AND 511, drop_bit 9 p AND 511, p AND 511] else Inl EINVAL)"
  using drop_bit_18_ge_512 [of p] by (simp add: level_consts)

lemma iter_init_ok:
  assumes "cp_addressable i f"
  shows "\<exists>offs. sivfs_checkpoint_iter_init i f = Inr \<lparr>iter_offsets = offs, iter_cur_i = 0\<rparr> \<and>
                map ucast offs = cp_path i f"
  using assms
  unfolding sivfs_checkpoint_iter_init_def ino_levels foffset_levels iter_ino_loop_eq
    iter_foffset_loop_eq cp_addressable_def Let_def
  by (simp add: cp_path_def cp_digits_def ucast_mask_9)

lemma iter_init_err:
  "\<not> cp_addressable i f \<Longrightarrow> sivfs_checkpoint_iter_init i f = Inl EINVAL"
  unfolding sivfs_checkpoint_iter_init_def ino_levels foffset_levels iter_ino_loop_eq
    iter_foffset_loop_eq cp_addressable_def Let_def
  by auto

lemma cp_digits_inj:
  assumes "cp_digits a = cp_digits b" and "unat a < 2 ^ 27" and "unat b < 2 ^ 27"
  shows "a = b"
proof (rule bit_word_eqI)
  fix n assume "n < LENGTH(64)"
  have d: "bit (ucast x :: 9 word) k = bit y (k + 9 * j)"
    if "x = drop_bit (9 * j) y" "k < 9" for x y :: u64 and j k
    using that by (simp add: bit_simps add.commute)
  have eq: "bit a (k + 9 * j) = bit b (k + 9 * j)" if "k < 9" "j < 3" for k j
  proof -
    have "j = 0 \<or> j = 1 \<or> j = 2" using that by auto
    then have "(ucast (drop_bit (9 * j) a) :: 9 word) = ucast (drop_bit (9 * j) b)"
      using assms(1) by (auto simp: cp_digits_def)
    then show ?thesis using d [OF refl that(1)] by metis
  qed
  show "bit a n = bit b n"
  proof (cases "n < 27")
    case True
    then show ?thesis using eq [of "n mod 9" "n div 9"] by (simp add: mult.commute)
  next
    case False
    then show ?thesis
      using not_bit_of_small [OF assms(2), of n] not_bit_of_small [OF assms(3), of n] by simp
  qed
qed

section \<open>Walking down a tree\<close>

definition cp_mem :: "cp_store \<Rightarrow> u64 \<Rightarrow> page_mem" where
  "cp_mem st pa = (case cps_pages st pa of None \<Rightarrow> (\<lambda>_. 0) | Some p \<Rightarrow> page_mem p)"

definition cp_child :: "mmu \<Rightarrow> cp_store \<Rightarrow> u64 \<Rightarrow> 9 word \<Rightarrow> u64" where
  "cp_child m st pa off = sivfs_pxd_to_pa m (cp_mem st pa off)"

fun cp_walk :: "mmu \<Rightarrow> cp_store \<Rightarrow> u64 \<Rightarrow> 9 word list \<Rightarrow> u64" where
  "cp_walk m st pa [] = pa"
| "cp_walk m st pa (off # offs) = (if pa = 0 then 0 else cp_walk m st (cp_child m st pa off) offs)"

definition cp_leaf :: "mmu \<Rightarrow> cp_store \<Rightarrow> u64 \<Rightarrow> 9 word list \<Rightarrow> page_mem" where
  "cp_leaf m st root path =
     (let a = cp_walk m st root path in if a = 0 then (\<lambda>_. 0) else cp_mem st a)"

lemma cp_walk_0 [simp]: "cp_walk m st 0 offs = 0"
  by (cases offs) simp_all

lemma cp_walk_append: "cp_walk m st a (p @ q) = cp_walk m st (cp_walk m st a p) q"
  by (induction p arbitrary: a) auto

lemma cp_walk_snoc: "cp_walk m st a p \<noteq> 0 \<Longrightarrow>
  cp_walk m st a (p @ [off]) = cp_child m st (cp_walk m st a p) off"
  by (simp add: cp_walk_append)

section \<open>Trees with the pages a checkpoint owns\<close>

text \<open>
  \<open>cp_owned\<close> marks the pages made for the checkpoint of timestamp \<open>T\<close>: only these may be written.
  \<open>cp_tree m st T l a f S\<close> says that the page at \<open>a\<close> is the root of a well-formed tree of height \<open>l\<close>, that
  the contents at the end of a path \<open>q\<close> are \<open>f q\<close>, and that \<open>S\<close> are its owned pages, each of which is
  in the tree only once and under owned pages only.  Address 0 is the empty tree.
\<close>

definition cp_level :: "cp_store \<Rightarrow> u64 \<Rightarrow> nat" where
  "cp_level st pa = (if pa = cps_zero_page st then 0
                     else case sivfs_checkpoint_page_to_pginfo st pa of
                            None \<Rightarrow> 0 | Some i \<Rightarrow> pgi_level i)"

definition cp_owned :: "cp_store \<Rightarrow> sivfs_ts \<Rightarrow> u64 \<Rightarrow> bool" where
  "cp_owned st T a \<longleftrightarrow> \<not> sivfs_is_zero_page st a \<and>
     map_option pgi_checkpoint_ts (sivfs_checkpoint_page_to_pginfo st a) = Some T"

definition owned_parts :: "cp_store \<Rightarrow> sivfs_ts \<Rightarrow> u64 \<Rightarrow> (9 word \<Rightarrow> u64 set) \<Rightarrow> u64 set \<Rightarrow> bool" where
  "owned_parts st T a Si S \<longleftrightarrow>
     (\<forall>i j. i \<noteq> j \<longrightarrow> Si i \<inter> Si j = {}) \<and> (\<forall>i. a \<notin> Si i) \<and>
     (\<not> cp_owned st T a \<longrightarrow> (\<forall>i. Si i = {})) \<and>
     S = (if cp_owned st T a then insert a (\<Union>i. Si i) else {})"

fun cp_tree :: "mmu \<Rightarrow> cp_store \<Rightarrow> sivfs_ts \<Rightarrow> nat \<Rightarrow> u64 \<Rightarrow> (9 word list \<Rightarrow> page_mem) \<Rightarrow> u64 set \<Rightarrow> bool" where
  "cp_tree m st T 0 a f S \<longleftrightarrow>
     (a = 0 \<or> a \<in> dom (cps_pages st) \<and> cp_level st a = 0) \<and>
     f [] = cp_mem st a \<and> S = (if cp_owned st T a then {a} else {})"
| "cp_tree m st T (Suc l) a f S \<longleftrightarrow>
     (a = 0 \<or> a \<in> dom (cps_pages st) \<and> cp_level st a = Suc l) \<and>
     (\<forall>i. cp_mem st a i \<noteq> 0 \<longrightarrow> cp_child m st a i \<noteq> 0) \<and>
     (\<exists>Si. (\<forall>i. cp_tree m st T l (cp_child m st a i) (\<lambda>q. f (i # q)) (Si i)) \<and>
           owned_parts st T a Si S)"

lemma cp_owned_dom: "cp_owned st T a \<Longrightarrow> a \<in> dom (cps_pages st)"
  by (auto simp: cp_owned_def sivfs_checkpoint_page_to_pginfo_def split: option.splits)

lemma owned_partsD:
  assumes "owned_parts st T a Si S"
  shows "i \<noteq> j \<Longrightarrow> Si i \<inter> Si j = {}" and "a \<notin> Si i" and "Si i \<subseteq> S" and "a \<in> S \<longleftrightarrow> cp_owned st T a"
    and "\<not> cp_owned st T a \<Longrightarrow> S = {}" and "b \<in> S \<Longrightarrow> b = a \<or> (\<exists>i. b \<in> Si i)"
  using assms unfolding owned_parts_def by (auto split: if_splits)

lemma cp_tree_SucI:
  "a \<in> dom (cps_pages st) \<Longrightarrow> cp_level st a = Suc l \<Longrightarrow>
   (\<And>i. cp_mem st a i \<noteq> 0 \<Longrightarrow> cp_child m st a i \<noteq> 0) \<Longrightarrow>
   (\<And>i. cp_tree m st T l (cp_child m st a i) (\<lambda>q. f (i # q)) (Si i)) \<Longrightarrow>
   owned_parts st T a Si S \<Longrightarrow> cp_tree m st T (Suc l) a f S"
  by auto

lemma cp_tree_owned: "cp_tree m st T l a f S \<Longrightarrow> b \<in> S \<Longrightarrow> cp_owned st T b"
proof (induction l arbitrary: a f S)
  case 0
  then show ?case by (auto split: if_splits)
next
  case (Suc l)
  then obtain Si where Si: "\<forall>i. cp_tree m st T l (cp_child m st a i) (\<lambda>q. f (i # q)) (Si i)"
      "owned_parts st T a Si S" by auto
  then show ?case using Suc.IH Suc.prems(2) owned_partsD(4,6) [OF Si(2)] by metis
qed

lemma cp_tree_root: "cp_tree m st T l a f S \<Longrightarrow> a = 0 \<or> a \<in> dom (cps_pages st) \<and> cp_level st a = l"
  by (cases l) auto

lemma cp_tree_root_owned: "cp_tree m st T l a f S \<Longrightarrow> a \<in> S \<longleftrightarrow> cp_owned st T a"
  by (cases l) (auto simp: owned_partsD(4))

lemma cp_tree_not_owned: "cp_tree m st T l a f S \<Longrightarrow> \<not> cp_owned st T a \<Longrightarrow> S = {}"
  by (cases l) (auto dest: owned_partsD(5))

lemma cp_tree_cong:
  "cp_tree m st T l a f S \<Longrightarrow> (\<And>q. length q = l \<Longrightarrow> g q = f q) \<Longrightarrow> cp_tree m st T l a g S"
proof (induction l arbitrary: a f g S)
  case 0
  then show ?case by auto
next
  case (Suc l)
  have step: "cp_tree m st T l c (\<lambda>q. g (i # q)) U" if "cp_tree m st T l c (\<lambda>q. f (i # q)) U" for c i U
    using Suc.IH [OF that] Suc.prems(2) by simp
  then show ?case using Suc.prems(1) unfolding cp_tree.simps(2) by meson
qed

text \<open>The tree predicate gives what the walk finds.\<close>

lemma cp_tree_leaf:
  assumes "0 \<notin> dom (cps_pages st)" and "cp_tree m st T l a f S" and "length q = l"
  shows "cp_leaf m st a q = f q \<and> (cp_walk m st a q = 0 \<or> cp_walk m st a q \<in> dom (cps_pages st))"
  using assms(2,3)
proof (induction l arbitrary: a f S q)
  case 0
  then show ?case using assms(1) by (auto simp: cp_leaf_def cp_mem_def split: option.splits)
next
  case (Suc l)
  obtain i q' where q: "q = i # q'" "length q' = l" using Suc.prems(2) by (cases q) auto
  obtain U where U: "cp_tree m st T l (cp_child m st a i) (\<lambda>q. f (i # q)) U"
    using Suc.prems(1) by auto
  have "a = 0 \<Longrightarrow> cp_child m st a i = 0"
    using assms(1) by (auto simp: cp_child_def cp_mem_def sivfs_pxd_to_pa_def split: option.splits)
  then have "cp_walk m st a q = cp_walk m st (cp_child m st a i) q'" using q by auto
  then show ?case using Suc.IH [OF U q(2)] q by (simp add: cp_leaf_def)
qed

lemma cp_tree_unique:
  assumes "0 \<notin> dom (cps_pages st)" and "cp_tree m st T l a f S" and "cp_tree m st T' l a g S'"
    and "length q = l"
  shows "f q = g q"
  using cp_tree_leaf [OF assms(1,2,4)] cp_tree_leaf [OF assms(1,3,4)] by simp

lemma traverse_loop_tree:
  assumes "0 \<notin> dom (cps_pages st)" and "cp_tree m st T l a f S" and "n \<le> l"
    and "iter_cur_i it + n \<le> length (iter_offsets it)"
  shows "traverse_loop m st a it n =
         (OK, cp_walk m st a (map ucast (take n (drop (iter_cur_i it) (iter_offsets it)))))"
  using assms(2-4)
proof (induction n arbitrary: a it l f S)
  case 0
  then show ?case by simp
next
  case (Suc n)
  show ?case
  proof (cases "a = 0")
    case True
    then show ?thesis by simp
  next
    case False
    obtain l' where l': "l = Suc l'" using Suc.prems(2) by (cases l) auto
    let ?off = "iter_offsets it ! iter_cur_i it"
    let ?it = "sivfs_checkpoint_iter_advance it"
    obtain U where U: "cp_tree m st T l' (cp_child m st a (ucast ?off)) (\<lambda>q. f (ucast ?off # q)) U"
      using Suc.prems(1) l' by auto
    obtain pg where pg: "cps_pages st a = Some pg" using cp_tree_root [OF Suc.prems(1)] False by auto
    have lt: "iter_cur_i it < length (iter_offsets it)" using Suc.prems(3) by simp
    have dr: "drop (iter_cur_i it) (iter_offsets it) = ?off # drop (Suc (iter_cur_i it)) (iter_offsets it)"
      using lt by (simp add: Cons_nth_drop_Suc)
    have ch: "sivfs_pxd_to_pa m (page_mem pg (ucast ?off)) = cp_child m st a (ucast ?off)"
      using pg by (simp add: cp_child_def cp_mem_def)
    have "traverse_loop m st (cp_child m st a (ucast ?off)) ?it n =
          (OK, cp_walk m st (cp_child m st a (ucast ?off))
             (map ucast (take n (drop (iter_cur_i ?it) (iter_offsets ?it)))))"
      using Suc.IH [OF U, of ?it] Suc.prems(2,3) l' by (simp add: sivfs_checkpoint_iter_advance_def)
    then show ?thesis
      using False pg dr ch
      by (simp add: sivfs_checkpoint_iter_next_offset_def sivfs_checkpoint_iter_advance_def Let_def)
  qed
qed

lemma traverse_tree:
  assumes "0 \<notin> dom (cps_pages st)" and "cp_tree m st T 6 root f S" and "cp_addressable i off"
  shows "sivfs_checkpoint_traverse m st root i off = (OK, cp_walk m st root (cp_path i off))"
proof -
  obtain offs where it: "sivfs_checkpoint_iter_init i off = Inr \<lparr>iter_offsets = offs, iter_cur_i = 0\<rparr>"
      and offs: "map ucast offs = cp_path i off"
    using iter_init_ok [OF assms(3)] by blast
  have len: "length offs = 6"
    by (metis length_cp_path length_map offs)
  have "traverse_loop m st root \<lparr>iter_offsets = offs, iter_cur_i = 0\<rparr> 6 =
        (OK, cp_walk m st root (map ucast (take 6 (drop 0 offs))))"
    using traverse_loop_tree [OF assms(1,2), of 6 "\<lparr>iter_offsets = offs, iter_cur_i = 0\<rparr>"] len
    by simp
  then show ?thesis
    using it offs len
    by (simp add: sivfs_checkpoint_traverse_def sivfs_checkpoint_traverse_partial_def level_consts)
qed

lemma read_checkpoint_tree:
  assumes "0 \<notin> dom (cps_pages st)" and "cp_tree m st T 6 (cp_root cp) f S" and "cp_addressable i off"
    and "off mod PAGE_SIZE = 0"
  shows "sivfs_read_checkpoint m st mem PAGE_SIZE (Some cp) i off = (OK, f (cp_path i off))"
  using traverse_tree [OF assms(1-3)] cp_tree_leaf [OF assms(1,2), of "cp_path i off"] assms(4)
  by (auto simp: sivfs_read_checkpoint_def cp_leaf_def cp_mem_def Let_def split: if_splits)

end
