(* ===== verification/Gc_Entries.thy ===== *)
theory Gc_Entries
  imports Checkpoints
begin

text \<open>
  The set of checkpoints, \<^verbatim>\<open>struct sivfs_checkpoints\<close> with its insertion, publication and lookup
  (\<^verbatim>\<open>kern/sivfs_checkpoints.c\<close>), the tagged pointers with which the garbage collector names pages and
  inodes (\<^verbatim>\<open>sivfs_gc_entry\<close>, \<^verbatim>\<open>kern/sivfs_checkpoints.h\<close>) and the operation that hands obsoleted pages to
  the collector (\<^verbatim>\<open>sivfs_gc_mark_pages_obsoleted\<close>, \<^verbatim>\<open>kern/sivfs_gc_checkpoints.c\<close>).

  A checkpoint inode is named by its address; \<open>cw_inodes\<close> gives the checkpoint fields of its
  \<^verbatim>\<open>sivfs_inode_info\<close>.  \<open>cw_allocs\<close> lists the outcomes of the next memory requests made by stacks, radix
  trees and inodes; when the list is used up, requests succeed.  \<open>cw_new_inodes\<close> are the addresses
  the next inodes get.  The locks are not part of the state: each operation here is one critical section.
\<close>

section \<open>Tagged garbage-collection entries\<close>

definition SIVFS_GC_ENTRY_PAGE :: u64 where
  "SIVFS_GC_ENTRY_PAGE = push_bit 1 1"

definition SIVFS_GC_ENTRY_INODE :: u64 where
  "SIVFS_GC_ENTRY_INODE = push_bit 2 1"

definition SIVFS_GC_ENTRY_FLAGS :: u64 where
  "SIVFS_GC_ENTRY_FLAGS = 7"

definition sivfs_gc_entry_to_type :: "u64 \<Rightarrow> errno + u64" where
  "sivfs_gc_entry_to_type entry =
     (let flags = entry AND SIVFS_GC_ENTRY_FLAGS in
      if flags = SIVFS_GC_ENTRY_PAGE then Inr SIVFS_GC_ENTRY_PAGE
      else if flags = SIVFS_GC_ENTRY_INODE then Inr SIVFS_GC_ENTRY_INODE
      else Inl EINVAL)"

definition sivfs_gc_make_entry_page :: "u64 \<Rightarrow> errno + u64" where
  "sivfs_gc_make_entry_page page =
     (if page AND SIVFS_GC_ENTRY_FLAGS \<noteq> 0 then Inl EINVAL
      else Inr (page OR SIVFS_GC_ENTRY_PAGE))"

definition sivfs_gc_make_entry_inode :: "u64 \<Rightarrow> errno + u64" where
  "sivfs_gc_make_entry_inode inode =
     (if inode AND SIVFS_GC_ENTRY_FLAGS \<noteq> 0 then Inl EINVAL
      else Inr (inode OR SIVFS_GC_ENTRY_INODE))"

definition sivfs_gc_entry_to_page :: "u64 \<Rightarrow> u64" where
  "sivfs_gc_entry_to_page entry = entry AND NOT SIVFS_GC_ENTRY_FLAGS"

definition sivfs_gc_entry_to_inode :: "u64 \<Rightarrow> u64" where
  "sivfs_gc_entry_to_inode entry = entry AND NOT SIVFS_GC_ENTRY_FLAGS"

section \<open>The set of checkpoints\<close>

record sivfs_checkpoints =
  latest_cp_checkpoint :: u64
  latest_cp_ts :: sivfs_ts
  latest_checkpoint_published :: sivfs_ts
  checkpoints_reverse :: "u64 rt"
  obsoleted_entries :: sivfs_stack
  gc_blocked_entries :: "sivfs_stack rt"

record cp_world =
  cw_store :: cp_store
  cw_inodes :: "u64 \<Rightarrow> checkpoint_inode option"
  cw_checkpoints :: sivfs_checkpoints
  cw_allocs :: "bool list"
  cw_new_inodes :: "u64 list"
  cw_nCheckpointPagesNew :: nat

definition next_alloc :: "cp_world \<Rightarrow> bool \<times> cp_world" where
  "next_alloc w = (case cw_allocs w of [] \<Rightarrow> (True, w) | b # bs \<Rightarrow> (b, w\<lparr>cw_allocs := bs\<rparr>))"

definition sivfs_checkpoints_ts_to_reverse_index :: "sivfs_ts \<Rightarrow> u64" where
  "sivfs_checkpoints_ts_to_reverse_index ts = - 1 + (- ts)"

definition sivfs_checkpoints_reverse_index_to_ts :: "u64 \<Rightarrow> sivfs_ts" where
  "sivfs_checkpoints_reverse_index_to_ts index = - (index + 1)"

text \<open>The address of the checkpoint found, 0 for \<^verbatim>\<open>NULL\<close>.\<close>

definition sivfs_checkpoint_lookup :: "sivfs_checkpoints \<Rightarrow> sivfs_ts \<Rightarrow> u64" where
  "sivfs_checkpoint_lookup cps desired_ts =
     (let latest_snapshot = latest_checkpoint_published cps;
          desired_ts' = (if desired_ts > latest_snapshot then latest_snapshot else desired_ts)
      in case rt_from (checkpoints_reverse cps)
                (sivfs_checkpoints_ts_to_reverse_index desired_ts') of
           [] \<Rightarrow> 0
         | (_, checkpoint) # _ \<Rightarrow> checkpoint)"

text \<open>
  \<open>interrupted\<close> is the outcome of \<^verbatim>\<open>mutex_lock_interruptible\<close>: \<open>Some e\<close> when a signal arrived.
\<close>

definition checkpoints_insert_first ::
  "errno option \<Rightarrow> cp_world \<Rightarrow> u64 \<Rightarrow> rc \<times> cp_world" where
  "checkpoints_insert_first interrupted w checkpoint =
     (if checkpoint = 0 then (E EINVAL, w)
      else case cw_inodes w checkpoint of
        None \<Rightarrow> (UB, w)
      | Some cpinfo \<Rightarrow>
          (case interrupted of Some e \<Rightarrow> (E e, w) | None \<Rightarrow>
             let (ok, w1) = next_alloc w;
                 cps = cw_checkpoints w1;
                 (r, t) = radix_tree_insert ok (checkpoints_reverse cps)
                            (sivfs_checkpoints_ts_to_reverse_index (cp_ts cpinfo)) checkpoint
             in (r, w1\<lparr>cw_checkpoints := cps\<lparr>checkpoints_reverse := t\<rparr>\<rparr>)))"

definition checkpoints_insert_finish :: "cp_world \<Rightarrow> u64 \<Rightarrow> rc \<times> cp_world" where
  "checkpoints_insert_finish w checkpoint =
     (case cw_inodes w checkpoint of
        None \<Rightarrow> (UB, w)
      | Some cpinfo \<Rightarrow>
          let ts = cp_ts cpinfo; cps = cw_checkpoints w
          in (OK, w\<lparr>cw_checkpoints := cps\<lparr>latest_cp_checkpoint := checkpoint, latest_cp_ts := ts,
                                         latest_checkpoint_published := ts\<rparr>\<rparr>))"

definition checkpoints_remove :: "cp_world \<Rightarrow> u64 \<Rightarrow> rc \<times> cp_world" where
  "checkpoints_remove w checkpoint =
     (case cw_inodes w checkpoint of
        None \<Rightarrow> (UB, w)
      | Some cpinfo \<Rightarrow>
          let cps = cw_checkpoints w
          in (OK, w\<lparr>cw_checkpoints := cps\<lparr>checkpoints_reverse :=
                radix_tree_delete (checkpoints_reverse cps)
                  (sivfs_checkpoints_ts_to_reverse_index (cp_ts cpinfo))\<rparr>\<rparr>))"

definition sivfs_checkpoints_insert ::
  "errno option \<Rightarrow> cp_world \<Rightarrow> u64 \<Rightarrow> rc \<times> cp_world" where
  "sivfs_checkpoints_insert interrupted w checkpoint =
     (case checkpoints_insert_first interrupted w checkpoint of
        (OK, w1) \<Rightarrow> checkpoints_insert_finish w1 checkpoint
      | (r, w1) \<Rightarrow> (r, w1))"

section \<open>Handing obsoleted pages to the collector\<close>

text \<open>
  The insertion loop: \<open>values\<close> is the array of \<^verbatim>\<open>obsoleted_entries\<close>, \<open>new_size\<close> the next free index.
  The recorded size of the stack is not touched before the loop has succeeded.
\<close>

fun mark_loop :: "u64 list \<Rightarrow> u64 list \<Rightarrow> nat \<Rightarrow> rc \<times> u64 list \<times> nat" where
  "mark_loop [] values new_size = (OK, values, new_size)"
| "mark_loop (page # pages) values new_size =
     (case sivfs_gc_make_entry_page page of
        Inl e \<Rightarrow> (E e, values, new_size)
      | Inr toAdd \<Rightarrow> mark_loop pages (values[new_size := toAdd]) (new_size + 1))"

definition sivfs_gc_mark_pages_obsoleted ::
  "cp_world \<Rightarrow> sivfs_stack option \<Rightarrow> u64 \<Rightarrow> rc \<times> cp_world" where
  "sivfs_gc_mark_pages_obsoleted w obsoleted_pages obsoleted_checkpoint =
     (case obsoleted_pages of
        None \<Rightarrow> (E EINVAL, w)
      | Some pages \<Rightarrow>
          let (ok, w1) = next_alloc w;
              cps = cw_checkpoints w1;
              obs = obsoleted_entries cps;
              new_capacity = stack_size obs + stack_size pages + 1
          in case sivfs_stack_reserve ok obs new_capacity of
               (OK, obs1) \<Rightarrow>
                 (case mark_loop (stack_elems pages) (stack_values obs1) (stack_size obs1) of
                    (OK, values, new_size) \<Rightarrow>
                      (if obsoleted_checkpoint \<noteq> 0 then
                         (case sivfs_gc_make_entry_inode obsoleted_checkpoint of
                            Inl e \<Rightarrow>
                              (E e, w1\<lparr>cw_checkpoints := cps\<lparr>obsoleted_entries :=
                                       obs1\<lparr>stack_values := values\<rparr>\<rparr>\<rparr>)
                          | Inr toAdd \<Rightarrow>
                              (OK, w1\<lparr>cw_checkpoints := cps\<lparr>obsoleted_entries :=
                                       obs1\<lparr>stack_values := values[new_size := toAdd],
                                            stack_size := new_size + 1\<rparr>\<rparr>\<rparr>))
                       else (OK, w1\<lparr>cw_checkpoints := cps\<lparr>obsoleted_entries :=
                                       obs1\<lparr>stack_values := values,
                                            stack_size := new_size\<rparr>\<rparr>\<rparr>))
                  | (r, values, _) \<Rightarrow>
                      (r, w1\<lparr>cw_checkpoints := cps\<lparr>obsoleted_entries :=
                            obs1\<lparr>stack_values := values\<rparr>\<rparr>\<rparr>))
             | (r, _) \<Rightarrow> (r, w1))"

section \<open>Tags and addresses\<close>

lemma bit_7_u64: "bit (7::u64) n \<longleftrightarrow> n < 3"
proof -
  have m: "(7::u64) = mask 3" by (simp add: mask_eq_decr_exp)
  show ?thesis unfolding m by (auto simp: bit_mask_iff)
qed

lemma bit_gc_tags:
  "bit SIVFS_GC_ENTRY_FLAGS n \<longleftrightarrow> n < 3"
  "bit SIVFS_GC_ENTRY_PAGE n \<longleftrightarrow> n = 1"
  "bit SIVFS_GC_ENTRY_INODE n \<longleftrightarrow> n = 2"
  unfolding SIVFS_GC_ENTRY_FLAGS_def SIVFS_GC_ENTRY_PAGE_def SIVFS_GC_ENTRY_INODE_def
    bit_push_bit_iff bit_1_iff bit_7_u64 by auto

lemma gc_page_ne_inode: "SIVFS_GC_ENTRY_PAGE \<noteq> SIVFS_GC_ENTRY_INODE"
  by (simp add: SIVFS_GC_ENTRY_PAGE_def SIVFS_GC_ENTRY_INODE_def)

lemma gc_untag:
  assumes "p AND SIVFS_GC_ENTRY_FLAGS = 0" and "\<forall>n. bit t n \<longrightarrow> n < 3"
  shows "(p OR t) AND SIVFS_GC_ENTRY_FLAGS = t" and "(p OR t) AND NOT SIVFS_GC_ENTRY_FLAGS = p"
proof -
  have "\<not> bit p n" if "n < 3" for n
  proof -
    have "bit (p AND SIVFS_GC_ENTRY_FLAGS) n \<longleftrightarrow> bit p n"
      using that by (simp add: bit_and_iff bit_gc_tags)
    then show ?thesis using assms(1) by simp
  qed
  with assms(2) show "(p OR t) AND SIVFS_GC_ENTRY_FLAGS = t"
    and "(p OR t) AND NOT SIVFS_GC_ENTRY_FLAGS = p"
    by (auto simp: u64_eq_iff bit_simps bit_gc_tags)
qed

section \<open>Properties\<close>

text \<open>
  The tagged pointers of the collector round-trip: an entry made from an aligned page (inode)
  address decodes to the page (inode) type and to the same address, and an address that is not
  8-byte aligned is refused.
\<close>

theorem gc_entry_roundtrip:
  "(sivfs_gc_make_entry_page p = Inr e \<longrightarrow>
      sivfs_gc_entry_to_type e = Inr SIVFS_GC_ENTRY_PAGE \<and> sivfs_gc_entry_to_page e = p) \<and>
   (sivfs_gc_make_entry_inode p = Inr e \<longrightarrow>
      sivfs_gc_entry_to_type e = Inr SIVFS_GC_ENTRY_INODE \<and> sivfs_gc_entry_to_inode e = p) \<and>
   (p mod 8 \<noteq> 0 \<longrightarrow> sivfs_gc_make_entry_page p = Inl EINVAL \<and> sivfs_gc_make_entry_inode p = Inl EINVAL)"
proof -
  have "p mod 8 = p AND 7"
    using take_bit_eq_mod [of 3 p] take_bit_eq_mask [of 3 p] by (simp add: mask_eq_decr_exp)
  then show ?thesis
    using gc_untag [of p SIVFS_GC_ENTRY_PAGE] gc_untag [of p SIVFS_GC_ENTRY_INODE] gc_page_ne_inode
    by (auto simp: sivfs_gc_make_entry_page_def sivfs_gc_make_entry_inode_def
        sivfs_gc_entry_to_type_def sivfs_gc_entry_to_page_def sivfs_gc_entry_to_inode_def
        SIVFS_GC_ENTRY_FLAGS_def bit_gc_tags split: if_splits)
qed

theorem gc_entry_roundtrip_witness:
  "sivfs_gc_make_entry_page 4096 = Inr 4098 \<and> sivfs_gc_entry_to_page 4098 = 4096"
proof -
  have *: "sivfs_gc_make_entry_page 4096 = Inr 4098"
    by (simp add: sivfs_gc_make_entry_page_def SIVFS_GC_ENTRY_FLAGS_def SIVFS_GC_ENTRY_PAGE_def)
  show ?thesis using gc_entry_roundtrip [of 4096 4098] * by blast
qed

definition reverse_index_ok :: "cp_world \<Rightarrow> bool" where
  "reverse_index_ok w \<longleftrightarrow>
     (let t = checkpoints_reverse (cw_checkpoints w) in
      rt_inv t \<and> (\<forall>i c. radix_tree_lookup t i = Some c \<longrightarrow>
         c \<noteq> 0 \<and> (\<exists>cp. cw_inodes w c = Some cp \<and> i = sivfs_checkpoints_ts_to_reverse_index (cp_ts cp))))"

lemma reverse_index_le:
  "sivfs_checkpoints_ts_to_reverse_index a \<le> sivfs_checkpoints_ts_to_reverse_index b \<longleftrightarrow> b \<le> a"
proof -
  have *: "sivfs_checkpoints_ts_to_reverse_index t = NOT t" for t
    by (simp add: sivfs_checkpoints_ts_to_reverse_index_def not_eq_complement)
  have u: "uint (NOT t) = 2 ^ 64 - 1 - uint t" for t :: u64
  proof -
    have "uint (NOT t) = (- uint t - 1) mod 2 ^ 64"
      by (simp add: uint_word_ariths not_eq_complement mod_simps)
    also have "\<dots> = ((- uint t - 1) + 2 ^ 64) mod 2 ^ 64" by (rule mod_add_self2 [symmetric])
    also have "\<dots> = 2 ^ 64 - 1 - uint t"
    proof (rule trans [OF mod_pos_pos_trivial])
      have "uint t < 2 ^ 64" using uint_bounded [of t] by simp
      then show "0 \<le> - uint t - 1 + 2 ^ 64" by linarith
      show "- uint t - 1 + 2 ^ 64 < 2 ^ 64" using uint_ge_0 [of t] by linarith
    qed simp
    finally show ?thesis .
  qed
  show ?thesis unfolding * word_le_def u by auto
qed

text \<open>
  A lookup of a checkpoint for a timestamp returns the newest inserted checkpoint that is neither
  newer than the wanted timestamp nor newer than the latest published one, and \<^verbatim>\<open>NULL\<close> only when
  there is no such checkpoint, although the tree is searched forward from the reversed index.
\<close>

theorem checkpoint_lookup_newest_visible:
  assumes "reverse_index_ok w" and "sivfs_checkpoint_lookup (cw_checkpoints w) desired = c"
  shows "(c \<noteq> 0 \<longrightarrow>
      (\<exists>cp. cw_inodes w c = Some cp \<and> cp_ts cp \<le> desired \<and>
            cp_ts cp \<le> latest_checkpoint_published (cw_checkpoints w) \<and>
            (\<forall>i c' cp'. radix_tree_lookup (checkpoints_reverse (cw_checkpoints w)) i = Some c' \<longrightarrow>
               cw_inodes w c' = Some cp' \<longrightarrow> cp_ts cp' \<le> desired \<longrightarrow>
               cp_ts cp' \<le> latest_checkpoint_published (cw_checkpoints w) \<longrightarrow> cp_ts cp' \<le> cp_ts cp))) \<and>
    (c = 0 \<longrightarrow>
      (\<forall>i c' cp'. radix_tree_lookup (checkpoints_reverse (cw_checkpoints w)) i = Some c' \<longrightarrow>
         cw_inodes w c' = Some cp' \<longrightarrow>
         \<not> (cp_ts cp' \<le> desired \<and> cp_ts cp' \<le> latest_checkpoint_published (cw_checkpoints w))))"
proof -
  let ?t = "checkpoints_reverse (cw_checkpoints w)"
  let ?pub = "latest_checkpoint_published (cw_checkpoints w)"
  let ?d = "if desired > ?pub then ?pub else desired"
  let ?start = "sivfs_checkpoints_ts_to_reverse_index ?d"
  have inv: "rt_inv ?t" and idx: "\<And>i c. radix_tree_lookup ?t i = Some c \<Longrightarrow>
      c \<noteq> 0 \<and> (\<exists>cp. cw_inodes w c = Some cp \<and> i = sivfs_checkpoints_ts_to_reverse_index (cp_ts cp))"
    using assms(1) by (auto simp: reverse_index_ok_def Let_def)
  have d: "x \<le> ?d \<longleftrightarrow> x \<le> desired \<and> x \<le> ?pub" for x by auto
  show ?thesis
  proof (cases "rt_from ?t ?start")
    case Nil
    then have "c = 0" using assms(2) by (simp add: sivfs_checkpoint_lookup_def Let_def)
    moreover have "\<not> cp_ts cp' \<le> ?d"
      if "radix_tree_lookup ?t i = Some c'" "cw_inodes w c' = Some cp'" for i c' cp'
      using rtree.slots_Nil [OF inv Nil that(1)] idx [OF that(1)] that(2)
        reverse_index_le [of ?d "cp_ts cp'"] by auto
    ultimately show ?thesis using d by auto
  next
    case (Cons p rest)
    obtain i where p: "p = (i, c)"
      using Cons assms(2) by (cases p) (simp add: sivfs_checkpoint_lookup_def Let_def)
    have least: "radix_tree_lookup ?t i = Some c" "?start \<le> i"
        "\<And>j x. radix_tree_lookup ?t j = Some x \<Longrightarrow> ?start \<le> j \<Longrightarrow> i \<le> j"
      using rtree.slots_first_least [OF inv Cons [unfolded p]] by auto
    obtain cp where cp: "cw_inodes w c = Some cp" "i = sivfs_checkpoints_ts_to_reverse_index (cp_ts cp)"
        "c \<noteq> 0"
      using idx [OF least(1)] by auto
    have "cp_ts cp \<le> ?d" using least(2) cp(2) reverse_index_le by blast
    moreover have "cp_ts cp' \<le> cp_ts cp"
      if "radix_tree_lookup ?t j = Some c'" "cw_inodes w c' = Some cp'" "cp_ts cp' \<le> ?d" for j c' cp'
      using least(3) [OF that(1)] idx [OF that(1)] that(2,3) cp(2) reverse_index_le by auto
    ultimately show ?thesis using cp d by auto
  qed
qed

definition example_world :: cp_world where
  "example_world =
     \<lparr>cw_store = \<lparr>cps_pages = (\<lambda>_. None), cps_npages = 0, cps_supply = [], cps_zero_page = 0,
                  cps_zero_pxd = (\<lambda>_. 0), cps_zero_refcount = 0\<rparr>,
      cw_inodes = [64 \<mapsto> \<lparr>cp_root = 0, cp_ts = 0, cp_obsoleted_ts = 5\<rparr>,
                   128 \<mapsto> \<lparr>cp_root = 0, cp_ts = 5, cp_obsoleted_ts = SIVFS_INVALID_TS\<rparr>],
      cw_checkpoints =
        \<lparr>latest_cp_checkpoint = 128, latest_cp_ts = 5, latest_checkpoint_published = 5,
         checkpoints_reverse = [(- 6, 128), (- 1, 64)],
         obsoleted_entries = \<lparr>stack_size = 0, stack_capacity = 0, stack_values = []\<rparr>,
         gc_blocked_entries = []\<rparr>,
      cw_allocs = [], cw_new_inodes = [], cw_nCheckpointPagesNew = 0\<rparr>"

theorem checkpoint_lookup_newest_visible_witness:
  "reverse_index_ok example_world \<and>
   sivfs_checkpoint_lookup (cw_checkpoints example_world) 4 = 64 \<and>
   (\<exists>cp. cw_inodes example_world 64 = Some cp \<and> cp_ts cp \<le> 4)"
proof -
  have ok: "reverse_index_ok example_world"
    by (auto simp: reverse_index_ok_def example_world_def radix_tree_lookup_def
        sivfs_checkpoints_ts_to_reverse_index_def Let_def split: if_splits)
  have lk: "sivfs_checkpoint_lookup (cw_checkpoints example_world) 4 = 64"
    by (simp add: sivfs_checkpoint_lookup_def example_world_def rt_from_def
        sivfs_checkpoints_ts_to_reverse_index_def)
  show ?thesis using checkpoint_lookup_newest_visible [OF ok lk] ok lk by auto
qed

section \<open>What reaches the collector\<close>

lemma mark_loop_push:
  "mark_loop pages (stack_values st) (stack_size st) = (OK, v, n) \<Longrightarrow>
   stack_push_loop st (map (\<lambda>p. p OR SIVFS_GC_ENTRY_PAGE) pages) = st\<lparr>stack_values := v, stack_size := n\<rparr>"
proof (induction pages arbitrary: st)
  case Nil
  then show ?case by simp
next
  case (Cons p pages)
  let ?st = "st\<lparr>stack_values := (stack_values st)[stack_size st := p OR SIVFS_GC_ENTRY_PAGE],
                stack_size := stack_size st + 1\<rparr>"
  have "mark_loop pages (stack_values ?st) (stack_size ?st) = (OK, v, n)"
    using Cons.prems by (auto simp: sivfs_gc_make_entry_page_def split: if_splits)
  from Cons.IH [OF this] show ?case by simp
qed

lemma mark_loop_frame:
  "mark_loop pages vs n = (r, v, n') \<Longrightarrow> k \<le> n \<Longrightarrow>
   length v = length vs \<and> take k v = take k vs \<and> (r = OK \<longrightarrow> n' = n + length pages)"
proof (induction pages arbitrary: vs n)
  case (Cons p pages)
  then show ?case by (fastforce split: sum.splits)
qed simp

lemma mark_loop_total:
  "list_all (\<lambda>p. p AND SIVFS_GC_ENTRY_FLAGS = 0) pages \<Longrightarrow> \<exists>v n'. mark_loop pages vs n = (OK, v, n')"
  by (induction pages arbitrary: vs n) (auto simp: sivfs_gc_make_entry_page_def)

lemma stack_inv_values:
  assumes "stack_inv st" and "length v = length (stack_values st)" and "take (stack_size st) v = stack_elems st"
  shows "stack_inv (st\<lparr>stack_values := v\<rparr>) \<and> stack_elems (st\<lparr>stack_values := v\<rparr>) = stack_elems st"
  using assms by (simp add: stack_inv_def stack_elems_def)

text \<open>
  Pages a new checkpoint obsoletes all reach the collector, or none does.  When
  \<^verbatim>\<open>sivfs_gc_mark_pages_obsoleted\<close> succeeds, the stack of obsoleted entries holds what it held before, then
  one page entry for each page in order, then an inode entry for the obsoleted checkpoint; when it fails
  the stack holds what it held before.
\<close>

theorem gc_mark_pages_all_or_nothing:
  assumes "stack_inv (obsoleted_entries (cw_checkpoints w))" and "stack_inv pages"
    and "sivfs_gc_mark_pages_obsoleted w (Some pages) cp = (r, w')"
  shows "stack_inv (obsoleted_entries (cw_checkpoints w')) \<and>
    stack_elems (obsoleted_entries (cw_checkpoints w')) =
      (if r = OK then stack_elems (obsoleted_entries (cw_checkpoints w)) @
         map (\<lambda>p. p OR SIVFS_GC_ENTRY_PAGE) (stack_elems pages) @
         (if cp = 0 then [] else [cp OR SIVFS_GC_ENTRY_INODE])
       else stack_elems (obsoleted_entries (cw_checkpoints w)))"
proof -
  let ?obs = "obsoleted_entries (cw_checkpoints w)" and ?tags = "map (\<lambda>p. p OR SIVFS_GC_ENTRY_PAGE) (stack_elems pages)"
  obtain ok w1 where na: "next_alloc w = (ok, w1)" by fastforce
  have cps: "cw_checkpoints w1 = cw_checkpoints w"
    using na by (auto simp: next_alloc_def split: list.splits)
  obtain r1 obs1 where rs: "sivfs_stack_reserve ok ?obs (Suc (stack_size ?obs + stack_size pages)) = (r1, obs1)"
    by fastforce
  have len: "length (stack_elems pages) = stack_size pages"
    using assms(2) by (simp add: stack_inv_def stack_elems_def)
  obtain r2 v n where ml: "mark_loop (stack_elems pages) (stack_values obs1) (stack_size obs1) = (r2, v, n)"
    by (metis surj_pair)
  note run = assms(3) [unfolded sivfs_gc_mark_pages_obsoleted_def, simplified, unfolded Let_def na, simplified,
      unfolded cps rs]
  from stack_reserve_cases [OF assms(1) rs] show ?thesis
  proof
    assume "r1 = E ENOMEM \<and> obs1 = ?obs"
    then show ?thesis using run assms(1) cps by auto
  next
    assume 1: "r1 = OK \<and> stack_inv obs1 \<and> stack_elems obs1 = stack_elems ?obs \<and>
      stack_size obs1 = stack_size ?obs \<and> Suc (stack_size ?obs + stack_size pages) \<le> stack_capacity obs1"
    have fr: "length v = length (stack_values obs1)" "take (stack_size obs1) v = stack_elems obs1"
        "r2 = OK \<longrightarrow> n = stack_size obs1 + stack_size pages"
      using mark_loop_frame [OF ml, of "stack_size obs1"] len by (simp_all add: stack_elems_def)
    note same = stack_inv_values [OF _ fr(1,2)]
    show ?thesis
    proof (cases "r2 = OK")
      case False
      then show ?thesis using run 1 ml same by (cases r2) auto
    next
      case True
      let ?st = "obs1\<lparr>stack_values := v, stack_size := n\<rparr>"
      have "?st = stack_push_loop obs1 ?tags" using mark_loop_push [of _ obs1] ml True by simp
      moreover have "stack_size obs1 + length ?tags \<le> stack_capacity obs1" using 1 len by simp
      ultimately have st: "stack_inv ?st" "stack_elems ?st = stack_elems ?obs @ ?tags"
        using stack_push_loop_elems [of obs1 ?tags] 1 by auto
      have "n < stack_capacity obs1" using 1 fr(3) True by simp
      note one = stack_store [OF st(1), of "cp OR SIVFS_GC_ENTRY_INODE"]
      show ?thesis using run 1 ml True st one same \<open>n < stack_capacity obs1\<close>
        by (auto simp: sivfs_gc_make_entry_inode_def split: if_splits)
    qed
  qed
qed

theorem gc_mark_pages_all_or_nothing_witness:
  "\<exists>w'. sivfs_gc_mark_pages_obsoleted example_world (Some (example_stack [4096])) 64 = (OK, w') \<and>
     stack_elems (obsoleted_entries (cw_checkpoints w')) = [4098, 68]"
proof -
  obtain w' where run: "sivfs_gc_mark_pages_obsoleted example_world (Some (example_stack [4096])) 64 = (OK, w')"
    by (simp add: sivfs_gc_mark_pages_obsoleted_def next_alloc_def example_world_def example_stack_def Let_def
        sivfs_stack_reserve_def sivfs_gc_make_entry_page_def sivfs_gc_make_entry_inode_def
        SIVFS_GC_ENTRY_FLAGS_def stack_elems_def)
  show ?thesis
    using gc_mark_pages_all_or_nothing [OF _ _ run] run
    by (simp add: stack_inv_def stack_elems_def example_world_def example_stack_def
        SIVFS_GC_ENTRY_PAGE_def SIVFS_GC_ENTRY_INODE_def)
qed

end
