(* ===== verification/Sivfs_Log.thy ===== *)
theory Sivfs_Log
  imports Writeset Radix_Tree
begin

text \<open>
  The commit log, \<^verbatim>\<open>kern/sivfs_log.h\<close>, \<^verbatim>\<open>kern/sivfs_shared_state.h\<close> and \<^verbatim>\<open>kern/sivfs_shared_state.c\<close>, in the
  configured mode \<^verbatim>\<open>SIVFS_FIGURE_SEQLOG_SEQ\<close>: entries are carved one after the other out of chunks of
  memory, a chunk starts with a pointer to the chunk before it, and the garbage collection of the
  first entry of a chunk frees the chunk before.

  Log entries are objects at addresses, \<open>log_mem\<close>, inside chunks, \<open>log_chunks\<close>.  \<open>kfree_chunk\<close> removes
  a chunk and every entry in it; an access to memory that is not there is \<open>UB\<close>.  The result of
  \<^verbatim>\<open>kmalloc\<close> is a parameter, with \<open>kmalloc_ok\<close> as what the allocator promises about it, and so is
  whether the node allocation of \<^verbatim>\<open>radix_tree_insert\<close> succeeds.
\<close>

section \<open>State\<close>

record sivfs_log_entry =
  le_ts :: sivfs_ts
  le_ws :: sivfs_writeset
  le_aborted :: bool
  le_commit_status_filled_in :: bool
  le_ws_has_metadata :: bool
  le_first_in_chunk :: bool
  le_prev :: u64
  le_next :: u64

record sivfs_log =
  latest :: u64
  bytes_remaining_chunk :: u64
  chunk_ptr :: u64
  chunk_start_ptr :: u64

record log_chunk =
  ck_size :: u64
  ck_prev :: u64

record sivfs_shared_state =
  master_log :: sivfs_log
  log_cache :: "u64 rt"
  master_log_deleted_ts :: sivfs_ts
  master_ts :: sivfs_ts
  commit_started_ts :: sivfs_ts
  log_mem :: "u64 \<Rightarrow> sivfs_log_entry option"
  log_chunks :: "u64 \<Rightarrow> log_chunk option"

definition sivfs_init_log :: sivfs_log where
  "sivfs_init_log = \<lparr>latest = 0, bytes_remaining_chunk = 0, chunk_ptr = 0, chunk_start_ptr = 0\<rparr>"

definition sivfs_init_log_entry :: sivfs_log_entry where
  "sivfs_init_log_entry =
     \<lparr>le_ts = SIVFS_INVALID_TS, le_ws = sivfs_writeset_zero, le_aborted = False,
      le_commit_status_filled_in = False, le_ws_has_metadata = False, le_first_in_chunk = False,
      le_prev = 0, le_next = 0\<rparr>"

text \<open>\<^verbatim>\<open>sizeof(struct sivfs_log_entry)\<close> on the 64-bit target: 8 + 24 + 8 (four bools, padded) + 16.\<close>

definition sizeof_log_entry :: u64 where
  "sizeof_log_entry = 56"

definition SIVFS_LOG_CHUNK_SIZE :: u64 where
  "SIVFS_LOG_CHUNK_SIZE = 1024"

definition kfree_chunk :: "sivfs_shared_state \<Rightarrow> u64 \<Rightarrow> rc \<times> sivfs_shared_state" where
  "kfree_chunk s p =
     (if p = 0 then (OK, s)
      else case log_chunks s p of
        None \<Rightarrow> (UB, s)
      | Some c \<Rightarrow>
          (OK, s\<lparr>log_chunks := (log_chunks s)(p := None),
                 log_mem := (\<lambda>a. if p \<le> a \<and> a < p + ck_size c then None else log_mem s a)\<rparr>))"

section \<open>Creating an entry\<close>

text \<open>Whether the \<open>n\<close> bytes at \<open>p\<close> lie in the chunk that starts at \<open>start\<close>, behind its pointer word.\<close>

definition chunk_covers :: "sivfs_shared_state \<Rightarrow> u64 \<Rightarrow> u64 \<Rightarrow> nat \<Rightarrow> bool" where
  "chunk_covers s start p n \<longleftrightarrow>
     (case log_chunks s start of
        None \<Rightarrow> False
      | Some c \<Rightarrow> unat start + 8 \<le> unat p \<and> unat p + n \<le> unat start + unat (ck_size c))"

definition insert_log_entry_at ::
  "bool \<Rightarrow> sivfs_shared_state \<Rightarrow> sivfs_ts \<Rightarrow> u64 \<Rightarrow> u64 \<Rightarrow> u64 \<Rightarrow> u64 \<Rightarrow>
   rc \<times> u64 \<times> sivfs_shared_state" where
  "insert_log_entry_at tree_ok s ts sizeof_writeset_entries new_chunk_start_ptr new_chunk_ptr
       new_bytes_remaining_chunk =
     (if \<not> chunk_covers s new_chunk_start_ptr new_chunk_ptr
             (unat sizeof_log_entry + unat sizeof_writeset_entries) then (UB, 0, s)
      else
        let log_ent = new_chunk_ptr;
            ent = sivfs_init_log_entry
              \<lparr>le_ws := \<lparr>capacity_bytes = sizeof_writeset_entries, size_bytes = 0,
                        entries = replicate (words_of_bytes sizeof_writeset_entries) 0\<rparr>,
               le_first_in_chunk := (log_ent = new_chunk_start_ptr + 8)\<rparr>;
            s1 = s\<lparr>log_mem := (log_mem s)(log_ent \<mapsto> ent)\<rparr>
        in case radix_tree_insert tree_ok (log_cache s) ts log_ent of
             (OK, t) \<Rightarrow>
               (OK, log_ent,
                s1\<lparr>log_cache := t,
                   master_log := (master_log s)
                     \<lparr>chunk_start_ptr := new_chunk_start_ptr,
                      chunk_ptr := new_chunk_ptr + sizeof_log_entry + sizeof_writeset_entries,
                      bytes_remaining_chunk :=
                        new_bytes_remaining_chunk - (sizeof_log_entry + sizeof_writeset_entries)\<rparr>\<rparr>)
           | (r, _) \<Rightarrow>
               (case kfree_chunk s1 new_chunk_start_ptr of
                  (OK, s2) \<Rightarrow> (r, 0, s2) | (r', s2) \<Rightarrow> (r', 0, s2)))"

definition sivfs_allocate_log_insert_log_cache ::
  "u64 option \<Rightarrow> bool \<Rightarrow> sivfs_shared_state \<Rightarrow> sivfs_ts \<Rightarrow> sivfs_writeset \<Rightarrow>
   rc \<times> u64 \<times> sivfs_shared_state" where
  "sivfs_allocate_log_insert_log_cache kmalloc tree_ok s ts log_writeset =
     (let log = master_log s;
          sizeof_writeset_entries = size_bytes log_writeset;
          bytes_to_allocate = sizeof_log_entry + sizeof_writeset_entries
      in if bytes_remaining_chunk log < bytes_to_allocate then
           let chunk_bytes_to_allocate = bytes_to_allocate + 8;
               chunk_real_allocate = max SIVFS_LOG_CHUNK_SIZE chunk_bytes_to_allocate
           in case kmalloc of
                None \<Rightarrow> (E ENOMEM, 0, s)
              | Some start \<Rightarrow>
                  insert_log_entry_at tree_ok
                    (s\<lparr>log_chunks := (log_chunks s)(start \<mapsto>
                         \<lparr>ck_size = chunk_real_allocate, ck_prev = chunk_start_ptr log\<rparr>)\<rparr>)
                    ts sizeof_writeset_entries start (start + 8) (chunk_real_allocate - 8)
         else insert_log_entry_at tree_ok s ts sizeof_writeset_entries
                (chunk_start_ptr log) (chunk_ptr log) (bytes_remaining_chunk log))"

definition log_update ::
  "sivfs_shared_state \<Rightarrow> u64 \<Rightarrow> (sivfs_log_entry \<Rightarrow> sivfs_log_entry) \<Rightarrow> sivfs_shared_state" where
  "log_update s p f = s\<lparr>log_mem := (log_mem s)(p := map_option f (log_mem s p))\<rparr>"

definition sivfs_create_log_entry ::
  "u64 option \<Rightarrow> bool \<Rightarrow> sivfs_shared_state \<Rightarrow> sivfs_ts \<Rightarrow> sivfs_writeset \<Rightarrow>
   rc \<times> u64 \<times> sivfs_shared_state" where
  "sivfs_create_log_entry kmalloc tree_ok s ts log_writeset =
     (case sivfs_allocate_log_insert_log_cache kmalloc tree_ok s ts log_writeset of
        (OK, log, s1) \<Rightarrow>
          let prev_master = latest (master_log s1);
              s2 = log_update s1 log (\<lambda>e. e\<lparr>le_prev := prev_master\<rparr>)
          in if prev_master \<noteq> 0 then
               (case log_mem s2 prev_master of
                  None \<Rightarrow> (UB, 0, s2)
                | Some _ \<Rightarrow>
                    let s3 = log_update s2 prev_master (\<lambda>e. e\<lparr>le_next := log\<rparr>)
                    in (OK, log, s3\<lparr>master_log := (master_log s3)\<lparr>latest := log\<rparr>\<rparr>))
             else (OK, log, s2\<lparr>master_log := (master_log s2)\<lparr>latest := log\<rparr>\<rparr>)
      | (r, _, s1) \<Rightarrow> (r, 0, s1))"

section \<open>Looking entries up\<close>

text \<open>A missing entry is the address 0, as \<^verbatim>\<open>radix_tree_lookup\<close> returns \<^verbatim>\<open>NULL\<close>.\<close>

definition sivfs_ts_to_log_entry ::
  "sivfs_shared_state \<Rightarrow> sivfs_ts \<Rightarrow> sivfs_ts \<Rightarrow> sivfs_ts \<Rightarrow> rc \<times> u64" where
  "sivfs_ts_to_log_entry s ts ts_start ts_stop =
     (if ts_start < master_log_deleted_ts s then (E ENOMEM, 0)
      else (OK, case radix_tree_lookup (log_cache s) ts of None \<Rightarrow> 0 | Some p \<Rightarrow> p))"

section \<open>Deleting a prefix of the log\<close>

definition DELETE_BATCH :: nat where
  "DELETE_BATCH = 128"

definition free_log_entry :: "sivfs_shared_state \<Rightarrow> u64 \<Rightarrow> rc \<times> sivfs_shared_state" where
  "free_log_entry s log_ent =
     (case log_mem s log_ent of
        None \<Rightarrow> (UB, s)
      | Some e \<Rightarrow>
          if le_first_in_chunk e then
            (case log_chunks s (log_ent - 8) of
               None \<Rightarrow> (UB, s)
             | Some c \<Rightarrow> kfree_chunk s (ck_prev c))
          else (OK, s))"

text \<open>The scan of one batch over the slots of the tree: \<open>indices\<close> are those collected so far.\<close>

fun delete_scan ::
  "sivfs_ts \<Rightarrow> u64 rt \<Rightarrow> u64 list \<Rightarrow> sivfs_shared_state \<Rightarrow> rc \<times> u64 list \<times> sivfs_shared_state" where
  "delete_scan stop_ts [] indices s = (OK, indices, s)"
| "delete_scan stop_ts ((i, log_ent) # slots) indices s =
     (if i \<ge> stop_ts then (OK, indices, s)
      else case free_log_entry s log_ent of
        (OK, s') \<Rightarrow>
          if Suc (length indices) = DELETE_BATCH then (OK, indices @ [i], s')
          else delete_scan stop_ts slots (indices @ [i]) s'
      | (r, s') \<Rightarrow> (r, indices, s'))"

lemma delete_scan_cache: "delete_scan stop ts ind s = (r, ind', s') \<Longrightarrow> log_cache s' = log_cache s"
proof (induction ts arbitrary: ind s)
  case Nil
  then show ?case by auto
next
  case (Cons p ts)
  obtain i a where p: "p = (i, a)" by fastforce
  have k: "kfree_chunk s q = (r', s'') \<Longrightarrow> log_cache s'' = log_cache s" for s q r' s''
    by (auto simp: kfree_chunk_def split: if_splits option.splits)
  have f: "free_log_entry s a = (r', s'') \<Longrightarrow> log_cache s'' = log_cache s" for r' s''
    using k by (auto simp: free_log_entry_def split: option.splits if_splits)
  show ?case using Cons f unfolding p
    by (auto split: if_splits prod.splits rc.splits)
qed

lemma delete_scan_indices:
  "delete_scan stop ts ind s = (r, ind', s') \<Longrightarrow> \<exists>k. ind' = ind @ map fst (take k ts)"
proof (induction ts arbitrary: ind s)
  case Nil
  then show ?case by auto
next
  case (Cons p ts)
  obtain i a where p: "p = (i, a)" by fastforce
  obtain r0 s0 where f: "free_log_entry s a = (r0, s0)" by fastforce
  consider "ind' = ind" | "ind' = ind @ [i]" | "delete_scan stop ts (ind @ [i]) s0 = (r, ind', s')"
    using Cons.prems f unfolding p by (auto split: if_splits rc.splits)
  then show ?case
  proof cases
    case 1
    then show ?thesis by (intro exI [of _ 0]) simp
  next
    case 2
    then show ?thesis by (intro exI [of _ 1]) (simp add: p)
  next
    case 3
    then obtain k where "ind' = (ind @ [i]) @ map fst (take k ts)" using Cons.IH by blast
    then show ?thesis by (intro exI [of _ "Suc k"]) (simp add: p)
  qed
qed

function delete_log_loop ::
  "sivfs_ts \<Rightarrow> bool \<Rightarrow> sivfs_shared_state \<Rightarrow> rc \<times> bool \<times> sivfs_shared_state" where
  "delete_log_loop stop_ts did_delete s =
     (case delete_scan stop_ts (rt_from (log_cache s) 0) [] s of
        (OK, indices, s1) \<Rightarrow>
          if indices = [] then (OK, did_delete, s1)
          else delete_log_loop stop_ts True
                 (s1\<lparr>log_cache := fold (\<lambda>i t. radix_tree_delete t i) indices (log_cache s1)\<rparr>)
      | (r, _, s1) \<Rightarrow> (r, did_delete, s1))"
  by pat_completeness auto
termination delete_log_loop
proof (relation "measure (\<lambda>(stop, did, s). length (log_cache s))")
  fix stop_ts did s r y indices s1
  assume scan: "(r, y) = delete_scan stop_ts (rt_from (log_cache s) 0) [] s" "r = OK"
    "(indices, s1) = y" and ne: "indices \<noteq> []"
  then have sc: "delete_scan stop_ts (log_cache s) [] s = (r, indices, s1)" by (metis rt_from_0)
  then obtain k where k: "indices = map fst (take k (log_cache s))"
    using delete_scan_indices by fastforce
  have c: "log_cache s1 = log_cache s" using delete_scan_cache [OF sc] .
  obtain p t where pt: "log_cache s = p # t" "0 < k" using k ne by (cases "log_cache s"; cases k) auto
  then have "fst p \<in> set indices" using k by (cases k) auto
  then have "length (filter (\<lambda>(j, _). j \<notin> set indices) (log_cache s)) < length (log_cache s)"
    using pt by (cases p) (auto simp: less_Suc_eq_le)
  then show "((stop_ts, True,
       s1\<lparr>log_cache := fold (\<lambda>i t. radix_tree_delete t i) indices (log_cache s1)\<rparr>), stop_ts, did, s)
     \<in> measure (\<lambda>(stop, did, s). length (log_cache s))"
    by (simp add: fold_delete_eq c)
qed simp

declare delete_log_loop.simps [simp del]

definition sivfs_delete_log ::
  "bool \<Rightarrow> sivfs_shared_state \<Rightarrow> sivfs_ts \<Rightarrow> rc \<times> bool \<times> sivfs_shared_state" where
  "sivfs_delete_log did_delete s stop_ts =
     (case delete_log_loop stop_ts did_delete s of
        (OK, did, s1) \<Rightarrow>
          if stop_ts = SIVFS_INVALID_TS then
            let s2 = s1\<lparr>master_log := (master_log s1)\<lparr>bytes_remaining_chunk := 0\<rparr>\<rparr>
            in case kfree_chunk s2 (chunk_start_ptr (master_log s2)) of
                 (OK, s3) \<Rightarrow> (OK, did, s3\<lparr>master_log_deleted_ts := stop_ts\<rparr>)
               | (r, s3) \<Rightarrow> (r, did, s3)
          else (OK, did, s1\<lparr>master_log_deleted_ts := stop_ts\<rparr>)
      | (r, did, s1) \<Rightarrow> (r, did, s1))"

section \<open>The layout of the log in memory\<close>

text \<open>
  A layout lists the chunks from the oldest to the current one, each with the addresses of its
  entries that are still in the cache.  Only the oldest chunk may have lost its first entries.
\<close>

definition le_end :: "sivfs_log_entry \<Rightarrow> u64 \<Rightarrow> nat" where
  "le_end e a = unat a + 56 + unat (capacity_bytes (le_ws e))"

definition entry_ok :: "sivfs_shared_state \<Rightarrow> u64 \<Rightarrow> u64 \<Rightarrow> bool" where
  "entry_ok s start a \<longleftrightarrow>
     (\<exists>c e. log_chunks s start = Some c \<and> log_mem s a = Some e \<and> unat start + 8 \<le> unat a \<and>
            le_end e a \<le> unat start + unat (ck_size c) \<and>
            (le_first_in_chunk e \<longleftrightarrow> a = start + 8))"

definition chunk_ok :: "sivfs_shared_state \<Rightarrow> u64 \<times> u64 list \<Rightarrow> bool" where
  "chunk_ok s = (\<lambda>(start, as). start \<noteq> 0 \<and>
     (\<exists>c. log_chunks s start = Some c \<and> unat start + unat (ck_size c) < 2 ^ 64) \<and>
     (\<forall>a \<in> set as. entry_ok s start a) \<and>
     sorted_wrt (\<lambda>a b. le_end (the (log_mem s a)) a \<le> unat b) as)"

definition chunks_disjoint :: "sivfs_shared_state \<Rightarrow> bool" where
  "chunks_disjoint s \<longleftrightarrow>
     (\<forall>p q c d. p \<noteq> q \<longrightarrow> log_chunks s p = Some c \<longrightarrow> log_chunks s q = Some d \<longrightarrow>
        unat p + unat (ck_size c) \<le> unat q \<or> unat q + unat (ck_size d) \<le> unat p)"

fun chunk_chain :: "sivfs_shared_state \<Rightarrow> u64 \<Rightarrow> (u64 \<times> u64 list) list \<Rightarrow> bool" where
  "chunk_chain s prev [] = True"
| "chunk_chain s prev ((start, as) # cs) =
     (as \<noteq> [] \<and> hd as = start + 8 \<and> map_option ck_prev (log_chunks s start) = Some prev \<and>
      chunk_chain s start cs)"

definition mem_layout :: "sivfs_shared_state \<Rightarrow> (u64 \<times> u64 list) list \<Rightarrow> bool" where
  "mem_layout s cs \<longleftrightarrow>
     distinct (map fst cs) \<and> dom (log_chunks s) = set (map fst cs) \<and> list_all (chunk_ok s) cs \<and>
     chunks_disjoint s \<and>
     (case cs of [] \<Rightarrow> True
      | (start, as) # rest \<Rightarrow>
          (as \<noteq> [] \<longrightarrow> hd as = start + 8 \<longrightarrow> map_option ck_prev (log_chunks s start) = Some 0) \<and>
          chunk_chain s start rest)"

definition cur_ok :: "sivfs_shared_state \<Rightarrow> u64 \<times> u64 list \<Rightarrow> bool" where
  "cur_ok s = (\<lambda>(start, as). chunk_start_ptr (master_log s) = start \<and>
     (\<exists>c. log_chunks s start = Some c \<and> unat start + 8 \<le> unat (chunk_ptr (master_log s)) \<and>
        unat (chunk_ptr (master_log s)) + unat (bytes_remaining_chunk (master_log s)) =
          unat start + unat (ck_size c)) \<and>
     entry_ok s start (latest (master_log s)) \<and>
     le_next (the (log_mem s (latest (master_log s)))) = 0 \<and>
     (\<forall>a \<in> insert (latest (master_log s)) (set as).
        le_end (the (log_mem s a)) a \<le> unat (chunk_ptr (master_log s))))"

fun linked :: "(u64 \<Rightarrow> sivfs_log_entry option) \<Rightarrow> u64 list \<Rightarrow> bool" where
  "linked mem [] = True"
| "linked mem [a] = True"
| "linked mem (a # b # as) =
     (le_next (the (mem a)) = b \<and> le_prev (the (mem b)) = a \<and> linked mem (b # as))"

definition log_inv :: "sivfs_shared_state \<Rightarrow> bool" where
  "log_inv s \<longleftrightarrow> rt_inv (log_cache s) \<and> distinct (map snd (log_cache s)) \<and>
     linked (log_mem s) (map snd (log_cache s)) \<and>
     (log_cache s \<noteq> [] \<longrightarrow> snd (last (log_cache s)) = latest (master_log s)) \<and>
     (\<exists>cs. map snd (log_cache s) = concat (map snd cs) \<and> mem_layout s cs \<and>
        (if cs = [] then master_log s = sivfs_init_log else cur_ok s (last cs)))"

subsection \<open>Frame lemmas\<close>

lemma chunk_ok_cong:
  assumes "log_chunks s' st = log_chunks s st" and "\<forall>a \<in> set as. log_mem s' a = log_mem s a"
  shows "chunk_ok s' (st, as) \<longleftrightarrow> chunk_ok s (st, as)"
proof -
  have "sorted_wrt (\<lambda>a b. le_end (the (log_mem s' a)) a \<le> unat b) as \<longleftrightarrow>
        sorted_wrt (\<lambda>a b. le_end (the (log_mem s a)) a \<le> unat b) as"
    using assms(2) by (induction as) auto
  then show ?thesis using assms by (auto simp: chunk_ok_def entry_ok_def)
qed

definition entry_shape :: "sivfs_log_entry \<Rightarrow> u64 \<times> bool" where
  "entry_shape e = (capacity_bytes (le_ws e), le_first_in_chunk e)"

lemma entry_shape_ok:
  assumes "log_chunks s' st = log_chunks s st"
    and "map_option entry_shape (log_mem s' a) = map_option entry_shape (log_mem s a)"
  shows "entry_ok s' st a \<longleftrightarrow> entry_ok s st a"
  using assms by (cases "log_mem s a"; cases "log_mem s' a") (auto simp: entry_ok_def entry_shape_def le_end_def)

lemma entry_shape_end:
  assumes "map_option entry_shape (log_mem s' a) = map_option entry_shape (log_mem s a)"
    and "log_mem s a \<noteq> None"
  shows "le_end (the (log_mem s' a)) a = le_end (the (log_mem s a)) a"
  using assms by (cases "log_mem s a"; cases "log_mem s' a") (auto simp: entry_shape_def le_end_def)

lemma chunk_ok_shape:
  assumes "log_chunks s' st = log_chunks s st"
    and "\<forall>a \<in> set as. map_option entry_shape (log_mem s' a) = map_option entry_shape (log_mem s a)"
    and ok: "chunk_ok s (st, as)"
  shows "chunk_ok s' (st, as)"
proof -
  have e: "entry_ok s' st a" "log_mem s a \<noteq> None" if "a \<in> set as" for a
    using that ok assms entry_shape_ok [of s' st s a] by (auto simp: chunk_ok_def entry_ok_def)
  have ends: "le_end (the (log_mem s' a)) a = le_end (the (log_mem s a)) a" if "a \<in> set as" for a
    using entry_shape_end assms(2) e(2) [OF that] that by blast
  have "sorted_wrt (\<lambda>a b. le_end (the (log_mem s a)) a \<le> unat b) as" using ok by (simp add: chunk_ok_def)
  then have "sorted_wrt (\<lambda>a b. le_end (the (log_mem s' a)) a \<le> unat b) as"
    by (rule sorted_wrt_mono_rel [rotated]) (use ends in auto)
  then show ?thesis using ok assms(1) e by (auto simp: chunk_ok_def)
qed

lemma chunk_chain_snoc:
  "chunk_chain s p (cs @ [(st, as)]) \<longleftrightarrow> chunk_chain s p cs \<and> as \<noteq> [] \<and> hd as = st + 8 \<and>
     map_option ck_prev (log_chunks s st) = Some (last (p # map fst cs))"
  by (induction cs arbitrary: p) auto

lemma chunk_chain_cong:
  "\<forall>st \<in> fst ` set cs. log_chunks s' st = log_chunks s st \<Longrightarrow>
   chunk_chain s' prev cs \<longleftrightarrow> chunk_chain s prev cs"
  by (induction cs arbitrary: prev) auto

lemma linked_cong:
  "\<forall>a \<in> set as. mem' a = mem a \<Longrightarrow> linked mem' as \<longleftrightarrow> linked mem as"
  by (induction mem as rule: linked.induct) auto

lemma linked_tl: "linked mem (a # as) \<Longrightarrow> linked mem as"
  by (cases as) auto

lemma linked_drop: "linked mem as \<Longrightarrow> linked mem (drop k as)"
proof (induction k arbitrary: as)
  case (Suc k)
  then show ?case by (cases as) (auto dest: linked_tl)
qed simp

lemma cur_ok_cong:
  assumes "master_log s' = master_log s" and "log_chunks s' st = log_chunks s st"
    and "\<And>a. entry_ok s st a \<Longrightarrow> log_mem s' a = log_mem s a" and "\<forall>a \<in> set as. entry_ok s st a"
    and "cur_ok s (st, as)"
  shows "cur_ok s' (st, as)"
proof -
  have l: "entry_ok s st (latest (master_log s))" using assms(5) by (simp add: cur_ok_def)
  have m: "log_mem s' (latest (master_log s)) = log_mem s (latest (master_log s))"
    using assms(3) [OF l] .
  then have "entry_ok s' st (latest (master_log s))" using l assms(2) by (simp add: entry_ok_def)
  moreover have "\<forall>a \<in> insert (latest (master_log s)) (set as). log_mem s' a = log_mem s a"
    using m assms(3,4) by auto
  ultimately show ?thesis using assms(1,2,5) m unfolding cur_ok_def by auto
qed

lemma cur_ok_subset: "cur_ok s (st, as) \<Longrightarrow> set bs \<subseteq> set as \<Longrightarrow> cur_ok s (st, bs)"
  unfolding cur_ok_def by blast

lemma u64_add_8: "unat (st::u64) + 8 \<le> unat (a::u64) \<Longrightarrow> unat (st + 8) = unat st + 8"
  using unat_less_u64 [of a] unat_add_u64 [of st 8] by simp

text \<open>Freeing a chunk keeps the entries of every other chunk.\<close>

lemma kfree_keeps_entry:
  assumes "chunks_disjoint s" and "log_chunks s p = Some c" and "unat p + unat (ck_size c) < 2 ^ 64"
    and "entry_ok s q a" and "p \<noteq> q" and "kfree_chunk s p = (OK, s')"
  shows "log_mem s' a = log_mem s a"
proof -
  obtain d e where q: "log_chunks s q = Some d" "log_mem s a = Some e" "unat q + 8 \<le> unat a"
      "le_end e a \<le> unat q + unat (ck_size d)"
    using assms(4) by (auto simp: entry_ok_def)
  have "unat p + unat (ck_size c) \<le> unat q \<or> unat q + unat (ck_size d) \<le> unat p"
    using assms(1,2,5) q(1) unfolding chunks_disjoint_def by blast
  moreover have "unat (p + ck_size c) = unat p + unat (ck_size c)"
    using assms(3) by (rule unat_add_u64)
  ultimately have "\<not> (p \<le> a \<and> a < p + ck_size c)"
    using q(3,4) by (auto simp: le_end_def word_le_nat_alt word_less_nat_alt)
  then show ?thesis using assms(2,6) by (auto simp: kfree_chunk_def split: if_splits)
qed

text \<open>What a step of the deletion leaves alone.\<close>

definition log_rest :: "sivfs_shared_state \<Rightarrow> sivfs_log \<times> sivfs_ts \<times> sivfs_ts \<times> sivfs_ts" where
  "log_rest s = (master_log s, master_log_deleted_ts s, master_ts s, commit_started_ts s)"

definition del_frame ::
  "sivfs_shared_state \<Rightarrow> sivfs_shared_state \<Rightarrow> (u64 \<times> u64 list) list \<Rightarrow> (u64 \<times> u64 list) list \<Rightarrow> bool" where
  "del_frame s s' cs cs' \<longleftrightarrow>
     log_rest s' = log_rest s \<and> log_cache s' = log_cache s \<and>
     (cs \<noteq> [] \<longrightarrow> cs' \<noteq> [] \<and> fst (last cs') = fst (last cs) \<and>
        set (snd (last cs')) \<subseteq> set (snd (last cs))) \<and>
     fst ` set cs' \<subseteq> fst ` set cs \<and>
     (\<forall>p \<in> fst ` set cs'. log_chunks s' p = log_chunks s p \<and>
        (\<forall>a. entry_ok s p a \<longrightarrow> log_mem s' a = log_mem s a))"

lemma del_frame_refl: "del_frame s s cs cs"
  by (simp add: del_frame_def)

lemma mem_layout_chunk:
  assumes "mem_layout s cs" and "(st, as) \<in> set cs"
  shows "chunk_ok s (st, as)"
  using assms by (auto simp: mem_layout_def list_all_iff)

lemma mem_layout_entry:
  assumes "mem_layout s cs" and "a \<in> set (concat (map snd cs))"
  shows "\<exists>st as. (st, as) \<in> set cs \<and> a \<in> set as \<and> entry_ok s st a"
  using assms mem_layout_chunk [OF assms(1)] by (fastforce simp: chunk_ok_def)

lemma sorted_ends_hd:
  assumes "chunk_ok s (st, a # as)" and "as \<noteq> []"
  shows "hd as \<noteq> st + 8"
proof -
  obtain b bs where as: "as = b # bs" using assms(2) by (cases as) auto
  have "entry_ok s st a" and le: "le_end (the (log_mem s a)) a \<le> unat b"
    using assms(1) as by (auto simp: chunk_ok_def)
  then have "unat st + 8 \<le> unat a" by (auto simp: entry_ok_def)
  then show ?thesis using le as u64_add_8 [of st a] by (auto simp: le_end_def)
qed

lemma free_oldest_in_first_chunk:
  assumes "mem_layout s ((st, a # as) # rest)"
  shows "free_log_entry s a = (OK, s) \<and> mem_layout s ((st, as) # rest) \<and>
         del_frame s s ((st, a # as) # rest) ((st, as) # rest)"
proof -
  have ck: "chunk_ok s (st, a # as)" using mem_layout_chunk [OF assms] by simp
  obtain c e where e: "log_chunks s st = Some c" "log_mem s a = Some e"
      "le_first_in_chunk e \<longleftrightarrow> a = st + 8"
    using ck by (auto simp: chunk_ok_def entry_ok_def)
  have prev: "a = st + 8 \<Longrightarrow> ck_prev c = 0" using assms e(1) by (simp add: mem_layout_def)
  have "free_log_entry s a = (OK, s)"
    using e prev by (auto simp: free_log_entry_def kfree_chunk_def)
  moreover have "chunk_ok s (st, as)" using ck by (simp add: chunk_ok_def)
  then have "mem_layout s ((st, as) # rest)"
    using assms sorted_ends_hd [OF ck] by (simp add: mem_layout_def)
  moreover have "del_frame s s ((st, a # as) # rest) ((st, as) # rest)"
    by (auto simp: del_frame_def)
  ultimately show ?thesis by blast
qed

lemma free_first_of_next_chunk:
  assumes "mem_layout s ((st, []) # (st2, a # as) # rest)"
  shows "\<exists>s'. free_log_entry s a = (OK, s') \<and> mem_layout s' ((st2, as) # rest) \<and>
         del_frame s s' ((st, []) # (st2, a # as) # rest) ((st2, as) # rest)"
proof -
  let ?cs = "(st2, a # as) # rest"
  have ck: "chunk_ok s (st, [])" and ck2: "chunk_ok s (st2, a # as)"
    using mem_layout_chunk [OF assms] by auto
  obtain c where c: "log_chunks s st = Some c" "unat st + unat (ck_size c) < 2 ^ 64" "st \<noteq> 0"
    using ck by (auto simp: chunk_ok_def)
  have a: "a = st2 + 8" and d: "map_option ck_prev (log_chunks s st2) = Some st"
    and chain: "chunk_chain s st2 rest"
    using assms by (auto simp: mem_layout_def)
  obtain e where e: "log_mem s a = Some e" "le_first_in_chunk e"
    using ck2 a by (auto simp: chunk_ok_def entry_ok_def)
  obtain s' where k: "kfree_chunk s st = (OK, s')" using c by (simp add: kfree_chunk_def)
  have f: "free_log_entry s a = (OK, s')" using e a d k by (auto simp: free_log_entry_def)
  have s': "log_chunks s' = (log_chunks s)(st := None)" using k c by (auto simp: kfree_chunk_def)
  have dis: "chunks_disjoint s" and dist: "distinct (st # map fst ?cs)"
    and dm: "dom (log_chunks s) = insert st (set (map fst ?cs))" and all: "list_all (chunk_ok s) ?cs"
    using assms by (auto simp: mem_layout_def)
  have keep: "log_mem s' b = log_mem s b" if "entry_ok s q b" "q \<in> fst ` set ?cs" for q b
    using kfree_keeps_entry [OF dis c(1,2) that(1) _ k] that(2) dist by auto
  have same: "log_chunks s' q = log_chunks s q" if "q \<in> fst ` set ?cs" for q
    using s' that dist by auto
  have "chunk_ok s' (q, bs)" if "(q, bs) \<in> set ?cs" for q bs
  proof -
    have ok: "chunk_ok s (q, bs)" using all that by (auto simp: list_all_iff)
    then have "\<forall>b \<in> set bs. log_mem s' b = log_mem s b" using keep [of q] that
      by (force simp: chunk_ok_def)
    moreover have "log_chunks s' q = log_chunks s q" using same [of q] image_eqI [of q fst, OF _ that] by simp
    ultimately show ?thesis using ok chunk_ok_cong by blast
  qed
  then have all': "list_all (chunk_ok s') ?cs" by (auto simp: list_all_iff)
  have "chunk_chain s' st2 rest" using chain same chunk_chain_cong [of rest s' s st2] by auto
  moreover have "chunks_disjoint s'" using dis s' by (auto simp: chunks_disjoint_def)
  moreover have "dom (log_chunks s') = set (map fst ((st2, as) # rest))" using s' dm dist by auto
  moreover have ck2': "chunk_ok s' (st2, a # as)" using all' by simp
  moreover have "chunk_ok s' (st2, as)" using ck2' by (auto simp: chunk_ok_def)
  moreover have "as \<noteq> [] \<longrightarrow> hd as \<noteq> st2 + 8" using sorted_ends_hd [OF ck2'] by blast
  ultimately have "mem_layout s' ((st2, as) # rest)"
    using dist all' unfolding mem_layout_def by auto
  moreover have "log_rest s' = log_rest s \<and> log_cache s' = log_cache s"
    using k c by (auto simp: kfree_chunk_def log_rest_def)
  then have "del_frame s s' ((st, []) # ?cs) ((st2, as) # rest)"
    using keep same by (auto simp: del_frame_def)
  ultimately show ?thesis using f by blast
qed

lemma free_log_entry_layout:
  assumes "mem_layout s cs" and "concat (map snd cs) = a # es"
  shows "\<exists>s' cs'. free_log_entry s a = (OK, s') \<and> mem_layout s' cs' \<and>
           concat (map snd cs') = es \<and> del_frame s s' cs cs'"
proof -
  obtain st as rest where cs: "cs = (st, as) # rest" using assms(2) by (cases cs) auto
  show ?thesis
  proof (cases as)
    case (Cons b bs)
    then show ?thesis using free_oldest_in_first_chunk [of s st b bs rest] assms cs by fastforce
  next
    case Nil
    then obtain st2 as2 rest2 where r: "rest = (st2, as2) # rest2"
      using assms(2) cs by (cases rest) auto
    moreover have "as2 \<noteq> []" using assms(1) cs r by (simp add: mem_layout_def)
    ultimately obtain bs where "as2 = a # bs" using assms(2) cs Nil by (cases as2) auto
    then show ?thesis
      using free_first_of_next_chunk [of s st st2 a bs rest2] assms cs Nil r by fastforce
  qed
qed

lemma del_frame_entry:
  "del_frame s s' cs cs' \<Longrightarrow> p \<in> fst ` set cs' \<Longrightarrow> entry_ok s p a \<Longrightarrow>
   entry_ok s' p a \<and> log_mem s' a = log_mem s a"
  by (auto simp: del_frame_def entry_ok_def)

lemma del_frame_trans:
  assumes "del_frame s s1 cs cs1" and "del_frame s1 s2 cs1 cs2"
  shows "del_frame s s2 cs cs2"
proof -
  have sub: "fst ` set cs2 \<subseteq> fst ` set cs1" using assms(2) by (simp add: del_frame_def)
  have "log_chunks s2 p = log_chunks s p \<and> (\<forall>a. entry_ok s p a \<longrightarrow> log_mem s2 a = log_mem s a)"
    if "p \<in> fst ` set cs2" for p
  proof -
    have p1: "p \<in> fst ` set cs1" using sub that by blast
    have "log_chunks s2 p = log_chunks s1 p" and "log_chunks s1 p = log_chunks s p"
      using assms that p1 unfolding del_frame_def by auto
    then show ?thesis
      using del_frame_entry [OF assms(1) p1] del_frame_entry [OF assms(2) that] by metis
  qed
  moreover have "log_rest s2 = log_rest s \<and> log_cache s2 = log_cache s"
    using assms by (simp add: del_frame_def)
  moreover have "fst ` set cs2 \<subseteq> fst ` set cs" using assms sub unfolding del_frame_def by blast
  moreover have "cs \<noteq> [] \<longrightarrow> cs2 \<noteq> [] \<and> fst (last cs2) = fst (last cs) \<and>
      set (snd (last cs2)) \<subseteq> set (snd (last cs))"
    using assms unfolding del_frame_def by auto
  ultimately show ?thesis unfolding del_frame_def by blast
qed

lemma delete_scan_layout:
  assumes "mem_layout s cs" and "concat (map snd cs) = map snd slots" and "length ind < DELETE_BATCH"
  shows "\<exists>k s' cs'. delete_scan stop slots ind s = (OK, ind @ map fst (take k slots), s') \<and>
           (\<forall>i \<in> fst ` set (take k slots). i < stop) \<and>
           (take k slots = [] \<longrightarrow> slots = [] \<or> stop \<le> fst (hd slots)) \<and>
           mem_layout s' cs' \<and> concat (map snd cs') = map snd (drop k slots) \<and> del_frame s s' cs cs'"
  using assms
proof (induction slots arbitrary: ind s cs)
  case Nil
  then show ?case using del_frame_refl by auto
next
  case (Cons p slots)
  obtain i a where p: "p = (i, a)" by fastforce
  show ?case
  proof (cases "stop \<le> i")
    case True
    then show ?thesis using Cons.prems del_frame_refl
      by (intro exI [of _ 0] exI [of _ s] exI [of _ cs]) (simp add: p)
  next
    case False
    obtain s1 cs1 where f: "free_log_entry s a = (OK, s1)" "mem_layout s1 cs1"
        "concat (map snd cs1) = map snd slots" "del_frame s s1 cs cs1"
      using free_log_entry_layout [OF Cons.prems(1)] Cons.prems(2) p by fastforce
    show ?thesis
    proof (cases "Suc (length ind) = DELETE_BATCH")
      case True
      then show ?thesis using f False
        by (intro exI [of _ 1] exI [of _ s1] exI [of _ cs1]) (auto simp: p)
    next
      case notfull: False
      with Cons.prems(3) have "length (ind @ [i]) < DELETE_BATCH" by simp
      from Cons.IH [OF f(2,3) this] obtain k s2 cs2 where k:
        "delete_scan stop slots (ind @ [i]) s1 = (OK, (ind @ [i]) @ map fst (take k slots), s2)"
        "\<forall>j \<in> fst ` set (take k slots). j < stop"
        "mem_layout s2 cs2" "concat (map snd cs2) = map snd (drop k slots)" "del_frame s1 s2 cs1 cs2"
        by blast
      have fr: "del_frame s s2 cs cs2" using del_frame_trans [OF f(4) k(5)] .
      show ?thesis using k(1-4) fr f(1) False notfull
        by (intro exI [of _ "Suc k"] exI [of _ s2] exI [of _ cs2]) (auto simp: p)
    qed
  qed
qed

lemma entry_ok_cong:
  "log_mem s' = log_mem s \<Longrightarrow> log_chunks s' = log_chunks s \<Longrightarrow> entry_ok s' = entry_ok s"
  by (simp add: entry_ok_def fun_eq_iff)

lemma mem_layout_cong:
  assumes "log_mem s' = log_mem s" and "log_chunks s' = log_chunks s"
  shows "mem_layout s' cs = mem_layout s cs"
proof -
  have c: "chunk_ok s' = chunk_ok s"
    using assms by (simp add: chunk_ok_def entry_ok_cong [OF assms] fun_eq_iff)
  have ch: "chunk_chain s' q cs = chunk_chain s q cs" for q cs
    using assms(2) by (intro chunk_chain_cong) simp
  show ?thesis unfolding mem_layout_def c ch chunks_disjoint_def assms(2) ..
qed

lemma cur_ok_state:
  assumes "log_mem s' = log_mem s" and "log_chunks s' = log_chunks s" and "master_log s' = master_log s"
  shows "cur_ok s' x = cur_ok s x"
  unfolding cur_ok_def entry_ok_cong [OF assms(1,2)] assms ..

lemma log_inv_cong:
  assumes "log_mem s' = log_mem s" and "log_chunks s' = log_chunks s" and "master_log s' = master_log s"
    and "log_cache s' = log_cache s"
  shows "log_inv s' = log_inv s"
  unfolding log_inv_def mem_layout_cong [OF assms(1,2)] cur_ok_state [OF assms(1-3)] assms ..

lemma rt_inv_drop: "rt_inv t \<Longrightarrow> rt_inv (drop k t)"
  by (simp add: rt_inv_def drop_map [symmetric] sorted_wrt_drop)

lemma delete_prefix_of_tree:
  assumes "rt_inv t"
  shows "fold (\<lambda>i t. radix_tree_delete t i) (map fst (take k t)) t = drop k t"
proof -
  have "\<forall>x \<in> set (take k t). \<forall>y \<in> set (drop k t). fst x < fst y"
    using assms sorted_wrt_append [of "(<)" "map fst (take k t)" "map fst (drop k t)"]
    by (simp add: rt_inv_def flip: map_append)
  then have "filter (\<lambda>(j, _). j \<notin> fst ` set (take k t)) (drop k t) = drop k t"
    unfolding filter_id_conv by fastforce
  moreover have "filter (\<lambda>(j, _). j \<notin> fst ` set (take k t)) (take k t) = []"
    by (auto simp: filter_empty_conv image_iff intro: bexI [rotated])
  ultimately have "filter (\<lambda>(j, _). j \<notin> fst ` set (take k t)) (take k t @ drop k t) = drop k t"
    by (simp only: filter_append append_Nil)
  then show ?thesis by (simp add: fold_delete_eq)
qed

lemma cur_ok_del_frame:
  assumes "del_frame s s' cs cs'" and "cs \<noteq> []" and "mem_layout s cs" and "cur_ok s (last cs)"
  shows "cur_ok s' (last cs')"
proof -
  obtain st as where l: "last cs = (st, as)" by fastforce
  obtain bs where l': "cs' \<noteq> []" "last cs' = (st, bs)" "set bs \<subseteq> set as"
    using assms(1,2) l unfolding del_frame_def by (cases "last cs'") auto
  have st: "st \<in> fst ` set cs'" using l'(1,2) last_in_set by (metis fst_conv image_eqI)
  have "(st, as) \<in> set cs" using last_in_set [OF assms(2)] l by simp
  then have "\<forall>a \<in> set as. entry_ok s st a"
    using mem_layout_chunk [OF assms(3)] by (auto simp: chunk_ok_def)
  moreover have "master_log s' = master_log s"
    using assms(1) by (simp add: del_frame_def log_rest_def)
  moreover have "log_chunks s' st = log_chunks s st" using assms(1) st unfolding del_frame_def by blast
  ultimately have "cur_ok s' (st, as)"
    using cur_ok_cong [of s' s st as] del_frame_entry [OF assms(1) st] assms(4) l by simp
  then show ?thesis using cur_ok_subset l' by simp
qed

lemma entry_ok_bounds:
  "entry_ok s p a \<Longrightarrow> \<exists>c. log_chunks s p = Some c \<and> unat p + 8 \<le> unat a \<and>
     unat a + 56 \<le> unat p + unat (ck_size c)"
  by (auto simp: entry_ok_def le_end_def)

lemma chunk_of_address:
  assumes "chunks_disjoint s" and "entry_ok s1 p a" and "log_chunks s1 p = log_chunks s p"
    and "entry_ok s q a"
  shows "p = q"
proof (rule ccontr)
  assume "p \<noteq> q"
  obtain c where c: "log_chunks s p = Some c" "unat p + 8 \<le> unat a"
      "unat a + 56 \<le> unat p + unat (ck_size c)"
    using entry_ok_bounds [OF assms(2)] assms(3) by auto
  obtain d where d: "log_chunks s q = Some d" "unat q + 8 \<le> unat a"
      "unat a + 56 \<le> unat q + unat (ck_size d)"
    using entry_ok_bounds [OF assms(4)] by auto
  have "unat p + unat (ck_size c) \<le> unat q \<or> unat q + unat (ck_size d) \<le> unat p"
    using assms(1) c(1) d(1) \<open>p \<noteq> q\<close> unfolding chunks_disjoint_def by blast
  then show False using c d by linarith
qed

lemma delete_batch:
  assumes "log_inv s"
  shows "\<exists>k s1. delete_scan stop (log_cache s) [] s = (OK, map fst (take k (log_cache s)), s1) \<and>
     (\<forall>i \<in> fst ` set (take k (log_cache s)). i < stop) \<and>
     (take k (log_cache s) = [] \<longrightarrow> log_cache s = [] \<or> stop \<le> fst (hd (log_cache s))) \<and>
     log_inv (s1\<lparr>log_cache := drop k (log_cache s)\<rparr>) \<and>
     log_rest s1 = log_rest s \<and> log_cache s1 = log_cache s \<and>
     (\<forall>a \<in> set (map snd (drop k (log_cache s))). log_mem s1 a = log_mem s a)"
proof -
  obtain cs where inv: "rt_inv (log_cache s)" "linked (log_mem s) (map snd (log_cache s))"
      "log_cache s \<noteq> [] \<longrightarrow> snd (last (log_cache s)) = latest (master_log s)"
      "map snd (log_cache s) = concat (map snd cs)" "mem_layout s cs"
      "if cs = [] then master_log s = sivfs_init_log else cur_ok s (last cs)"
    using assms unfolding log_inv_def by blast
  obtain k s1 cs1 where k: "delete_scan stop (log_cache s) [] s = (OK, map fst (take k (log_cache s)), s1)"
      "\<forall>i \<in> fst ` set (take k (log_cache s)). i < stop"
      "take k (log_cache s) = [] \<longrightarrow> log_cache s = [] \<or> stop \<le> fst (hd (log_cache s))"
      "mem_layout s1 cs1" "concat (map snd cs1) = map snd (drop k (log_cache s))" "del_frame s s1 cs cs1"
    using delete_scan_layout [OF inv(5) inv(4) [symmetric], of "[]" stop]
    by (auto simp: DELETE_BATCH_def)
  have s1: "log_rest s1 = log_rest s" "log_cache s1 = log_cache s"
    using k(6) by (simp_all add: del_frame_def)
  then have ml: "master_log s1 = master_log s" by (simp add: log_rest_def)
  let ?s = "s1\<lparr>log_cache := drop k (log_cache s)\<rparr>"
  have keep: "log_mem s1 a = log_mem s a" if a: "a \<in> set (map snd (drop k (log_cache s)))" for a
  proof -
    obtain st as where e: "(st, as) \<in> set cs1" "entry_ok s1 st a" "a \<in> set as"
      using mem_layout_entry [OF k(4), unfolded k(5), OF a] by blast
    have "a \<in> set (concat (map snd cs))"
      using a inv(4) by (metis drop_map in_set_dropD)
    then obtain st' as' where e': "(st', as') \<in> set cs" "entry_ok s st' a"
      using mem_layout_entry [OF inv(5)] by metis
    have st: "st \<in> fst ` set cs1" using e(1) by force
    have c: "log_chunks s1 st = log_chunks s st" using k(6) st unfolding del_frame_def by blast
    have "chunks_disjoint s" using inv(5) by (simp add: mem_layout_def)
    then have "st = st'" using chunk_of_address [OF _ e(2) c e'(2)] by blast
    then show ?thesis using e'(2) del_frame_entry [OF k(6) st] by blast
  qed
  have "linked (log_mem ?s) (map snd (log_cache ?s))"
    using linked_drop [OF inv(2), of k] linked_cong [of "map snd (drop k (log_cache s))" "log_mem s1" "log_mem s"] keep
    by (simp add: drop_map)
  moreover have "log_cache ?s \<noteq> [] \<longrightarrow> snd (last (log_cache ?s)) = latest (master_log ?s)"
    using inv(3) ml by auto
  moreover have "if cs1 = [] then master_log ?s = sivfs_init_log else cur_ok ?s (last cs1)"
  proof (cases "cs = []")
    case True
    then have "cs1 = []" using k(6) by (simp add: del_frame_def)
    then show ?thesis using True inv(6) ml by simp
  next
    case False
    then have "cs1 \<noteq> []" "cur_ok s1 (last cs1)"
      using k(6) cur_ok_del_frame [OF k(6) False inv(5)] inv(6) by (auto simp: del_frame_def)
    then show ?thesis using cur_ok_state [of ?s s1] by simp
  qed
  moreover have "mem_layout ?s cs1" using k(4) mem_layout_cong [of ?s s1] by simp
  moreover have "rt_inv (log_cache ?s)" "map snd (log_cache ?s) = concat (map snd cs1)"
    using rt_inv_drop [OF inv(1)] k(5) by simp_all
  moreover have "distinct (map snd (log_cache ?s))"
    using assms by (simp add: log_inv_def drop_map [symmetric])
  ultimately have "log_inv ?s" unfolding log_inv_def by blast
  then show ?thesis using k(1-3) s1 keep by blast
qed

lemma delete_log_loop_ok:
  assumes "log_inv s"
  shows "\<exists>s'. delete_log_loop stop did s = (OK, did \<or> log_cache s' \<noteq> log_cache s, s') \<and> log_inv s' \<and>
     log_cache s' = filter (\<lambda>(i, _). stop \<le> i) (log_cache s) \<and>
     log_rest s' = log_rest s \<and>
     (\<forall>a \<in> snd ` set (log_cache s'). log_mem s' a = log_mem s a)"
  using assms
proof (induction stop did s rule: delete_log_loop.induct)
  case (1 stop did s)
  let ?t = "log_cache s"
  obtain k s1 where k: "delete_scan stop ?t [] s = (OK, map fst (take k ?t), s1)"
      "\<forall>i \<in> fst ` set (take k ?t). i < stop" "take k ?t = [] \<longrightarrow> ?t = [] \<or> stop \<le> fst (hd ?t)"
      "log_inv (s1\<lparr>log_cache := drop k ?t\<rparr>)"
      "log_rest s1 = log_rest s" and c1: "log_cache s1 = ?t" and k6:
      "\<forall>a \<in> set (map snd (drop k ?t)). log_mem s1 a = log_mem s a"
    using delete_batch [OF "1.prems"] by blast
  have rt: "rt_inv ?t" using "1.prems" by (simp add: log_inv_def)
  have scan: "delete_scan stop (rt_from ?t 0) [] s = (OK, map fst (take k ?t), s1)" using k(1) by simp
  show ?case
  proof (cases "take k ?t = []")
    case True
    have "filter (\<lambda>(i, _). stop \<le> i) ?t = ?t"
    proof (cases ?t)
      case (Cons p u)
      then have "stop \<le> fst p" "\<forall>q \<in> set u. fst p < fst q"
        using k(3) True rt by (auto simp: rt_inv_def)
      then show ?thesis using Cons by (force simp: filter_id_conv)
    qed simp
    moreover have "drop k ?t = ?t" by (metis True append_Nil append_take_drop_id)
    then have "log_inv (s1\<lparr>log_cache := log_cache s1\<rparr>)" using k(4) c1 by simp
    then have "log_inv s1" by simp
    moreover have "delete_log_loop stop did s = (OK, did, s1)"
      by (subst delete_log_loop.simps) (simp add: scan True del: rt_from_0)
    ultimately show ?thesis using c1 k(5) k6 \<open>drop k ?t = ?t\<close> by auto
  next
    case False
    let ?s = "s1\<lparr>log_cache := drop k ?t\<rparr>"
    have del: "fold (\<lambda>i t. radix_tree_delete t i) (map fst (take k ?t)) (log_cache s1) = drop k ?t"
      using delete_prefix_of_tree [OF rt] c1 by simp
    have step: "delete_log_loop stop did s = delete_log_loop stop True ?s"
      using False del by (subst delete_log_loop.simps) (simp only: scan prod.case rc.case map_is_Nil_conv if_False)
    have "log_inv ?s" using k(4) .
    then obtain s' where s': "delete_log_loop stop True ?s = (OK, True, s')" "log_inv s'"
        "log_cache s' = filter (\<lambda>(i, _). stop \<le> i) (drop k ?t)"
        "log_rest s' = log_rest ?s"
        "\<forall>a \<in> snd ` set (log_cache s'). log_mem s' a = log_mem ?s a"
      using "1.IH" [OF scan [symmetric] refl refl] False del by auto
    have "filter (\<lambda>(i, _). stop \<le> i) (take k ?t) = []"
      using k(2) by (fastforce simp: filter_empty_conv)
    then have f: "filter (\<lambda>(i, _). stop \<le> i) ?t = log_cache s'"
      using s'(3) by (metis append_Nil append_take_drop_id filter_append)
    have "length (log_cache s') < length ?t"
      using s'(3) False by (metis (no_types, lifting) append_take_drop_id length_append length_filter_le
          length_greater_0_conv less_add_same_cancel2 order_le_less_trans)
    then have "log_cache s' \<noteq> ?t" by auto
    moreover have "log_rest s' = log_rest s" using s'(4) k(5) by (simp add: log_rest_def)
    moreover have "\<forall>a \<in> snd ` set (log_cache s'). log_mem s' a = log_mem s a"
      using s'(3,5) k6 by auto
    ultimately show ?thesis using step s'(1,2) f by auto
  qed
qed

section \<open>Adding an entry\<close>

text \<open>What \<^verbatim>\<open>kmalloc\<close> promises about a block it returns.\<close>

definition kmalloc_ok :: "sivfs_shared_state \<Rightarrow> u64 \<Rightarrow> u64 \<Rightarrow> bool" where
  "kmalloc_ok s start n \<longleftrightarrow>
     start \<noteq> 0 \<and> start \<notin> dom (log_chunks s) \<and> unat start + unat n < 2 ^ 64 \<and>
     (\<forall>p c. log_chunks s p = Some c \<longrightarrow>
        unat p + unat (ck_size c) \<le> unat start \<or> unat start + unat n \<le> unat p)"

lemma mem_layout_shape:
  assumes "mem_layout s cs" and "log_chunks s' = log_chunks s"
    and "\<And>a. a \<in> set (concat (map snd cs)) \<Longrightarrow>
          map_option entry_shape (log_mem s' a) = map_option entry_shape (log_mem s a)"
  shows "mem_layout s' cs"
proof -
  have "chunk_ok s' (st, as)" if x: "(st, as) \<in> set cs" for st as
    using chunk_ok_shape [of s' st s as] mem_layout_chunk [OF assms(1) x] assms(2,3) x by fastforce
  then have "list_all (chunk_ok s') cs" by (auto simp: list_all_iff)
  moreover have "chunk_chain s' q r = chunk_chain s q r" for q r
    using assms(2) by (intro chunk_chain_cong) simp
  ultimately show ?thesis
    using assms(1) unfolding mem_layout_def chunks_disjoint_def assms(2) by (cases cs) auto
qed

lemma layout_same_chunk:
  assumes "mem_layout s (cs0 @ [(st, as)])" and "\<forall>b \<in> set as. le_end (the (log_mem s b)) b \<le> unat a"
    and "unat st + 8 < unat a" and "log_chunks s st = Some c" and "\<not> le_first_in_chunk e"
    and "le_end e a \<le> unat st + unat (ck_size c)"
    and mem': "log_mem s' = (log_mem s)(a \<mapsto> e)" and ck': "log_chunks s' = log_chunks s"
  shows "mem_layout s' (cs0 @ [(st, as @ [a])]) \<and>
         (\<forall>b \<in> set (concat (map snd (cs0 @ [(st, as)]))). b \<noteq> a)"
proof -
  have ne: "b \<noteq> a" if "b \<in> set (concat (map snd (cs0 @ [(st, as)])))" for b
  proof
    assume "b = a"
    obtain q bs where q: "(q, bs) \<in> set (cs0 @ [(st, as)])" "b \<in> set bs" "entry_ok s q b"
      using mem_layout_entry [OF assms(1) \<open>b \<in> _\<close>] by blast
    show False
    proof (cases "q = st")
      case True
      then have "bs = as" using q(1) assms(1) by (auto simp: mem_layout_def rev_image_eqI)
      then have "le_end (the (log_mem s b)) b \<le> unat b" using q(2) assms(2) \<open>b = a\<close> by blast
      then show False by (simp add: le_end_def)
    next
      case False
      obtain d where d: "log_chunks s q = Some d" "unat q + 8 \<le> unat b"
          "unat b + 56 \<le> unat q + unat (ck_size d)"
        using entry_ok_bounds [OF q(3)] by blast
      have "unat q + unat (ck_size d) \<le> unat st \<or> unat st + unat (ck_size c) \<le> unat q"
        using assms(1,4) d(1) False unfolding mem_layout_def chunks_disjoint_def by blast
      then show False using d assms(3,6) \<open>b = a\<close> by (auto simp: le_end_def)
    qed
  qed
  then have lay: "mem_layout s' (cs0 @ [(st, as)])"
    using mem_layout_shape [OF assms(1) ck'] mem' by auto
  have "a \<noteq> st + 8" using assms(3) u64_add_8 [of st a] by auto
  then have "entry_ok s' st a" using assms(3-6) mem' ck' by (simp add: entry_ok_def)
  moreover have "\<forall>b \<in> set as. le_end (the (log_mem s' b)) b \<le> unat a"
    using assms(2) ne mem' by auto
  moreover have "chunk_ok s' (st, as)" using mem_layout_chunk [OF lay] by simp
  ultimately have "chunk_ok s' (st, as @ [a])" by (auto simp: chunk_ok_def sorted_wrt_append)
  then have "mem_layout s' (cs0 @ [(st, as @ [a])])"
    using lay \<open>a \<noteq> st + 8\<close>
    by (cases cs0; cases as) (auto simp: mem_layout_def chunk_chain_snoc)
  then show ?thesis using ne by blast
qed

lemma layout_new_chunk:
  assumes "mem_layout s cs" and km: "kmalloc_ok s st (ck_size c)"
    and "ck_prev c = (if cs = [] then 0 else fst (last cs))"
    and "le_first_in_chunk e" and "le_end e (st + 8) \<le> unat st + unat (ck_size c)"
    and sz: "8 \<le> unat (ck_size c)"
    and mem': "log_mem s' = (log_mem s)(st + 8 \<mapsto> e)" and ck': "log_chunks s' = (log_chunks s)(st \<mapsto> c)"
  shows "mem_layout s' (cs @ [(st, [st + 8])]) \<and> (\<forall>b \<in> set (concat (map snd cs)). b \<noteq> st + 8)"
proof -
  have st: "st \<notin> fst ` set cs" using assms(1) km by (auto simp: mem_layout_def kmalloc_ok_def)
  have st8: "unat (st + 8) = unat st + 8"
    using km sz unat_add_u64 [of st 8] by (simp add: kmalloc_ok_def)
  have ne: "b \<noteq> st + 8" if b: "b \<in> set (concat (map snd cs))" for b
  proof
    assume "b = st + 8"
    obtain q where "entry_ok s q b" using mem_layout_entry [OF assms(1) b] by blast
    then obtain d where d: "log_chunks s q = Some d" "unat q + 8 \<le> unat b"
        "unat b + 56 \<le> unat q + unat (ck_size d)"
      using entry_ok_bounds by blast
    then have "unat q + unat (ck_size d) \<le> unat st \<or> unat st + unat (ck_size c) \<le> unat q"
      using km unfolding kmalloc_ok_def by blast
    then show False using d sz st8 \<open>b = st + 8\<close> by auto
  qed
  have "chunk_ok s' (q, bs)" if "(q, bs) \<in> set cs" for q bs
  proof -
    have "log_chunks s' q = log_chunks s q" using st ck' that by force
    moreover have "\<forall>b \<in> set bs. log_mem s' b = log_mem s b" using ne mem' that by fastforce
    ultimately show ?thesis using chunk_ok_cong mem_layout_chunk [OF assms(1) that] by blast
  qed
  moreover have "chunk_ok s' (st, [st + 8])"
    using km st8 assms(4,5) mem' ck' by (simp add: chunk_ok_def entry_ok_def kmalloc_ok_def)
  ultimately have all: "list_all (chunk_ok s') (cs @ [(st, [st + 8])])" by (auto simp: list_all_iff)
  have chain: "chunk_chain s' q r = chunk_chain s q r" if "set r \<subseteq> set cs" for q r
    using st ck' that by (intro chunk_chain_cong) auto
  have "chunks_disjoint s'"
    using assms(1) km ck' by (auto simp: chunks_disjoint_def mem_layout_def kmalloc_ok_def)
  moreover have "dom (log_chunks s') = set (map fst (cs @ [(st, [st + 8])]))"
    using assms(1) ck' by (auto simp: mem_layout_def)
  moreover have "distinct (map fst (cs @ [(st, [st + 8])]))"
    using assms(1) st by (auto simp: mem_layout_def)
  moreover have "case cs @ [(st, [st + 8])] of [] \<Rightarrow> True
      | (start, as) # rest \<Rightarrow>
          (as \<noteq> [] \<longrightarrow> hd as = start + 8 \<longrightarrow> map_option ck_prev (log_chunks s' start) = Some 0) \<and>
          chunk_chain s' start rest"
  proof (cases cs)
    case Nil
    then show ?thesis using assms(3) ck' by simp
  next
    case (Cons x r)
    obtain p as where x: "x = (p, as)" by fastforce
    have "p \<noteq> st" using st Cons x by auto
    moreover have "fst (last cs) = last (p # map fst r)" using Cons x by (simp add: last_map)
    ultimately show ?thesis
      using assms(1,3) chain [of r p, OF set_subset_Cons [of r x, folded Cons]] Cons x ck'
      by (simp add: mem_layout_def chunk_chain_snoc)
  qed
  ultimately have "mem_layout s' (cs @ [(st, [st + 8])])"
    using all unfolding mem_layout_def by blast
  then show ?thesis using ne by blast
qed

text \<open>
  The situation after \<^verbatim>\<open>_sivfs_allocate_log_insert_log_cache\<close>: the new entry \<open>a\<close> is the last one of the
  layout and the free part of the current chunk starts behind it.
\<close>

definition log_allocated ::
  "sivfs_shared_state \<Rightarrow> sivfs_shared_state \<Rightarrow> sivfs_ts \<Rightarrow> u64 \<Rightarrow> (u64 \<times> u64 list) list \<Rightarrow> bool" where
  "log_allocated s s1 ts a cs1 \<longleftrightarrow>
     mem_layout s1 cs1 \<and> cs1 \<noteq> [] \<and> concat (map snd cs1) = map snd (log_cache s) @ [a] \<and>
     a \<in> set (snd (last cs1)) \<and> log_cache s1 = log_cache s @ [(ts, a)] \<and>
     a \<notin> set (map snd (log_cache s)) \<and> a \<noteq> latest (master_log s) \<and> a \<noteq> 0 \<and>
     (\<exists>e. log_mem s1 = (log_mem s)(a \<mapsto> e) \<and> le_next e = 0) \<and>
     latest (master_log s1) = latest (master_log s) \<and>
     chunk_start_ptr (master_log s1) = fst (last cs1) \<and>
     (\<exists>c. log_chunks s1 (fst (last cs1)) = Some c \<and>
        unat (fst (last cs1)) + 8 \<le> unat (chunk_ptr (master_log s1)) \<and>
        unat (chunk_ptr (master_log s1)) + unat (bytes_remaining_chunk (master_log s1)) =
          unat (fst (last cs1)) + unat (ck_size c)) \<and>
     (\<forall>b \<in> set (snd (last cs1)).
        le_end (the (log_mem s1 b)) b \<le> unat (chunk_ptr (master_log s1)))"

lemma rt_ins_last:
  assumes "rt_inv t" and "\<forall>i \<in> fst ` set t. i < ts"
  shows "radix_tree_insert True t ts a = (OK, t @ [(ts, a)])"
proof -
  have "rt_ins ts a t = t @ [(ts, a)]" using assms(2) by (induction t) auto
  moreover have "radix_tree_lookup t ts = None"
    using assms(2) by (auto simp: radix_tree_lookup_def map_of_eq_None_iff)
  ultimately show ?thesis by (simp add: radix_tree_insert_def)
qed

lemma unat_diff_u64: "(b::u64) \<le> a \<Longrightarrow> unat (a - b) = unat a - unat b"
  by (simp add: unat_sub_if' word_le_nat_alt)

lemma log_inv_newer:
  "log_inv s \<Longrightarrow> \<exists>cs. map snd (log_cache s) = concat (map snd cs) \<and> mem_layout s cs \<and>
     (if cs = [] then master_log s = sivfs_init_log else cur_ok s (last cs))"
  by (auto simp: log_inv_def)

lemma allocate_same_chunk:
  assumes inv: "rt_inv (log_cache s)" "map snd (log_cache s) = concat (map snd cs)" "mem_layout s cs"
      "cs \<noteq> []" "cur_ok s (last cs)"
    and newest: "\<forall>i \<in> fst ` set (log_cache s). i < ts"
    and small: "unat (size_bytes ws) < 2 ^ 62"
    and fits: "\<not> bytes_remaining_chunk (master_log s) < sizeof_log_entry + size_bytes ws"
  shows "\<exists>a s1 cs1. sivfs_allocate_log_insert_log_cache km True s ts ws = (OK, a, s1) \<and>
           log_allocated s s1 ts a cs1"
proof -
  obtain cs0 st as where cs: "cs = cs0 @ [(st, as)]" using inv(4) by (metis rev_exhaust surj_pair)
  define a where "a = chunk_ptr (master_log s)"
  let ?n = "size_bytes ws"
  have cur: "chunk_start_ptr (master_log s) = st" "entry_ok s st (latest (master_log s))"
      "\<forall>b \<in> insert (latest (master_log s)) (set as). le_end (the (log_mem s b)) b \<le> unat a"
    using inv(5) cs by (auto simp: cur_ok_def a_def)
  obtain c where c: "log_chunks s st = Some c" "unat st + 8 \<le> unat a"
      "unat a + unat (bytes_remaining_chunk (master_log s)) = unat st + unat (ck_size c)"
    using inv(5) cs by (auto simp: cur_ok_def a_def)
  have n: "unat (sizeof_log_entry + ?n) = 56 + unat ?n"
    using unat_add_u64 [of sizeof_log_entry ?n] small by (simp add: sizeof_log_entry_def)
  have room: "56 + unat ?n \<le> unat (bytes_remaining_chunk (master_log s))"
    using fits n by (simp add: word_less_nat_alt)
  have lat: "unat st + 8 \<le> unat (latest (master_log s))" "unat (latest (master_log s)) + 56 \<le> unat a"
    using entry_ok_bounds [OF cur(2)] cur(3) by (auto simp: le_end_def)
  have "unat st + unat (ck_size c) < 2 ^ 64"
    using mem_layout_chunk [OF inv(3), of st as] cs c(1) by (auto simp: chunk_ok_def)
  then have a': "unat (a + sizeof_log_entry + ?n) = unat a + 56 + unat ?n"
    using unat_add_u64 [of a "sizeof_log_entry + ?n"] n c(3) room by (simp add: add.assoc)
  define e where "e = sivfs_init_log_entry
      \<lparr>le_ws := \<lparr>capacity_bytes = ?n, size_bytes = 0, entries = replicate (words_of_bytes ?n) 0\<rparr>,
       le_first_in_chunk := (a = st + 8)\<rparr>"
  have e: "\<not> le_first_in_chunk e" "le_end e a = unat a + 56 + unat ?n" "le_next e = 0"
    using lat u64_add_8 [of st a] c(2) by (auto simp: e_def sivfs_init_log_entry_def le_end_def)
  define s1 where "s1 = s\<lparr>log_mem := (log_mem s)(a \<mapsto> e), log_cache := log_cache s @ [(ts, a)],
     master_log := (master_log s)\<lparr>chunk_start_ptr := st, chunk_ptr := a + sizeof_log_entry + ?n,
       bytes_remaining_chunk := bytes_remaining_chunk (master_log s) - (sizeof_log_entry + ?n)\<rparr>\<rparr>"
  have "chunk_covers s st a (unat sizeof_log_entry + unat ?n)"
    using c room by (simp add: chunk_covers_def sizeof_log_entry_def)
  then have run: "sivfs_allocate_log_insert_log_cache km True s ts ws = (OK, a, s1)"
    using fits rt_ins_last [OF inv(1) newest, of a] cur(1)
    by (simp add: sivfs_allocate_log_insert_log_cache_def insert_log_entry_at_def s1_def e_def a_def Let_def)
  have lay: "mem_layout s1 (cs0 @ [(st, as @ [a])]) \<and> (\<forall>b \<in> set (concat (map snd cs)). b \<noteq> a)"
    using layout_same_chunk [of s cs0 st as a c e s1] inv(3) cs cur(3) lat c e room
    by (simp add: s1_def)
  have rem: "unat (bytes_remaining_chunk (master_log s1)) =
      unat (bytes_remaining_chunk (master_log s)) - (56 + unat ?n)"
    using fits unat_diff_u64 [of "sizeof_log_entry + ?n" "bytes_remaining_chunk (master_log s)"] n
    by (simp add: s1_def)
  have "log_allocated s s1 ts a (cs0 @ [(st, as @ [a])])"
    unfolding log_allocated_def
  proof (intro conjI)
    show "\<exists>c. log_chunks s1 (fst (last (cs0 @ [(st, as @ [a])]))) = Some c \<and>
        unat (fst (last (cs0 @ [(st, as @ [a])]))) + 8 \<le> unat (chunk_ptr (master_log s1)) \<and>
        unat (chunk_ptr (master_log s1)) + unat (bytes_remaining_chunk (master_log s1)) =
          unat (fst (last (cs0 @ [(st, as @ [a])]))) + unat (ck_size c)"
      using c rem room a' by (simp add: s1_def)
    show "\<forall>b \<in> set (snd (last (cs0 @ [(st, as @ [a])]))).
        le_end (the (log_mem s1 b)) b \<le> unat (chunk_ptr (master_log s1))"
      using cur(3) e(2) a' by (auto simp: s1_def)
    show "a \<noteq> latest (master_log s)" using lat by auto
    show "a \<noteq> 0" using c(2) by auto
    show "a \<notin> set (map snd (log_cache s))" using lay inv(2) by auto
    show "concat (map snd (cs0 @ [(st, as @ [a])])) = map snd (log_cache s) @ [a]"
      using inv(2) cs by simp
    show "\<exists>e. log_mem s1 = (log_mem s)(a \<mapsto> e) \<and> le_next e = 0" using e(3) by (auto simp: s1_def)
  qed (use lay in \<open>simp_all add: s1_def\<close>)
  then show ?thesis using run by blast
qed

definition log_chunk_real :: "u64 \<Rightarrow> u64" where
  "log_chunk_real n = max SIVFS_LOG_CHUNK_SIZE (sizeof_log_entry + n + 8)"

lemma log_chunk_real_bound:
  assumes "unat n < 2 ^ 62"
  shows "56 + unat n + 8 \<le> unat (log_chunk_real n)"
proof -
  have "unat (sizeof_log_entry + n + 8) = 56 + unat n + 8"
    using unat_add_u64 [of sizeof_log_entry n] unat_add_u64 [of "sizeof_log_entry + n" 8] assms
    by (simp add: sizeof_log_entry_def)
  then show ?thesis by (metis log_chunk_real_def max.cobounded2 word_le_nat_alt)
qed

lemma allocate_new_chunk:
  assumes inv: "rt_inv (log_cache s)" "map snd (log_cache s) = concat (map snd cs)" "mem_layout s cs"
      "if cs = [] then master_log s = sivfs_init_log else cur_ok s (last cs)"
    and newest: "\<forall>i \<in> fst ` set (log_cache s). i < ts"
    and small: "unat (size_bytes ws) < 2 ^ 62"
    and full: "bytes_remaining_chunk (master_log s) < sizeof_log_entry + size_bytes ws"
    and km: "kmalloc_ok s st (log_chunk_real (size_bytes ws))"
  shows "\<exists>a s1 cs1. sivfs_allocate_log_insert_log_cache (Some st) True s ts ws = (OK, a, s1) \<and>
           log_allocated s s1 ts a cs1"
proof -
  let ?n = "size_bytes ws"
  let ?a = "st + 8"
  define c where "c = \<lparr>ck_size = log_chunk_real ?n, ck_prev = chunk_start_ptr (master_log s)\<rparr>"
  define e where "e = sivfs_init_log_entry
      \<lparr>le_ws := \<lparr>capacity_bytes = ?n, size_bytes = 0, entries = replicate (words_of_bytes ?n) 0\<rparr>,
       le_first_in_chunk := True\<rparr>"
  have sz: "56 + unat ?n + 8 \<le> unat (ck_size c)" using log_chunk_real_bound [OF small] by (simp add: c_def)
  have km': "st \<noteq> 0" "unat st + unat (ck_size c) < 2 ^ 64" using km by (auto simp: kmalloc_ok_def c_def)
  have a: "unat ?a = unat st + 8" using unat_add_u64 [of st 8] km' sz by simp
  have n: "unat (sizeof_log_entry + ?n) = 56 + unat ?n"
    using unat_add_u64 [of sizeof_log_entry ?n] small by (simp add: sizeof_log_entry_def)
  have a': "unat (?a + sizeof_log_entry + ?n) = unat st + 64 + unat ?n"
    using unat_add_u64 [of ?a "sizeof_log_entry + ?n"] n a sz km'(2) by (simp add: add.assoc)
  have e: "le_first_in_chunk e" "le_end e ?a = unat st + 64 + unat ?n" "le_next e = 0"
    using a by (auto simp: e_def sivfs_init_log_entry_def le_end_def)
  define s1 where "s1 = s\<lparr>log_mem := (log_mem s)(?a \<mapsto> e), log_chunks := (log_chunks s)(st \<mapsto> c),
     log_cache := log_cache s @ [(ts, ?a)],
     master_log := (master_log s)\<lparr>chunk_start_ptr := st, chunk_ptr := ?a + sizeof_log_entry + ?n,
       bytes_remaining_chunk := ck_size c - 8 - (sizeof_log_entry + ?n)\<rparr>\<rparr>"
  have "chunk_covers (s\<lparr>log_chunks := (log_chunks s)(st \<mapsto> c)\<rparr>) st ?a (unat sizeof_log_entry + unat ?n)"
    using a sz by (simp add: chunk_covers_def sizeof_log_entry_def)
  then have run: "sivfs_allocate_log_insert_log_cache (Some st) True s ts ws = (OK, ?a, s1)"
    using full rt_ins_last [OF inv(1) newest, of ?a]
    by (simp add: sivfs_allocate_log_insert_log_cache_def insert_log_entry_at_def s1_def e_def c_def
        log_chunk_real_def Let_def)
  have "ck_prev c = (if cs = [] then 0 else fst (last cs))"
    using inv(4) by (auto simp: c_def sivfs_init_log_def cur_ok_def split: if_splits)
  then have lay: "mem_layout s1 (cs @ [(st, [?a])]) \<and> (\<forall>b \<in> set (concat (map snd cs)). b \<noteq> ?a)"
    using layout_new_chunk [of s cs st c e s1] inv(3) km e sz by (simp add: s1_def c_def)
  have rem: "unat (bytes_remaining_chunk (master_log s1)) = unat (ck_size c) - 8 - (56 + unat ?n)"
    using unat_diff_u64 [of 8 "ck_size c"] unat_diff_u64 [of "sizeof_log_entry + ?n" "ck_size c - 8"] n sz
    by (simp add: s1_def word_le_nat_alt)
  have lat: "?a \<noteq> latest (master_log s)"
  proof (cases "cs = []")
    case True
    then show ?thesis using inv(4) a by (auto simp: sivfs_init_log_def)
  next
    case False
    then obtain q where "entry_ok s q (latest (master_log s))"
      using inv(4) by (cases "last cs") (auto simp: cur_ok_def)
    then obtain d where "log_chunks s q = Some d" "unat q + 8 \<le> unat (latest (master_log s))"
        "unat (latest (master_log s)) + 56 \<le> unat q + unat (ck_size d)"
      using entry_ok_bounds by blast
    moreover from this have "unat q + unat (ck_size d) \<le> unat st \<or> unat st + unat (ck_size c) \<le> unat q"
      using km by (auto simp: kmalloc_ok_def c_def)
    ultimately show ?thesis using a sz by auto
  qed
  have "log_allocated s s1 ts ?a (cs @ [(st, [?a])])"
    unfolding log_allocated_def
  proof (intro conjI)
    show "\<exists>c. log_chunks s1 (fst (last (cs @ [(st, [?a])]))) = Some c \<and>
        unat (fst (last (cs @ [(st, [?a])]))) + 8 \<le> unat (chunk_ptr (master_log s1)) \<and>
        unat (chunk_ptr (master_log s1)) + unat (bytes_remaining_chunk (master_log s1)) =
          unat (fst (last (cs @ [(st, [?a])]))) + unat (ck_size c)"
      using sz rem a' by (simp add: s1_def)
    show "\<forall>b \<in> set (snd (last (cs @ [(st, [?a])]))).
        le_end (the (log_mem s1 b)) b \<le> unat (chunk_ptr (master_log s1))"
      using e(2) a' by (simp add: s1_def)
    show "?a \<noteq> latest (master_log s)" by (rule lat)
    show "?a \<noteq> 0" using a by auto
    show "?a \<notin> set (map snd (log_cache s))" using lay inv(2) by auto
    show "concat (map snd (cs @ [(st, [?a])])) = map snd (log_cache s) @ [?a]"
      using inv(2) by simp
    show "\<exists>e. log_mem s1 = (log_mem s)(?a \<mapsto> e) \<and> le_next e = 0" using e(3) by (auto simp: s1_def)
  qed (use lay in \<open>simp_all add: s1_def\<close>)
  then show ?thesis using run by blast
qed

lemma linked_relink:
  assumes "\<forall>b \<in> set as. le_prev (the (mem' b)) = le_prev (the (mem b))"
    and "\<forall>b \<in> set (butlast as). le_next (the (mem' b)) = le_next (the (mem b))"
    and "linked mem as"
  shows "linked mem' as"
  using assms by (induction mem as rule: linked.induct) auto

lemma linked_snoc:
  assumes "linked mem as" and "as \<noteq> [] \<Longrightarrow> le_next (the (mem (last as))) = a \<and> le_prev (the (mem a)) = last as"
  shows "linked mem (as @ [a])"
  using assms by (induction mem as rule: linked.induct) auto

lemma create_after_allocate:
  assumes inv: "log_inv s" and al: "log_allocated s s1 ts a cs1"
    and run: "sivfs_allocate_log_insert_log_cache km ok s ts ws = (OK, a, s1)"
    and newest: "\<forall>i \<in> fst ` set (log_cache s). i < ts"
  shows "\<exists>s'. sivfs_create_log_entry km ok s ts ws = (OK, a, s') \<and> log_inv s' \<and>
     log_cache s' = log_cache s @ [(ts, a)] \<and> latest (master_log s') = a \<and>
     (\<forall>b. b \<noteq> a \<longrightarrow> b \<noteq> latest (master_log s) \<longrightarrow> log_mem s' b = log_mem s b) \<and>
     (latest (master_log s) \<noteq> 0 \<longrightarrow> log_mem s' (latest (master_log s)) =
        map_option (\<lambda>e. e\<lparr>le_next := a\<rparr>) (log_mem s (latest (master_log s))))"
proof -
  let ?l = "latest (master_log s)"
  obtain cs where cs: "map snd (log_cache s) = concat (map snd cs)"
      "if cs = [] then master_log s = sivfs_init_log else cur_ok s (last cs)"
    using log_inv_newer [OF inv] by blast
  obtain e where e: "log_mem s1 = (log_mem s)(a \<mapsto> e)" "le_next e = 0"
    using al by (auto simp: log_allocated_def)
  have al': "mem_layout s1 cs1" "cs1 \<noteq> []" "concat (map snd cs1) = map snd (log_cache s) @ [a]"
      "log_cache s1 = log_cache s @ [(ts, a)]" "a \<notin> set (map snd (log_cache s))" "a \<noteq> ?l" "a \<noteq> 0"
      "latest (master_log s1) = ?l" "a \<in> set (snd (last cs1))"
    using al by (simp_all add: log_allocated_def)
  have l: "?l \<noteq> 0 \<longrightarrow> log_mem s ?l \<noteq> None" and l0: "?l = 0 \<Longrightarrow> log_cache s = []"
  proof -
    have "entry_ok s (fst (last cs)) ?l" if "cs \<noteq> []"
      using cs(2) that by (cases "last cs") (auto simp: cur_ok_def)
    then have *: "log_mem s ?l \<noteq> None \<and> ?l \<noteq> 0" if "cs \<noteq> []"
      using that by (auto simp: entry_ok_def)
    have n: "?l = 0 \<and> log_cache s = []" if "cs = []" using cs that by (simp add: sivfs_init_log_def)
    show "?l \<noteq> 0 \<longrightarrow> log_mem s ?l \<noteq> None" using * n by blast
    show "?l = 0 \<Longrightarrow> log_cache s = []" using * n by blast
  qed
  define mem where "mem = (\<lambda>b. if b = a then Some (e\<lparr>le_prev := ?l\<rparr>)
      else if b = ?l \<and> ?l \<noteq> 0 then map_option (\<lambda>e. e\<lparr>le_next := a\<rparr>) (log_mem s ?l) else log_mem s b)"
  define s' where "s' = s1\<lparr>log_mem := mem, master_log := (master_log s1)\<lparr>latest := a\<rparr>\<rparr>"
  have create: "sivfs_create_log_entry km ok s ts ws = (OK, a, s')"
    using run l al'(6,8) e(1)
    by (auto simp: sivfs_create_log_entry_def log_update_def Let_def s'_def mem_def fun_eq_iff
        split: option.splits)
  have shape: "map_option entry_shape (mem b) = map_option entry_shape (log_mem s1 b)" for b
    using e(1) by (cases "log_mem s b") (auto simp: mem_def entry_shape_def)
  have lay: "mem_layout s' cs1"
    using mem_layout_shape [OF al'(1), of s'] shape by (simp add: s'_def)
  have "\<forall>b \<in> set (map snd (log_cache s)). le_prev (the (mem b)) = le_prev (the (log_mem s b))"
    using al'(5,6) l by (auto simp: mem_def)
  moreover have "\<forall>b \<in> set (butlast (map snd (log_cache s))). le_next (the (mem b)) = le_next (the (log_mem s b))"
  proof
    fix b assume b: "b \<in> set (butlast (map snd (log_cache s)))"
    then have ne: "map snd (log_cache s) \<noteq> []" and mem: "b \<in> set (map snd (log_cache s))"
      by (auto dest: in_set_butlastD)
    have d: "distinct (map snd (log_cache s))" and lst: "last (map snd (log_cache s)) = ?l"
      using inv ne by (auto simp: log_inv_def last_map)
    have "b \<noteq> ?l"
      using b d lst append_butlast_last_id [OF ne] by (metis distinct_butlast not_distinct_conv_prefix)
    then show "le_next (the (mem b)) = le_next (the (log_mem s b))"
      using al'(5) mem by (auto simp: mem_def)
  qed
  moreover have "linked (log_mem s) (map snd (log_cache s))" using inv by (simp add: log_inv_def)
  ultimately have lk: "linked mem (map snd (log_cache s))" by (rule linked_relink)
  have "linked mem (map snd (log_cache s) @ [a])"
  proof (rule linked_snoc [OF lk])
    assume "map snd (log_cache s) \<noteq> []"
    then have "last (map snd (log_cache s)) = ?l" "?l \<noteq> 0"
      using inv l0 by (auto simp: log_inv_def last_map)
    then show "le_next (the (mem (last (map snd (log_cache s))))) = a \<and>
        le_prev (the (mem a)) = last (map snd (log_cache s))"
      using l al'(6) by (auto simp: mem_def)
  qed
  moreover have "cur_ok s' (last cs1)"
  proof -
    obtain st as where la: "last cs1 = (st, as)" by fastforce
    then have in1: "(st, as) \<in> set cs1" using last_in_set [OF al'(2)] by simp
    then have "entry_ok s' st a"
      using mem_layout_chunk [OF lay in1] al'(9) la by (auto simp: chunk_ok_def)
    moreover have "le_end (the (log_mem s' b)) b = le_end (the (log_mem s1 b)) b" if "b \<in> set as" for b
      using entry_shape_end [of s' b s1] shape mem_layout_chunk [OF al'(1) in1] that
      by (auto simp: s'_def chunk_ok_def entry_ok_def)
    then have "\<forall>b \<in> insert (latest (master_log s')) (set as).
        le_end (the (log_mem s' b)) b \<le> unat (chunk_ptr (master_log s'))"
      using al al'(9) la by (auto simp: log_allocated_def s'_def)
    moreover have "le_next (the (log_mem s' (latest (master_log s')))) = 0"
      using e(2) by (simp add: s'_def mem_def)
    moreover have "latest (master_log s') = a" "chunk_start_ptr (master_log s') = st"
      using al la by (simp_all add: log_allocated_def s'_def)
    moreover have "\<exists>c. log_chunks s' st = Some c \<and> unat st + 8 \<le> unat (chunk_ptr (master_log s')) \<and>
        unat (chunk_ptr (master_log s')) + unat (bytes_remaining_chunk (master_log s')) =
          unat st + unat (ck_size c)"
      using al la by (simp add: log_allocated_def s'_def)
    ultimately show ?thesis unfolding cur_ok_def la by simp
  qed
  moreover have "rt_inv (log_cache s')"
    using inv newest al'(4) by (auto simp: s'_def log_inv_def rt_inv_def sorted_wrt_append)
  moreover have "distinct (map snd (log_cache s'))"
    using inv al'(4,5) by (auto simp: s'_def log_inv_def)
  moreover have "map snd (log_cache s') = concat (map snd cs1)" using al'(3,4) by (simp add: s'_def)
  ultimately have "log_inv s'"
    unfolding log_inv_def using lay al'(2,3,4) by (auto simp: s'_def)
  then show ?thesis using create al'(4,6) by (auto simp: s'_def mem_def)
qed

lemma create_log_entry_ok:
  assumes "log_inv s" and "\<forall>i \<in> fst ` set (log_cache s). i < ts"
    and "unat (size_bytes ws) < 2 ^ 62" and "kmalloc_ok s start (log_chunk_real (size_bytes ws))"
  shows "\<exists>a s'. sivfs_create_log_entry (Some start) True s ts ws = (OK, a, s') \<and> log_inv s' \<and>
     log_cache s' = log_cache s @ [(ts, a)] \<and> latest (master_log s') = a \<and>
     radix_tree_lookup (log_cache s') ts = Some a \<and> log_mem s' a \<noteq> None \<and>
     (\<forall>b. b \<noteq> a \<longrightarrow> b \<noteq> latest (master_log s) \<longrightarrow> log_mem s' b = log_mem s b) \<and>
     (latest (master_log s) \<noteq> 0 \<longrightarrow> log_mem s' (latest (master_log s)) =
        map_option (\<lambda>e. e\<lparr>le_next := a\<rparr>) (log_mem s (latest (master_log s))))"
proof -
  obtain cs where cs: "map snd (log_cache s) = concat (map snd cs)" "mem_layout s cs"
      "if cs = [] then master_log s = sivfs_init_log else cur_ok s (last cs)"
    using log_inv_newer [OF assms(1)] by blast
  have rt: "rt_inv (log_cache s)" using assms(1) by (simp add: log_inv_def)
  obtain a s1 cs1 where al: "sivfs_allocate_log_insert_log_cache (Some start) True s ts ws = (OK, a, s1)"
      "log_allocated s s1 ts a cs1"
  proof (cases "bytes_remaining_chunk (master_log s) < sizeof_log_entry + size_bytes ws")
    case True
    then show ?thesis using allocate_new_chunk [OF rt cs assms(2,3) True assms(4)] that by blast
  next
    case False
    have "cs \<noteq> []"
    proof
      assume "cs = []"
      then have "bytes_remaining_chunk (master_log s) = 0" using cs(3) by (simp add: sivfs_init_log_def)
      then have "unat (sizeof_log_entry + size_bytes ws) = 0" using False by (simp add: word_less_nat_alt)
      then show False
        using unat_add_u64 [of sizeof_log_entry "size_bytes ws"] assms(3) by (simp add: sizeof_log_entry_def)
    qed
    then have "cur_ok s (last cs)" using cs(3) by simp
    then show ?thesis
      using allocate_same_chunk [OF rt cs(1,2) \<open>cs \<noteq> []\<close> _ assms(2,3) False] that by blast
  qed
  obtain s' where s': "sivfs_create_log_entry (Some start) True s ts ws = (OK, a, s')" "log_inv s'"
     "log_cache s' = log_cache s @ [(ts, a)]" "latest (master_log s') = a"
     "\<forall>b. b \<noteq> a \<longrightarrow> b \<noteq> latest (master_log s) \<longrightarrow> log_mem s' b = log_mem s b"
     "latest (master_log s) \<noteq> 0 \<longrightarrow> log_mem s' (latest (master_log s)) =
        map_option (\<lambda>e. e\<lparr>le_next := a\<rparr>) (log_mem s (latest (master_log s)))"
    using create_after_allocate [OF assms(1) al(2,1) assms(2)] by blast
  obtain cs' where "a \<in> set (concat (map snd cs'))" "mem_layout s' cs'"
    using log_inv_newer [OF s'(2)] s'(3) by (metis list.set_map map_append snd_conv in_set_conv_decomp list.simps(9))
  then have "log_mem s' a \<noteq> None" using mem_layout_entry by (fastforce simp: entry_ok_def)
  moreover have "radix_tree_lookup (log_cache s') ts = Some a"
  proof -
    have "map_of (log_cache s) ts = None" using assms(2) by (auto simp: map_of_eq_None_iff)
    then show ?thesis using s'(3) by (simp add: radix_tree_lookup_def map_add_def)
  qed
  ultimately show ?thesis using s' by blast
qed

text \<open>What a new entry holds, and what else the operation keeps.\<close>

lemma create_log_entry_fresh:
  assumes "sivfs_create_log_entry km ok s ts ws = (OK, a, s')"
  shows "\<exists>fc prev nxt. log_mem s' a = Some (sivfs_init_log_entry
           \<lparr>le_ws := \<lparr>capacity_bytes = size_bytes ws, size_bytes = 0,
                      entries = replicate (words_of_bytes (size_bytes ws)) 0\<rparr>,
            le_first_in_chunk := fc, le_prev := prev, le_next := nxt\<rparr>)"
    and "master_ts s' = master_ts s" and "commit_started_ts s' = commit_started_ts s"
    and "master_log_deleted_ts s' = master_log_deleted_ts s"
proof -
  obtain s1 where al: "sivfs_allocate_log_insert_log_cache km ok s ts ws = (OK, a, s1)"
    using assms by (auto simp: sivfs_create_log_entry_def Let_def split: prod.splits rc.splits if_splits option.splits)
  let ?e = "\<lambda>fc. sivfs_init_log_entry
      \<lparr>le_ws := \<lparr>capacity_bytes = size_bytes ws, size_bytes = 0,
                 entries = replicate (words_of_bytes (size_bytes ws)) 0\<rparr>, le_first_in_chunk := fc\<rparr>"
  have 1: "\<exists>fc. log_mem s1 a = Some (?e fc)" "master_ts s1 = master_ts s"
      "commit_started_ts s1 = commit_started_ts s" "master_log_deleted_ts s1 = master_log_deleted_ts s"
    using al by (auto simp: sivfs_allocate_log_insert_log_cache_def insert_log_entry_at_def Let_def
        split: if_splits option.splits prod.splits rc.splits)
  then obtain fc where fc: "log_mem s1 a = Some (?e fc)" by blast
  have "log_mem s' a = Some ((?e fc)\<lparr>le_prev := latest (master_log s1), le_next := 0\<rparr>) \<or>
      log_mem s' a = Some ((?e fc)\<lparr>le_prev := latest (master_log s1), le_next := a\<rparr>)"
    using assms al fc
    by (auto simp: sivfs_create_log_entry_def log_update_def Let_def sivfs_init_log_entry_def
        split: if_splits option.splits)
  then show "\<exists>fc prev nxt. log_mem s' a = Some (sivfs_init_log_entry
           \<lparr>le_ws := \<lparr>capacity_bytes = size_bytes ws, size_bytes = 0,
                      entries = replicate (words_of_bytes (size_bytes ws)) 0\<rparr>,
            le_first_in_chunk := fc, le_prev := prev, le_next := nxt\<rparr>)" by blast
  show "master_ts s' = master_ts s" "commit_started_ts s' = commit_started_ts s"
      "master_log_deleted_ts s' = master_log_deleted_ts s"
    using assms al 1(2-4)
    by (auto simp: sivfs_create_log_entry_def log_update_def Let_def split: if_splits option.splits)
qed

section \<open>Properties\<close>

text \<open>
  Appending to the log.  With a newest timestamp, a writeset of less than \<open>2 ^ 62\<close> bytes and successful
  allocations, \<^verbatim>\<open>sivfs_create_log_entry\<close> succeeds, keeps the memory layout and the doubly linked list
  of the log well formed, makes the new entry the latest one, findable under its timestamp, and
  changes no other entry except for the \<^verbatim>\<open>next\<close> pointer of the previously latest one.
\<close>

theorem create_log_entry_appends:
  assumes "log_inv s" and "\<forall>i \<in> fst ` set (log_cache s). i < ts"
    and "unat (size_bytes ws) < 2 ^ 62" and "kmalloc_ok s start (log_chunk_real (size_bytes ws))"
  shows "\<exists>a s'. sivfs_create_log_entry (Some start) True s ts ws = (OK, a, s') \<and> log_inv s' \<and>
     log_cache s' = log_cache s @ [(ts, a)] \<and> latest (master_log s') = a \<and>
     radix_tree_lookup (log_cache s') ts = Some a \<and> log_mem s' a \<noteq> None \<and>
     (\<forall>b. b \<noteq> a \<longrightarrow> b \<noteq> latest (master_log s) \<longrightarrow> log_mem s' b = log_mem s b) \<and>
     (latest (master_log s) \<noteq> 0 \<longrightarrow> log_mem s' (latest (master_log s)) =
        map_option (\<lambda>e. e\<lparr>le_next := a\<rparr>) (log_mem s (latest (master_log s))))"
  by (rule create_log_entry_ok [OF assms])

definition empty_log :: sivfs_shared_state where
  "empty_log = \<lparr>master_log = sivfs_init_log, log_cache = [], master_log_deleted_ts = 0,
     master_ts = 0, commit_started_ts = 0, log_mem = (\<lambda>_. None), log_chunks = (\<lambda>_. None)\<rparr>"

lemma log_inv_empty_log: "log_inv empty_log"
  by (auto simp: log_inv_def empty_log_def mem_layout_def chunks_disjoint_def rt_inv_def intro!: exI [of _ "[]"])

theorem create_log_entry_appends_witness:
  "\<exists>a s'. sivfs_create_log_entry (Some 4096) True empty_log 1 (sivfs_writeset_zero\<lparr>size_bytes := 40\<rparr>) =
     (OK, a, s') \<and> log_inv s' \<and> log_cache s' = [(1, a)]"
proof -
  have "kmalloc_ok empty_log 4096 (log_chunk_real 40)"
    by (simp add: kmalloc_ok_def empty_log_def log_chunk_real_def SIVFS_LOG_CHUNK_SIZE_def
        sizeof_log_entry_def)
  then show ?thesis
    using create_log_entry_appends [of empty_log 1 "sivfs_writeset_zero\<lparr>size_bytes := 40\<rparr>" 4096]
      log_inv_empty_log by (auto simp: empty_log_def)
qed

lemma delete_log_ok:
  assumes "log_inv s" and "stop \<noteq> SIVFS_INVALID_TS"
  shows "\<exists>s'. sivfs_delete_log did s stop = (OK, did \<or> (\<exists>i \<in> fst ` set (log_cache s). i < stop), s') \<and>
     log_inv s' \<and> log_cache s' = filter (\<lambda>(i, _). stop \<le> i) (log_cache s) \<and>
     master_log s' = master_log s \<and> master_log_deleted_ts s' = stop \<and>
     (\<forall>(i, a) \<in> set (log_cache s'). log_mem s' a \<noteq> None \<and> log_mem s' a = log_mem s a)"
proof -
  obtain s1 where s1: "delete_log_loop stop did s = (OK, did \<or> log_cache s1 \<noteq> log_cache s, s1)"
      "log_inv s1" "log_cache s1 = filter (\<lambda>(i, _). stop \<le> i) (log_cache s)"
      "log_rest s1 = log_rest s" "\<forall>a \<in> snd ` set (log_cache s1). log_mem s1 a = log_mem s a"
    using delete_log_loop_ok [OF assms(1)] by blast
  let ?s = "s1\<lparr>master_log_deleted_ts := stop\<rparr>"
  have run: "sivfs_delete_log did s stop = (OK, did \<or> log_cache s1 \<noteq> log_cache s, ?s)"
    using s1(1) assms(2) by (simp add: sivfs_delete_log_def)
  have ch: "log_cache s1 \<noteq> log_cache s \<longleftrightarrow> (\<exists>i \<in> fst ` set (log_cache s). i < stop)"
    unfolding s1(3) filter_id_conv by fastforce
  have "log_inv ?s" using s1(2) log_inv_cong [of ?s s1] by simp
  moreover have "log_mem s1 a \<noteq> None" if "(i, a) \<in> set (log_cache s1)" for i a
  proof -
    obtain cs where "map snd (log_cache s1) = concat (map snd cs)" "mem_layout s1 cs"
      using log_inv_newer [OF s1(2)] by blast
    then have "a \<in> set (concat (map snd cs))" using that by (metis image_eqI list.set_map snd_conv)
    then show ?thesis using mem_layout_entry \<open>mem_layout s1 cs\<close> by (fastforce simp: entry_ok_def)
  qed
  ultimately show ?thesis using run ch s1(3-5) by (force simp: log_rest_def)
qed

text \<open>
  C4: garbage collection of the log.  \<^verbatim>\<open>sivfs_delete_log\<close> terminates, never frees a chunk twice and never
  touches freed memory, removes from the cache exactly the entries older than the stop timestamp,
  leaves every younger entry allocated and unchanged, and keeps the log well formed.
\<close>

theorem delete_log_keeps_newer_entries:
  assumes "log_inv s" and "stop \<noteq> SIVFS_INVALID_TS"
  shows "\<exists>s'. sivfs_delete_log did s stop = (OK, did \<or> (\<exists>i \<in> fst ` set (log_cache s). i < stop), s') \<and>
     log_inv s' \<and> log_cache s' = filter (\<lambda>(i, _). stop \<le> i) (log_cache s) \<and>
     master_log s' = master_log s \<and> master_log_deleted_ts s' = stop \<and>
     (\<forall>(i, a) \<in> set (log_cache s'). log_mem s' a \<noteq> None \<and> log_mem s' a = log_mem s a)"
  by (rule delete_log_ok [OF assms])

definition example_log_entry :: "sivfs_ts \<Rightarrow> bool \<Rightarrow> u64 \<Rightarrow> u64 \<Rightarrow> sivfs_log_entry" where
  "example_log_entry ts fst_in_chunk prev nxt = sivfs_init_log_entry
     \<lparr>le_ts := ts, le_ws := \<lparr>capacity_bytes = 40, size_bytes = 0, entries = replicate 5 0\<rparr>,
      le_first_in_chunk := fst_in_chunk, le_prev := prev, le_next := nxt\<rparr>"

definition example_log :: sivfs_shared_state where
  "example_log = empty_log
     \<lparr>master_log := \<lparr>latest = 4200, bytes_remaining_chunk = 824, chunk_ptr = 4296, chunk_start_ptr = 4096\<rparr>,
      log_cache := [(1, 4104), (2, 4200)],
      log_mem := [4104 \<mapsto> example_log_entry 1 True 0 4200, 4200 \<mapsto> example_log_entry 2 False 4104 0],
      log_chunks := [4096 \<mapsto> \<lparr>ck_size = 1024, ck_prev = 0\<rparr>]\<rparr>"

lemma log_inv_example_log: "log_inv example_log"
proof -
  have m: "log_mem example_log 4104 = Some (example_log_entry 1 True 0 4200)"
    "log_mem example_log 4200 = Some (example_log_entry 2 False 4104 0)"
    "log_chunks example_log = [4096 \<mapsto> \<lparr>ck_size = 1024, ck_prev = 0\<rparr>]"
    "log_cache example_log = [(1, 4104), (2, 4200)]"
    "master_log example_log =
       \<lparr>latest = 4200, bytes_remaining_chunk = 824, chunk_ptr = 4296, chunk_start_ptr = 4096\<rparr>"
    by (simp_all add: example_log_def)
  have e: "entry_ok example_log 4096 4104" "entry_ok example_log 4096 4200"
    using m by (simp_all add: entry_ok_def le_end_def example_log_entry_def)
  have l: "le_end (example_log_entry t f p n) a = unat a + 96" for t f p n a
    by (simp add: le_end_def example_log_entry_def)
  have "mem_layout example_log [(4096, [4104, 4200])]"
    using m e l by (simp add: mem_layout_def chunks_disjoint_def chunk_ok_def)
  moreover have "cur_ok example_log (4096, [4104, 4200])"
    using m e l by (simp add: cur_ok_def, simp add: example_log_entry_def sivfs_init_log_entry_def)
  moreover have "linked (log_mem example_log) (map snd (log_cache example_log))"
    using m by (simp add: example_log_entry_def)
  ultimately show ?thesis
    using m unfolding log_inv_def
    by (simp add: rt_inv_def, intro exI [of _ "[(4096, [4104, 4200])]"]) simp
qed

theorem delete_log_keeps_newer_entries_witness:
  "\<exists>s'. sivfs_delete_log False example_log 2 = (OK, True, s') \<and> log_inv s' \<and>
        log_cache s' = [(2, 4200)] \<and> log_mem s' 4200 = Some (example_log_entry 2 False 4104 0)"
proof -
  have "2 \<noteq> SIVFS_INVALID_TS" by (simp add: SIVFS_INVALID_TS_def)
  moreover have "\<not> (2::u64) \<le> 1" by (simp add: word_le_nat_alt)
  ultimately show ?thesis
    using delete_log_keeps_newer_entries [OF log_inv_example_log, of 2 False]
    by (auto simp: example_log_def)
qed

text \<open>
  C37: the error path of \<^verbatim>\<open>_sivfs_allocate_log_insert_log_cache\<close>.  When the entry fits in the current chunk
  and \<^verbatim>\<open>radix_tree_insert\<close> fails, the code frees the current chunk although it holds committed entries:
  the latest entry is still in the cache afterwards, but its memory is gone.
\<close>

theorem failed_insert_frees_live_chunk:
  assumes "log_inv s" and "log_cache s \<noteq> []" and "\<forall>i \<in> fst ` set (log_cache s). i < ts"
    and "unat (size_bytes ws) < 2 ^ 62"
    and "sizeof_log_entry + size_bytes ws \<le> bytes_remaining_chunk (master_log s)"
  shows "\<exists>s'. sivfs_create_log_entry km False s ts ws = (E ENOMEM, 0, s') \<and> log_cache s' = log_cache s \<and>
     snd (last (log_cache s')) = latest (master_log s) \<and>
     log_mem s (latest (master_log s)) \<noteq> None \<and> log_mem s' (latest (master_log s)) = None"
proof -
  obtain cs where cs: "map snd (log_cache s) = concat (map snd cs)" "mem_layout s cs"
      "if cs = [] then master_log s = sivfs_init_log else cur_ok s (last cs)"
    using log_inv_newer [OF assms(1)] by blast
  have "cs \<noteq> []" using cs(1) assms(2) by auto
  then obtain st as where la: "last cs = (st, as)" "(st, as) \<in> set cs"
    by (metis last_in_set surj_pair)
  have cur: "cur_ok s (st, as)" using cs(3) \<open>cs \<noteq> []\<close> la by simp
  let ?l = "latest (master_log s)"
  have st: "chunk_start_ptr (master_log s) = st" "entry_ok s st ?l" using cur by (auto simp: cur_ok_def)
  obtain c where c: "log_chunks s st = Some c" "unat st + unat (ck_size c) < 2 ^ 64" "st \<noteq> 0"
    using mem_layout_chunk [OF cs(2) la(2)] by (auto simp: chunk_ok_def)
  have b: "unat st + 8 \<le> unat ?l" "unat ?l + 56 \<le> unat st + unat (ck_size c)"
    using entry_ok_bounds [OF st(2)] c(1) by auto
  have ptr: "unat st + 8 \<le> unat (chunk_ptr (master_log s))"
      "unat (chunk_ptr (master_log s)) + unat (bytes_remaining_chunk (master_log s)) =
        unat st + unat (ck_size c)"
    using cur c(1) by (auto simp: cur_ok_def)
  have n: "unat (sizeof_log_entry + size_bytes ws) = 56 + unat (size_bytes ws)"
    using unat_add_u64 [of sizeof_log_entry "size_bytes ws"] assms(4) by (simp add: sizeof_log_entry_def)
  have cov: "chunk_covers s st (chunk_ptr (master_log s)) (unat sizeof_log_entry + unat (size_bytes ws))"
    using ptr n assms(5) c(1) by (simp add: chunk_covers_def sizeof_log_entry_def word_le_nat_alt)
  have "radix_tree_lookup (log_cache s) ts = None"
    using assms(3) by (auto simp: radix_tree_lookup_def map_of_eq_None_iff)
  then have ins: "radix_tree_insert False (log_cache s) ts a = (E ENOMEM, log_cache s)" for a
    by (simp add: radix_tree_insert_def)
  have gone: "st \<le> ?l \<and> ?l < st + ck_size c"
    using b unat_add_u64 [of st "ck_size c"] c(2) by (simp add: word_le_nat_alt word_less_nat_alt)
  have "snd (last (log_cache s)) = ?l" using assms(1,2) by (simp add: log_inv_def)
  moreover have "log_mem s ?l \<noteq> None" using st(2) by (auto simp: entry_ok_def)
  ultimately show ?thesis
    using cov ins gone c st(1) assms(5)
    by (auto simp: sivfs_create_log_entry_def sivfs_allocate_log_insert_log_cache_def
        insert_log_entry_at_def kfree_chunk_def Let_def)
qed

theorem failed_insert_frees_live_chunk_witness:
  "\<exists>s'. sivfs_create_log_entry None False example_log 3 (sivfs_writeset_zero\<lparr>size_bytes := 40\<rparr>) =
     (E ENOMEM, 0, s') \<and> log_cache s' = [(1, 4104), (2, 4200)] \<and> log_mem s' 4200 = None"
  using failed_insert_frees_live_chunk [OF log_inv_example_log, of 3 "sivfs_writeset_zero\<lparr>size_bytes := 40\<rparr>" None]
  by (auto simp: example_log_def sizeof_log_entry_def)

end
