(* ===== verification/Make_Checkpoint.thy ===== *)
theory Make_Checkpoint
  imports Checkpoint_Tree Gc_Entries Sivfs_Log
begin

text \<open>
  Making a checkpoint, \<^verbatim>\<open>kern/sivfs_make_checkpoint.c\<close>: the copy-on-write update of a checkpoint tree by
  one writeset entry (\<^verbatim>\<open>sivfs_apply_change_checkpoint\<close>), its use for direct access, and the replay of the
  log onto the newest checkpoint with publication of the result.

  The loop of \<^verbatim>\<open>sivfs_apply_change_checkpoint\<close> runs over the levels with a pointer \<^verbatim>\<open>root_ptr\<close> to the entry
  that names the current page: the local variable \<^verbatim>\<open>root_pa\<close> at the top, a slot of the parent table
  below.  The type \<open>root_ptr\<close> is that pointer.  \<open>copy_page\<close> is the copy-on-write block at the head of
  the loop and \<open>change_loop\<close> the loop.  Counters of \<^verbatim>\<open>sivfs_stats\<close> other than
  \<^verbatim>\<open>nCheckpointPagesNew\<close> and debugging output are left out.
\<close>

definition SIVFS_APPLY_CHANGE_CP_NOWRITE :: u64 where
  "SIVFS_APPLY_CHANGE_CP_NOWRITE = push_bit 2 1"

text \<open>With no stack the page goes to the collector at once, through a stack with this one page.\<close>

definition sivfs_on_obsolete_page ::
  "cp_world \<Rightarrow> sivfs_stack option \<Rightarrow> u64 \<Rightarrow> rc \<times> sivfs_stack option \<times> cp_world" where
  "sivfs_on_obsolete_page w obsoleted_pages old_page =
     (case obsoleted_pages of
        Some st \<Rightarrow>
          let (ok, w1) = next_alloc w; (r, st') = sivfs_stack_push ok st old_page
          in (r, Some st', w1)
      | None \<Rightarrow>
          let (r, w1) = sivfs_gc_mark_pages_obsoleted w
                (Some \<lparr>stack_size = 1, stack_capacity = 1, stack_values = [old_page]\<rparr>) 0
          in (r, None, w1))"

definition set_store :: "cp_world \<Rightarrow> cp_store \<Rightarrow> cp_world" where
  "set_store w st = w\<lparr>cw_store := st\<rparr>"

definition count_new_page :: "cp_world \<Rightarrow> cp_world" where
  "count_new_page w = w\<lparr>cw_nCheckpointPagesNew := cw_nCheckpointPagesNew w + 1\<rparr>"

text \<open>
  The head of the loop body: find or make the page of this level that belongs to the new checkpoint.
  The result is the new page.
\<close>

definition copy_page ::
  "mmu \<Rightarrow> cp_world \<Rightarrow> sivfs_ts \<Rightarrow> sivfs_stack option \<Rightarrow> nat \<Rightarrow> u64 \<Rightarrow>
   rc \<times> u64 \<times> sivfs_stack option \<times> cp_world" where
  "copy_page m w checkpoint_ts obsoleted_pages level root_ent =
     (let st = cw_store w in
      if root_ent \<noteq> 0 then
        let old_page = sivfs_pxd_to_pa m root_ent;
            old_is_zero_page = sivfs_is_zero_page st old_page
        in case (if old_is_zero_page then Some 0
                 else map_option pgi_checkpoint_ts (sivfs_checkpoint_page_to_pginfo st old_page)) of
             None \<Rightarrow> (UB, 0, obsoleted_pages, w)
           | Some old_pg_checkpoint_ts \<Rightarrow>
               if old_pg_checkpoint_ts = checkpoint_ts then (OK, old_page, obsoleted_pages, w)
               else (case sivfs_new_checkpoint_page st checkpoint_ts level of
                   (OK, Some new_page, st1) \<Rightarrow>
                     (case cps_pages st1 old_page of
                        None \<Rightarrow> (UB, 0, obsoleted_pages, set_store w st1)
                      | Some p \<Rightarrow>
                          let st2 = set_page_mem st1 new_page (page_mem p)
                          in if old_is_zero_page then
                               (OK, new_page, obsoleted_pages, count_new_page (set_store w st2))
                             else
                               let st3 = set_page_info st2 old_page
                                           (\<lambda>i. i\<lparr>pgi_obsoleted_ts := checkpoint_ts\<rparr>)
                               in (case sivfs_on_obsolete_page (count_new_page (set_store w st3))
                                       obsoleted_pages old_page of
                                   (OK, obs, w4) \<Rightarrow> (OK, new_page, obs, w4)
                                 | (r, obs, w4) \<Rightarrow>
                                     (case sivfs_put_checkpoint_page (cw_store w4) new_page of
                                        (OK, st5) \<Rightarrow> (r, 0, obs, set_store w4 st5)
                                      | (r', st5) \<Rightarrow> (r', 0, obs, set_store w4 st5))))
                 | (OK, None, st1) \<Rightarrow> (UB, 0, obsoleted_pages, set_store w st1)
                 | (r, _, st1) \<Rightarrow> (r, 0, obsoleted_pages, set_store w st1))
      else
        (case sivfs_new_checkpoint_page st checkpoint_ts level of
           (OK, Some new_page, st1) \<Rightarrow>
             (OK, new_page, obsoleted_pages,
              count_new_page (set_store w (set_page_mem st1 new_page
                (sivfs_mk_zero_checkpoint_page m st1 level))))
         | (OK, None, st1) \<Rightarrow> (UB, 0, obsoleted_pages, set_store w st1)
         | (r, _, st1) \<Rightarrow> (r, 0, obsoleted_pages, set_store w st1)))"

datatype root_ptr = RootVar u64 | Slot u64 "9 word"

definition root_ptr_read :: "cp_store \<Rightarrow> root_ptr \<Rightarrow> u64" where
  "root_ptr_read st rp =
     (case rp of RootVar v \<Rightarrow> v
      | Slot table off \<Rightarrow> (case cps_pages st table of None \<Rightarrow> 0 | Some p \<Rightarrow> page_mem p off))"

definition root_ptr_write :: "cp_store \<Rightarrow> root_ptr \<Rightarrow> u64 \<Rightarrow> cp_store" where
  "root_ptr_write st rp v =
     (case rp of RootVar _ \<Rightarrow> st
      | Slot table off \<Rightarrow>
          (case cps_pages st table of None \<Rightarrow> st | Some p \<Rightarrow> set_page_mem st table ((page_mem p)(off := v))))"

definition level_entry :: "mmu \<Rightarrow> nat \<Rightarrow> u64 \<Rightarrow> u64" where
  "level_entry m level new_pa =
     (let level_parent = level + 1 in
      if level_parent = 1 then sivfs_mk_pte m new_pa
      else if level_parent < SIVFS_CHECKPOINT_FOFFSET_LEVELS then sivfs_mk_pxd_ent m new_pa
      else new_pa)"

definition set_page_index :: "cp_store \<Rightarrow> u64 \<Rightarrow> u64 \<Rightarrow> cp_store" where
  "set_page_index st pa i =
     st\<lparr>cps_pages := (cps_pages st)(pa := map_option (\<lambda>p. p\<lparr>page_index := i\<rparr>) (cps_pages st pa))\<rparr>"

definition PAGE_SHIFT :: nat where
  "PAGE_SHIFT = 12"

text \<open>The work at level 0: the write itself, unless it is suppressed, and the page index.\<close>

definition apply_leaf ::
  "cp_store \<Rightarrow> u64 \<Rightarrow> sivfs_writeset_entry \<Rightarrow> u64 \<Rightarrow> rc \<times> cp_store" where
  "apply_leaf st new_page ent options =
     (case cps_pages st new_page of
        None \<Rightarrow> (UB, st)
      | Some p \<Rightarrow>
          if options AND SIVFS_APPLY_CHANGE_CP_NOWRITE \<noteq> 0 then
            (OK, set_page_index st new_page (drop_bit PAGE_SHIFT (wse_file_offset ent)))
          else case sivfs_apply_ws_ent_pg (page_mem p) ent of
            None \<Rightarrow> (UB, st)
          | Some mem \<Rightarrow>
              (OK, set_page_index (set_page_mem st new_page mem) new_page
                     (drop_bit PAGE_SHIFT (wse_file_offset ent))))"

text \<open>
  The loop, from \<open>level\<close> down to 0.  The results are the return code, \<^verbatim>\<open>*root_page_ptr\<close>, the stack of
  obsoleted pages and the state.
\<close>

fun change_loop ::
  "mmu \<Rightarrow> sivfs_ts \<Rightarrow> sivfs_writeset_entry \<Rightarrow> u64 \<Rightarrow> nat \<Rightarrow> root_ptr \<Rightarrow> sivfs_checkpoint_iter \<Rightarrow>
   u64 \<Rightarrow> sivfs_stack option \<Rightarrow> cp_world \<Rightarrow> rc \<times> u64 \<times> sivfs_stack option \<times> cp_world" where
  "change_loop m ts ent options 0 rp it root obs w =
     (case copy_page m w ts obs 0 (root_ptr_read (cw_store w) rp) of
        (OK, new_page, obs1, w1) \<Rightarrow>
          (case apply_leaf (cw_store w1) new_page ent options of
             (OK, st2) \<Rightarrow>
               (OK, root, obs1, set_store w1 (root_ptr_write st2 rp (level_entry m 0 new_page)))
           | (r, st2) \<Rightarrow> (r, root, obs1, set_store w1 st2))
      | (r, _, obs1, w1) \<Rightarrow> (r, root, obs1, w1))"
| "change_loop m ts ent options (Suc level) rp it root obs w =
     (case copy_page m w ts obs (Suc level) (root_ptr_read (cw_store w) rp) of
        (OK, new_page, obs1, w1) \<Rightarrow>
          let w2 = set_store w1 (root_ptr_write (cw_store w1) rp (level_entry m (Suc level) new_page));
              root' = (if Suc level = SIVFS_CHECKPOINT_TOTAL_LEVELS - 1 then new_page else root);
              offset = sivfs_checkpoint_iter_next_offset it
          in change_loop m ts ent options level (Slot new_page (ucast offset))
               (sivfs_checkpoint_iter_advance it) root' obs1 w2
      | (r, _, obs1, w1) \<Rightarrow> (r, root, obs1, w1))"

definition sivfs_apply_change_checkpoint ::
  "mmu \<Rightarrow> cp_world \<Rightarrow> u64 \<Rightarrow> sivfs_writeset_entry \<Rightarrow> sivfs_ts \<Rightarrow> sivfs_stack option \<Rightarrow> u64 \<Rightarrow>
   rc \<times> u64 \<times> sivfs_stack option \<times> cp_world" where
  "sivfs_apply_change_checkpoint m w root_page ent checkpoint_ts obsoleted_pages options =
     (case sivfs_checkpoint_iter_init (wse_ino ent) (wse_file_offset ent) of
        Inl e \<Rightarrow> (E e, root_page, obsoleted_pages, w)
      | Inr it \<Rightarrow>
          change_loop m checkpoint_ts ent options (SIVFS_CHECKPOINT_TOTAL_LEVELS - 1)
            (RootVar root_page) it root_page obsoleted_pages w)"

definition sivfs_prepare_direct_access_page ::
  "mmu \<Rightarrow> cp_world \<Rightarrow> u64 \<Rightarrow> u64 \<Rightarrow> u64 \<Rightarrow> rc \<times> cp_world" where
  "sivfs_prepare_direct_access_page m w checkpoint file_ino file_offset =
     (case cw_inodes w checkpoint of
        None \<Rightarrow> (UB, w)
      | Some cpinfo \<Rightarrow>
          let ent = \<lparr>wse_ino = file_ino, wse_file_offset = file_offset, wse_address = 0,
                     wse_stream_control = 0, wse_value = 0\<rparr>;
              (r, root, _, w1) = sivfs_apply_change_checkpoint m w (cp_root cpinfo) ent
                                   (cp_ts cpinfo) None SIVFS_APPLY_CHANGE_CP_NOWRITE
          in (r, w1\<lparr>cw_inodes := (cw_inodes w1)(checkpoint \<mapsto> cpinfo\<lparr>cp_root := root\<rparr>)\<rparr>))"

section \<open>Replaying the log\<close>

text \<open>The inner loop over a writeset; the state holds the root, the stack and the world.\<close>

definition apply_ws_body ::
  "mmu \<Rightarrow> sivfs_ts \<Rightarrow> sivfs_writeset_entry \<Rightarrow> sivfs_wse_stream_info \<Rightarrow>
   u64 \<times> sivfs_stack option \<times> cp_world \<Rightarrow> (u64 \<times> sivfs_stack option \<times> cp_world) step" where
  "apply_ws_body m next_ts ent info = (\<lambda>(root, obs, w).
     case sivfs_apply_change_checkpoint m w root ent next_ts obs 0 of
       (OK, s) \<Rightarrow> Next s
     | (r, s) \<Rightarrow> Stop r s)"

text \<open>The outer loop follows the \<^verbatim>\<open>next\<close> pointers; running out of fuel is \<open>HANG\<close>.\<close>

fun replay_loop ::
  "mmu \<Rightarrow> sivfs_shared_state \<Rightarrow> sivfs_ts \<Rightarrow> nat \<Rightarrow> u64 \<Rightarrow> u64 \<times> sivfs_stack option \<times> cp_world \<Rightarrow>
   rc \<times> u64 \<times> sivfs_stack option \<times> cp_world" where
  "replay_loop m s next_ts 0 log st = (HANG, st)"
| "replay_loop m s next_ts (Suc fuel) log st =
     (case log_mem s log of
        None \<Rightarrow> (UB, st)
      | Some e \<Rightarrow>
          if \<not> le_ts e \<le> next_ts then (OK, st)
          else
            case (if le_aborted e then (OK, st)
                  else ws_for_each (apply_ws_body m next_ts) (le_ws e) st) of
              (OK, st1) \<Rightarrow>
                if le_ts e = next_ts then (OK, st1)
                else if le_next e = 0 then (OK, st1)
                else (case log_mem s (le_next e) of
                        None \<Rightarrow> (UB, st1)
                      | Some e' \<Rightarrow> if le_ts e' > next_ts then (OK, st1)
                                  else replay_loop m s next_ts fuel (le_next e) st1)
            | (r, st1) \<Rightarrow> (r, st1))"

definition replay_log_onto_root ::
  "mmu \<Rightarrow> sivfs_shared_state \<Rightarrow> sivfs_ts \<Rightarrow> sivfs_ts \<Rightarrow> u64 \<times> sivfs_stack option \<times> cp_world \<Rightarrow>
   rc \<times> u64 \<times> sivfs_stack option \<times> cp_world" where
  "replay_log_onto_root m s latest_checkpoint next_ts st =
     (if next_ts = latest_checkpoint then (E EINVAL, st)
      else case sivfs_ts_to_log_entry s (latest_checkpoint + 1) (latest_checkpoint + 1) next_ts of
        (OK, log) \<Rightarrow>
          if log = 0 then (E EINVAL, st)
          else replay_loop m s next_ts (Suc (length (log_cache s))) log st
      | (r, _) \<Rightarrow> (r, st))"

text \<open>
  \<^verbatim>\<open>sivfs_make_checkpoint\<close>.  \<open>has_state\<close> says whether the current task has a \<^verbatim>\<open>sivfs_state\<close>; \<open>inode_ok\<close> is
  the outcome of \<^verbatim>\<open>sivfs_create_checkpoint_inode\<close>, which gives the next inode of \<open>cw_new_inodes\<close> with
  zeroed checkpoint fields and \<^verbatim>\<open>obsoleted_ts\<close> at \<^verbatim>\<open>SIVFS_INVALID_TS\<close>.  The cleanup after an error drops the
  inode and, as the code says, leaks the pages made so far; \<^verbatim>\<open>-ENOMEM\<close> is suppressed.
\<close>

definition oom_suppressed :: "rc \<Rightarrow> rc" where
  "oom_suppressed r = (if r = E ENOMEM then OK else r)"

definition drop_inode :: "cp_world \<Rightarrow> u64 \<Rightarrow> cp_world" where
  "drop_inode w inode = w\<lparr>cw_inodes := (cw_inodes w)(inode := None)\<rparr>"

definition finish_checkpoint ::
  "errno option \<Rightarrow> cp_world \<Rightarrow> u64 \<Rightarrow> u64 \<Rightarrow> sivfs_ts \<Rightarrow> sivfs_stack option \<Rightarrow> rc \<times> bool \<times> cp_world" where
  "finish_checkpoint interrupted w prior_checkpoint new_checkpoint next_ts obs =
     (case checkpoints_insert_first interrupted w new_checkpoint of
        (OK, w1) \<Rightarrow>
          let w2 = w1\<lparr>cw_inodes := (cw_inodes w1)(prior_checkpoint :=
                        map_option (\<lambda>c. c\<lparr>cp_obsoleted_ts := next_ts\<rparr>) (cw_inodes w1 prior_checkpoint))\<rparr>
          in (case sivfs_gc_mark_pages_obsoleted w2 obs prior_checkpoint of
                (OK, w3) \<Rightarrow>
                  (case checkpoints_insert_finish w3 new_checkpoint of (r, w4) \<Rightarrow> (r, r = OK, w4))
              | (r, w3) \<Rightarrow>
                  (case checkpoints_remove w3 new_checkpoint of
                     (OK, w4) \<Rightarrow> (oom_suppressed r, False, drop_inode w4 new_checkpoint)
                   | (r', w4) \<Rightarrow> (r', False, w4)))
      | (r, w1) \<Rightarrow> (oom_suppressed r, False, drop_inode w1 new_checkpoint))"

definition sivfs_make_checkpoint ::
  "mmu \<Rightarrow> bool \<Rightarrow> bool \<Rightarrow> errno option \<Rightarrow> sivfs_shared_state \<Rightarrow> cp_world \<Rightarrow> rc \<times> bool \<times> cp_world" where
  "sivfs_make_checkpoint m has_state inode_ok interrupted s w =
     (let cps = cw_checkpoints w;
          latest_checkpoint_ts = latest_cp_ts cps;
          prior_checkpoint = latest_cp_checkpoint cps;
          latest_commit = master_ts s
      in if \<not> has_state then (E EINVAL, False, w)
         else if latest_commit = latest_checkpoint_ts then (OK, False, w)
         else if prior_checkpoint = 0 then (E EINVAL, False, w)
         else case cw_inodes w prior_checkpoint of
           None \<Rightarrow> (UB, False, w)
         | Some prior_cpinfo \<Rightarrow>
             if cp_ts prior_cpinfo \<noteq> latest_checkpoint_ts then (E EINVAL, False, w)
             else
               let (ok, w1) = next_alloc w
               in case sivfs_new_stack ok of
                    (OK, obs) \<Rightarrow>
                      (case cw_new_inodes w1 of
                         [] \<Rightarrow> (OK, False, w1)
                       | new_checkpoint # inodes \<Rightarrow>
                           if \<not> inode_ok then (OK, False, w1)
                           else
                             let cpinfo = \<lparr>cp_root = cp_root prior_cpinfo, cp_ts = latest_commit,
                                           cp_obsoleted_ts = SIVFS_INVALID_TS\<rparr>;
                                 w2 = w1\<lparr>cw_new_inodes := inodes\<rparr>;
                                 (r, root, obs', w3) =
                                   replay_log_onto_root m s (cp_ts prior_cpinfo) latest_commit
                                     (cp_root prior_cpinfo, Some obs, w2);
                                 w4 = w3\<lparr>cw_inodes := (cw_inodes w3)(new_checkpoint \<mapsto>
                                            cpinfo\<lparr>cp_root := root\<rparr>)\<rparr>
                             in if r \<noteq> OK then (oom_suppressed r, False, drop_inode w4 new_checkpoint)
                                else finish_checkpoint interrupted w4 prior_checkpoint new_checkpoint
                                       latest_commit obs')
                  | (r, _) \<Rightarrow> (oom_suppressed r, False, w1))"

end
