(* ===== verification/Cow.thy ===== *)
theory Cow
  imports Make_Checkpoint
begin

text \<open>
  Correctness of the copy-on-write update of checkpoint trees.  \<open>store_ok\<close> is the invariant of the page
  store under which a checkpoint with timestamp \<open>T\<close> is made, \<open>store_ext\<close> the frame relation between two
  stores: pages stay, and the contents of pages outside \<open>M\<close> do not change.  The central lemma is
  \<open>change_loop_tree\<close>: one run of the loop turns the tree of the old root into a tree of the new root
  that differs in one word of one leaf, and writes only to pages the new checkpoint owns.
\<close>

section \<open>The store invariant and frames\<close>

definition pa_ok :: "mmu \<Rightarrow> u64 \<Rightarrow> bool" where
  "pa_ok m a \<longleftrightarrow> a \<noteq> 0 \<and> a AND PTE_PFN_MASK m = a"

definition mmu_ok :: "mmu \<Rightarrow> bool" where
  "mmu_ok m \<longleftrightarrow> PAGE_TABLE_FLAGS m AND PTE_PFN_MASK m = 0 \<and> PAGE_READONLY_EXEC m AND PTE_PFN_MASK m = 0 \<and>
     PTE_PFN_MASK m AND SIVFS_GC_ENTRY_FLAGS = 0"

fun grant_addrs :: "page_grant list \<Rightarrow> u64 list" where
  "grant_addrs [] = []"
| "grant_addrs (Grant pa junk # gs) = pa # grant_addrs gs"
| "grant_addrs (_ # gs) = grant_addrs gs"

definition supply_ok :: "mmu \<Rightarrow> cp_store \<Rightarrow> bool" where
  "supply_ok m st \<longleftrightarrow> distinct (grant_addrs (cps_supply st)) \<and>
     (\<forall>pa \<in> set (grant_addrs (cps_supply st)). pa_ok m pa \<and> pa \<notin> dom (cps_pages st))"

definition zero_ok :: "mmu \<Rightarrow> cp_store \<Rightarrow> sivfs_ts \<Rightarrow> bool" where
  "zero_ok m st T \<longleftrightarrow> cps_zero_pxd st 0 = cps_zero_page st \<and>
     (\<forall>l < 4. pa_ok m (cps_zero_pxd st l) \<and> cp_tree m st T l (cps_zero_pxd st l) (\<lambda>_ _. 0) {})"

definition infos_ok :: "cp_store \<Rightarrow> bool" where
  "infos_ok st \<longleftrightarrow> (\<forall>a \<in> dom (cps_pages st).
     a = cps_zero_page st \<or> sivfs_checkpoint_page_to_pginfo st a \<noteq> None)"

definition store_ok :: "mmu \<Rightarrow> cp_store \<Rightarrow> sivfs_ts \<Rightarrow> bool" where
  "store_ok m st T \<longleftrightarrow> mmu_ok m \<and> T \<noteq> 0 \<and> 0 \<notin> dom (cps_pages st) \<and> infos_ok st \<and> supply_ok m st \<and>
     zero_ok m st T"

definition store_ext :: "sivfs_ts \<Rightarrow> cp_store \<Rightarrow> cp_store \<Rightarrow> u64 set \<Rightarrow> bool" where
  "store_ext T st st' M \<longleftrightarrow>
     cps_zero_page st' = cps_zero_page st \<and> cps_zero_pxd st' = cps_zero_pxd st \<and>
     dom (cps_pages st) \<subseteq> dom (cps_pages st') \<and> 0 \<notin> dom (cps_pages st') \<and>
     (\<forall>b \<in> dom (cps_pages st). (b \<notin> M \<longrightarrow> cp_mem st' b = cp_mem st b) \<and>
        cp_level st' b = cp_level st b \<and> (cp_owned st' T b \<longleftrightarrow> cp_owned st T b))"

lemma cp_mem_0 [simp]: "0 \<notin> dom (cps_pages st) \<Longrightarrow> cp_mem st 0 = (\<lambda>_. 0)"
  by (auto simp: cp_mem_def split: option.splits)

lemma not_owned_0 [simp]: "0 \<notin> dom (cps_pages st) \<Longrightarrow> \<not> cp_owned st T 0"
  using cp_owned_dom by blast

lemma store_ext_refl: "0 \<notin> dom (cps_pages st) \<Longrightarrow> store_ext T st st M"
  by (simp add: store_ext_def)

lemma store_extD:
  assumes "store_ext T st st' M" and "b \<in> dom (cps_pages st)"
  shows "b \<notin> M \<Longrightarrow> cp_mem st' b = cp_mem st b" and "cp_level st' b = cp_level st b"
    and "cp_owned st' T b \<longleftrightarrow> cp_owned st T b" and "b \<in> dom (cps_pages st')"
  using assms unfolding store_ext_def by auto

lemma store_ext_trans:
  assumes 1: "store_ext T st st1 M" and 2: "store_ext T st1 st2 M'" and "M \<inter> dom (cps_pages st) \<subseteq> N"
    and "M' \<inter> dom (cps_pages st) \<subseteq> N"
  shows "store_ext T st st2 N"
proof -
  have "(b \<notin> N \<longrightarrow> cp_mem st2 b = cp_mem st b) \<and> cp_level st2 b = cp_level st b \<and>
      (cp_owned st2 T b \<longleftrightarrow> cp_owned st T b) \<and> b \<in> dom (cps_pages st2)"
    if b: "b \<in> dom (cps_pages st)" for b
  proof -
    have "b \<notin> N \<longrightarrow> b \<notin> M \<and> b \<notin> M'" using assms(3,4) b by auto
    then show ?thesis using store_extD [OF 1 b] store_extD [OF 2 store_extD(4) [OF 1 b]] by auto
  qed
  then show ?thesis using 1 2 unfolding store_ext_def by auto
qed

lemma frame_root:
  assumes ext: "store_ext T st st' M" and nz: "0 \<notin> dom (cps_pages st)"
    and own: "\<forall>b \<in> M \<inter> dom (cps_pages st). cp_owned st T b"
    and "cp_tree m st T l a f S" and "S \<inter> M = {}"
  shows "cp_mem st' a = cp_mem st a" and "cp_owned st' T a \<longleftrightarrow> cp_owned st T a"
    and "a = 0 \<or> a \<in> dom (cps_pages st') \<and> cp_level st' a = l"
proof -
  have a: "a = 0 \<or> a \<in> dom (cps_pages st) \<and> cp_level st a = l" using cp_tree_root [OF assms(4)] .
  have nz': "0 \<notin> dom (cps_pages st')" using ext by (simp add: store_ext_def)
  show "cp_owned st' T a \<longleftrightarrow> cp_owned st T a"
    using a store_extD(3) [OF ext, of a] not_owned_0 [OF nz, of T] not_owned_0 [OF nz', of T] by auto
  show "a = 0 \<or> a \<in> dom (cps_pages st') \<and> cp_level st' a = l"
    using a store_extD(2,4) [OF ext] by auto
  show "cp_mem st' a = cp_mem st a"
  proof (cases "a = 0")
    case True
    then show ?thesis using nz nz' by simp
  next
    case False
    then have "a \<notin> M" using own assms(5) cp_tree_root_owned [OF assms(4)] a by blast
    then show ?thesis using store_extD(1) [OF ext] a False by auto
  qed
qed

lemma cp_tree_frame:
  assumes ext: "store_ext T st st' M" and nz: "0 \<notin> dom (cps_pages st)"
    and own: "\<forall>b \<in> M \<inter> dom (cps_pages st). cp_owned st T b"
    and "cp_tree m st T l a f S" and "S \<inter> M = {}"
  shows "cp_tree m st' T l a f S"
  using assms(4,5)
proof (induction l arbitrary: a f S)
  case 0
  show ?case using frame_root [OF ext assms(2) own "0.prems"] "0.prems"(1) by simp
next
  case (Suc l)
  note root = frame_root [OF ext nz own Suc.prems]
  obtain Si where Si: "\<forall>i. cp_tree m st T l (cp_child m st a i) (\<lambda>q. f (i # q)) (Si i)"
      "owned_parts st T a Si S" using Suc.prems(1) by auto
  have "cp_tree m st' T l (cp_child m st' a i) (\<lambda>q. f (i # q)) (Si i)" for i
    using Suc.IH [OF Si(1) [rule_format, of i]] Suc.prems(2) owned_partsD(3) [OF Si(2), of i] root(1)
    by (auto simp: cp_child_def)
  moreover have "owned_parts st' T a Si S" using Si(2) root(2) by (simp add: owned_parts_def)
  ultimately show ?case using Suc.prems(1) root(1,3) by (auto simp: cp_child_def)
qed

lemma zero_ok_frame:
  assumes "store_ext T st st' M" and "0 \<notin> dom (cps_pages st)"
    and "\<forall>b \<in> M \<inter> dom (cps_pages st). cp_owned st T b" and "zero_ok m st T"
  shows "zero_ok m st' T"
  using assms(4) cp_tree_frame [OF assms(1-3)] assms(1) unfolding zero_ok_def store_ext_def by auto

lemma store_ok_frame:
  assumes "store_ok m st T" and "store_ext T st st' M" and "\<forall>b \<in> M \<inter> dom (cps_pages st). cp_owned st T b"
    and "infos_ok st'" and "supply_ok m st'"
  shows "store_ok m st' T"
  using assms zero_ok_frame [OF assms(2) _ assms(3)] unfolding store_ok_def store_ext_def by auto

lemma store_ok_zero_page:
  assumes "store_ok m st T"
  shows "cps_zero_page st \<in> dom (cps_pages st)" and "\<not> cp_owned st T (cps_zero_page st)"
proof -
  have "cp_tree m st T 0 (cps_zero_page st) (\<lambda>_ _. 0) {}" "cps_zero_page st \<noteq> 0"
    using assms unfolding store_ok_def zero_ok_def pa_ok_def by (metis zero_less_numeral)+
  then show "cps_zero_page st \<in> dom (cps_pages st)" and "\<not> cp_owned st T (cps_zero_page st)"
    by (auto split: if_splits)
qed

section \<open>Changes to single pages\<close>

lemma update_page_ext:
  assumes "store_ok m st T" and "cps_pages st a = Some p"
    and st': "st' = st\<lparr>cps_pages := (cps_pages st)(a \<mapsto> p')\<rparr>"
    and "map_option (\<lambda>i. (pgi_checkpoint_ts i, pgi_level i, pgi_is_zero_page i)) (page_info p') =
         map_option (\<lambda>i. (pgi_checkpoint_ts i, pgi_level i, pgi_is_zero_page i)) (page_info p)"
    and "page_mem p' \<noteq> page_mem p \<Longrightarrow> a \<in> M" and "\<forall>b \<in> M \<inter> dom (cps_pages st). cp_owned st T b"
  shows "store_ext T st st' M \<and> store_ok m st' T \<and> cp_mem st' = (cp_mem st)(a := page_mem p')"
proof -
  have nz: "0 \<notin> dom (cps_pages st)" using assms(1) by (simp add: store_ok_def)
  have info: "sivfs_checkpoint_page_to_pginfo st' b = (if b = a then page_info p' else
      sivfs_checkpoint_page_to_pginfo st b)" for b
    using st' by (simp add: sivfs_checkpoint_page_to_pginfo_def)
  have info0: "sivfs_checkpoint_page_to_pginfo st a = page_info p"
    using assms(2) by (simp add: sivfs_checkpoint_page_to_pginfo_def)
  have z: "sivfs_is_zero_page st' b = sivfs_is_zero_page st b" for b
    using info info0 assms(4) st'
    by (cases "page_info p"; cases "page_info p'") (auto simp: sivfs_is_zero_page_def)
  have meta: "cp_level st' b = cp_level st b" "cp_owned st' T b = cp_owned st T b" for b
    using info info0 assms(4) st' z
    by (cases "page_info p"; cases "page_info p'"; force simp: cp_level_def cp_owned_def)+
  have mem: "cp_mem st' = (cp_mem st)(a := page_mem p')" using st' by (auto simp: cp_mem_def fun_eq_iff)
  have d: "dom (cps_pages st') = dom (cps_pages st)" using st' assms(2) by auto
  have mem0: "cp_mem st a = page_mem p" using assms(2) by (simp add: cp_mem_def)
  have ext: "store_ext T st st' M"
    using d meta mem mem0 nz assms(5) st' unfolding store_ext_def by auto
  have "infos_ok st'" using assms(1,4) info info0 d st'
    by (cases "page_info p"; cases "page_info p'") (auto simp: infos_ok_def store_ok_def)
  moreover have "supply_ok m st'" using assms(1) d st' by (simp add: supply_ok_def store_ok_def)
  ultimately show ?thesis using store_ok_frame [OF assms(1) ext assms(6)] ext mem by blast
qed

lemma set_page_mem_ext:
  assumes "store_ok m st T" and "cp_owned st T a"
  shows "store_ext T st (set_page_mem st a x) {a} \<and> store_ok m (set_page_mem st a x) T \<and>
         cp_mem (set_page_mem st a x) = (cp_mem st)(a := x)"
proof -
  obtain p where p: "cps_pages st a = Some p" using cp_owned_dom [OF assms(2)] by auto
  show ?thesis
    using update_page_ext [OF assms(1) p, of "set_page_mem st a x" "p\<lparr>page_mem := x\<rparr>" "{a}"] assms(2) p
    by (simp add: set_page_mem_def)
qed

lemma set_page_obsoleted_ext:
  assumes "store_ok m st T" and "a \<in> dom (cps_pages st)"
  shows "store_ext T st (set_page_info st a (\<lambda>i. i\<lparr>pgi_obsoleted_ts := t\<rparr>)) {} \<and>
         store_ok m (set_page_info st a (\<lambda>i. i\<lparr>pgi_obsoleted_ts := t\<rparr>)) T \<and>
         cp_mem (set_page_info st a (\<lambda>i. i\<lparr>pgi_obsoleted_ts := t\<rparr>)) = cp_mem st"
proof -
  obtain p where p: "cps_pages st a = Some p" using assms(2) by auto
  let ?p = "p\<lparr>page_info := map_option (\<lambda>i. i\<lparr>pgi_obsoleted_ts := t\<rparr>) (page_info p)\<rparr>"
  have "cp_mem st a = page_mem p" using p by (simp add: cp_mem_def)
  then show ?thesis
    using update_page_ext [OF assms(1) p, of "set_page_info st a (\<lambda>i. i\<lparr>pgi_obsoleted_ts := t\<rparr>)" ?p "{}"] p
    by (auto simp: set_page_info_def option.map_comp comp_def fun_eq_iff)
qed

lemma set_page_index_ext:
  assumes "store_ok m st T" and "a \<in> dom (cps_pages st)"
  shows "store_ext T st (set_page_index st a i) {} \<and> store_ok m (set_page_index st a i) T \<and>
         cp_mem (set_page_index st a i) = cp_mem st"
proof -
  obtain p where p: "cps_pages st a = Some p" using assms(2) by auto
  have "cp_mem st a = page_mem p" using p by (simp add: cp_mem_def)
  then show ?thesis
    using update_page_ext [OF assms(1) p, of "set_page_index st a i" "p\<lparr>page_index := i\<rparr>" "{}"] p
    by (auto simp: set_page_index_def fun_eq_iff)
qed

section \<open>Taking a new page\<close>

lemma new_page_result:
  assumes ok: "store_ok m st T" and run: "sivfs_new_checkpoint_page st T l = (r, po, st')"
  shows "store_ok m st' T \<and> store_ext T st st' {} \<and>
    (case po of None \<Rightarrow> cps_pages st' = cps_pages st
     | Some n \<Rightarrow> r = OK \<and> pa_ok m n \<and> n \<notin> dom (cps_pages st) \<and> n \<in> dom (cps_pages st') \<and>
         cp_owned st' T n \<and> cp_level st' n = l \<and> (cps_pages st')(n := None) = cps_pages st \<and>
         (\<forall>p. cps_pages st' n = Some p \<longrightarrow> page_refct p = 1 \<and> page_mapct p = 0 \<and> \<not> page_locked p))"
proof -
  have sup: "supply_ok m st" and nz: "0 \<notin> dom (cps_pages st)" and inf: "infos_ok st"
    using ok by (auto simp: store_ok_def)
  have weaker: "store_ok m (st\<lparr>cps_supply := gs\<rparr>) T \<and> store_ext T st (st\<lparr>cps_supply := gs\<rparr>) {}"
    if "supply_ok m (st\<lparr>cps_supply := gs\<rparr>)" for gs
  proof -
    have "cp_mem (st\<lparr>cps_supply := gs\<rparr>) = cp_mem st" by (simp add: cp_mem_def fun_eq_iff)
    moreover have "cp_level (st\<lparr>cps_supply := gs\<rparr>) = cp_level st"
      by (simp add: cp_level_def sivfs_checkpoint_page_to_pginfo_def fun_eq_iff)
    moreover have "cp_owned (st\<lparr>cps_supply := gs\<rparr>) = cp_owned st"
      by (simp add: cp_owned_def sivfs_is_zero_page_def sivfs_checkpoint_page_to_pginfo_def fun_eq_iff)
    ultimately have ext: "store_ext T st (st\<lparr>cps_supply := gs\<rparr>) {}" using nz by (simp add: store_ext_def)
    have "infos_ok (st\<lparr>cps_supply := gs\<rparr>)"
      using inf by (simp add: infos_ok_def sivfs_checkpoint_page_to_pginfo_def)
    then show ?thesis using store_ok_frame [OF ok ext _ _ that] ext by simp
  qed
  show ?thesis
  proof (cases "cps_npages st + 1 > SIVFS_MAX_CHECKPOINT_PAGES")
    case True
    then show ?thesis using run ok store_ext_refl [OF nz]
      by (auto simp: sivfs_new_checkpoint_page_def Let_def)
  next
    case False
    show ?thesis
    proof (cases "cps_supply st")
      case Nil
      then show ?thesis using run ok store_ext_refl [OF nz] False
        by (auto simp: sivfs_new_checkpoint_page_def Let_def)
    next
      case (Cons g gs)
      show ?thesis
      proof (cases g)
        case (Grant n junk)
        have n: "pa_ok m n" "n \<notin> dom (cps_pages st)" "n \<noteq> 0"
            "supply_ok m (st\<lparr>cps_supply := gs\<rparr>)" "n \<notin> set (grant_addrs gs)"
          using sup Cons Grant by (auto simp: supply_ok_def pa_ok_def)
        have nzp: "n \<noteq> cps_zero_page st" using store_ok_zero_page(1) [OF ok] n(2) by auto
        define info where "info = \<lparr>pgi_checkpoint_ts = T, pgi_obsoleted_ts = SIVFS_INVALID_TS,
            pgi_level = l, pgi_is_pmd = False, pgi_is_pte = False, pgi_is_zero_page = False,
            pgi_is_noprivate = False, pgi_order = 0\<rparr>"
        define pg where "pg = \<lparr>page_mem = junk, page_info = Some info, page_index = 0,
            page_refct = 1, page_mapct = 0, page_locked = False\<rparr>"
        have st': "r = OK" "po = Some n" "st' = st\<lparr>cps_supply := gs, cps_npages := cps_npages st + 1,
              cps_pages := (cps_pages st)(n \<mapsto> pg)\<rparr>"
          using run False Cons Grant
          by (auto simp: sivfs_new_checkpoint_page_def Let_def pg_def info_def)
        have pi: "sivfs_checkpoint_page_to_pginfo st' b =
            (if b = n then Some info else sivfs_checkpoint_page_to_pginfo st b)" for b
          using st' by (simp add: sivfs_checkpoint_page_to_pginfo_def pg_def)
        have own: "cp_owned st' T n" "cp_level st' n = l"
          using pi nzp st' by (simp_all add: cp_owned_def sivfs_is_zero_page_def cp_level_def info_def)
        have "cp_mem st' b = cp_mem st b \<and> cp_level st' b = cp_level st b \<and>
            cp_owned st' T b = cp_owned st T b" if "b \<in> dom (cps_pages st)" for b
          using that n(2) pi [of b] st'
          by (auto simp: cp_mem_def cp_level_def cp_owned_def sivfs_is_zero_page_def)
        then have ext: "store_ext T st st' {}" using st' nz n(3) by (auto simp: store_ext_def)
        have "infos_ok st'" using inf pi st' by (auto simp: infos_ok_def)
        moreover have "supply_ok m st'" using n(4,5) st' by (auto simp: supply_ok_def)
        ultimately have "store_ok m st' T" using store_ok_frame [OF ok ext] by simp
        moreover have "(cps_pages st')(n := None) = cps_pages st" using st' n(2) by auto
        ultimately show ?thesis using st' n own ext by (auto simp: pg_def)
      qed (use run False Cons weaker [of gs] sup in
          \<open>auto simp: sivfs_new_checkpoint_page_def Let_def supply_ok_def\<close>)
    qed
  qed
qed

lemma on_obsolete_page_store:
  "sivfs_on_obsolete_page w obs p = (r, obs', w') \<Longrightarrow> cw_store w' = cw_store w"
  by (auto simp: sivfs_on_obsolete_page_def sivfs_gc_mark_pages_obsoleted_def next_alloc_def Let_def
      split: option.splits list.splits prod.splits rc.splits sum.splits if_splits)

lemma put_fresh_page:
  assumes "cps_pages st n = Some p" and "page_info p \<noteq> None" and "page_refct p = 1"
    and "page_mapct p = 0" and "\<not> page_locked p"
  shows "sivfs_put_checkpoint_page st n =
    (OK, st\<lparr>cps_npages := cps_npages st - 1, cps_pages := (cps_pages st)(n := None)\<rparr>)"
  using assms by (auto simp: sivfs_put_checkpoint_page_def split: option.splits)

section \<open>The copy-on-write block\<close>

lemma entry_pa:
  assumes "mmu_ok m" and "pa_ok m p"
  shows "sivfs_pxd_to_pa m (sivfs_mk_pte m p) = p" and "sivfs_pxd_to_pa m (sivfs_mk_pxd_ent m p) = p"
    and "sivfs_pxd_to_pa m p = p" and "sivfs_pxd_to_pa m (level_entry m l p) = p"
proof -
  have d: "(p OR x) AND PTE_PFN_MASK m = (p AND PTE_PFN_MASK m) OR (x AND PTE_PFN_MASK m)" for x
    by (simp add: bit_eq_iff bit_simps) blast
  show 1: "sivfs_pxd_to_pa m (sivfs_mk_pte m p) = p" and 2: "sivfs_pxd_to_pa m (sivfs_mk_pxd_ent m p) = p"
    and 3: "sivfs_pxd_to_pa m p = p"
    using assms d by (simp_all add: sivfs_pxd_to_pa_def sivfs_mk_pte_def sivfs_mk_pxd_ent_def mmu_ok_def pa_ok_def)
  show "sivfs_pxd_to_pa m (level_entry m l p) = p"
    using 1 2 3 by (simp add: level_entry_def Let_def)
qed

lemma cp_tree_empty:
  "0 \<notin> dom (cps_pages st) \<Longrightarrow> cp_tree m st T l 0 (\<lambda>_ _. 0) {}"
proof (induction l)
  case (Suc l)
  have "cp_child m st 0 i = 0" for i using Suc.prems by (simp add: cp_child_def sivfs_pxd_to_pa_def)
  then show ?case using Suc by (auto simp: owned_parts_def intro!: exI [of _ "\<lambda>_. {}"])
qed simp

lemma cp_tree_root_copy:
  assumes "cp_tree m st T l a f S" and "\<not> cp_owned st T a" and "store_ext T st st' {}"
    and "0 \<notin> dom (cps_pages st)" and "n \<in> dom (cps_pages st')" and "cp_level st' n = l"
    and "cp_owned st' T n" and "cp_mem st' n = cp_mem st a"
  shows "cp_tree m st' T l n f {n}"
proof (cases l)
  case 0
  then show ?thesis using assms by simp
next
  case (Suc k)
  obtain Si where Si: "\<forall>i. cp_tree m st T k (cp_child m st a i) (\<lambda>q. f (i # q)) (Si i)"
      "owned_parts st T a Si S" using assms(1) Suc by auto
  have e: "Si i = {}" for i using Si(2) assms(2) by (simp add: owned_parts_def)
  have "cp_tree m st' T k (cp_child m st' n i) (\<lambda>q. f (i # q)) {}" for i
    using cp_tree_frame [OF assms(3,4) _ Si(1) [rule_format, of i]] e assms(8) by (simp add: cp_child_def)
  moreover have "owned_parts st' T n (\<lambda>_. {}) {n}" using assms(7) by (simp add: owned_parts_def)
  moreover have "cp_mem st' n i \<noteq> 0 \<Longrightarrow> cp_child m st' n i \<noteq> 0" for i
    using assms(1,8) Suc by (simp add: cp_child_def)
  ultimately have "cp_tree m st' T (Suc k) n f {n}"
    using assms(5,6) Suc by (intro cp_tree_SucI [where Si = "\<lambda>_. {}"]) auto
  then show ?thesis using Suc by simp
qed

lemma zero_page_tree:
  assumes "store_ok m st T" and "n \<in> dom (cps_pages st)" and "cp_level st n = l" and "l \<le> 6"
    and "cp_owned st T n" and "cp_mem st n = sivfs_mk_zero_checkpoint_page m st l"
  shows "cp_tree m st T l n (\<lambda>_ _. 0) {n}"
proof (cases l)
  case 0
  then show ?thesis using assms by (simp add: sivfs_mk_zero_checkpoint_page_def)
next
  case (Suc k)
  have nz: "0 \<notin> dom (cps_pages st)" and mm: "mmu_ok m" and z: "zero_ok m st T"
    using assms(1) by (auto simp: store_ok_def)
  have child: "cp_child m st n i = (if k < 4 then cps_zero_pxd st k else 0)" for i
  proof (cases "k < 4")
    case True
    then have "pa_ok m (cps_zero_pxd st k)" "cps_zero_pxd st 0 = cps_zero_page st"
      using z by (auto simp: zero_ok_def)
    then show ?thesis using True Suc assms(6) entry_pa [OF mm, of "cps_zero_pxd st k"]
      by (auto simp: cp_child_def sivfs_mk_zero_checkpoint_page_def SIVFS_CHECKPOINT_FOFFSET_LEVELS_def)
  next
    case False
    then show ?thesis using Suc assms(6)
      by (simp add: cp_child_def sivfs_mk_zero_checkpoint_page_def SIVFS_CHECKPOINT_FOFFSET_LEVELS_def
          sivfs_pxd_to_pa_def)
  qed
  have "cp_tree m st T k (cp_child m st n i) (\<lambda>_ _. 0) {}" for i
    using child [of i] z cp_tree_empty [OF nz] by (simp add: zero_ok_def)
  moreover have "cp_mem st n i \<noteq> 0 \<longrightarrow> cp_child m st n i \<noteq> 0" for i
    using child [of i] z Suc assms(6)
    by (auto simp: zero_ok_def pa_ok_def sivfs_mk_zero_checkpoint_page_def
        SIVFS_CHECKPOINT_FOFFSET_LEVELS_def)
  moreover have "owned_parts st T n (\<lambda>_. {}) {n}" using assms(5) by (simp add: owned_parts_def)
  ultimately show ?thesis using assms(2,3) Suc by (auto intro!: exI [of _ "\<lambda>_. {}"])
qed

lemma new_page_filled:
  assumes ok: "store_ok m st T" and run: "sivfs_new_checkpoint_page st T l = (OK, Some n, st1)"
  shows "store_ok m (set_page_mem st1 n x) T \<and> store_ext T st (set_page_mem st1 n x) {} \<and>
    cp_mem (set_page_mem st1 n x) n = x \<and> cp_owned (set_page_mem st1 n x) T n \<and>
    cp_level (set_page_mem st1 n x) n = l \<and> n \<in> dom (cps_pages (set_page_mem st1 n x)) \<and>
    pa_ok m n \<and> n \<notin> dom (cps_pages st)"
proof -
  have n: "store_ok m st1 T" "store_ext T st st1 {}" "pa_ok m n" "n \<notin> dom (cps_pages st)"
      "n \<in> dom (cps_pages st1)" "cp_owned st1 T n" "cp_level st1 n = l"
    using new_page_result [OF ok run] by auto
  note s = set_page_mem_ext [OF n(1,6), of x]
  have ext1: "store_ext T st1 (set_page_mem st1 n x) {n}" using s by blast
  have "store_ext T st (set_page_mem st1 n x) {}" using store_ext_trans [OF n(2) ext1, of "{}"] n(4) by simp
  then show ?thesis using s n store_extD [OF ext1 n(5)] by auto
qed

lemma remove_fresh_page:
  assumes ok: "store_ok m st T" and ext: "store_ext T st st1 M" and "M \<inter> dom (cps_pages st) = {}"
    and ok1: "store_ok m st1 T" and "n \<notin> dom (cps_pages st)"
    and st': "st' = st1\<lparr>cps_npages := k, cps_pages := (cps_pages st1)(n := None)\<rparr>"
  shows "store_ext T st st' {} \<and> store_ok m st' T"
proof -
  have pi: "b \<noteq> n \<Longrightarrow> sivfs_checkpoint_page_to_pginfo st' b = sivfs_checkpoint_page_to_pginfo st1 b" for b
    using st' by (simp add: sivfs_checkpoint_page_to_pginfo_def)
  have meta: "b \<noteq> n \<Longrightarrow> cp_mem st' b = cp_mem st1 b \<and> cp_level st' b = cp_level st1 b \<and>
      (cp_owned st' T b \<longleftrightarrow> cp_owned st1 T b)" for b
    using pi [of b] st' by (simp add: cp_mem_def cp_level_def cp_owned_def sivfs_is_zero_page_def)
  have "(b \<notin> {} \<longrightarrow> cp_mem st' b = cp_mem st b) \<and> cp_level st' b = cp_level st b \<and>
      (cp_owned st' T b \<longleftrightarrow> cp_owned st T b) \<and> b \<in> dom (cps_pages st')"
    if b: "b \<in> dom (cps_pages st)" for b
  proof -
    have "b \<noteq> n" "b \<notin> M" using b assms(3,5) by auto
    then show ?thesis using meta [of b] store_extD [OF ext b] st' by auto
  qed
  then have e: "store_ext T st st' {}" using ext st' unfolding store_ext_def by auto
  have "infos_ok st'" using ok1 pi st' by (auto simp: infos_ok_def store_ok_def)
  moreover have "supply_ok m st'" using ok1 st' by (auto simp: supply_ok_def store_ok_def)
  ultimately show ?thesis using e store_ok_frame [OF ok e] by simp
qed

definition cow_result ::
  "mmu \<Rightarrow> sivfs_ts \<Rightarrow> nat \<Rightarrow> cp_store \<Rightarrow> u64 \<Rightarrow> (9 word list \<Rightarrow> page_mem) \<Rightarrow> u64 set \<Rightarrow> u64 \<Rightarrow> cp_store \<Rightarrow> bool" where
  "cow_result m T l st a f S n st' \<longleftrightarrow> pa_ok m n \<and> cp_owned st' T n \<and>
     (cp_tree m st' T l n f S \<and> n = a \<or> cp_tree m st' T l n f {n} \<and> n \<notin> dom (cps_pages st))"

lemma old_page_ts:
  assumes "infos_ok st" and "a \<in> dom (cps_pages st)" and "T \<noteq> 0"
  shows "\<exists>t. (if sivfs_is_zero_page st a then Some 0
        else map_option pgi_checkpoint_ts (sivfs_checkpoint_page_to_pginfo st a)) = Some t \<and>
      (t = T \<longleftrightarrow> cp_owned st T a)"
proof (cases "sivfs_is_zero_page st a")
  case True
  then show ?thesis using assms(3) by (simp add: cp_owned_def)
next
  case False
  then obtain i where "sivfs_checkpoint_page_to_pginfo st a = Some i"
    using assms unfolding infos_ok_def sivfs_is_zero_page_def by blast
  then show ?thesis using False by (simp add: cp_owned_def)
qed

lemma copy_old_page:
  assumes ok: "store_ok m (cw_store w) T" and tree: "cp_tree m (cw_store w) T l a f S"
    and "a = sivfs_pxd_to_pa m e" and "e \<noteq> 0" and "a \<noteq> 0"
    and run: "copy_page m w T obs l e = (r, n, obs', w')"
  shows "store_ok m (cw_store w') T \<and> store_ext T (cw_store w) (cw_store w') {} \<and>
    (r = OK \<longrightarrow> cow_result m T l (cw_store w) a f S n (cw_store w'))"
proof -
  let ?st = "cw_store w"
  have nz: "0 \<notin> dom (cps_pages ?st)" using ok by (simp add: store_ok_def)
  have a: "a \<in> dom (cps_pages ?st)" using cp_tree_root [OF tree] assms(5) by auto
  have pa: "pa_ok m a" using assms(3,5) by (simp add: pa_ok_def sivfs_pxd_to_pa_def and.assoc)
  have T: "T \<noteq> 0" using ok by (simp add: store_ok_def)
  show ?thesis
  proof (cases "cp_owned ?st T a")
    case True
    then have "r = OK" "n = a" "w' = w"
      using run assms(3,4) by (auto simp: copy_page_def cp_owned_def Let_def)
    then show ?thesis using ok store_ext_refl [OF nz] tree pa True by (simp add: cow_result_def)
  next
    case False
    obtain t where t: "(if sivfs_is_zero_page ?st a then Some 0
        else map_option pgi_checkpoint_ts (sivfs_checkpoint_page_to_pginfo ?st a)) = Some t" "t \<noteq> T"
      using old_page_ts [of ?st a T] ok a T False by (auto simp: store_ok_def)
    obtain r1 po st1 where new: "sivfs_new_checkpoint_page ?st T l = (r1, po, st1)" by (metis surj_pair)
    note nr = new_page_result [OF ok new]
    show ?thesis
    proof (cases po)
      case None
      then have "r \<noteq> OK" "cw_store w' = st1"
        using run t new assms(3,4) by (auto simp: copy_page_def Let_def set_store_def split: rc.splits)
      then show ?thesis using nr by simp
    next
      case (Some q)
      then have r1: "r1 = OK" using nr by simp
      note new' = new [unfolded r1 Some]
      have q: "q \<notin> dom (cps_pages ?st)" and a1: "a \<in> dom (cps_pages st1)"
        using nr Some a store_extD(4) [of T ?st st1 "{}" a] by auto
      then obtain p where p: "cps_pages st1 a = Some p" by auto
      have mem: "page_mem p = cp_mem ?st a"
        using store_extD(1) [of T ?st st1 "{}" a] nr a p by (simp add: cp_mem_def)
      define st2 where "st2 = set_page_mem st1 q (page_mem p)"
      note f2 = new_page_filled [OF ok new', of "page_mem p", folded st2_def]
      have tree2: "cp_tree m st2 T l q f {q}"
        using cp_tree_root_copy [OF tree False, of st2 q] nz f2 mem by simp
      show ?thesis
      proof (cases "sivfs_is_zero_page ?st a")
        case True
        then have "r = OK" "n = q" "cw_store w' = st2"
          using run t new' p assms(3,4)
          by (auto simp: copy_page_def Let_def set_store_def count_new_page_def st2_def)
        then show ?thesis using f2 tree2 by (simp add: cow_result_def)
      next
        case nonzero: False
        define st3 where "st3 = set_page_info st2 a (\<lambda>i. i\<lparr>pgi_obsoleted_ts := T\<rparr>)"
        have a2: "a \<in> dom (cps_pages st2)" using f2 a store_extD(4) by blast
        have f3: "store_ext T st2 st3 {}" "store_ok m st3 T" "cp_mem st3 = cp_mem st2"
          using set_page_obsoleted_ext [OF _ a2, of m T T] f2 by (simp_all add: st3_def)
        have e3: "store_ext T ?st st3 {}" using store_ext_trans [OF _ f3(1), of ?st "{}" "{}"] f2 by simp
        have tree3: "cp_tree m st3 T l q f {q}"
          using cp_tree_frame [OF f3(1) _ _ tree2] f2 by (simp add: store_ok_def)
        have own3: "cp_owned st3 T q" using store_extD(3) [OF f3(1)] f2 by blast
        let ?w = "count_new_page (set_store w st3)"
        obtain r4 obs4 w4 where on: "sivfs_on_obsolete_page ?w obs a = (r4, obs4, w4)" by (metis surj_pair)
        have w4: "cw_store w4 = st3"
          using on_obsolete_page_store [OF on] by (simp add: count_new_page_def set_store_def)
        have run': "(r, n, obs', w') = (if r4 = OK then (OK, q, obs4, w4)
            else case sivfs_put_checkpoint_page st3 q of
              (OK, st5) \<Rightarrow> (r4, 0, obs4, set_store w4 st5) | (r', st5) \<Rightarrow> (r', 0, obs4, set_store w4 st5))"
          using run t nonzero new' p on w4 assms(3,4)
          by (cases r4) (auto simp: copy_page_def Let_def st2_def st3_def)
        show ?thesis
        proof (cases "r4 = OK")
          case True
          then show ?thesis using run' w4 f2 f3 e3 tree3 own3 q by (simp add: cow_result_def)
        next
          case err: False
          obtain p1 where p1: "cps_pages st1 q = Some p1" "page_refct p1 = 1" "page_mapct p1 = 0" "\<not> page_locked p1"
            using nr Some by auto
          have "a \<noteq> q" using a q by auto
          then obtain p3 where p3: "cps_pages st3 q = Some p3" "page_refct p3 = 1" "page_mapct p3 = 0"
              "\<not> page_locked p3"
            using p1 by (simp add: st3_def st2_def set_page_info_def set_page_mem_def)
          have "page_info p3 \<noteq> None"
            using own3 p3(1) by (auto simp: cp_owned_def sivfs_checkpoint_page_to_pginfo_def)
          then have put: "sivfs_put_checkpoint_page st3 q =
              (OK, st3\<lparr>cps_npages := cps_npages st3 - 1, cps_pages := (cps_pages st3)(q := None)\<rparr>)"
            using put_fresh_page [OF p3(1) _ p3(2-4)] by simp
          then show ?thesis
            using run' err remove_fresh_page [OF ok e3 _ f3(2) q refl] by (simp add: set_store_def)
        qed
      qed
    qed
  qed
qed

lemma copy_page_result:
  assumes ok: "store_ok m (cw_store w) T" and tree: "cp_tree m (cw_store w) T l a f S"
    and "a = sivfs_pxd_to_pa m e" and "e \<noteq> 0 \<longrightarrow> a \<noteq> 0" and "l \<le> 6"
    and run: "copy_page m w T obs l e = (r, n, obs', w')"
  shows "store_ok m (cw_store w') T \<and> store_ext T (cw_store w) (cw_store w') {} \<and>
    (r = OK \<longrightarrow> cow_result m T l (cw_store w) a f S n (cw_store w'))"
proof (cases "e = 0")
  case False
  then show ?thesis using copy_old_page [OF ok tree assms(3) False _ run] assms(4) by simp
next
  case True
  let ?st = "cw_store w"
  have a: "a = 0" using True assms(3) by (simp add: sivfs_pxd_to_pa_def)
  have nz: "0 \<notin> dom (cps_pages ?st)" using ok by (simp add: store_ok_def)
  obtain r1 po st1 where new: "sivfs_new_checkpoint_page ?st T l = (r1, po, st1)" by (metis surj_pair)
  note nr = new_page_result [OF ok new]
  show ?thesis
  proof (cases po)
    case None
    then have "r \<noteq> OK" "cw_store w' = st1"
      using run new True by (auto simp: copy_page_def Let_def set_store_def split: rc.splits)
    then show ?thesis using nr by simp
  next
    case (Some q)
    then have r1: "r1 = OK" using nr by simp
    note new' = new [unfolded r1 Some]
    define x where "x = sivfs_mk_zero_checkpoint_page m st1 l"
    define st2 where "st2 = set_page_mem st1 q x"
    note f2 = new_page_filled [OF ok new', of x, folded st2_def]
    have x: "x = sivfs_mk_zero_checkpoint_page m st2 l"
      by (simp add: x_def st2_def set_page_mem_def sivfs_mk_zero_checkpoint_page_def)
    have "cp_tree m st2 T l q (\<lambda>_ _. 0) {q}"
      using zero_page_tree [of m st2 T q l] f2 assms(5) x by simp
    moreover have "f p = (\<lambda>_. 0)" if "length p = l" for p
      using cp_tree_leaf [OF nz tree that] a by (simp add: cp_leaf_def)
    ultimately have "cp_tree m st2 T l q f {q}" using cp_tree_cong [of m st2 T l q "\<lambda>_ _. 0" "{q}" f] by simp
    moreover have "r = OK" "n = q" "cw_store w' = st2"
      using run new' True
      by (auto simp: copy_page_def Let_def set_store_def count_new_page_def st2_def x_def)
    ultimately show ?thesis using f2 by (simp add: cow_result_def)
  qed
qed

section \<open>Enough memory\<close>

text \<open>
  \<open>cow_res k\<close>: the next \<open>k\<close> page allocations succeed and stay within the limit on checkpoint pages, and
  so do the allocations of the stack of obsoleted pages.
\<close>

definition is_grant :: "page_grant \<Rightarrow> bool" where
  "is_grant g = (case g of Grant _ _ \<Rightarrow> True | _ \<Rightarrow> False)"

definition cow_res :: "nat \<Rightarrow> cp_world \<Rightarrow> sivfs_stack option \<Rightarrow> bool" where
  "cow_res k w obs \<longleftrightarrow> k \<le> length (takeWhile is_grant (cps_supply (cw_store w))) \<and>
     cps_npages (cw_store w) + int k \<le> SIVFS_MAX_CHECKPOINT_PAGES \<and> cw_allocs w = [] \<and>
     (\<exists>stk. obs = Some stk \<and> stack_inv stk \<and>
        list_all (\<lambda>p. p AND SIVFS_GC_ENTRY_FLAGS = 0) (stack_elems stk))"

lemma cow_res_mono: "cow_res k w obs \<Longrightarrow> j \<le> k \<Longrightarrow> cow_res j w obs"
  by (auto simp: cow_res_def)

lemma new_page_total:
  assumes "Suc k \<le> length (takeWhile is_grant (cps_supply st))"
    and "cps_npages st + int (Suc k) \<le> SIVFS_MAX_CHECKPOINT_PAGES"
  shows "\<exists>n st'. sivfs_new_checkpoint_page st T l = (OK, Some n, st') \<and>
     k \<le> length (takeWhile is_grant (cps_supply st')) \<and> cps_npages st' + int k \<le> SIVFS_MAX_CHECKPOINT_PAGES"
proof -
  obtain g gs where g: "cps_supply st = g # gs" "is_grant g" "k \<le> length (takeWhile is_grant gs)"
    using assms(1) by (cases "cps_supply st") (auto split: if_splits)
  then show ?thesis using assms(2)
    by (cases g) (auto simp: sivfs_new_checkpoint_page_def is_grant_def Let_def)
qed

lemma on_obsolete_page_total:
  assumes "cw_allocs w = []" and "stack_inv stk"
  shows "\<exists>stk'. sivfs_on_obsolete_page w (Some stk) p = (OK, Some stk', w) \<and> stack_inv stk' \<and>
     stack_elems stk' = stack_elems stk @ [p]"
  using stack_push_cases [OF assms(2), of True p] stack_push_True [OF assms(2), of p] assms(1)
  by (cases "sivfs_stack_push True stk p") (auto simp: sivfs_on_obsolete_page_def next_alloc_def)

lemma cow_res_store:
  "cps_supply st = cps_supply (cw_store w) \<Longrightarrow> cps_npages st = cps_npages (cw_store w) \<Longrightarrow>
   cow_res k (set_store w st) obs = cow_res k w obs"
  by (simp add: cow_res_def set_store_def)

lemma copy_page_total:
  assumes ok: "store_ok m (cw_store w) T" and tree: "cp_tree m (cw_store w) T l a f S"
    and "a = sivfs_pxd_to_pa m e" and "e \<noteq> 0 \<longrightarrow> a \<noteq> 0"
    and res: "cow_res (Suc k) w obs"
    and run: "copy_page m w T obs l e = (r, n, obs', w')"
  shows "r = OK \<and> cow_res k w' obs'"
proof -
  let ?st = "cw_store w"
  obtain stk where stk: "obs = Some stk" "stack_inv stk" "cw_allocs w = []"
      "list_all (\<lambda>p. p AND SIVFS_GC_ENTRY_FLAGS = 0) (stack_elems stk)"
    using res by (auto simp: cow_res_def)
  obtain q st1 where new: "sivfs_new_checkpoint_page ?st T l = (OK, Some q, st1)"
      "k \<le> length (takeWhile is_grant (cps_supply st1))"
      "cps_npages st1 + int k \<le> SIVFS_MAX_CHECKPOINT_PAGES"
    using new_page_total [of k ?st T l] res by (auto simp: cow_res_def)
  have res1: "cow_res k (count_new_page (set_store w st2)) (Some stk')"
    if "cps_supply st2 = cps_supply st1" "cps_npages st2 = cps_npages st1" "stack_inv stk'"
      "list_all (\<lambda>p. p AND SIVFS_GC_ENTRY_FLAGS = 0) (stack_elems stk')" for st2 stk'
    using that new stk by (simp add: cow_res_def count_new_page_def set_store_def)
  show ?thesis
  proof (cases "e = 0")
    case True
    then show ?thesis using run new res1 [OF _ _ stk(2,4)] stk(1)
      by (auto simp: copy_page_def Let_def set_page_mem_def)
  next
    case False
    have a: "a \<in> dom (cps_pages ?st)" using cp_tree_root [OF tree] False assms(4) by auto
    have T: "T \<noteq> 0" and inf: "infos_ok ?st" using ok by (auto simp: store_ok_def)
    obtain t where t: "(if sivfs_is_zero_page ?st a then Some 0
        else map_option pgi_checkpoint_ts (sivfs_checkpoint_page_to_pginfo ?st a)) = Some t"
      using old_page_ts [OF inf a T] by blast
    obtain p where p: "cps_pages st1 a = Some p"
      using new_page_result [OF ok new(1)] a store_extD(4) [of T ?st st1 "{}" a] by auto
    let ?st2 = "set_page_mem st1 q (page_mem p)"
    let ?st3 = "set_page_info ?st2 a (\<lambda>i. i\<lparr>pgi_obsoleted_ts := T\<rparr>)"
    obtain stk' where ob: "sivfs_on_obsolete_page (count_new_page (set_store w ?st3)) (Some stk) a =
        (OK, Some stk', count_new_page (set_store w ?st3))" "stack_inv stk'" "stack_elems stk' = stack_elems stk @ [a]"
      using on_obsolete_page_total [of "count_new_page (set_store w ?st3)" stk a] stk(2,3)
      by (auto simp: count_new_page_def set_store_def)
    have "mmu_ok m" using ok by (simp add: store_ok_def)
    then have "a AND SIVFS_GC_ENTRY_FLAGS = 0" using assms(3) by (simp add: mmu_ok_def sivfs_pxd_to_pa_def and.assoc)
    then have al: "list_all (\<lambda>p. p AND SIVFS_GC_ENTRY_FLAGS = 0) (stack_elems stk')" using ob(3) stk(4) by simp
    show ?thesis
    proof (cases "t = T")
      case True
      then have "r = OK" "w' = w" "obs' = obs" using run t False assms(3) by (auto simp: copy_page_def Let_def)
      then show ?thesis using cow_res_mono [OF res, of k] by simp
    next
      case neq: False
      show ?thesis
        using run t neq False assms(3) new(1) p ob stk(1) res1 [OF _ _ stk(2,4), of ?st2] res1 [OF _ _ ob(2) al, of ?st3]
        by (auto simp: copy_page_def Let_def set_page_mem_def set_page_info_def split: if_splits)
    qed
  qed
qed

section \<open>The loop\<close>

definition rp_page :: "root_ptr \<Rightarrow> u64 set" where
  "rp_page rp = (case rp of RootVar _ \<Rightarrow> {} | Slot pp _ \<Rightarrow> {pp})"

lemma root_ptr_read_Slot: "root_ptr_read st (Slot pp off) = cp_mem st pp off"
  by (simp add: root_ptr_read_def cp_mem_def split: option.splits)

lemma root_ptr_write_ext:
  assumes "store_ok m st T" and "\<forall>pp \<in> rp_page rp. cp_owned st T pp"
  shows "store_ext T st (root_ptr_write st rp v) (rp_page rp) \<and> store_ok m (root_ptr_write st rp v) T \<and>
    (\<forall>pp off. rp = Slot pp off \<longrightarrow>
       cp_mem (root_ptr_write st rp v) = (cp_mem st)(pp := (cp_mem st pp)(off := v)))"
proof (cases rp)
  case (RootVar x)
  then show ?thesis using assms(1) store_ext_refl by (auto simp: root_ptr_write_def store_ok_def)
next
  case (Slot pp off)
  have own: "cp_owned st T pp" using assms(2) Slot by (simp add: rp_page_def)
  obtain p where p: "cps_pages st pp = Some p" using cp_owned_dom [OF own] by auto
  have "root_ptr_write st rp v = set_page_mem st pp ((cp_mem st pp)(off := v))"
    using Slot p by (simp add: root_ptr_write_def cp_mem_def)
  then show ?thesis using set_page_mem_ext [OF assms(1) own] Slot by (simp add: rp_page_def)
qed

definition wse_aligned :: "sivfs_writeset_entry \<Rightarrow> bool" where
  "wse_aligned ent \<longleftrightarrow> wse_file_offset ent mod PAGE_SIZE mod 8 = 0"

definition leaf_update :: "sivfs_writeset_entry \<Rightarrow> u64 \<Rightarrow> page_mem \<Rightarrow> page_mem" where
  "leaf_update ent options mem =
     (if options AND SIVFS_APPLY_CHANGE_CP_NOWRITE \<noteq> 0 then mem
      else mem(ucast (wse_file_offset ent mod PAGE_SIZE div 8) := wse_value ent))"

lemma apply_leaf_result:
  assumes "store_ok m st T" and "cp_owned st T n" and run: "apply_leaf st n ent options = (r, st')"
  shows "store_ext T st st' {n} \<and> store_ok m st' T \<and>
    (r = OK \<longrightarrow> cp_mem st' = (cp_mem st)(n := leaf_update ent options (cp_mem st n)))"
proof -
  obtain p where p: "cps_pages st n = Some p" using cp_owned_dom [OF assms(2)] by auto
  have nz: "0 \<notin> dom (cps_pages st)" using assms(1) by (simp add: store_ok_def)
  have pm: "cp_mem st n = page_mem p" using p by (simp add: cp_mem_def)
  let ?i = "drop_bit PAGE_SHIFT (wse_file_offset ent)"
  consider (skip) "options AND SIVFS_APPLY_CHANGE_CP_NOWRITE \<noteq> 0" "st' = set_page_index st n ?i"
    | (bad) "r = UB" "st' = st"
    | (written) "options AND SIVFS_APPLY_CHANGE_CP_NOWRITE = 0"
        "st' = set_page_index (set_page_mem st n (leaf_update ent options (page_mem p))) n ?i"
    using run p
    by (auto simp: apply_leaf_def sivfs_apply_ws_ent_pg_def leaf_update_def Let_def split: if_splits)
  then show ?thesis
  proof cases
    case skip
    then show ?thesis
      using set_page_index_ext [OF assms(1), of n ?i] p store_ext_trans [of T st st' "{}" st' "{}" "{n}"]
        store_ext_refl [of st' T "{}"] by (auto simp: leaf_update_def store_ok_def)
  next
    case bad
    then show ?thesis using assms(1) store_ext_refl [OF nz] by simp
  next
    case written
    let ?st = "set_page_mem st n (leaf_update ent options (page_mem p))"
    have 1: "store_ext T st ?st {n}" "store_ok m ?st T"
        "cp_mem ?st = (cp_mem st)(n := leaf_update ent options (page_mem p))"
      using set_page_mem_ext [OF assms(1,2)] by auto
    have "n \<in> dom (cps_pages ?st)" using store_extD(4) [OF 1(1)] p by auto
    then have 2: "store_ext T ?st st' {}" "store_ok m st' T" "cp_mem st' = cp_mem ?st"
      using set_page_index_ext [OF 1(2), of n ?i] written by auto
    show ?thesis using store_ext_trans [OF 1(1) 2(1), of "{n}"] 2 1(3) pm by simp
  qed
qed

lemma apply_leaf_supply:
  "apply_leaf st n ent options = (r, st') \<Longrightarrow> cps_supply st' = cps_supply st \<and> cps_npages st' = cps_npages st"
  by (auto simp: apply_leaf_def set_page_index_def set_page_mem_def split: option.splits if_splits)

lemma apply_leaf_total:
  assumes "n \<in> dom (cps_pages st)" and "apply_leaf st n ent options = (r, st')"
    and "wse_aligned ent"
  shows "r = OK"
proof -
  obtain p where p: "cps_pages st n = Some p" using assms(1) by auto
  obtain mem where "sivfs_apply_ws_ent_pg (page_mem p) ent = Some mem"
    using assms(3) by (simp add: sivfs_apply_ws_ent_pg_def Let_def wse_aligned_def)
  then show ?thesis using assms(2) p by (simp add: apply_leaf_def split: if_splits)
qed

lemma cow_result_tree:
  assumes res: "cow_result m T l st a f S n st'" and tree: "cp_tree m st T l a f S"
    and ext: "store_ext T st st' {}"
  obtains S1 where "cp_tree m st' T l n f S1" "n \<in> S1" "S1 \<inter> dom (cps_pages st) \<subseteq> S"
    "pa_ok m n" "cp_owned st' T n" "n \<in> dom (cps_pages st) \<longrightarrow> n \<in> S"
proof (cases "cp_tree m st' T l n f S \<and> n = a")
  case True
  have o: "cp_owned st' T n" "pa_ok m n" using res by (simp_all add: cow_result_def)
  have "n \<in> S" using True cp_tree_root_owned o(1) by blast
  then show ?thesis using that [of S] True o by blast
next
  case False
  then have "cp_tree m st' T l n f {n}" "n \<notin> dom (cps_pages st)" "cp_owned st' T n" "pa_ok m n"
    using res by (auto simp: cow_result_def)
  then show ?thesis using that [of "{n}"] by simp
qed

definition change_result ::
  "mmu \<Rightarrow> sivfs_ts \<Rightarrow> nat \<Rightarrow> root_ptr \<Rightarrow> cp_store \<Rightarrow> (9 word list \<Rightarrow> page_mem) \<Rightarrow> u64 set \<Rightarrow> u64 \<Rightarrow> cp_store \<Rightarrow> bool" where
  "change_result m T l rp st f S n st' \<longleftrightarrow> pa_ok m n \<and> cp_owned st' T n \<and>
     (\<exists>S'. cp_tree m st' T l n f S' \<and> S' \<inter> dom (cps_pages st) \<subseteq> S) \<and>
     (\<forall>pp off. rp = Slot pp off \<longrightarrow> cp_mem st' pp = (cp_mem st pp)(off := level_entry m l n))"

lemma change_loop_leaf:
  assumes ok: "store_ok m (cw_store w) T" and tree: "cp_tree m (cw_store w) T 0 a f S"
    and ent: "a = sivfs_pxd_to_pa m (root_ptr_read (cw_store w) rp)"
      "root_ptr_read (cw_store w) rp \<noteq> 0 \<longrightarrow> a \<noteq> 0"
    and rp: "\<forall>pp \<in> rp_page rp. cp_owned (cw_store w) T pp \<and> pp \<notin> S"
    and run: "change_loop m T e opt 0 rp it root obs w = (r, root', obs', w')"
  shows "store_ok m (cw_store w') T \<and> store_ext T (cw_store w) (cw_store w') (S \<union> rp_page rp) \<and>
    (r = OK \<longrightarrow> root' = root \<and>
       (\<exists>n. change_result m T 0 rp (cw_store w) (f([] := leaf_update e opt (f []))) S n (cw_store w'))) \<and>
    (\<forall>j. cow_res (j + Suc 0) w obs \<longrightarrow> wse_aligned e \<longrightarrow> r = OK \<and> cow_res j w' obs')"
proof -
  let ?st = "cw_store w"
  obtain r1 n obs1 w1 where cp: "copy_page m w T obs 0 (root_ptr_read ?st rp) = (r1, n, obs1, w1)"
    by (metis surj_pair)
  define st1 where "st1 = cw_store w1"
  note res = copy_page_result [OF ok tree ent _ cp, folded st1_def, simplified]
  have tot: "r1 = OK \<and> cow_res j w1 obs1" if "cow_res (j + Suc 0) w obs" for j
    using copy_page_total [OF ok tree ent _ cp, of j] that by simp
  have e1: "store_ext T ?st st1 (S \<union> rp_page rp)"
    using store_ext_trans [of T ?st st1 "{}" st1 "{}"] res store_ext_refl [of st1 T] by (auto simp: store_ok_def)
  show ?thesis
  proof (cases "r1 = OK")
    case False
    then have "r = r1" "w' = w1" using run cp by (cases r1; simp)+
    then show ?thesis using res e1 False tot by (auto simp: st1_def)
  next
    case True
    then have cr: "cow_result m T 0 ?st a f S n st1" using res by simp
    have ext1: "store_ext T ?st st1 {}" using res by simp
    obtain S1 where n: "cp_tree m st1 T 0 n f S1" "n \<in> S1" "pa_ok m n" "cp_owned st1 T n"
        "n \<in> dom (cps_pages ?st) \<longrightarrow> n \<in> S"
      by (rule cow_result_tree [OF cr tree ext1]) blast
    obtain r2 st2 where al: "apply_leaf st1 n e opt = (r2, st2)" by fastforce
    have ok1: "store_ok m st1 T" using res by simp
    note al' = apply_leaf_result [OF ok1 n(4) al]
    have ext2: "store_ext T st1 st2 {n}" using al' by simp
    have e2: "store_ext T ?st st2 (S \<union> rp_page rp)" using store_ext_trans [OF ext1 ext2] n(5) by auto
    show ?thesis
    proof (cases "r2 = OK")
      case False
      then have "r = r2" "cw_store w' = st2"
        using run cp True al by (cases r2; auto simp: st1_def set_store_def)+
      moreover have "\<not> wse_aligned e"
        using apply_leaf_total [OF _ al] False cp_owned_dom [OF n(4)] by blast
      ultimately show ?thesis using al' e2 False by simp
    next
      case ok2: True
      define st3 where "st3 = root_ptr_write st2 rp (level_entry m 0 n)"
      have fin: "r = OK" "root' = root" "cw_store w' = st3" "obs' = obs1" "w' = set_store w1 st3"
        using run cp True al ok2 by (auto simp: st1_def st3_def set_store_def)
      have "cow_res j w' obs' = cow_res j w1 obs1" for j
        using apply_leaf_supply [OF al] cow_res_store [of st3 w1 j obs1] fin
        by (simp add: st3_def root_ptr_write_def set_page_mem_def st1_def split: root_ptr.splits option.splits)
      then have tot': "\<forall>j. cow_res (j + Suc 0) w obs \<longrightarrow> r = OK \<and> cow_res j w' obs'"
        using tot fin(1) by auto
      have rp2: "\<forall>pp \<in> rp_page rp. cp_owned st2 T pp \<and> pp \<noteq> n \<and> pp \<in> dom (cps_pages ?st)"
        using rp e2 n(5) cp_owned_dom store_extD(3) [OF e2] by blast
      have w3: "store_ext T st2 st3 (rp_page rp)" "store_ok m st3 T"
          "\<forall>pp off. rp = Slot pp off \<longrightarrow> cp_mem st3 = (cp_mem st2)(pp := (cp_mem st2 pp)(off := level_entry m 0 n))"
        using root_ptr_write_ext [of m st2 T rp] al' rp2 by (auto simp: st3_def)
      have e3: "store_ext T ?st st3 (S \<union> rp_page rp)" using store_ext_trans [OF e2 w3(1)] by auto
      have n2: "n \<in> dom (cps_pages st2)" "cp_level st2 n = 0" "cp_owned st2 T n"
        using store_extD [OF ext2, of n] cp_tree_root [OF n(1)] n(3,4) cp_owned_dom [OF n(4)]
        by (auto simp: pa_ok_def)
      have n3: "n \<in> dom (cps_pages st3)" "cp_level st3 n = 0" "cp_owned st3 T n" "cp_mem st3 n = cp_mem st2 n"
        using store_extD [OF w3(1) n2(1)] n2 rp2 by auto
      have "cp_mem st2 n = leaf_update e opt (f [])" using al' ok2 n(1) by simp
      then have "cp_tree m st3 T 0 n (f([] := leaf_update e opt (f []))) {n}" using n3 by simp
      moreover have "cp_mem st3 pp = (cp_mem ?st pp)(off := level_entry m 0 n)" if "rp = Slot pp off" for pp off
      proof -
        have pp: "pp \<noteq> n" "pp \<in> dom (cps_pages ?st)" using rp2 that by (auto simp: rp_page_def)
        have "cp_mem st2 pp = cp_mem ?st pp"
          using al' ok2 pp store_extD(1) [OF ext1 pp(2)] by simp
        then show ?thesis using w3(3) that by simp
      qed
      ultimately have "change_result m T 0 rp ?st (f([] := leaf_update e opt (f []))) S n st3"
        unfolding change_result_def using n(3,5) n3(3) by blast
      then show ?thesis using fin w3(2) e3 tot' by auto
    qed
  qed
qed

lemma subtree_replaced:
  assumes tree: "cp_tree m st T (Suc l) n f S" and parts: "\<forall>j. cp_tree m st T l (cp_child m st n j) (\<lambda>q. f (j # q)) (Si j)"
      "owned_parts st T n Si S"
    and own: "cp_owned st T n" and nz: "0 \<notin> dom (cps_pages st)" and mm: "mmu_ok m"
    and ext: "store_ext T st st' (Si i \<union> {n})"
    and new: "pa_ok m n'" "cp_tree m st' T l n' ((\<lambda>q. f (i # q))(p := x)) S'" "S' \<inter> dom (cps_pages st) \<subseteq> Si i"
      "cp_mem st' n = (cp_mem st n)(i := level_entry m l n')"
  shows "cp_tree m st' T (Suc l) n (f(i # p := x)) (insert n (\<Union>j. (Si(i := S')) j))"
proof (rule cp_tree_SucI [where Si = "Si(i := S')"])
  have n: "n \<in> dom (cps_pages st)" using cp_owned_dom [OF own] .
  have own': "cp_owned st' T n" using store_extD(3) [OF ext n] own by simp
  show "n \<in> dom (cps_pages st')" using store_extD(4) [OF ext n] .
  show "cp_level st' n = Suc l" using store_extD(2) [OF ext n] cp_tree_root [OF tree] n nz by auto
  have ci: "cp_child m st' n i = n'" using new(4) entry_pa(4) [OF mm new(1)] by (simp add: cp_child_def)
  have cj: "j \<noteq> i \<Longrightarrow> cp_child m st' n j = cp_child m st n j" for j using new(4) by (simp add: cp_child_def)
  show "cp_child m st' n j \<noteq> 0" if "cp_mem st' n j \<noteq> 0" for j
    using that tree ci cj [of j] new(1,4) by (cases "j = i") (auto simp: pa_ok_def)
  have sub: "b \<in> Si j \<Longrightarrow> b \<in> dom (cps_pages st)" for b j
    using cp_tree_owned [OF parts(1) [rule_format, of j]] cp_owned_dom by blast
  show "cp_tree m st' T l (cp_child m st' n j) (\<lambda>q. (f(i # p := x)) (j # q)) ((Si(i := S')) j)" for j
  proof (cases "j = i")
    case True
    have "(\<lambda>q. (f(i # p := x)) (i # q)) = (\<lambda>q. f (i # q))(p := x)" by auto
    then show ?thesis using True ci new(2) by simp
  next
    case False
    have "Si j \<inter> (Si i \<union> {n}) = {}"
      using owned_partsD(1) [OF parts(2) False] owned_partsD(2) [OF parts(2), of j] by auto
    moreover have "\<forall>b \<in> (Si i \<union> {n}) \<inter> dom (cps_pages st). cp_owned st T b"
      using cp_tree_owned [OF parts(1) [rule_format, of i]] own by auto
    ultimately have "cp_tree m st' T l (cp_child m st n j) (\<lambda>q. f (j # q)) (Si j)"
      using cp_tree_frame [OF ext nz _ parts(1) [rule_format, of j]] by blast
    then show ?thesis using False cj by simp
  qed
  have "S' \<inter> Si j = {}" if "j \<noteq> i" for j
    using new(3) sub [of _ j] owned_partsD(1) [OF parts(2) that] by blast
  moreover have "n \<notin> S'" using new(3) n owned_partsD(2) [OF parts(2), of i] by blast
  ultimately show "owned_parts st' T n (Si(i := S')) (insert n (\<Union>j. (Si(i := S')) j))"
    using owned_partsD(1,2) [OF parts(2)] own' unfolding owned_parts_def by (auto simp: Int_commute)
qed

lemma change_loop_tree:
  assumes "store_ok m (cw_store w) T" and "cp_tree m (cw_store w) T l a f S"
    and "a = sivfs_pxd_to_pa m (root_ptr_read (cw_store w) rp)"
    and "root_ptr_read (cw_store w) rp \<noteq> 0 \<longrightarrow> a \<noteq> 0" and "l \<le> 6"
    and "\<forall>pp \<in> rp_page rp. cp_owned (cw_store w) T pp \<and> pp \<notin> S"
    and "map ucast (drop (iter_cur_i it) (iter_offsets it)) = p" and "length p = l"
    and "change_loop m T e opt l rp it root obs w = (r, root', obs', w')"
  shows "store_ok m (cw_store w') T \<and> store_ext T (cw_store w) (cw_store w') (S \<union> rp_page rp) \<and>
    (r = OK \<longrightarrow> (\<exists>n. root' = (if l = 6 then n else root) \<and>
       change_result m T l rp (cw_store w) (f(p := leaf_update e opt (f p))) S n (cw_store w'))) \<and>
    (\<forall>j. cow_res (j + Suc l) w obs \<longrightarrow> wse_aligned e \<longrightarrow> r = OK \<and> cow_res j w' obs')"
  using assms
proof (induction l arbitrary: w a f S rp it p root obs)
  case 0
  have "p = []" using "0.prems"(8) by simp
  then show ?case
    using change_loop_leaf [OF "0.prems"(1-4,6,9)] by (auto simp only: if_cancel zero_neq_numeral if_False)
next
  case (Suc l)
  let ?st = "cw_store w"
  obtain r1 n obs1 w1 where cp: "copy_page m w T obs (Suc l) (root_ptr_read ?st rp) = (r1, n, obs1, w1)"
    by (metis surj_pair)
  define st1 where "st1 = cw_store w1"
  note res = copy_page_result [OF Suc.prems(1-5) cp, folded st1_def]
  have tot: "r1 = OK \<and> cow_res (j + Suc l) w1 obs1" if "cow_res (j + Suc (Suc l)) w obs" for j
    using copy_page_total [OF Suc.prems(1-4) _ cp, of "j + Suc l"] that by simp
  have e1: "store_ext T ?st st1 (S \<union> rp_page rp)"
    using store_ext_trans [of T ?st st1 "{}" st1 "{}"] res store_ext_refl [of st1 T] by (auto simp: store_ok_def)
  show ?case
  proof (cases "r1 = OK")
    case False
    then have "r = r1" "w' = w1" using Suc.prems(9) cp by (cases r1; simp)+
    then show ?thesis using res e1 False tot by (auto simp: st1_def)
  next
    case True
    have cr: "cow_result m T (Suc l) ?st a f S n st1" and ext1: "store_ext T ?st st1 {}"
      and ok1: "store_ok m st1 T" using res True by auto
    obtain S1 where n: "cp_tree m st1 T (Suc l) n f S1" "n \<in> S1" "S1 \<inter> dom (cps_pages ?st) \<subseteq> S"
        "pa_ok m n" "cp_owned st1 T n" "n \<in> dom (cps_pages ?st) \<longrightarrow> n \<in> S"
      by (rule cow_result_tree [OF cr Suc.prems(2) ext1]) blast
    define st2 where "st2 = root_ptr_write st1 rp (level_entry m (Suc l) n)"
    have rp1: "cp_owned st1 T pp" "pp \<notin> S1" "pp \<in> dom (cps_pages ?st)" if "pp \<in> rp_page rp" for pp
    proof -
      have "cp_owned ?st T pp" "pp \<notin> S" using Suc.prems(6) that by auto
      then show "cp_owned st1 T pp" "pp \<notin> S1" "pp \<in> dom (cps_pages ?st)"
        using cp_owned_dom store_extD(3) [OF ext1] n(3) by blast+
    qed
    have w2: "store_ext T st1 st2 (rp_page rp)" "store_ok m st2 T"
        "\<forall>pp off. rp = Slot pp off \<longrightarrow>
           cp_mem st2 = (cp_mem st1)(pp := (cp_mem st1 pp)(off := level_entry m (Suc l) n))"
      using root_ptr_write_ext [OF ok1, of rp] rp1 by (auto simp: st2_def)
    have nz1: "0 \<notin> dom (cps_pages st1)" and nz2: "0 \<notin> dom (cps_pages st2)" and mm: "mmu_ok m"
      using ok1 w2(2) by (auto simp: store_ok_def)
    have tree2: "cp_tree m st2 T (Suc l) n f S1"
      using cp_tree_frame [OF w2(1) nz1 _ n(1)] rp1 by blast
    then obtain Si where Si: "\<forall>j. cp_tree m st2 T l (cp_child m st2 n j) (\<lambda>q. f (j # q)) (Si j)"
        "owned_parts st2 T n Si S1" by auto
    have own2: "cp_owned st2 T n" using tree2 n(2) cp_tree_root_owned by blast
    have e2: "store_ext T ?st st2 (S \<union> rp_page rp)" using store_ext_trans [OF ext1 w2(1)] by auto
    define i where "i = (ucast (sivfs_checkpoint_iter_next_offset it) :: 9 word)"
    define it' where "it' = sivfs_checkpoint_iter_advance it"
    obtain p' where p': "p = i # p'" "map ucast (drop (iter_cur_i it') (iter_offsets it')) = p'" "length p' = l"
    proof (cases "drop (iter_cur_i it) (iter_offsets it)")
      case Nil
      then show ?thesis using Suc.prems(7,8) by auto
    next
      case (Cons x xs)
      have "iter_offsets it ! iter_cur_i it = x" "drop (Suc (iter_cur_i it)) (iter_offsets it) = xs"
        using Cons by (metis nth_via_drop, metis drop_Suc list.sel(3) tl_drop)
      then show ?thesis
        using that [of "map ucast xs"] Cons Suc.prems(7,8)
        by (auto simp: i_def it'_def sivfs_checkpoint_iter_next_offset_def sivfs_checkpoint_iter_advance_def)
    qed
    define w2' where "w2' = set_store w1 st2"
    have sw: "cw_store w2' = st2" by (simp add: w2'_def set_store_def)
    define root2 where "root2 = (if Suc l = 6 then n else root)"
    have loop: "change_loop m T e opt l (Slot n i) it' root2 obs1 w2' = (r, root', obs', w')"
      using Suc.prems(9) cp True
      by (simp add: Let_def i_def it'_def root2_def w2'_def st2_def st1_def level_consts)
    have rd: "root_ptr_read (cw_store w2') (Slot n i) = cp_mem st2 n i" by (simp add: sw root_ptr_read_Slot)
    have IH: "store_ok m (cw_store w') T \<and> store_ext T st2 (cw_store w') (Si i \<union> {n}) \<and>
       (r = OK \<longrightarrow> (\<exists>n'. root' = (if l = 6 then n' else root2) \<and>
         change_result m T l (Slot n i) st2 ((\<lambda>q. f (i # q))(p' := leaf_update e opt (f (i # p'))))
           (Si i) n' (cw_store w'))) \<and>
       (\<forall>j. cow_res (j + Suc l) w2' obs1 \<longrightarrow> wse_aligned e \<longrightarrow>
          r = OK \<and> cow_res j w' obs')"
    proof -
      have h2: "cp_tree m (cw_store w2') T l (cp_child m st2 n i) (\<lambda>q. f (i # q)) (Si i)"
        and h1: "store_ok m (cw_store w2') T" using Si(1) w2(2) sw by simp_all
      have h3: "cp_child m st2 n i = sivfs_pxd_to_pa m (root_ptr_read (cw_store w2') (Slot n i))"
        by (simp add: rd cp_child_def)
      have h4: "root_ptr_read (cw_store w2') (Slot n i) \<noteq> 0 \<longrightarrow> cp_child m st2 n i \<noteq> 0"
        using tree2 rd by simp
      have h5: "l \<le> 6" using Suc.prems(5) by simp
      have h6: "\<forall>pp \<in> rp_page (Slot n i). cp_owned (cw_store w2') T pp \<and> pp \<notin> Si i"
        using own2 owned_partsD(2) [OF Si(2), of i] by (simp add: rp_page_def sw)
      show ?thesis
        using Suc.IH [OF h1 h2 h3 h4 h5 h6 p'(2,3) loop] unfolding sw rp_page_def root_ptr.case .
    qed
    note IHr = IH [THEN conjunct2, THEN conjunct2, THEN conjunct2]
    have same: "cow_res j w2' obs1 = cow_res j w1 obs1" for j
      unfolding w2'_def st2_def
      by (rule cow_res_store) (simp_all add: root_ptr_write_def set_page_mem_def st1_def split: root_ptr.splits option.splits)
    have tot': "\<forall>j. cow_res (j + Suc (Suc l)) w obs \<longrightarrow> wse_aligned e \<longrightarrow>
        r = OK \<and> cow_res j w' obs'"
      using tot IHr [unfolded same] by blast
    have ext3: "store_ext T st2 (cw_store w') (Si i \<union> {n})" using IH by blast
    have "(Si i \<union> {n}) \<inter> dom (cps_pages ?st) \<subseteq> S \<union> rp_page rp"
      using n(3,6) owned_partsD(3) [OF Si(2), of i] by blast
    then have e3: "store_ext T ?st (cw_store w') (S \<union> rp_page rp)"
      by (rule store_ext_trans [OF e2 ext3, rotated]) blast
    show ?thesis
    proof (cases "r = OK")
      case False
      then show ?thesis using IH e3 tot' by blast
    next
      case rOK: True
      obtain n' S' where n': "root' = root2" "pa_ok m n'"
          "cp_tree m (cw_store w') T l n' ((\<lambda>q. f (i # q))(p' := leaf_update e opt (f (i # p')))) S'"
          "S' \<inter> dom (cps_pages st2) \<subseteq> Si i" "cp_mem (cw_store w') n = (cp_mem st2 n)(i := level_entry m l n')"
      proof -
        obtain n' where "root' = (if l = 6 then n' else root2)"
            "change_result m T l (Slot n i) st2 ((\<lambda>q. f (i # q))(p' := leaf_update e opt (f (i # p'))))
               (Si i) n' (cw_store w')"
          using IH rOK by blast
        then show ?thesis using that Suc.prems(5) unfolding change_result_def by auto
      qed
      have tree3: "cp_tree m (cw_store w') T (Suc l) n (f(p := leaf_update e opt (f p)))
          (insert n (\<Union>j. (Si(i := S')) j))"
        using subtree_replaced [OF tree2 Si own2 nz2 mm ext3 n'(2-5)] p'(1) by simp
      have n2: "n \<in> dom (cps_pages st2)" using cp_owned_dom [OF own2] .
      have sub: "dom (cps_pages ?st) \<subseteq> dom (cps_pages st2)" using e2 by (simp add: store_ext_def)
      have "S' \<inter> dom (cps_pages ?st) \<subseteq> S"
        using n'(4) sub owned_partsD(3) [OF Si(2), of i] n(3) by blast
      then have "(Si(i := S')) j \<inter> dom (cps_pages ?st) \<subseteq> S" for j
        using owned_partsD(3) [OF Si(2), of j] n(3) by (cases "j = i") auto
      then have "insert n (\<Union>j. (Si(i := S')) j) \<inter> dom (cps_pages ?st) \<subseteq> S"
        using n(6) by blast
      moreover have "cp_mem (cw_store w') pp = (cp_mem ?st pp)(off := level_entry m (Suc l) n)"
        if "rp = Slot pp off" for pp off
      proof -
        have pp: "pp \<in> rp_page rp" using that by (simp add: rp_page_def)
        have "pp \<notin> Si i \<union> {n}" using rp1(2) [OF pp] owned_partsD(3) [OF Si(2), of i] n(2) by blast
        then have "cp_mem (cw_store w') pp = cp_mem st2 pp"
          using store_extD(1) [OF ext3] rp1(3) [OF pp] sub by blast
        then show ?thesis using w2(3) that store_extD(1) [OF ext1 rp1(3) [OF pp]] by simp
      qed
      moreover have "cp_owned (cw_store w') T n" using store_extD(3) [OF ext3 n2] own2 by simp
      ultimately have "change_result m T (Suc l) rp ?st (f(p := leaf_update e opt (f p))) S n (cw_store w')"
        unfolding change_result_def using tree3 n(4) by blast
      then show ?thesis using IH e3 n'(1) tot' unfolding root2_def by blast
    qed
  qed
qed

section \<open>One change\<close>

lemma apply_change_tree:
  assumes ok: "store_ok m (cw_store w) T" and tree: "cp_tree m (cw_store w) T 6 root f S"
    and root: "root = 0 \<or> pa_ok m root"
    and addr: "cp_addressable (wse_ino ent) (wse_file_offset ent)"
    and run: "sivfs_apply_change_checkpoint m w root ent T obs opt = (r, root', obs', w')"
  shows "store_ok m (cw_store w') T \<and> store_ext T (cw_store w) (cw_store w') S \<and>
    (r = OK \<longrightarrow> pa_ok m root' \<and> (\<exists>S'. cp_tree m (cw_store w') T 6 root'
       (f(cp_path (wse_ino ent) (wse_file_offset ent) :=
            leaf_update ent opt (f (cp_path (wse_ino ent) (wse_file_offset ent))))) S')) \<and>
    (\<forall>j. cow_res (j + 7) w obs \<longrightarrow> wse_aligned ent \<longrightarrow> r = OK \<and> cow_res j w' obs')"
proof -
  let ?p = "cp_path (wse_ino ent) (wse_file_offset ent)"
  obtain offs where it: "sivfs_checkpoint_iter_init (wse_ino ent) (wse_file_offset ent) =
        Inr \<lparr>iter_offsets = offs, iter_cur_i = 0\<rparr>" and offs: "map ucast offs = ?p"
    using iter_init_ok [OF addr] by blast
  let ?it = "\<lparr>iter_offsets = offs, iter_cur_i = 0\<rparr>"
  have loop: "change_loop m T ent opt 6 (RootVar root) ?it root obs w = (r, root', obs', w')"
    using run it by (simp add: sivfs_apply_change_checkpoint_def level_consts)
  have rd: "root_ptr_read (cw_store w) (RootVar root) = root" by (simp add: root_ptr_read_def)
  have "mmu_ok m" using ok by (simp add: store_ok_def)
  then have h3: "root = sivfs_pxd_to_pa m (root_ptr_read (cw_store w) (RootVar root))"
    using root entry_pa(3) rd by (auto simp: sivfs_pxd_to_pa_def)
  have h4: "root_ptr_read (cw_store w) (RootVar root) \<noteq> 0 \<longrightarrow> root \<noteq> 0" using rd by simp
  have h6: "\<forall>pp \<in> rp_page (RootVar root). cp_owned (cw_store w) T pp \<and> pp \<notin> S" by (simp add: rp_page_def)
  have h7: "map ucast (drop (iter_cur_i ?it) (iter_offsets ?it)) = ?p" using offs by simp
  have e: "S \<union> rp_page (RootVar root) = S" by (simp add: rp_page_def)
  have s7: "j + Suc 6 = j + 7" for j :: nat by simp
  show ?thesis
    using change_loop_tree [OF ok tree h3 h4 order_refl h6 h7 length_cp_path loop] unfolding e change_result_def s7
    by auto
qed

lemma cp_path_inj:
  assumes "cp_addressable i f" and "cp_addressable j g" and "cp_path i f = cp_path j g"
  shows "i = j \<and> f div PAGE_SIZE = g div PAGE_SIZE"
proof -
  have "cp_digits i = cp_digits j" "cp_digits (f div PAGE_SIZE) = cp_digits (g div PAGE_SIZE)"
    using assms(3) by (simp_all add: cp_path_def cp_digits_def)
  then show ?thesis using assms(1,2) cp_digits_inj unfolding cp_addressable_def by blast
qed

lemma apply_change_total:
  assumes "store_ok m (cw_store w) T" and "cp_tree m (cw_store w) T 6 root f S"
    and "root = 0 \<or> pa_ok m root" and "cp_addressable (wse_ino ent) (wse_file_offset ent)"
    and "wse_aligned ent" and "cow_res 7 w obs"
  shows "\<exists>root' obs' w'. sivfs_apply_change_checkpoint m w root ent T obs opt = (OK, root', obs', w')"
proof -
  obtain r root' obs' w' where run:
      "sivfs_apply_change_checkpoint m w root ent T obs opt = (r, root', obs', w')"
    by (metis surj_pair)
  have "cow_res (0 + 7) w obs" using assms(6) by simp
  then have "r = OK"
    using apply_change_tree [OF assms(1-4) run, THEN conjunct2, THEN conjunct2, THEN conjunct2] assms(5)
    by blast
  then show ?thesis using run by blast
qed

end
