(* ===== verification/Zero_Pages.thy ===== *)
theory Zero_Pages
  imports Cow
begin

text \<open>
  The shared zero pages (\<^verbatim>\<open>_sivfs_init_zero_checkpoint_pages\<close>, \<^verbatim>\<open>kern/sivfs_checkpoints.c\<close>): from a store that
  holds the kernel's zero page only, the initialisation establishes the store invariant \<open>store_ok\<close>
  under which checkpoints are made, and an empty root then reads as zeros everywhere.
\<close>

lemma cp_tree_zero_pxd: "cp_tree m (st\<lparr>cps_zero_pxd := z\<rparr>) T l a f S \<longleftrightarrow> cp_tree m st T l a f S"
proof (induction l arbitrary: a f S)
  case 0
  show ?case
    by (simp add: cp_level_def cp_mem_def cp_owned_def sivfs_is_zero_page_def sivfs_checkpoint_page_to_pginfo_def)
next
  case (Suc l)
  have "cp_level (st\<lparr>cps_zero_pxd := z\<rparr>) = cp_level st" "cp_mem (st\<lparr>cps_zero_pxd := z\<rparr>) = cp_mem st"
    "cp_owned (st\<lparr>cps_zero_pxd := z\<rparr>) = cp_owned st" "cp_child m (st\<lparr>cps_zero_pxd := z\<rparr>) = cp_child m st"
    by (simp_all add: fun_eq_iff cp_level_def cp_mem_def cp_owned_def cp_child_def sivfs_is_zero_page_def
        sivfs_checkpoint_page_to_pginfo_def)
  then show ?case using Suc by (simp add: owned_parts_def)
qed

definition zero_upto :: "mmu \<Rightarrow> sivfs_ts \<Rightarrow> nat \<Rightarrow> cp_store \<Rightarrow> bool" where
  "zero_upto m T k st \<longleftrightarrow> mmu_ok m \<and> T \<noteq> 0 \<and> 0 \<notin> dom (cps_pages st) \<and> infos_ok st \<and> supply_ok m st \<and>
     cps_zero_pxd st 0 = cps_zero_page st \<and>
     (\<forall>l < k. pa_ok m (cps_zero_pxd st l) \<and> cp_tree m st T l (cps_zero_pxd st l) (\<lambda>_ _. 0) {})"

lemma zero_upto_4: "zero_upto m T 4 st \<longleftrightarrow> store_ok m st T"
  by (auto simp: zero_upto_def store_ok_def zero_ok_def)

definition zero_info :: "nat \<Rightarrow> sivfs_checkpoint_pginfo" where
  "zero_info l = \<lparr>pgi_checkpoint_ts = 0, pgi_obsoleted_ts = SIVFS_INVALID_TS, pgi_level = l,
     pgi_is_pmd = False, pgi_is_pte = False, pgi_is_zero_page = True, pgi_is_noprivate = False, pgi_order = 0\<rparr>"

definition zero_step :: "mmu \<Rightarrow> nat \<Rightarrow> u64 \<Rightarrow> page_grant list \<Rightarrow> cp_store \<Rightarrow> cp_store" where
  "zero_step m k n gs st = st\<lparr>cps_supply := gs, cps_npages := cps_npages st + 1,
     cps_zero_pxd := (cps_zero_pxd st)(k := n), cps_pages := (cps_pages st)(n \<mapsto>
       \<lparr>page_mem = sivfs_mk_zero_checkpoint_page m st k, page_info = Some (zero_info k), page_index = 0,
        page_refct = 1, page_mapct = 0, page_locked = False\<rparr>)\<rparr>"

lemma init_zero_loop_step:
  assumes "cps_supply st = Grant n junk # gs" and "cps_npages st + 1 \<le> SIVFS_MAX_CHECKPOINT_PAGES"
    and "0 < k"
  shows "init_zero_loop m (k # ks) st = init_zero_loop m ks (zero_step m k n gs st)"
proof -
  have k: "k - 1 \<noteq> k" using assms(3) by simp
  show ?thesis using assms k
    by (simp add: sivfs_new_checkpoint_page_def Let_def set_page_info_def set_page_mem_def zero_step_def
        zero_info_def sivfs_mk_zero_checkpoint_page_def)
qed

lemma zero_step_upto:
  assumes z: "zero_upto m T k st" and sup: "cps_supply st = Grant n junk # gs" and k: "0 < k" "k < 4"
  shows "zero_upto m T (Suc k) (zero_step m k n gs st)"
proof -
  let ?st = "zero_step m k n gs st"
  let ?s0 = "?st\<lparr>cps_zero_pxd := cps_zero_pxd st\<rparr>"
  have mm: "mmu_ok m" and T: "T \<noteq> 0" and nz: "0 \<notin> dom (cps_pages st)" and inf: "infos_ok st"
    and zp: "cps_zero_pxd st 0 = cps_zero_page st" using z by (auto simp: zero_upto_def)
  have n: "pa_ok m n" "n \<notin> dom (cps_pages st)" "n \<noteq> 0" "n \<notin> set (grant_addrs gs)"
      "distinct (grant_addrs gs)" "\<forall>pa \<in> set (grant_addrs gs). pa_ok m pa \<and> pa \<notin> dom (cps_pages st)"
    using z sup by (auto simp: zero_upto_def supply_ok_def pa_ok_def)
  have t0: "cp_tree m st T 0 (cps_zero_page st) (\<lambda>_ _. 0) {}" "pa_ok m (cps_zero_page st)"
    using z k(1) zp unfolding zero_upto_def by metis+
  then have nzp: "n \<noteq> cps_zero_page st" using n(2) by (auto simp: pa_ok_def)
  have pi: "sivfs_checkpoint_page_to_pginfo ?st b =
      (if b = n then Some (zero_info k) else sivfs_checkpoint_page_to_pginfo st b)" for b
    by (simp add: zero_step_def sivfs_checkpoint_page_to_pginfo_def)
  have pi0: "sivfs_checkpoint_page_to_pginfo ?s0 b = sivfs_checkpoint_page_to_pginfo ?st b" for b
    by (simp add: sivfs_checkpoint_page_to_pginfo_def)
  have zpg: "cps_zero_page ?s0 = cps_zero_page st" "cps_zero_page ?st = cps_zero_page st"
    "cps_zero_pxd ?st = (cps_zero_pxd st)(k := n)" by (simp_all add: zero_step_def)
  have "cp_mem ?s0 b = cp_mem st b \<and> cp_level ?s0 b = cp_level st b \<and> cp_owned ?s0 T b = cp_owned st T b"
    if "b \<in> dom (cps_pages st)" for b
    using that n(2) pi [of b] pi0 [of b] zpg
    by (auto simp: cp_mem_def cp_level_def cp_owned_def sivfs_is_zero_page_def zero_step_def)
  then have ext: "store_ext T st ?s0 {}" using nz n(3) by (auto simp: store_ext_def zero_step_def)
  have old: "cp_tree m ?st T l (cps_zero_pxd st l) (\<lambda>_ _. 0) {}" if "l < k" for l
    using cp_tree_frame [OF ext nz, of m l "cps_zero_pxd st l" "\<lambda>_ _. 0" "{}"] z that
    by (simp add: zero_upto_def cp_tree_zero_pxd)
  obtain j where j: "k = Suc j" using k(1) by (cases k) auto
  have not_owned: "\<not> cp_owned ?st T n"
    using pi [of n] by (simp add: cp_owned_def sivfs_is_zero_page_def zero_info_def)
  have mem: "cp_mem ?st n = sivfs_mk_zero_checkpoint_page m st k" by (simp add: cp_mem_def zero_step_def)
  have pj: "pa_ok m (cps_zero_pxd st j)" using z j by (simp add: zero_upto_def)
  have child: "cp_child m ?st n i = cps_zero_pxd st j" for i
    using mem entry_pa [OF mm pj] k(2) zp j
    by (auto simp: cp_child_def sivfs_mk_zero_checkpoint_page_def SIVFS_CHECKPOINT_FOFFSET_LEVELS_def)
  have "cp_tree m ?st T (Suc j) n (\<lambda>_ _. 0) {}"
  proof (rule cp_tree_SucI [where Si = "\<lambda>_. {}"])
    show "n \<in> dom (cps_pages ?st)" by (simp add: zero_step_def)
    show "cp_level ?st n = Suc j" using pi [of n] nzp zpg j by (simp add: cp_level_def zero_info_def)
    show "cp_child m ?st n i \<noteq> 0" for i using child pj by (simp add: pa_ok_def)
    show "cp_tree m ?st T j (cp_child m ?st n i) (\<lambda>_. \<lambda>_. 0) {}" for i using child old j by simp
    show "owned_parts ?st T n (\<lambda>_. {}) {}" using not_owned by (simp add: owned_parts_def)
  qed
  then have "pa_ok m (cps_zero_pxd ?st l) \<and> cp_tree m ?st T l (cps_zero_pxd ?st l) (\<lambda>_ _. 0) {}" if "l < Suc k" for l
    using that j n(1) zpg old [of l] z by (cases "l = k") (auto simp: zero_upto_def)
  moreover have "infos_ok ?st" using inf pi zpg by (auto simp: infos_ok_def zero_step_def)
  moreover have "supply_ok m ?st" using n by (auto simp: supply_ok_def zero_step_def)
  moreover have "0 \<notin> dom (cps_pages ?st)" using nz n(3) by (simp add: zero_step_def)
  ultimately show ?thesis unfolding zero_upto_def using mm T zp zpg k(1) by simp
qed

text \<open>
  The state at module load: the only page is the kernel's zero page, which the module did not allocate.
\<close>

definition boot_store :: "mmu \<Rightarrow> cp_store \<Rightarrow> bool" where
  "boot_store m st \<longleftrightarrow> mmu_ok m \<and> supply_ok m st \<and> pa_ok m (cps_zero_page st) \<and>
     dom (cps_pages st) = {cps_zero_page st} \<and> cp_mem st (cps_zero_page st) = (\<lambda>_. 0) \<and> cps_npages st = 0"

lemma boot_zero_upto:
  assumes "boot_store m st" and "T \<noteq> 0"
  shows "zero_upto m T 1 (st\<lparr>cps_zero_pxd := (cps_zero_pxd st)(0 := cps_zero_page st)\<rparr>)"
proof -
  let ?st = "st\<lparr>cps_zero_pxd := (cps_zero_pxd st)(0 := cps_zero_page st)\<rparr>"
  have "cp_tree m st T 0 (cps_zero_page st) (\<lambda>_ _. 0) {}"
    using assms by (auto simp: boot_store_def cp_level_def cp_owned_def sivfs_is_zero_page_def)
  then have "cp_tree m ?st T 0 (cps_zero_page st) (\<lambda>_ _. 0) {}" by (simp only: cp_tree_zero_pxd)
  moreover have "infos_ok ?st" using assms(1) by (simp add: infos_ok_def boot_store_def)
  moreover have "supply_ok m ?st" using assms(1) by (auto simp: supply_ok_def boot_store_def)
  moreover have "0 \<notin> dom (cps_pages ?st)" using assms(1) by (auto simp: boot_store_def pa_ok_def)
  ultimately show ?thesis using assms unfolding zero_upto_def boot_store_def by (simp del: cp_tree.simps)
qed

lemma init_zero_pages_ok:
  assumes "boot_store m st" and "cps_supply st = Grant a1 j1 # Grant a2 j2 # Grant a3 j3 # gs"
    and "T \<noteq> 0"
  shows "\<exists>st'. sivfs_init_zero_checkpoint_pages m st = (OK, st') \<and> store_ok m st' T \<and>
     cps_supply st' = gs \<and> cps_npages st' = 3 \<and>
     cps_zero_pxd st' 1 = a1 \<and> cps_zero_pxd st' 2 = a2 \<and> cps_zero_pxd st' 3 = a3"
proof -
  define s0 where "s0 = st\<lparr>cps_zero_pxd := (cps_zero_pxd st)(0 := cps_zero_page st)\<rparr>"
  define s1 where "s1 = zero_step m 1 a1 (Grant a2 j2 # Grant a3 j3 # gs) s0"
  define s2 where "s2 = zero_step m 2 a2 (Grant a3 j3 # gs) s1"
  define s3 where "s3 = zero_step m 3 a3 gs s2"
  note d = s1_def s2_def s3_def s0_def
  have max: "3 \<le> SIVFS_MAX_CHECKPOINT_PAGES" by (simp add: SIVFS_MAX_CHECKPOINT_PAGES_def)
  have sup: "cps_supply s0 = Grant a1 j1 # Grant a2 j2 # Grant a3 j3 # gs"
    "cps_supply s1 = Grant a2 j2 # Grant a3 j3 # gs" "cps_supply s2 = Grant a3 j3 # gs"
    "cps_supply s3 = gs" "cps_npages s0 = 0" "cps_npages s1 = 1" "cps_npages s2 = 2" "cps_npages s3 = 3"
    using assms(1,2) by (simp_all add: d zero_step_def boot_store_def)
  have lv: "[1 ..< SIVFS_CHECKPOINT_FOFFSET_LEVELS] = [1, 2, 3]"
    by (simp add: SIVFS_CHECKPOINT_FOFFSET_LEVELS_def upt_rec)
  have "sivfs_init_zero_checkpoint_pages m st = (OK, s3)"
    unfolding sivfs_init_zero_checkpoint_pages_def lv s0_def [symmetric]
  proof -
    have "init_zero_loop m [1, 2, 3] s0 = init_zero_loop m [2, 3] s1"
      unfolding s1_def by (rule init_zero_loop_step [OF sup(1)]) (use sup max in simp_all)
    also have "\<dots> = init_zero_loop m [3] s2"
      unfolding s2_def by (rule init_zero_loop_step [OF sup(2)]) (use sup max in simp_all)
    also have "\<dots> = init_zero_loop m [] s3"
      unfolding s3_def by (rule init_zero_loop_step [OF sup(3)]) (use sup max in simp_all)
    finally show "init_zero_loop m [1, 2, 3] s0 = (OK, s3)" by simp
  qed
  moreover have "zero_upto m T 1 s0" using boot_zero_upto [OF assms(1,3)] by (simp add: s0_def)
  then have "zero_upto m T (Suc 1) s1" using zero_step_upto [OF _ sup(1), of m T 1] by (simp add: s1_def)
  then have "zero_upto m T (Suc 2) s2" using zero_step_upto [OF _ sup(2), of m T 2] by (simp add: s2_def numeral_2_eq_2)
  then have "zero_upto m T (Suc 3) s3" using zero_step_upto [OF _ sup(3), of m T 3] by (simp add: s3_def numeral_3_eq_3 numeral_2_eq_2)
  then have "store_ok m s3 T" using zero_upto_4 [of m T s3] by (simp add: numeral_eq_Suc)
  moreover have "cps_zero_pxd s3 1 = a1" "cps_zero_pxd s3 2 = a2" "cps_zero_pxd s3 3 = a3"
    by (simp_all add: d zero_step_def)
  ultimately show ?thesis using sup by blast
qed

section \<open>An example store\<close>

definition ex_mmu :: mmu where
  "ex_mmu = \<lparr>PTE_PFN_MASK = 4503599627366400, PAGE_TABLE_FLAGS = 103, PAGE_READONLY_EXEC = 37\<rparr>"

definition ex_boot :: cp_store where
  "ex_boot = \<lparr>cps_pages = [4096 \<mapsto> \<lparr>page_mem = (\<lambda>_. 0), page_info = None, page_index = 0, page_refct = 1,
       page_mapct = 0, page_locked = False\<rparr>], cps_npages = 0,
     cps_supply = Grant 8192 (\<lambda>_. 7) # Grant 12288 (\<lambda>_. 7) # Grant 16384 (\<lambda>_. 7) #
       [Grant 20480 (\<lambda>_. 7), Grant 24576 (\<lambda>_. 7), Grant 28672 (\<lambda>_. 7), Grant 32768 (\<lambda>_. 7),
        Grant 36864 (\<lambda>_. 7), Grant 40960 (\<lambda>_. 7), Grant 45056 (\<lambda>_. 7)],
     cps_zero_page = 4096, cps_zero_pxd = (\<lambda>_. 0), cps_zero_refcount = 0\<rparr>"

definition ex_world :: "cp_store \<Rightarrow> cp_world" where
  "ex_world st = \<lparr>cw_store = st, cw_inodes = (\<lambda>_. None),
     cw_checkpoints = \<lparr>latest_cp_checkpoint = 0, latest_cp_ts = 0, latest_checkpoint_published = 0,
       checkpoints_reverse = [], obsoleted_entries = example_stack [], gc_blocked_entries = []\<rparr>,
     cw_allocs = [], cw_new_inodes = [], cw_nCheckpointPagesNew = 0\<rparr>"

definition ex_write :: sivfs_writeset_entry where
  "ex_write = \<lparr>wse_ino = 5, wse_file_offset = 4104, wse_address = 0, wse_stream_control = 0, wse_value = 42\<rparr>"

lemma boot_ex: "boot_store ex_mmu ex_boot"
  by (simp add: boot_store_def ex_boot_def ex_mmu_def mmu_ok_def supply_ok_def pa_ok_def cp_mem_def
      SIVFS_GC_ENTRY_FLAGS_def)

lemma ex_init:
  "\<exists>st. sivfs_init_zero_checkpoint_pages ex_mmu ex_boot = (OK, st) \<and> store_ok ex_mmu st 1 \<and>
     cow_res 7 (ex_world st) (Some (example_stack []))"
proof -
  obtain st where st: "sivfs_init_zero_checkpoint_pages ex_mmu ex_boot = (OK, st)" "store_ok ex_mmu st 1"
      "cps_supply st = [Grant 20480 (\<lambda>_. 7), Grant 24576 (\<lambda>_. 7), Grant 28672 (\<lambda>_. 7), Grant 32768 (\<lambda>_. 7),
        Grant 36864 (\<lambda>_. 7), Grant 40960 (\<lambda>_. 7), Grant 45056 (\<lambda>_. 7)]" "cps_npages st = 3"
    using init_zero_pages_ok [OF boot_ex, of 8192 "\<lambda>_. 7" 12288 "\<lambda>_. 7" 16384 "\<lambda>_. 7" _ 1]
    by (auto simp: ex_boot_def)
  then have "cow_res 7 (ex_world st) (Some (example_stack []))"
    by (simp add: cow_res_def ex_world_def is_grant_def SIVFS_MAX_CHECKPOINT_PAGES_def example_stack_def stack_inv_def
        stack_elems_def)
  then show ?thesis using st by blast
qed

lemma ex_write_ok: "cp_addressable (wse_ino ex_write) (wse_file_offset ex_write)" "wse_aligned ex_write"
  by (simp_all add: ex_write_def cp_addressable_def wse_aligned_def PAGE_SIZE_def)

lemma ex_empty_tree:
  assumes "store_ok m (cw_store w) T"
  shows "cp_tree m (cw_store w) T 6 0 (\<lambda>_ _. 0) {}"
  using cp_tree_empty assms by (simp add: store_ok_def)

section \<open>Properties\<close>

text \<open>
  Initialisation of the zero pages.  With three pages available, \<^verbatim>\<open>_sivfs_init_zero_checkpoint_pages\<close>
  succeeds and builds zero tables for levels 1 to 3 that make the store fit for checkpoints of every
  timestamp other than 0.
\<close>

theorem init_zero_pages_store_ok:
  assumes "boot_store m st" and "cps_supply st = Grant a1 j1 # Grant a2 j2 # Grant a3 j3 # gs"
    and "T \<noteq> 0"
  shows "\<exists>st'. sivfs_init_zero_checkpoint_pages m st = (OK, st') \<and> store_ok m st' T \<and>
     cps_supply st' = gs \<and> cps_npages st' = 3 \<and>
     cps_zero_pxd st' 1 = a1 \<and> cps_zero_pxd st' 2 = a2 \<and> cps_zero_pxd st' 3 = a3"
  using init_zero_pages_ok [OF assms] .

theorem init_zero_pages_store_ok_witness:
  "\<exists>st. sivfs_init_zero_checkpoint_pages ex_mmu ex_boot = (OK, st) \<and> store_ok ex_mmu st 1 \<and>
     cps_zero_pxd st 3 = 16384"
  using init_zero_pages_store_ok [OF boot_ex, of 8192 "\<lambda>_. 7" 12288 "\<lambda>_. 7" 16384 "\<lambda>_. 7" _ 1]
  by (auto simp: ex_boot_def)

text \<open>
  Copy-on-write.  One call of \<^verbatim>\<open>sivfs_apply_change_checkpoint\<close> that succeeds gives a root from which
  every page of every file reads as before, except that the written word of the written page has the
  new value.
\<close>

theorem apply_change_writes_one_word:
  assumes "store_ok m (cw_store w) T" and "cp_tree m (cw_store w) T 6 (cp_root cp) f S"
    and "cp_root cp = 0 \<or> pa_ok m (cp_root cp)"
    and "cp_addressable (wse_ino ent) (wse_file_offset ent)"
    and "sivfs_apply_change_checkpoint m w (cp_root cp) ent T obs 0 = (OK, root', obs', w')"
    and "cp_addressable i off" and "off mod PAGE_SIZE = 0"
    and "sivfs_read_checkpoint m (cw_store w) mem PAGE_SIZE (Some cp) i off = (OK, old)"
  shows "sivfs_read_checkpoint m (cw_store w') mem PAGE_SIZE (Some (cp\<lparr>cp_root := root'\<rparr>)) i off =
    (OK, if i = wse_ino ent \<and> off div PAGE_SIZE = wse_file_offset ent div PAGE_SIZE
         then old(ucast (wse_file_offset ent mod PAGE_SIZE div 8) := wse_value ent) else old)"
proof -
  let ?p = "cp_path (wse_ino ent) (wse_file_offset ent)"
  obtain S' where S': "store_ok m (cw_store w') T"
      "cp_tree m (cw_store w') T 6 root' (f(?p := leaf_update ent 0 (f ?p))) S'"
    using apply_change_tree [OF assms(1-5)] by auto
  have nz: "0 \<notin> dom (cps_pages (cw_store w))" "0 \<notin> dom (cps_pages (cw_store w'))"
    using assms(1) S'(1) by (auto simp: store_ok_def)
  have old: "old = f (cp_path i off)"
    using read_checkpoint_tree [OF nz(1) assms(2,6,7)] assms(8) by simp
  have "sivfs_read_checkpoint m (cw_store w') mem PAGE_SIZE (Some (cp\<lparr>cp_root := root'\<rparr>)) i off =
      (OK, (f(?p := leaf_update ent 0 (f ?p))) (cp_path i off))"
    using read_checkpoint_tree [OF nz(2) _ assms(6,7), of m T "cp\<lparr>cp_root := root'\<rparr>"] S'(2) by simp
  moreover have "cp_path i off = ?p \<longleftrightarrow> i = wse_ino ent \<and> off div PAGE_SIZE = wse_file_offset ent div PAGE_SIZE"
    using cp_path_inj [OF assms(6,4)] by (auto simp: cp_path_def)
  ultimately show ?thesis using old by (auto simp: leaf_update_def)
qed

theorem apply_change_writes_one_word_witness:
  "\<exists>st root' obs' w'. sivfs_init_zero_checkpoint_pages ex_mmu ex_boot = (OK, st) \<and>
     sivfs_apply_change_checkpoint ex_mmu (ex_world st) 0 ex_write 1 (Some (example_stack [])) 0 =
       (OK, root', obs', w') \<and>
     sivfs_read_checkpoint ex_mmu (cw_store w') (\<lambda>_. 9) PAGE_SIZE
       (Some \<lparr>cp_root = root', cp_ts = 1, cp_obsoleted_ts = SIVFS_INVALID_TS\<rparr>) 5 4096 =
       (OK, (\<lambda>_. 0)(1 := 42))"
proof -
  let ?cp = "\<lparr>cp_root = 0, cp_ts = 1, cp_obsoleted_ts = SIVFS_INVALID_TS\<rparr>"
  obtain st where st: "sivfs_init_zero_checkpoint_pages ex_mmu ex_boot = (OK, st)"
      "store_ok ex_mmu (cw_store (ex_world st)) 1" "cow_res 7 (ex_world st) (Some (example_stack []))"
    using ex_init by (auto simp: ex_world_def)
  note tree = ex_empty_tree [OF st(2)]
  obtain root' obs' w' where run: "sivfs_apply_change_checkpoint ex_mmu (ex_world st) (cp_root ?cp) ex_write 1
      (Some (example_stack [])) 0 = (OK, root', obs', w')"
    using apply_change_total [OF st(2) tree _ ex_write_ok st(3), of 0] by auto
  have addr: "cp_addressable 5 4096" "(4096::u64) mod PAGE_SIZE = 0"
    by (simp_all add: cp_addressable_def PAGE_SIZE_def)
  have nz: "0 \<notin> dom (cps_pages (cw_store (ex_world st)))" using st(2) by (simp add: store_ok_def)
  have old: "sivfs_read_checkpoint ex_mmu (cw_store (ex_world st)) (\<lambda>_. 9) PAGE_SIZE (Some ?cp) 5 4096 = (OK, \<lambda>_. 0)"
    using read_checkpoint_tree [OF nz, of ex_mmu 1 ?cp "\<lambda>_ _. 0" "{}"] tree addr by simp
  have "sivfs_read_checkpoint ex_mmu (cw_store w') (\<lambda>_. 9) PAGE_SIZE (Some (?cp\<lparr>cp_root := root'\<rparr>)) 5 4096 =
      (OK, (\<lambda>_. 0)(1 := 42))"
    using apply_change_writes_one_word [OF st(2) _ _ ex_write_ok(1) run addr old, of "\<lambda>_ _. 0" "{}"] tree
    by (simp add: ex_write_def PAGE_SIZE_def)
  then show ?thesis using st(1) run by auto
qed

text \<open>
  Isolation of older checkpoints.  Whatever its outcome, a call of
  \<^verbatim>\<open>sivfs_apply_change_checkpoint\<close> for timestamp \<open>T\<close> changes no page that any other checkpoint (one whose
  tree holds no page of timestamp \<open>T\<close>) reads.
\<close>

theorem apply_change_keeps_older_checkpoints:
  assumes "store_ok m (cw_store w) T" and "cp_tree m (cw_store w) T 6 root f S"
    and "root = 0 \<or> pa_ok m root" and "cp_addressable (wse_ino ent) (wse_file_offset ent)"
    and "sivfs_apply_change_checkpoint m w root ent T obs opt = (r, root', obs', w')"
    and "cp_tree m (cw_store w) T 6 (cp_root old) g {}"
    and "cp_addressable i off" and "off mod PAGE_SIZE = 0"
  shows "sivfs_read_checkpoint m (cw_store w') mem PAGE_SIZE (Some old) i off =
         sivfs_read_checkpoint m (cw_store w) mem PAGE_SIZE (Some old) i off"
proof -
  have S': "store_ok m (cw_store w') T" "store_ext T (cw_store w) (cw_store w') S"
    using apply_change_tree [OF assms(1-5)] by auto
  have nz: "0 \<notin> dom (cps_pages (cw_store w))" "0 \<notin> dom (cps_pages (cw_store w'))"
    using assms(1) S'(1) by (auto simp: store_ok_def)
  have "cp_tree m (cw_store w') T 6 (cp_root old) g {}"
    using cp_tree_frame [OF S'(2) nz(1) _ assms(6)] cp_tree_owned [OF assms(2)] by blast
  then show ?thesis
    using read_checkpoint_tree [OF nz(1) assms(6-8)] read_checkpoint_tree [OF nz(2) _ assms(7,8)] by simp
qed

theorem apply_change_keeps_older_checkpoints_witness:
  "\<exists>st r root' obs' w'. sivfs_init_zero_checkpoint_pages ex_mmu ex_boot = (OK, st) \<and>
     sivfs_apply_change_checkpoint ex_mmu (ex_world st) 0 ex_write 1 (Some (example_stack [])) 0 =
       (r, root', obs', w') \<and>
     sivfs_read_checkpoint ex_mmu (cw_store w') (\<lambda>_. 9) PAGE_SIZE
       (Some \<lparr>cp_root = 0, cp_ts = 0, cp_obsoleted_ts = 1\<rparr>) 5 4096 = (OK, \<lambda>_. 0)"
proof -
  let ?cp = "\<lparr>cp_root = 0, cp_ts = 0, cp_obsoleted_ts = 1\<rparr>"
  obtain st where st: "sivfs_init_zero_checkpoint_pages ex_mmu ex_boot = (OK, st)"
      "store_ok ex_mmu (cw_store (ex_world st)) 1"
    using ex_init by (auto simp: ex_world_def)
  note tree = ex_empty_tree [OF st(2)]
  obtain r root' obs' w' where run: "sivfs_apply_change_checkpoint ex_mmu (ex_world st) 0 ex_write 1
      (Some (example_stack [])) 0 = (r, root', obs', w')" by (metis surj_pair)
  have addr: "cp_addressable 5 4096" "(4096::u64) mod PAGE_SIZE = 0"
    by (simp_all add: cp_addressable_def PAGE_SIZE_def)
  have nz: "0 \<notin> dom (cps_pages (cw_store (ex_world st)))" using st(2) by (simp add: store_ok_def)
  have old: "sivfs_read_checkpoint ex_mmu (cw_store (ex_world st)) (\<lambda>_. 9) PAGE_SIZE (Some ?cp) 5 4096 = (OK, \<lambda>_. 0)"
    using read_checkpoint_tree [OF nz, of ex_mmu 1 ?cp "\<lambda>_ _. 0" "{}"] tree addr by simp
  then show ?thesis
    using apply_change_keeps_older_checkpoints [OF st(2) tree _ ex_write_ok(1) run, of ?cp "\<lambda>_ _. 0"]
      tree addr st(1) run by auto
qed

text \<open>
  Success.  With seven more pages available, room below the limit on checkpoint pages, and a word
  aligned offset, \<^verbatim>\<open>sivfs_apply_change_checkpoint\<close> succeeds; it never reaches a missing page.
\<close>

theorem apply_change_succeeds:
  assumes "store_ok m (cw_store w) T" and "cp_tree m (cw_store w) T 6 root f S"
    and "root = 0 \<or> pa_ok m root" and "cp_addressable (wse_ino ent) (wse_file_offset ent)"
    and "wse_aligned ent" and "cow_res 7 w obs"
  shows "\<exists>root' obs' w'. sivfs_apply_change_checkpoint m w root ent T obs opt = (OK, root', obs', w')"
  using apply_change_total [OF assms] .

theorem apply_change_succeeds_witness:
  "\<exists>st root' obs' w'. sivfs_init_zero_checkpoint_pages ex_mmu ex_boot = (OK, st) \<and>
     sivfs_apply_change_checkpoint ex_mmu (ex_world st) 0 ex_write 1 (Some (example_stack [])) 0 =
       (OK, root', obs', w')"
proof -
  obtain st where st: "sivfs_init_zero_checkpoint_pages ex_mmu ex_boot = (OK, st)"
      "store_ok ex_mmu (cw_store (ex_world st)) 1" "cow_res 7 (ex_world st) (Some (example_stack []))"
    using ex_init by (auto simp: ex_world_def)
  then show ?thesis
    using apply_change_succeeds [OF st(2) ex_empty_tree [OF st(2)] _ ex_write_ok st(3), of 0] by auto
qed

end
