(* ===== verification/Log_Walk.thy ===== *)
theory Log_Walk
  imports Sivfs_Log
begin

text \<open>
  Walking along the log.  Validation, replay, page update and the search for writes all contain the same
  loop: find the entry of a start timestamp, do something with it, follow the \<^verbatim>\<open>next\<close> pointer while the
  next entry is not newer than a stop timestamp.  The locale \<open>log_walk\<close> states what these loops have in
  common; its theorem reduces such a loop to a fold over the list of entries, with enough fuel.  Each
  loop of the code is an interpretation.
\<close>

section \<open>Runs of entries\<close>

text \<open>
  \<open>log_run s xs\<close>: the slots \<open>xs\<close> of the cache are linked in order, their entries are in memory and carry
  the timestamps they are cached under, and the list ends with the last of them.
\<close>

definition log_run :: "sivfs_shared_state \<Rightarrow> u64 rt \<Rightarrow> bool" where
  "log_run s xs \<longleftrightarrow> rt_inv xs \<and> linked (log_mem s) (map snd xs) \<and>
     (\<forall>(i, a) \<in> set xs. a \<noteq> 0 \<and> (\<exists>e. log_mem s a = Some e \<and> le_ts e = i)) \<and>
     (xs \<noteq> [] \<longrightarrow> le_next (the (log_mem s (snd (last xs)))) = 0)"

definition log_entries :: "sivfs_shared_state \<Rightarrow> u64 rt \<Rightarrow> sivfs_log_entry list" where
  "log_entries s xs = map (\<lambda>(i, a). the (log_mem s a)) xs"

lemma log_run_tl: "log_run s (x # xs) \<Longrightarrow> log_run s xs"
  unfolding log_run_def rt_inv_def by (auto dest: linked_tl)

lemma rt_from_lookup:
  assumes "rt_inv t" and "radix_tree_lookup t i = Some a"
  shows "\<exists>xs. rt_from t i = (i, a) # xs \<and> (\<exists>k. rt_from t i = drop k t)"
proof -
  obtain ys zs where t: "t = ys @ (i, a) # zs"
    using assms(2) unfolding radix_tree_lookup_def by (metis map_of_SomeD split_list)
  have "\<forall>y \<in> set ys. fst y < i" using assms(1) unfolding t rt_inv_def by (auto simp: sorted_wrt_append)
  then have "rt_from t i = (i, a) # zs" unfolding t rt_from_def by (subst dropWhile_append2) auto
  moreover have "(i, a) # zs = drop (length ys) t" by (simp add: t)
  ultimately show ?thesis by metis
qed

lemma log_run_drop: "log_run s t \<Longrightarrow> log_run s (drop k t)"
proof (induction k arbitrary: t)
  case (Suc k)
  then show ?case by (cases t) (auto dest: log_run_tl)
qed simp

text \<open>The committed log after timestamp \<open>lo\<close> up to \<open>hi\<close>.\<close>

definition log_between :: "sivfs_shared_state \<Rightarrow> sivfs_ts \<Rightarrow> sivfs_ts \<Rightarrow> sivfs_log_entry list" where
  "log_between s lo hi = log_entries s (takeWhile (\<lambda>(i, _). i \<le> hi) (rt_from (log_cache s) (lo + 1)))"

text \<open>Every cached entry carries the timestamp it is cached under.\<close>

definition log_stamped :: "sivfs_shared_state \<Rightarrow> bool" where
  "log_stamped s \<longleftrightarrow> (\<forall>(i, a) \<in> set (log_cache s). map_option le_ts (log_mem s a) = Some i)"

lemma log_inv_entry:
  assumes "log_inv s" and "(i, a) \<in> set (log_cache s)"
  shows "a \<noteq> 0 \<and> log_mem s a \<noteq> None"
proof -
  obtain cs where cs: "map snd (log_cache s) = concat (map snd cs)" "mem_layout s cs"
    using assms(1) by (auto simp: log_inv_def)
  have "a \<in> set (concat (map snd cs))" using assms(2) cs(1) by (metis imageI list.set_map snd_conv)
  then obtain start as where c: "(start, as) \<in> set cs" "a \<in> set as" by auto
  then have "entry_ok s start a"
    using cs(2) by (fastforce simp: mem_layout_def list_all_iff chunk_ok_def)
  then show ?thesis by (auto simp: entry_ok_def)
qed

lemma log_run_inv:
  assumes "log_inv s" and "log_stamped s"
  shows "log_run s (log_cache s)"
proof -
  have "le_next (the (log_mem s (snd (last (log_cache s))))) = 0" if ne: "log_cache s \<noteq> []"
  proof -
    obtain cs where cs: "map snd (log_cache s) = concat (map snd cs)"
        "if cs = [] then master_log s = sivfs_init_log else cur_ok s (last cs)"
      using assms(1) by (auto simp: log_inv_def)
    then have "cs \<noteq> []" using ne by auto
    then show ?thesis using cs(2) assms(1) ne by (auto simp: cur_ok_def log_inv_def split: prod.splits)
  qed
  then show ?thesis
    using assms log_inv_entry [OF assms(1)] by (fastforce simp: log_run_def log_inv_def log_stamped_def)
qed

section \<open>The common loop\<close>

fun run_entries :: "(sivfs_log_entry \<Rightarrow> 's \<Rightarrow> 's step) \<Rightarrow> sivfs_log_entry list \<Rightarrow> 's \<Rightarrow> rc \<times> 's" where
  "run_entries body [] st = (OK, st)"
| "run_entries body (e # es) st =
     (case body e st of Stop r st' \<Rightarrow> (r, st') | Next st' \<Rightarrow> run_entries body es st')"

locale log_walk =
  fixes s :: sivfs_shared_state
    and stop :: sivfs_ts
    and body :: "sivfs_log_entry \<Rightarrow> 's \<Rightarrow> 's step"
    and loop :: "nat \<Rightarrow> u64 \<Rightarrow> 's \<Rightarrow> rc \<times> 's"
  assumes leaves: "log_mem s a = Some e \<Longrightarrow> le_ts e \<le> stop \<Longrightarrow> body e st = Stop r st' \<Longrightarrow>
      loop (Suc n) a st = (r, st')"
    and ends: "log_mem s a = Some e \<Longrightarrow> le_ts e \<le> stop \<Longrightarrow> body e st = Next st' \<Longrightarrow>
      le_next e = 0 \<or> (\<exists>e'. log_mem s (le_next e) = Some e' \<and> stop < le_ts e') \<Longrightarrow>
      loop (Suc n) a st = (OK, st')"
    and goes_on: "log_mem s a = Some e \<Longrightarrow> le_ts e < stop \<Longrightarrow> body e st = Next st' \<Longrightarrow>
      le_next e \<noteq> 0 \<Longrightarrow> log_mem s (le_next e) = Some e' \<Longrightarrow> le_ts e' \<le> stop \<Longrightarrow>
      loop (Suc n) a st = loop n (le_next e) st'"
begin

lemma walk_run:
  assumes "log_run s ((i, a) # xs)" and "i \<le> stop" and "length ((i, a) # xs) \<le> fuel"
  shows "loop fuel a st = run_entries body (log_entries s (takeWhile (\<lambda>(i, _). i \<le> stop) ((i, a) # xs))) st"
  using assms
proof (induction xs arbitrary: i a fuel st)
  case Nil
  obtain f where f: "fuel = Suc f" using Nil.prems(3) by (cases fuel) auto
  obtain e where e: "log_mem s a = Some e" "le_ts e \<le> stop" "le_next e = 0"
    using Nil.prems(1,2) by (auto simp: log_run_def)
  show ?case using e f leaves [OF e(1,2)] ends [OF e(1,2)] Nil.prems(2)
    by (auto simp: log_entries_def split: step.splits)
next
  case (Cons y xs)
  obtain j b where y: "y = (j, b)" by fastforce
  obtain f where f: "fuel = Suc f" using Cons.prems(3) by (cases fuel) auto
  obtain e where e: "log_mem s a = Some e" "le_ts e = i" "le_next e = b"
    using Cons.prems(1) y by (auto simp: log_run_def)
  obtain e' where e': "log_mem s b = Some e'" "le_ts e' = j" "b \<noteq> 0"
    using Cons.prems(1) y by (auto simp: log_run_def)
  have ij: "i < j" using Cons.prems(1) y by (auto simp: log_run_def rt_inv_def)
  have run': "log_run s ((j, b) # xs)" using log_run_tl [OF Cons.prems(1)] y by simp
  have le: "le_ts e \<le> stop" using e Cons.prems(2) by simp
  show ?case
  proof (cases "body e st")
    case (Stop r st')
    then show ?thesis using leaves [OF e(1) le Stop] e f Cons.prems(2) by (simp add: log_entries_def)
  next
    case (Next st')
    show ?thesis
    proof (cases "j \<le> stop")
      case True
      have "loop f b st' = run_entries body (log_entries s (takeWhile (\<lambda>(i, _). i \<le> stop) ((j, b) # xs))) st'"
        using Cons.IH [OF run' True, of f] Cons.prems(3) f by simp
      moreover have "loop fuel a st = loop f b st'"
        unfolding f e(3) [symmetric] by (rule goes_on [OF e(1) _ Next]) (use e e' ij True in auto)
      ultimately show ?thesis using e Next Cons.prems(2) y by (simp add: log_entries_def)
    next
      case False
      then show ?thesis using ends [OF e(1) le Next, of f] e e' f Cons.prems(2) Next y
        by (auto simp: log_entries_def)
    qed
  qed
qed

lemma walk_from:
  assumes "log_run s (log_cache s)" and "radix_tree_lookup (log_cache s) (lo + 1) \<noteq> None"
    and "lo < stop" and "master_log_deleted_ts s \<le> lo + 1"
  shows "\<exists>a. sivfs_ts_to_log_entry s (lo + 1) (lo + 1) hi = (OK, a) \<and> a \<noteq> 0 \<and>
    loop (Suc (length (log_cache s))) a st = run_entries body (log_between s lo stop) st"
proof -
  obtain a where a: "radix_tree_lookup (log_cache s) (lo + 1) = Some a" using assms(2) by auto
  obtain xs k where xs: "rt_from (log_cache s) (lo + 1) = (lo + 1, a) # xs"
      "rt_from (log_cache s) (lo + 1) = drop k (log_cache s)"
    using rt_from_lookup [OF _ a] assms(1) by (auto simp: log_run_def)
  have run: "log_run s ((lo + 1, a) # xs)" using log_run_drop [OF assms(1), of k] xs by simp
  then have "a \<noteq> 0" by (auto simp: log_run_def)
  have "length ((lo + 1, a) # xs) \<le> Suc (length (log_cache s))"
    using xs by (metis length_drop diff_le_self le_Suc_eq)
  from walk_run [OF run inc_le [OF assms(3)] this] show ?thesis
    using a \<open>a \<noteq> 0\<close> assms(4) xs(1) by (auto simp: sivfs_ts_to_log_entry_def log_between_def)
qed

end

end
