(* ===== verification/Replay.thy ===== *)
theory Replay
  imports Zero_Pages Log_Walk
begin

text \<open>
  Replaying the log onto a checkpoint.  \<open>db_apply\<close> is the abstract database: contents of all pages as a
  function of the path, changed by one word per writeset entry.  The lemmas show that
  \<^verbatim>\<open>_sivfs_make_checkpoint\<close> applies the committed entries of its range of timestamps, in order and each
  once, and that \<^verbatim>\<open>sivfs_make_checkpoint\<close> publishes exactly that database.
\<close>

section \<open>The abstract database\<close>

type_synonym database = "9 word list \<Rightarrow> page_mem"

definition db_write :: "sivfs_writeset_entry \<Rightarrow> database \<Rightarrow> database" where
  "db_write ent f = (let p = cp_path (wse_ino ent) (wse_file_offset ent) in f(p := leaf_update ent 0 (f p)))"

definition ws_list :: "sivfs_writeset \<Rightarrow> sivfs_writeset_entry list" where
  "ws_list ws = snd (ws_for_each (\<lambda>e i acc. Next (acc @ [e])) ws [])"

definition db_apply :: "sivfs_log_entry list \<Rightarrow> database \<Rightarrow> database" where
  "db_apply log f = fold (\<lambda>e f. if le_aborted e then f else fold db_write (ws_list (le_ws e)) f) log f"

definition writable :: "sivfs_writeset_entry \<Rightarrow> bool" where
  "writable ent \<longleftrightarrow> cp_addressable (wse_ino ent) (wse_file_offset ent) \<and> wse_aligned ent"

definition log_entry_ok :: "sivfs_log_entry \<Rightarrow> bool" where
  "log_entry_ok e \<longleftrightarrow> \<not> le_aborted e \<longrightarrow>
     (\<exists>es. ws_repr (le_ws e) es \<and> list_all (\<lambda>(x, _). writable x) es)"

lemma ws_list_repr: "ws_repr ws es \<Longrightarrow> ws_list ws = map fst es"
proof -
  have "snd (ws_run (\<lambda>e i acc. Next (acc @ [e])) es acc) = acc @ map fst es" for acc
    by (induction es arbitrary: acc) auto
  then show "ws_repr ws es \<Longrightarrow> ws_list ws = map fst es" by (simp add: ws_list_def wse_loop_repr)
qed

section \<open>The inner loop\<close>

text \<open>What every outcome keeps: the invariant and all trees without pages of this timestamp.\<close>

definition keeps_trees :: "mmu \<Rightarrow> sivfs_ts \<Rightarrow> cp_store \<Rightarrow> cp_store \<Rightarrow> bool" where
  "keeps_trees m T st st' \<longleftrightarrow> store_ok m st' T \<and>
     (\<forall>l a g. cp_tree m st T l a g {} \<longrightarrow> cp_tree m st' T l a g {})"

lemma keeps_trees_trans: "keeps_trees m T st st1 \<Longrightarrow> keeps_trees m T st1 st2 \<Longrightarrow> keeps_trees m T st st2"
  by (simp add: keeps_trees_def)

lemma keeps_trees_refl: "store_ok m st T \<Longrightarrow> keeps_trees m T st st"
  by (simp add: keeps_trees_def)

definition holds_db :: "mmu \<Rightarrow> sivfs_ts \<Rightarrow> cp_store \<Rightarrow> u64 \<Rightarrow> database \<Rightarrow> bool" where
  "holds_db m T st root f \<longleftrightarrow> (root = 0 \<or> pa_ok m root) \<and> (\<exists>S. cp_tree m st T 6 root f S)"

lemma apply_change_db:
  assumes "store_ok m (cw_store w) T" and "holds_db m T (cw_store w) root f" and "writable ent"
    and "sivfs_apply_change_checkpoint m w root ent T obs 0 = (r, root', obs', w')"
  shows "keeps_trees m T (cw_store w) (cw_store w')"
    and "r = OK \<Longrightarrow> holds_db m T (cw_store w') root' (db_write ent f)"
    and "cow_res (j + 7) w obs \<Longrightarrow> r = OK \<and> cow_res j w' obs'"
proof -
  obtain S where S: "cp_tree m (cw_store w) T 6 root f S" "root = 0 \<or> pa_ok m root"
    using assms(2) by (auto simp: holds_db_def)
  have ad: "cp_addressable (wse_ino ent) (wse_file_offset ent)" "wse_aligned ent"
    using assms(3) by (auto simp: writable_def)
  note res = apply_change_tree [OF assms(1) S ad(1) assms(4)]
  have nz: "0 \<notin> dom (cps_pages (cw_store w))" using assms(1) by (simp add: store_ok_def)
  have ext: "store_ext T (cw_store w) (cw_store w') S" using res by blast
  have "cp_tree m (cw_store w') T l a g {}" if "cp_tree m (cw_store w) T l a g {}" for l a g
    using cp_tree_frame [OF ext nz _ that] cp_tree_owned [OF S(1)] by blast
  then show "keeps_trees m T (cw_store w) (cw_store w')" using res unfolding keeps_trees_def by blast
  show "holds_db m T (cw_store w') root' (db_write ent f)" if "r = OK"
    using res that unfolding holds_db_def db_write_def Let_def by blast
  show "r = OK \<and> cow_res j w' obs'" if "cow_res (j + 7) w obs"
    using res [THEN conjunct2, THEN conjunct2, THEN conjunct2] that ad(2) by blast
qed

lemma apply_ws_body_eq:
  "apply_ws_body m T e info (root, obs, w) =
     (case sivfs_apply_change_checkpoint m w root e T obs 0 of (r, s) \<Rightarrow> if r = OK then Next s else Stop r s)"
  by (auto simp: apply_ws_body_def split: prod.splits rc.splits)

lemma apply_ws_entries:
  assumes "store_ok m (cw_store w) T" and "holds_db m T (cw_store w) root f"
    and "list_all (\<lambda>(x, _). writable x) es"
    and "ws_run (apply_ws_body m T) es (root, obs, w) = (r, root', obs', w')"
  shows "keeps_trees m T (cw_store w) (cw_store w') \<and>
    (r = OK \<longrightarrow> holds_db m T (cw_store w') root' (fold db_write (map fst es) f)) \<and>
    (\<forall>j. cow_res (j + 7 * length es) w obs \<longrightarrow> r = OK \<and> cow_res j w' obs')"
  using assms
proof (induction es arbitrary: w root obs f)
  case Nil
  then show ?case by (auto simp: keeps_trees_refl)
next
  case (Cons x es)
  obtain e xs where x: "x = (e, xs)" by fastforce
  obtain r1 root1 obs1 w1 where ap: "sivfs_apply_change_checkpoint m w root e T obs 0 = (r1, root1, obs1, w1)"
    by (metis surj_pair)
  have wr: "writable e" and wrs: "list_all (\<lambda>(x, _). writable x) es" using Cons.prems(3) x by auto
  note one = apply_change_db [OF Cons.prems(1,2) wr ap]
  show ?case
  proof (cases "r1 = OK")
    case False
    then have eq: "r = r1" "w' = w1"
      using Cons.prems(4) ap x by (simp_all add: apply_ws_body_eq)
    have "\<not> cow_res (j + 7 * length (x # es)) w obs" for j
      using one(3) [of "j + 7 * length es"] False by (auto simp: algebra_simps)
    then show ?thesis using one(1) eq False by blast
  next
    case True
    then have run: "ws_run (apply_ws_body m T) es (root1, obs1, w1) = (r, root', obs', w')"
      using Cons.prems(4) ap x by (simp add: apply_ws_body_eq)
    have ok1: "store_ok m (cw_store w1) T" using one(1) by (simp add: keeps_trees_def)
    note IH = Cons.IH [OF ok1 one(2) [OF True] wrs run]
    have "r = OK \<and> cow_res j w' obs'" if "cow_res (j + 7 * length (x # es)) w obs" for j
      using one(3) [of "j + 7 * length es"] that IH by (auto simp: algebra_simps)
    then show ?thesis using IH keeps_trees_trans [OF one(1)] x by auto
  qed
qed

section \<open>The outer loop\<close>

fun replay_list ::
  "mmu \<Rightarrow> sivfs_ts \<Rightarrow> sivfs_log_entry list \<Rightarrow> u64 \<times> sivfs_stack option \<times> cp_world \<Rightarrow>
   rc \<times> u64 \<times> sivfs_stack option \<times> cp_world" where
  "replay_list m T [] st = (OK, st)"
| "replay_list m T (e # es) st =
     (case (if le_aborted e then (OK, st) else ws_for_each (apply_ws_body m T) (le_ws e) st) of
        (OK, st1) \<Rightarrow> replay_list m T es st1
      | (r, st1) \<Rightarrow> (r, st1))"

text \<open>The writes a list of log entries makes.\<close>

definition n_writes :: "sivfs_log_entry list \<Rightarrow> nat" where
  "n_writes log = sum_list (map (\<lambda>e. if le_aborted e then 0 else length (ws_list (le_ws e))) log)"

lemma replay_list_db:
  assumes "store_ok m (cw_store w) T" and "holds_db m T (cw_store w) root f" and "list_all log_entry_ok log"
    and "replay_list m T log (root, obs, w) = (r, root', obs', w')"
  shows "keeps_trees m T (cw_store w) (cw_store w') \<and>
    (r = OK \<longrightarrow> holds_db m T (cw_store w') root' (db_apply log f)) \<and>
    (\<forall>j. cow_res (j + 7 * n_writes log) w obs \<longrightarrow> r = OK \<and> cow_res j w' obs')"
  using assms
proof (induction log arbitrary: w root obs f)
  case Nil
  then show ?case by (auto simp: keeps_trees_refl db_apply_def n_writes_def)
next
  case (Cons e log)
  show ?case
  proof (cases "le_aborted e")
    case True
    have ok': "list_all log_entry_ok log" using Cons.prems(3) by simp
    have "replay_list m T log (root, obs, w) = (r, root', obs', w')" using Cons.prems(4) True by simp
    from Cons.IH [OF Cons.prems(1,2) ok' this] show ?thesis
      using True by (simp add: db_apply_def n_writes_def)
  next
    case False
    obtain es where es: "ws_repr (le_ws e) es" "list_all (\<lambda>(x, _). writable x) es"
      using Cons.prems(3) False by (auto simp: log_entry_ok_def)
    obtain r1 root1 obs1 w1 where run1: "ws_run (apply_ws_body m T) es (root, obs, w) = (r1, root1, obs1, w1)"
      by (metis surj_pair)
    have each: "ws_for_each (apply_ws_body m T) (le_ws e) (root, obs, w) = (r1, root1, obs1, w1)"
      by (rule trans [OF wse_loop_repr [OF es(1)] run1])
    have wl: "ws_list (le_ws e) = map fst es" using ws_list_repr [OF es(1)] .
    note one = apply_ws_entries [OF Cons.prems(1,2) es(2) run1]
    have nw: "n_writes (e # log) = length es + n_writes log" using False wl by (simp add: n_writes_def)
    show ?thesis
    proof (cases "r1 = OK")
      case bad: False
      then have eq: "r = r1" "w' = w1" using Cons.prems(4) each False by (cases r1; simp)+
      have sp: "j + 7 * n_writes (e # log) = (j + 7 * n_writes log) + 7 * length es" for j
        unfolding nw by (simp add: algebra_simps)
      have "\<not> cow_res (j + 7 * n_writes (e # log)) w obs" for j
        using one [THEN conjunct2, THEN conjunct2, rule_format, of "j + 7 * n_writes log"] bad
        unfolding sp by blast
      then show ?thesis using one eq bad by blast
    next
      case True
      then have run: "replay_list m T log (root1, obs1, w1) = (r, root', obs', w')"
        using Cons.prems(4) each False by simp
      have ok1: "store_ok m (cw_store w1) T" and db1: "holds_db m T (cw_store w1) root1 (fold db_write (map fst es) f)"
        using one True by (simp_all add: keeps_trees_def)
      have ok': "list_all log_entry_ok log" using Cons.prems(3) by simp
      note IH = Cons.IH [OF ok1 db1 ok' run]
      have "r = OK \<and> cow_res j w' obs'" if "cow_res (j + 7 * n_writes (e # log)) w obs" for j
      proof -
        have "cow_res ((j + 7 * n_writes log) + 7 * length es) w obs"
          using that unfolding nw by (simp add: algebra_simps)
        then have "cow_res (j + 7 * n_writes log) w1 obs1" using one by blast
        then show ?thesis using IH by blast
      qed
      moreover have "db_apply (e # log) f = db_apply log (fold db_write (map fst es) f)"
        using False wl by (simp add: db_apply_def)
      ultimately show ?thesis using IH keeps_trees_trans [OF one [THEN conjunct1]] by auto
    qed
  qed
qed

text \<open>The loop of \<^verbatim>\<open>_sivfs_make_checkpoint\<close> is a walk along the log.\<close>

definition replay_body ::
  "mmu \<Rightarrow> sivfs_ts \<Rightarrow> sivfs_log_entry \<Rightarrow> u64 \<times> sivfs_stack option \<times> cp_world \<Rightarrow>
   (u64 \<times> sivfs_stack option \<times> cp_world) step" where
  "replay_body m T e st =
     (case (if le_aborted e then (OK, st) else ws_for_each (apply_ws_body m T) (le_ws e) st) of
        (OK, st1) \<Rightarrow> Next st1 | (r, st1) \<Rightarrow> Stop r st1)"

interpretation replaying: log_walk s T "replay_body m T" "replay_loop m s T" for s T m
proof unfold_locales
  fix a e st r st' n
  assume "log_mem s a = Some e" "le_ts e \<le> T" "replay_body m T e st = Stop r st'"
  then show "replay_loop m s T (Suc n) a st = (r, st')"
    by (cases "le_aborted e") (auto simp: replay_body_def split: prod.splits rc.splits)
next
  fix a e st st' n
  assume "log_mem s a = Some e" "le_ts e \<le> T" "replay_body m T e st = Next st'"
    "le_next e = 0 \<or> (\<exists>e'. log_mem s (le_next e) = Some e' \<and> T < le_ts e')"
  then show "replay_loop m s T (Suc n) a st = (OK, st')"
    by (cases "le_aborted e") (auto simp: replay_body_def split: prod.splits rc.splits)
next
  fix a e st st' n e'
  assume "log_mem s a = Some e" "le_ts e < T" "replay_body m T e st = Next st'"
    "le_next e \<noteq> 0" "log_mem s (le_next e) = Some e'" "le_ts e' \<le> T"
  then show "replay_loop m s T (Suc n) a st = replay_loop m s T n (le_next e) st'"
    by (cases "le_aborted e") (auto simp: replay_body_def split: prod.splits rc.splits)
qed

lemma run_entries_replay: "run_entries (replay_body m T) es st = replay_list m T es st"
  by (induction es arbitrary: st) (auto simp: replay_body_def split: prod.splits rc.splits)

lemma replay_log_list:
  assumes "log_run s (log_cache s)" and "radix_tree_lookup (log_cache s) (lo + 1) \<noteq> None"
    and "lo < hi" and "master_log_deleted_ts s \<le> lo + 1"
  shows "replay_log_onto_root m s lo hi st = replay_list m hi (log_between s lo hi) st"
proof -
  obtain a where "sivfs_ts_to_log_entry s (lo + 1) (lo + 1) hi = (OK, a)" "a \<noteq> 0"
      "replay_loop m s hi (Suc (length (log_cache s))) a st = replay_list m hi (log_between s lo hi) st"
    using replaying.walk_from [OF assms, of hi m st] unfolding run_entries_replay by blast
  then show ?thesis using assms(3) by (auto simp: replay_log_onto_root_def)
qed

section \<open>Publication\<close>

text \<open>Copy-on-write changes no inode and, when obsoleted pages are collected in a stack, no set of checkpoints.\<close>

definition books_kept :: "cp_world \<Rightarrow> sivfs_stack option \<Rightarrow> cp_world \<Rightarrow> sivfs_stack option \<Rightarrow> bool" where
  "books_kept w obs w' obs' \<longleftrightarrow> cw_inodes w' = cw_inodes w \<and>
     (obs \<noteq> None \<longrightarrow> obs' \<noteq> None \<and> cw_checkpoints w' = cw_checkpoints w)"

lemma books_kept_refl: "books_kept w obs w obs"
  by (simp add: books_kept_def)

lemma books_kept_trans: "books_kept w obs w1 obs1 \<Longrightarrow> books_kept w1 obs1 w2 obs2 \<Longrightarrow> books_kept w obs w2 obs2"
  by (auto simp: books_kept_def)

lemma books_kept_store [simp]:
  "books_kept (set_store w st) obs w' obs' = books_kept w obs w' obs'"
  "books_kept w obs (set_store w' st) obs' = books_kept w obs w' obs'"
  "books_kept (count_new_page w) obs w' obs' = books_kept w obs w' obs'"
  "books_kept w obs (count_new_page w') obs' = books_kept w obs w' obs'"
  by (simp_all add: books_kept_def set_store_def count_new_page_def)

lemma on_obsolete_page_books:
  "sivfs_on_obsolete_page w obs p = (r, obs', w') \<Longrightarrow> books_kept w obs w' obs'"
  by (auto simp: sivfs_on_obsolete_page_def sivfs_gc_mark_pages_obsoleted_def next_alloc_def Let_def books_kept_def
      split: option.splits list.splits prod.splits rc.splits sum.splits if_splits)

lemma copy_page_books: "copy_page m w T obs l e = (r, n, obs', w') \<Longrightarrow> books_kept w obs w' obs'"
  using on_obsolete_page_books
  by (fastforce simp: copy_page_def Let_def books_kept_refl
      split: if_splits option.splits prod.splits rc.splits)

lemma change_loop_books:
  "change_loop m T e opt l rp it root obs w = (r, root', obs', w') \<Longrightarrow> books_kept w obs w' obs'"
proof (induction l arbitrary: rp it root obs w)
  case 0
  obtain r1 n obs1 w1 where cp: "copy_page m w T obs 0 (root_ptr_read (cw_store w) rp) = (r1, n, obs1, w1)"
    by (metis surj_pair)
  show ?case using "0.prems" cp copy_page_books [OF cp]
    by (auto split: rc.splits prod.splits)
next
  case (Suc l)
  obtain r1 n obs1 w1 where cp: "copy_page m w T obs (Suc l) (root_ptr_read (cw_store w) rp) = (r1, n, obs1, w1)"
    by (metis surj_pair)
  show ?case
  proof (cases "r1 = OK")
    case True
    then show ?thesis using Suc.prems cp books_kept_trans [OF copy_page_books [OF cp]] Suc.IH
      by (fastforce simp: Let_def)
  next
    case False
    then show ?thesis using Suc.prems cp copy_page_books [OF cp] by (cases r1) auto
  qed
qed

lemma apply_change_books:
  "sivfs_apply_change_checkpoint m w root e T obs opt = (r, root', obs', w') \<Longrightarrow> books_kept w obs w' obs'"
  by (auto simp: sivfs_apply_change_checkpoint_def books_kept_refl dest: change_loop_books split: sum.splits)

lemma ws_run_books:
  "ws_run (apply_ws_body m T) es (root, obs, w) = (r, root', obs', w') \<Longrightarrow> books_kept w obs w' obs'"
proof (induction es arbitrary: root obs w)
  case Nil
  then show ?case by (simp add: books_kept_refl)
next
  case (Cons x es)
  obtain e xs where x: "x = (e, xs)" by fastforce
  obtain r1 root1 obs1 w1 where ap: "sivfs_apply_change_checkpoint m w root e T obs 0 = (r1, root1, obs1, w1)"
    by (metis surj_pair)
  show ?case using Cons.prems ap x books_kept_trans [OF apply_change_books [OF ap]] apply_change_books [OF ap] Cons.IH
    by (auto simp: apply_ws_body_eq split: if_splits)
qed

lemma replay_list_books:
  assumes "list_all log_entry_ok log" and "replay_list m T log (root, obs, w) = (r, root', obs', w')"
  shows "books_kept w obs w' obs'"
  using assms
proof (induction log arbitrary: root obs w)
  case Nil
  then show ?case by (simp add: books_kept_refl)
next
  case (Cons e log)
  show ?case
  proof (cases "le_aborted e")
    case True
    then show ?thesis using Cons by simp
  next
    case False
    obtain es where es: "ws_repr (le_ws e) es" using Cons.prems(1) False by (auto simp: log_entry_ok_def)
    obtain r1 root1 obs1 w1 where run1: "ws_run (apply_ws_body m T) es (root, obs, w) = (r1, root1, obs1, w1)"
      by (metis surj_pair)
    have each: "ws_for_each (apply_ws_body m T) (le_ws e) (root, obs, w) = (r1, root1, obs1, w1)"
      by (rule trans [OF wse_loop_repr [OF es] run1])
    show ?thesis
    proof (cases "r1 = OK")
      case True
      then show ?thesis
        using Cons.prems each False books_kept_trans [OF ws_run_books [OF run1]] Cons.IH [of root1 obs1 w1] by simp
    next
      case bad: False
      then show ?thesis using Cons.prems each False ws_run_books [OF run1] by (cases r1) auto
    qed
  qed
qed

lemma gc_mark_pages_frame:
  "sivfs_gc_mark_pages_obsoleted w obs c = (r, w') \<Longrightarrow> cw_store w' = cw_store w \<and> cw_inodes w' = cw_inodes w"
  by (auto simp: sivfs_gc_mark_pages_obsoleted_def next_alloc_def Let_def
      split: option.splits list.splits prod.splits rc.splits sum.splits if_splits)

lemma insert_first_frame:
  "checkpoints_insert_first intr w c = (r, w') \<Longrightarrow> cw_store w' = cw_store w \<and> cw_inodes w' = cw_inodes w"
  by (auto simp: checkpoints_insert_first_def next_alloc_def Let_def
      split: option.splits list.splits prod.splits if_splits)

lemma finish_checkpoint_made:
  assumes "finish_checkpoint intr w prior new T obs = (OK, True, w')" and "prior \<noteq> new"
    and "cw_inodes w new = Some ci" and "cp_ts ci = T"
  shows "cw_store w' = cw_store w \<and> cw_inodes w' new = Some ci \<and>
    cw_inodes w' prior = map_option (\<lambda>c. c\<lparr>cp_obsoleted_ts := T\<rparr>) (cw_inodes w prior) \<and>
    (\<forall>c. c \<noteq> prior \<longrightarrow> cw_inodes w' c = cw_inodes w c) \<and>
    latest_cp_checkpoint (cw_checkpoints w') = new \<and> latest_cp_ts (cw_checkpoints w') = T \<and>
    latest_checkpoint_published (cw_checkpoints w') = T"
proof -
  obtain r1 w1 where 1: "checkpoints_insert_first intr w new = (r1, w1)" by fastforce
  have r1: "r1 = OK" using assms(1) 1 by (cases r1) (auto simp: finish_checkpoint_def)
  define w2 where "w2 = w1\<lparr>cw_inodes := (cw_inodes w1)(prior :=
      map_option (\<lambda>c. c\<lparr>cp_obsoleted_ts := T\<rparr>) (cw_inodes w1 prior))\<rparr>"
  obtain r3 w3 where 3: "sivfs_gc_mark_pages_obsoleted w2 obs prior = (r3, w3)" by fastforce
  have r3: "r3 = OK" using assms(1) 1 r1 3
    by (cases r3) (auto simp: finish_checkpoint_def w2_def Let_def split: prod.splits rc.splits)
  have fin: "checkpoints_insert_finish w3 new = (OK, w')"
    using assms(1) 1 r1 3 r3 by (auto simp: finish_checkpoint_def w2_def Let_def split: prod.splits)
  note f = insert_first_frame [OF 1] gc_mark_pages_frame [OF 3]
  have "cw_inodes w3 new = Some ci" using f assms(2,3) by (simp add: w2_def)
  then show ?thesis
    using fin f assms(2-4) by (auto simp: checkpoints_insert_finish_def w2_def Let_def split: option.splits)
qed

lemma make_checkpoint_cases:
  assumes run: "sivfs_make_checkpoint m has inode_ok intr s w = (OK, True, w')"
    and prior: "cw_inodes w (latest_cp_checkpoint (cw_checkpoints w)) = Some pi"
  shows "\<exists>new inodes root obs w3.
    cw_new_inodes w = new # inodes \<and>
    replay_log_onto_root m s (cp_ts pi) (master_ts s)
      (cp_root pi, Some \<lparr>stack_size = 0, stack_capacity = 0, stack_values = []\<rparr>,
       (snd (next_alloc w))\<lparr>cw_new_inodes := inodes\<rparr>) = (OK, root, obs, w3) \<and>
    finish_checkpoint intr (w3\<lparr>cw_inodes := (cw_inodes w3)(new \<mapsto>
        \<lparr>cp_root = root, cp_ts = master_ts s, cp_obsoleted_ts = SIVFS_INVALID_TS\<rparr>)\<rparr>)
      (latest_cp_checkpoint (cw_checkpoints w)) new (master_ts s) obs = (OK, True, w')"
proof -
  obtain ok w1 where na: "next_alloc w = (ok, w1)" by fastforce
  have w1: "cw_new_inodes w1 = cw_new_inodes w"
    using na by (auto simp: next_alloc_def split: list.splits)
  have ns: "sivfs_new_stack ok = (OK, \<lparr>stack_size = 0, stack_capacity = 0, stack_values = []\<rparr>)" and
    has: "has" and neq: "master_ts s \<noteq> latest_cp_ts (cw_checkpoints w)"
      "latest_cp_checkpoint (cw_checkpoints w) \<noteq> 0" "cp_ts pi = latest_cp_ts (cw_checkpoints w)"
    using run na prior
    by (auto simp: sivfs_make_checkpoint_def sivfs_new_stack_def Let_def split: if_splits prod.splits)
  obtain new inodes where ni: "cw_new_inodes w = new # inodes"
    using run na prior w1 ns has neq
    by (cases "cw_new_inodes w") (auto simp: sivfs_make_checkpoint_def Let_def)
  have io: "inode_ok" using run na prior w1 ns has neq ni
    by (cases inode_ok) (auto simp: sivfs_make_checkpoint_def Let_def)
  obtain r root obs w3 where rp: "replay_log_onto_root m s (cp_ts pi) (master_ts s)
      (cp_root pi, Some \<lparr>stack_size = 0, stack_capacity = 0, stack_values = []\<rparr>,
       w1\<lparr>cw_new_inodes := inodes\<rparr>) = (r, root, obs, w3)" by (metis surj_pair)
  have "r = OK" using run na prior w1 ns has neq ni io rp
    by (cases "r = OK") (auto simp: sivfs_make_checkpoint_def Let_def)
  then show ?thesis using run na prior w1 ns has neq ni io rp
    by (auto simp: sivfs_make_checkpoint_def Let_def)
qed

lemma make_checkpoint_db:
  assumes ok: "store_ok m (cw_store w) (master_ts s)"
    and prior: "cw_inodes w (latest_cp_checkpoint (cw_checkpoints w)) = Some pi"
    and tree: "cp_tree m (cw_store w) (master_ts s) 6 (cp_root pi) f {}" "cp_root pi = 0 \<or> pa_ok m (cp_root pi)"
    and fresh: "\<forall>c \<in> set (cw_new_inodes w). c \<notin> dom (cw_inodes w)"
    and log: "log_run s (log_cache s)" "radix_tree_lookup (log_cache s) (cp_ts pi + 1) \<noteq> None"
      "cp_ts pi < master_ts s" "master_log_deleted_ts s \<le> cp_ts pi + 1"
      "list_all log_entry_ok (log_between s (cp_ts pi) (master_ts s))"
    and run: "sivfs_make_checkpoint m has inode_ok intr s w = (OK, True, w')"
  shows "\<exists>new ci. cw_inodes w' new = Some ci \<and> new \<notin> dom (cw_inodes w) \<and>
    latest_cp_checkpoint (cw_checkpoints w') = new \<and>
    latest_checkpoint_published (cw_checkpoints w') = master_ts s \<and> cp_ts ci = master_ts s \<and>
    holds_db m (master_ts s) (cw_store w') (cp_root ci) (db_apply (log_between s (cp_ts pi) (master_ts s)) f) \<and>
    keeps_trees m (master_ts s) (cw_store w) (cw_store w') \<and>
    (\<forall>c. c \<noteq> new \<longrightarrow> cw_inodes w' c = (if c = latest_cp_checkpoint (cw_checkpoints w)
       then Some (pi\<lparr>cp_obsoleted_ts := master_ts s\<rparr>) else cw_inodes w c))"
proof -
  let ?T = "master_ts s" and ?p = "latest_cp_checkpoint (cw_checkpoints w)"
  obtain new inodes root obs w3 where ni: "cw_new_inodes w = new # inodes"
    and rp: "replay_log_onto_root m s (cp_ts pi) ?T
      (cp_root pi, Some \<lparr>stack_size = 0, stack_capacity = 0, stack_values = []\<rparr>,
       (snd (next_alloc w))\<lparr>cw_new_inodes := inodes\<rparr>) = (OK, root, obs, w3)"
    and fin: "finish_checkpoint intr (w3\<lparr>cw_inodes := (cw_inodes w3)(new \<mapsto>
        \<lparr>cp_root = root, cp_ts = ?T, cp_obsoleted_ts = SIVFS_INVALID_TS\<rparr>)\<rparr>) ?p new ?T obs = (OK, True, w')"
    using make_checkpoint_cases [OF run prior] by blast
  define w2 where "w2 = (snd (next_alloc w))\<lparr>cw_new_inodes := inodes\<rparr>"
  have w2: "cw_store w2 = cw_store w" "cw_inodes w2 = cw_inodes w"
    by (auto simp: w2_def next_alloc_def split: list.splits)
  have new: "new \<notin> dom (cw_inodes w)" using fresh ni by simp
  then have "?p \<noteq> new" using prior by auto
  let ?log = "log_between s (cp_ts pi) ?T"
  have rl: "replay_list m ?T ?log (cp_root pi, Some \<lparr>stack_size = 0, stack_capacity = 0, stack_values = []\<rparr>, w2)
      = (OK, root, obs, w3)"
    using replay_log_list [OF log(1-4)] rp by (simp add: w2_def)
  have "holds_db m ?T (cw_store w2) (cp_root pi) f" using tree w2 by (auto simp: holds_db_def)
  then have res: "keeps_trees m ?T (cw_store w) (cw_store w3)" "holds_db m ?T (cw_store w3) root (db_apply ?log f)"
    using replay_list_db [OF _ _ log(5) rl] ok w2 by auto
  have in3: "cw_inodes w3 = cw_inodes w" using replay_list_books [OF log(5) rl] w2 by (simp add: books_kept_def)
  let ?ci = "\<lparr>cp_root = root, cp_ts = ?T, cp_obsoleted_ts = SIVFS_INVALID_TS\<rparr>"
  have made: "cw_store w' = cw_store w3 \<and> cw_inodes w' new = Some ?ci \<and>
    cw_inodes w' ?p = map_option (\<lambda>c. c\<lparr>cp_obsoleted_ts := ?T\<rparr>) (cw_inodes w ?p) \<and>
    (\<forall>c. c \<noteq> ?p \<longrightarrow> cw_inodes w' c = (if c = new then Some ?ci else cw_inodes w c)) \<and>
    latest_cp_checkpoint (cw_checkpoints w') = new \<and> latest_checkpoint_published (cw_checkpoints w') = ?T"
    using finish_checkpoint_made [OF fin \<open>?p \<noteq> new\<close>, of ?ci] in3 \<open>?p \<noteq> new\<close> by simp
  then show ?thesis using res prior new by (intro exI [of _ new] exI [of _ ?ci]) auto
qed

end
