(* ===== verification/Publish.thy ===== *)
theory Publish
  imports Replay
begin

text \<open>
  What \<^verbatim>\<open>sivfs_make_checkpoint\<close> guarantees: the checkpoint it publishes holds the database, older
  checkpoints read as before, and with enough pages it succeeds.
\<close>

section \<open>Success\<close>

lemma finish_checkpoint_total:
  assumes "cw_allocs w = []" and "new \<noteq> 0" and "cw_inodes w new = Some ci"
    and "radix_tree_lookup (checkpoints_reverse (cw_checkpoints w))
           (sivfs_checkpoints_ts_to_reverse_index (cp_ts ci)) = None"
    and "stack_inv (obsoleted_entries (cw_checkpoints w))"
    and "obs = Some stk" and "list_all (\<lambda>p. p AND SIVFS_GC_ENTRY_FLAGS = 0) (stack_elems stk)"
    and "prior AND SIVFS_GC_ENTRY_FLAGS = 0" and "prior \<noteq> new"
  shows "\<exists>w'. finish_checkpoint None w prior new T obs = (OK, True, w')"
proof -
  define w1 where "w1 = w\<lparr>cw_checkpoints := (cw_checkpoints w)\<lparr>checkpoints_reverse :=
      rt_ins (sivfs_checkpoints_ts_to_reverse_index (cp_ts ci)) new (checkpoints_reverse (cw_checkpoints w))\<rparr>\<rparr>"
  have 1: "checkpoints_insert_first None w new = (OK, w1)"
    using assms(1-4) by (simp add: checkpoints_insert_first_def next_alloc_def radix_tree_insert_def w1_def Let_def)
  define w2 where "w2 = w1\<lparr>cw_inodes := (cw_inodes w1)(prior :=
      map_option (\<lambda>c. c\<lparr>cp_obsoleted_ts := T\<rparr>) (cw_inodes w1 prior))\<rparr>"
  let ?o = "obsoleted_entries (cw_checkpoints w2)"
  have o: "stack_inv ?o" "cw_allocs w2 = []" using assms(1,5) by (simp_all add: w2_def w1_def)
  obtain o1 where o1: "sivfs_stack_reserve True ?o (Suc (stack_size ?o + stack_size stk)) = (OK, o1)"
    using stack_reserve_ok [OF o(1)] by blast
  obtain v n where "mark_loop (stack_elems stk) (stack_values o1) (stack_size o1) = (OK, v, n)"
    using mark_loop_total [OF assms(7)] by blast
  then obtain w3 where 3: "sivfs_gc_mark_pages_obsoleted w2 obs prior = (OK, w3)"
    using assms(6,8) o(2) o1
    by (cases "prior = 0")
      (simp_all add: sivfs_gc_mark_pages_obsoleted_def next_alloc_def sivfs_gc_make_entry_inode_def Let_def)
  have "cw_inodes w3 new = Some ci"
    using gc_mark_pages_frame [OF 3] assms(3,9) by (simp add: w2_def w1_def)
  then show ?thesis using 1 3
    by (simp add: finish_checkpoint_def checkpoints_insert_finish_def w2_def Let_def)
qed

lemma make_checkpoint_total:
  assumes ok: "store_ok m (cw_store w) (master_ts s)"
    and prior: "latest_cp_checkpoint (cw_checkpoints w) = p" "cw_inodes w p = Some pi" "p \<noteq> 0"
      "p AND SIVFS_GC_ENTRY_FLAGS = 0" "cp_ts pi = latest_cp_ts (cw_checkpoints w)"
    and tree: "cp_tree m (cw_store w) (master_ts s) 6 (cp_root pi) f {}" "cp_root pi = 0 \<or> pa_ok m (cp_root pi)"
    and log: "log_run s (log_cache s)" "radix_tree_lookup (log_cache s) (cp_ts pi + 1) \<noteq> None"
      "cp_ts pi < master_ts s" "master_log_deleted_ts s \<le> cp_ts pi + 1"
      "list_all log_entry_ok (log_between s (cp_ts pi) (master_ts s))"
    and new: "cw_new_inodes w = new # inodes" "new \<noteq> 0" "new \<noteq> p"
      "radix_tree_lookup (checkpoints_reverse (cw_checkpoints w))
         (sivfs_checkpoints_ts_to_reverse_index (master_ts s)) = None"
    and obs: "stack_inv (obsoleted_entries (cw_checkpoints w))"
    and res: "cow_res (7 * n_writes (log_between s (cp_ts pi) (master_ts s))) w (Some ostk)"
  shows "\<exists>w'. sivfs_make_checkpoint m True True None s w = (OK, True, w')"
proof -
  let ?T = "master_ts s" and ?log = "log_between s (cp_ts pi) (master_ts s)"
  let ?e = "\<lparr>stack_size = 0, stack_capacity = 0, stack_values = []\<rparr>"
  have al: "cw_allocs w = []" using res by (simp add: cow_res_def)
  define w2 where "w2 = w\<lparr>cw_new_inodes := inodes\<rparr>"
  have w2: "cw_store w2 = cw_store w" "cw_inodes w2 = cw_inodes w" "cw_checkpoints w2 = cw_checkpoints w"
    by (simp_all add: w2_def)
  have res2: "cow_res (0 + 7 * n_writes ?log) w2 (Some ?e)"
    using res by (simp add: cow_res_def w2_def stack_inv_def stack_elems_def)
  obtain r root obs' w3 where rl: "replay_list m ?T ?log (cp_root pi, Some ?e, w2) = (r, root, obs', w3)"
    by (metis surj_pair)
  have "holds_db m ?T (cw_store w2) (cp_root pi) f" using tree w2 by (auto simp: holds_db_def)
  then have "r = OK \<and> cow_res 0 w3 obs'"
    using replay_list_db [OF _ _ log(5) rl, of f, THEN conjunct2, THEN conjunct2] ok w2(1) res2 by metis
  then have r: "r = OK" and c: "cw_allocs w3 = []"
    and "\<exists>stk. obs' = Some stk \<and> list_all (\<lambda>p. p AND SIVFS_GC_ENTRY_FLAGS = 0) (stack_elems stk)"
    by (auto simp: cow_res_def)
  then obtain stk where stk: "obs' = Some stk" "list_all (\<lambda>p. p AND SIVFS_GC_ENTRY_FLAGS = 0) (stack_elems stk)"
    by blast
  have b: "cw_inodes w3 = cw_inodes w" "cw_checkpoints w3 = cw_checkpoints w"
    using replay_list_books [OF log(5) rl] w2 by (simp_all add: books_kept_def)
  let ?ci = "\<lparr>cp_root = root, cp_ts = ?T, cp_obsoleted_ts = SIVFS_INVALID_TS\<rparr>"
  let ?w4 = "w3\<lparr>cw_inodes := (cw_inodes w3)(new \<mapsto> ?ci)\<rparr>"
  obtain w' where fin: "finish_checkpoint None ?w4 p new ?T obs' = (OK, True, w')"
    using finish_checkpoint_total [of ?w4 new ?ci obs' stk p ?T] c new b obs stk prior by auto
  have rp: "replay_log_onto_root m s (cp_ts pi) ?T (cp_root pi, Some ?e, w2) = (OK, root, obs', w3)"
    using replay_log_list [OF log(1-4)] rl r by simp
  show ?thesis using fin rp prior new(1) al order_less_imp_not_eq2 [OF log(3)]
    by (simp add: sivfs_make_checkpoint_def next_alloc_def sivfs_new_stack_def w2_def)
qed

section \<open>An example: one committed write\<close>

definition ex_entry :: sivfs_log_entry where
  "ex_entry = sivfs_init_log_entry\<lparr>le_ts := 1, le_first_in_chunk := True,
     le_ws := \<lparr>capacity_bytes = 40, size_bytes = 40, entries = [5, 4104, 0, 0, 42]\<rparr>\<rparr>"

definition ex_log :: sivfs_shared_state where
  "ex_log = empty_log
     \<lparr>master_log := \<lparr>latest = 4104, bytes_remaining_chunk = 920, chunk_ptr = 4200, chunk_start_ptr = 4096\<rparr>,
      log_cache := [(1, 4104)], log_mem := [4104 \<mapsto> ex_entry], master_ts := 1, commit_started_ts := 1,
      log_chunks := [4096 \<mapsto> \<lparr>ck_size = 1024, ck_prev = 0\<rparr>]\<rparr>"

definition ex_cps :: "cp_store \<Rightarrow> cp_world" where
  "ex_cps st = (ex_world st)\<lparr>cw_inodes := [64 \<mapsto> \<lparr>cp_root = 0, cp_ts = 0, cp_obsoleted_ts = SIVFS_INVALID_TS\<rparr>],
     cw_new_inodes := [128],
     cw_checkpoints := \<lparr>latest_cp_checkpoint = 64, latest_cp_ts = 0, latest_checkpoint_published = 0,
       checkpoints_reverse = [(- 1, 64)], obsoleted_entries = example_stack [], gc_blocked_entries = []\<rparr>\<rparr>"

lemma ex_log_inv: "log_inv ex_log" "log_stamped ex_log"
proof -
  have e: "entry_ok ex_log 4096 4104"
    by (simp add: entry_ok_def le_end_def ex_log_def ex_entry_def)
  have "mem_layout ex_log [(4096, [4104])]"
    using e by (simp add: mem_layout_def chunks_disjoint_def chunk_ok_def ex_log_def)
  moreover have "cur_ok ex_log (4096, [4104])"
    using e by (simp add: cur_ok_def ex_log_def ex_entry_def sivfs_init_log_entry_def le_end_def)
  ultimately show "log_inv ex_log"
    unfolding log_inv_def by (intro conjI exI [of _ "[(4096, [4104])]"]) (simp_all add: rt_inv_def ex_log_def)
  show "log_stamped ex_log" by (simp add: log_stamped_def ex_log_def ex_entry_def)
qed

lemma ex_between: "log_between ex_log 0 1 = [ex_entry]"
  by (simp add: log_between_def log_entries_def ex_log_def rt_from_def)

lemma ex_repr: "ws_repr (le_ws ex_entry) [(ex_write, [])]"
  by (simp add: ws_repr_def wse_valid_def info_of_def ex_write_def sivfs_wse_to_stream_info_def)
     (simp add: ex_entry_def wse_encode_def bytes_def)

lemma ex_writes: "ws_list (le_ws ex_entry) = [ex_write]" "\<not> le_aborted ex_entry"
  using ws_list_repr [OF ex_repr] by (simp_all add: ex_entry_def sivfs_init_log_entry_def)

lemma ex_entry_writable: "list_all log_entry_ok (log_between ex_log 0 1)"
  unfolding ex_between log_entry_ok_def using ex_repr ex_write_ok by (auto simp: writable_def)

lemma ex_made:
  "\<exists>st. sivfs_init_zero_checkpoint_pages ex_mmu ex_boot = (OK, st) \<and> store_ok ex_mmu st 1 \<and>
     cp_tree ex_mmu st 1 6 0 (\<lambda>_ _. 0) {} \<and> cow_res (7 * n_writes (log_between ex_log 0 1)) (ex_cps st) (Some (example_stack [])) \<and>
     (\<exists>w'. sivfs_make_checkpoint ex_mmu True True None ex_log (ex_cps st) = (OK, True, w'))"
proof -
  obtain st where st: "sivfs_init_zero_checkpoint_pages ex_mmu ex_boot = (OK, st)" "store_ok ex_mmu st 1"
      "cow_res 7 (ex_world st) (Some (example_stack []))"
    using ex_init by blast
  have n: "7 * n_writes (log_between ex_log 0 1) = 7" using ex_writes by (simp add: ex_between n_writes_def)
  have res: "cow_res (7 * n_writes (log_between ex_log 0 1)) (ex_cps st) (Some (example_stack []))"
    using st(3) unfolding n by (simp add: cow_res_def ex_cps_def ex_world_def)
  have tree: "cp_tree ex_mmu st 1 6 0 (\<lambda>_ _. 0) {}" using ex_empty_tree [of ex_mmu "ex_world st" 1] st(2)
    by (simp add: ex_world_def)
  have "\<exists>w'. sivfs_make_checkpoint ex_mmu True True None ex_log (ex_cps st) = (OK, True, w')"
    by (rule make_checkpoint_total [where p = 64 and new = 128 and inodes = "[]" and f = "\<lambda>_ _. 0" and
          pi = "\<lparr>cp_root = 0, cp_ts = 0, cp_obsoleted_ts = SIVFS_INVALID_TS\<rparr>" and ostk = "example_stack []"])
       (use st res tree ex_entry_writable log_run_inv [OF ex_log_inv] in
         \<open>simp_all add: ex_cps_def ex_world_def SIVFS_GC_ENTRY_FLAGS_def ex_log_def empty_log_def
            radix_tree_lookup_def sivfs_checkpoints_ts_to_reverse_index_def stack_inv_def example_stack_def\<close>)
  then show ?thesis using st res tree by blast
qed

section \<open>Properties\<close>



text \<open>
  C18: making a checkpoint disturbs no reader.  Every checkpoint whose tree has no page of the new
  timestamp reads the same page for page after \<^verbatim>\<open>sivfs_make_checkpoint\<close> has made a checkpoint, keeps its root
  and timestamp, and only the prior one is marked obsolete, at the new timestamp.
\<close>

theorem make_checkpoint_keeps_older_checkpoints:
  assumes "store_ok m (cw_store w) (master_ts s)"
    and "cw_inodes w (latest_cp_checkpoint (cw_checkpoints w)) = Some pi"
    and "cp_tree m (cw_store w) (master_ts s) 6 (cp_root pi) f {}" and "cp_root pi = 0 \<or> pa_ok m (cp_root pi)"
    and "\<forall>c \<in> set (cw_new_inodes w). c \<notin> dom (cw_inodes w)"
    and "log_inv s" and "log_stamped s" and "radix_tree_lookup (log_cache s) (cp_ts pi + 1) \<noteq> None"
    and "cp_ts pi < master_ts s" and "master_log_deleted_ts s \<le> cp_ts pi + 1"
    and "list_all log_entry_ok (log_between s (cp_ts pi) (master_ts s))"
    and "sivfs_make_checkpoint m has_state inode_ok interrupted s w = (OK, True, w')"
    and "cw_inodes w c = Some old" and "cp_tree m (cw_store w) (master_ts s) 6 (cp_root old) g {}"
    and "cp_addressable i off" and "off mod PAGE_SIZE = 0"
  shows "sivfs_read_checkpoint m (cw_store w') mem PAGE_SIZE (cw_inodes w' c) i off =
         sivfs_read_checkpoint m (cw_store w) mem PAGE_SIZE (cw_inodes w c) i off \<and>
    cw_inodes w' c = Some (if c = latest_cp_checkpoint (cw_checkpoints w)
      then old\<lparr>cp_obsoleted_ts := master_ts s\<rparr> else old)"
proof -
  let ?T = "master_ts s"
  obtain new where new: "new \<notin> dom (cw_inodes w)" "keeps_trees m ?T (cw_store w) (cw_store w')"
      "\<forall>c. c \<noteq> new \<longrightarrow> cw_inodes w' c = (if c = latest_cp_checkpoint (cw_checkpoints w)
         then Some (pi\<lparr>cp_obsoleted_ts := ?T\<rparr>) else cw_inodes w c)"
    using make_checkpoint_db [OF assms(1-5) log_run_inv [OF assms(6,7)] assms(8-12)] by blast
  have "c \<noteq> new" using new(1) assms(13) by auto
  then have ci: "cw_inodes w' c = Some (if c = latest_cp_checkpoint (cw_checkpoints w)
      then old\<lparr>cp_obsoleted_ts := ?T\<rparr> else old)"
    using new(3) assms(2,13) by auto
  have nz: "0 \<notin> dom (cps_pages (cw_store w))" "0 \<notin> dom (cps_pages (cw_store w'))"
    using assms(1) new(2) by (auto simp: keeps_trees_def store_ok_def)
  have "cp_tree m (cw_store w') ?T 6 (cp_root old) g {}" using new(2) assms(14) by (simp add: keeps_trees_def)
  then have "sivfs_read_checkpoint m (cw_store w') mem PAGE_SIZE (Some ci') i off = (OK, g (cp_path i off))"
    if "cp_root ci' = cp_root old" for ci'
    using read_checkpoint_tree [OF nz(2), of m ?T ci' g "{}" i off mem] assms(15,16) that by simp
  then show ?thesis
    using read_checkpoint_tree [OF nz(1) assms(14-16), of mem] ci assms(13) by auto
qed

theorem make_checkpoint_keeps_older_checkpoints_witness:
  "\<exists>st w'. sivfs_init_zero_checkpoint_pages ex_mmu ex_boot = (OK, st) \<and>
     sivfs_make_checkpoint ex_mmu True True None ex_log (ex_cps st) = (OK, True, w') \<and>
     cw_inodes w' 64 = Some \<lparr>cp_root = 0, cp_ts = 0, cp_obsoleted_ts = 1\<rparr>"
proof -
  let ?pi = "\<lparr>cp_root = 0, cp_ts = 0, cp_obsoleted_ts = SIVFS_INVALID_TS\<rparr>"
  obtain st w' where st: "sivfs_init_zero_checkpoint_pages ex_mmu ex_boot = (OK, st)" "store_ok ex_mmu st 1"
      "cp_tree ex_mmu st 1 6 0 (\<lambda>_ _. 0) {}"
      "sivfs_make_checkpoint ex_mmu True True None ex_log (ex_cps st) = (OK, True, w')"
    using ex_made by blast
  have l: "master_ts ex_log = 1" "master_log_deleted_ts ex_log = 0" "log_cache ex_log = [(1, 4104)]"
    by (simp_all add: ex_log_def empty_log_def)
  have "sivfs_read_checkpoint ex_mmu (cw_store w') (\<lambda>_. 9) PAGE_SIZE (cw_inodes w' 64) 5 4096 =
      sivfs_read_checkpoint ex_mmu (cw_store (ex_cps st)) (\<lambda>_. 9) PAGE_SIZE (cw_inodes (ex_cps st) 64) 5 4096 \<and>
    cw_inodes w' 64 = Some (if 64 = latest_cp_checkpoint (cw_checkpoints (ex_cps st))
      then ?pi\<lparr>cp_obsoleted_ts := master_ts ex_log\<rparr> else ?pi)"
    by (rule make_checkpoint_keeps_older_checkpoints
          [OF _ _ _ _ _ ex_log_inv _ _ _ _ st(4), where pi = ?pi and f = "\<lambda>_ _. 0" and g = "\<lambda>_ _. 0"])
       (use st ex_entry_writable l in \<open>simp_all add: ex_cps_def ex_world_def radix_tree_lookup_def
          cp_addressable_def PAGE_SIZE_def\<close>)
  then show ?thesis using st(1,4) l by (simp add: ex_cps_def)
qed

text \<open>
  C27: a checkpoint is made.  With seven pages per replayed write available, room under the page limit, an
  inode for the new checkpoint and no signal, \<^verbatim>\<open>sivfs_make_checkpoint\<close> returns success with a new
  checkpoint; it neither loops nor reaches a missing page.
\<close>

theorem make_checkpoint_succeeds:
  assumes "store_ok m (cw_store w) (master_ts s)"
    and "latest_cp_checkpoint (cw_checkpoints w) = p" and "cw_inodes w p = Some pi" and "p \<noteq> 0"
    and "p AND SIVFS_GC_ENTRY_FLAGS = 0" and "cp_ts pi = latest_cp_ts (cw_checkpoints w)"
    and "cp_tree m (cw_store w) (master_ts s) 6 (cp_root pi) f {}" and "cp_root pi = 0 \<or> pa_ok m (cp_root pi)"
    and "log_inv s" and "log_stamped s" and "radix_tree_lookup (log_cache s) (cp_ts pi + 1) \<noteq> None"
    and "cp_ts pi < master_ts s" and "master_log_deleted_ts s \<le> cp_ts pi + 1"
    and "list_all log_entry_ok (log_between s (cp_ts pi) (master_ts s))"
    and "cw_new_inodes w = new # inodes" and "new \<noteq> 0" and "new \<noteq> p"
    and "radix_tree_lookup (checkpoints_reverse (cw_checkpoints w))
         (sivfs_checkpoints_ts_to_reverse_index (master_ts s)) = None"
    and "stack_inv (obsoleted_entries (cw_checkpoints w))"
    and "cow_res (7 * n_writes (log_between s (cp_ts pi) (master_ts s))) w (Some stk)"
  shows "\<exists>w'. sivfs_make_checkpoint m True True None s w = (OK, True, w')"
  by (rule make_checkpoint_total [OF assms(1-8) log_run_inv [OF assms(9,10)] assms(11-20)])

theorem make_checkpoint_succeeds_witness:
  "\<exists>st w'. sivfs_init_zero_checkpoint_pages ex_mmu ex_boot = (OK, st) \<and>
     sivfs_make_checkpoint ex_mmu True True None ex_log (ex_cps st) = (OK, True, w')"
proof -
  obtain st where st: "sivfs_init_zero_checkpoint_pages ex_mmu ex_boot = (OK, st)" "store_ok ex_mmu st 1"
      "cp_tree ex_mmu st 1 6 0 (\<lambda>_ _. 0) {}"
      "cow_res (7 * n_writes (log_between ex_log 0 1)) (ex_cps st) (Some (example_stack []))"
    using ex_made by blast
  have l: "master_ts ex_log = 1" "master_log_deleted_ts ex_log = 0" "log_cache ex_log = [(1, 4104)]"
    by (simp_all add: ex_log_def empty_log_def)
  have "\<exists>w'. sivfs_make_checkpoint ex_mmu True True None ex_log (ex_cps st) = (OK, True, w')"
    by (rule make_checkpoint_succeeds [OF _ _ _ _ _ _ _ _ ex_log_inv, where p = 64 and new = 128 and inodes = "[]"
          and f = "\<lambda>_ _. 0" and stk = "example_stack []" and
          pi = "\<lparr>cp_root = 0, cp_ts = 0, cp_obsoleted_ts = SIVFS_INVALID_TS\<rparr>"])
       (use st l ex_entry_writable in
         \<open>simp_all add: ex_cps_def ex_world_def SIVFS_GC_ENTRY_FLAGS_def
            radix_tree_lookup_def sivfs_checkpoints_ts_to_reverse_index_def stack_inv_def example_stack_def\<close>)
  then show ?thesis using st(1) by blast
qed

end
