(* ===== verification/Commit.thy ===== *)
theory Commit
  imports Publish
begin

text \<open>
  Committing a transaction, the first half of \<^verbatim>\<open>kern/sivfs_commit_update_checkpoints.c\<close>: conflict
  detection between writesets, validation against the log, and \<^verbatim>\<open>sivfs_commit_changes\<close> with its three
  phases (append to the log under the commit lock, validate in parallel, release in timestamp order).
  Also the search of the log for the first write to a range, \<^verbatim>\<open>sivfs_find_first_write\<close> of
  \<^verbatim>\<open>kern/sivfs_shared_state.h\<close>.

  A phase is a function on the shared state, so that phases of several transactions can be
  interleaved; \<open>sivfs_commit_changes\<close> runs them one after the other.  The log entry of a transaction under
  validation is passed by value and written back at the end of the phase: nothing else writes to it.
\<close>

section \<open>Conflicts\<close>

definition sivfs_ws_ent_conflicts :: "sivfs_writeset_entry \<Rightarrow> sivfs_writeset_entry \<Rightarrow> bool" where
  "sivfs_ws_ent_conflicts a b \<longleftrightarrow> wse_ino a = wse_ino b \<and> wse_file_offset a = wse_file_offset b"

definition sivfs_ws_ent_conflicts_log :: "sivfs_writeset_entry \<Rightarrow> sivfs_log_entry \<Rightarrow> rc \<times> bool" where
  "sivfs_ws_ent_conflicts_log conflict_ent log =
     ws_for_each (\<lambda>ent info conflicts.
         if sivfs_ws_ent_conflicts ent conflict_ent then Stop OK True else Next conflicts)
       (le_ws log) False"

section \<open>Validation\<close>

text \<open>\<^verbatim>\<open>_sivfs_validate\<close>: every failure of the walk ends in an abort.\<close>

definition sivfs_validate_entry :: "sivfs_log_entry \<Rightarrow> sivfs_log_entry \<Rightarrow> rc \<times> sivfs_log_entry" where
  "sivfs_validate_entry log_writeset other_log =
     (if le_aborted other_log then (OK, log_writeset)
      else case ws_for_each (\<lambda>ent info aborted.
               case sivfs_ws_ent_conflicts_log ent other_log of
                 (OK, conflicts) \<Rightarrow> if conflicts then Stop OK True else Next aborted
               | (E _, _) \<Rightarrow> Stop OK True
               | (r, _) \<Rightarrow> Stop r aborted)
             (le_ws log_writeset) (le_aborted log_writeset) of
          (OK, aborted) \<Rightarrow> (OK, log_writeset\<lparr>le_aborted := aborted\<rparr>)
        | (E _, _) \<Rightarrow> (OK, log_writeset\<lparr>le_aborted := True\<rparr>)
        | (r, _) \<Rightarrow> (r, log_writeset))"

text \<open>One round of the loop of \<^verbatim>\<open>sivfs_validate\<close>; the last component is the next \<^verbatim>\<open>clog\<close>, if any.\<close>

definition validate_iter ::
  "sivfs_shared_state \<Rightarrow> sivfs_ts \<Rightarrow> sivfs_log_entry \<Rightarrow> u64 \<Rightarrow> rc \<times> sivfs_log_entry \<times> u64 option" where
  "validate_iter s ts_stop log_writeset clog =
     (case log_mem s clog of
        None \<Rightarrow> (UB, log_writeset, None)
      | Some c \<Rightarrow>
          (case sivfs_validate_entry log_writeset c of
             (OK, lw) \<Rightarrow>
               if le_aborted lw then (OK, lw\<lparr>le_aborted := True\<rparr>, None)
               else if le_ts c = ts_stop then (OK, lw, None)
               else if le_next c = 0 then (OK, lw, None)
               else (case log_mem s (le_next c) of
                       None \<Rightarrow> (UB, lw, None)
                     | Some n \<Rightarrow> (OK, lw, if le_ts n > ts_stop then None else Some (le_next c)))
           | (r, lw) \<Rightarrow> (r, lw, None)))"

fun validate_loop ::
  "sivfs_shared_state \<Rightarrow> sivfs_ts \<Rightarrow> nat \<Rightarrow> sivfs_log_entry \<Rightarrow> u64 \<Rightarrow> rc \<times> sivfs_log_entry" where
  "validate_loop s ts_stop 0 log_writeset clog = (HANG, log_writeset)"
| "validate_loop s ts_stop (Suc fuel) log_writeset clog =
     (case validate_iter s ts_stop log_writeset clog of
        (OK, lw, Some next_clog) \<Rightarrow> validate_loop s ts_stop fuel lw next_clog
      | (r, lw, _) \<Rightarrow> (r, lw))"

definition sivfs_validate ::
  "sivfs_shared_state \<Rightarrow> sivfs_log_entry \<Rightarrow> sivfs_ts \<Rightarrow> sivfs_ts \<Rightarrow> rc \<times> sivfs_log_entry" where
  "sivfs_validate s log_writeset ts_start ts_stop =
     (if ts_stop < ts_start then (OK, log_writeset\<lparr>le_aborted := True\<rparr>)
      else case sivfs_ts_to_log_entry s ts_start ts_start ts_stop of
        (OK, clog) \<Rightarrow> validate_loop s ts_stop (Suc (length (log_cache s))) log_writeset clog
      | (E _, _) \<Rightarrow> (OK, log_writeset\<lparr>le_aborted := True\<rparr>)
      | (r, _) \<Rightarrow> (r, log_writeset))"

section \<open>The phases of a commit\<close>

text \<open>Phase I, under the commit lock.  \<open>kmalloc\<close> and \<open>tree_ok\<close> are the outcomes of the allocations.\<close>

definition commit_allocate ::
  "u64 option \<Rightarrow> bool \<Rightarrow> sivfs_shared_state \<Rightarrow> sivfs_writeset \<Rightarrow> rc \<times> u64 \<times> sivfs_shared_state" where
  "commit_allocate kmalloc tree_ok s ws =
     (let next_ts = commit_started_ts s + 1 in
      case sivfs_create_log_entry kmalloc tree_ok s next_ts ws of
        (OK, log_dest, s1) \<Rightarrow>
          let s2 = s1\<lparr>commit_started_ts := next_ts\<rparr> in
          (case log_mem s2 log_dest of
             None \<Rightarrow> (UB, log_dest, s2)
           | Some e \<Rightarrow>
               (case sivfs_writeset_copy (le_ws e) ws of
                  (OK, ws') \<Rightarrow>
                    (OK, log_dest, log_update s2 log_dest
                       (\<lambda>e. e\<lparr>le_ws := ws', le_ts := next_ts, le_aborted := False\<rparr>))
                | (r, _) \<Rightarrow> (r, log_dest, s2)))
      | (r, log_dest, s1) \<Rightarrow> (r, log_dest, s1))"

text \<open>Phase II.\<close>

definition commit_validate ::
  "sivfs_shared_state \<Rightarrow> u64 \<Rightarrow> sivfs_ts \<Rightarrow> sivfs_ts \<Rightarrow> rc \<times> sivfs_shared_state" where
  "commit_validate s log_dest next_ts state_ts =
     (case log_mem s log_dest of
        None \<Rightarrow> (UB, s)
      | Some e \<Rightarrow>
          (case (if next_ts \<ge> state_ts + 2 then sivfs_validate s e (state_ts + 1) (next_ts - 1)
                 else (OK, e)) of
             (OK, e') \<Rightarrow> (OK, log_update s log_dest (\<lambda>_. e'\<lparr>le_commit_status_filled_in := True\<rparr>))
           | (r, _) \<Rightarrow> (r, s)))"

text \<open>Phase III.  Spinning for a release that nobody makes is \<open>HANG\<close>.\<close>

definition commit_release :: "sivfs_shared_state \<Rightarrow> sivfs_ts \<Rightarrow> rc \<times> sivfs_shared_state" where
  "commit_release s next_ts =
     (if master_ts s \<noteq> next_ts - 1 then (HANG, s) else (OK, s\<lparr>master_ts := next_ts\<rparr>))"

definition SIVFS_MAX_WRITE_TXNS_SINCE_CHECKPOINT :: u64 where
  "SIVFS_MAX_WRITE_TXNS_SINCE_CHECKPOINT = 1000"

text \<open>
  The results are the return code, \<^verbatim>\<open>*out_ts\<close>, \<^verbatim>\<open>*aborted\<close>, whether the transaction is throttled, and the
  state.  \<open>signal\<close> says that a signal arrived while the commit lock was contended, \<open>published\<close> is
  \<^verbatim>\<open>latest_checkpoint_published\<close>; the wait of a throttled writer changes no state but its counter.
\<close>

definition sivfs_commit_changes ::
  "bool \<Rightarrow> u64 option \<Rightarrow> bool \<Rightarrow> sivfs_ts \<Rightarrow> sivfs_shared_state \<Rightarrow> sivfs_ts \<Rightarrow> sivfs_log_entry \<Rightarrow>
   rc \<times> sivfs_ts \<times> bool \<times> bool \<times> sivfs_shared_state" where
  "sivfs_commit_changes signal kmalloc tree_ok published s state_ts log_writeset =
     (let next_ts = commit_started_ts s + 1;
          err = (\<lambda>r s'. (r, SIVFS_INVALID_TS, False, False, s')) in
      if signal then err (E EINTR) s
      else case commit_allocate kmalloc tree_ok s (le_ws log_writeset) of
        (OK, log_dest, s1) \<Rightarrow>
          (case commit_validate s1 log_dest next_ts state_ts of
             (OK, s2) \<Rightarrow>
               (case commit_release s2 next_ts of
                  (OK, s3) \<Rightarrow>
                    (case log_mem s3 log_dest of
                       None \<Rightarrow> err UB s3
                     | Some e \<Rightarrow>
                         (OK, next_ts, le_aborted e,
                          next_ts > published + SIVFS_MAX_WRITE_TXNS_SINCE_CHECKPOINT, s3))
                | (r, s3) \<Rightarrow> err r s3)
           | (r, s2) \<Rightarrow> err r s2)
      | (r, _, s1) \<Rightarrow> err r s1)"

section \<open>The first write to a range\<close>

definition sivfs_range_overlaps_wsent :: "u64 \<Rightarrow> u64 \<Rightarrow> sivfs_writeset_entry \<Rightarrow> bool" where
  "sivfs_range_overlaps_wsent range_start range_end ent \<longleftrightarrow>
     (let x = wse_file_offset ent in x \<ge> range_start \<and> x < range_end)"

definition first_write_body ::
  "u64 \<Rightarrow> u64 \<Rightarrow> u64 \<Rightarrow> sivfs_writeset_entry \<Rightarrow> sivfs_wse_stream_info \<Rightarrow> bool \<Rightarrow> bool step" where
  "first_write_body file_ino offset_start offset_end ent info hit =
     (if wse_ino ent = file_ino \<and> sivfs_range_overlaps_wsent offset_start offset_end ent
      then Stop OK True else Next hit)"

fun first_write_loop ::
  "sivfs_shared_state \<Rightarrow> sivfs_ts \<Rightarrow> u64 \<Rightarrow> u64 \<Rightarrow> u64 \<Rightarrow> nat \<Rightarrow> u64 \<Rightarrow> rc \<times> sivfs_ts" where
  "first_write_loop s end_ts file_ino offset_start offset_end 0 log_ent = (HANG, 0)"
| "first_write_loop s end_ts file_ino offset_start offset_end (Suc fuel) log_ent =
     (case log_mem s log_ent of
        None \<Rightarrow> (UB, 0)
      | Some e \<Rightarrow>
          (case (if le_aborted e then (OK, False)
                 else ws_for_each (first_write_body file_ino offset_start offset_end) (le_ws e) False) of
             (OK, True) \<Rightarrow> (OK, le_ts e)
           | (OK, False) \<Rightarrow>
               if le_next e = 0 then (OK, SIVFS_INVALID_TS)
               else (case log_mem s (le_next e) of
                       None \<Rightarrow> (UB, 0)
                     | Some n \<Rightarrow>
                         if le_ts n > end_ts then (OK, SIVFS_INVALID_TS)
                         else first_write_loop s end_ts file_ino offset_start offset_end fuel (le_next e))
           | (r, _) \<Rightarrow> (r, 0)))"

definition sivfs_find_first_write ::
  "sivfs_shared_state \<Rightarrow> sivfs_ts \<Rightarrow> sivfs_ts \<Rightarrow> u64 \<Rightarrow> u64 \<Rightarrow> u64 \<Rightarrow> rc \<times> sivfs_ts" where
  "sivfs_find_first_write s start_ts end_ts file_ino offset_start offset_end =
     (if end_ts < start_ts \<or> offset_end \<le> offset_start then (E EINVAL, 0)
      else if end_ts = start_ts then (OK, SIVFS_INVALID_TS)
      else case sivfs_ts_to_log_entry s (start_ts + 1) (start_ts + 1) end_ts of
        (OK, log_ent) \<Rightarrow>
          if log_ent = 0 then (E EINVAL, 0)
          else first_write_loop s end_ts file_ino offset_start offset_end
                 (Suc (length (log_cache s))) log_ent
      | (r, _) \<Rightarrow> (r, 0))"

section \<open>Validation is exact\<close>

definition ws_formed :: "sivfs_writeset \<Rightarrow> bool" where
  "ws_formed ws \<longleftrightarrow> (\<exists>es. ws_repr ws es)"

definition ws_conflict :: "sivfs_writeset \<Rightarrow> sivfs_writeset \<Rightarrow> bool" where
  "ws_conflict ws other \<longleftrightarrow>
     (\<exists>x \<in> set (ws_list ws). \<exists>y \<in> set (ws_list other). sivfs_ws_ent_conflicts y x)"

text \<open>The entry \<open>e\<close> makes a transaction with the writeset \<open>ws\<close> abort.\<close>

definition blocks :: "sivfs_writeset \<Rightarrow> sivfs_log_entry \<Rightarrow> bool" where
  "blocks ws e \<longleftrightarrow> \<not> le_aborted e \<and> ws_conflict ws (le_ws e)"

lemma ws_run_search:
  "ws_run (\<lambda>e i found. if P e then Stop OK True else Next found) es False = (OK, \<exists>x \<in> set (map fst es). P x)"
proof (induction es)
  case (Cons x es)
  then show ?case by (cases x) auto
qed simp

lemma ws_for_each_search:
  assumes "ws_formed ws"
  shows "ws_for_each (\<lambda>e i found. if P e then Stop OK True else Next found) ws False =
         (OK, \<exists>x \<in> set (ws_list ws). P x)"
  using assms by (auto simp: ws_formed_def wse_loop_repr ws_run_search ws_list_repr simp del: set_map)

lemma conflicts_log_exact:
  "ws_formed (le_ws log) \<Longrightarrow>
   sivfs_ws_ent_conflicts_log e log = (OK, \<exists>y \<in> set (ws_list (le_ws log)). sivfs_ws_ent_conflicts y e)"
  unfolding sivfs_ws_ent_conflicts_log_def by (rule ws_for_each_search)

lemma validate_entry_exact:
  assumes "ws_formed (le_ws lw)" and "ws_formed (le_ws other)" and "\<not> le_aborted lw"
  shows "sivfs_validate_entry lw other = (OK, lw\<lparr>le_aborted := blocks (le_ws lw) other\<rparr>)"
proof -
  have "(\<lambda>ent info aborted. case sivfs_ws_ent_conflicts_log ent other of
           (OK, conflicts) \<Rightarrow> if conflicts then Stop OK True else Next aborted
         | (E _, _) \<Rightarrow> Stop OK True | (r, _) \<Rightarrow> Stop r aborted) =
        (\<lambda>ent (info::sivfs_wse_stream_info) aborted. if \<exists>y \<in> set (ws_list (le_ws other)). sivfs_ws_ent_conflicts y ent
           then Stop OK True else Next aborted)"
    using conflicts_log_exact [OF assms(2)] by (auto simp: fun_eq_iff)
  then show ?thesis
    using assms(3) ws_for_each_search [OF assms(1), of "\<lambda>ent. \<exists>y \<in> set (ws_list (le_ws other)). sivfs_ws_ent_conflicts y ent"]
    by (auto simp: sivfs_validate_entry_def blocks_def ws_conflict_def)
qed

definition validate_body :: "sivfs_log_entry \<Rightarrow> sivfs_log_entry \<Rightarrow> sivfs_log_entry step" where
  "validate_body c lw =
     (case sivfs_validate_entry lw c of
        (OK, lw') \<Rightarrow> if le_aborted lw' then Stop OK (lw'\<lparr>le_aborted := True\<rparr>) else Next lw'
      | (r, lw') \<Rightarrow> Stop r lw')"

interpretation validating: log_walk s stop validate_body "\<lambda>n a lw. validate_loop s stop n lw a" for s stop
proof unfold_locales
  fix a e lw r lw' n
  assume "log_mem s a = Some e" "validate_body e lw = Stop r lw'"
  then show "validate_loop s stop (Suc n) lw a = (r, lw')"
    by (auto simp: validate_body_def validate_iter_def split: prod.splits rc.splits if_splits)
next
  fix a e lw lw' n
  assume "log_mem s a = Some e" "le_ts e \<le> stop" "validate_body e lw = Next lw'"
    "le_next e = 0 \<or> (\<exists>e'. log_mem s (le_next e) = Some e' \<and> stop < le_ts e')"
  then show "validate_loop s stop (Suc n) lw a = (OK, lw')"
    by (auto simp: validate_body_def validate_iter_def split: prod.splits rc.splits if_splits)
next
  fix a e lw lw' n e'
  assume "log_mem s a = Some e" "le_ts e < stop" "validate_body e lw = Next lw'"
    "le_next e \<noteq> 0" "log_mem s (le_next e) = Some e'" "le_ts e' \<le> stop"
  then show "validate_loop s stop (Suc n) lw a = validate_loop s stop n lw' (le_next e)"
    by (auto simp: validate_body_def validate_iter_def split: prod.splits rc.splits if_splits)
qed

lemma run_validate:
  assumes "ws_formed (le_ws lw)" and "\<not> le_aborted lw" and "list_all (\<lambda>e. ws_formed (le_ws e)) es"
  shows "run_entries validate_body es lw = (OK, lw\<lparr>le_aborted := \<exists>e \<in> set es. blocks (le_ws lw) e\<rparr>)"
  using assms(3)
proof (induction es)
  case Nil
  then show ?case using assms(2) by simp
next
  case (Cons e es)
  have 1: "sivfs_validate_entry lw e = (OK, lw\<lparr>le_aborted := blocks (le_ws lw) e\<rparr>)"
    using validate_entry_exact [OF assms(1) _ assms(2)] Cons.prems by simp
  have "lw\<lparr>le_aborted := False\<rparr> = lw" using assms(2) by simp
  then show ?case using 1 Cons by (auto simp: validate_body_def)
qed

lemma validate_exact:
  assumes "log_run s (log_cache s)" and "radix_tree_lookup (log_cache s) (lo + 1) \<noteq> None"
    and "lo < hi" and "master_log_deleted_ts s \<le> lo + 1"
    and "list_all (\<lambda>e. ws_formed (le_ws e)) (log_between s lo hi)" and "ws_formed (le_ws lw)" and "\<not> le_aborted lw"
  shows "sivfs_validate s lw (lo + 1) hi =
         (OK, lw\<lparr>le_aborted := \<exists>e \<in> set (log_between s lo hi). blocks (le_ws lw) e\<rparr>)"
proof -
  obtain a where "sivfs_ts_to_log_entry s (lo + 1) (lo + 1) hi = (OK, a)"
      "validate_loop s hi (Suc (length (log_cache s))) lw a = run_entries validate_body (log_between s lo hi) lw"
    using validating.walk_from [OF assms(1-4), of hi lw] by blast
  moreover have "\<not> hi < lo + 1" using inc_le [OF assms(3)] by simp
  ultimately show ?thesis using run_validate [OF assms(6,7,5)] by (simp add: sivfs_validate_def)
qed

section \<open>The first write\<close>

definition touches :: "u64 \<Rightarrow> u64 \<Rightarrow> u64 \<Rightarrow> sivfs_log_entry \<Rightarrow> bool" where
  "touches i lo hi e \<longleftrightarrow> \<not> le_aborted e \<and>
     (\<exists>x \<in> set (ws_list (le_ws e)). wse_ino x = i \<and> sivfs_range_overlaps_wsent lo hi x)"

definition first_body :: "u64 \<Rightarrow> u64 \<Rightarrow> u64 \<Rightarrow> sivfs_log_entry \<Rightarrow> sivfs_ts \<Rightarrow> sivfs_ts step" where
  "first_body i lo hi e out =
     (case (if le_aborted e then (OK, False) else ws_for_each (first_write_body i lo hi) (le_ws e) False) of
        (OK, hit) \<Rightarrow> if hit then Stop OK (le_ts e) else Next SIVFS_INVALID_TS
      | (r, _) \<Rightarrow> Stop r 0)"

lemma first_body_exact:
  assumes "ws_formed (le_ws e)"
  shows "first_body i lo hi e out = (if touches i lo hi e then Stop OK (le_ts e) else Next SIVFS_INVALID_TS)"
proof -
  have "ws_for_each (first_write_body i lo hi) (le_ws e) False =
      (OK, \<exists>x \<in> set (ws_list (le_ws e)). wse_ino x = i \<and> sivfs_range_overlaps_wsent lo hi x)"
    using ws_for_each_search [OF assms, of "\<lambda>x. wse_ino x = i \<and> sivfs_range_overlaps_wsent lo hi x"]
    by (simp add: first_write_body_def [abs_def])
  then show ?thesis by (auto simp: first_body_def touches_def)
qed

interpretation searching: log_walk s stop "first_body i lo hi" "\<lambda>n a out. first_write_loop s stop i lo hi n a"
  for s stop i lo hi
proof unfold_locales
  fix a e out r out' n
  assume "log_mem s a = Some e" "first_body i lo hi e out = Stop r out'"
  then show "first_write_loop s stop i lo hi (Suc n) a = (r, out')"
    by (cases "le_aborted e") (auto simp: first_body_def split: prod.splits rc.splits if_splits)
next
  fix a e out out' n
  assume "log_mem s a = Some e" "le_ts e \<le> stop" "first_body i lo hi e out = Next out'"
    "le_next e = 0 \<or> (\<exists>e'. log_mem s (le_next e) = Some e' \<and> stop < le_ts e')"
  then show "first_write_loop s stop i lo hi (Suc n) a = (OK, out')"
    by (cases "le_aborted e") (auto simp: first_body_def split: prod.splits rc.splits if_splits)
next
  fix a e out out' n e'
  assume "log_mem s a = Some e" "le_ts e < stop" "first_body i lo hi e out = Next out'"
    "le_next e \<noteq> 0" "log_mem s (le_next e) = Some e'" "le_ts e' \<le> stop"
  then show "first_write_loop s stop i lo hi (Suc n) a = first_write_loop s stop i lo hi n (le_next e)"
    by (cases "le_aborted e") (auto simp: first_body_def split: prod.splits rc.splits if_splits)
qed

lemma run_first:
  assumes "list_all (\<lambda>e. ws_formed (le_ws e)) es"
  shows "run_entries (first_body i lo hi) es SIVFS_INVALID_TS =
    (OK, case filter (touches i lo hi) es of [] \<Rightarrow> SIVFS_INVALID_TS | e # _ \<Rightarrow> le_ts e)"
  using assms by (induction es) (auto simp: first_body_exact)

end
