(* ===== verification/Commit_Log.thy ===== *)
theory Commit_Log
  imports Commit
begin

text \<open>
  The log under commits: \<open>log_good\<close> is the invariant that every phase of a commit keeps, and the lemmas
  say what each phase does to the entries of the log.
\<close>

section \<open>Changing an entry in place\<close>

lemma linked_view:
  assumes "\<And>b. b \<in> set as \<Longrightarrow> le_prev (the (mem' b)) = le_prev (the (mem b)) \<and> le_next (the (mem' b)) = le_next (the (mem b))"
  shows "linked mem' as = linked mem as"
  using assms by (induction mem as rule: linked.induct) auto

definition keeps_links :: "(sivfs_log_entry \<Rightarrow> sivfs_log_entry) \<Rightarrow> bool" where
  "keeps_links f \<longleftrightarrow> (\<forall>e. le_prev (f e) = le_prev e \<and> le_next (f e) = le_next e)"

lemma log_inv_update:
  assumes inv: "log_inv s" and f: "keeps_links f" "map_option (entry_shape \<circ> f) (log_mem s p) = map_option entry_shape (log_mem s p)"
  shows "log_inv (log_update s p f)"
proof -
  let ?s = "log_update s p f"
  have same: "log_chunks ?s = log_chunks s" "master_log ?s = master_log s" "log_cache ?s = log_cache s"
    by (simp_all add: log_update_def)
  have shape: "map_option entry_shape (log_mem ?s a) = map_option entry_shape (log_mem s a)" for a
    using f(2) by (simp add: log_update_def option.map_comp)
  have links: "le_prev (the (log_mem ?s a)) = le_prev (the (log_mem s a)) \<and> le_next (the (log_mem ?s a)) = le_next (the (log_mem s a))"
    if "log_mem s a \<noteq> None" for a
    using that f(1) by (auto simp: log_update_def keeps_links_def)
  obtain cs where cs: "map snd (log_cache s) = concat (map snd cs)" "mem_layout s cs"
      "if cs = [] then master_log s = sivfs_init_log else cur_ok s (last cs)"
    using inv by (auto simp: log_inv_def)
  have lay: "mem_layout ?s cs" using mem_layout_shape [OF cs(2) same(1)] shape by blast
  have ends: "le_end (the (log_mem ?s a)) a = le_end (the (log_mem s a)) a" if "log_mem s a \<noteq> None" for a
    using entry_shape_end [of ?s a s] shape that by auto
  have cur: "cur_ok ?s (last cs)" if ne: "cs \<noteq> []"
  proof -
    obtain st as where l: "last cs = (st, as)" by fastforce
    have c: "cur_ok s (st, as)" using cs(3) ne l by simp
    have "entry_ok s st a" if "a \<in> insert (latest (master_log s)) (set as)" for a
      using c that mem_layout_chunk [OF cs(2), of st as] last_in_set [OF ne] l
      by (auto simp: cur_ok_def chunk_ok_def)
    then have "log_mem s a \<noteq> None" if "a \<in> insert (latest (master_log s)) (set as)" for a
      using that by (auto simp: entry_ok_def)
    then have "\<forall>a \<in> insert (latest (master_log s)) (set as). le_end (the (log_mem ?s a)) a = le_end (the (log_mem s a)) a"
      and "le_next (the (log_mem ?s (latest (master_log s)))) = le_next (the (log_mem s (latest (master_log s))))"
      using ends links by auto
    then show ?thesis
      using c entry_shape_ok [of ?s st s] same shape unfolding l cur_ok_def by auto
  qed
  have "log_mem s a \<noteq> None" if "a \<in> set (map snd (log_cache s))" for a
    using log_inv_entry [OF inv] that by auto
  then have "linked (log_mem ?s) (map snd (log_cache s)) = linked (log_mem s) (map snd (log_cache s))"
    using links by (intro linked_view) blast
  then show ?thesis
    using inv cs(1) lay cur cs(3) unfolding log_inv_def same by (auto intro!: exI [of _ cs])
qed

section \<open>Entries by timestamp\<close>

text \<open>The entry of timestamp \<open>t\<close>.\<close>

definition entry_at :: "sivfs_shared_state \<Rightarrow> sivfs_ts \<Rightarrow> sivfs_log_entry option" where
  "entry_at s t = (case radix_tree_lookup (log_cache s) t of None \<Rightarrow> None | Some a \<Rightarrow> log_mem s a)"

lemma log_between_iff:
  assumes "log_run s (log_cache s)" and "lo + 1 \<noteq> 0"
  shows "e \<in> set (log_between s lo hi) \<longleftrightarrow> (\<exists>t. lo < t \<and> t \<le> hi \<and> entry_at s t = Some e)"
proof -
  have rt: "rt_inv (log_cache s)" and mem: "\<And>i a. (i, a) \<in> set (log_cache s) \<Longrightarrow> \<exists>e. log_mem s a = Some e"
    using assms(1) by (auto simp: log_run_def)
  let ?from = "rt_from (log_cache s) (lo + 1)"
  have inv': "rt_inv ?from" using rt_inv_from [OF rt] .
  have tw: "set (takeWhile (\<lambda>(i, _). i \<le> hi) xs) = {x \<in> set xs. fst x \<le> hi}" if "rt_inv xs" for xs :: "u64 rt"
    using that
  proof (induction xs)
    case (Cons x xs)
    have "\<forall>y \<in> set xs. fst x < fst y" using Cons.prems by (auto simp: rt_inv_def)
    moreover have "rt_inv xs" using Cons.prems by (auto simp: rt_inv_def)
    ultimately show ?case using Cons.IH by (cases x) fastforce
  qed simp
  have slots: "(t, a) \<in> set ?from \<longleftrightarrow> radix_tree_lookup (log_cache s) t = Some a \<and> lo < t" for t a
    using rtree.slots_lookup [OF rt] inc_le_iff [OF assms(2)] by simp
  have mem': "\<exists>e. log_mem s a = Some e" if "radix_tree_lookup (log_cache s) t = Some a" for t a
    using mem map_of_SomeD that by (fastforce simp: radix_tree_lookup_def)
  have at: "entry_at s t = Some e \<longleftrightarrow> (\<exists>a. radix_tree_lookup (log_cache s) t = Some a \<and> e = the (log_mem s a))" for t
    using mem' [of t] by (cases "radix_tree_lookup (log_cache s) t") (auto simp: entry_at_def)
  have "e \<in> set (log_between s lo hi) \<longleftrightarrow> (\<exists>t a. (t, a) \<in> set ?from \<and> t \<le> hi \<and> e = the (log_mem s a))"
    unfolding log_between_def log_entries_def set_map tw [OF inv'] by (auto; blast)
  also have "\<dots> \<longleftrightarrow> (\<exists>t. lo < t \<and> t \<le> hi \<and> entry_at s t = Some e)"
    unfolding slots at by auto
  finally show ?thesis .
qed

lemma log_between_sorted:
  assumes "log_run s (log_cache s)"
  shows "sorted_wrt (<) (map le_ts (log_between s lo hi))"
proof -
  let ?xs = "takeWhile (\<lambda>(i, _). i \<le> hi) (rt_from (log_cache s) (lo + 1))"
  have "set ?xs \<subseteq> set (log_cache s)"
    by (metis rt_from_def set_dropWhileD set_takeWhileD subsetI)
  then have "map le_ts (log_entries s ?xs) = map fst ?xs"
    using assms by (force simp: log_entries_def log_run_def)
  moreover have "sorted_wrt (<) (map fst (take n ys))" if "rt_inv ys" for n and ys :: "u64 rt"
    using that by (metis rt_inv_def sorted_wrt_take take_map)
  moreover obtain n where "?xs = take n (rt_from (log_cache s) (lo + 1))" using takeWhile_eq_take by blast
  moreover have "rt_inv (rt_from (log_cache s) (lo + 1))" using rt_inv_from assms by (auto simp: log_run_def)
  ultimately show ?thesis by (metis log_between_def)
qed

section \<open>The invariant\<close>

text \<open>
  Well-formed memory, timestamps and writesets; every timestamp from the deleted part up to
  \<^verbatim>\<open>commit_started_ts\<close> has an entry, later ones have none.
\<close>

definition log_good :: "sivfs_shared_state \<Rightarrow> bool" where
  "log_good s \<longleftrightarrow> log_inv s \<and> log_stamped s \<and>
     (\<forall>t e. entry_at s t = Some e \<longrightarrow> ws_formed (le_ws e)) \<and>
     (\<forall>t. entry_at s t \<noteq> None \<longrightarrow> t \<le> commit_started_ts s) \<and>
     (\<forall>t. 0 < t \<longrightarrow> master_log_deleted_ts s \<le> t \<longrightarrow> t \<le> commit_started_ts s \<longrightarrow> entry_at s t \<noteq> None)"

lemma log_good_run: "log_good s \<Longrightarrow> log_run s (log_cache s)"
  by (simp add: log_good_def log_run_inv)

lemma entry_at_lookup: "entry_at s t \<noteq> None \<Longrightarrow> radix_tree_lookup (log_cache s) t \<noteq> None"
  by (auto simp: entry_at_def split: option.splits)

lemma lookup_entry_at: "log_inv s \<Longrightarrow> radix_tree_lookup (log_cache s) t = Some a \<Longrightarrow> entry_at s t = log_mem s a \<and> log_mem s a \<noteq> None"
  using log_inv_entry [of s t a] by (auto simp: entry_at_def radix_tree_lookup_def dest: map_of_SomeD)

lemma in_cache_lookup: "log_inv s \<Longrightarrow> (t, a) \<in> set (log_cache s) \<Longrightarrow> radix_tree_lookup (log_cache s) t = Some a"
  by (simp add: log_inv_def radix_tree_lookup_def rt_inv_distinct)

lemma log_good_ts: "log_good s \<Longrightarrow> entry_at s t = Some e \<Longrightarrow> le_ts e = t"
  by (auto simp: log_good_def log_stamped_def entry_at_def radix_tree_lookup_def split: option.splits dest!: map_of_SomeD)

text \<open>What nobody but the owner of an entry changes.\<close>

definition entry_view :: "sivfs_log_entry \<Rightarrow> sivfs_ts \<times> sivfs_writeset \<times> bool \<times> bool" where
  "entry_view e = (le_ts e, le_ws e, le_aborted e, le_commit_status_filled_in e)"

lemma writeset_copy_repr:
  assumes "ws_repr src es"
  shows "\<exists>ws. sivfs_writeset_copy \<lparr>capacity_bytes = size_bytes src, size_bytes = 0,
      entries = replicate (words_of_bytes (size_bytes src)) 0\<rparr> src = (OK, ws) \<and> ws_repr ws es \<and>
      capacity_bytes ws = size_bytes src"
proof -
  let ?n = "length (ws_encode es)"
  have r: "size_bytes src = bytes ?n" "?n < 2 ^ 58" "?n \<le> length (entries src)"
      "take ?n (entries src) = ws_encode es" "list_all wse_valid es"
    using assms by (simp_all add: ws_repr_def)
  have w: "words_of_bytes (bytes ?n) = ?n" using r(2) by (simp add: words_of_bytes_def)
  show ?thesis using r w by (simp add: sivfs_writeset_copy_def memcpy_words_def ws_repr_def)
qed

lemma ws_formed_size: "ws_formed ws \<Longrightarrow> unat (size_bytes ws) < 2 ^ 62"
  by (auto simp: ws_formed_def ws_repr_def)

section \<open>Phase I\<close>

lemma commit_allocate_ok:
  assumes good: "log_good s" and ws: "ws_formed ws" and room: "commit_started_ts s + 1 \<noteq> 0"
    and km: "kmalloc_ok s start (log_chunk_real (size_bytes ws))"
  shows "\<exists>a s' e. commit_allocate (Some start) True s ws = (OK, a, s') \<and> log_good s' \<and>
    radix_tree_lookup (log_cache s') (commit_started_ts s + 1) = Some a \<and>
    entry_at s' (commit_started_ts s + 1) = Some e \<and> entry_view e = (commit_started_ts s + 1, le_ws e, False, False) \<and>
    ws_list (le_ws e) = ws_list ws \<and> master_ts s' = master_ts s \<and> commit_started_ts s' = commit_started_ts s + 1 \<and>
    master_log_deleted_ts s' = master_log_deleted_ts s \<and>
    (\<forall>t. t \<noteq> commit_started_ts s + 1 \<longrightarrow> map_option entry_view (entry_at s' t) = map_option entry_view (entry_at s t)) \<and>
    log_cache s' = log_cache s @ [(commit_started_ts s + 1, a)]"
proof -
  let ?ts = "commit_started_ts s + 1"
  have inv: "log_inv s" and st: "log_stamped s" using good by (simp_all add: log_good_def)
  have newest: "\<forall>i \<in> fst ` set (log_cache s). i < ?ts"
  proof
    fix i assume "i \<in> fst ` set (log_cache s)"
    then obtain a where "(i, a) \<in> set (log_cache s)" by auto
    then have "entry_at s i \<noteq> None" using in_cache_lookup [OF inv] lookup_entry_at [OF inv] by metis
    then have "i \<le> commit_started_ts s" using good by (simp add: log_good_def)
    then show "i < ?ts" using room by (simp add: word_less_nat_alt word_le_nat_alt unat_inc)
  qed
  obtain a s1 where c: "sivfs_create_log_entry (Some start) True s ?ts ws = (OK, a, s1)" "log_inv s1"
      "log_cache s1 = log_cache s @ [(?ts, a)]" "radix_tree_lookup (log_cache s1) ?ts = Some a"
      "\<forall>b. b \<noteq> a \<longrightarrow> b \<noteq> latest (master_log s) \<longrightarrow> log_mem s1 b = log_mem s b"
      "latest (master_log s) \<noteq> 0 \<longrightarrow> log_mem s1 (latest (master_log s)) =
         map_option (\<lambda>e. e\<lparr>le_next := a\<rparr>) (log_mem s (latest (master_log s)))"
    using create_log_entry_ok [OF inv newest ws_formed_size [OF ws] km] by blast
  note fr = create_log_entry_fresh [OF c(1)]
  obtain fc prev nxt where e1: "log_mem s1 a = Some (sivfs_init_log_entry
      \<lparr>le_ws := \<lparr>capacity_bytes = size_bytes ws, size_bytes = 0,
                 entries = replicate (words_of_bytes (size_bytes ws)) 0\<rparr>,
       le_first_in_chunk := fc, le_prev := prev, le_next := nxt\<rparr>)" (is "_ = Some ?e1")
    using fr(1) by blast
  obtain es where es: "ws_repr ws es" using ws by (auto simp: ws_formed_def)
  obtain ws' where ws': "sivfs_writeset_copy (le_ws ?e1) ws = (OK, ws')" "ws_repr ws' es"
      "capacity_bytes ws' = size_bytes ws"
    using writeset_copy_repr [OF es] by auto
  let ?f = "\<lambda>e. e\<lparr>le_ws := ws', le_ts := ?ts, le_aborted := False\<rparr>"
  let ?s2 = "s1\<lparr>commit_started_ts := ?ts\<rparr>"
  define s' where "s' = log_update ?s2 a ?f"
  have run: "commit_allocate (Some start) True s ws = (OK, a, s')"
    using c(1) e1 ws'(1) by (simp add: commit_allocate_def s'_def Let_def)
  have "log_inv ?s2" using c(2) log_inv_cong [of ?s2 s1] by simp
  then have inv': "log_inv s'" unfolding s'_def
    using e1 ws'(3) by (intro log_inv_update) (simp_all add: keeps_links_def entry_shape_def)
  have cache': "log_cache s' = log_cache s1" by (simp add: s'_def log_update_def)
  have mem': "log_mem s' = (log_mem s1)(a \<mapsto> ?f ?e1)" using e1 by (simp add: s'_def log_update_def)
  have "a \<notin> set (map snd (log_cache s))" using c(2,3) by (auto simp: log_inv_def)
  have old: "map_option entry_view (entry_at s' t) = map_option entry_view (entry_at s t)" if "t \<noteq> ?ts" for t
  proof -
    have lk: "radix_tree_lookup (log_cache s') t = radix_tree_lookup (log_cache s) t"
      using that c(3) cache' by (simp add: radix_tree_lookup_def map_add_def split: option.splits)
    show ?thesis
    proof (cases "radix_tree_lookup (log_cache s) t")
      case None
      then show ?thesis using lk by (simp add: entry_at_def)
    next
      case (Some b)
      then have b: "b \<noteq> a" "b \<noteq> 0" using \<open>a \<notin> _\<close> log_inv_entry [OF inv, of t b]
        by (auto simp: radix_tree_lookup_def dest!: map_of_SomeD) (metis imageI snd_conv)
      then have "map_option entry_view (log_mem s1 b) = map_option entry_view (log_mem s b)"
        using c(5,6) by (cases "b = latest (master_log s)") (auto simp: option.map_comp comp_def entry_view_def [abs_def])
      then show ?thesis using b mem' lk Some by (simp add: entry_at_def)
    qed
  qed
  have new: "radix_tree_lookup (log_cache s') ?ts = Some a" "entry_at s' ?ts = Some (?f ?e1)"
    using c(4) cache' mem' by (simp_all add: entry_at_def)
  have other: "master_ts s' = master_ts s" "commit_started_ts s' = ?ts" "master_log_deleted_ts s' = master_log_deleted_ts s"
    using fr(2-4) by (simp_all add: s'_def log_update_def)
  have view: "entry_view (?f ?e1) = (?ts, ws', False, False)"
    by (simp add: entry_view_def sivfs_init_log_entry_def)
  have stamp': "log_stamped s'"
  proof -
    have "map_option le_ts (log_mem s' b) = Some i" if "(i, b) \<in> set (log_cache s')" for i b
    proof (cases "i = ?ts")
      case True
      then have "b = a" using in_cache_lookup [OF inv' that] new(1) by simp
      then show ?thesis using mem' True by simp
    next
      case False
      have at: "entry_at s' i = log_mem s' b" using lookup_entry_at [OF inv' in_cache_lookup [OF inv' that]] by simp
      have "(i, b) \<in> set (log_cache s)" using that False c(3) cache' by simp
      then have "entry_at s i = log_mem s b" "map_option le_ts (log_mem s b) = Some i"
        using lookup_entry_at [OF inv in_cache_lookup [OF inv]] st by (auto simp: log_stamped_def)
      then have "map_option (fst \<circ> entry_view) (entry_at s i) = Some i" by (auto simp: entry_view_def)
      then show ?thesis using old [OF False] at unfolding option.map_comp [symmetric]
        by (cases "log_mem s' b") (auto simp: entry_view_def)
    qed
    then show ?thesis by (auto simp: log_stamped_def)
  qed
  have formed': "ws_formed (le_ws e)" if now: "entry_at s' t = Some e" for t e
  proof (cases "t = ?ts")
    case True
    then show ?thesis using new(2) now ws'(2) by (auto simp: ws_formed_def)
  next
    case False
    then obtain e0 where "entry_at s t = Some e0" "le_ws e0 = le_ws e"
      using old [OF False] now by (cases "entry_at s t") (auto simp: entry_view_def)
    then show ?thesis using good by (metis log_good_def)
  qed
  have dom': "entry_at s' t \<noteq> None \<longleftrightarrow> t = ?ts \<or> entry_at s t \<noteq> None" for t
    using old [of t] new(2) by (cases "t = ?ts"; cases "entry_at s t"; cases "entry_at s' t") auto
  have good': "log_good s'"
    using good inv' stamp' formed' unfolding log_good_def other dom' le_inc_iff [OF room] by blast
  show ?thesis
    using run good' new view other old c(3) cache' ws_list_repr [OF es] ws_list_repr [OF ws'(2)]
    by (intro exI [of _ a] exI [of _ s'] exI [of _ "?f ?e1"]) simp
qed

section \<open>Phases II and III\<close>

lemma lookup_inj:
  assumes "log_inv s" and "radix_tree_lookup (log_cache s) t = Some a" and "radix_tree_lookup (log_cache s) u = Some a"
  shows "t = u"
proof -
  have "(t, a) \<in> set (log_cache s)" "(u, a) \<in> set (log_cache s)" "distinct (map snd (log_cache s))"
    using assms by (auto simp: radix_tree_lookup_def log_inv_def dest: map_of_SomeD)
  then show ?thesis by (metis distinct_map inj_onD prod.inject snd_conv)
qed

lemma entry_at_update:
  assumes "log_inv s" and "radix_tree_lookup (log_cache s) t = Some a"
  shows "entry_at (log_update s a f) u = (if u = t then map_option f (entry_at s t) else entry_at s u)"
proof (cases "u = t")
  case True
  then show ?thesis using assms(2) by (simp add: entry_at_def log_update_def)
next
  case False
  then have "radix_tree_lookup (log_cache s) u \<noteq> Some a" using lookup_inj [OF assms] by blast
  then show ?thesis using False
    by (cases "radix_tree_lookup (log_cache s) u") (simp_all add: entry_at_def log_update_def)
qed

lemma log_good_update:
  assumes good: "log_good s" and a: "radix_tree_lookup (log_cache s) t = Some a"
    and f: "\<And>e. log_mem s a = Some e \<Longrightarrow> f e = e\<lparr>le_aborted := x, le_commit_status_filled_in := y\<rparr>"
  shows "log_good (log_update s a f)"
proof -
  let ?g = "\<lambda>e. e\<lparr>le_aborted := x, le_commit_status_filled_in := y\<rparr>"
  have s': "log_update s a f = log_update s a ?g"
    using f by (cases "log_mem s a") (auto simp: log_update_def)
  have inv: "log_inv s" using good by (simp add: log_good_def)
  have inv': "log_inv (log_update s a ?g)"
    by (rule log_inv_update [OF inv]) (simp_all add: keeps_links_def entry_shape_def [abs_def] comp_def)
  note at = entry_at_update [OF inv a, of ?g]
  have "log_stamped (log_update s a ?g)"
    using good by (auto simp: log_good_def log_stamped_def log_update_def option.map_comp comp_def)
  moreover have "entry_at (log_update s a ?g) u \<noteq> None \<longleftrightarrow> entry_at s u \<noteq> None" for u using at [of u] by simp
  moreover have "ws_formed (le_ws e)" if "entry_at (log_update s a ?g) u = Some e" for u e
    using that at [of u] good by (auto simp: log_good_def split: if_splits)
  moreover have "commit_started_ts (log_update s a ?g) = commit_started_ts s"
      "master_log_deleted_ts (log_update s a ?g) = master_log_deleted_ts s" by (simp_all add: log_update_def)
  ultimately show ?thesis using good inv' unfolding s' log_good_def by presburger
qed

lemma entry_at_ts_change: "entry_at (s\<lparr>master_ts := t\<rparr>) = entry_at s"
  by (auto simp: entry_at_def fun_eq_iff split: option.split)

lemma log_good_ts_change: "log_good (s\<lparr>master_ts := t\<rparr>) = log_good s"
  using log_inv_cong [of "s\<lparr>master_ts := t\<rparr>" s]
  by (simp add: log_good_def entry_at_ts_change log_stamped_def)

lemma log_good_formed:
  assumes "log_good s" and "lo + 1 \<noteq> 0"
  shows "list_all (\<lambda>e. ws_formed (le_ws e)) (log_between s lo hi)"
  using assms log_between_iff [OF log_good_run [OF assms(1)] assms(2)] by (auto simp: list_all_iff log_good_def)

lemma log_good_validate:
  assumes good: "log_good s" and t: "entry_at s t = Some e" "\<not> le_aborted e"
    and snap: "snap + 1 < t" "snap + 1 \<noteq> 0" and del: "master_log_deleted_ts s \<le> snap + 1"
  shows "sivfs_validate s e (snap + 1) (t - 1) =
    (OK, e\<lparr>le_aborted := \<exists>u d. snap < u \<and> u < t \<and> entry_at s u = Some d \<and> blocks (le_ws e) d\<rparr>)"
proof -
  have le: "t \<le> commit_started_ts s" and ws: "ws_formed (le_ws e)" using good t(1) by (auto simp: log_good_def)
  have t1: "(t - 1) + 1 \<noteq> 0" using snap(1) by auto
  have lt: "u \<le> t - 1 \<longleftrightarrow> u < t" for u using less_inc_iff [OF t1, of u] by simp
  have "snap < t - 1" using inc_le_iff [OF snap(2), of "t - 1"] lt [of "snap + 1"] snap(1) by simp
  have "0 < snap + 1" using snap(2) by (simp add: word_gt_0)
  then have "entry_at s (snap + 1) \<noteq> None"
    using good snap(1) le del by (simp add: log_good_def)
  then have "sivfs_validate s e (snap + 1) (t - 1) =
      (OK, e\<lparr>le_aborted := \<exists>d \<in> set (log_between s snap (t - 1)). blocks (le_ws e) d\<rparr>)"
    using validate_exact [OF log_good_run [OF good] entry_at_lookup \<open>snap < t - 1\<close> del
        log_good_formed [OF good snap(2)] ws t(2)] by simp
  moreover have "(\<exists>d \<in> set (log_between s snap (t - 1)). blocks (le_ws e) d) \<longleftrightarrow>
      (\<exists>u d. snap < u \<and> u < t \<and> entry_at s u = Some d \<and> blocks (le_ws e) d)"
    unfolding Bex_def log_between_iff [OF log_good_run [OF good] snap(2)] lt by blast
  ultimately show ?thesis by simp
qed

lemma commit_validate_ok:
  assumes good: "log_good s" and t: "radix_tree_lookup (log_cache s) t = Some a" "entry_at s t = Some e" "\<not> le_aborted e"
    and snap: "snap < t" "snap + 2 \<noteq> 0" "snap + 1 \<noteq> 0" and del: "master_log_deleted_ts s \<le> snap + 1"
  shows "\<exists>s'. commit_validate s a t snap = (OK, s') \<and> log_good s' \<and> log_cache s' = log_cache s \<and>
    (\<forall>u. entry_at s' u = (if u = t then Some (e\<lparr>le_commit_status_filled_in := True,
        le_aborted := \<exists>u d. snap < u \<and> u < t \<and> entry_at s u = Some d \<and> blocks (le_ws e) d\<rparr>) else entry_at s u)) \<and>
    master_ts s' = master_ts s \<and> commit_started_ts s' = commit_started_ts s \<and>
    master_log_deleted_ts s' = master_log_deleted_ts s"
proof -
  let ?ab = "\<exists>u d. snap < u \<and> u < t \<and> entry_at s u = Some d \<and> blocks (le_ws e) d"
  have inv: "log_inv s" using good by (simp add: log_good_def)
  have mem: "log_mem s a = Some e" using lookup_entry_at [OF inv t(1)] t(2) by simp
  have two: "snap + 2 \<le> t \<longleftrightarrow> snap + 1 < t"
    using inc_le_iff [of "snap + 1" t] snap(2) by (simp add: add.assoc)
  define s' where "s' = log_update s a (\<lambda>_. e\<lparr>le_aborted := ?ab, le_commit_status_filled_in := True\<rparr>)"
  have "commit_validate s a t snap = (OK, s')"
  proof (cases "snap + 1 < t")
    case True
    then show ?thesis
      using log_good_validate [OF good t(2,3) True snap(3) del] mem two
      by (simp add: commit_validate_def s'_def)
  next
    case False
    then have "t = snap + 1" using inc_le_iff [OF snap(3), of t] snap(1) by simp
    then have "\<not> (snap < u \<and> u < t)" for u using less_inc_iff [OF snap(3), of u] by (simp add: not_less)
    then have ab: "?ab = False" by blast
    have "e\<lparr>le_aborted := False\<rparr> = e" using t(3) by simp
    then show ?thesis using mem two False unfolding s'_def ab by (simp add: commit_validate_def)
  qed
  moreover have "log_good s'" unfolding s'_def using mem by (intro log_good_update [OF good t(1)]) simp
  moreover have "entry_at s' u = (if u = t then Some (e\<lparr>le_commit_status_filled_in := True, le_aborted := ?ab\<rparr>)
      else entry_at s u)" for u
    using entry_at_update [OF inv t(1)] t(2) by (simp add: s'_def)
  moreover have "log_cache s' = log_cache s" "master_ts s' = master_ts s" "commit_started_ts s' = commit_started_ts s"
    "master_log_deleted_ts s' = master_log_deleted_ts s" by (simp_all add: s'_def log_update_def)
  ultimately show ?thesis by blast
qed

section \<open>Properties\<close>

lemma ex_log_good: "log_good ex_log"
proof -
  have at: "entry_at ex_log t = (if t = 1 then Some ex_entry else None)" for t
    by (simp add: entry_at_def ex_log_def radix_tree_lookup_def)
  have f: "ws_formed (le_ws ex_entry)" using ex_repr by (auto simp: ws_formed_def)
  have "commit_started_ts ex_log = 1" by (simp add: ex_log_def)
  moreover have "t = 1" if "0 < t" "t \<le> 1" for t :: u64
    using inc_le [OF that(1)] that(2) by simp
  ultimately show ?thesis unfolding log_good_def at using ex_log_inv f by (simp split: if_splits)
qed

lemma commit_changes_ok:
  assumes "log_good s" and "master_ts s = commit_started_ts s" and "snap \<le> master_ts s"
    and "master_log_deleted_ts s \<le> snap + 1" and "ws_formed (le_ws lw)" and "unat (master_ts s) + 2 < 2 ^ 64"
    and "kmalloc_ok s start (log_chunk_real (size_bytes (le_ws lw)))"
  shows "\<exists>s' e throttled. sivfs_commit_changes False (Some start) True published s snap lw =
      (OK, master_ts s + 1, le_aborted e, throttled, s') \<and>
    (le_aborted e \<longleftrightarrow> (\<exists>t d. snap < t \<and> t \<le> master_ts s \<and> entry_at s t = Some d \<and> blocks (le_ws lw) d)) \<and>
    log_good s' \<and> master_ts s' = master_ts s + 1 \<and> commit_started_ts s' = master_ts s' \<and>
    entry_at s' (master_ts s + 1) = Some e \<and> ws_list (le_ws e) = ws_list (le_ws lw) \<and>
    le_ts e = master_ts s + 1 \<and> master_log_deleted_ts s' = master_log_deleted_ts s \<and>
    (\<forall>t. t \<noteq> master_ts s + 1 \<longrightarrow> map_option entry_view (entry_at s' t) = map_option entry_view (entry_at s t))"
proof -
  let ?t = "master_ts s + 1"
  have room: "master_ts s + 1 \<noteq> 0" using assms(6) unat_add_u64 [of "master_ts s" 1] by auto
  have "unat snap + 2 < 2 ^ 64" using assms(3,6) by (simp add: word_le_nat_alt)
  then have snap: "snap + 1 \<noteq> 0" "snap + 2 \<noteq> 0"
    using unat_add_u64 [of snap 1] unat_add_u64 [of snap 2] by auto
  obtain a s1 e1 where 1: "commit_allocate (Some start) True s (le_ws lw) = (OK, a, s1)" "log_good s1"
      "radix_tree_lookup (log_cache s1) ?t = Some a" "entry_at s1 ?t = Some e1"
      "entry_view e1 = (?t, le_ws e1, False, False)" "ws_list (le_ws e1) = ws_list (le_ws lw)"
      "master_ts s1 = master_ts s" "commit_started_ts s1 = ?t" "master_log_deleted_ts s1 = master_log_deleted_ts s"
      "\<forall>t. t \<noteq> ?t \<longrightarrow> map_option entry_view (entry_at s1 t) = map_option entry_view (entry_at s t)"
    using commit_allocate_ok [OF assms(1,5) _ assms(7)] room assms(2) by auto
  let ?ab = "\<lambda>s ws. \<exists>u d. snap < u \<and> u < ?t \<and> entry_at s u = Some d \<and> blocks ws d"
  have na: "\<not> le_aborted e1" using 1(5) by (simp add: entry_view_def)
  have "snap < ?t" using assms(3) less_inc_iff [OF room] by simp
  then obtain s2 where 2: "commit_validate s1 a ?t snap = (OK, s2)" "log_good s2" "log_cache s2 = log_cache s1"
      "\<forall>u. entry_at s2 u = (if u = ?t then Some (e1\<lparr>le_commit_status_filled_in := True,
         le_aborted := ?ab s1 (le_ws e1)\<rparr>) else entry_at s1 u)"
      "master_ts s2 = master_ts s" "commit_started_ts s2 = ?t" "master_log_deleted_ts s2 = master_log_deleted_ts s"
    using commit_validate_ok [OF 1(2,3,4) na, of snap] snap assms(4) 1(7-9) by auto
  define e where "e = e1\<lparr>le_commit_status_filled_in := True, le_aborted := ?ab s1 (le_ws e1)\<rparr>"
  define s' where "s' = s2\<lparr>master_ts := ?t\<rparr>"
  have at: "entry_at s' = entry_at s2" by (simp add: s'_def entry_at_ts_change)
  have e2: "entry_at s2 ?t = Some e" using 2(4) by (simp add: e_def)
  then have "log_mem s' a = Some e"
    using lookup_entry_at [of s2 ?t a] 1(3) 2(2,3) by (simp add: log_good_def s'_def)
  then have run: "sivfs_commit_changes False (Some start) True published s snap lw =
      (OK, ?t, le_aborted e, ?t > published + SIVFS_MAX_WRITE_TXNS_SINCE_CHECKPOINT, s')"
    using 1(1) 2(1,5) assms(2) by (simp add: sivfs_commit_changes_def commit_release_def s'_def Let_def)
  have ab: "le_aborted e \<longleftrightarrow> (\<exists>t d. snap < t \<and> t \<le> master_ts s \<and> entry_at s t = Some d \<and> blocks (le_ws lw) d)"
  proof -
    have b: "(\<exists>d. entry_at s1 u = Some d \<and> blocks (le_ws e1) d) \<longleftrightarrow> (\<exists>d. entry_at s u = Some d \<and> blocks (le_ws lw) d)"
      if "u < ?t" for u
    proof -
      have "map_option entry_view (entry_at s1 u) = map_option entry_view (entry_at s u)" using 1(10) that by auto
      then show ?thesis using 1(6)
        by (cases "entry_at s u"; cases "entry_at s1 u") (auto simp: entry_view_def blocks_def ws_conflict_def)
    qed
    have "le_aborted e \<longleftrightarrow> ?ab s1 (le_ws e1)" by (simp add: e_def)
    then show ?thesis unfolding less_inc_iff [OF room, symmetric] using b by blast
  qed
  have old: "\<forall>t. t \<noteq> ?t \<longrightarrow> map_option entry_view (entry_at s' t) = map_option entry_view (entry_at s t)"
    using 1(10) 2(4) at by simp
  have "log_good s'" "master_ts s' = ?t" "commit_started_ts s' = ?t" "ws_list (le_ws e) = ws_list (le_ws lw)"
    "le_ts e = ?t" "master_log_deleted_ts s' = master_log_deleted_ts s"
    using 2(2,6,7) 1(5,6) log_good_ts_change [of ?t s2] by (simp_all add: s'_def e_def entry_view_def)
  then show ?thesis using run ab old e2 at by (intro exI [of _ s'] exI [of _ e]) auto
qed



lemma first_write_found:
  assumes "log_good s" and "start_ts \<le> end_ts" and "end_ts \<le> commit_started_ts s"
    and "master_log_deleted_ts s \<le> start_ts + 1" and "end_ts \<noteq> SIVFS_INVALID_TS" and "lo < hi"
  shows "\<exists>t. sivfs_find_first_write s start_ts end_ts i lo hi = (OK, t) \<and>
    (t = SIVFS_INVALID_TS \<longrightarrow> (\<forall>u e. start_ts < u \<longrightarrow> u \<le> end_ts \<longrightarrow> entry_at s u = Some e \<longrightarrow> \<not> touches i lo hi e)) \<and>
    (t \<noteq> SIVFS_INVALID_TS \<longrightarrow> start_ts < t \<and> t \<le> end_ts \<and> (\<exists>e. entry_at s t = Some e \<and> touches i lo hi e) \<and>
       (\<forall>u e. start_ts < u \<longrightarrow> u < t \<longrightarrow> entry_at s u = Some e \<longrightarrow> \<not> touches i lo hi e))"
proof (cases "start_ts = end_ts")
  case True
  then show ?thesis using assms(6) by (auto simp: sivfs_find_first_write_def)
next
  case False
  have se: "start_ts < end_ts" using False assms(2) by simp
  have nz: "start_ts + 1 \<noteq> 0"
    using se assms(5) by (metis SIVFS_INVALID_TS_def ts_less_INVALID add_eq_0_iff2 add.commute
        order_less_imp_not_less)
  note run = log_good_run [OF assms(1)]
  have "0 < start_ts + 1" using nz by (simp add: word_gt_0)
  then have "entry_at s (start_ts + 1) \<noteq> None"
    using assms(1,3,4) inc_le [OF se] by (simp add: log_good_def)
  then obtain a where a: "sivfs_ts_to_log_entry s (start_ts + 1) (start_ts + 1) end_ts = (OK, a)" "a \<noteq> 0"
      "first_write_loop s end_ts i lo hi (Suc (length (log_cache s))) a =
       run_entries (first_body i lo hi) (log_between s start_ts end_ts) SIVFS_INVALID_TS"
    using searching.walk_from [OF run entry_at_lookup se assms(4), of end_ts i lo hi SIVFS_INVALID_TS] by blast
  let ?es = "log_between s start_ts end_ts"
  let ?t = "case filter (touches i lo hi) ?es of [] \<Rightarrow> SIVFS_INVALID_TS | e # _ \<Rightarrow> le_ts e"
  have res: "sivfs_find_first_write s start_ts end_ts i lo hi = (OK, ?t)"
    using a run_first [OF log_good_formed [OF assms(1) nz, of end_ts], of i lo hi] se assms(6) False
    by (auto simp: sivfs_find_first_write_def simp del: first_write_loop.simps)
  note mem = log_between_iff [OF run nz, of _ end_ts]
  show ?thesis
  proof (cases "filter (touches i lo hi) ?es")
    case Nil
    then have "\<not> touches i lo hi e" if "e \<in> set ?es" for e using that by (auto simp: filter_empty_conv)
    then show ?thesis using res Nil mem by auto
  next
    case (Cons e rest)
    then obtain ys zs where es: "?es = ys @ e # zs" "\<forall>y \<in> set ys. \<not> touches i lo hi y" "touches i lo hi e"
      by (auto simp: filter_eq_Cons_iff)
    have "e \<in> set ?es" using es by simp
    then obtain t where t: "start_ts < t" "t \<le> end_ts" "entry_at s t = Some e" using mem by blast
    have ts: "le_ts e = t" using log_good_ts [OF assms(1) t(3)] .
    have "\<not> touches i lo hi d" if d: "start_ts < u" "u < t" "entry_at s u = Some d" for u d
    proof -
      have du: "le_ts d = u" using log_good_ts [OF assms(1) d(3)] .
      have "d \<in> set ?es" using mem d t(2) by (metis order_less_le_trans order_less_imp_le)
      moreover have "sorted_wrt (<) (map le_ts ?es)" by (rule log_between_sorted [OF run])
      ultimately have "d \<in> set ys" using es(1) du ts d(2) by (auto simp: sorted_wrt_append)
      then show ?thesis using es(2) by blast
    qed
    moreover have "t \<noteq> SIVFS_INVALID_TS" using t(2) assms(5) ts_le_INVALID [of end_ts] by (metis order_antisym)
    ultimately show ?thesis using res Cons ts t es(3) by auto
  qed
qed

text \<open>
  The search for the first write.  On a log that still has the timestamps after \<open>start_ts\<close>,
  \<^verbatim>\<open>sivfs_find_first_write\<close> returns \<^verbatim>\<open>SIVFS_INVALID_TS\<close> exactly when no non-aborted transaction in
  \<open>(start_ts, end_ts]\<close> wrote to the range of the file, and otherwise the timestamp of the first one that did.
\<close>

theorem find_first_write_exact:
  assumes "log_good s" and "start_ts \<le> end_ts" and "end_ts \<le> commit_started_ts s"
    and "master_log_deleted_ts s \<le> start_ts + 1" and "end_ts \<noteq> SIVFS_INVALID_TS" and "lo < hi"
  shows "\<exists>t. sivfs_find_first_write s start_ts end_ts i lo hi = (OK, t) \<and>
    (t = SIVFS_INVALID_TS \<longrightarrow> (\<forall>u e. start_ts < u \<longrightarrow> u \<le> end_ts \<longrightarrow> entry_at s u = Some e \<longrightarrow> \<not> touches i lo hi e)) \<and>
    (t \<noteq> SIVFS_INVALID_TS \<longrightarrow> start_ts < t \<and> t \<le> end_ts \<and> (\<exists>e. entry_at s t = Some e \<and> touches i lo hi e) \<and>
       (\<forall>u e. start_ts < u \<longrightarrow> u < t \<longrightarrow> entry_at s u = Some e \<longrightarrow> \<not> touches i lo hi e))"
  by (rule first_write_found [OF assms])

theorem find_first_write_exact_witness:
  "\<exists>t. sivfs_find_first_write ex_log 0 1 5 4096 8192 = (OK, t) \<and> t = 1"
proof -
  have m: "commit_started_ts ex_log = 1" "master_log_deleted_ts ex_log = 0"
    by (simp_all add: ex_log_def empty_log_def)
  have at: "entry_at ex_log u = (if u = 1 then Some ex_entry else None)" for u
    by (simp add: entry_at_def ex_log_def radix_tree_lookup_def)
  have "touches 5 4096 8192 ex_entry"
    using ex_writes by (simp add: touches_def sivfs_range_overlaps_wsent_def) (simp add: ex_write_def)
  moreover have "(1::u64) \<noteq> SIVFS_INVALID_TS" by (simp add: SIVFS_INVALID_TS_def)
  ultimately show ?thesis
    using find_first_write_exact [OF ex_log_good, of 0 1 4096 8192 5] m at by (auto split: if_splits)
qed

end
