(* ===== verification/Commit_Steps.thy ===== *)
theory Commit_Steps
  imports Commit_Log
begin

text \<open>
  Concurrent commits.  Every transaction runs the phases of \<^verbatim>\<open>sivfs_commit_changes\<close>; phase I is atomic (it
  holds the commit lock), validation proceeds one log entry at a time while other transactions append,
  validate and abort, and the release waits for its turn on \<^verbatim>\<open>master_ts\<close>.  \<open>commit_step\<close> is one step of one
  transaction, so the reachable states are those of every interleaving.  \<open>cs_snap\<close> records, for the
  statements only, the snapshot a timestamp's transaction ran on.
\<close>

section \<open>Steps\<close>

datatype txn_phase =
    Idle
  | Running sivfs_ts
  | Appended sivfs_ts u64 sivfs_ts
  | Validating sivfs_ts u64 u64
  | Checked sivfs_ts u64
  | Decided sivfs_ts

record commit_sys =
  cs_shared :: sivfs_shared_state
  cs_txn :: "nat \<Rightarrow> txn_phase"
  cs_snap :: "sivfs_ts \<Rightarrow> sivfs_ts"

definition set_txn :: "commit_sys \<Rightarrow> nat \<Rightarrow> txn_phase \<Rightarrow> sivfs_shared_state \<Rightarrow> commit_sys" where
  "set_txn y i ph s = y\<lparr>cs_shared := s, cs_txn := (cs_txn y)(i := ph)\<rparr>"

inductive commit_step :: "commit_sys \<Rightarrow> commit_sys \<Rightarrow> bool" where
  begin_txn: "cs_txn y i = Idle \<Longrightarrow>
    commit_step y (set_txn y i (Running (master_ts (cs_shared y))) (cs_shared y))"
| append: "cs_txn y i = Running snap \<Longrightarrow> ws_formed ws \<Longrightarrow>
    unat (commit_started_ts (cs_shared y)) + 2 < 2 ^ 64 \<Longrightarrow>
    kmalloc_ok (cs_shared y) start (log_chunk_real (size_bytes ws)) \<Longrightarrow>
    commit_allocate (Some start) True (cs_shared y) ws = (OK, log_dest, s') \<Longrightarrow>
    commit_step y ((set_txn y i (Appended (commit_started_ts (cs_shared y) + 1) log_dest snap) s')
      \<lparr>cs_snap := (cs_snap y)(commit_started_ts (cs_shared y) + 1 := snap)\<rparr>)"
| append_nomem: "cs_txn y i = Running snap \<Longrightarrow>
    commit_allocate None True (cs_shared y) ws = (E ENOMEM, log_dest, s') \<Longrightarrow>
    commit_step y (set_txn y i Idle s')"
| skip_validation: "cs_txn y i = Appended t log_dest snap \<Longrightarrow> \<not> t \<ge> snap + 2 \<Longrightarrow>
    commit_step y (set_txn y i (Checked t log_dest) (cs_shared y))"
| start_validation: "cs_txn y i = Appended t log_dest snap \<Longrightarrow> t \<ge> snap + 2 \<Longrightarrow>
    sivfs_ts_to_log_entry (cs_shared y) (snap + 1) (snap + 1) (t - 1) = (OK, clog) \<Longrightarrow>
    commit_step y (set_txn y i (Validating t log_dest clog) (cs_shared y))"
| validate_on: "cs_txn y i = Validating t log_dest clog \<Longrightarrow> log_mem (cs_shared y) log_dest = Some e \<Longrightarrow>
    validate_iter (cs_shared y) (t - 1) e clog = (OK, e', Some next_clog) \<Longrightarrow>
    commit_step y (set_txn y i (Validating t log_dest next_clog)
      (log_update (cs_shared y) log_dest (\<lambda>_. e')))"
| validate_end: "cs_txn y i = Validating t log_dest clog \<Longrightarrow> log_mem (cs_shared y) log_dest = Some e \<Longrightarrow>
    validate_iter (cs_shared y) (t - 1) e clog = (OK, e', None) \<Longrightarrow>
    commit_step y (set_txn y i (Checked t log_dest) (log_update (cs_shared y) log_dest (\<lambda>_. e')))"
| fill_status: "cs_txn y i = Checked t log_dest \<Longrightarrow>
    commit_step y (set_txn y i (Decided t)
      (log_update (cs_shared y) log_dest (\<lambda>e. e\<lparr>le_commit_status_filled_in := True\<rparr>)))"
| release: "cs_txn y i = Decided t \<Longrightarrow> commit_release (cs_shared y) t = (OK, s') \<Longrightarrow>
    commit_step y (set_txn y i Idle s')"

inductive_cases commit_stepE: "commit_step y y'"

definition commit_init :: commit_sys where
  "commit_init = \<lparr>cs_shared = empty_log, cs_txn = (\<lambda>_. Idle), cs_snap = (\<lambda>_. 0)\<rparr>"

inductive commit_reachable :: "commit_sys \<Rightarrow> bool" where
  init: "commit_reachable commit_init"
| step: "commit_reachable y \<Longrightarrow> commit_step y y' \<Longrightarrow> commit_reachable y'"

section \<open>The invariant\<close>

fun phase_ts :: "txn_phase \<Rightarrow> sivfs_ts option" where
  "phase_ts Idle = None"
| "phase_ts (Running snap) = None"
| "phase_ts (Appended t a snap) = Some t"
| "phase_ts (Validating t a c) = Some t"
| "phase_ts (Checked t a) = Some t"
| "phase_ts (Decided t) = Some t"

text \<open>No committed write of the timestamps in \<open>(lo, hi)\<close> conflicts with the writeset of \<open>e\<close>.\<close>

definition clear_of :: "sivfs_shared_state \<Rightarrow> sivfs_log_entry \<Rightarrow> sivfs_ts \<Rightarrow> sivfs_ts \<Rightarrow> bool" where
  "clear_of s e lo hi \<longleftrightarrow> (\<forall>u d. lo < u \<longrightarrow> u < hi \<longrightarrow> entry_at s u = Some d \<longrightarrow> \<not> blocks (le_ws e) d)"

fun phase_ok :: "commit_sys \<Rightarrow> txn_phase \<Rightarrow> bool" where
  "phase_ok y Idle = True"
| "phase_ok y (Running snap) = (snap \<le> master_ts (cs_shared y))"
| "phase_ok y (Appended t a snap) =
     (radix_tree_lookup (log_cache (cs_shared y)) t = Some a \<and> cs_snap y t = snap \<and>
      (\<exists>e. entry_at (cs_shared y) t = Some e \<and> \<not> le_aborted e \<and> \<not> le_commit_status_filled_in e))"
| "phase_ok y (Validating t a clog) =
     (radix_tree_lookup (log_cache (cs_shared y)) t = Some a \<and>
      (\<exists>e c. entry_at (cs_shared y) t = Some e \<and> \<not> le_aborted e \<and> \<not> le_commit_status_filled_in e \<and>
         radix_tree_lookup (log_cache (cs_shared y)) c = Some clog \<and> cs_snap y t < c \<and> c < t \<and>
         clear_of (cs_shared y) e (cs_snap y t) c))"
| "phase_ok y (Checked t a) =
     (radix_tree_lookup (log_cache (cs_shared y)) t = Some a \<and>
      (\<exists>e. entry_at (cs_shared y) t = Some e \<and> \<not> le_commit_status_filled_in e \<and>
         (\<not> le_aborted e \<longrightarrow> clear_of (cs_shared y) e (cs_snap y t) t)))"
| "phase_ok y (Decided t) =
     (\<exists>e. entry_at (cs_shared y) t = Some e \<and> le_commit_status_filled_in e)"

definition commit_inv :: "commit_sys \<Rightarrow> bool" where
  "commit_inv y \<longleftrightarrow> log_good (cs_shared y) \<and> master_log_deleted_ts (cs_shared y) = 0 \<and>
     unat (commit_started_ts (cs_shared y)) + 1 < 2 ^ 64 \<and>
     master_ts (cs_shared y) \<le> commit_started_ts (cs_shared y) \<and>
     (\<forall>i. phase_ok y (cs_txn y i)) \<and>
     (\<forall>i t. phase_ts (cs_txn y i) = Some t \<longrightarrow> master_ts (cs_shared y) < t \<and> t \<le> commit_started_ts (cs_shared y)) \<and>
     (\<forall>i j t. phase_ts (cs_txn y i) = Some t \<longrightarrow> phase_ts (cs_txn y j) = Some t \<longrightarrow> i = j) \<and>
     (\<forall>t. master_ts (cs_shared y) < t \<longrightarrow> t \<le> commit_started_ts (cs_shared y) \<longrightarrow>
        (\<exists>i. phase_ts (cs_txn y i) = Some t)) \<and>
     (\<forall>t e. entry_at (cs_shared y) t = Some e \<longrightarrow> cs_snap y t < t) \<and>
     (\<forall>t e. entry_at (cs_shared y) t = Some e \<longrightarrow> t \<le> master_ts (cs_shared y) \<longrightarrow> le_commit_status_filled_in e) \<and>
     (\<forall>t e. entry_at (cs_shared y) t = Some e \<longrightarrow> le_commit_status_filled_in e \<longrightarrow> \<not> le_aborted e \<longrightarrow>
        clear_of (cs_shared y) e (cs_snap y t) t)"

lemma commit_invD:
  assumes "commit_inv y"
  shows "log_good (cs_shared y)" and "log_inv (cs_shared y)" and "master_log_deleted_ts (cs_shared y) = 0"
    and "unat (commit_started_ts (cs_shared y)) + 1 < 2 ^ 64"
    and "master_ts (cs_shared y) \<le> commit_started_ts (cs_shared y)"
    and "phase_ok y (cs_txn y i)"
    and "phase_ts (cs_txn y i) = Some t \<Longrightarrow> master_ts (cs_shared y) < t \<and> t \<le> commit_started_ts (cs_shared y)"
    and "phase_ts (cs_txn y i) = Some t \<Longrightarrow> phase_ts (cs_txn y j) = Some t \<Longrightarrow> i = j"
    and "master_ts (cs_shared y) < t \<Longrightarrow> t \<le> commit_started_ts (cs_shared y) \<Longrightarrow> \<exists>i. phase_ts (cs_txn y i) = Some t"
    and "entry_at (cs_shared y) t = Some e \<Longrightarrow> cs_snap y t < t"
    and "entry_at (cs_shared y) t = Some e \<Longrightarrow> t \<le> master_ts (cs_shared y) \<Longrightarrow> le_commit_status_filled_in e"
    and "entry_at (cs_shared y) t = Some e \<Longrightarrow> le_commit_status_filled_in e \<Longrightarrow> \<not> le_aborted e \<Longrightarrow>
        clear_of (cs_shared y) e (cs_snap y t) t"
  using assms unfolding commit_inv_def log_good_def by blast+

section \<open>Preservation\<close>

text \<open>Writesets never change, and an aborted entry stays aborted.\<close>

definition log_grows :: "sivfs_shared_state \<Rightarrow> sivfs_shared_state \<Rightarrow> bool" where
  "log_grows s s' \<longleftrightarrow> master_ts s \<le> master_ts s' \<and>
     (\<forall>u b. radix_tree_lookup (log_cache s) u = Some b \<longrightarrow> radix_tree_lookup (log_cache s') u = Some b) \<and>
     (\<forall>u d'. u \<le> commit_started_ts s \<longrightarrow> entry_at s' u = Some d' \<longrightarrow>
        (\<exists>d. entry_at s u = Some d \<and> le_ws d = le_ws d' \<and> (le_aborted d \<longrightarrow> le_aborted d')))"

lemma clear_of_grows:
  assumes "clear_of s e lo hi" and "log_grows s s'" and "hi \<le> commit_started_ts s" and "le_ws e' = le_ws e"
  shows "clear_of s' e' lo hi"
  unfolding clear_of_def
proof (intro allI impI)
  fix u d' assume u: "lo < u" "u < hi" "entry_at s' u = Some d'"
  then have "u \<le> commit_started_ts s" using assms(3) by simp
  then obtain d where d: "entry_at s u = Some d" "le_ws d = le_ws d'" "le_aborted d \<longrightarrow> le_aborted d'"
    using assms(2) u(3) unfolding log_grows_def by blast
  then have "\<not> blocks (le_ws e) d" using assms(1) u(1,2) by (auto simp: clear_of_def)
  then show "\<not> blocks (le_ws e') d'" using d assms(4) by (auto simp: blocks_def)
qed

lemma phase_ok_grows:
  assumes "phase_ok y ph" and "log_grows (cs_shared y) (cs_shared y')"
    and own: "\<And>u. phase_ts ph = Some u \<Longrightarrow> u \<le> commit_started_ts (cs_shared y) \<and> cs_snap y' u = cs_snap y u \<and>
       map_option entry_view (entry_at (cs_shared y') u) = map_option entry_view (entry_at (cs_shared y) u)"
  shows "phase_ok y' ph"
proof -
  have view: "\<exists>e'. entry_at (cs_shared y') u = Some e' \<and> entry_view e' = entry_view e"
    if "phase_ts ph = Some u" "entry_at (cs_shared y) u = Some e" for u e
    using own [OF that(1)] that(2) by (cases "entry_at (cs_shared y') u") auto
  have lk: "radix_tree_lookup (log_cache (cs_shared y)) u = Some b \<Longrightarrow>
      radix_tree_lookup (log_cache (cs_shared y')) u = Some b" for u b
    using assms(2) by (simp add: log_grows_def)
  show ?thesis
  proof (cases ph)
    case (Running snap)
    then show ?thesis using assms(1,2) by (auto simp: log_grows_def)
  next
    case (Appended t a snap)
    then show ?thesis using assms(1) own [of t] view [of t] lk by (auto simp: entry_view_def)
  next
    case (Validating t a clog)
    then obtain e c where e: "entry_at (cs_shared y) t = Some e" "\<not> le_aborted e" "\<not> le_commit_status_filled_in e"
        "radix_tree_lookup (log_cache (cs_shared y)) c = Some clog" "cs_snap y t < c" "c < t"
        "clear_of (cs_shared y) e (cs_snap y t) c" "radix_tree_lookup (log_cache (cs_shared y)) t = Some a"
      using assms(1) by auto
    obtain e' where e': "entry_at (cs_shared y') t = Some e'" "entry_view e' = entry_view e"
      using view [of t] e(1) Validating by auto
    have t: "t \<le> commit_started_ts (cs_shared y)" "cs_snap y' t = cs_snap y t" using own [of t] Validating by auto
    have "clear_of (cs_shared y') e' (cs_snap y t) c"
      using clear_of_grows [OF e(7) assms(2)] e(6) t(1) e'(2) by (auto simp: entry_view_def)
    then show ?thesis using e e' t(2) lk Validating by (auto simp: entry_view_def)
  next
    case (Checked t a)
    then obtain e where e: "entry_at (cs_shared y) t = Some e" "\<not> le_commit_status_filled_in e"
        "\<not> le_aborted e \<longrightarrow> clear_of (cs_shared y) e (cs_snap y t) t" "radix_tree_lookup (log_cache (cs_shared y)) t = Some a"
      using assms(1) by auto
    obtain e' where e': "entry_at (cs_shared y') t = Some e'" "entry_view e' = entry_view e"
      using view [of t] e(1) Checked by auto
    have t: "t \<le> commit_started_ts (cs_shared y)" "cs_snap y' t = cs_snap y t" using own [of t] Checked by auto
    have "\<not> le_aborted e' \<longrightarrow> clear_of (cs_shared y') e' (cs_snap y t) t"
      using clear_of_grows [OF _ assms(2) t(1)] e(3) e'(2) by (auto simp: entry_view_def)
    then show ?thesis using e e' t(2) lk Checked by (auto simp: entry_view_def)
  next
    case (Decided t)
    then show ?thesis using assms(1) view [of t] by (auto simp: entry_view_def)
  qed (simp add: assms)
qed

lemma log_good_next:
  assumes "log_good s" and "radix_tree_lookup (log_cache s) c = Some a"
    and "radix_tree_lookup (log_cache s) (c + 1) = Some b" and "c + 1 \<noteq> 0"
  shows "le_next (the (log_mem s a)) = b"
proof -
  have inv: "rt_inv (log_cache s)" "linked (log_mem s) (map snd (log_cache s))"
    using assms(1) by (auto simp: log_good_def log_inv_def)
  have in1: "(c, a) \<in> set (log_cache s)" and in2: "(c + 1, b) \<in> set (log_cache s)"
    using assms(2,3) by (auto simp: radix_tree_lookup_def dest: map_of_SomeD)
  obtain ys zs where l: "log_cache s = ys @ (c, a) # zs" using in1 by (meson split_list)
  have srt: "\<forall>z \<in> set zs. c < fst z" "\<forall>z \<in> set ys. fst z < c" "sorted_wrt (<) (map fst zs)"
    using inv(1) unfolding l rt_inv_def by (auto simp: sorted_wrt_append)
  have cc: "c < c + 1" using less_inc_iff [OF assms(4)] by simp
  then have "(c + 1, b) \<in> set zs" using in2 srt(2) unfolding l by fastforce
  then obtain z zs' where z: "zs = z # zs'" by (cases zs) auto
  have "fst z = c + 1"
  proof -
    have "c + 1 \<le> fst z" using srt(1) z inc_le_iff [OF assms(4)] by simp
    moreover have "fst z \<le> c + 1" using \<open>(c + 1, b) \<in> set zs\<close> srt(3) z by (auto intro: less_imp_le)
    ultimately show ?thesis by simp
  qed
  then have "z = (c + 1, snd z)" by (cases z) simp
  then have "(c + 1, snd z) \<in> set (log_cache s)" using l z by (metis in_set_conv_decomp list.set_intros Un_iff set_append)
  then have "snd z = b" using assms(1,3) in_cache_lookup [of s "c + 1" "snd z"] by (simp add: log_good_def)
  moreover have "linked (log_mem s) (a # snd z # map snd zs')"
    using linked_drop [OF inv(2), of "length ys"] l z by simp
  ultimately show ?thesis by simp
qed

text \<open>A step in which a transaction changes the flags of its own entry.\<close>

lemma commit_inv_owner:
  assumes inv: "commit_inv y" and i: "phase_ts (cs_txn y i) = Some t" "phase_ts ph = Some t"
    and e: "radix_tree_lookup (log_cache (cs_shared y)) t = Some a" "entry_at (cs_shared y) t = Some e"
      "\<not> le_commit_status_filled_in e" "le_aborted e \<longrightarrow> x"
    and y': "y' = set_txn y i ph (log_update (cs_shared y) a (\<lambda>_. e\<lparr>le_aborted := x, le_commit_status_filled_in := z\<rparr>))"
    and clear: "z \<Longrightarrow> \<not> x \<Longrightarrow> clear_of (cs_shared y) e (cs_snap y t) t"
    and ph: "phase_ok y' ph"
  shows "commit_inv y'"
proof -
  let ?s = "cs_shared y" and ?e = "e\<lparr>le_aborted := x, le_commit_status_filled_in := z\<rparr>"
  let ?s' = "log_update ?s a (\<lambda>_. ?e)"
  note good = commit_invD(1) [OF inv] and linv = commit_invD(2) [OF inv]
  have sh: "cs_shared y' = ?s'" "cs_snap y' = cs_snap y" "cs_txn y' = (cs_txn y)(i := ph)" by (simp_all add: y' set_txn_def)
  have same: "log_cache ?s' = log_cache ?s" "master_ts ?s' = master_ts ?s" "commit_started_ts ?s' = commit_started_ts ?s"
      "master_log_deleted_ts ?s' = master_log_deleted_ts ?s" by (simp_all add: log_update_def)
  have at: "entry_at ?s' u = (if u = t then Some ?e else entry_at ?s u)" for u
    using entry_at_update [OF linv e(1)] e(2) by simp
  have mem: "log_mem ?s a = Some e" using lookup_entry_at [OF linv e(1)] e(2) by simp
  have good': "log_good ?s'" using mem by (intro log_good_update [OF good e(1)]) simp
  have grows: "log_grows ?s ?s'" using e(2,4) unfolding log_grows_def same at by auto
  have tle: "t \<le> commit_started_ts ?s" and tgt: "master_ts ?s < t" using commit_invD(7) [OF inv i(1)] by blast+
  have others: "phase_ok y' (cs_txn y j)" if "j \<noteq> i" for j
  proof (rule phase_ok_grows [of y])
    show "phase_ok y (cs_txn y j)" by (rule commit_invD(6) [OF inv])
    show "log_grows (cs_shared y) (cs_shared y')" using grows sh by simp
    fix u assume u: "phase_ts (cs_txn y j) = Some u"
    have "u \<noteq> t" using commit_invD(8) [OF inv i(1), of j] u that by blast
    moreover have "u \<le> commit_started_ts ?s" using commit_invD(7) [OF inv u] by blast
    ultimately show "u \<le> commit_started_ts (cs_shared y) \<and> cs_snap y' u = cs_snap y u \<and>
       map_option entry_view (entry_at (cs_shared y') u) = map_option entry_view (entry_at (cs_shared y) u)"
      using sh at by simp
  qed
  have pts: "phase_ts (cs_txn y' j) = phase_ts (cs_txn y j)" for j using sh i by simp
  have final: "clear_of ?s' d (cs_snap y u) u"
    if d: "entry_at ?s' u = Some d" "le_commit_status_filled_in d" "\<not> le_aborted d" for u d
  proof (cases "u = t")
    case True
    then have "clear_of ?s e (cs_snap y t) t" "d = ?e" using d at clear by auto
    then show ?thesis using clear_of_grows [OF _ grows tle] True by simp
  next
    case False
    then have "entry_at ?s u = Some d" using d at by simp
    moreover have "u \<le> commit_started_ts ?s" using good calculation by (auto simp: log_good_def)
    ultimately show ?thesis using commit_invD(12) [OF inv _ d(2,3)] clear_of_grows [OF _ grows] by blast
  qed
  have filled: "le_commit_status_filled_in d" if "entry_at ?s' u = Some d" "u \<le> master_ts ?s" for u d
    using that tgt at [of u] commit_invD(11) [OF inv] by (auto split: if_splits)
  have snap: "cs_snap y u < u" if "entry_at ?s' u = Some d" for u d
    using that at [of u] e(2) commit_invD(10) [OF inv] by (auto split: if_splits)
  have "phase_ok y' (cs_txn y' j)" for j using others [of j] ph sh by (cases "j = i") auto
  then show ?thesis
    using inv good' final filled snap unfolding commit_inv_def pts unfolding sh same by blast
qed

lemma validate_round:
  assumes inv: "commit_inv y" and ph: "cs_txn y i = Validating t a clog"
    and mem: "log_mem (cs_shared y) a = Some e"
  shows "\<exists>c e' nxt. validate_iter (cs_shared y) (t - 1) e clog = (OK, e', nxt) \<and>
    radix_tree_lookup (log_cache (cs_shared y)) c = Some clog \<and>
    (\<forall>d. entry_at (cs_shared y) c = Some d \<longrightarrow> le_aborted e' = blocks (le_ws e) d) \<and> cs_snap y t < c \<and> c < t \<and> \<not> le_aborted e \<and> \<not> le_commit_status_filled_in e \<and>
    e' = e\<lparr>le_aborted := le_aborted e'\<rparr> \<and>
    (le_aborted e' \<longrightarrow> nxt = None) \<and>
    (\<not> le_aborted e' \<longrightarrow> clear_of (cs_shared y) e (cs_snap y t) (c + 1) \<and>
       (if c + 1 = t then nxt = None
        else \<exists>b. nxt = Some b \<and> c + 1 < t \<and> radix_tree_lookup (log_cache (cs_shared y)) (c + 1) = Some b))"
proof -
  let ?s = "cs_shared y"
  note good = commit_invD(1) [OF inv] and linv = commit_invD(2) [OF inv]
  have "phase_ok y (Validating t a clog)" using commit_invD(6) [OF inv, of i] ph by simp
  then obtain e0 c where c: "radix_tree_lookup (log_cache ?s) t = Some a" "entry_at ?s t = Some e0" "\<not> le_aborted e0"
      "\<not> le_commit_status_filled_in e0" "radix_tree_lookup (log_cache ?s) c = Some clog" "cs_snap y t < c" "c < t"
      "clear_of ?s e0 (cs_snap y t) c" by auto
  have e0: "e0 = e" using lookup_entry_at [OF linv c(1)] c(2) mem by simp
  obtain d where d: "entry_at ?s c = Some d" "log_mem ?s clog = Some d"
    using lookup_entry_at [OF linv c(5)] by auto
  have c1: "c + 1 \<noteq> 0" using less_inc_nonzero [OF c(7)] .
  have ws: "ws_formed (le_ws e)" "ws_formed (le_ws d)" using good c(2) e0 d(1) by (auto simp: log_good_def)
  have va: "sivfs_validate_entry e d = (OK, e\<lparr>le_aborted := blocks (le_ws e) d\<rparr>)"
    using validate_entry_exact [OF ws] c(3) e0 by simp
  have ts: "le_ts d = c" using log_good_ts [OF good d(1)] .
  have clear: "clear_of ?s e (cs_snap y t) (c + 1)" if "\<not> blocks (le_ws e) d"
  proof -
    have "u = c \<or> u < c" if "u < c + 1" for u using that unfolding less_inc_iff [OF c1] by (metis le_less)
    then show ?thesis using that c(8) d(1) e0 unfolding clear_of_def by (metis option.inject)
  qed
  show ?thesis
  proof (cases "blocks (le_ws e) d")
    case True
    then have "validate_iter ?s (t - 1) e clog = (OK, e\<lparr>le_aborted := True\<rparr>, None)"
      using va d(2) by (simp add: validate_iter_def)
    then show ?thesis using c e0 d(1) True
      by (intro exI [of _ c] exI [of _ "e\<lparr>le_aborted := True\<rparr>"] exI [of _ None]) simp
  next
    case False
    show ?thesis
    proof (cases "c + 1 = t")
      case True
      then have "le_ts d = t - 1" using ts by auto
      then have "validate_iter ?s (t - 1) e clog = (OK, e\<lparr>le_aborted := False\<rparr>, None)"
        using va d(2) False by (simp add: validate_iter_def)
      then show ?thesis using c e0 d(1) clear False True
        by (intro exI [of _ c] exI [of _ "e\<lparr>le_aborted := False\<rparr>"] exI [of _ None]) simp
    next
      case ne: False
      have "t \<noteq> 0" using c(7) by auto
      have lt: "c + 1 < t" using ne c(7) inc_le by (metis order_le_less)
      have "t \<le> commit_started_ts ?s" "0 < c + 1" using good c(2) c1 by (auto simp: log_good_def word_gt_0)
      then have "entry_at ?s (c + 1) \<noteq> None" using good lt commit_invD(3) [OF inv] by (auto simp: log_good_def)
      then obtain b n where b: "radix_tree_lookup (log_cache ?s) (c + 1) = Some b" "entry_at ?s (c + 1) = Some n"
          "log_mem ?s b = Some n"
        using entry_at_lookup lookup_entry_at [OF linv] by (metis not_None_eq)
      have nx: "le_next d = b" using log_good_next [OF good c(5) b(1) c1] d(2) by simp
      have "b \<noteq> 0" using log_inv_entry [OF linv, of "c + 1" b] b(1) by (auto simp: radix_tree_lookup_def dest: map_of_SomeD)
      moreover have "le_ts n = c + 1" using log_good_ts [OF good b(2)] .
      moreover have "\<not> t - 1 < c + 1" and "c \<noteq> t - 1"
        using lt less_inc_iff [of "t - 1" "c + 1"] \<open>t \<noteq> 0\<close> by (auto simp: not_less)
      ultimately have "validate_iter ?s (t - 1) e clog = (OK, e\<lparr>le_aborted := False\<rparr>, Some b)"
        using va d(2) False b nx ts by (simp add: validate_iter_def)
      then show ?thesis using c e0 d(1) clear False ne lt b
        by (intro exI [of _ c] exI [of _ "e\<lparr>le_aborted := False\<rparr>"] exI [of _ "Some b"]) simp
    qed
  qed
qed

lemma commit_inv_append:
  assumes inv: "commit_inv y" and ph: "cs_txn y i = Running snap" and ws: "ws_formed ws"
    and room: "unat (commit_started_ts (cs_shared y)) + 2 < 2 ^ 64"
    and km: "kmalloc_ok (cs_shared y) start (log_chunk_real (size_bytes ws))"
    and run: "commit_allocate (Some start) True (cs_shared y) ws = (OK, a, s')"
  shows "commit_inv ((set_txn y i (Appended (commit_started_ts (cs_shared y) + 1) a snap) s')
      \<lparr>cs_snap := (cs_snap y)(commit_started_ts (cs_shared y) + 1 := snap)\<rparr>)" (is "commit_inv ?y")
proof -
  let ?s = "cs_shared y" and ?t = "commit_started_ts (cs_shared y) + 1"
  have ut: "unat ?t = unat (commit_started_ts ?s) + 1" using room unat_add_u64 [of "commit_started_ts ?s" 1] by simp
  have t0: "?t \<noteq> 0" using ut by auto
  obtain e where al: "log_good s'" "radix_tree_lookup (log_cache s') ?t = Some a" "entry_at s' ?t = Some e"
      "entry_view e = (?t, le_ws e, False, False)" "master_ts s' = master_ts ?s" "commit_started_ts s' = ?t"
      "master_log_deleted_ts s' = master_log_deleted_ts ?s"
      "\<forall>t. t \<noteq> ?t \<longrightarrow> map_option entry_view (entry_at s' t) = map_option entry_view (entry_at ?s t)"
      "log_cache s' = log_cache ?s @ [(?t, a)]"
    using commit_allocate_ok [OF commit_invD(1) [OF inv] ws t0 km] run by auto
  have flags: "\<not> le_aborted e" "\<not> le_commit_status_filled_in e" using al(4) by (simp_all add: entry_view_def)
  have sh: "cs_shared ?y = s'" "cs_txn ?y = (cs_txn y)(i := Appended ?t a snap)" "cs_snap ?y = (cs_snap y)(?t := snap)"
    by (simp_all add: set_txn_def)
  have lt: "u \<noteq> ?t" if "u \<le> commit_started_ts ?s" for u using that less_inc_iff [OF t0, of u] by auto
  have was: "\<exists>d. entry_at ?s u = Some d \<and> entry_view d = entry_view d'" if "entry_at s' u = Some d'" "u \<noteq> ?t" for u d'
    using al(8) that by (cases "entry_at ?s u") auto
  have lk: "radix_tree_lookup (log_cache s') u = Some b" if "radix_tree_lookup (log_cache ?s) u = Some b" for u b
    using that al(9) by (simp add: radix_tree_lookup_def)
  have grows: "log_grows ?s s'"
    unfolding log_grows_def using al(5) lk was lt by (fastforce simp: entry_view_def)
  have snap: "snap \<le> master_ts ?s" using commit_invD(6) [OF inv, of i] ph by simp
  have ms: "master_ts ?s < ?t" using commit_invD(5) [OF inv] less_inc_iff [OF t0] by simp
  have pi: "phase_ts (cs_txn y i) = None" using ph by simp
  have others: "phase_ok ?y (cs_txn y j)" if "j \<noteq> i" for j
  proof (rule phase_ok_grows [of y])
    show "phase_ok y (cs_txn y j)" by (rule commit_invD(6) [OF inv])
    show "log_grows (cs_shared y) (cs_shared ?y)" using grows sh by simp
    fix u assume u: "phase_ts (cs_txn y j) = Some u"
    have "u \<le> commit_started_ts ?s" using commit_invD(7) [OF inv u] by blast
    then show "u \<le> commit_started_ts (cs_shared y) \<and> cs_snap ?y u = cs_snap y u \<and>
       map_option entry_view (entry_at (cs_shared ?y) u) = map_option entry_view (entry_at (cs_shared y) u)"
      using lt al(8) sh by simp
  qed
  have all: "phase_ok ?y (cs_txn ?y j)" for j
    using others [of j] al(2,3) flags sh by (cases "j = i") auto
  have pts: "phase_ts (cs_txn ?y j) = (if j = i then Some ?t else phase_ts (cs_txn y j))" for j using sh by simp
  have old: "phase_ts (cs_txn y j) = Some u \<Longrightarrow> master_ts ?s < u \<and> u \<le> commit_started_ts ?s \<and> u \<noteq> ?t" for j u
    using commit_invD(7) [OF inv] lt by blast
  have own: "j = i \<and> u = ?t \<or> u \<noteq> ?t \<and> phase_ts (cs_txn y j) = Some u"
    if "phase_ts (cs_txn ?y j) = Some u" for j u
    using that pts [of j] old [of j u] by (cases "j = i") simp_all
  have rng: "master_ts s' < u \<and> u \<le> commit_started_ts s'" if "phase_ts (cs_txn ?y j) = Some u" for j u
  proof (cases "j = i")
    case True
    then show ?thesis using that pts [of i] ms al(5,6) by simp
  next
    case False
    then have "master_ts ?s < u" "u \<le> commit_started_ts ?s" using that old [of j u] pts [of j] by simp_all
    then show ?thesis using al(5,6) le_inc_iff [OF t0, of u] by simp
  qed
  have uniq: "j = k" if "phase_ts (cs_txn ?y j) = Some u" "phase_ts (cs_txn ?y k) = Some u" for j k u
    using own [OF that(1)] own [OF that(2)] commit_invD(8) [OF inv] by blast
  have cover: "\<exists>j. phase_ts (cs_txn ?y j) = Some u" if u: "master_ts s' < u" "u \<le> commit_started_ts s'" for u
  proof (cases "u = ?t")
    case True
    then show ?thesis using pts [of i] by auto
  next
    case False
    then have "u \<le> commit_started_ts ?s" using u(2) le_inc_iff [OF t0, of u] al(6) by simp
    then obtain j where "phase_ts (cs_txn y j) = Some u" using commit_invD(9) [OF inv, of u] u(1) al(5) by auto
    then show ?thesis using pi pts [of j] by (intro exI [of _ j]) auto
  qed
  have sn: "cs_snap ?y u < u" if "entry_at s' u = Some d" for u d
    using that was [of u d] commit_invD(10) [OF inv, of u] snap ms sh by (cases "u = ?t") auto
  have filled: "le_commit_status_filled_in d" if d: "entry_at s' u = Some d" "u \<le> master_ts s'" for u d
  proof -
    have "u \<noteq> ?t" using d(2) ms al(5) by auto
    then show ?thesis using was [OF d(1)] commit_invD(11) [OF inv, of u] d(2) al(5) by (auto simp: entry_view_def)
  qed
  have final: "clear_of s' d (cs_snap ?y u) u"
    if d: "entry_at s' u = Some d" "le_commit_status_filled_in d" "\<not> le_aborted d" for u d
  proof -
    have "u \<noteq> ?t" using d al(3) flags by auto
    then obtain d0 where d0: "entry_at ?s u = Some d0" "entry_view d0 = entry_view d" using was [OF d(1)] by blast
    have "u \<le> commit_started_ts ?s" using commit_invD(1) [OF inv] d0(1) by (auto simp: log_good_def)
    then show ?thesis
      using commit_invD(12) [OF inv d0(1)] d(2,3) d0(2) clear_of_grows [OF _ grows] sh \<open>u \<noteq> ?t\<close>
      by (auto simp: entry_view_def)
  qed
  have num: "unat (commit_started_ts s') + 1 < 2 ^ 64" "master_ts s' \<le> commit_started_ts s'"
      "master_log_deleted_ts s' = 0"
    using ut room al(5-7) ms commit_invD(3) [OF inv] by simp_all
  show ?thesis unfolding commit_inv_def sh(1)
    using al(1) num all rng uniq cover sn filled final by blast
qed

lemma commit_inv_release:
  assumes inv: "commit_inv y" and ph: "cs_txn y i = Decided t"
    and run: "commit_release (cs_shared y) t = (OK, s')"
  shows "commit_inv (set_txn y i Idle s')" (is "commit_inv ?y")
proof -
  let ?s = "cs_shared y"
  have pi: "phase_ts (cs_txn y i) = Some t" using ph by simp
  have t: "master_ts ?s < t" "t \<le> commit_started_ts ?s" using commit_invD(7) [OF inv pi] by blast+
  have s': "s' = ?s\<lparr>master_ts := t\<rparr>" and m: "master_ts ?s = t - 1"
    using run by (auto simp: commit_release_def split: if_splits)
  have m1: "master_ts ?s + 1 = t" "master_ts ?s + 1 \<noteq> 0" using m t(1) less_inc_nonzero by auto
  have below: "u \<le> t \<longleftrightarrow> u = t \<or> u \<le> master_ts ?s" for u using le_inc_iff [OF m1(2)] m1(1) by simp
  have sh: "cs_shared ?y = s'" "cs_txn ?y = (cs_txn y)(i := Idle)" "cs_snap ?y = cs_snap y"
    by (simp_all add: set_txn_def)
  have at: "entry_at s' = entry_at ?s" by (simp add: s' entry_at_ts_change)
  have same: "log_cache s' = log_cache ?s" "master_ts s' = t" "commit_started_ts s' = commit_started_ts ?s"
      "master_log_deleted_ts s' = master_log_deleted_ts ?s" by (simp_all add: s')
  have grows: "log_grows ?s s'" using t(1) unfolding log_grows_def at same by auto
  have others: "phase_ok ?y (cs_txn y j)" for j
  proof (rule phase_ok_grows [of y])
    show "phase_ok y (cs_txn y j)" by (rule commit_invD(6) [OF inv])
    show "log_grows (cs_shared y) (cs_shared ?y)" using grows sh by simp
    fix u assume "phase_ts (cs_txn y j) = Some u"
    then show "u \<le> commit_started_ts (cs_shared y) \<and> cs_snap ?y u = cs_snap y u \<and>
       map_option entry_view (entry_at (cs_shared ?y) u) = map_option entry_view (entry_at (cs_shared y) u)"
      using commit_invD(7) [OF inv] sh at by auto
  qed
  have all: "phase_ok ?y (cs_txn ?y j)" for j using others [of j] sh by (cases "j = i") auto
  have pts: "phase_ts (cs_txn ?y j) = (if j = i then None else phase_ts (cs_txn y j))" for j using sh by simp
  have rng: "t < u \<and> u \<le> commit_started_ts ?s" if "phase_ts (cs_txn ?y j) = Some u" for j u
  proof -
    have j: "j \<noteq> i" "phase_ts (cs_txn y j) = Some u" using that pts [of j] by (auto split: if_splits)
    then have "u \<noteq> t" using commit_invD(8) [OF inv pi, of j] by auto
    moreover have "master_ts ?s < u" "u \<le> commit_started_ts ?s" using commit_invD(7) [OF inv j(2)] by blast+
    ultimately show ?thesis using below [of u] by (metis leD linorder_le_less_linear)
  qed
  have uniq: "j = k" if "phase_ts (cs_txn ?y j) = Some u" "phase_ts (cs_txn ?y k) = Some u" for j k u
    using that commit_invD(8) [OF inv, of j u k] pts [of j] pts [of k] by (auto split: if_splits)
  have cover: "\<exists>j. phase_ts (cs_txn ?y j) = Some u" if u: "t < u" "u \<le> commit_started_ts ?s" for u
  proof -
    obtain j where j: "phase_ts (cs_txn y j) = Some u"
      using commit_invD(9) [OF inv order_less_trans [OF t(1) u(1)] u(2)] by blast
    then have "j \<noteq> i" using pi u(1) by auto
    then show ?thesis using j pts [of j] by (intro exI [of _ j]) simp
  qed
  have filled: "le_commit_status_filled_in d" if d: "entry_at ?s u = Some d" "u \<le> t" for u d
  proof (cases "u = t")
    case True
    then show ?thesis using commit_invD(6) [OF inv, of i] ph d(1) by auto
  next
    case False
    then show ?thesis using commit_invD(11) [OF inv d(1)] below d(2) by blast
  qed
  have final: "clear_of s' d (cs_snap y u) u"
    if d: "entry_at ?s u = Some d" "le_commit_status_filled_in d" "\<not> le_aborted d" for u d
    using commit_invD(12) [OF inv d] by (simp add: clear_of_def at)
  have "log_good s'" using commit_invD(1) [OF inv] s' log_good_ts_change by simp
  then show ?thesis unfolding commit_inv_def sh(1,3) at same
    using commit_invD(3,4) [OF inv] t all rng uniq cover commit_invD(10) [OF inv] filled final sh by blast
qed

lemma commit_inv_phase:
  assumes inv: "commit_inv y" and i: "phase_ts (cs_txn y i) = None" "phase_ts ph = None"
    and ok: "phase_ok (set_txn y i ph (cs_shared y)) ph"
  shows "commit_inv (set_txn y i ph (cs_shared y))" (is "commit_inv ?y")
proof -
  have sh: "cs_shared ?y = cs_shared y" "cs_txn ?y = (cs_txn y)(i := ph)" "cs_snap ?y = cs_snap y"
    by (simp_all add: set_txn_def)
  have pts: "phase_ts (cs_txn ?y j) = phase_ts (cs_txn y j)" for j using sh i by simp
  have grows: "log_grows (cs_shared y) (cs_shared ?y)" unfolding log_grows_def sh by auto
  have "phase_ok ?y (cs_txn y j)" for j
    using commit_invD(6,7) [OF inv, of j] sh by (intro phase_ok_grows [OF _ grows]) auto
  then have "phase_ok ?y (cs_txn ?y j)" for j using ok sh by (cases "j = i") auto
  then show ?thesis using inv unfolding commit_inv_def pts unfolding sh(1,3) by blast
qed

lemma commit_inv_move:
  assumes inv: "commit_inv y" and i: "phase_ts (cs_txn y i) = Some t" "phase_ts ph = Some t"
    and e: "radix_tree_lookup (log_cache (cs_shared y)) t = Some a" "entry_at (cs_shared y) t = Some e"
      "\<not> le_commit_status_filled_in e"
    and ok: "phase_ok (set_txn y i ph (cs_shared y)) ph"
  shows "commit_inv (set_txn y i ph (cs_shared y))"
proof -
  have "log_mem (cs_shared y) a = Some e" using lookup_entry_at [OF commit_invD(2) [OF inv] e(1)] e(2) by simp
  then have same: "log_update (cs_shared y) a (\<lambda>_. e) = cs_shared y" by (simp add: log_update_def fun_upd_idem)
  have "e = e\<lparr>le_aborted := le_aborted e, le_commit_status_filled_in := False\<rparr>" using e(3) by simp
  then have eq: "set_txn y i ph (cs_shared y) = set_txn y i ph (log_update (cs_shared y) a
      (\<lambda>_. e\<lparr>le_aborted := le_aborted e, le_commit_status_filled_in := False\<rparr>))" using same by simp
  show ?thesis by (rule commit_inv_owner [OF inv i e(1,2,3) _ eq _ ok]) simp_all
qed

lemma clear_of_shared: "clear_of (cs_shared (set_txn y i ph s)) = clear_of s"
  by (simp add: set_txn_def)

lemma validate_step_inv:
  assumes inv: "commit_inv y" and ph: "cs_txn y i = Validating t a clog" and e: "log_mem (cs_shared y) a = Some e"
    and it: "validate_iter (cs_shared y) (t - 1) e clog = (OK, e', nxt)"
  shows "commit_inv (set_txn y i (case nxt of None \<Rightarrow> Checked t a | Some c \<Rightarrow> Validating t a c)
    (log_update (cs_shared y) a (\<lambda>_. e')))" (is "commit_inv (set_txn y i ?ph ?s')")
proof -
  let ?s = "cs_shared y"
  note good = commit_invD(1) [OF inv] and linv = commit_invD(2) [OF inv]
  have lk: "radix_tree_lookup (log_cache ?s) t = Some a" using commit_invD(6) [OF inv, of i] ph by simp
  have at: "entry_at ?s t = Some e" using lookup_entry_at [OF linv lk] e by simp
  obtain c where c: "cs_snap y t < c" "c < t" "\<not> le_aborted e" "\<not> le_commit_status_filled_in e"
      "e' = e\<lparr>le_aborted := le_aborted e'\<rparr>" "le_aborted e' \<longrightarrow> nxt = None"
      "\<not> le_aborted e' \<longrightarrow> clear_of ?s e (cs_snap y t) (c + 1) \<and> (if c + 1 = t then nxt = None
        else \<exists>b. nxt = Some b \<and> c + 1 < t \<and> radix_tree_lookup (log_cache ?s) (c + 1) = Some b)"
    using validate_round [OF inv ph e] it by auto
  have fl: "\<not> le_commit_status_filled_in e'" using c(4,5) by (metis sivfs_log_entry.select_convs(4) sivfs_log_entry.surjective sivfs_log_entry.update_convs(3))
  have eq: "e' = e\<lparr>le_aborted := le_aborted e', le_commit_status_filled_in := False\<rparr>" using c(4,5) by (metis (full_types) sivfs_log_entry.surjective sivfs_log_entry.update_convs(3,4))
  have ws: "le_ws e' = le_ws e" using c(5) by (metis sivfs_log_entry.select_convs(2) sivfs_log_entry.surjective sivfs_log_entry.update_convs(3))
  have upd: "entry_at ?s' u = (if u = t then Some e' else entry_at ?s u)" for u
    using entry_at_update [OF linv lk] at by simp
  have cl: "clear_of ?s' e' (cs_snap y t) h" if "clear_of ?s e (cs_snap y t) h" "h \<le> t" for h
    using that unfolding clear_of_def upd ws by (auto dest: order_less_le_trans)
  have same: "log_cache ?s' = log_cache ?s" by (simp add: log_update_def)
  have c1: "c + 1 \<noteq> 0" using less_inc_nonzero [OF c(2)] .
  have sn: "cs_snap y t < c + 1" using c(1) less_inc_iff [OF c1] by simp
  have ok: "phase_ok (set_txn y i ?ph ?s') ?ph"
  proof (cases nxt)
    case None
    then have "clear_of ?s' e' (cs_snap y t) t" if "\<not> le_aborted e'" using that c(7) cl by (auto split: if_splits)
    then show ?thesis using None lk upd fl same by (simp add: set_txn_def)
  next
    case (Some b)
    then have b: "\<not> le_aborted e'" "clear_of ?s e (cs_snap y t) (c + 1)" "c + 1 < t"
        "radix_tree_lookup (log_cache ?s) (c + 1) = Some b"
      using c(6,7) by (auto split: if_splits)
    then show ?thesis using Some lk upd fl same sn cl [OF b(2)]
      by (auto simp: set_txn_def intro!: exI [of _ "c + 1"])
  qed
  have eq2: "set_txn y i ?ph ?s' = set_txn y i ?ph (log_update ?s a
      (\<lambda>_. e\<lparr>le_aborted := le_aborted e', le_commit_status_filled_in := False\<rparr>))" using eq by metis
  have pts: "phase_ts (cs_txn y i) = Some t" "phase_ts ?ph = Some t"
    using ph by (simp_all split: option.split)
  show ?thesis by (rule commit_inv_owner [OF inv pts lk at c(4) _ eq2 _ ok]) (use c(3) in simp_all)
qed

lemma allocate_nomem:
  assumes "commit_allocate None True s ws = (E ENOMEM, a, s')"
  shows "s' = s"
proof -
  obtain r b s1 where c: "sivfs_create_log_entry None True s (commit_started_ts s + 1) ws = (r, b, s1)"
    by (metis surj_pair)
  have copy: "sivfs_writeset_copy d ws' \<noteq> (E x, w)" for d ws' x w
    by (auto simp: sivfs_writeset_copy_def split: if_splits option.splits)
  have "r \<noteq> OK"
    using assms c copy by (auto simp: commit_allocate_def Let_def split: option.splits prod.splits rc.splits)
  then have "r = E ENOMEM" "s' = s1" using assms c by (cases r; simp add: commit_allocate_def Let_def)+
  moreover have "s1 = s" if "r = E ENOMEM"
    using c that by (auto simp: sivfs_create_log_entry_def sivfs_allocate_log_insert_log_cache_def
        insert_log_entry_at_def radix_tree_insert_def kfree_chunk_def Let_def split: if_splits option.splits)
  ultimately show ?thesis by simp
qed

lemma snap_room:
  assumes inv: "commit_inv y" and e: "entry_at (cs_shared y) t = Some e"
  shows "cs_snap y t < t" and "cs_snap y t + 1 \<noteq> 0" and "t \<ge> cs_snap y t + 2 \<longleftrightarrow> cs_snap y t + 1 < t"
proof -
  show lt: "cs_snap y t < t" by (rule commit_invD(10) [OF inv e])
  show s1: "cs_snap y t + 1 \<noteq> 0" by (rule less_inc_nonzero [OF lt])
  have "t \<le> commit_started_ts (cs_shared y)" using commit_invD(1) [OF inv] e by (auto simp: log_good_def)
  then have "unat (cs_snap y t) + 2 < 2 ^ 64"
    using lt commit_invD(4) [OF inv] by (simp add: word_le_nat_alt word_less_nat_alt)
  then have "cs_snap y t + 1 + 1 \<noteq> 0" using unat_add_u64 [of "cs_snap y t" 2] by (auto simp: add.assoc)
  from inc_le_iff [OF this, of t] show "t \<ge> cs_snap y t + 2 \<longleftrightarrow> cs_snap y t + 1 < t" by (simp add: add.assoc)
qed

lemma clear_of_adjacent: "lo + 1 \<noteq> 0 \<Longrightarrow> clear_of s e lo (lo + 1)"
  unfolding clear_of_def less_inc_iff by (metis leD)

lemma commit_inv_step: "commit_step y y' \<Longrightarrow> commit_inv y \<Longrightarrow> commit_inv y'"
proof (induction rule: commit_step.induct)
  case (begin_txn y i)
  then show ?case by (intro commit_inv_phase) (simp_all add: set_txn_def)
next
  case (append y i snap ws start log_dest s')
  then show ?case by (intro commit_inv_append)
next
  case (append_nomem y i snap ws log_dest s')
  then show ?case using allocate_nomem [OF append_nomem.hyps(2)] commit_inv_phase [of y i Idle] by simp
next
  case (skip_validation y i t log_dest snap)
  note inv = skip_validation.prems
  obtain e where e: "radix_tree_lookup (log_cache (cs_shared y)) t = Some log_dest" "cs_snap y t = snap"
      "entry_at (cs_shared y) t = Some e" "\<not> le_aborted e" "\<not> le_commit_status_filled_in e"
    using commit_invD(6) [OF inv, of i] skip_validation.hyps(1) by auto
  note sn = snap_room [OF inv e(3)]
  have "t = snap + 1" using sn skip_validation.hyps(2) e(2) inc_le_iff [OF sn(2), of t] by auto
  then have "clear_of (cs_shared y) e snap t" using clear_of_adjacent sn(2) e(2) by auto
  then show ?case using skip_validation.hyps(1) e by (intro commit_inv_move [OF inv _ _ e(1,3,5)]) (auto simp: set_txn_def)
next
  case (start_validation y i t log_dest snap clog)
  note inv = start_validation.prems
  obtain e where e: "radix_tree_lookup (log_cache (cs_shared y)) t = Some log_dest" "cs_snap y t = snap"
      "entry_at (cs_shared y) t = Some e" "\<not> le_aborted e" "\<not> le_commit_status_filled_in e"
    using commit_invD(6) [OF inv, of i] start_validation.hyps(1) by auto
  note sn = snap_room [OF inv e(3)]
  have lt: "snap + 1 < t" using sn(3) start_validation.hyps(2) e(2) by simp
  have "t \<le> commit_started_ts (cs_shared y)" using commit_invD(1) [OF inv] e(3) by (auto simp: log_good_def)
  moreover have "0 < snap + 1" using sn(2) e(2) by (simp add: word_gt_0)
  ultimately have "entry_at (cs_shared y) (snap + 1) \<noteq> None"
    using commit_invD(1,3) [OF inv] lt by (auto simp: log_good_def)
  then have "radix_tree_lookup (log_cache (cs_shared y)) (snap + 1) = Some clog"
    using start_validation.hyps(3) commit_invD(3) [OF inv] entry_at_lookup [of "cs_shared y" "snap + 1"]
    by (auto simp: sivfs_ts_to_log_entry_def)
  moreover have "snap < snap + 1" using less_inc_iff [of snap snap] sn(2) e(2) by simp
  moreover have "clear_of (cs_shared y) e snap (snap + 1)" using clear_of_adjacent sn(2) e(2) by simp
  ultimately show ?case using start_validation.hyps(1) e lt
    by (intro commit_inv_move [OF inv _ _ e(1,3,5)]) (auto simp: set_txn_def intro!: exI [of _ "snap + 1"])
next
  case (validate_on y i t log_dest clog e e' next_clog)
  then show ?case using validate_step_inv [of y i t log_dest clog e e' "Some next_clog"] by simp
next
  case (validate_end y i t log_dest clog e e')
  then show ?case using validate_step_inv [of y i t log_dest clog e e' None] by simp
next
  case (fill_status y i t log_dest)
  note inv = fill_status.prems
  obtain e where e: "radix_tree_lookup (log_cache (cs_shared y)) t = Some log_dest"
      "entry_at (cs_shared y) t = Some e" "\<not> le_commit_status_filled_in e"
      "\<not> le_aborted e \<longrightarrow> clear_of (cs_shared y) e (cs_snap y t) t"
    using commit_invD(6) [OF inv, of i] fill_status.hyps(1) by auto
  let ?f = "\<lambda>e. e\<lparr>le_commit_status_filled_in := True\<rparr>"
  have "log_mem (cs_shared y) log_dest = Some e" using lookup_entry_at [OF commit_invD(2) [OF inv] e(1)] e(2) by simp
  then have eq: "set_txn y i (Decided t) (log_update (cs_shared y) log_dest ?f) = set_txn y i (Decided t)
      (log_update (cs_shared y) log_dest (\<lambda>_. e\<lparr>le_aborted := le_aborted e, le_commit_status_filled_in := True\<rparr>))"
    by (simp add: log_update_def)
  have at: "entry_at (log_update (cs_shared y) log_dest ?f) t = Some (?f e)"
    using entry_at_update [OF commit_invD(2) [OF inv] e(1)] e(2) by simp
  have pts: "phase_ts (cs_txn y i) = Some t" "phase_ts (Decided t) = Some t" using fill_status.hyps by simp_all
  show ?case by (rule commit_inv_owner [OF inv pts e(1,2,3) _ eq]) (use e(4) at in \<open>simp_all add: set_txn_def\<close>)
next
  case (release y i t s')
  then show ?case by (intro commit_inv_release)
qed

lemma commit_inv_init: "commit_inv commit_init"
proof -
  have at: "entry_at empty_log t = None" for t by (simp add: entry_at_def empty_log_def radix_tree_lookup_def)
  have "log_good empty_log"
    using log_inv_empty_log unfolding log_good_def at by (auto simp: log_stamped_def empty_log_def)
  then show ?thesis unfolding commit_inv_def commit_init_def by (simp add: at, auto simp: empty_log_def)
qed

lemma reachable_inv: "commit_reachable y \<Longrightarrow> commit_inv y"
  by (induction rule: commit_reachable.induct) (auto intro: commit_inv_init commit_inv_step)

text \<open>Steps of a transaction with a timestamp touch no entry but its own.\<close>

lemma own_update_view:
  assumes inv: "commit_inv y" and i: "phase_ts (cs_txn y i) = Some u"
    and a: "radix_tree_lookup (log_cache (cs_shared y)) u = Some a" and t: "t \<le> master_ts (cs_shared y)"
  shows "entry_at (log_update (cs_shared y) a f) t = entry_at (cs_shared y) t"
proof -
  have "t \<noteq> u" using commit_invD(7) [OF inv i] t by auto
  then show ?thesis using entry_at_update [OF commit_invD(2) [OF inv] a] by simp
qed

lemma step_keeps_published:
  assumes "commit_step y y'" and "commit_inv y" and "entry_at (cs_shared y) t = Some e" and "t \<le> master_ts (cs_shared y)"
  shows "master_ts (cs_shared y) \<le> master_ts (cs_shared y') \<and>
    map_option entry_view (entry_at (cs_shared y') t) = Some (entry_view e)"
  using assms
proof (induction rule: commit_step.induct)
  case (append y i snap ws start a s')
  have room: "commit_started_ts (cs_shared y) + 1 \<noteq> 0"
    using append.hyps(3) unat_add_u64 [of "commit_started_ts (cs_shared y)" 1] by auto
  have "t \<noteq> commit_started_ts (cs_shared y) + 1"
    using append.prems(3) commit_invD(5) [OF append.prems(1)] less_inc_iff [OF room, of t] by auto
  then show ?case
    using commit_allocate_ok [OF commit_invD(1) [OF append.prems(1)] append.hyps(2) room append.hyps(4)]
      append.hyps(5) append.prems(2) by (auto simp: set_txn_def)
next
  case (append_nomem y i snap ws log_dest s')
  then show ?case using allocate_nomem [OF append_nomem.hyps(2)] by (simp add: set_txn_def)
next
  case (validate_on y i u a clog e1 e2 nxt)
  have "radix_tree_lookup (log_cache (cs_shared y)) u = Some a" "phase_ts (cs_txn y i) = Some u"
    using commit_invD(6) [OF validate_on.prems(1), of i] validate_on.hyps(1) by auto
  then show ?case using own_update_view [OF validate_on.prems(1)] validate_on.prems(2,3)
    by (simp add: set_txn_def, simp add: log_update_def)
next
  case (validate_end y i u a clog e1 e2)
  have "radix_tree_lookup (log_cache (cs_shared y)) u = Some a" "phase_ts (cs_txn y i) = Some u"
    using commit_invD(6) [OF validate_end.prems(1), of i] validate_end.hyps(1) by auto
  then show ?case using own_update_view [OF validate_end.prems(1)] validate_end.prems(2,3)
    by (simp add: set_txn_def, simp add: log_update_def)
next
  case (fill_status y i u a)
  have "radix_tree_lookup (log_cache (cs_shared y)) u = Some a" "phase_ts (cs_txn y i) = Some u"
    using commit_invD(6) [OF fill_status.prems(1), of i] fill_status.hyps(1) by auto
  then show ?case using own_update_view [OF fill_status.prems(1)] fill_status.prems(2,3)
    by (simp add: set_txn_def, simp add: log_update_def)
next
  case (release y i u s')
  have "master_ts (cs_shared y) < u" using commit_invD(7) [OF release.prems(1), of i u] release.hyps(1) by simp
  moreover have "s' = (cs_shared y)\<lparr>master_ts := u\<rparr>"
    using release.hyps(2) by (auto simp: commit_release_def split: if_splits)
  ultimately show ?case using release.prems(2) by (simp add: set_txn_def entry_at_ts_change less_imp_le)
qed (simp_all add: set_txn_def)

section \<open>Progress\<close>

lemma owner_moves:
  assumes inv: "commit_inv y" and i: "phase_ts (cs_txn y i) = Some (master_ts (cs_shared y) + 1)"
  shows "\<exists>y'. commit_step y y' \<and> cs_txn y' i \<noteq> cs_txn y i"
proof -
  let ?s = "cs_shared y" and ?t = "master_ts (cs_shared y) + 1"
  note good = commit_invD(1) [OF inv] and linv = commit_invD(2) [OF inv]
  show ?thesis
  proof (cases "cs_txn y i")
    case (Appended t a snap)
    show ?thesis
    proof (cases "t \<ge> snap + 2")
      case False
      show ?thesis using skip_validation [OF Appended False] Appended
        by (intro exI [of _ "set_txn y i (Checked t a) ?s"]) (simp add: set_txn_def)
    next
      case True
      obtain clog where "sivfs_ts_to_log_entry ?s (snap + 1) (snap + 1) (t - 1) = (OK, clog)"
        using commit_invD(3) [OF inv] by (simp add: sivfs_ts_to_log_entry_def)
      from start_validation [OF Appended True this] show ?thesis using Appended
        by (intro exI [of _ "set_txn y i (Validating t a clog) ?s"]) (simp add: set_txn_def)
    qed
  next
    case (Validating t a clog)
    then obtain e where e: "entry_at ?s t = Some e" "radix_tree_lookup (log_cache ?s) t = Some a"
      using commit_invD(6) [OF inv, of i] by auto
    have mem: "log_mem ?s a = Some e" using lookup_entry_at [OF linv e(2)] e(1) by simp
    obtain c e' nxt where it: "validate_iter ?s (t - 1) e clog = (OK, e', nxt)"
        "radix_tree_lookup (log_cache ?s) c = Some clog" "c < t"
        "nxt \<noteq> None \<longrightarrow> radix_tree_lookup (log_cache ?s) (c + 1) = nxt"
      using validate_round [OF inv Validating mem] by (metis option.distinct(1))
    show ?thesis
    proof (cases nxt)
      case None
      then show ?thesis using validate_end [OF Validating mem] it(1) Validating by (fastforce simp: set_txn_def)
    next
      case (Some b)
      have "c + 1 \<noteq> c" by simp
      then have "b \<noteq> clog" using lookup_inj [OF linv it(2), of "c + 1"] it(4) Some by auto
      then show ?thesis using validate_on [OF Validating mem] it(1) Some Validating by (fastforce simp: set_txn_def)
    qed
  next
    case (Checked t a)
    then show ?thesis using fill_status [OF Checked] by (auto simp: set_txn_def)
  next
    case (Decided t)
    then have "commit_release ?s t = (OK, ?s\<lparr>master_ts := t\<rparr>)" using i by (simp add: commit_release_def)
    from release [OF Decided this] show ?thesis using Decided
      by (intro exI [of _ "set_txn y i Idle (?s\<lparr>master_ts := t\<rparr>)"]) (simp add: set_txn_def)
  qed (use i in simp_all)
qed

section \<open>Properties\<close>




section \<open>An example run\<close>

text \<open>Two transactions start on the empty database, append, and are decided; they write to different files.\<close>

definition ex_ws :: "u64 \<Rightarrow> sivfs_writeset" where
  "ex_ws i = \<lparr>capacity_bytes = 40, size_bytes = 40, entries = [i, 4104, 0, 0, 42]\<rparr>"

definition ex_ent :: "u64 \<Rightarrow> sivfs_writeset_entry" where
  "ex_ent i = \<lparr>wse_ino = i, wse_file_offset = 4104, wse_address = 0, wse_stream_control = 0, wse_value = 42\<rparr>"

lemma ex_ws_repr: "ws_repr (ex_ws i) [(ex_ent i, [])]"
  by (simp add: ws_repr_def wse_valid_def info_of_def ex_ent_def sivfs_wse_to_stream_info_def)
     (simp add: ex_ws_def wse_encode_def bytes_def)

lemma ex_ws_formed: "ws_formed (ex_ws i)" and ex_ws_list: "ws_list (ex_ws i) = [ex_ent i]"
  using ex_ws_repr ws_list_repr [OF ex_ws_repr] by (auto simp: ws_formed_def)

lemma create_chunks:
  assumes "sivfs_create_log_entry (Some start) ok s ts ws = (OK, a, s')"
  shows "log_chunks s' = log_chunks s \<or> (\<exists>p. log_chunks s' = (log_chunks s)(start \<mapsto>
           \<lparr>ck_size = log_chunk_real (size_bytes ws), ck_prev = p\<rparr>))"
proof -
  obtain s1 where al: "sivfs_allocate_log_insert_log_cache (Some start) ok s ts ws = (OK, a, s1)"
    using assms by (auto simp: sivfs_create_log_entry_def Let_def split: prod.splits rc.splits if_splits option.splits)
  then have "log_chunks s1 = log_chunks s \<or> (\<exists>p. log_chunks s1 = (log_chunks s)(start \<mapsto>
           \<lparr>ck_size = log_chunk_real (size_bytes ws), ck_prev = p\<rparr>))"
    by (auto simp: sivfs_allocate_log_insert_log_cache_def insert_log_entry_at_def log_chunk_real_def Let_def
        split: if_splits prod.splits rc.splits)
  moreover have "log_chunks s' = log_chunks s1"
    using assms al by (auto simp: sivfs_create_log_entry_def log_update_def Let_def split: if_splits option.splits)
  ultimately show ?thesis by simp
qed

lemma allocate_chunks:
  assumes "commit_allocate (Some start) ok s ws = (OK, a, s')"
  shows "log_chunks s' = log_chunks s \<or> (\<exists>p. log_chunks s' = (log_chunks s)(start \<mapsto>
           \<lparr>ck_size = log_chunk_real (size_bytes ws), ck_prev = p\<rparr>))"
proof -
  obtain s1 where "sivfs_create_log_entry (Some start) ok s (commit_started_ts s + 1) ws = (OK, a, s1)"
      "log_chunks s' = log_chunks s1"
    using assms by (auto simp: commit_allocate_def log_update_def Let_def split: prod.splits rc.splits option.splits)
  then show ?thesis using create_chunks by metis
qed

lemma ex_chunk_size: "log_chunk_real (size_bytes (ex_ws i)) = 1024"
  by (simp add: ex_ws_def log_chunk_real_def SIVFS_LOG_CHUNK_SIZE_def sizeof_log_entry_def)

lemma ex_two_appended:
  "\<exists>y a b d e. commit_reachable y \<and> cs_txn y = ((\<lambda>_. Idle)(0 := Appended 1 a 0, 1 := Appended 2 b 0)) \<and>
     entry_at (cs_shared y) 1 = Some d \<and> entry_at (cs_shared y) 2 = Some e \<and>
     ws_list (le_ws d) = [ex_ent 5] \<and> ws_list (le_ws e) = [ex_ent 6] \<and> cs_snap y 2 = 0"
proof -
  let ?y1 = "set_txn commit_init 0 (Running 0) empty_log"
  let ?y2 = "set_txn ?y1 1 (Running 0) empty_log"
  have e0: "master_ts empty_log = 0" "commit_started_ts empty_log = 0" "log_chunks empty_log = Map.empty"
    by (simp_all add: empty_log_def)
  have r1: "commit_reachable ?y1"
    using commit_reachable.step [OF init begin_txn [of commit_init 0]] e0 by (simp add: commit_init_def)
  have r2: "commit_reachable ?y2"
    using commit_reachable.step [OF r1 begin_txn [of ?y1 1]] e0 by (simp add: commit_init_def set_txn_def)
  have sh: "cs_shared ?y2 = empty_log" "cs_txn ?y2 0 = Running 0" by (simp_all add: set_txn_def)
  have km: "kmalloc_ok empty_log 4096 (log_chunk_real (size_bytes (ex_ws 5)))"
    unfolding ex_chunk_size by (simp add: kmalloc_ok_def e0)
  note good = commit_invD(1) [OF reachable_inv [OF r2], unfolded sh(1)]
  obtain a s1 d where 1: "commit_allocate (Some 4096) True empty_log (ex_ws 5) = (OK, a, s1)" "entry_at s1 1 = Some d"
      "ws_list (le_ws d) = [ex_ent 5]" "commit_started_ts s1 = 1"
    using commit_allocate_ok [OF good ex_ws_formed _ km] e0 by (auto simp: ex_ws_list)
  let ?y3 = "(set_txn ?y2 0 (Appended 1 a 0) s1)\<lparr>cs_snap := (cs_snap ?y2)(1 := 0)\<rparr>"
  have r3: "commit_reachable ?y3"
    using commit_reachable.step [OF r2 append [OF sh(2) ex_ws_formed, of 4096 5 a s1]] sh e0 km 1(1) by simp
  have ck: "log_chunks s1 p = Some c \<Longrightarrow> p = 4096 \<and> ck_size c = 1024" for p c
    using allocate_chunks [OF 1(1)] e0 ex_chunk_size by (auto split: if_splits)
  have km2: "kmalloc_ok s1 8192 (log_chunk_real (size_bytes (ex_ws 6)))"
    unfolding ex_chunk_size using ck by (fastforce simp: kmalloc_ok_def)
  have sh3: "cs_shared ?y3 = s1" "cs_txn ?y3 1 = Running 0" by (simp_all add: set_txn_def)
  note good3 = commit_invD(1) [OF reachable_inv [OF r3], unfolded sh3(1)]
  obtain b s2 e where 2: "commit_allocate (Some 8192) True s1 (ex_ws 6) = (OK, b, s2)" "entry_at s2 2 = Some e"
      "ws_list (le_ws e) = [ex_ent 6]"
      "map_option entry_view (entry_at s2 1) = map_option entry_view (entry_at s1 1)"
    using commit_allocate_ok [OF good3 ex_ws_formed _ km2] 1(4) by (auto simp: ex_ws_list)
  let ?y4 = "(set_txn ?y3 1 (Appended 2 b 0) s2)\<lparr>cs_snap := (cs_snap ?y3)(2 := 0)\<rparr>"
  have r4: "commit_reachable ?y4"
    using commit_reachable.step [OF r3 append [OF sh3(2) ex_ws_formed, of 8192 6 b s2]] sh3 km2 1(4) 2(1) by simp
  obtain d' where d': "entry_at s2 1 = Some d'" "le_ws d' = le_ws d"
    using 2(4) 1(2) by (auto simp: entry_view_def)
  have "cs_txn ?y4 = ((\<lambda>_. Idle)(0 := Appended 1 a 0, 1 := Appended 2 b 0))" "cs_shared ?y4 = s2" "cs_snap ?y4 2 = 0"
    by (simp_all add: set_txn_def commit_init_def fun_eq_iff)
  then show ?thesis using r4 2(2,3) d' 1(3) by metis
qed

lemma ex_decided_first:
  "\<exists>y b d e. commit_reachable y \<and> cs_txn y = ((\<lambda>_. Idle)(0 := Decided 1, 1 := Appended 2 b 0)) \<and>
     entry_at (cs_shared y) 1 = Some d \<and> entry_at (cs_shared y) 2 = Some e \<and> \<not> le_aborted d \<and>
     ws_list (le_ws d) = [ex_ent 5] \<and> ws_list (le_ws e) = [ex_ent 6] \<and> cs_snap y 2 = 0"
proof -
  obtain y a b d e where y: "commit_reachable y" "cs_txn y = ((\<lambda>_. Idle)(0 := Appended 1 a 0, 1 := Appended 2 b 0))"
      "entry_at (cs_shared y) 1 = Some d" "entry_at (cs_shared y) 2 = Some e" "ws_list (le_ws d) = [ex_ent 5]"
      "ws_list (le_ws e) = [ex_ent 6]" "cs_snap y 2 = 0"
    using ex_two_appended by blast
  let ?s = "cs_shared y" and ?f = "\<lambda>e. e\<lparr>le_commit_status_filled_in := True\<rparr>"
  note inv = reachable_inv [OF y(1)]
  have a: "radix_tree_lookup (log_cache ?s) 1 = Some a" "\<not> le_aborted d"
    using commit_invD(6) [OF inv, of 0] y(2,3) by auto
  let ?y5 = "set_txn y 0 (Checked 1 a) ?s"
  have r5: "commit_reachable ?y5"
    using commit_reachable.step [OF y(1) skip_validation [of y 0 1 a 0]] y(2) by (simp add: word_le_nat_alt)
  let ?s3 = "log_update ?s a ?f" and ?y6 = "set_txn ?y5 0 (Decided 1) (log_update ?s a ?f)"
  have r6: "commit_reachable ?y6"
    using commit_reachable.step [OF r5 fill_status [of ?y5 0 1 a]] by (simp add: set_txn_def)
  have "entry_at ?s3 1 = Some (?f d)" "entry_at ?s3 2 = Some e"
    using entry_at_update [OF commit_invD(2) [OF inv] a(1)] y(3,4) by simp_all
  moreover have "cs_txn ?y6 = ((\<lambda>_. Idle)(0 := Decided 1, 1 := Appended 2 b 0))" "cs_shared ?y6 = ?s3" "cs_snap ?y6 2 = 0"
    using y(2,7) by (simp_all add: set_txn_def fun_eq_iff)
  ultimately show ?thesis using r6 y(5,6) a(2)
    by (intro exI [of _ ?y6] exI [of _ b] exI [of _ "?f d"] exI [of _ e]) simp
qed




end
