(* ===== verification/Update_Page.thy ===== *)
theory Update_Page
  imports Commit_Log
begin

text \<open>
  Reading a page at the snapshot of a transaction, \<^verbatim>\<open>my_sivfs_update_page\<close> of
  \<^verbatim>\<open>kern/sivfs_commit_update_checkpoints.c\<close>: copy the page of the checkpoint that is checked out, then apply the writes
  that non-aborted transactions made to it after the checkpoint and up to the snapshot.  The loop is one more
  interpretation of \<open>log_walk\<close>; the result is the abstract database at the snapshot, whichever checkpoint
  it is computed from.
\<close>

section \<open>The code\<close>

definition sivfs_same_page :: "u64 \<Rightarrow> u64 \<Rightarrow> bool" where
  "sivfs_same_page a b \<longleftrightarrow> a div PAGE_SIZE = b div PAGE_SIZE"

definition update_page_write ::
  "u64 \<Rightarrow> u64 \<Rightarrow> sivfs_writeset_entry \<Rightarrow> sivfs_wse_stream_info \<Rightarrow> page_mem \<Rightarrow> page_mem step" where
  "update_page_write file_ino file_offset ent info mem =
     (if wse_ino ent = file_ino \<and> sivfs_same_page (wse_file_offset ent) file_offset
      then (case sivfs_apply_ws_ent_pg mem ent of None \<Rightarrow> Stop UB mem | Some mem' \<Rightarrow> Next mem')
      else Next mem)"

fun update_page_loop ::
  "sivfs_shared_state \<Rightarrow> sivfs_ts \<Rightarrow> u64 \<Rightarrow> u64 \<Rightarrow> nat \<Rightarrow> u64 \<Rightarrow> page_mem \<Rightarrow> rc \<times> page_mem" where
  "update_page_loop s target_ts file_ino file_offset 0 log_ent mem = (HANG, mem)"
| "update_page_loop s target_ts file_ino file_offset (Suc fuel) log_ent mem =
     (case log_mem s log_ent of
        None \<Rightarrow> (UB, mem)
      | Some e \<Rightarrow>
          (case (if le_aborted e then (OK, mem)
                 else ws_for_each (update_page_write file_ino file_offset) (le_ws e) mem) of
             (OK, mem1) \<Rightarrow>
               if le_next e = 0 then (OK, mem1)
               else (case log_mem s (le_next e) of
                       None \<Rightarrow> (UB, mem1)
                     | Some n \<Rightarrow>
                         if le_ts n > target_ts then (OK, mem1)
                         else update_page_loop s target_ts file_ino file_offset fuel (le_next e) mem1)
           | (r, mem1) \<Rightarrow> (r, mem1)))"

text \<open>
  \<open>target_ts\<close> and \<open>checkpoint\<close> are \<^verbatim>\<open>state->ts\<close> and \<^verbatim>\<open>state->checkpoint\<close>; \<open>file_ino\<close> is the number of the backing inode of the
  mapping.
\<close>

definition my_sivfs_update_page ::
  "mmu \<Rightarrow> cp_world \<Rightarrow> sivfs_shared_state \<Rightarrow> sivfs_ts \<Rightarrow> u64 \<Rightarrow> page_mem \<Rightarrow> u64 \<Rightarrow> u64 \<Rightarrow> rc \<times> page_mem" where
  "my_sivfs_update_page m w s target_ts checkpoint mem file_ino file_offset =
     (if target_ts = SIVFS_INVALID_TS then (E EINVAL, mem)
      else if file_offset mod PAGE_SIZE \<noteq> 0 then (E EINVAL, mem)
      else if checkpoint = 0 then (E EINVAL, mem)
      else case sivfs_read_checkpoint m (cw_store w) mem PAGE_SIZE (cw_inodes w checkpoint) file_ino file_offset of
        (OK, mem1) \<Rightarrow>
          (case cw_inodes w checkpoint of
             None \<Rightarrow> (E EINVAL, mem1)
           | Some cpinfo \<Rightarrow>
               let start_ts = cp_ts cpinfo + 1 in
               if start_ts > target_ts then (OK, mem1)
               else (case sivfs_ts_to_log_entry s start_ts start_ts target_ts of
                       (OK, log_ent) \<Rightarrow>
                         if log_ent = 0 then (E EINVAL, mem1)
                         else update_page_loop s target_ts file_ino file_offset
                                (Suc (length (log_cache s))) log_ent mem1
                     | (r, _) \<Rightarrow> (r, mem1)))
      | (r, mem1) \<Rightarrow> (r, mem1))"

section \<open>The database, page by page\<close>

definition page_write :: "u64 \<Rightarrow> u64 \<Rightarrow> sivfs_writeset_entry \<Rightarrow> page_mem \<Rightarrow> page_mem" where
  "page_write i off ent mem =
     (if wse_ino ent = i \<and> sivfs_same_page (wse_file_offset ent) off then leaf_update ent 0 mem else mem)"

definition page_apply :: "u64 \<Rightarrow> u64 \<Rightarrow> sivfs_log_entry list \<Rightarrow> page_mem \<Rightarrow> page_mem" where
  "page_apply i off log mem =
     fold (\<lambda>e mem. if le_aborted e then mem else fold (page_write i off) (ws_list (le_ws e)) mem) log mem"

lemma page_apply_simps [simp]:
  "page_apply i off [] mem = mem"
  "page_apply i off (e # log) mem =
     page_apply i off log (if le_aborted e then mem else fold (page_write i off) (ws_list (le_ws e)) mem)"
  "page_apply i off (log @ log') mem = page_apply i off log' (page_apply i off log mem)"
  by (simp_all add: page_apply_def)

lemma db_write_page:
  assumes "cp_addressable i off" and "writable ent"
  shows "db_write ent f (cp_path i off) = page_write i off ent (f (cp_path i off))"
  using assms cp_path_inj [of "wse_ino ent" "wse_file_offset ent" i off]
  by (auto simp: db_write_def page_write_def sivfs_same_page_def writable_def Let_def cp_path_def)

lemma db_writes_page:
  assumes "cp_addressable i off" and "list_all writable es"
  shows "fold db_write es f (cp_path i off) = fold (page_write i off) es (f (cp_path i off))"
  using assms(2)
proof (induction es arbitrary: f)
  case (Cons e es)
  then show ?case using db_write_page [OF assms(1), of e f] by simp
qed simp

lemma log_entry_ok_writable: "log_entry_ok e \<Longrightarrow> \<not> le_aborted e \<Longrightarrow> list_all writable (ws_list (le_ws e))"
  by (fastforce simp: log_entry_ok_def ws_list_repr list_all_iff)

lemma db_apply_page:
  assumes "cp_addressable i off" and "list_all log_entry_ok log"
  shows "db_apply log f (cp_path i off) = page_apply i off log (f (cp_path i off))"
  using assms(2)
proof (induction log arbitrary: f)
  case Nil
  then show ?case by (simp add: db_apply_def)
next
  case (Cons e log)
  then show ?case
    using db_writes_page [OF assms(1) log_entry_ok_writable [of e], of f] by (simp add: db_apply_def)
qed

section \<open>The loop applies the log to the page\<close>

lemma leaf_update_ws_ent: "wse_aligned ent \<Longrightarrow> sivfs_apply_ws_ent_pg mem ent = Some (leaf_update ent 0 mem)"
  by (simp add: sivfs_apply_ws_ent_pg_def leaf_update_def wse_aligned_def Let_def)

lemma update_page_write_ok:
  "writable ent \<Longrightarrow> update_page_write i off ent info mem = Next (page_write i off ent mem)"
  by (simp add: update_page_write_def page_write_def leaf_update_ws_ent writable_def)

lemma ws_run_update_page:
  "list_all (\<lambda>(x, _). writable x) es \<Longrightarrow>
   ws_run (update_page_write i off) es mem = (OK, fold (page_write i off) (map fst es) mem)"
  by (induction es arbitrary: mem) (auto simp: update_page_write_ok)

definition update_page_body :: "u64 \<Rightarrow> u64 \<Rightarrow> sivfs_log_entry \<Rightarrow> page_mem \<Rightarrow> page_mem step" where
  "update_page_body i off e mem =
     (case (if le_aborted e then (OK, mem) else ws_for_each (update_page_write i off) (le_ws e) mem) of
        (OK, mem1) \<Rightarrow> Next mem1 | (r, mem1) \<Rightarrow> Stop r mem1)"

interpretation updating: log_walk s stop "update_page_body i off" "update_page_loop s stop i off" for s stop i off
proof unfold_locales
  fix a e st r st' n
  assume "log_mem s a = Some e" "update_page_body i off e st = Stop r st'"
  then show "update_page_loop s stop i off (Suc n) a st = (r, st')"
    by (cases "le_aborted e") (auto simp: update_page_body_def split: prod.splits rc.splits)
next
  fix a e st st' n
  assume "log_mem s a = Some e" "update_page_body i off e st = Next st'"
    "le_next e = 0 \<or> (\<exists>e'. log_mem s (le_next e) = Some e' \<and> stop < le_ts e')"
  then show "update_page_loop s stop i off (Suc n) a st = (OK, st')"
    by (cases "le_aborted e") (auto simp: update_page_body_def split: prod.splits rc.splits)
next
  fix a e st st' n e'
  assume "log_mem s a = Some e" "update_page_body i off e st = Next st'"
    "le_next e \<noteq> 0" "log_mem s (le_next e) = Some e'" "le_ts e' \<le> stop"
  then show "update_page_loop s stop i off (Suc n) a st = update_page_loop s stop i off n (le_next e) st'"
    by (cases "le_aborted e") (auto simp: update_page_body_def split: prod.splits rc.splits)
qed

lemma run_entries_page:
  "list_all log_entry_ok log \<Longrightarrow> run_entries (update_page_body i off) log mem = (OK, page_apply i off log mem)"
proof (induction log arbitrary: mem)
  case (Cons e log)
  show ?case
  proof (cases "le_aborted e")
    case False
    then obtain es where es: "ws_repr (le_ws e) es" "list_all (\<lambda>(x, _). writable x) es"
      using Cons.prems by (auto simp: log_entry_ok_def)
    have "ws_for_each (update_page_write i off) (le_ws e) mem = (OK, fold (page_write i off) (ws_list (le_ws e)) mem)"
      by (simp add: wse_loop_repr [OF es(1)] ws_run_update_page [OF es(2)] ws_list_repr [OF es(1)])
    then show ?thesis using Cons False by (simp add: update_page_body_def)
  qed (use Cons in \<open>simp add: update_page_body_def\<close>)
qed simp

section \<open>Reading at a snapshot\<close>

lemma update_page_page:
  assumes "log_run s (log_cache s)" and "radix_tree_lookup (log_cache s) (cp_ts ci + 1) \<noteq> None \<or> target \<le> cp_ts ci"
    and "master_log_deleted_ts s \<le> cp_ts ci + 1" and "list_all log_entry_ok (log_between s (cp_ts ci) target)"
    and "target \<noteq> SIVFS_INVALID_TS" and "off mod PAGE_SIZE = 0" and "checkpoint \<noteq> 0"
    and "cw_inodes w checkpoint = Some ci" and "cp_ts ci \<le> target"
    and "sivfs_read_checkpoint m (cw_store w) mem PAGE_SIZE (Some ci) i off = (OK, base)"
  shows "my_sivfs_update_page m w s target checkpoint mem i off =
    (OK, if cp_ts ci = target then base else page_apply i off (log_between s (cp_ts ci) target) base)"
proof (cases "cp_ts ci = target")
  case True
  have "cp_ts ci + 1 > target" using assms(5) True less_inc_nonzero [of target SIVFS_INVALID_TS]
    by (simp add: less_inc_iff)
  then show ?thesis using assms(5-10) True by (simp add: my_sivfs_update_page_def)
next
  case False
  then have lt: "cp_ts ci < target" using assms(9) by simp
  then have "\<not> target < cp_ts ci + 1" by (simp add: less_inc_iff [OF less_inc_nonzero [OF lt]])
  moreover have lk: "radix_tree_lookup (log_cache s) (cp_ts ci + 1) \<noteq> None" using assms(2) lt by auto
  obtain a where "sivfs_ts_to_log_entry s (cp_ts ci + 1) (cp_ts ci + 1) target = (OK, a)" "a \<noteq> 0"
      "update_page_loop s target i off (Suc (length (log_cache s))) a base =
         run_entries (update_page_body i off) (log_between s (cp_ts ci) target) base"
    using updating.walk_from [OF assms(1) lk lt assms(3), of target] by blast
  ultimately show ?thesis
    using assms(5-8,10) False run_entries_page [OF assms(4)] by (simp add: my_sivfs_update_page_def)
qed

lemma log_between_self: "lo + 1 \<noteq> 0 \<Longrightarrow> log_run s (log_cache s) \<Longrightarrow> log_between s lo lo = []"
  using log_between_iff [of s lo _ lo] by (metis leD list.set_intros(1) neq_Nil_conv)

lemma update_page_snapshot:
  assumes "log_good s" and "master_log_deleted_ts s \<le> cp_ts ci + 1" and "target \<le> commit_started_ts s"
    and "list_all log_entry_ok (log_between s (cp_ts ci) target)"
    and "target \<noteq> SIVFS_INVALID_TS" and "off mod PAGE_SIZE = 0" and "cp_addressable i off" and "checkpoint \<noteq> 0"
    and "cw_inodes w checkpoint = Some ci" and "cp_ts ci \<le> target"
    and "sivfs_read_checkpoint m (cw_store w) mem PAGE_SIZE (Some ci) i off = (OK, f (cp_path i off))"
  shows "my_sivfs_update_page m w s target checkpoint mem i off =
    (OK, db_apply (log_between s (cp_ts ci) target) f (cp_path i off))"
proof -
  have nz: "cp_ts ci + 1 \<noteq> 0" using assms(5,10) less_inc_nonzero [of "cp_ts ci" SIVFS_INVALID_TS] by (metis ts_le_INVALID ts_less_INVALID antisym)
  note run = log_good_run [OF assms(1)]
  have "radix_tree_lookup (log_cache s) (cp_ts ci + 1) \<noteq> None" if "cp_ts ci < target"
  proof -
    have "cp_ts ci + 1 \<le> commit_started_ts s" using that assms(3) inc_le_iff [OF nz] by (metis order_less_le_trans)
    moreover have "0 < cp_ts ci + 1" using nz by (simp add: word_neq_0_conv)
    ultimately show ?thesis using assms(1,2) entry_at_lookup by (auto simp: log_good_def)
  qed
  then have lk: "radix_tree_lookup (log_cache s) (cp_ts ci + 1) \<noteq> None \<or> target \<le> cp_ts ci" by (metis leI)
  show ?thesis
    using update_page_page [OF run lk assms(2,4-6,8-11)] db_apply_page [OF assms(7,4)] log_between_self [OF nz run]
    by auto
qed


section \<open>Splitting the log\<close>

lemma takeWhile_from_filter:
  assumes "rt_inv t"
  shows "takeWhile (\<lambda>(i, _). i \<le> hi) (rt_from t lo) = filter (\<lambda>(i, _). lo \<le> i \<and> i \<le> hi) t"
  using assms
proof (induction t)
  case Nil
  then show ?case by (simp add: rt_from_def)
next
  case (Cons p t)
  obtain j a where p: "p = (j, a)" by fastforce
  have later: "j < i" if "(i, b) \<in> set t" for i b using Cons.prems p that by force
  show ?case
  proof (cases "j < lo")
    case True
    then have "\<not> lo \<le> j" by simp
    then show ?thesis using Cons p True by (simp add: rt_from_def)
  next
    case False
    have "takeWhile (\<lambda>(i, _). i \<le> hi) t = filter (\<lambda>(i, _). lo \<le> i \<and> i \<le> hi) t"
    proof -
      have "dropWhile (\<lambda>(j, _). j < lo) t = t"
        using False later by (cases t) fastforce+
      then show ?thesis using Cons p by (simp add: rt_from_def)
    qed
    moreover have "filter (\<lambda>(i, _). lo \<le> i \<and> i \<le> hi) t = []" if "\<not> j \<le> hi"
      using later that by (fastforce simp: filter_empty_conv)
    ultimately show ?thesis using False p by (auto simp: rt_from_def)
  qed
qed

lemma filter_split_sorted:
  assumes "rt_inv t" and "a \<le> (b::u64)"
  shows "filter (\<lambda>(i, _). a < i \<and> i \<le> c) t = filter (\<lambda>(i, _). a < i \<and> i \<le> b \<and> i \<le> c) t @ filter (\<lambda>(i, _). b < i \<and> i \<le> c) t"
  using assms(1)
proof (induction t)
  case (Cons p t)
  obtain j x where p: "p = (j, x)" by fastforce
  have later: "j < i" if "(i, y) \<in> set t" for i y using Cons.prems p that by force
  show ?case
  proof (cases "b < j")
    case True
    have "filter (\<lambda>(i, _). a < i \<and> i \<le> b \<and> i \<le> c) t = []"
      using later True by (fastforce simp: filter_empty_conv)
    then show ?thesis using Cons p True assms(2) by auto
  next
    case False
    then show ?thesis using Cons p by auto
  qed
qed simp

lemma log_between_append:
  assumes "log_run s (log_cache s)" and "a \<le> b" and "b \<le> c" and "b + 1 \<noteq> 0"
  shows "log_between s a c = log_between s a b @ log_between s b c"
proof -
  have rt: "rt_inv (log_cache s)" using assms(1) by (simp add: log_run_def)
  have a: "a + 1 \<noteq> 0" using assms(2,4) by (metis add.commute add.inverse_unique antisym word_order.extremum)
  have "filter (\<lambda>(i, _). a < i \<and> i \<le> b \<and> i \<le> c) t = filter (\<lambda>(i, _). a < i \<and> i \<le> b) t" for t :: "u64 rt"
    using assms(3) by (intro filter_cong) auto
  then show ?thesis
    using filter_split_sorted [OF rt assms(2), of c]
    by (simp add: log_between_def log_entries_def takeWhile_from_filter [OF rt] inc_le_iff [OF a] inc_le_iff [OF assms(4)])
qed

text \<open>
  The checkpoint does not matter.  When a later checkpoint holds the database of an earlier one with the
  log in between applied, which is what \<^verbatim>\<open>sivfs_make_checkpoint\<close> publishes, then a reader of a given snapshot
  gets the same page from \<^verbatim>\<open>my_sivfs_update_page\<close> whichever of the two it has checked out.
\<close>

theorem snapshot_independent_of_checkpoint:
  assumes "log_good s" and "master_log_deleted_ts s \<le> cp_ts c1 + 1" and "target \<le> commit_started_ts s"
    and "list_all log_entry_ok (log_between s (cp_ts c1) target)"
    and "target \<noteq> SIVFS_INVALID_TS" and "off mod PAGE_SIZE = 0" and "cp_addressable i off"
    and "cw_inodes w a1 = Some c1" and "cw_inodes w a2 = Some c2" and "a1 \<noteq> 0" and "a2 \<noteq> 0"
    and "cp_ts c1 \<le> cp_ts c2" and "cp_ts c2 \<le> target"
    and "sivfs_read_checkpoint m (cw_store w) mem PAGE_SIZE (Some c1) i off = (OK, f (cp_path i off))"
    and "sivfs_read_checkpoint m (cw_store w) mem PAGE_SIZE (Some c2) i off =
      (OK, db_apply (log_between s (cp_ts c1) (cp_ts c2)) f (cp_path i off))"
  shows "my_sivfs_update_page m w s target a1 mem i off = my_sivfs_update_page m w s target a2 mem i off"
proof -
  note run = log_good_run [OF assms(1)]
  have lt: "cp_ts c2 \<noteq> SIVFS_INVALID_TS" using assms(5,13) by (metis ts_le_INVALID antisym)
  then have nz2: "cp_ts c2 + 1 \<noteq> 0" using less_inc_nonzero [of "cp_ts c2" SIVFS_INVALID_TS] by simp
  have nz1: "cp_ts c1 + 1 \<noteq> 0" using lt less_inc_nonzero [of "cp_ts c1" SIVFS_INVALID_TS] assms(12)
    by (metis ts_le_INVALID ts_less_INVALID antisym)
  have split: "log_between s (cp_ts c1) target = log_between s (cp_ts c1) (cp_ts c2) @ log_between s (cp_ts c2) target"
    by (rule log_between_append [OF run assms(12,13) nz2])
  have "cp_ts c1 + 1 \<le> cp_ts c2 + 1"
    using assms(12) by (simp add: word_le_nat_alt unat_inc [OF nz1] unat_inc [OF nz2])
  then have del: "master_log_deleted_ts s \<le> cp_ts c2 + 1" using assms(2) by (rule order_trans [rotated])
  have ok2: "list_all log_entry_ok (log_between s (cp_ts c2) target)" using assms(4) by (simp add: split)
  have 1: "my_sivfs_update_page m w s target a1 mem i off = (OK, db_apply (log_between s (cp_ts c1) target) f (cp_path i off))"
    using update_page_snapshot [where f = f, OF assms(1-7,10,8) _ assms(14)] assms(12,13) by simp
  have 2: "my_sivfs_update_page m w s target a2 mem i off =
      (OK, db_apply (log_between s (cp_ts c2) target) (db_apply (log_between s (cp_ts c1) (cp_ts c2)) f) (cp_path i off))"
    by (rule update_page_snapshot [where f = "db_apply (log_between s (cp_ts c1) (cp_ts c2)) f", OF assms(1) del assms(3) ok2 assms(5-7,11,9,13,15)])
  show ?thesis unfolding 1 2 split by (simp add: db_apply_def)
qed

lemma ex_reads_zero:
  "\<exists>st. sivfs_init_zero_checkpoint_pages ex_mmu ex_boot = (OK, st) \<and>
     sivfs_read_checkpoint ex_mmu (cw_store (ex_cps st)) (\<lambda>_. 9) PAGE_SIZE
       (Some \<lparr>cp_root = 0, cp_ts = 0, cp_obsoleted_ts = SIVFS_INVALID_TS\<rparr>) 5 4096 = (OK, (\<lambda>_. 0))"
proof -
  obtain st where st: "sivfs_init_zero_checkpoint_pages ex_mmu ex_boot = (OK, st)" "store_ok ex_mmu st 1"
      "cp_tree ex_mmu st 1 6 0 (\<lambda>_ _. 0) {}" using ex_made by blast
  have "0 \<notin> dom (cps_pages st)" using st(2) by (simp add: store_ok_def)
  from read_checkpoint_tree [OF this, of ex_mmu 1 "\<lparr>cp_root = 0, cp_ts = 0, cp_obsoleted_ts = SIVFS_INVALID_TS\<rparr>" "\<lambda>_ _. 0" "{}" 5 4096]
  have "sivfs_read_checkpoint ex_mmu st (\<lambda>_. 9) PAGE_SIZE
      (Some \<lparr>cp_root = 0, cp_ts = 0, cp_obsoleted_ts = SIVFS_INVALID_TS\<rparr>) 5 4096 = (OK, (\<lambda>_. 0))"
    using st(3) by (simp add: cp_addressable_def PAGE_SIZE_def)
  then show ?thesis using st(1) by (simp add: ex_cps_def ex_world_def)
qed

lemma ex_snapshot_facts:
  "master_log_deleted_ts ex_log = 0" "commit_started_ts ex_log = 1" "(4096::u64) mod PAGE_SIZE = 0"
  "cp_addressable 5 4096" "(1::u64) \<noteq> SIVFS_INVALID_TS"
  by (simp_all add: ex_log_def empty_log_def cp_addressable_def PAGE_SIZE_def SIVFS_INVALID_TS_def)

lemma ex_snapshot_page: "db_apply (log_between ex_log 0 1) (\<lambda>_ _. 0) (cp_path 5 4096) = (\<lambda>_. 0)(1 := 42)"
  using ex_writes
  by (simp add: ex_between db_apply_def db_write_def ex_write_def leaf_update_def cp_path_def PAGE_SIZE_def)


definition ex_cps2 :: "cp_store \<Rightarrow> cp_world" where
  "ex_cps2 st = (ex_cps st)\<lparr>cw_inodes := (cw_inodes (ex_cps st))(72 := cw_inodes (ex_cps st) 64)\<rparr>"

theorem snapshot_independent_of_checkpoint_witness:
  "\<exists>st. sivfs_init_zero_checkpoint_pages ex_mmu ex_boot = (OK, st) \<and>
     my_sivfs_update_page ex_mmu (ex_cps2 st) ex_log 1 64 (\<lambda>_. 9) 5 4096 =
     my_sivfs_update_page ex_mmu (ex_cps2 st) ex_log 1 72 (\<lambda>_. 9) 5 4096"
proof -
  let ?pi = "\<lparr>cp_root = 0, cp_ts = 0, cp_obsoleted_ts = SIVFS_INVALID_TS\<rparr>"
  obtain st where st: "sivfs_init_zero_checkpoint_pages ex_mmu ex_boot = (OK, st)"
      "sivfs_read_checkpoint ex_mmu (cw_store (ex_cps st)) (\<lambda>_. 9) PAGE_SIZE (Some ?pi) 5 4096 = (OK, (\<lambda>_ _. 0) (cp_path 5 4096))"
    using ex_reads_zero by blast
  let ?w = "ex_cps2 st"
  have none: "log_between ex_log 0 0 = []"
    using log_between_self [OF _ log_good_run [OF ex_log_good], of 0] by simp
  have rd: "sivfs_read_checkpoint ex_mmu (cw_store ?w) (\<lambda>_. 9) PAGE_SIZE (Some ?pi) 5 4096 = (OK, (\<lambda>_ _. 0) (cp_path 5 4096))"
    using st(2) by (simp add: ex_cps2_def)
  have "my_sivfs_update_page ex_mmu ?w ex_log 1 64 (\<lambda>_. 9) 5 4096 = my_sivfs_update_page ex_mmu ?w ex_log 1 72 (\<lambda>_. 9) 5 4096"
    by (rule snapshot_independent_of_checkpoint [where ?c1.0 = ?pi and ?c2.0 = ?pi and f = "\<lambda>_ _. 0", OF ex_log_good _ _ _ ex_snapshot_facts(5,3,4) _ _ _ _ _ _ rd])
       (use ex_entry_writable rd none in \<open>simp_all add: ex_snapshot_facts ex_cps2_def ex_cps_def db_apply_def\<close>)
  then show ?thesis using st(1) by blast
qed

end
