(* ===== verification/Alloc.thy ===== *)
theory Alloc
  imports Radix_Tree Writeset
begin

text \<open>
  The block allocator for files, \<^verbatim>\<open>kern/alloc/sivfs_allocation.h\<close> and \<^verbatim>\<open>kern/alloc/sivfs_allocation.c\<close>.  A file is
  cut into chunks; a chunk is free, allocated, or being freed by a transaction that has not committed.
  The pages of the file carry a boundary record (\<^verbatim>\<open>sivfs_allocator_pginfo\<close>) that says where in the page a
  chunk ends and the next one starts.

  Chunks and allocator infos are named by their addresses in the heap \<open>alloc_heap\<close>, and a boundary record
  by its index in the tree of its file.  The linked lists hold addresses, head first, and
  \<^verbatim>\<open>list_add\<close> inserts at the head.  \<open>ah_new_chunks\<close> says what the next \<^verbatim>\<open>kzalloc\<close> of a chunk returns, \<open>ah_allocs\<close>
  whether the next \<^verbatim>\<open>kzalloc\<close> of a boundary record and the next insertions into the tree succeed.  The
  fields of \<^verbatim>\<open>struct sivfs_state\<close> that the allocator uses form \<open>alloc_txn\<close>, which the state of a task extends.
\<close>

section \<open>Chunks and boundary records\<close>

definition SIVFS_CHUNK_BOUNDARY_NULL :: u64 where
  "SIVFS_CHUNK_BOUNDARY_NULL = - 1"

definition SIVFS_CHUNK_ALLOCATED :: u64 where
  "SIVFS_CHUNK_ALLOCATED = push_bit 63 1"

definition SIVFS_CHUNK_FREEING :: u64 where
  "SIVFS_CHUNK_FREEING = push_bit 62 1"

definition SIVFS_CHUNK_ALLOC_FLAGS :: u64 where
  "SIVFS_CHUNK_ALLOC_FLAGS = SIVFS_CHUNK_ALLOCATED OR SIVFS_CHUNK_FREEING"

record sivfs_alloc_chunk =
  last_freed_ts :: sivfs_ts
  ch_start :: u64
  ch_size :: u64
  ch_ainfo :: u64

definition sivfs_alloc_chunk_is_free :: "sivfs_alloc_chunk \<Rightarrow> bool" where
  "sivfs_alloc_chunk_is_free chunk \<longleftrightarrow> 0 = last_freed_ts chunk AND SIVFS_CHUNK_ALLOCATED"

definition sivfs_alloc_chunk_is_free_visible :: "sivfs_alloc_chunk \<Rightarrow> sivfs_ts \<Rightarrow> bool" where
  "sivfs_alloc_chunk_is_free_visible chunk test_ts \<longleftrightarrow>
     sivfs_alloc_chunk_is_free chunk \<and>
     last_freed_ts chunk AND NOT SIVFS_CHUNK_ALLOC_FLAGS \<le> test_ts"

record sivfs_allocator_pginfo =
  boundary_offset :: u64
  ends_chunk :: u64
  starts_chunk :: u64

record sivfs_allocator_info =
  bestfit_list :: "u64 list"
  pginfo_tree :: "sivfs_allocator_pginfo rt"

record alloc_heap =
  ah_chunks :: "u64 \<Rightarrow> sivfs_alloc_chunk option"
  ah_infos :: "u64 \<Rightarrow> sivfs_allocator_info option"
  ah_new_chunks :: "u64 option list"
  ah_allocs :: "bool list"

record alloc_txn =
  txn_ts :: sivfs_ts
  allocated_chunks :: "u64 list"
  alloc_chunks_to_free :: "u64 list"
  should_abort :: bool

definition alloc_next :: "alloc_heap \<Rightarrow> bool \<times> alloc_heap" where
  "alloc_next h = (case ah_allocs h of [] \<Rightarrow> (True, h) | b # bs \<Rightarrow> (b, h\<lparr>ah_allocs := bs\<rparr>))"

definition set_chunk :: "u64 \<Rightarrow> sivfs_alloc_chunk \<Rightarrow> alloc_heap \<Rightarrow> alloc_heap" where
  "set_chunk c chunk h = h\<lparr>ah_chunks := (ah_chunks h)(c \<mapsto> chunk)\<rparr>"

definition set_ainfo :: "u64 \<Rightarrow> sivfs_allocator_info \<Rightarrow> alloc_heap \<Rightarrow> alloc_heap" where
  "set_ainfo a ainfo h = h\<lparr>ah_infos := (ah_infos h)(a \<mapsto> ainfo)\<rparr>"

definition sivfs_new_alloc_chunk :: "alloc_heap \<Rightarrow> u64 \<Rightarrow> rc \<times> u64 \<times> alloc_heap" where
  "sivfs_new_alloc_chunk h a =
     (case ah_new_chunks h of
        [] \<Rightarrow> (E ENOMEM, 0, h)
      | None # cs \<Rightarrow> (E ENOMEM, 0, h\<lparr>ah_new_chunks := cs\<rparr>)
      | Some c # cs \<Rightarrow>
          (OK, c, set_chunk c \<lparr>last_freed_ts = 0, ch_start = 0, ch_size = 0, ch_ainfo = a\<rparr>
                    (h\<lparr>ah_new_chunks := cs\<rparr>)))"

definition sivfs_put_alloc_chunk :: "alloc_heap \<Rightarrow> u64 \<Rightarrow> alloc_heap" where
  "sivfs_put_alloc_chunk h c = h\<lparr>ah_chunks := (ah_chunks h)(c := None)\<rparr>"

definition zero_pginfo :: sivfs_allocator_pginfo where
  "zero_pginfo = \<lparr>boundary_offset = 0, ends_chunk = 0, starts_chunk = 0\<rparr>"

text \<open>The result is the index of the boundary record of the page that holds \<open>offset\<close>.\<close>

definition sivfs_alloc_get_pginfo :: "alloc_heap \<Rightarrow> u64 \<Rightarrow> u64 \<Rightarrow> rc \<times> u64 \<times> alloc_heap" where
  "sivfs_alloc_get_pginfo h a offset =
     (let pgoff = offset div PAGE_SIZE in
      case ah_infos h a of
        None \<Rightarrow> (UB, 0, h)
      | Some ainfo \<Rightarrow>
          (case radix_tree_lookup (pginfo_tree ainfo) pgoff of
             Some _ \<Rightarrow> (OK, pgoff, h)
           | None \<Rightarrow>
               let (kzalloc_ok, h1) = alloc_next h in
               if \<not> kzalloc_ok then (E ENOMEM, 0, h1)
               else let (insert_ok, h2) = alloc_next h1;
                        (r, t) = radix_tree_insert insert_ok (pginfo_tree ainfo) pgoff zero_pginfo
                    in if r = OK then (OK, pgoff, set_ainfo a (ainfo\<lparr>pginfo_tree := t\<rparr>) h2)
                       else (r, 0, h2)))"

text \<open>Update of the boundary record at an index, \<open>None\<close> when there is no such record.\<close>

definition upd_pginfo ::
  "u64 \<Rightarrow> u64 \<Rightarrow> (sivfs_allocator_pginfo \<Rightarrow> sivfs_allocator_pginfo) \<Rightarrow> alloc_heap \<Rightarrow> alloc_heap" where
  "upd_pginfo a i f h =
     (case ah_infos h a of
        None \<Rightarrow> h
      | Some ainfo \<Rightarrow>
          (case radix_tree_lookup (pginfo_tree ainfo) i of
             None \<Rightarrow> h
           | Some pg \<Rightarrow> set_ainfo a (ainfo\<lparr>pginfo_tree := rt_ins i (f pg) (pginfo_tree ainfo)\<rparr>) h))"

definition pginfo_at :: "alloc_heap \<Rightarrow> u64 \<Rightarrow> u64 \<Rightarrow> sivfs_allocator_pginfo" where
  "pginfo_at h a i =
     (case ah_infos h a of
        None \<Rightarrow> zero_pginfo
      | Some ainfo \<Rightarrow> (case radix_tree_lookup (pginfo_tree ainfo) i of
                          None \<Rightarrow> zero_pginfo | Some pg \<Rightarrow> pg))"

definition bestfit_add :: "u64 \<Rightarrow> u64 \<Rightarrow> alloc_heap \<Rightarrow> alloc_heap" where
  "bestfit_add a c h =
     (case ah_infos h a of
        None \<Rightarrow> h | Some ainfo \<Rightarrow> set_ainfo a (ainfo\<lparr>bestfit_list := c # bestfit_list ainfo\<rparr>) h)"

definition bestfit_del :: "u64 \<Rightarrow> u64 \<Rightarrow> alloc_heap \<Rightarrow> alloc_heap" where
  "bestfit_del a c h =
     (case ah_infos h a of
        None \<Rightarrow> h
      | Some ainfo \<Rightarrow> set_ainfo a (ainfo\<lparr>bestfit_list := remove1 c (bestfit_list ainfo)\<rparr>) h)"

definition sivfs_alloc_info_recover :: "alloc_heap \<Rightarrow> u64 \<Rightarrow> bool \<Rightarrow> rc \<times> alloc_heap" where
  "sivfs_alloc_info_recover h a has_recovery_info =
     (if has_recovery_info then (E EINVAL, h)
      else case sivfs_alloc_get_pginfo h a 0 of
        (OK, start_pginfo, h1) \<Rightarrow>
          (case sivfs_new_alloc_chunk h1 a of
             (OK, wilderness, h2) \<Rightarrow>
               (let h3 = upd_pginfo a start_pginfo
                           (\<lambda>pg. pg\<lparr>boundary_offset := 0, starts_chunk := wilderness\<rparr>) h2;
                    h4 = h3\<lparr>ah_chunks := (ah_chunks h3)(wilderness :=
                           map_option (\<lambda>c. c\<lparr>ch_size := - 1\<rparr>) (ah_chunks h3 wilderness))\<rparr>
                in (OK, bestfit_add a wilderness h4))
           | (r, _, h2) \<Rightarrow> (r, h2))
      | (r, _, h1) \<Rightarrow> (r, h1))"

section \<open>Allocating a block\<close>

definition MAX_BLOCK_ALLOC_SIZE :: u64 where
  "MAX_BLOCK_ALLOC_SIZE = 64 * 1024 * 1024 * 1024"

text \<open>
  The search through the list: the first chunk that is large enough, visible to the transaction and not
  the wilderness, otherwise the wilderness last seen (0 when there is none).  A list cell whose
  chunk has been freed makes the search undefined.
\<close>

fun find_chunk ::
  "(u64 \<Rightarrow> sivfs_alloc_chunk option) \<Rightarrow> sivfs_ts \<Rightarrow> u64 \<Rightarrow> u64 \<Rightarrow> u64 list \<Rightarrow> rc \<times> u64" where
  "find_chunk chunks ts size_requested wilderness [] = (OK, wilderness)"
| "find_chunk chunks ts size_requested wilderness (c # cs) =
     (case chunks c of
        None \<Rightarrow> (UB, 0)
      | Some cur \<Rightarrow>
          if ch_size cur < size_requested then find_chunk chunks ts size_requested wilderness cs
          else if ch_size cur = - 1 then find_chunk chunks ts size_requested c cs
          else if \<not> sivfs_alloc_chunk_is_free_visible cur ts
          then find_chunk chunks ts size_requested wilderness cs
          else (OK, c))"

definition split_chunk :: "alloc_heap \<Rightarrow> u64 \<Rightarrow> u64 \<Rightarrow> sivfs_alloc_chunk \<Rightarrow> u64 \<Rightarrow> rc \<times> alloc_heap" where
  "split_chunk h a c cur size_requested =
     (let split_boundary = ch_start cur + size_requested;
          has_end = (ch_size cur \<noteq> - 1);
          remain_size = (if has_end then ch_size cur - size_requested else ch_size cur)
      in case sivfs_alloc_get_pginfo h a split_boundary of
           (OK, bound_pginfo, h1) \<Rightarrow>
             (case (if has_end then sivfs_alloc_get_pginfo h1 a (ch_start cur + ch_size cur) else (OK, 0, h1)) of
                (OK, end_pginfo, h2) \<Rightarrow>
                  (case sivfs_new_alloc_chunk h2 a of
                     (OK, remain_chunk, h3) \<Rightarrow>
                       (let h4 = set_chunk c (cur\<lparr>ch_size := size_requested\<rparr>) h3;
                            h5 = set_chunk remain_chunk
                                   \<lparr>last_freed_ts = last_freed_ts cur, ch_start = split_boundary,
                                    ch_size = remain_size, ch_ainfo = a\<rparr> h4;
                            h6 = upd_pginfo a bound_pginfo
                                   (\<lambda>pg. pg\<lparr>boundary_offset := split_boundary mod PAGE_SIZE,
                                            ends_chunk := c, starts_chunk := remain_chunk\<rparr>) h5;
                            h7 = (if has_end
                                  then upd_pginfo a end_pginfo (\<lambda>pg. pg\<lparr>ends_chunk := remain_chunk\<rparr>) h6
                                  else h6)
                        in (OK, bestfit_add a remain_chunk h7))
                   | (r, _, h3) \<Rightarrow> (r, h3))
              | (r, _, h2) \<Rightarrow> (r, h2))
         | (r, _, h1) \<Rightarrow> (r, h1))"

text \<open>The result carries \<^verbatim>\<open>alloc_out\<close> and \<^verbatim>\<open>alloc_size_out\<close>.\<close>

definition sivfs_alloc_block ::
  "alloc_heap \<Rightarrow> 'a alloc_txn_scheme \<Rightarrow> u64 \<Rightarrow> u64 \<Rightarrow>
   rc \<times> u64 \<times> u64 \<times> 'a alloc_txn_scheme \<times> alloc_heap" where
  "sivfs_alloc_block h state a size_requested =
     (if size_requested > MAX_BLOCK_ALLOC_SIZE then (E EINVAL, 0, 0, state, h)
      else if size_requested mod 8 \<noteq> 0 then (E EINVAL, 0, 0, state, h)
      else case ah_infos h a of
        None \<Rightarrow> (UB, 0, 0, state, h)
      | Some ainfo \<Rightarrow>
          (case find_chunk (ah_chunks h) (txn_ts state) size_requested 0 (bestfit_list ainfo) of
             (OK, c) \<Rightarrow>
               if c = 0 then (E ENOMEM, 0, 0, state, h)
               else (case ah_chunks h c of
                  None \<Rightarrow> (UB, 0, 0, state, h)
                | Some cur \<Rightarrow>
                    (case (if ch_size cur > size_requested + PAGE_SIZE
                           then split_chunk h a c cur size_requested else (OK, h)) of
                       (OK, h1) \<Rightarrow>
                         (case ah_chunks h1 c of
                            None \<Rightarrow> (UB, 0, 0, state, h1)
                          | Some cur1 \<Rightarrow>
                              (OK, ch_start cur1, ch_size cur1,
                               state\<lparr>allocated_chunks := c # allocated_chunks state\<rparr>,
                               set_chunk c (cur1\<lparr>last_freed_ts := last_freed_ts cur1 OR SIVFS_CHUNK_ALLOCATED\<rparr>)
                                 (bestfit_del a c h1)))
                     | (r, h1) \<Rightarrow> (r, 0, 0, state, h1)))
           | (r, _) \<Rightarrow> (r, 0, 0, state, h)))"

section \<open>Freeing a block\<close>

text \<open>
  A page without a chunk start has a null \<^verbatim>\<open>starts_chunk\<close>, which the code follows.
\<close>

definition sivfs_free_block ::
  "alloc_heap \<Rightarrow> 'a alloc_txn_scheme \<Rightarrow> u64 \<Rightarrow> u64 \<Rightarrow> rc \<times> 'a alloc_txn_scheme \<times> alloc_heap" where
  "sivfs_free_block h state a block_offset =
     (case sivfs_alloc_get_pginfo h a block_offset of
        (OK, i, h1) \<Rightarrow>
          (let pginfo = pginfo_at h1 a i in
           if boundary_offset pginfo = - 1 then (OK, state\<lparr>should_abort := True\<rparr>, h1)
           else if boundary_offset pginfo \<noteq> block_offset mod PAGE_SIZE
           then (OK, state\<lparr>should_abort := True\<rparr>, h1)
           else case ah_chunks h1 (starts_chunk pginfo) of
             None \<Rightarrow> (UB, state, h1)
           | Some chunk \<Rightarrow>
               if sivfs_alloc_chunk_is_free chunk then (OK, state\<lparr>should_abort := True\<rparr>, h1)
               else if last_freed_ts chunk AND NOT SIVFS_CHUNK_ALLOC_FLAGS > txn_ts state
               then (OK, state\<lparr>should_abort := True\<rparr>, h1)
               else (OK, state\<lparr>alloc_chunks_to_free := starts_chunk pginfo # alloc_chunks_to_free state\<rparr>,
                     set_chunk (starts_chunk pginfo)
                       (chunk\<lparr>last_freed_ts := (last_freed_ts chunk AND NOT SIVFS_CHUNK_ALLOCATED)
                                               OR SIVFS_CHUNK_FREEING\<rparr>) h1))
      | (r, _, h1) \<Rightarrow> (r, state, h1))"

section \<open>Coalescing\<close>

text \<open>The results carry \<^verbatim>\<open>did_coalesce\<close> (\<^verbatim>\<open>merged_with\<close>) and the remaining budget.\<close>

definition sivfs_coalesce_with_next ::
  "alloc_heap \<Rightarrow> u64 \<Rightarrow> u64 \<Rightarrow> u64 \<Rightarrow> rc \<times> bool \<times> u64 \<times> alloc_heap" where
  "sivfs_coalesce_with_next h budget c a =
     (case ah_chunks h c of
        None \<Rightarrow> (UB, False, budget, h)
      | Some chunk \<Rightarrow>
          (case sivfs_alloc_get_pginfo h a (ch_start chunk + ch_size chunk) of
             (OK, coalesce_pginfo, h1) \<Rightarrow>
               (let cc = starts_chunk (pginfo_at h1 a coalesce_pginfo) in
                if cc = 0 then (OK, False, budget, h1)
                else case ah_chunks h1 cc of
                  None \<Rightarrow> (UB, False, budget, h1)
                | Some coalesce_chunk \<Rightarrow>
                    if last_freed_ts coalesce_chunk AND (SIVFS_CHUNK_FREEING OR SIVFS_CHUNK_ALLOCATED) \<noteq> 0
                    then (OK, False, budget, h1)
                    else if ch_size coalesce_chunk = - 1 then (OK, False, budget, h1)
                    else if ch_size coalesce_chunk > budget then (OK, False, budget, h1)
                    else (case sivfs_alloc_get_pginfo h1 a (ch_start coalesce_chunk + ch_size coalesce_chunk) of
                       (OK, coalesce_end_pginfo, h2) \<Rightarrow>
                         (case sivfs_alloc_get_pginfo h2 a (ch_start chunk) of
                            (OK, chunk_pginfo, h3) \<Rightarrow>
                              (let h4 = set_chunk c (chunk\<lparr>ch_size := ch_size chunk + ch_size coalesce_chunk\<rparr>) h3;
                                   h5 = upd_pginfo a coalesce_pginfo
                                          (\<lambda>pg. pg\<lparr>boundary_offset := - 1, starts_chunk := 0, ends_chunk := 0\<rparr>) h4;
                                   h6 = upd_pginfo a coalesce_end_pginfo (\<lambda>pg. pg\<lparr>ends_chunk := c\<rparr>) h5
                               in (OK, True, budget - ch_size coalesce_chunk,
                                   sivfs_put_alloc_chunk (bestfit_del a cc h6) cc))
                          | (r, _, h3) \<Rightarrow> (r, False, budget, h3))
                     | (r, _, h2) \<Rightarrow> (r, False, budget, h2)))
           | (r, _, h1) \<Rightarrow> (r, False, budget, h1)))"

definition sivfs_coalesce_with_prev ::
  "alloc_heap \<Rightarrow> u64 \<Rightarrow> u64 \<Rightarrow> u64 \<Rightarrow> rc \<times> u64 \<times> u64 \<times> alloc_heap" where
  "sivfs_coalesce_with_prev h budget c a =
     (case ah_chunks h c of
        None \<Rightarrow> (UB, 0, budget, h)
      | Some chunk \<Rightarrow>
          (case sivfs_alloc_get_pginfo h a (ch_start chunk) of
             (OK, chunk_pginfo, h1) \<Rightarrow>
               (let prev = ends_chunk (pginfo_at h1 a chunk_pginfo) in
                if prev = 0 then (OK, 0, budget, h1)
                else case sivfs_coalesce_with_next h1 budget prev a of
                       (OK, did_coalesce, budget', h2) \<Rightarrow> (OK, if did_coalesce then prev else 0, budget', h2)
                     | (r, _, budget', h2) \<Rightarrow> (r, 0, budget', h2))
           | (r, _, h1) \<Rightarrow> (r, 0, budget, h1)))"

text \<open>The two loops of \<^verbatim>\<open>_sivfs_free_block\<close>, with fuel.\<close>

fun coalesce_next_loop :: "nat \<Rightarrow> alloc_heap \<Rightarrow> u64 \<Rightarrow> u64 \<Rightarrow> u64 \<Rightarrow> rc \<times> u64 \<times> alloc_heap" where
  "coalesce_next_loop 0 h budget c a = (HANG, budget, h)"
| "coalesce_next_loop (Suc fuel) h budget c a =
     (case sivfs_coalesce_with_next h budget c a of
        (OK, did_coalesce, budget', h1) \<Rightarrow>
          if did_coalesce then coalesce_next_loop fuel h1 budget' c a else (OK, budget', h1)
      | (r, _, budget', h1) \<Rightarrow> (r, budget', h1))"

fun coalesce_prev_loop :: "nat \<Rightarrow> alloc_heap \<Rightarrow> u64 \<Rightarrow> u64 \<Rightarrow> u64 \<Rightarrow> rc \<times> alloc_heap" where
  "coalesce_prev_loop 0 h budget c a = (HANG, h)"
| "coalesce_prev_loop (Suc fuel) h budget c a =
     (case sivfs_coalesce_with_prev h budget c a of
        (OK, merged_into, budget', h1) \<Rightarrow>
          if merged_into \<noteq> 0 then coalesce_prev_loop fuel h1 budget' merged_into a else (OK, h1)
      | (r, _, _, h1) \<Rightarrow> (r, h1))"

definition free_chunk :: "nat \<Rightarrow> alloc_heap \<Rightarrow> u64 \<Rightarrow> sivfs_ts \<Rightarrow> rc \<times> alloc_heap" where
  "free_chunk fuel h c commit_ts =
     (case ah_chunks h c of
        None \<Rightarrow> (UB, h)
      | Some chunk \<Rightarrow>
          (let a = ch_ainfo chunk in
           if a = 0 then (E EINVAL, h)
           else case ah_infos h a of
             None \<Rightarrow> (UB, h)
           | Some _ \<Rightarrow>
               (let ts = (if commit_ts \<noteq> SIVFS_INVALID_TS then commit_ts else last_freed_ts chunk);
                    h1 = set_chunk c (chunk\<lparr>last_freed_ts :=
                           (ts AND NOT SIVFS_CHUNK_ALLOCATED) AND NOT SIVFS_CHUNK_FREEING\<rparr>) h;
                    h2 = bestfit_add a c h1
                in case coalesce_next_loop fuel h2 (ch_size chunk * 4) c a of
                     (OK, budget, h3) \<Rightarrow> coalesce_prev_loop fuel h3 budget c a
                   | (r, _, h3) \<Rightarrow> (r, h3))))"

section \<open>Commit and abort\<close>

fun commit_frees ::
  "nat \<Rightarrow> alloc_heap \<Rightarrow> 'a alloc_txn_scheme \<Rightarrow> sivfs_ts \<Rightarrow> u64 list \<Rightarrow> rc \<times> 'a alloc_txn_scheme \<times> alloc_heap" where
  "commit_frees fuel h state commit_ts [] = (OK, state\<lparr>alloc_chunks_to_free := []\<rparr>, h)"
| "commit_frees fuel h state commit_ts (cur # rest) =
     (case free_chunk fuel h cur commit_ts of
        (OK, h1) \<Rightarrow> commit_frees fuel h1 state commit_ts rest
      | (E _, h1) \<Rightarrow> (E EINVAL, state\<lparr>alloc_chunks_to_free := rest\<rparr>, h1)
      | (r, h1) \<Rightarrow> (r, state\<lparr>alloc_chunks_to_free := rest\<rparr>, h1))"

definition allocation_commit ::
  "nat \<Rightarrow> alloc_heap \<Rightarrow> 'a alloc_txn_scheme \<Rightarrow> sivfs_ts \<Rightarrow> rc \<times> 'a alloc_txn_scheme \<times> alloc_heap" where
  "allocation_commit fuel h state commit_ts =
     commit_frees fuel h (state\<lparr>allocated_chunks := []\<rparr>) commit_ts (alloc_chunks_to_free state)"

fun abort_frees ::
  "alloc_heap \<Rightarrow> 'a alloc_txn_scheme \<Rightarrow> u64 list \<Rightarrow> rc \<times> 'a alloc_txn_scheme \<times> alloc_heap" where
  "abort_frees h state [] = (OK, state\<lparr>alloc_chunks_to_free := []\<rparr>, h)"
| "abort_frees h state (c # rest) =
     (case ah_chunks h c of
        None \<Rightarrow> (UB, state, h)
      | Some cur \<Rightarrow>
          if ch_ainfo cur = 0 then (E EINVAL, state\<lparr>alloc_chunks_to_free := rest\<rparr>, h)
          else abort_frees
                 (set_chunk c (cur\<lparr>last_freed_ts :=
                    (last_freed_ts cur AND SIVFS_CHUNK_ALLOC_FLAGS) OR SIVFS_CHUNK_ALLOCATED\<rparr>) h) state rest)"

fun abort_allocs ::
  "nat \<Rightarrow> alloc_heap \<Rightarrow> 'a alloc_txn_scheme \<Rightarrow> u64 list \<Rightarrow> rc \<times> 'a alloc_txn_scheme \<times> alloc_heap" where
  "abort_allocs fuel h state [] = (OK, state\<lparr>allocated_chunks := []\<rparr>, h)"
| "abort_allocs fuel h state (cur # rest) =
     (case free_chunk fuel h cur SIVFS_INVALID_TS of
        (OK, h1) \<Rightarrow> abort_allocs fuel h1 state rest
      | (E _, h1) \<Rightarrow> (E EINVAL, state\<lparr>allocated_chunks := rest\<rparr>, h1)
      | (r, h1) \<Rightarrow> (r, state\<lparr>allocated_chunks := rest\<rparr>, h1))"

definition allocation_abort ::
  "nat \<Rightarrow> alloc_heap \<Rightarrow> 'a alloc_txn_scheme \<Rightarrow> rc \<times> 'a alloc_txn_scheme \<times> alloc_heap" where
  "allocation_abort fuel h state =
     (case abort_frees h state (alloc_chunks_to_free state) of
        (OK, state1, h1) \<Rightarrow> abort_allocs fuel h1 state1 (allocated_chunks state1)
      | (r, state1, h1) \<Rightarrow> (r, state1, h1))"

definition sivfs_allocation_on_commit ::
  "nat \<Rightarrow> alloc_heap \<Rightarrow> 'a alloc_txn_scheme \<Rightarrow> bool \<Rightarrow> sivfs_ts \<Rightarrow> rc \<times> 'a alloc_txn_scheme \<times> alloc_heap" where
  "sivfs_allocation_on_commit fuel h state aborted commit_ts =
     (if \<not> aborted then allocation_commit fuel h state commit_ts else allocation_abort fuel h state)"

section \<open>What allocation and freeing do\<close>

lemma alloc_get_pginfo_frame:
  assumes "sivfs_alloc_get_pginfo h a off = (r, i, h')"
  shows "ah_chunks h' = ah_chunks h" and "ah_new_chunks h' = ah_new_chunks h"
  using assms
  by (auto simp: sivfs_alloc_get_pginfo_def alloc_next_def set_ainfo_def Let_def
      split: option.splits list.splits if_splits prod.splits)

lemma frame_simps [simp]:
  "ah_chunks (upd_pginfo a i f h) = ah_chunks h" "ah_chunks (bestfit_add a c h) = ah_chunks h"
  "ah_chunks (bestfit_del a c h) = ah_chunks h" "ah_chunks (set_ainfo a ai h) = ah_chunks h"
  "ah_chunks (set_chunk c k h) = (ah_chunks h)(c \<mapsto> k)"
  by (auto simp: upd_pginfo_def bestfit_add_def bestfit_del_def set_ainfo_def set_chunk_def
      split: option.splits)

lemma split_chunk_shrinks:
  assumes "split_chunk h a c cur n = (OK, h')" and "ah_chunks h c = Some cur"
    and "\<forall>x. Some x \<in> set (ah_new_chunks h) \<longrightarrow> ah_chunks h x = None"
  shows "ah_chunks h' c = Some (cur\<lparr>ch_size := n\<rparr>)"
proof -
  let ?e = "\<lambda>h1. if ch_size cur \<noteq> - 1 then sivfs_alloc_get_pginfo h1 a (ch_start cur + ch_size cur) else (OK, 0, h1)"
  obtain b h1 where 1: "sivfs_alloc_get_pginfo h a (ch_start cur + n) = (OK, b, h1)"
    using assms(1) by (auto simp: split_chunk_def Let_def split: prod.splits rc.splits)
  obtain e h2 where 2: "?e h1 = (OK, e, h2)"
    using assms(1) by (auto simp: split_chunk_def Let_def 1 split: prod.splits rc.splits)
  obtain x h3 where 3: "sivfs_new_alloc_chunk h2 a = (OK, x, h3)"
    using assms(1) by (auto simp: split_chunk_def Let_def 1 2 split: prod.splits rc.splits)
  have same: "ah_new_chunks h2 = ah_new_chunks h"
    using alloc_get_pginfo_frame [OF 1] 2 by (auto split: if_splits dest: alloc_get_pginfo_frame)
  from 3 have "Some x \<in> set (ah_new_chunks h2)"
    by (auto simp: sivfs_new_alloc_chunk_def split: list.splits option.splits)
  then have "x \<noteq> c" using assms(2,3) same by auto
  with assms(1) show ?thesis
    by (auto simp: split_chunk_def Let_def 1 2 3)
qed

lemma find_chunk_fits:
  assumes "find_chunk chunks ts n w cs = (OK, c)" and "c \<noteq> 0" and "c \<noteq> w"
  shows "c \<in> set cs \<and> (\<exists>cur. chunks c = Some cur \<and> n \<le> ch_size cur \<and>
           (ch_size cur = - 1 \<or> sivfs_alloc_chunk_is_free_visible cur ts))"
  using assms
proof (induction chunks ts n w cs rule: find_chunk.induct)
  case (2 chunks ts n w x cs)
  then show ?case by (cases "c = x") (auto split: option.splits if_splits)
qed simp

definition fits :: "(u64 \<Rightarrow> sivfs_alloc_chunk option) \<Rightarrow> sivfs_ts \<Rightarrow> u64 \<Rightarrow> u64 \<Rightarrow> bool" where
  "fits chunks ts n d \<longleftrightarrow> (case chunks d of None \<Rightarrow> False
     | Some k \<Rightarrow> n \<le> ch_size k \<and> ch_size k \<noteq> - 1 \<and> sivfs_alloc_chunk_is_free_visible k ts)"

lemma find_chunk_first:
  assumes "find_chunk chunks ts n w cs = (OK, c)"
  shows "(\<exists>pre post. cs = pre @ c # post \<and> fits chunks ts n c \<and> (\<forall>d \<in> set pre. \<not> fits chunks ts n d)) \<or>
    (\<forall>d \<in> set cs. \<not> fits chunks ts n d) \<and> (c = w \<or> (\<exists>k. chunks c = Some k \<and> ch_size k = - 1))"
  using assms
proof (induction chunks ts n w cs rule: find_chunk.induct)
  case (2 chunks ts n w x cs)
  then obtain k where k: "chunks x = Some k" by (auto split: option.splits)
  show ?case
  proof (cases "fits chunks ts n x")
    case True
    then have "c = x" using 2(4) k by (simp add: fits_def linorder_not_less [symmetric])
    then show ?thesis using True by (intro disjI1 exI [of _ "[]"] exI [of _ cs]) simp
  next
    case False
    then obtain w' where w': "find_chunk chunks ts n w' cs = (OK, c)" "w' = w \<or> w' = x \<and> ch_size k = - 1"
      using 2(4) k by (auto simp: fits_def split: if_splits)
    have "(\<exists>pre post. cs = pre @ c # post \<and> fits chunks ts n c \<and> (\<forall>d \<in> set pre. \<not> fits chunks ts n d)) \<or>
        (\<forall>d \<in> set cs. \<not> fits chunks ts n d) \<and> (c = w' \<or> (\<exists>k. chunks c = Some k \<and> ch_size k = - 1))"
      using 2 k False w' by (auto simp: fits_def not_less split: if_splits)
    then show ?thesis
    proof (elim disjE exE conjE)
      fix pre post assume "cs = pre @ c # post" "fits chunks ts n c" "\<forall>d \<in> set pre. \<not> fits chunks ts n d"
      then show ?thesis using False by (intro disjI1 exI [of _ "x # pre"] exI [of _ post]) auto
    qed (use False w'(2) k in auto)
  qed
qed simp

lemma bit_chunk_flags:
  "bit SIVFS_CHUNK_ALLOCATED n \<longleftrightarrow> n = 63" "bit SIVFS_CHUNK_FREEING n \<longleftrightarrow> n = 62"
  "bit SIVFS_CHUNK_ALLOC_FLAGS n \<longleftrightarrow> n = 63 \<or> n = 62"
  unfolding SIVFS_CHUNK_ALLOC_FLAGS_def SIVFS_CHUNK_ALLOCATED_def SIVFS_CHUNK_FREEING_def bit_or_iff
    bit_push_bit_iff bit_1_iff by auto

lemma chunk_is_free_bit: "sivfs_alloc_chunk_is_free k \<longleftrightarrow> \<not> bit (last_freed_ts k) 63"
proof -
  have "(63::nat) < 64" by simp
  then show ?thesis
    unfolding sivfs_alloc_chunk_is_free_def SIVFS_CHUNK_ALLOCATED_def eq_commute [of "0::u64"]
    using word_and_single_bit_iff [of "last_freed_ts k" 63] by blast
qed

lemma size_slack:
  assumes "n \<le> MAX_BLOCK_ALLOC_SIZE"
  shows "n \<le> n + PAGE_SIZE"
  using assms
  by (simp add: MAX_BLOCK_ALLOC_SIZE_def PAGE_SIZE_def word_le_nat_alt unat_word_ariths)

lemma alloc_block_takes:
  assumes "sivfs_alloc_block h state a n = (OK, off, sz, state', h')"
    and "\<forall>x. Some x \<in> set (ah_new_chunks h) \<longrightarrow> ah_chunks h x = None"
  shows "\<exists>ainfo c cur. ah_infos h a = Some ainfo \<and> c \<in> set (bestfit_list ainfo) \<and> ah_chunks h c = Some cur \<and>
    (ch_size cur = - 1 \<or> sivfs_alloc_chunk_is_free_visible cur (txn_ts state)) \<and> n \<le> ch_size cur \<and>
    (if ch_size cur = - 1 then \<forall>d \<in> set (bestfit_list ainfo). \<not> fits (ah_chunks h) (txn_ts state) n d
     else \<exists>pre post. bestfit_list ainfo = pre @ c # post \<and> (\<forall>d \<in> set pre. \<not> fits (ah_chunks h) (txn_ts state) n d)) \<and>
    off = ch_start cur \<and> n \<le> sz \<and> sz \<le> n + PAGE_SIZE \<and>
    state' = state\<lparr>allocated_chunks := c # allocated_chunks state\<rparr> \<and>
    ah_chunks h' c = Some (cur\<lparr>ch_size := sz, last_freed_ts := last_freed_ts cur OR SIVFS_CHUNK_ALLOCATED\<rparr>)"
proof -
  have n: "n \<le> MAX_BLOCK_ALLOC_SIZE" "n mod 8 = 0"
    using assms(1) by (auto simp: sivfs_alloc_block_def split: if_splits)
  then obtain ainfo where ai: "ah_infos h a = Some ainfo"
    using assms(1) by (auto simp: sivfs_alloc_block_def split: option.splits if_splits)
  obtain c where c: "find_chunk (ah_chunks h) (txn_ts state) n 0 (bestfit_list ainfo) = (OK, c)" "c \<noteq> 0"
    using assms(1) n ai by (auto simp: sivfs_alloc_block_def split: prod.splits rc.splits if_splits)
  from find_chunk_fits [OF c(1,2) c(2)] obtain cur where
    cur: "c \<in> set (bestfit_list ainfo)" "ah_chunks h c = Some cur" "n \<le> ch_size cur"
      "ch_size cur = - 1 \<or> sivfs_alloc_chunk_is_free_visible cur (txn_ts state)" by blast
  have first: "if ch_size cur = - 1 then \<forall>d \<in> set (bestfit_list ainfo). \<not> fits (ah_chunks h) (txn_ts state) n d
     else \<exists>pre post. bestfit_list ainfo = pre @ c # post \<and> (\<forall>d \<in> set pre. \<not> fits (ah_chunks h) (txn_ts state) n d)"
    using find_chunk_first [OF c(1)] c(2) cur(2) by (auto simp: fits_def)
  show ?thesis
  proof (cases "ch_size cur > n + PAGE_SIZE")
    case True
    then obtain h1 where h1: "split_chunk h a c cur n = (OK, h1)"
      using assms(1) n ai c cur
      by (auto simp: sivfs_alloc_block_def split: prod.splits rc.splits if_splits)
    note k = split_chunk_shrinks [OF h1 cur(2) assms(2)]
    have "sivfs_alloc_block h state a n =
      (OK, ch_start cur, n, state\<lparr>allocated_chunks := c # allocated_chunks state\<rparr>,
       set_chunk c (cur\<lparr>ch_size := n, last_freed_ts := last_freed_ts cur OR SIVFS_CHUNK_ALLOCATED\<rparr>)
         (bestfit_del a c h1))"
      using n True by (simp add: sivfs_alloc_block_def ai c cur(2) h1 k)
    with assms(1) show ?thesis using ai cur first size_slack [OF n(1)] by (intro exI [of _ ainfo] exI [of _ c] exI [of _ cur]) auto
  next
    case False
    have "sivfs_alloc_block h state a n =
      (OK, ch_start cur, ch_size cur, state\<lparr>allocated_chunks := c # allocated_chunks state\<rparr>,
       set_chunk c (cur\<lparr>last_freed_ts := last_freed_ts cur OR SIVFS_CHUNK_ALLOCATED\<rparr>)
         (bestfit_del a c h))"
      using n False by (simp add: sivfs_alloc_block_def ai c cur(2))
    with assms(1) show ?thesis using ai cur first False by (intro exI [of _ ainfo] exI [of _ c] exI [of _ cur]) (auto simp: not_less)
  qed
qed

text \<open>
  C28: first fit.  A successful \<^verbatim>\<open>sivfs_alloc_block\<close> takes from the list of its file the first chunk that is large
  enough and was free at the snapshot of the transaction, or the wilderness when there is none; it returns the start of the chunk and
  a size between the requested one and one page more, and leaves the chunk marked allocated and on the list of the transaction.
\<close>

theorem alloc_block_first_fit:
  assumes "sivfs_alloc_block h state a n = (OK, off, sz, state', h')"
    and "\<forall>x. Some x \<in> set (ah_new_chunks h) \<longrightarrow> ah_chunks h x = None"
  shows "\<exists>ainfo c cur. ah_infos h a = Some ainfo \<and> c \<in> set (bestfit_list ainfo) \<and> ah_chunks h c = Some cur \<and>
    (ch_size cur = - 1 \<or> sivfs_alloc_chunk_is_free_visible cur (txn_ts state)) \<and> n \<le> ch_size cur \<and>
    (if ch_size cur = - 1 then \<forall>d \<in> set (bestfit_list ainfo). \<not> fits (ah_chunks h) (txn_ts state) n d
     else \<exists>pre post. bestfit_list ainfo = pre @ c # post \<and> (\<forall>d \<in> set pre. \<not> fits (ah_chunks h) (txn_ts state) n d)) \<and>
    off = ch_start cur \<and> n \<le> sz \<and> sz \<le> n + PAGE_SIZE \<and>
    state' = state\<lparr>allocated_chunks := c # allocated_chunks state\<rparr> \<and>
    ah_chunks h' c = Some (cur\<lparr>ch_size := sz, last_freed_ts := last_freed_ts cur OR SIVFS_CHUNK_ALLOCATED\<rparr>)"
  by (rule alloc_block_takes [OF assms])

text \<open>The chunk boundary the record of a page holds: its offset in the page and the chunk that starts there.\<close>

definition block_start :: "alloc_heap \<Rightarrow> u64 \<Rightarrow> u64 \<Rightarrow> (u64 \<times> u64) option" where
  "block_start h a i = map_option (\<lambda>pg. (boundary_offset pg, starts_chunk pg))
     (Option.bind (ah_infos h a) (\<lambda>ainfo. radix_tree_lookup (pginfo_tree ainfo) i))"

lemma block_start_frame [simp]:
  "block_start (set_chunk c k h) a i = block_start h a i" "block_start (bestfit_add b c h) a i = block_start h a i"
  "block_start (bestfit_del b c h) a i = block_start h a i"
  by (auto simp: block_start_def set_chunk_def bestfit_add_def bestfit_del_def set_ainfo_def split: option.splits)

lemma block_start_upd:
  assumes "i \<noteq> j \<or> (\<forall>pg. boundary_offset (f pg) = boundary_offset pg \<and> starts_chunk (f pg) = starts_chunk pg)"
  shows "block_start (upd_pginfo a j f h) a i = block_start h a i"
  using assms by (auto simp: block_start_def upd_pginfo_def set_ainfo_def radix_tree_lookup_def split: option.splits)

lemma block_start_get:
  assumes "sivfs_alloc_get_pginfo h a off = (r, j, h')" and "block_start h a i = Some v"
  shows "block_start h' a i = Some v"
  using assms
  by (fastforce simp: sivfs_alloc_get_pginfo_def alloc_next_def radix_tree_insert_def block_start_def set_ainfo_def radix_tree_lookup_def
      Let_def split: option.splits list.splits if_splits prod.splits)

lemma get_pginfo_index: "sivfs_alloc_get_pginfo h a off = (OK, j, h') \<Longrightarrow> j = off div PAGE_SIZE"
  by (auto simp: sivfs_alloc_get_pginfo_def Let_def split: option.splits if_splits prod.splits)

lemma block_start_new: "sivfs_new_alloc_chunk h b = (r, c, h') \<Longrightarrow> block_start h' a i = block_start h a i"
  by (auto simp: sivfs_new_alloc_chunk_def block_start_def set_chunk_def split: list.splits option.splits)

lemma split_keeps_start:
  assumes "split_chunk h a c cur n = (OK, h')" and "block_start h a i = Some v" and "i \<noteq> (ch_start cur + n) div PAGE_SIZE"
  shows "block_start h' a i = Some v"
proof -
  let ?e = "\<lambda>h1. if ch_size cur \<noteq> - 1 then sivfs_alloc_get_pginfo h1 a (ch_start cur + ch_size cur) else (OK, 0, h1)"
  obtain b h1 where 1: "sivfs_alloc_get_pginfo h a (ch_start cur + n) = (OK, b, h1)"
    using assms(1) by (auto simp: split_chunk_def Let_def split: prod.splits rc.splits)
  obtain e h2 where 2: "?e h1 = (OK, e, h2)"
    using assms(1) by (auto simp: split_chunk_def Let_def 1 split: prod.splits rc.splits)
  obtain x h3 where 3: "sivfs_new_alloc_chunk h2 a = (OK, x, h3)"
    using assms(1) by (auto simp: split_chunk_def Let_def 1 2 split: prod.splits rc.splits)
  have "block_start h2 a i = Some v"
    using block_start_get [OF 1 assms(2)] 2 by (auto split: if_splits dest: block_start_get)
  then have "block_start h3 a i = Some v" using block_start_new [OF 3] by simp
  moreover have "i \<noteq> b" using get_pginfo_index [OF 1] assms(3) by simp
  ultimately show ?thesis using assms(1)
    by (auto simp: split_chunk_def Let_def 1 2 3 block_start_upd)
qed

lemma split_page_differs:
  fixes s n :: u64
  assumes "PAGE_SIZE \<le> n" and "n \<le> MAX_BLOCK_ALLOC_SIZE"
  shows "s div PAGE_SIZE \<noteq> (s + n) div PAGE_SIZE"
proof
  assume "s div PAGE_SIZE = (s + n) div PAGE_SIZE"
  then have "unat (s div PAGE_SIZE) = unat ((s + n) div PAGE_SIZE)" by simp
  then have d: "unat s div 4096 = unat (s + n) div 4096"
    unfolding unat_div by (simp add: PAGE_SIZE_def)
  have n: "4096 \<le> unat n" "unat n \<le> 68719476736"
    using assms by (auto simp: PAGE_SIZE_def MAX_BLOCK_ALLOC_SIZE_def word_le_nat_alt)
  have s: "unat s < 18446744073709551616" using unsigned_less [of s] by simp
  then have "unat (s + n) = unat s + unat n \<or> unat (s + n) + 18446744073709551616 = unat s + unat n"
    using n by (simp add: unat_word_ariths mod_if) linarith
  moreover have "unat (s + n) < unat s + 4096" "unat s < unat (s + n) + 4096" 
    using d div_mult_mod_eq [of "unat s" 4096] div_mult_mod_eq [of "unat (s + n)" 4096]
      mod_less_divisor [of 4096 "unat s"] mod_less_divisor [of 4096 "unat (s + n)"] by linarith+
  ultimately show False using n s by linarith
qed

lemma chunk_flags_masked:
  "(x OR SIVFS_CHUNK_ALLOCATED) AND NOT SIVFS_CHUNK_ALLOC_FLAGS = x AND NOT SIVFS_CHUNK_ALLOC_FLAGS"
  by (rule bit_eqI) (auto simp: bit_simps bit_chunk_flags)

lemma free_registered:
  assumes "block_start h a (off div PAGE_SIZE) = Some (off mod PAGE_SIZE, c)" and "ah_chunks h c = Some k"
    and "\<not> sivfs_alloc_chunk_is_free k" and "last_freed_ts k AND NOT SIVFS_CHUNK_ALLOC_FLAGS \<le> txn_ts state"
  shows "sivfs_free_block h state a off =
    (OK, state\<lparr>alloc_chunks_to_free := c # alloc_chunks_to_free state\<rparr>,
     set_chunk c (k\<lparr>last_freed_ts := (last_freed_ts k AND NOT SIVFS_CHUNK_ALLOCATED) OR SIVFS_CHUNK_FREEING\<rparr>) h)"
proof -
  have "off mod PAGE_SIZE \<noteq> - 1"
  proof
    assume "off mod PAGE_SIZE = - 1"
    moreover have "off mod PAGE_SIZE < PAGE_SIZE" by (simp add: PAGE_SIZE_def word_less_nat_alt unat_mod)
    ultimately show False by (simp add: PAGE_SIZE_def)
  qed
  moreover obtain ainfo pg where "ah_infos h a = Some ainfo" "radix_tree_lookup (pginfo_tree ainfo) (off div PAGE_SIZE) = Some pg"
    "boundary_offset pg = off mod PAGE_SIZE" "starts_chunk pg = c"
    using assms(1) by (auto simp: block_start_def bind_eq_Some_conv)
  ultimately show ?thesis using assms
    by (simp add: sivfs_free_block_def sivfs_alloc_get_pginfo_def pginfo_at_def Let_def)
qed

lemma alloc_keeps_start:
  assumes "sivfs_alloc_block h state a n = (OK, off, sz, state', h')"
    and "\<forall>x. Some x \<in> set (ah_new_chunks h) \<longrightarrow> ah_chunks h x = None" and "PAGE_SIZE \<le> n"
    and "block_start h a (off div PAGE_SIZE) = Some v"
  shows "block_start h' a (off div PAGE_SIZE) = Some v"
proof -
  obtain ainfo c cur where c: "ah_infos h a = Some ainfo" "ah_chunks h c = Some cur" "off = ch_start cur"
      "state' = state\<lparr>allocated_chunks := c # allocated_chunks state\<rparr>"
    using alloc_block_takes [OF assms(1,2)] by blast
  have n: "n \<le> MAX_BLOCK_ALLOC_SIZE" using assms(1) by (auto simp: sivfs_alloc_block_def split: if_splits)
  obtain d k h1 where d: "ah_chunks h d = Some k" "(if ch_size k > n + PAGE_SIZE then split_chunk h a d k n else (OK, h)) = (OK, h1)"
      "h' = set_chunk d ((the (ah_chunks h1 d))\<lparr>last_freed_ts := last_freed_ts (the (ah_chunks h1 d)) OR SIVFS_CHUNK_ALLOCATED\<rparr>) (bestfit_del a d h1)"
      "state' = state\<lparr>allocated_chunks := d # allocated_chunks state\<rparr>"
    using assms(1) by (auto simp: sivfs_alloc_block_def c(1) split: if_splits option.splits prod.splits rc.splits)
  then have "d = c" using c(4) by (metis alloc_txn.select_convs(2) alloc_txn.surjective alloc_txn.update_convs(2) list.inject)
  then have "k = cur" using c(2) d(1) by simp
  with d(2) have "block_start h1 a (off div PAGE_SIZE) = Some v"
    using assms(4) split_keeps_start [OF _ assms(4)] split_page_differs [OF assms(3) n] c(3) by (auto split: if_splits)
  then show ?thesis by (simp add: d(3))
qed

text \<open>Every chunk of the list is registered at the page where it starts.\<close>

definition starts_recorded :: "alloc_heap \<Rightarrow> u64 \<Rightarrow> bool" where
  "starts_recorded h a \<longleftrightarrow> (case ah_infos h a of None \<Rightarrow> False
     | Some ainfo \<Rightarrow> \<forall>c \<in> set (bestfit_list ainfo). case ah_chunks h c of None \<Rightarrow> False
         | Some k \<Rightarrow> block_start h a (ch_start k div PAGE_SIZE) = Some (ch_start k mod PAGE_SIZE, c))"

lemma alloc_then_free:
  assumes run: "sivfs_alloc_block h state a n = (OK, off, sz, state', h')"
    and new: "\<forall>x. Some x \<in> set (ah_new_chunks h) \<longrightarrow> ah_chunks h x = None"
    and n: "PAGE_SIZE \<le> n" and rec: "starts_recorded h a"
    and old: "\<forall>c k. ah_chunks h c = Some k \<longrightarrow> ch_size k = - 1 \<longrightarrow> last_freed_ts k \<le> txn_ts state"
  shows "\<exists>c k. allocated_chunks state' = c # allocated_chunks state \<and> ah_chunks h' c = Some k \<and>
    \<not> sivfs_alloc_chunk_is_free k \<and> ch_start k = off \<and> ch_size k = sz \<and>
    sivfs_free_block h' state' a off =
      (OK, state'\<lparr>alloc_chunks_to_free := c # alloc_chunks_to_free state\<rparr>,
       set_chunk c (k\<lparr>last_freed_ts := (last_freed_ts k AND NOT SIVFS_CHUNK_ALLOCATED) OR SIVFS_CHUNK_FREEING\<rparr>) h')"
proof -
  obtain ainfo c cur where c: "ah_infos h a = Some ainfo" "c \<in> set (bestfit_list ainfo)" "ah_chunks h c = Some cur"
      "ch_size cur = - 1 \<or> sivfs_alloc_chunk_is_free_visible cur (txn_ts state)" "off = ch_start cur"
      "state' = state\<lparr>allocated_chunks := c # allocated_chunks state\<rparr>"
      "ah_chunks h' c = Some (cur\<lparr>ch_size := sz, last_freed_ts := last_freed_ts cur OR SIVFS_CHUNK_ALLOCATED\<rparr>)"
    using alloc_block_takes [OF run new] by blast
  let ?k = "cur\<lparr>ch_size := sz, last_freed_ts := last_freed_ts cur OR SIVFS_CHUNK_ALLOCATED\<rparr>"
  have r: "block_start h a (off div PAGE_SIZE) = Some (off mod PAGE_SIZE, c)"
    using rec c by (force simp: starts_recorded_def)
  have "last_freed_ts cur AND NOT SIVFS_CHUNK_ALLOC_FLAGS \<le> txn_ts state"
  proof (cases "ch_size cur = - 1")
    case True
    then have "last_freed_ts cur \<le> txn_ts state" using old c(3) by blast
    moreover have "last_freed_ts cur AND NOT SIVFS_CHUNK_ALLOC_FLAGS \<le> last_freed_ts cur" by (rule word_and_le2)
    ultimately show ?thesis by simp
  next
    case False
    then show ?thesis using c(4) by (simp add: sivfs_alloc_chunk_is_free_visible_def)
  qed
  then have ts: "last_freed_ts ?k AND NOT SIVFS_CHUNK_ALLOC_FLAGS \<le> txn_ts state'" by (simp add: chunk_flags_masked c(6))
  have busy: "\<not> sivfs_alloc_chunk_is_free ?k" by (simp add: chunk_is_free_bit bit_or_iff bit_chunk_flags)
  show ?thesis
    using free_registered [OF alloc_keeps_start [OF run new n r] c(7) busy ts] busy c(5-7) by (intro exI [of _ c] exI [of _ ?k]) auto
qed

definition boot_heap :: alloc_heap where
  "boot_heap = \<lparr>ah_chunks = Map.empty, ah_infos = [8 \<mapsto> \<lparr>bestfit_list = [], pginfo_tree = []\<rparr>],
     ah_new_chunks = [Some 16, Some 24, Some 32, Some 40], ah_allocs = []\<rparr>"

definition idle_txn :: "sivfs_ts \<Rightarrow> alloc_txn" where
  "idle_txn ts = \<lparr>txn_ts = ts, allocated_chunks = [], alloc_chunks_to_free = [], should_abort = False\<rparr>"

definition fresh_file :: alloc_heap where
  "fresh_file = snd (sivfs_alloc_info_recover boot_heap 8 False)"

lemmas alloc_eval = sivfs_alloc_block_def split_chunk_def sivfs_alloc_get_pginfo_def alloc_next_def
  radix_tree_insert_def radix_tree_lookup_def sivfs_new_alloc_chunk_def set_chunk_def set_ainfo_def
  upd_pginfo_def bestfit_add_def bestfit_del_def pginfo_at_def zero_pginfo_def
  MAX_BLOCK_ALLOC_SIZE_def PAGE_SIZE_def Let_def
  sivfs_alloc_chunk_is_free_visible_def sivfs_alloc_chunk_is_free_def SIVFS_CHUNK_ALLOCATED_def
  SIVFS_CHUNK_FREEING_def SIVFS_CHUNK_ALLOC_FLAGS_def SIVFS_INVALID_TS_def

lemma fresh_file_eq:
  "fresh_file = \<lparr>ah_chunks = [16 \<mapsto> \<lparr>last_freed_ts = 0, ch_start = 0, ch_size = - 1, ch_ainfo = 8\<rparr>],
     ah_infos = [8 \<mapsto> \<lparr>bestfit_list = [16],
                      pginfo_tree = [(0, \<lparr>boundary_offset = 0, ends_chunk = 0, starts_chunk = 16\<rparr>)]\<rparr>],
     ah_new_chunks = [Some 24, Some 32, Some 40], ah_allocs = []\<rparr>"
  by (simp add: fresh_file_def boot_heap_def sivfs_alloc_info_recover_def alloc_eval)

definition one_block :: alloc_heap where
  "one_block = \<lparr>ah_chunks = [16 \<mapsto> \<lparr>last_freed_ts = SIVFS_CHUNK_ALLOCATED, ch_start = 0, ch_size = 4096, ch_ainfo = 8\<rparr>,
                            24 \<mapsto> \<lparr>last_freed_ts = 0, ch_start = 4096, ch_size = - 1, ch_ainfo = 8\<rparr>],
     ah_infos = [8 \<mapsto> \<lparr>bestfit_list = [24],
       pginfo_tree = [(0, \<lparr>boundary_offset = 0, ends_chunk = 0, starts_chunk = 16\<rparr>),
                      (1, \<lparr>boundary_offset = 0, ends_chunk = 16, starts_chunk = 24\<rparr>)]\<rparr>],
     ah_new_chunks = [Some 32, Some 40], ah_allocs = []\<rparr>"

lemma alloc_fresh:
  "sivfs_alloc_block fresh_file (idle_txn 5) 8 4096 =
     (OK, 0, 4096, (idle_txn 5)\<lparr>allocated_chunks := [16]\<rparr>, one_block)"
  by (simp add: fresh_file_eq one_block_def idle_txn_def alloc_eval fun_upd_twist)

theorem alloc_block_first_fit_witness:
  "\<exists>ainfo c cur. ah_infos fresh_file 8 = Some ainfo \<and> c \<in> set (bestfit_list ainfo) \<and>
     ah_chunks one_block c = Some (cur\<lparr>ch_size := 4096, last_freed_ts := last_freed_ts cur OR SIVFS_CHUNK_ALLOCATED\<rparr>)"
  using alloc_block_first_fit [OF alloc_fresh] by (fastforce simp: fresh_file_eq)

lemma abort_frees_chunk:
  assumes "abort_frees h state cs = (OK, state', h')" and "ah_chunks h c = Some k"
  shows "ah_chunks h' c = Some (if c \<in> set cs then k\<lparr>last_freed_ts :=
    (last_freed_ts k AND SIVFS_CHUNK_ALLOC_FLAGS) OR SIVFS_CHUNK_ALLOCATED\<rparr> else k)"
  using assms
proof (induction h state cs arbitrary: k rule: abort_frees.induct)
  case (2 h state x rest)
  then obtain cur where cur: "ah_chunks h x = Some cur" "ch_ainfo cur \<noteq> 0"
    by (auto split: option.splits if_splits)
  have flags: "(((l AND SIVFS_CHUNK_ALLOC_FLAGS) OR SIVFS_CHUNK_ALLOCATED) AND SIVFS_CHUNK_ALLOC_FLAGS) OR
      SIVFS_CHUNK_ALLOCATED = (l AND SIVFS_CHUNK_ALLOC_FLAGS) OR SIVFS_CHUNK_ALLOCATED" for l
    unfolding u64_eq_iff by (auto simp: bit_simps bit_chunk_flags)
  show ?case
  proof (cases "c = x")
    case True
    then show ?thesis using 2 cur by (auto simp: flags)
  next
    case False
    then show ?thesis using 2 cur by auto
  qed
qed simp

text \<open>
  An aborted free does not restore the chunk.  The undo loop of \<^verbatim>\<open>_sivfs_allocation_on_abort\<close> masks with
  the flags instead of their complement, so the chunk ends up allocated, still marked as being freed,
  and the timestamp of its last free is lost.
\<close>

theorem abort_loses_free_timestamp:
  assumes "abort_frees h state cs = (OK, state', h')" and "c \<in> set cs" and "ah_chunks h c = Some k"
    and "last_freed_ts k AND SIVFS_CHUNK_FREEING \<noteq> 0"
  shows "\<exists>k'. ah_chunks h' c = Some k' \<and> \<not> sivfs_alloc_chunk_is_free k' \<and>
    last_freed_ts k' AND SIVFS_CHUNK_FREEING \<noteq> 0 \<and> last_freed_ts k' AND NOT SIVFS_CHUNK_ALLOC_FLAGS = 0"
proof -
  let ?l = "(last_freed_ts k AND SIVFS_CHUNK_ALLOC_FLAGS) OR SIVFS_CHUNK_ALLOCATED"
  have "bit (last_freed_ts k) 62"
    using assms(4) unfolding SIVFS_CHUNK_FREEING_def word_and_single_bit_iff by blast
  then have "bit (?l AND SIVFS_CHUNK_FREEING) 62" by (simp add: bit_simps bit_chunk_flags)
  then have "?l AND SIVFS_CHUNK_FREEING \<noteq> 0" by (metis bit_0_eq bot_apply bot_bool_def)
  moreover have "?l AND NOT SIVFS_CHUNK_ALLOC_FLAGS = 0"
    unfolding u64_eq_iff by (auto simp: bit_simps bit_chunk_flags)
  moreover have "bit ?l 63" by (simp add: bit_simps bit_chunk_flags)
  ultimately show ?thesis
    using abort_frees_chunk [OF assms(1,3)] assms(2) by (simp add: chunk_is_free_bit)
qed

definition freeing_block :: alloc_heap where
  "freeing_block = set_chunk 16 \<lparr>last_freed_ts = SIVFS_CHUNK_FREEING OR 7, ch_start = 0, ch_size = 4096, ch_ainfo = 8\<rparr> one_block"

theorem abort_loses_free_timestamp_witness:
  "\<exists>state' h' k'. abort_frees freeing_block (idle_txn 9) [16] = (OK, state', h') \<and>
     ah_chunks h' 16 = Some k' \<and> last_freed_ts k' AND NOT SIVFS_CHUNK_ALLOC_FLAGS = 0"
  using abort_loses_free_timestamp [of freeing_block "idle_txn 9" "[16]" _ _ 16]
  by (auto simp: freeing_block_def SIVFS_CHUNK_FREEING_def)

text \<open>
  Freeing an address where no block starts.  The boundary record that \<^verbatim>\<open>sivfs_free_block\<close> creates for a page
  without one is zero, which reads as a chunk that starts at the beginning of the page; for a page-aligned
  offset the code then follows the null \<^verbatim>\<open>starts_chunk\<close>.
\<close>

theorem free_unknown_block_follows_null:
  assumes "ah_infos h a = Some ainfo" and "radix_tree_lookup (pginfo_tree ainfo) (off div PAGE_SIZE) = None"
    and "off mod PAGE_SIZE = 0" and "ah_chunks h 0 = None" and "ah_allocs h = []"
  shows "fst (sivfs_free_block h state a off) = UB"
  using assms
  by (simp add: sivfs_free_block_def sivfs_alloc_get_pginfo_def alloc_next_def radix_tree_insert_def
      set_ainfo_def pginfo_at_def radix_tree_lookup_def zero_pginfo_def Let_def)

theorem free_unknown_block_follows_null_witness:
  "fst (sivfs_free_block fresh_file (idle_txn 5) 8 36864) = UB"
  by (rule free_unknown_block_follows_null [where ainfo = "the (ah_infos fresh_file 8)"])
     (simp_all add: fresh_file_eq radix_tree_lookup_def PAGE_SIZE_def)

definition two_blocks :: alloc_heap where
  "two_blocks = \<lparr>ah_chunks = [16 \<mapsto> \<lparr>last_freed_ts = SIVFS_CHUNK_ALLOCATED, ch_start = 0, ch_size = 4096, ch_ainfo = 8\<rparr>,
                             24 \<mapsto> \<lparr>last_freed_ts = SIVFS_CHUNK_FREEING, ch_start = 4096, ch_size = 4096, ch_ainfo = 8\<rparr>,
                             32 \<mapsto> \<lparr>last_freed_ts = 0, ch_start = 8192, ch_size = - 1, ch_ainfo = 8\<rparr>],
     ah_infos = [8 \<mapsto> \<lparr>bestfit_list = [32],
       pginfo_tree = [(0, \<lparr>boundary_offset = 0, ends_chunk = 0, starts_chunk = 16\<rparr>),
                      (1, \<lparr>boundary_offset = 0, ends_chunk = 16, starts_chunk = 24\<rparr>),
                      (2, \<lparr>boundary_offset = 0, ends_chunk = 24, starts_chunk = 32\<rparr>)]\<rparr>],
     ah_new_chunks = [], ah_allocs = []\<rparr>"

definition freed_block :: alloc_heap where
  "freed_block = \<lparr>ah_chunks = [16 \<mapsto> \<lparr>last_freed_ts = SIVFS_CHUNK_ALLOCATED, ch_start = 0, ch_size = 4096, ch_ainfo = 8\<rparr>,
                             24 \<mapsto> \<lparr>last_freed_ts = 8, ch_start = 4096, ch_size = 4096, ch_ainfo = 8\<rparr>,
                             32 \<mapsto> \<lparr>last_freed_ts = 0, ch_start = 8192, ch_size = - 1, ch_ainfo = 8\<rparr>],
     ah_infos = [8 \<mapsto> \<lparr>bestfit_list = [24, 32],
       pginfo_tree = [(0, \<lparr>boundary_offset = 0, ends_chunk = 0, starts_chunk = 16\<rparr>),
                      (1, \<lparr>boundary_offset = 0, ends_chunk = 16, starts_chunk = 24\<rparr>),
                      (2, \<lparr>boundary_offset = 0, ends_chunk = 24, starts_chunk = 32\<rparr>)]\<rparr>],
     ah_new_chunks = [], ah_allocs = []\<rparr>"

definition merged_block :: alloc_heap where
  "merged_block = \<lparr>ah_chunks = [16 \<mapsto> \<lparr>last_freed_ts = SIVFS_CHUNK_ALLOCATED, ch_start = 0, ch_size = 8192, ch_ainfo = 8\<rparr>,
                             32 \<mapsto> \<lparr>last_freed_ts = 0, ch_start = 8192, ch_size = - 1, ch_ainfo = 8\<rparr>],
     ah_infos = [8 \<mapsto> \<lparr>bestfit_list = [32],
       pginfo_tree = [(0, \<lparr>boundary_offset = 0, ends_chunk = 0, starts_chunk = 16\<rparr>),
                      (1, \<lparr>boundary_offset = - 1, ends_chunk = 0, starts_chunk = 0\<rparr>),
                      (2, \<lparr>boundary_offset = 0, ends_chunk = 16, starts_chunk = 32\<rparr>)]\<rparr>],
     ah_new_chunks = [], ah_allocs = []\<rparr>"

lemma freed_next:
  "sivfs_coalesce_with_next freed_block 16384 24 8 = (OK, False, 16384, freed_block)"
  by (simp add: sivfs_coalesce_with_next_def freed_block_def alloc_eval)

lemma freed_prev:
  "sivfs_coalesce_with_next freed_block 16384 16 8 = (OK, True, 12288, merged_block)"
  by (simp add: sivfs_coalesce_with_next_def freed_block_def merged_block_def sivfs_put_alloc_chunk_def alloc_eval fun_upd_twist)

lemma merged_prev: "sivfs_coalesce_with_prev merged_block 12288 16 8 = (OK, 0, 12288, merged_block)"
  by (simp add: sivfs_coalesce_with_prev_def merged_block_def alloc_eval)

lemma freed_with_prev: "sivfs_coalesce_with_prev freed_block 16384 24 8 = (OK, 16, 12288, merged_block)"
proof -
  have "sivfs_alloc_get_pginfo freed_block 8 4096 = (OK, 1, freed_block)"
    and "ends_chunk (pginfo_at freed_block 8 1) = 16"
    and "ah_chunks freed_block 24 = Some \<lparr>last_freed_ts = 8, ch_start = 4096, ch_size = 4096, ch_ainfo = 8\<rparr>"
    by (simp_all add: freed_block_def alloc_eval)
  then show ?thesis by (simp add: sivfs_coalesce_with_prev_def freed_prev)
qed

lemma free_second_block: "free_chunk 2 two_blocks 24 8 = (OK, merged_block)"
proof -
  have "free_chunk 2 two_blocks 24 8 = (case coalesce_next_loop 2 freed_block 16384 24 8 of
      (OK, budget, h) \<Rightarrow> coalesce_prev_loop 2 h budget 24 8 | (r, _, h) \<Rightarrow> (r, h))"
    by (simp add: free_chunk_def two_blocks_def freed_block_def set_chunk_def bestfit_add_def set_ainfo_def
        Let_def SIVFS_CHUNK_ALLOCATED_def SIVFS_CHUNK_FREEING_def SIVFS_INVALID_TS_def fun_upd_twist)
  then show ?thesis by (simp add: numeral_2_eq_2 freed_next freed_with_prev merged_prev)
qed


end
