(* ===== verification/Task_State.thy ===== *)
theory Task_State
  imports Alloc Gc_Entries Sivfs_Log
begin

text \<open>
  The state of a task, \<^verbatim>\<open>struct sivfs_state\<close> with its reference count (\<^verbatim>\<open>kern/sivfs_state.c\<close>), the working set
  it contains (\<^verbatim>\<open>kern/sivfs_workingset.h\<close>), the statistics (\<^verbatim>\<open>kern/sivfs_stats.c\<close>) and the versions that tasks report to
  the collectors (\<^verbatim>\<open>sivfs_get_checked_out_versions\<close>).

  A task is named by the address of its \<^verbatim>\<open>task_struct\<close>, which is also its index in the tree of threads; the
  tree holds the states by value, as a state has one owner.  Anonymous inodes and their pseudo dentries are
  named by addresses.  The counters generated by the macro \<^verbatim>\<open>SIVFS_STATS\<close> are a function on the
  enumeration \<open>stat\<close>.  The hand-made removal of the mmu notifier in \<^verbatim>\<open>sivfs_put_state\<close> is kernel code and left
  out: the notifier holds a reference on the state as long as it is registered.
\<close>

section \<open>Statistics\<close>

datatype stat = nTxns | nCommits | nPgFaults | nWriteTxns | nWriteTxnsWrites | nCheckpoints
  | nCheckpointsTxns | nWriteTxnsThrottledOnSS | nCoWCPPagesMkwrite | nCoWCPPagesInitialWrite
  | nCheckoutCPPages | nCheckpointPagesNew | nCheckpointPagesFreed | nCheckpointInodesFreed
  | nCheckedOutCheckpoints

type_synonym sivfs_stats = "stat \<Rightarrow> u64"

definition stat_inc :: "stat \<Rightarrow> sivfs_stats \<Rightarrow> sivfs_stats" where
  "stat_inc x stats = stats(x := stats x + 1)"

section \<open>The state of a task\<close>

record sivfs_workingset =
  anon_inodes :: "u64 rt"
  anon_dentries :: "u64 rt"

definition sivfs_init_workingset :: sivfs_workingset where
  "sivfs_init_workingset = \<lparr>anon_inodes = [], anon_dentries = []\<rparr>"

record sivfs_state = alloc_txn +
  nref :: int
  t_owner :: u64
  st_checkpoint :: u64
  st_checkpoint_ts :: sivfs_ts
  st_prior_checkpoint_ts :: sivfs_ts
  direct_access :: bool
  st_workingset :: sivfs_workingset
  tmp_log_writeset :: sivfs_log_entry
  st_stats :: sivfs_stats
  stats_last_snapshot :: sivfs_stats
  cp_page_to_cow :: u64
  notifier_registered :: bool

definition zero_stats :: sivfs_stats where
  "zero_stats = (\<lambda>_. 0)"

definition fresh_state :: sivfs_state where
  "fresh_state =
     \<lparr>txn_ts = SIVFS_INVALID_TS, allocated_chunks = [], alloc_chunks_to_free = [], should_abort = False,
      nref = 1, t_owner = 0, st_checkpoint = 0, st_checkpoint_ts = SIVFS_INVALID_TS,
      st_prior_checkpoint_ts = SIVFS_INVALID_TS, direct_access = False,
      st_workingset = sivfs_init_workingset, tmp_log_writeset = sivfs_init_log_entry,
      st_stats = zero_stats, stats_last_snapshot = zero_stats, cp_page_to_cow = 0,
      notifier_registered = False\<rparr>"

definition sivfs_new_state :: "bool \<Rightarrow> rc \<times> sivfs_state option" where
  "sivfs_new_state kzalloc_ok = (if kzalloc_ok then (OK, Some fresh_state) else (E ENOMEM, None))"

definition sivfs_in_txn :: "sivfs_state \<Rightarrow> bool" where
  "sivfs_in_txn state \<longleftrightarrow> txn_ts state \<noteq> SIVFS_INVALID_TS"

record task_world =
  tw_threads :: "sivfs_state rt"
  tw_stats :: sivfs_stats
  tw_alloc :: alloc_heap
  tw_allocs :: "bool list"

definition task_alloc :: "task_world \<Rightarrow> bool \<times> task_world" where
  "task_alloc w = (case tw_allocs w of [] \<Rightarrow> (True, w) | b # bs \<Rightarrow> (b, w\<lparr>tw_allocs := bs\<rparr>))"

definition sivfs_task_to_state :: "task_world \<Rightarrow> u64 \<Rightarrow> sivfs_state option" where
  "sivfs_task_to_state w task = radix_tree_lookup (tw_threads w) task"

section \<open>Accumulating statistics\<close>

definition update_stats_one :: "sivfs_stats \<Rightarrow> sivfs_state \<Rightarrow> sivfs_stats \<times> sivfs_state" where
  "update_stats_one stats state =
     (let stats_snapshot = st_stats state in
      (\<lambda>x. stats x + (stats_snapshot x - stats_last_snapshot state x),
       state\<lparr>stats_last_snapshot := stats_snapshot\<rparr>))"

fun update_stats_loop :: "sivfs_stats \<Rightarrow> sivfs_state rt \<Rightarrow> sivfs_stats \<times> sivfs_state rt" where
  "update_stats_loop stats [] = (stats, [])"
| "update_stats_loop stats ((i, state) # ts) =
     (let (stats1, state1) = update_stats_one stats state;
          (stats2, ts2) = update_stats_loop stats1 ts
      in (stats2, (i, state1) # ts2))"

definition sivfs_update_stats :: "task_world \<Rightarrow> task_world" where
  "sivfs_update_stats w =
     (let (stats, threads) = update_stats_loop (tw_stats w) (tw_threads w)
      in w\<lparr>tw_stats := stats, tw_threads := threads\<rparr>)"

section \<open>References on a state\<close>

text \<open>
  Freeing a state aborts the allocations of its transaction; an error of that step is only printed.
  \<open>fuel\<close> bounds the coalescing loops of the allocator.
\<close>

definition sivfs_put_state :: "nat \<Rightarrow> task_world \<Rightarrow> sivfs_state \<Rightarrow> task_world" where
  "sivfs_put_state fuel w state =
     (case sivfs_allocation_on_commit fuel (tw_alloc w) state True SIVFS_INVALID_TS of
        (_, _, h) \<Rightarrow> w\<lparr>tw_alloc := h\<rparr>)"

definition sivfs_get_task_state :: "nat \<Rightarrow> task_world \<Rightarrow> u64 \<Rightarrow> rc \<times> task_world" where
  "sivfs_get_task_state fuel w task =
     (case radix_tree_lookup (tw_threads w) task of
        None \<Rightarrow>
          (let (kzalloc_ok, w1) = task_alloc w in
           case sivfs_new_state kzalloc_ok of
             (OK, Some state) \<Rightarrow>
               (let (insert_ok, w2) = task_alloc w1;
                    state' = state\<lparr>t_owner := task\<rparr>;
                    (r, t) = radix_tree_insert insert_ok (tw_threads w2) task state'
                in if r = OK then (OK, w2\<lparr>tw_threads := t\<rparr>)
                   else (r, sivfs_put_state fuel w2 state'))
           | (r, _) \<Rightarrow> (r, w1))
      | Some state \<Rightarrow>
          (OK, w\<lparr>tw_threads := rt_ins task (state\<lparr>nref := nref state + 1\<rparr>) (tw_threads w)\<rparr>))"

definition sivfs_put_task_state :: "nat \<Rightarrow> task_world \<Rightarrow> u64 \<Rightarrow> task_world" where
  "sivfs_put_task_state fuel w task =
     (case radix_tree_lookup (tw_threads w) task of
        None \<Rightarrow> w
      | Some state \<Rightarrow>
          (let state1 = state\<lparr>nref := nref state - 1\<rparr>;
               w1 = w\<lparr>tw_threads := rt_ins task state1 (tw_threads w)\<rparr>
           in if nref state1 = 0
              then let w2 = sivfs_update_stats w1
                   in sivfs_put_state fuel
                        (w2\<lparr>tw_threads := radix_tree_delete (tw_threads w2) task\<rparr>) state1
              else w1))"

section \<open>The versions in use\<close>

text \<open>Each task reports two versions; the stack grows with the memory requests of \<open>cp_world\<close>.\<close>

fun push_versions :: "sivfs_state rt \<Rightarrow> sivfs_stack \<Rightarrow> cp_world \<Rightarrow> rc \<times> sivfs_stack \<times> cp_world" where
  "push_versions [] out w = (OK, out, w)"
| "push_versions ((_, state) # ts) out w =
     (let (ok1, w1) = next_alloc w in
      case sivfs_stack_push ok1 out (st_checkpoint_ts state) of
        (OK, out1) \<Rightarrow>
          (let (ok2, w2) = next_alloc w1 in
           case sivfs_stack_push ok2 out1 (st_prior_checkpoint_ts state) of
             (OK, out2) \<Rightarrow> push_versions ts out2 w2
           | (r, out2) \<Rightarrow> (r, out2, w2))
      | (r, out1) \<Rightarrow> (r, out1, w1))"

definition sivfs_get_checked_out_versions ::
  "sivfs_state rt \<Rightarrow> sivfs_stack \<Rightarrow> cp_world \<Rightarrow> rc \<times> sivfs_stack \<times> cp_world" where
  "sivfs_get_checked_out_versions threads out w = push_versions threads out w"

text \<open>What the tasks hold on to.\<close>

definition reported :: "sivfs_state rt \<Rightarrow> sivfs_ts list" where
  "reported threads = concat (map (\<lambda>(_, s). [st_checkpoint_ts s, st_prior_checkpoint_ts s]) threads)"

definition alloc_frame :: "cp_world \<Rightarrow> cp_world \<Rightarrow> bool" where
  "alloc_frame w w' \<longleftrightarrow> (\<exists>bs. w' = w\<lparr>cw_allocs := bs\<rparr>)"

lemma alloc_frame_refl [simp]: "alloc_frame w w"
  unfolding alloc_frame_def by (rule exI [of _ "cw_allocs w"]) simp

lemma alloc_frame_trans: "alloc_frame w w' \<Longrightarrow> alloc_frame w' w'' \<Longrightarrow> alloc_frame w w''"
  by (auto simp: alloc_frame_def)

lemma next_alloc_frame: "next_alloc w = (b, w') \<Longrightarrow> alloc_frame w w'"
  by (auto simp: next_alloc_def alloc_frame_def split: list.splits) (metis cp_world.surjective cp_world.update_convs(4))

lemma alloc_frameD:
  assumes "alloc_frame w w'"
  shows "cw_store w' = cw_store w" "cw_inodes w' = cw_inodes w" "cw_checkpoints w' = cw_checkpoints w"
    "cw_new_inodes w' = cw_new_inodes w"
  using assms by (auto simp: alloc_frame_def)

lemma push_versions_ok:
  assumes "push_versions threads out w = (r, out', w')" and "stack_inv out"
  shows "alloc_frame w w' \<and> stack_inv out' \<and> (r = OK \<or> r = E ENOMEM) \<and>
    (r = OK \<longrightarrow> stack_elems out' = stack_elems out @ reported threads)"
  using assms
proof (induction threads arbitrary: out w)
  case Nil
  then show ?case by (simp add: reported_def)
next
  case (Cons t ts)
  obtain i state where t: "t = (i, state)" by fastforce
  obtain ok1 w1 where a1: "next_alloc w = (ok1, w1)" by fastforce
  obtain r1 out1 where p1: "sivfs_stack_push ok1 out (st_checkpoint_ts state) = (r1, out1)" by fastforce
  note f1 = next_alloc_frame [OF a1] and c1 = stack_push_cases [OF Cons.prems(2) p1]
  show ?case
  proof (cases "r1 = OK")
    case False
    then show ?thesis using Cons.prems t a1 p1 f1 c1 by (auto split: rc.splits)
  next
    case True
    obtain ok2 w2 where a2: "next_alloc w1 = (ok2, w2)" by fastforce
    obtain r2 out2 where p2: "sivfs_stack_push ok2 out1 (st_prior_checkpoint_ts state) = (r2, out2)" by fastforce
    have i1: "stack_inv out1" using c1 True by simp
    note f2 = alloc_frame_trans [OF f1 next_alloc_frame [OF a2]] and c2 = stack_push_cases [OF i1 p2]
    show ?thesis
    proof (cases "r2 = OK")
      case False
      then show ?thesis using Cons.prems t True a1 a2 p1 p2 f2 c1 c2 by (auto split: rc.splits)
    next
      case r2: True
      have i2: "stack_inv out2" using c2 r2 by simp
      have "push_versions ts out2 w2 = (r, out', w')"
        using Cons.prems(1) t True a1 a2 p1 p2 r2 by simp
      from Cons.IH [OF this i2] show ?thesis
        using alloc_frame_trans [OF f2] t c1 c2 True r2 by (auto simp: reported_def)
    qed
  qed
qed

section \<open>Statistics are conserved\<close>

text \<open>What a counter amounts to: the accumulated value and what the tasks have not handed in yet.\<close>

definition stat_pending :: "sivfs_state rt \<Rightarrow> stat \<Rightarrow> u64" where
  "stat_pending threads x = sum_list (map (\<lambda>(_, s). st_stats s x - stats_last_snapshot s x) threads)"

lemma update_stats_loop_total:
  assumes "update_stats_loop stats threads = (stats', threads')"
  shows "stats' x = stats x + stat_pending threads x \<and> stat_pending threads' x = 0 \<and>
    map fst threads' = map fst threads \<and> reported threads' = reported threads"
  using assms
proof (induction threads arbitrary: stats stats' threads')
  case (Cons t ts)
  obtain i state where t: "t = (i, state)" by fastforce
  let ?s1 = "\<lambda>x. stats x + (st_stats state x - stats_last_snapshot state x)"
  obtain s2 ts2 where u: "update_stats_loop ?s1 ts = (s2, ts2)" by fastforce
  have e: "stats' = s2" "threads' = (i, state\<lparr>stats_last_snapshot := st_stats state\<rparr>) # ts2"
    using Cons.prems t u by (simp_all add: update_stats_one_def Let_def)
  from Cons.IH [OF u] show ?case
    by (simp add: e t stat_pending_def reported_def add.assoc)
qed (simp add: stat_pending_def)

text \<open>
  C29: no count is lost or counted twice.  \<^verbatim>\<open>sivfs_update_stats\<close> moves the pending counts of every task into the
  global statistics, so that each counter plus what is pending keeps its value, nothing is pending afterwards and a
  second call changes no counter.
\<close>

theorem update_stats_conserves:
  "tw_stats (sivfs_update_stats w) x + stat_pending (tw_threads (sivfs_update_stats w)) x =
     tw_stats w x + stat_pending (tw_threads w) x \<and>
   stat_pending (tw_threads (sivfs_update_stats w)) x = 0 \<and>
   tw_stats (sivfs_update_stats (sivfs_update_stats w)) x = tw_stats (sivfs_update_stats w) x"
proof -
  obtain s1 t1 where 1: "update_stats_loop (tw_stats w) (tw_threads w) = (s1, t1)" by fastforce
  obtain s2 t2 where 2: "update_stats_loop s1 t1 = (s2, t2)" by fastforce
  show ?thesis
    using update_stats_loop_total [OF 1, of x] update_stats_loop_total [OF 2, of x]
    by (simp add: sivfs_update_stats_def 1 2)
qed

section \<open>Reference counts\<close>

lemma rt_ins_ins: "rt_ins i v (rt_ins i u t) = rt_ins i v t"
  by (induction i u t rule: rt_ins.induct) auto

lemma rt_ins_same: "rt_inv t \<Longrightarrow> radix_tree_lookup t i = Some v \<Longrightarrow> rt_ins i v t = t"
  by (induction i v t rule: rt_ins.induct)
     (fastforce simp: radix_tree_lookup_def dest: map_of_SomeD split: if_splits)+

lemma rt_delete_ins: "rt_inv t \<Longrightarrow> radix_tree_lookup t i = None \<Longrightarrow> radix_tree_delete (rt_ins i v t) i = t"
proof -
  assume "rt_inv t" and "radix_tree_lookup t i = None"
  then have "i \<notin> fst ` set t" by (simp add: radix_tree_lookup_def map_of_eq_None_iff)
  then show ?thesis
    by (induction i v t rule: rt_ins.induct)
       (force simp: radix_tree_delete_def filter_id_conv)+
qed

lemma rt_delete_keys: "map fst (radix_tree_delete t i) = filter (\<lambda>j. j \<noteq> i) (map fst t)"
  by (induction t) (auto simp: radix_tree_delete_def)

lemma put_state_threads [simp]: "tw_threads (sivfs_put_state fuel w state) = tw_threads w"
  "tw_stats (sivfs_put_state fuel w state) = tw_stats w"
  by (auto simp: sivfs_put_state_def split: prod.splits)

text \<open>
  References are balanced.  Taking a reference on the state of a task and giving it back leaves
  everything as it was when the task already had a state; when it had none, the state is created with one reference and
  removed again, and no other task is touched.
\<close>

theorem task_state_references_balanced:
  assumes "rt_inv (tw_threads w)" and "sivfs_get_task_state fuel w task = (OK, w')"
    and "\<And>state. sivfs_task_to_state w task = Some state \<Longrightarrow> 0 < nref state"
  shows "(\<exists>state. sivfs_task_to_state w' task = Some state \<and> 0 < nref state) \<and>
    (sivfs_task_to_state w task \<noteq> None \<longrightarrow> sivfs_put_task_state fuel w' task = w) \<and>
    (sivfs_task_to_state w task = None \<longrightarrow>
       sivfs_task_to_state (sivfs_put_task_state fuel w' task) task = None \<and>
       map fst (tw_threads (sivfs_put_task_state fuel w' task)) = map fst (tw_threads w))"
proof (cases "radix_tree_lookup (tw_threads w) task")
  case (Some state)
  then have pos: "0 < nref state" using assms(3) by (simp add: sivfs_task_to_state_def)
  have w': "w' = w\<lparr>tw_threads := rt_ins task (state\<lparr>nref := nref state + 1\<rparr>) (tw_threads w)\<rparr>"
    using assms(2) Some by (simp add: sivfs_get_task_state_def)
  have "sivfs_put_task_state fuel w' task = w"
    using pos by (simp add: w' sivfs_put_task_state_def radix_tree_lookup_def rt_ins_ins
        rt_ins_same [OF assms(1) Some])
  then show ?thesis using Some pos by (simp add: w' sivfs_task_to_state_def radix_tree_lookup_def)
next
  case None
  obtain b w1 where a1: "task_alloc w = (b, w1)" by fastforce
  obtain b2 w2 where a2: "task_alloc w1 = (b2, w2)" by fastforce
  have th: "tw_threads w2 = tw_threads w"
    using a1 a2 by (auto simp: task_alloc_def split: list.splits)
  let ?new = "fresh_state\<lparr>t_owner := task\<rparr>"
  have w': "w' = w2\<lparr>tw_threads := rt_ins task ?new (tw_threads w)\<rparr>"
    using assms(2) None a1 a2
    by (auto simp: sivfs_get_task_state_def sivfs_new_state_def radix_tree_insert_def th Let_def split: if_splits)
  let ?dead = "?new\<lparr>nref := 0\<rparr>"
  obtain s3 t3 where u: "update_stats_loop (tw_stats w2) (rt_ins task ?dead (tw_threads w)) = (s3, t3)" by fastforce
  have put: "tw_threads (sivfs_put_task_state fuel w' task) = radix_tree_delete t3 task"
    by (simp add: w' sivfs_put_task_state_def radix_tree_lookup_def rt_ins_ins sivfs_update_stats_def u
        Let_def) (simp add: fresh_state_def)
  have "map fst (radix_tree_delete t3 task) = map fst (radix_tree_delete (rt_ins task ?dead (tw_threads w)) task)"
    using update_stats_loop_total [OF u] by (simp add: rt_delete_keys)
  then have keys: "map fst (radix_tree_delete t3 task) = map fst (tw_threads w)"
    by (simp add: rt_delete_ins [OF assms(1) None])
  have "sivfs_task_to_state (sivfs_put_task_state fuel w' task) task = None"
    by (simp add: sivfs_task_to_state_def put radix_tree_lookup_def radix_tree_delete_def)
  then show ?thesis using None put keys
    by (simp add: w' sivfs_task_to_state_def radix_tree_lookup_def fresh_state_def)
qed

definition one_task :: task_world where
  "one_task = \<lparr>tw_threads = [(64, fresh_state)], tw_stats = zero_stats, tw_alloc = boot_heap, tw_allocs = []\<rparr>"

theorem task_state_references_balanced_witness:
  "\<exists>w'. sivfs_get_task_state 1 one_task 64 = (OK, w') \<and> sivfs_put_task_state 1 w' 64 = one_task"
proof -
  have "sivfs_get_task_state 1 one_task 64 =
      (OK, one_task\<lparr>tw_threads := rt_ins 64 (fresh_state\<lparr>nref := 2\<rparr>) (tw_threads one_task)\<rparr>)"
    by (simp add: sivfs_get_task_state_def one_task_def radix_tree_lookup_def fresh_state_def)
  from task_state_references_balanced [OF _ this] show ?thesis
    using \<open>sivfs_get_task_state 1 one_task 64 = _\<close>
    by (simp add: one_task_def sivfs_task_to_state_def radix_tree_lookup_def fresh_state_def)
qed

end
