(* ===== verification/Working_Set.thy ===== *)
theory Working_Set
  imports Update_Page Task_State
begin

text \<open>
  The working set of a task and its update to a newer snapshot: \<^verbatim>\<open>kern/sivfs_workingset.c\<close>, the unmapping helpers of
  \<^verbatim>\<open>kern/sivfs_mm.h\<close> and \<^verbatim>\<open>kern/sivfs_mm.c\<close>, and the functions \<^verbatim>\<open>_sivfs_apply_log_entry_workingset\<close>, \<^verbatim>\<open>sivfs_apply_logs_workingset\<close>
  and \<^verbatim>\<open>sivfs_update\<close> of \<^verbatim>\<open>kern/sivfs_commit_update_checkpoints.c\<close>.

  Each file a task has open has an anonymous inode, named by its address in \<open>anon_heap\<close>; \<open>ii_state\<close> is the task whose state it belongs to.  Its page cache
  \<open>ai_pages\<close> holds the private pages of the working set by page offset, \<open>ai_ptes\<close> says which physical page the task has mapped
  at a page offset, and \<open>ii_checkpoint_pages\<close> marks the offsets at which a page of a checkpoint is mapped.
  The kernel's \<^verbatim>\<open>unmap_mapping_range\<close> and \<^verbatim>\<open>truncate_inode_pages_range\<close> remove mappings and cached pages of a range, as
  documented.  The configuration is \<^verbatim>\<open>SIVFS_FIGURE_WORKINGSET_HARDLIMIT_PLUS_ONE\<close> = -1: the working set is not
  cleared after each transaction.  The references that \<^verbatim>\<open>find_get_page\<close> takes and \<^verbatim>\<open>sivfs_put_wspg\<close> drops are not counted.
\<close>

section \<open>Anonymous inodes\<close>

definition SIVFS_UNREFERENCED :: int where
  "SIVFS_UNREFERENCED = - 1000"

definition SIVFS_IINFO_MAX_REFCOUNT :: int where
  "SIVFS_IINFO_MAX_REFCOUNT = 100"

record anon_info =
  ii_backing_ino :: u64
  ii_state :: u64
  ii_refcount :: int
  ii_checkpoint_pages :: "unit slot rt"
  ii_checkpoint_checked_out :: bool

record ws_page =
  wp_addr :: u64
  wp_mem :: page_mem
  wp_dirty :: bool
  wp_uptodate :: bool

record anon_inode =
  ai_info :: "anon_info option"
  ai_pages :: "ws_page rt"
  ai_ptes :: "u64 \<Rightarrow> u64 option"

type_synonym anon_heap = "u64 \<Rightarrow> anon_inode option"

definition sivfs_iinfo_refct_inc :: "anon_info \<Rightarrow> rc \<times> anon_info" where
  "sivfs_iinfo_refct_inc iinfo =
     (if ii_refcount iinfo = SIVFS_IINFO_MAX_REFCOUNT then (E EINVAL, iinfo)
      else if ii_refcount iinfo < 0 \<or> ii_refcount iinfo > SIVFS_IINFO_MAX_REFCOUNT then (E EINVAL, iinfo)
      else (OK, iinfo\<lparr>ii_refcount := ii_refcount iinfo + 1\<rparr>))"

definition sivfs_backing_ino_to_anon_inode :: "sivfs_workingset \<Rightarrow> u64 \<Rightarrow> u64" where
  "sivfs_backing_ino_to_anon_inode ws backing_ino =
     (case radix_tree_lookup (anon_inodes ws) backing_ino of None \<Rightarrow> 0 | Some a \<Rightarrow> a)"

section \<open>Unmapping\<close>

definition sivfs_unmap_page_range :: "anon_inode \<Rightarrow> u64 \<Rightarrow> u64 \<Rightarrow> anon_inode" where
  "sivfs_unmap_page_range mapping foffset sz =
     (if sz = 0 then mapping
      else mapping\<lparr>
        ai_ptes := (\<lambda>p. if foffset div PAGE_SIZE \<le> p \<and> p < foffset div PAGE_SIZE + (sz + PAGE_SIZE - 1) div PAGE_SIZE
                        then None else ai_ptes mapping p),
        ai_pages := filter (\<lambda>(p, _). \<not> (PAGE_ROUND_DOWN foffset div PAGE_SIZE \<le> p \<and>
                                         p \<le> (PAGE_ROUND_UP (foffset + sz) - 1) div PAGE_SIZE)) (ai_pages mapping)\<rparr>)"

text \<open>The loops below take at most 16 indices from a tree, unmap them, and start again until the tree has none left.\<close>

definition unmap_index :: "u64 \<Rightarrow> anon_inode \<Rightarrow> anon_inode" where
  "unmap_index index mapping = sivfs_unmap_page_range mapping (push_bit 12 index) PAGE_SIZE"

fun sivfs_unmap_mapping_workingset :: "nat \<Rightarrow> anon_inode \<Rightarrow> rc \<times> anon_inode" where
  "sivfs_unmap_mapping_workingset 0 mapping = (if ai_pages mapping = [] then (OK, mapping) else (HANG, mapping))"
| "sivfs_unmap_mapping_workingset (Suc fuel) mapping =
     (let indices = map fst (take 16 (ai_pages mapping)) in
      if indices = [] then (OK, mapping)
      else sivfs_unmap_mapping_workingset fuel (fold unmap_index indices mapping))"

definition evict_index :: "u64 \<Rightarrow> anon_inode \<Rightarrow> anon_inode" where
  "evict_index index mapping =
     (let mapping1 = unmap_index index mapping in
      mapping1\<lparr>ai_info := map_option (\<lambda>iinfo. iinfo\<lparr>ii_checkpoint_pages :=
        radix_tree_delete (ii_checkpoint_pages iinfo) index\<rparr>) (ai_info mapping1)\<rparr>)"

definition mapped_cp_indices :: "anon_info \<Rightarrow> u64 list" where
  "mapped_cp_indices iinfo = map fst (filter (\<lambda>(_, x). x \<noteq> Tombstone) (ii_checkpoint_pages iinfo))"

fun unmap_cps_loop :: "nat \<Rightarrow> anon_inode \<Rightarrow> rc \<times> anon_inode" where
  "unmap_cps_loop fuel mapping =
     (case ai_info mapping of
        None \<Rightarrow> (UB, mapping)
      | Some iinfo \<Rightarrow>
          (case fuel of
             0 \<Rightarrow> if mapped_cp_indices iinfo = [] then (OK, mapping) else (HANG, mapping)
           | Suc fuel' \<Rightarrow>
               let indices = take 16 (mapped_cp_indices iinfo) in
               if indices = [] then (OK, mapping) else unmap_cps_loop fuel' (fold evict_index indices mapping)))"

definition sivfs_unmap_mapping :: "nat \<Rightarrow> anon_inode \<Rightarrow> rc \<times> anon_inode" where
  "sivfs_unmap_mapping fuel mapping =
     (case sivfs_unmap_mapping_workingset fuel mapping of
        (OK, mapping1) \<Rightarrow> unmap_cps_loop fuel mapping1
      | (r, mapping1) \<Rightarrow> (r, mapping1))"

definition SIVFS_NO_INVALIDATE_CPS :: u64 where
  "SIVFS_NO_INVALIDATE_CPS = 4"

text \<open>\<open>unmap_fuel\<close> is enough for both loops: every round removes at least one index.\<close>

definition unmap_fuel :: "anon_inode \<Rightarrow> nat" where
  "unmap_fuel mapping = length (ai_pages mapping) +
     (case ai_info mapping of None \<Rightarrow> 0 | Some iinfo \<Rightarrow> length (ii_checkpoint_pages iinfo))"

fun invalidate_loop :: "u64 \<Rightarrow> u64 rt \<Rightarrow> anon_heap \<Rightarrow> rc \<times> anon_heap" where
  "invalidate_loop options [] h = (OK, h)"
| "invalidate_loop options ((_, a) # slots) h =
     (case h a of
        None \<Rightarrow> (UB, h)
      | Some mapping \<Rightarrow>
          (case (if options AND SIVFS_NO_INVALIDATE_CPS \<noteq> 0
                 then sivfs_unmap_mapping_workingset (unmap_fuel mapping) mapping
                 else sivfs_unmap_mapping (unmap_fuel mapping) mapping) of
             (OK, mapping1) \<Rightarrow> invalidate_loop options slots (h(a \<mapsto> mapping1))
           | (r, mapping1) \<Rightarrow> (r, h(a \<mapsto> mapping1))))"

definition sivfs_invalidate_workingset :: "sivfs_workingset \<Rightarrow> u64 \<Rightarrow> anon_heap \<Rightarrow> rc \<times> anon_heap" where
  "sivfs_invalidate_workingset ws options h = invalidate_loop options (anon_inodes ws) h"

definition invalidate_entry ::
  "sivfs_workingset \<Rightarrow> sivfs_writeset_entry \<Rightarrow> sivfs_wse_stream_info \<Rightarrow> anon_heap \<Rightarrow> anon_heap step" where
  "invalidate_entry ws ent info h =
     (let a = sivfs_backing_ino_to_anon_inode ws (wse_ino ent) in
      if a = 0 then Next h
      else case h a of
        None \<Rightarrow> Stop UB h
      | Some mapping \<Rightarrow>
          Next (h(a \<mapsto> sivfs_unmap_page_range mapping (PAGE_ROUND_DOWN (wse_file_offset ent)) PAGE_SIZE)))"

definition sivfs_invalidate_workingset_log :: "sivfs_workingset \<Rightarrow> sivfs_log_entry \<Rightarrow> anon_heap \<Rightarrow> rc \<times> anon_heap" where
  "sivfs_invalidate_workingset_log ws logent h = ws_for_each (invalidate_entry ws) (le_ws logent) h"

section \<open>Finding a page of the working set\<close>

definition SIVFS_EVICT_CHECKPOINT :: u64 where
  "SIVFS_EVICT_CHECKPOINT = 2"

text \<open>The two evictions; \<open>None\<close> when a checkpoint page is mapped and the flag does not allow to evict it.\<close>

definition evict_checked_out :: "anon_inode \<Rightarrow> anon_info \<Rightarrow> u64 \<Rightarrow> u64 \<Rightarrow> (anon_inode \<times> anon_info) option" where
  "evict_checked_out mapping iinfo offset flags =
     (if ii_checkpoint_checked_out iinfo then
        if flags AND SIVFS_EVICT_CHECKPOINT \<noteq> 0
        then Some (sivfs_unmap_page_range mapping (PAGE_ROUND_DOWN offset) PAGE_SIZE,
                   iinfo\<lparr>ii_checkpoint_checked_out := False\<rparr>)
        else None
      else Some (mapping, iinfo))"

definition evict_cp_page :: "anon_inode \<Rightarrow> anon_info \<Rightarrow> u64 \<Rightarrow> u64 \<Rightarrow> (anon_inode \<times> anon_info) option" where
  "evict_cp_page mapping iinfo offset flags =
     (let pgoff = drop_bit 12 offset in
      case radix_tree_lookup (ii_checkpoint_pages iinfo) pgoff of
        Some (Ptr _) \<Rightarrow>
          if flags AND SIVFS_EVICT_CHECKPOINT \<noteq> 0
          then Some (sivfs_unmap_page_range mapping (PAGE_ROUND_DOWN offset) PAGE_SIZE,
                     iinfo\<lparr>ii_checkpoint_pages := radix_tree_delete (ii_checkpoint_pages iinfo) pgoff\<rparr>)
          else None
      | _ \<Rightarrow> Some (mapping, iinfo))"

text \<open>The page found is named by the address of its inode.\<close>

definition sivfs_find_get_wspg ::
  "anon_heap \<Rightarrow> sivfs_workingset \<Rightarrow> u64 \<Rightarrow> u64 \<Rightarrow> u64 \<Rightarrow> rc \<times> (u64 \<times> ws_page) option \<times> anon_heap" where
  "sivfs_find_get_wspg h ws backing_ino offset flags =
     (let a = sivfs_backing_ino_to_anon_inode ws backing_ino in
      if a = 0 then (OK, None, h)
      else case h a of
        None \<Rightarrow> (UB, None, h)
      | Some mapping \<Rightarrow>
          (case ai_info mapping of
             None \<Rightarrow> (E EINVAL, None, h)
           | Some iinfo \<Rightarrow>
               (case evict_checked_out mapping iinfo offset flags of
                  None \<Rightarrow> (E EINVAL, None, h)
                | Some (mapping1, iinfo1) \<Rightarrow>
                    (case evict_cp_page mapping1 iinfo1 offset flags of
                       None \<Rightarrow> (E EINVAL, None, h(a \<mapsto> mapping1\<lparr>ai_info := Some iinfo1\<rparr>))
                     | Some (mapping2, iinfo2) \<Rightarrow>
                         (OK, map_option (\<lambda>p. (a, p)) (radix_tree_lookup (ai_pages mapping2) (drop_bit 12 offset)),
                          h(a \<mapsto> mapping2\<lparr>ai_info := Some iinfo2\<rparr>))))))"

section \<open>Applying the log to the working set\<close>

definition set_ws_page :: "u64 \<Rightarrow> u64 \<Rightarrow> ws_page \<Rightarrow> anon_heap \<Rightarrow> anon_heap" where
  "set_ws_page a pgoff p h =
     h(a := map_option (\<lambda>mapping. mapping\<lparr>ai_pages := rt_ins pgoff p (ai_pages mapping)\<rparr>) (h a))"

definition apply_ws_write ::
  "cp_store \<Rightarrow> sivfs_workingset \<Rightarrow> sivfs_writeset_entry \<Rightarrow> sivfs_wse_stream_info \<Rightarrow> anon_heap \<Rightarrow> anon_heap step" where
  "apply_ws_write st ws ent info h =
     (case sivfs_find_get_wspg h ws (wse_ino ent) (wse_file_offset ent) SIVFS_EVICT_CHECKPOINT of
        (OK, None, h1) \<Rightarrow> Next h1
      | (OK, Some (a, pg), h1) \<Rightarrow>
          if sivfs_is_checkpoint_page st (wp_addr pg) then Stop (E EINVAL) h1
          else (case sivfs_apply_ws_ent_pg (wp_mem pg) ent of
                  None \<Rightarrow> Stop UB h1
                | Some mem \<Rightarrow> Next (set_ws_page a (drop_bit 12 (wse_file_offset ent)) (pg\<lparr>wp_mem := mem\<rparr>) h1))
      | (r, _, h1) \<Rightarrow> Stop r h1)"

definition sivfs_apply_log_entry_workingset ::
  "cp_store \<Rightarrow> sivfs_workingset \<Rightarrow> sivfs_log_entry \<Rightarrow> anon_heap \<Rightarrow> rc \<times> anon_heap" where
  "sivfs_apply_log_entry_workingset st ws log h =
     (if le_aborted log then (OK, h) else ws_for_each (apply_ws_write st ws) (le_ws log) h)"

fun apply_logs_loop ::
  "cp_store \<Rightarrow> sivfs_workingset \<Rightarrow> sivfs_shared_state \<Rightarrow> sivfs_ts \<Rightarrow> sivfs_ts \<Rightarrow> nat \<Rightarrow> u64 \<Rightarrow> anon_heap \<Rightarrow> rc \<times> anon_heap" where
  "apply_logs_loop st ws s ts_stop ts_skip 0 clog h = (HANG, h)"
| "apply_logs_loop st ws s ts_stop ts_skip (Suc fuel) clog h =
     (case log_mem s clog of
        None \<Rightarrow> (UB, h)
      | Some c \<Rightarrow>
          (case (if le_ts c = ts_skip then (OK, h) else sivfs_apply_log_entry_workingset st ws c h) of
             (OK, h1) \<Rightarrow>
               if le_ts c = ts_stop then (OK, h1)
               else if le_next c = 0 then (OK, h1)
               else (case log_mem s (le_next c) of
                       None \<Rightarrow> (UB, h1)
                     | Some n \<Rightarrow>
                         if le_ts n > ts_stop then (OK, h1)
                         else apply_logs_loop st ws s ts_stop ts_skip fuel (le_next c) h1)
           | (r, h1) \<Rightarrow> (r, h1)))"

definition sivfs_apply_logs_workingset ::
  "cp_store \<Rightarrow> sivfs_workingset \<Rightarrow> sivfs_shared_state \<Rightarrow> u64 \<Rightarrow> sivfs_ts \<Rightarrow> sivfs_ts \<Rightarrow> anon_heap \<Rightarrow> rc \<times> anon_heap" where
  "sivfs_apply_logs_workingset st ws s log ts_stop ts_skip h =
     (case log_mem s log of
        None \<Rightarrow> (UB, h)
      | Some c \<Rightarrow>
          if le_ts c > ts_stop then (E EINVAL, h)
          else apply_logs_loop st ws s ts_stop ts_skip (Suc (length (log_cache s))) log h)"

definition sivfs_update ::
  "cp_store \<Rightarrow> sivfs_shared_state \<Rightarrow> sivfs_state \<Rightarrow> sivfs_ts \<Rightarrow> sivfs_ts \<Rightarrow> anon_heap \<Rightarrow> rc \<times> sivfs_state \<times> anon_heap" where
  "sivfs_update st s state next_ts skip_ts h =
     (if direct_access state then (E EINVAL, state, h)
      else if next_ts = SIVFS_INVALID_TS then (E EINVAL, state, h)
      else if txn_ts state = SIVFS_INVALID_TS then (OK, state\<lparr>txn_ts := next_ts\<rparr>, h)
      else let start_ts = txn_ts state + 1 in
        if start_ts > next_ts then (OK, state\<lparr>txn_ts := next_ts\<rparr>, h)
        else (case sivfs_ts_to_log_entry s start_ts start_ts next_ts of
                (OK, log) \<Rightarrow>
                  if log = 0 then (E EINVAL, state, h)
                  else (case sivfs_apply_logs_workingset st (st_workingset state) s log next_ts skip_ts h of
                          (OK, h1) \<Rightarrow> (OK, state\<lparr>txn_ts := next_ts\<rparr>, h1)
                        | (r, h1) \<Rightarrow> (r, state, h1))
              | (r, _) \<Rightarrow> (r, state, h)))"

definition sivfs_update_direct_access ::
  "sivfs_shared_state \<Rightarrow> sivfs_state \<Rightarrow> sivfs_ts \<Rightarrow> anon_heap \<Rightarrow> rc \<times> sivfs_state \<times> anon_heap" where
  "sivfs_update_direct_access s state next_ts h =
     (if next_ts = SIVFS_INVALID_TS then (E EINVAL, state, h)
      else if next_ts \<noteq> st_checkpoint_ts state then (E EINVAL, state, h)
      else if commit_started_ts s \<noteq> next_ts then (E EINVAL, state, h)
      else case (if \<not> direct_access state
                 then sivfs_invalidate_workingset (st_workingset state) SIVFS_NO_INVALIDATE_CPS h else (OK, h)) of
        (OK, h1) \<Rightarrow> (OK, state\<lparr>txn_ts := next_ts, direct_access := True\<rparr>, h1)
      | (r, h1) \<Rightarrow> (r, state, h1))"

section \<open>Unmapping one page\<close>

lemma page_index_less: "drop_bit 12 (off::u64) < 2 ^ 52"
  using unat_less_u64 [of off]
  by (simp add: word_less_nat_alt drop_bit_eq_div unat_div less_mult_imp_div_less)

lemma unat_page_start: "(p::u64) < 2 ^ 52 \<Longrightarrow> unat (push_bit 12 p) = unat p * 4096"
  by (simp add: push_bit_eq_mult word_less_nat_alt unat_mult_lem [THEN iffD1] mult.commute)

lemma page_start_div: "(p::u64) < 2 ^ 52 \<Longrightarrow> push_bit 12 p div PAGE_SIZE = p"
  by (rule word_unat_eq_iff [THEN iffD2]) (simp add: unat_div unat_page_start PAGE_SIZE_def)

lemma page_round_down: "PAGE_ROUND_DOWN off = push_bit 12 (drop_bit 12 off)"
  by (simp add: PAGE_ROUND_DOWN_def PAGE_SIZE_def push_bit_eq_mult drop_bit_eq_div)

lemma page_end_div:
  assumes "(p::u64) < 2 ^ 52"
  shows "(PAGE_ROUND_UP (push_bit 12 p + PAGE_SIZE) - 1) div PAGE_SIZE = p"
proof (cases "unat p + 1 < 2 ^ 52")
  case True
  define q where "q = p + 1"
  have uq: "unat q = unat p + 1" "q < 2 ^ 52" "0 < unat q" using True unfolding q_def
    by (simp_all add: unat_add_lem [THEN iffD1] word_less_nat_alt)
  have q: "push_bit 12 p + PAGE_SIZE = push_bit 12 q" by (simp add: q_def push_bit_eq_mult PAGE_SIZE_def algebra_simps)
  have "unat (push_bit 12 q + 4095) = unat q * 4096 + 4095"
    using uq by (simp add: unat_add_lem [THEN iffD1] unat_page_start word_less_nat_alt)
  then have "(push_bit 12 q + 4095) div 4096 = q" by (simp add: word_unat_eq_iff unat_div)
  then have "(4095 + push_bit 12 q) div 4096 = q" by (simp only: add.commute)
  then have "PAGE_ROUND_UP (push_bit 12 q) = push_bit 12 q"
    by (simp add: PAGE_ROUND_UP_def PAGE_ROUND_DOWN_def PAGE_SIZE_def push_bit_eq_mult)
  moreover have "unat (push_bit 12 q - 1) = unat q * 4096 - 1"
    using uq by (subst unat_sub) (simp_all add: unat_page_start word_le_nat_alt)
  ultimately have "unat ((PAGE_ROUND_UP (push_bit 12 q) - 1) div PAGE_SIZE) = unat p"
    using uq by (simp add: unat_div PAGE_SIZE_def)
  then show ?thesis unfolding q by (simp only: word_unat_eq_iff)
next
  case False
  then have "unat p = 2 ^ 52 - 1" using assms by (simp add: word_less_nat_alt)
  then have "p = 2 ^ 52 - 1" by (simp add: word_unat_eq_iff)
  then show ?thesis by (simp add: PAGE_ROUND_UP_def PAGE_ROUND_DOWN_def PAGE_SIZE_def push_bit_eq_mult)
qed

lemma unmap_page:
  assumes "(p::u64) < 2 ^ 52"
  shows "sivfs_unmap_page_range mp (push_bit 12 p) PAGE_SIZE =
    mp\<lparr>ai_ptes := (ai_ptes mp)(p := None), ai_pages := radix_tree_delete (ai_pages mp) p\<rparr>"
proof -
  have "PAGE_ROUND_DOWN (push_bit 12 p) = push_bit 12 p"
    unfolding PAGE_ROUND_DOWN_def page_start_div [OF assms] by (simp add: PAGE_SIZE_def push_bit_eq_mult)
  then have "PAGE_ROUND_DOWN (push_bit 12 p) div PAGE_SIZE = p" by (simp add: page_start_div [OF assms])
  moreover have "(PAGE_SIZE + PAGE_SIZE - 1) div PAGE_SIZE = 1" "PAGE_SIZE \<noteq> 0" by (simp_all add: PAGE_SIZE_def)
  moreover have lt: "(q < p + 1) = (q \<le> p)" for q
    using assms by (simp add: word_less_nat_alt word_le_nat_alt unat_add_lem [THEN iffD1] less_Suc_eq_le)
  have "(\<lambda>q. if p \<le> q \<and> q < p + 1 then None else ai_ptes mp q) = (ai_ptes mp)(p := None)"
    by (rule ext) (auto simp: lt)
  moreover have "filter (\<lambda>(q, _). \<not> (p \<le> q \<and> q \<le> p)) (ai_pages mp) = radix_tree_delete (ai_pages mp) p"
    unfolding radix_tree_delete_def by (rule filter_cong) auto
  ultimately show ?thesis
    by (simp only: sivfs_unmap_page_range_def page_start_div [OF assms] page_end_div [OF assms] if_False)
qed

lemma unmap_offset:
  "sivfs_unmap_page_range mp (PAGE_ROUND_DOWN off) PAGE_SIZE =
    mp\<lparr>ai_ptes := (ai_ptes mp)(drop_bit 12 off := None), ai_pages := radix_tree_delete (ai_pages mp) (drop_bit 12 off)\<rparr>"
  unfolding page_round_down by (rule unmap_page [OF page_index_less])
section \<open>The working set as a map of pages\<close>

definition ws_inode_ok :: "cp_store \<Rightarrow> anon_inode \<Rightarrow> bool" where
  "ws_inode_ok st mp \<longleftrightarrow> rt_inv (ai_pages mp) \<and>
     (\<forall>pg \<in> snd ` set (ai_pages mp). \<not> sivfs_is_checkpoint_page st (wp_addr pg)) \<and>
     (case ai_info mp of None \<Rightarrow> False | Some iinfo \<Rightarrow>
        \<not> ii_checkpoint_checked_out iinfo \<and> rt_inv (ii_checkpoint_pages iinfo) \<and>
        (\<forall>p x. radix_tree_lookup (ii_checkpoint_pages iinfo) p = Some (Ptr x) \<longrightarrow> radix_tree_lookup (ai_pages mp) p = None) \<and>
        (\<forall>p x. ai_ptes mp p = Some x \<longrightarrow>
           (\<exists>pg. radix_tree_lookup (ai_pages mp) p = Some pg \<and> wp_addr pg = x) \<or>
           (\<exists>y. radix_tree_lookup (ii_checkpoint_pages iinfo) p = Some (Ptr y))))"

definition ws_ok :: "cp_store \<Rightarrow> sivfs_workingset \<Rightarrow> anon_heap \<Rightarrow> bool" where
  "ws_ok st ws h \<longleftrightarrow> distinct (map snd (anon_inodes ws)) \<and>
     (\<forall>(i, a) \<in> set (anon_inodes ws). a \<noteq> 0 \<and> (case h a of None \<Rightarrow> False | Some mp \<Rightarrow> ws_inode_ok st mp))"

definition ws_inode :: "sivfs_workingset \<Rightarrow> anon_heap \<Rightarrow> u64 \<Rightarrow> anon_inode option" where
  "ws_inode ws h i = Option.bind (radix_tree_lookup (anon_inodes ws) i) h"

text \<open>The private page the task has at a page index of a file, and whether it maps a page of a checkpoint there.\<close>

definition inode_page :: "u64 \<Rightarrow> anon_inode \<Rightarrow> page_mem option" where
  "inode_page p mp = map_option wp_mem (radix_tree_lookup (ai_pages mp) p)"

definition inode_cp :: "u64 \<Rightarrow> anon_inode \<Rightarrow> bool" where
  "inode_cp p mp \<longleftrightarrow> (case ai_info mp of None \<Rightarrow> False | Some iinfo \<Rightarrow>
     (case radix_tree_lookup (ii_checkpoint_pages iinfo) p of Some (Ptr _) \<Rightarrow> True | _ \<Rightarrow> False))"

definition wspg :: "sivfs_workingset \<Rightarrow> anon_heap \<Rightarrow> u64 \<Rightarrow> u64 \<Rightarrow> page_mem option" where
  "wspg ws h i off = Option.bind (ws_inode ws h i) (inode_page (drop_bit 12 off))"

definition cp_mapped :: "sivfs_workingset \<Rightarrow> anon_heap \<Rightarrow> u64 \<Rightarrow> u64 \<Rightarrow> bool" where
  "cp_mapped ws h i off \<longleftrightarrow> (case ws_inode ws h i of None \<Rightarrow> False | Some mp \<Rightarrow> inode_cp (drop_bit 12 off) mp)"

definition hits_page :: "u64 \<Rightarrow> u64 \<Rightarrow> sivfs_writeset_entry \<Rightarrow> bool" where
  "hits_page i off ent \<longleftrightarrow> wse_ino ent = i \<and> sivfs_same_page (wse_file_offset ent) off"

lemma same_page_index: "sivfs_same_page a b \<longleftrightarrow> drop_bit 12 a = drop_bit 12 b"
  by (simp add: sivfs_same_page_def PAGE_SIZE_def drop_bit_eq_div)

text \<open>What a write of the log does to the inode it concerns.\<close>

definition evict_cp :: "u64 \<Rightarrow> anon_inode \<Rightarrow> anon_inode" where
  "evict_cp p mp = mp\<lparr>ai_ptes := (ai_ptes mp)(p := None), ai_pages := radix_tree_delete (ai_pages mp) p,
     ai_info := map_option (\<lambda>iinfo. iinfo\<lparr>ii_checkpoint_pages := radix_tree_delete (ii_checkpoint_pages iinfo) p\<rparr>) (ai_info mp)\<rparr>"

definition touch_inode :: "sivfs_writeset_entry \<Rightarrow> anon_inode \<Rightarrow> anon_inode" where
  "touch_inode ent mp =
     (let p = drop_bit 12 (wse_file_offset ent) in
      if inode_cp p mp then evict_cp p mp
      else case radix_tree_lookup (ai_pages mp) p of
        None \<Rightarrow> mp
      | Some pg \<Rightarrow> mp\<lparr>ai_pages := rt_ins p (pg\<lparr>wp_mem := leaf_update ent 0 (wp_mem pg)\<rparr>) (ai_pages mp)\<rparr>)"

lemma ws_okD:
  assumes "ws_ok st ws h" and "radix_tree_lookup (anon_inodes ws) i = Some a"
  shows "a \<noteq> 0 \<and> (\<exists>mp. h a = Some mp \<and> ws_inode_ok st mp)"
  using assms by (fastforce simp: ws_ok_def radix_tree_lookup_def dest: map_of_SomeD split: option.splits)

lemma evict_none:
  "\<not> ii_checkpoint_checked_out iinfo \<Longrightarrow> evict_checked_out mp iinfo off flags = Some (mp, iinfo)"
  by (simp add: evict_checked_out_def)

lemma find_get_wspg_none:
  "radix_tree_lookup (anon_inodes ws) i = None \<Longrightarrow> sivfs_find_get_wspg h ws i off flags = (OK, None, h)"
  by (simp add: sivfs_find_get_wspg_def sivfs_backing_ino_to_anon_inode_def)

lemma lookup_delete [simp]: "radix_tree_lookup (radix_tree_delete t i) = (radix_tree_lookup t)(i := None)"
  by (simp add: radix_tree_lookup_def radix_tree_delete_def fun_eq_iff)

lemma find_get_wspg_some:
  assumes "radix_tree_lookup (anon_inodes ws) i = Some a" and "a \<noteq> 0" and "h a = Some mp" and "ws_inode_ok st mp"
    and "p = drop_bit 12 off"
  shows "sivfs_find_get_wspg h ws i off SIVFS_EVICT_CHECKPOINT =
    (if inode_cp p mp then (OK, None, h(a \<mapsto> evict_cp p mp))
     else (OK, map_option (Pair a) (radix_tree_lookup (ai_pages mp) p), h))"
proof -
  obtain iinfo where ii: "ai_info mp = Some iinfo" "\<not> ii_checkpoint_checked_out iinfo"
    using assms(4) by (auto simp: ws_inode_ok_def split: option.splits)
  have a: "sivfs_backing_ino_to_anon_inode ws i = a"
    using assms(1) by (simp add: sivfs_backing_ino_to_anon_inode_def)
  show ?thesis
  proof (cases "inode_cp p mp")
    case True
    then obtain x where "radix_tree_lookup (ii_checkpoint_pages iinfo) p = Some (Ptr x)"
      by (auto simp: inode_cp_def ii(1) split: option.splits slot.splits)
    then show ?thesis using assms(2,3,5) ii True
      by (simp add: sivfs_find_get_wspg_def a evict_none evict_cp_page_def unmap_offset SIVFS_EVICT_CHECKPOINT_def evict_cp_def Let_def)
  next
    case False
    then have "evict_cp_page mp iinfo off SIVFS_EVICT_CHECKPOINT = Some (mp, iinfo)"
      by (auto simp: evict_cp_page_def inode_cp_def ii(1) assms(5) split: option.splits slot.splits)
    moreover have "h(a \<mapsto> mp\<lparr>ai_info := Some iinfo\<rparr>) = h" using ii(1) assms(3) by (simp add: fun_upd_idem flip: ii(1))
    ultimately show ?thesis using assms(2,3,5) ii False
      by (simp add: sivfs_find_get_wspg_def a evict_none)
  qed
qed

lemma apply_ws_write_eq:
  assumes "ws_ok st ws h" and "wse_aligned ent"
  shows "apply_ws_write st ws ent info h = Next (case radix_tree_lookup (anon_inodes ws) (wse_ino ent) of
      None \<Rightarrow> h | Some a \<Rightarrow> h(a := map_option (touch_inode ent) (h a)))"
proof (cases "radix_tree_lookup (anon_inodes ws) (wse_ino ent)")
  case None
  then show ?thesis by (simp add: apply_ws_write_def find_get_wspg_none)
next
  case (Some a)
  let ?p = "drop_bit 12 (wse_file_offset ent)"
  obtain mp where mp: "a \<noteq> 0" "h a = Some mp" "ws_inode_ok st mp" using ws_okD [OF assms(1) Some] by blast
  note find = find_get_wspg_some [where h = h and mp = mp, OF Some mp refl]
  have nocp: "\<not> sivfs_is_checkpoint_page st (wp_addr pg)" if "radix_tree_lookup (ai_pages mp) ?p = Some pg" for pg
  proof -
    have "\<forall>pg \<in> snd ` set (ai_pages mp). \<not> sivfs_is_checkpoint_page st (wp_addr pg)"
      using mp(3) by (simp add: ws_inode_ok_def)
    then show ?thesis using that by (force simp: radix_tree_lookup_def dest: map_of_SomeD)
  qed
  show ?thesis
  proof (cases "inode_cp ?p mp")
    case True
    then show ?thesis using find mp Some by (simp add: apply_ws_write_def touch_inode_def)
  next
    case False
    then show ?thesis using find mp Some nocp
      by (cases "radix_tree_lookup (ai_pages mp) ?p")
        (auto simp: apply_ws_write_def touch_inode_def set_ws_page_def leaf_update_ws_ent [OF assms(2)] fun_upd_idem)
  qed
qed

section \<open>One write\<close>

lemma lookup_rt_ins [simp]: "radix_tree_lookup (rt_ins i v t) = (radix_tree_lookup t)(i \<mapsto> v)"
  by (simp add: radix_tree_lookup_def fun_eq_iff)

lemma touch_page:
  assumes "ws_inode_ok st mp"
  shows "inode_page p (touch_inode ent mp) =
    map_option (if p = drop_bit 12 (wse_file_offset ent) then leaf_update ent 0 else id) (inode_page p mp)"
proof (cases "inode_cp (drop_bit 12 (wse_file_offset ent)) mp")
  case True
  then have "radix_tree_lookup (ai_pages mp) (drop_bit 12 (wse_file_offset ent)) = None"
    using assms by (auto simp: inode_cp_def ws_inode_ok_def split: option.splits slot.splits)
  with True show ?thesis by (auto simp: touch_inode_def evict_cp_def inode_page_def Let_def option.map_id)
qed (auto simp: touch_inode_def inode_page_def Let_def option.map_id split: option.splits)

lemma touch_cp:
  "inode_cp p (touch_inode ent mp) \<longleftrightarrow> inode_cp p mp \<and> p \<noteq> drop_bit 12 (wse_file_offset ent)"
proof (cases "inode_cp (drop_bit 12 (wse_file_offset ent)) mp")
  case True
  then show ?thesis by (auto simp: touch_inode_def evict_cp_def inode_cp_def Let_def split: option.splits)
next
  case False
  then show ?thesis by (auto simp: touch_inode_def inode_cp_def Let_def split: option.splits)
qed

lemma set_rt_ins: "rt_inv t \<Longrightarrow> set (rt_ins i v t) \<subseteq> Set.insert (i, v) (set t)"
  by (induction i v t rule: rt_ins.induct) auto

lemma rt_inv_delete [simp]: "rt_inv t \<Longrightarrow> rt_inv (radix_tree_delete t i)"
  by (simp add: radix_tree_delete_def)

lemma set_delete: "set (radix_tree_delete t i) \<subseteq> set t"
  by (auto simp: radix_tree_delete_def)

lemma touch_ok:
  assumes "ws_inode_ok st mp"
  shows "ws_inode_ok st (touch_inode ent mp)"
proof (cases "inode_cp (drop_bit 12 (wse_file_offset ent)) mp")
  case True
  obtain iinfo where "ai_info mp = Some iinfo" using assms by (auto simp: ws_inode_ok_def split: option.splits)
  then show ?thesis using assms True set_delete [of "ai_pages mp"]
    by (auto simp: touch_inode_def evict_cp_def ws_inode_ok_def Let_def)
next
  case False
  show ?thesis
  proof (cases "radix_tree_lookup (ai_pages mp) (drop_bit 12 (wse_file_offset ent))")
    case None
    then show ?thesis using assms False by (simp add: touch_inode_def)
  next
    case (Some pg)
    obtain iinfo where ii: "ai_info mp = Some iinfo" using assms by (auto simp: ws_inode_ok_def split: option.splits)
    have "\<not> sivfs_is_checkpoint_page st (wp_addr pg)"
      using Some assms by (force simp: ws_inode_ok_def radix_tree_lookup_def dest: map_of_SomeD)
    then show ?thesis using assms False Some ii set_rt_ins [of "ai_pages mp"]
      by (fastforce simp: touch_inode_def ws_inode_ok_def)
  qed
qed

lemma ws_inode_upd:
  assumes "ws_ok st ws h" and "radix_tree_lookup (anon_inodes ws) j = Some a"
  shows "ws_inode ws (h(a := map_option g (h a))) i = map_option (if i = j then g else id) (ws_inode ws h i)"
proof (cases "radix_tree_lookup (anon_inodes ws) i")
  case None
  then show ?thesis by (simp add: ws_inode_def)
next
  case (Some b)
  have "b = a \<longleftrightarrow> i = j"
  proof
    assume "b = a"
    then have "(i, a) \<in> set (anon_inodes ws)" "(j, a) \<in> set (anon_inodes ws)"
      using Some assms(2) by (auto simp: radix_tree_lookup_def dest!: map_of_SomeD)
    then show "i = j" using assms(1) by (fastforce simp: ws_ok_def distinct_map inj_on_def)
  qed (use Some assms in simp)
  then show ?thesis using Some by (auto simp: ws_inode_def option.map_id)
qed

text \<open>
  \<open>ws_advance st ws es h h'\<close>: the writes \<open>es\<close> have been applied to the private pages, and no page of a checkpoint that one of
  them hits_page is still mapped.
\<close>

definition ws_advance ::
  "cp_store \<Rightarrow> sivfs_workingset \<Rightarrow> sivfs_writeset_entry list \<Rightarrow> anon_heap \<Rightarrow> anon_heap \<Rightarrow> bool" where
  "ws_advance st ws es h h' \<longleftrightarrow> ws_ok st ws h' \<and>
     (\<forall>i off. wspg ws h' i off = map_option (fold (page_write i off) es) (wspg ws h i off)) \<and>
     (\<forall>i off. cp_mapped ws h' i off \<longleftrightarrow> cp_mapped ws h i off \<and> \<not> (\<exists>e \<in> set es. hits_page i off e))"

lemma ws_advance_Nil: "ws_ok st ws h \<Longrightarrow> ws_advance st ws [] h h"
  by (simp add: ws_advance_def option.map_id flip: id_def)

lemma ws_advance_append:
  "ws_advance st ws es h h1 \<Longrightarrow> ws_advance st ws es' h1 h2 \<Longrightarrow> ws_advance st ws (es @ es') h h2"
  by (auto simp: ws_advance_def option.map_comp comp_def)

lemma ws_advance_ok: "ws_advance st ws es h h' \<Longrightarrow> ws_ok st ws h'"
  by (simp add: ws_advance_def)

lemma touch_heap_ok:
  assumes "ws_ok st ws h"
  shows "ws_ok st ws (h(a := map_option (touch_inode ent) (h a)))"
  using assms touch_ok by (fastforce simp: ws_ok_def split: option.splits)

lemma ws_advance_write:
  assumes "ws_ok st ws h" and "wse_aligned ent"
  shows "\<exists>h'. apply_ws_write st ws ent info h = Next h' \<and> ws_advance st ws [ent] h h'"
proof (cases "radix_tree_lookup (anon_inodes ws) (wse_ino ent)")
  case None
  then have "ws_inode ws h (wse_ino ent) = None" by (simp add: ws_inode_def)
  then have "ws_advance st ws [ent] h h" using assms(1)
    by (auto simp: ws_advance_def wspg_def cp_mapped_def hits_page_def page_write_def option.map_id intro!: option.map_ident_strong [symmetric])
  then show ?thesis using apply_ws_write_eq [OF assms] None by simp
next
  case (Some a)
  define h' where "h' = h(a := map_option (touch_inode ent) (h a))"
  have ino: "ws_inode ws h' i = map_option (if i = wse_ino ent then touch_inode ent else id) (ws_inode ws h i)" for i
    unfolding h'_def by (rule ws_inode_upd [OF assms(1) Some])
  have ok: "ws_inode_ok st mp" if "ws_inode ws h i = Some mp" for i mp
    using that ws_okD [OF assms(1)] by (fastforce simp: ws_inode_def bind_eq_Some_conv)
  have "wspg ws h' i off = map_option (page_write i off ent) (wspg ws h i off)" for i off
    by (cases "ws_inode ws h i")
      (auto simp: wspg_def ino touch_page [OF ok] page_write_def same_page_index option.map_id comp_def
        intro!: option.map_cong option.map_ident_strong [symmetric])
  moreover have "cp_mapped ws h' i off \<longleftrightarrow> cp_mapped ws h i off \<and> \<not> hits_page i off ent" for i off
    by (cases "ws_inode ws h i") (auto simp: cp_mapped_def ino touch_cp hits_page_def same_page_index)
  ultimately have "ws_advance st ws [ent] h h'"
    using touch_heap_ok [OF assms(1)] by (simp add: ws_advance_def h'_def)
  then show ?thesis using apply_ws_write_eq [OF assms] Some by (simp add: h'_def)
qed

lemma ws_run_advance:
  assumes "list_all (\<lambda>(x, _). writable x) es" and "ws_ok st ws h"
  shows "\<exists>h'. ws_run (apply_ws_write st ws) es h = (OK, h') \<and> ws_advance st ws (map fst es) h h'"
  using assms
proof (induction es arbitrary: h)
  case Nil
  then show ?case by (simp add: ws_advance_Nil)
next
  case (Cons x es)
  obtain ent vs where x: "x = (ent, vs)" by fastforce
  then obtain h1 where 1: "apply_ws_write st ws ent (info_of ent) h = Next h1" "ws_advance st ws [ent] h h1"
    using ws_advance_write [OF Cons.prems(2), of ent] Cons.prems(1) by (auto simp: writable_def)
  obtain h2 where "ws_run (apply_ws_write st ws) es h1 = (OK, h2)" "ws_advance st ws (map fst es) h1 h2"
    using Cons.IH [OF _ ws_advance_ok [OF 1(2)]] Cons.prems by auto
  then show ?case using 1 x ws_advance_append [OF 1(2)] by simp
qed

section \<open>The walk\<close>

definition log_writes :: "sivfs_log_entry list \<Rightarrow> sivfs_writeset_entry list" where
  "log_writes log = concat (map (\<lambda>e. if le_aborted e then [] else ws_list (le_ws e)) log)"

lemma log_writes_simps [simp]:
  "log_writes [] = []"
  "log_writes (e # log) = (if le_aborted e then [] else ws_list (le_ws e)) @ log_writes log"
  by (simp_all add: log_writes_def)

lemma page_apply_writes: "page_apply i off log mem = fold (page_write i off) (log_writes log) mem"
  by (induction log arbitrary: mem) auto

lemma apply_log_entry_advance:
  assumes "log_entry_ok e" and "ws_ok st ws h"
  shows "\<exists>h'. sivfs_apply_log_entry_workingset st ws e h = (OK, h') \<and>
    ws_advance st ws (if le_aborted e then [] else ws_list (le_ws e)) h h'"
proof (cases "le_aborted e")
  case True
  then show ?thesis by (simp add: sivfs_apply_log_entry_workingset_def ws_advance_Nil [OF assms(2)])
next
  case False
  then obtain es where es: "ws_repr (le_ws e) es" "list_all (\<lambda>(x, _). writable x) es"
    using assms(1) by (auto simp: log_entry_ok_def)
  then show ?thesis using ws_run_advance [OF es(2) assms(2)] False
    by (simp add: sivfs_apply_log_entry_workingset_def wse_loop_repr [OF es(1)] ws_list_repr [OF es(1)])
qed

definition ws_body :: "cp_store \<Rightarrow> sivfs_workingset \<Rightarrow> sivfs_ts \<Rightarrow> sivfs_log_entry \<Rightarrow> anon_heap \<Rightarrow> anon_heap step" where
  "ws_body st ws skip e h =
     (case (if le_ts e = skip then (OK, h) else sivfs_apply_log_entry_workingset st ws e h) of
        (OK, h1) \<Rightarrow> Next h1 | (r, h1) \<Rightarrow> Stop r h1)"

interpretation working: log_walk s stop "ws_body st ws skip" "apply_logs_loop st ws s stop skip" for s stop st ws skip
proof unfold_locales
  fix a e h r h' n
  assume "log_mem s a = Some e" "ws_body st ws skip e h = Stop r h'"
  then show "apply_logs_loop st ws s stop skip (Suc n) a h = (r, h')"
    by (cases "le_ts e = skip") (auto simp: ws_body_def split: prod.splits rc.splits)
next
  fix a e h h' n
  assume "log_mem s a = Some e" "ws_body st ws skip e h = Next h'"
    "le_next e = 0 \<or> (\<exists>e'. log_mem s (le_next e) = Some e' \<and> stop < le_ts e')"
  then show "apply_logs_loop st ws s stop skip (Suc n) a h = (OK, h')"
    by (cases "le_ts e = skip") (auto simp: ws_body_def split: prod.splits rc.splits)
next
  fix a e h h' n e'
  assume "log_mem s a = Some e" "le_ts e < stop" "ws_body st ws skip e h = Next h'"
    "le_next e \<noteq> 0" "log_mem s (le_next e) = Some e'" "le_ts e' \<le> stop"
  then show "apply_logs_loop st ws s stop skip (Suc n) a h = apply_logs_loop st ws s stop skip n (le_next e) h'"
    by (cases "le_ts e = skip") (auto simp: ws_body_def split: prod.splits rc.splits)
qed

lemma run_entries_ws:
  assumes "list_all log_entry_ok log" and "ws_ok st ws h"
  shows "\<exists>h'. run_entries (ws_body st ws skip) log h = (OK, h') \<and>
    ws_advance st ws (log_writes (filter (\<lambda>e. le_ts e \<noteq> skip) log)) h h'"
  using assms
proof (induction log arbitrary: h)
  case Nil
  then show ?case by (simp add: ws_advance_Nil)
next
  case (Cons e log)
  show ?case
  proof (cases "le_ts e = skip")
    case True
    then show ?thesis using Cons by (simp add: ws_body_def)
  next
    case False
    obtain h1 where 1: "sivfs_apply_log_entry_workingset st ws e h = (OK, h1)"
        "ws_advance st ws (if le_aborted e then [] else ws_list (le_ws e)) h h1"
      using apply_log_entry_advance [OF _ Cons.prems(2), of e] Cons.prems(1) by auto
    obtain h2 where 2: "run_entries (ws_body st ws skip) log h1 = (OK, h2)"
        "ws_advance st ws (log_writes (filter (\<lambda>e. le_ts e \<noteq> skip) log)) h1 h2"
      using Cons.IH [OF _ ws_advance_ok [OF 1(2)]] Cons.prems(1) by auto
    have "ws_body st ws skip e h = Next h1" using 1(1) False by (simp add: ws_body_def)
    then show ?thesis using ws_advance_append [OF 1(2) 2(2)] 2(1) False by simp
  qed
qed

section \<open>Moving to a newer snapshot\<close>

lemma ts_inc_iff: "(a::u64) \<noteq> SIVFS_INVALID_TS \<Longrightarrow> a + 1 \<noteq> 0"
  using less_inc_nonzero [of a SIVFS_INVALID_TS] by (simp add: ts_less_INVALID)

lemma update_advances:
  assumes "log_good s" and "ws_ok st (st_workingset state) h" and "\<not> direct_access state"
    and "txn_ts state \<noteq> SIVFS_INVALID_TS" and "next_ts \<noteq> SIVFS_INVALID_TS"
    and "txn_ts state \<le> next_ts" and "next_ts \<le> commit_started_ts s"
    and "master_log_deleted_ts s \<le> txn_ts state + 1" and "list_all log_entry_ok (log_between s (txn_ts state) next_ts)"
  shows "\<exists>h'. sivfs_update st s state next_ts skip_ts h = (OK, state\<lparr>txn_ts := next_ts\<rparr>, h') \<and>
    ws_advance st (st_workingset state) (log_writes (filter (\<lambda>e. le_ts e \<noteq> skip_ts) (log_between s (txn_ts state) next_ts))) h h'"
proof (cases "txn_ts state = next_ts")
  case True
  note nz = ts_inc_iff [OF assms(5)]
  have "next_ts + 1 > next_ts" using less_inc_iff [OF nz] by simp
  then show ?thesis
    using assms(3-5) True log_between_self [OF nz log_good_run [OF assms(1)]] ws_advance_Nil [OF assms(2)]
    by (simp add: sivfs_update_def)
next
  case False
  then have lt: "txn_ts state < next_ts" using assms(6) by simp
  note nz = ts_inc_iff [OF assms(4)]
  have le: "txn_ts state + 1 \<le> next_ts" by (rule inc_le [OF lt])
  then have nlt: "\<not> next_ts < txn_ts state + 1" by simp
  have "0 < txn_ts state + 1" using nz by (simp add: word_neq_0_conv)
  then have lk: "radix_tree_lookup (log_cache s) (txn_ts state + 1) \<noteq> None"
    using assms(1,7,8) le entry_at_lookup unfolding log_good_def by (meson order_trans)
  obtain a where a: "sivfs_ts_to_log_entry s (txn_ts state + 1) (txn_ts state + 1) next_ts = (OK, a)" "a \<noteq> 0"
      "apply_logs_loop st (st_workingset state) s next_ts skip_ts (Suc (length (log_cache s))) a h =
         run_entries (ws_body st (st_workingset state) skip_ts) (log_between s (txn_ts state) next_ts) h"
    using working.walk_from [OF log_good_run [OF assms(1)] lk lt assms(8), of next_ts] by blast
  obtain e where e: "log_mem s a = Some e" "le_ts e = txn_ts state + 1"
  proof -
    have "radix_tree_lookup (log_cache s) (txn_ts state + 1) = Some a"
      using a(1) lk assms(8) by (auto simp: sivfs_ts_to_log_entry_def not_less split: if_splits)
    then have "(txn_ts state + 1, a) \<in> set (log_cache s)" by (simp add: radix_tree_lookup_def map_of_SomeD)
    then show ?thesis using that log_good_run [OF assms(1)] by (fastforce simp: log_run_def)
  qed
  obtain h' where h': "run_entries (ws_body st (st_workingset state) skip_ts) (log_between s (txn_ts state) next_ts) h = (OK, h')"
      "ws_advance st (st_workingset state) (log_writes (filter (\<lambda>e. le_ts e \<noteq> skip_ts) (log_between s (txn_ts state) next_ts))) h h'"
    using run_entries_ws [OF assms(9,2)] by blast
  have "sivfs_apply_logs_workingset st (st_workingset state) s a next_ts skip_ts h = (OK, h')"
    using a(3) e le h'(1) by (simp add: sivfs_apply_logs_workingset_def)
  then show ?thesis using assms(3-5) a(1,2) h'(2) nlt by (simp add: sivfs_update_def)
qed

text \<open>The private pages of the working set show the database \<open>f\<close>.\<close>

definition ws_shows :: "sivfs_workingset \<Rightarrow> anon_heap \<Rightarrow> database \<Rightarrow> bool" where
  "ws_shows ws h f \<longleftrightarrow> (\<forall>i off mem. cp_addressable i off \<longrightarrow> wspg ws h i off = Some mem \<longrightarrow> mem = f (cp_path i off))"

lemma page_write_unhit: "\<forall>e \<in> set es. \<not> hits_page i off e \<Longrightarrow> fold (page_write i off) es mem = mem"
  by (induction es) (auto simp: page_write_def hits_page_def)

lemma db_apply_writes: "db_apply log f = fold db_write (log_writes log) f"
  by (induction log arbitrary: f) (auto simp: db_apply_def)

lemma log_writes_writable: "list_all log_entry_ok log \<Longrightarrow> list_all writable (log_writes log)"
  by (induction log) (auto dest: log_entry_ok_writable)

lemma ws_advance_shows:
  assumes "ws_advance st ws es h h'" and "list_all writable es" and "ws_shows ws h f"
  shows "ws_shows ws h' (fold db_write es f)"
  using assms(1,3) db_writes_page [OF _ assms(2)] by (fastforce simp: ws_advance_def ws_shows_def)

lemma ws_advance_cp:
  assumes "ws_advance st ws es h h'" and "list_all writable es" and "cp_mapped ws h' i off" and "cp_addressable i off"
  shows "cp_mapped ws h i off \<and> fold db_write es f (cp_path i off) = f (cp_path i off)"
  using assms(1,3) page_write_unhit [of es i off] db_writes_page [OF assms(4,2)] by (auto simp: ws_advance_def)

section \<open>Skipping the transaction's own writes\<close>

lemma word_index_inj:
  assumes "(a::u64) mod PAGE_SIZE mod 8 = 0" and "b mod PAGE_SIZE mod 8 = 0" and "a div PAGE_SIZE = b div PAGE_SIZE"
    and "(ucast (a mod PAGE_SIZE div 8) :: 9 word) = ucast (b mod PAGE_SIZE div 8)"
  shows "a = b"
proof -
  let ?i = "\<lambda>x::u64. x mod PAGE_SIZE div 8"
  have small: "unat (?i x) < 512" for x
  proof -
    have "unat x mod 4096 < 4096" by simp
    then have "unat x mod 4096 div 8 < 512" by (simp add: less_mult_imp_div_less)
    then show ?thesis by (simp add: PAGE_SIZE_def unat_div unat_mod)
  qed
  have u: "unat (ucast (?i x) :: 9 word) = unat (?i x)" for x
    using small [of x] by (simp add: unsigned_ucast_eq take_bit_nat_eq_self)
  have "unat (?i a) = unat (?i b)" using arg_cong [OF assms(4), of unat] by (simp only: u)
  then have "?i a = ?i b" by (simp only: word_unat_eq_iff)
  then have "a mod PAGE_SIZE = b mod PAGE_SIZE" using assms(1,2) by (metis mult_div_mod_eq)
  then show ?thesis using assms(3) by (metis mult_div_mod_eq)
qed

lemma db_write_commute:
  assumes "writable x" and "writable y" and "\<not> sivfs_ws_ent_conflicts x y"
  shows "db_write x (db_write y f) = db_write y (db_write x f)"
proof (cases "cp_path (wse_ino x) (wse_file_offset x) = cp_path (wse_ino y) (wse_file_offset y)")
  case True
  then have "wse_ino x = wse_ino y" "wse_file_offset x div PAGE_SIZE = wse_file_offset y div PAGE_SIZE"
    using cp_path_inj assms(1,2) by (auto simp: writable_def)
  then have "(ucast (wse_file_offset x mod PAGE_SIZE div 8) :: 9 word) \<noteq> ucast (wse_file_offset y mod PAGE_SIZE div 8)"
    using word_index_inj [of "wse_file_offset x" "wse_file_offset y"] assms
    by (auto simp: sivfs_ws_ent_conflicts_def writable_def wse_aligned_def)
  with True show ?thesis by (simp add: db_write_def leaf_update_def fun_upd_twist)
qed (simp add: db_write_def Let_def fun_upd_twist)

lemma db_write_commutes:
  assumes "writable x" and "list_all writable ys" and "\<forall>y \<in> set ys. \<not> sivfs_ws_ent_conflicts y x"
  shows "fold db_write ys (db_write x f) = db_write x (fold db_write ys f)"
  using assms(2,3)
proof (induction ys arbitrary: f)
  case (Cons y ys)
  then show ?case using db_write_commute [OF _ assms(1), of y f] by simp
qed simp

lemma db_writes_commute:
  assumes "list_all writable xs" and "list_all writable ys"
    and "\<forall>x \<in> set xs. \<forall>y \<in> set ys. \<not> sivfs_ws_ent_conflicts y x"
  shows "fold db_write ys (fold db_write xs f) = fold db_write xs (fold db_write ys f)"
  using assms(1,3)
proof (induction xs arbitrary: f)
  case (Cons x xs)
  have "fold db_write ys (fold db_write xs (db_write x f)) = fold db_write xs (fold db_write ys (db_write x f))"
    using Cons by simp
  also have "fold db_write ys (db_write x f) = db_write x (fold db_write ys f)"
    by (rule db_write_commutes) (use Cons.prems assms(2) in auto)
  finally show ?case by simp
qed simp

lemma log_writes_not_blocked:
  "\<forall>e \<in> set log. \<not> blocks ws e \<Longrightarrow> \<forall>x \<in> set (ws_list ws). \<forall>y \<in> set (log_writes log). \<not> sivfs_ws_ent_conflicts y x"
  by (induction log) (auto simp: blocks_def ws_conflict_def)

lemma log_writes_append [simp]: "log_writes (xs @ ys) = log_writes xs @ log_writes ys"
  by (simp add: log_writes_def)

lemma log_between_ts:
  assumes "log_run s (log_cache s)"
  shows "\<exists>xs. map le_ts (log_between s lo hi) = map fst (xs :: u64 rt) \<and> rt_inv xs \<and> (\<forall>t \<in> fst ` set xs. t \<le> hi)"
proof -
  let ?xs = "takeWhile (\<lambda>(i, _). i \<le> hi) (rt_from (log_cache s) (lo + 1))"
  have sub: "set ?xs \<subseteq> set (log_cache s)"
    unfolding rt_from_def by (meson set_dropWhileD set_takeWhileD subsetI)
  have "rt_inv (log_cache s)" using assms by (simp add: log_run_def)
  then have "rt_inv ?xs" by (simp add: takeWhile_from_filter)
  moreover have "map le_ts (log_between s lo hi) = map fst ?xs"
    unfolding log_between_def log_entries_def map_map
  proof (rule map_cong [OF refl])
    fix x assume "x \<in> set ?xs"
    moreover obtain i a where x: "x = (i, a)" by fastforce
    ultimately have "(i, a) \<in> set (log_cache s)" using sub by blast
    then have "\<exists>e. log_mem s a = Some e \<and> le_ts e = i" using assms unfolding log_run_def by blast
    then show "(le_ts \<circ> (\<lambda>(i, a). the (log_mem s a))) x = fst x" by (auto simp: x)
  qed
  moreover have "\<forall>t \<in> fst ` set ?xs. t \<le> hi" by (auto dest!: set_takeWhileD)
  ultimately show ?thesis by blast
qed

lemma log_between_split_filter:
  assumes "log_run s (log_cache s)" and "log_between s lo hi = before @ own # after"
  shows "filter (\<lambda>e. le_ts e \<noteq> le_ts own) (log_between s lo hi) = before @ after"
proof -
  have "distinct (map le_ts (before @ own # after))"
    using log_between_ts [OF assms(1), of lo hi] rt_inv_distinct assms(2) by metis
  then have "\<forall>e \<in> set (before @ after). le_ts e \<noteq> le_ts own" by (auto simp: image_iff)
  then show ?thesis by (simp add: assms(2))
qed

lemma log_between_no_invalid:
  assumes "log_run s (log_cache s)" and "hi \<noteq> SIVFS_INVALID_TS"
  shows "filter (\<lambda>e. le_ts e \<noteq> SIVFS_INVALID_TS) (log_between s lo hi) = log_between s lo hi"
proof -
  obtain xs :: "u64 rt" where "map le_ts (log_between s lo hi) = map fst xs" "\<forall>t \<in> fst ` set xs. t \<le> hi"
    using log_between_ts [OF assms(1)] by blast
  then have "\<forall>t \<in> set (map le_ts (log_between s lo hi)). t \<le> hi" by simp
  then have "\<forall>e \<in> set (log_between s lo hi). le_ts e \<noteq> SIVFS_INVALID_TS"
    using assms(2) order_antisym [OF _ ts_le_INVALID] by fastforce
  then show ?thesis by (simp add: filter_id_conv)
qed

lemma own_commit_database:
  assumes "list_all log_entry_ok (before @ own # after)" and "\<not> le_aborted own"
    and "\<forall>e \<in> set before. \<not> blocks (le_ws own) e"
  shows "fold db_write (log_writes (before @ after)) (fold db_write (ws_list (le_ws own)) f) = db_apply (before @ own # after) f"
proof -
  have "fold db_write (log_writes before) (fold db_write (ws_list (le_ws own)) f) =
      fold db_write (ws_list (le_ws own)) (fold db_write (log_writes before) f)"
    by (rule db_writes_commute)
      (use assms log_entry_ok_writable [of own] log_writes_writable [of before] log_writes_not_blocked in auto)
  then show ?thesis using assms(2) by (simp add: db_apply_writes)
qed

section \<open>Properties\<close>



section \<open>An example: one private page of file 5, and a log with one write to it\<close>

definition ex_anon :: "page_mem \<Rightarrow> anon_heap" where
  "ex_anon mem = [700 \<mapsto> \<lparr>ai_info = Some \<lparr>ii_backing_ino = 5, ii_state = 7, ii_refcount = 1, ii_checkpoint_pages = [(2, Ptr ())],
     ii_checkpoint_checked_out = False\<rparr>, ai_pages = [(1, \<lparr>wp_addr = 9000, wp_mem = mem, wp_dirty = False, wp_uptodate = True\<rparr>)],
     ai_ptes = [1 \<mapsto> 9000, 2 \<mapsto> 8192]\<rparr>]"

definition ex_task :: sivfs_state where
  "ex_task = fresh_state\<lparr>txn_ts := 0, t_owner := 7, st_workingset := \<lparr>anon_inodes = [(5, 700)], anon_dentries = [(5, 704)]\<rparr>\<rparr>"

lemma ex_task_simps [simp]:
  "st_workingset ex_task = \<lparr>anon_inodes = [(5, 700)], anon_dentries = [(5, 704)]\<rparr>" "txn_ts ex_task = 0" "\<not> direct_access ex_task" "SIVFS_INVALID_TS \<noteq> 0"
  by (simp_all add: ex_task_def fresh_state_def SIVFS_INVALID_TS_def)

lemma ex_anon_ok: "ws_ok ex_boot (st_workingset ex_task) (ex_anon mem)"
  by (auto simp: ws_ok_def ws_inode_ok_def ex_anon_def ex_boot_def sivfs_is_checkpoint_page_def radix_tree_lookup_def)

lemma ex_anon_shows: "f (cp_path 5 4096) = mem \<Longrightarrow> ws_shows (st_workingset ex_task) (ex_anon mem) f"
  by (auto simp: ws_shows_def wspg_def ws_inode_def inode_page_def ex_anon_def radix_tree_lookup_def cp_path_def PAGE_SIZE_def
      drop_bit_eq_div split: if_splits)



section \<open>Clearing the working set\<close>

lemma fold_unmap:
  "\<forall>i \<in> set is. i < 2 ^ 52 \<Longrightarrow> fold unmap_index is mp =
     mp\<lparr>ai_ptes := (\<lambda>p. if p \<in> set is then None else ai_ptes mp p), ai_pages := filter (\<lambda>(j, _). j \<notin> set is) (ai_pages mp)\<rparr>"
proof (induction "is" arbitrary: mp)
  case (Cons i "is")
  then have "unmap_index i mp = mp\<lparr>ai_ptes := (ai_ptes mp)(i := None), ai_pages := radix_tree_delete (ai_pages mp) i\<rparr>"
    by (simp add: unmap_index_def unmap_page)
  then show ?case using Cons
    by (auto simp: radix_tree_delete_def fun_eq_iff intro!: anon_inode.equality filter_cong)
qed simp

lemma filter_first_less: "xs \<noteq> [] \<Longrightarrow> \<not> P (hd xs) \<Longrightarrow> length (filter P xs) < length xs"
  by (cases xs) (auto simp: less_Suc_eq_le)

lemma unmap_workingset_loop:
  assumes "\<forall>p \<in> fst ` set (ai_pages mp). p < 2 ^ 52" and "length (ai_pages mp) \<le> fuel"
  shows "sivfs_unmap_mapping_workingset fuel mp =
    (OK, mp\<lparr>ai_ptes := (\<lambda>p. if p \<in> fst ` set (ai_pages mp) then None else ai_ptes mp p), ai_pages := []\<rparr>)"
  using assms
proof (induction fuel arbitrary: mp)
  case 0
  then show ?case by (auto intro!: anon_inode.equality)
next
  case (Suc fuel)
  let ?is = "map fst (take 16 (ai_pages mp))"
  show ?case
  proof (cases "ai_pages mp = []")
    case True
    then show ?thesis by (auto intro!: anon_inode.equality)
  next
    case False
    have small: "\<forall>i \<in> set ?is. i < 2 ^ 52" using Suc.prems(1) by (auto dest: in_set_takeD)
    let ?mp = "fold unmap_index ?is mp"
    have pages: "ai_pages ?mp = filter (\<lambda>(j, _). j \<notin> set ?is) (ai_pages mp)" using fold_unmap [OF small, of mp] by simp
    have "fst (hd (ai_pages mp)) \<in> set ?is" using False by (cases "ai_pages mp") auto
    then have "length (ai_pages ?mp) < length (ai_pages mp)"
      unfolding pages by (intro filter_first_less [OF False]) (simp add: case_prod_beta)
    moreover have "\<forall>p \<in> fst ` set (ai_pages ?mp). p < 2 ^ 52" using Suc.prems(1) unfolding pages by auto
    moreover have keys: "p \<in> fst ` set (filter (\<lambda>(j, _). j \<notin> set ?is) (ai_pages mp)) \<or> p \<in> set ?is \<longleftrightarrow> p \<in> fst ` set (ai_pages mp)" for p
      by (force dest: in_set_takeD)
    ultimately have "sivfs_unmap_mapping_workingset fuel ?mp =
        (OK, ?mp\<lparr>ai_ptes := (\<lambda>p. if p \<in> fst ` set (ai_pages ?mp) then None else ai_ptes ?mp p), ai_pages := []\<rparr>)"
      using Suc.IH Suc.prems(2) by simp
    also have "\<dots> = (OK, mp\<lparr>ai_ptes := (\<lambda>p. if p \<in> fst ` set (ai_pages mp) then None else ai_ptes mp p), ai_pages := []\<rparr>)"
      using keys unfolding pages unfolding fold_unmap [OF small] by (intro arg_cong2 [where f = Pair] anon_inode.equality ext) auto
    finally show ?thesis using False by simp
  qed
qed

lemma fold_evict:
  assumes "\<forall>i \<in> set is. i < 2 ^ 52" and "ai_info mp = Some ii"
  shows "fold evict_index is mp =
     mp\<lparr>ai_ptes := (\<lambda>p. if p \<in> set is then None else ai_ptes mp p), ai_pages := filter (\<lambda>(j, _). j \<notin> set is) (ai_pages mp),
        ai_info := Some (ii\<lparr>ii_checkpoint_pages := filter (\<lambda>(j, _). j \<notin> set is) (ii_checkpoint_pages ii)\<rparr>)\<rparr>"
  using assms
proof (induction "is" arbitrary: mp ii)
  case (Cons i "is")
  have "evict_index i mp = mp\<lparr>ai_ptes := (ai_ptes mp)(i := None), ai_pages := radix_tree_delete (ai_pages mp) i,
      ai_info := Some (ii\<lparr>ii_checkpoint_pages := radix_tree_delete (ii_checkpoint_pages ii) i\<rparr>)\<rparr>"
    using Cons.prems by (simp add: evict_index_def unmap_index_def unmap_page)
  then show ?case using Cons
    by (auto simp: radix_tree_delete_def fun_eq_iff intro!: anon_inode.equality anon_info.equality filter_cong)
qed (auto intro!: anon_inode.equality anon_info.equality)

declare unmap_cps_loop.simps [simp del]

lemma unmap_cps_done:
  "ai_info mp = Some ii \<Longrightarrow> mapped_cp_indices ii = [] \<Longrightarrow> unmap_cps_loop fuel mp = (OK, mp)"
  by (subst unmap_cps_loop.simps) (simp split: nat.splits)

lemma unmap_cps_step:
  "ai_info mp = Some ii \<Longrightarrow> mapped_cp_indices ii \<noteq> [] \<Longrightarrow>
   unmap_cps_loop (Suc fuel) mp = unmap_cps_loop fuel (fold evict_index (take 16 (mapped_cp_indices ii)) mp)"
  by (subst unmap_cps_loop.simps) (simp add: Let_def)

lemma unmap_cps_loop_clears:
  assumes "ai_info mp = Some ii" and "\<forall>p \<in> set (mapped_cp_indices ii). p < 2 ^ 52" and "length (mapped_cp_indices ii) \<le> fuel"
  shows "\<exists>mp' ii'. unmap_cps_loop fuel mp = (OK, mp') \<and> ai_info mp' = Some ii' \<and> mapped_cp_indices ii' = [] \<and>
    set (ai_pages mp') \<subseteq> set (ai_pages mp) \<and>
    (\<forall>p. ai_ptes mp' p = (if p \<in> set (mapped_cp_indices ii) then None else ai_ptes mp p))"
  using assms
proof (induction fuel arbitrary: mp ii)
  case 0
  then show ?case by (simp add: unmap_cps_done)
next
  case (Suc fuel)
  let ?is = "take 16 (mapped_cp_indices ii)"
  show ?case
  proof (cases "mapped_cp_indices ii = []")
    case True
    then show ?thesis using Suc.prems(1) by (simp add: unmap_cps_done)
  next
    case False
    have small: "\<forall>i \<in> set ?is. i < 2 ^ 52" using Suc.prems(2) by (auto dest: in_set_takeD)
    let ?mp = "fold evict_index ?is mp"
    let ?ii = "ii\<lparr>ii_checkpoint_pages := filter (\<lambda>(j, _). j \<notin> set ?is) (ii_checkpoint_pages ii)\<rparr>"
    have mp: "?mp = mp\<lparr>ai_ptes := (\<lambda>p. if p \<in> set ?is then None else ai_ptes mp p),
        ai_pages := filter (\<lambda>(j, _). j \<notin> set ?is) (ai_pages mp), ai_info := Some ?ii\<rparr>"
      by (rule fold_evict [OF small Suc.prems(1)])
    have idx: "mapped_cp_indices ?ii = filter (\<lambda>j. j \<notin> set ?is) (mapped_cp_indices ii)"
      by (simp add: mapped_cp_indices_def filter_map comp_def case_prod_beta conj_commute)
    have "hd (mapped_cp_indices ii) \<in> set ?is" using False by (cases "mapped_cp_indices ii") auto
    then have "length (mapped_cp_indices ?ii) < length (mapped_cp_indices ii)"
      unfolding idx by (intro filter_first_less [OF False]) simp
    then have "\<exists>mp' ii'. unmap_cps_loop fuel ?mp = (OK, mp') \<and> ai_info mp' = Some ii' \<and> mapped_cp_indices ii' = [] \<and>
        set (ai_pages mp') \<subseteq> set (ai_pages ?mp) \<and>
        (\<forall>p. ai_ptes mp' p = (if p \<in> set (mapped_cp_indices ?ii) then None else ai_ptes ?mp p))"
      by (intro Suc.IH) (use Suc.prems idx in \<open>auto simp: mp\<close>)
    then obtain mp' ii' where l: "unmap_cps_loop fuel ?mp = (OK, mp')" "ai_info mp' = Some ii'" "mapped_cp_indices ii' = []"
        "set (ai_pages mp') \<subseteq> set (ai_pages ?mp)"
        "\<And>p. ai_ptes mp' p = (if p \<in> set (mapped_cp_indices ?ii) then None else ai_ptes ?mp p)" by blast
    have "set (ai_pages mp') \<subseteq> set (ai_pages mp)" using l(4) by (auto simp: mp)
    moreover have "ai_ptes mp' p = (if p \<in> set (mapped_cp_indices ii) then None else ai_ptes mp p)" for p
      unfolding l(5) idx by (auto simp: mp dest: in_set_takeD)
    ultimately show ?thesis using unmap_cps_step [OF Suc.prems(1) False] l(1-3) by auto
  qed
qed

text \<open>\<open>cleared options mp mp'\<close>: no private page is left and, unless they are to be kept, no page of a checkpoint.\<close>

definition cleared :: "u64 \<Rightarrow> anon_inode \<Rightarrow> anon_inode \<Rightarrow> bool" where
  "cleared options mp mp' \<longleftrightarrow> ai_pages mp' = [] \<and>
     (\<forall>p. inode_cp p mp' \<longleftrightarrow> inode_cp p mp \<and> options AND SIVFS_NO_INVALIDATE_CPS \<noteq> 0) \<and>
     (\<forall>p. ai_ptes mp' p = (if inode_cp p mp \<and> options AND SIVFS_NO_INVALIDATE_CPS \<noteq> 0 then ai_ptes mp p else None))"

text \<open>Page indices of files that fit the 64-bit offsets of the kernel.\<close>

definition small_indices :: "anon_inode \<Rightarrow> bool" where
  "small_indices mp \<longleftrightarrow> (\<forall>p \<in> fst ` set (ai_pages mp). p < 2 ^ 52) \<and>
     (case ai_info mp of None \<Rightarrow> True | Some ii \<Rightarrow> \<forall>p \<in> fst ` set (ii_checkpoint_pages ii). p < 2 ^ 52)"

lemma mapped_cp_indices_iff:
  assumes "rt_inv (ii_checkpoint_pages ii)" and "ai_info mp = Some ii"
  shows "p \<in> set (mapped_cp_indices ii) \<longleftrightarrow> inode_cp p mp"
proof -
  have "p \<in> set (mapped_cp_indices ii) \<longleftrightarrow> (\<exists>x. (p, Ptr x) \<in> set (ii_checkpoint_pages ii))"
  proof
    assume "p \<in> set (mapped_cp_indices ii)"
    then obtain x where "(p, x) \<in> set (ii_checkpoint_pages ii)" "x \<noteq> Tombstone" by (auto simp: mapped_cp_indices_def)
    then show "\<exists>x. (p, Ptr x) \<in> set (ii_checkpoint_pages ii)" by (cases x) auto
  qed (force simp: mapped_cp_indices_def)
  also have "\<dots> \<longleftrightarrow> (\<exists>x. radix_tree_lookup (ii_checkpoint_pages ii) p = Some (Ptr x))"
    using rt_inv_distinct [OF assms(1)] by (simp add: radix_tree_lookup_def)
  also have "\<dots> \<longleftrightarrow> inode_cp p mp" using assms(2) by (auto simp: inode_cp_def split: option.splits slot.splits)
  finally show ?thesis .
qed

lemma unmap_mapping_clears:
  assumes "ws_inode_ok st mp" and "small_indices mp"
  shows "\<exists>mp'. (if options AND SIVFS_NO_INVALIDATE_CPS \<noteq> 0 then sivfs_unmap_mapping_workingset (unmap_fuel mp) mp
      else sivfs_unmap_mapping (unmap_fuel mp) mp) = (OK, mp') \<and> cleared options mp mp'"
proof -
  obtain ii where ii: "ai_info mp = Some ii" "rt_inv (ii_checkpoint_pages ii)" "rt_inv (ai_pages mp)"
      "\<And>p x. radix_tree_lookup (ii_checkpoint_pages ii) p = Some (Ptr x) \<Longrightarrow> radix_tree_lookup (ai_pages mp) p = None"
      "\<And>p x. ai_ptes mp p = Some x \<Longrightarrow> radix_tree_lookup (ai_pages mp) p \<noteq> None \<or>
         (\<exists>y. radix_tree_lookup (ii_checkpoint_pages ii) p = Some (Ptr y))"
    using assms(1) by (fastforce simp: ws_inode_ok_def split: option.splits)
  note cp = mapped_cp_indices_iff [OF ii(2,1)]
  have pg: "p \<in> fst ` set (ai_pages mp) \<longleftrightarrow> radix_tree_lookup (ai_pages mp) p \<noteq> None" for p
    by (simp add: radix_tree_lookup_def map_of_eq_None_iff)
  have excl: "inode_cp p mp \<Longrightarrow> p \<notin> fst ` set (ai_pages mp)" for p
    using ii(1,4) by (auto simp: pg inode_cp_def split: option.splits slot.splits)
  have pte: "ai_ptes mp p = None" if "\<not> inode_cp p mp" "p \<notin> fst ` set (ai_pages mp)" for p
    using ii(1) ii(5) [of p] that by (cases "ai_ptes mp p") (auto simp: pg inode_cp_def)
  let ?mp = "mp\<lparr>ai_ptes := (\<lambda>p. if p \<in> fst ` set (ai_pages mp) then None else ai_ptes mp p), ai_pages := []\<rparr>"
  have ws: "sivfs_unmap_mapping_workingset (unmap_fuel mp) mp = (OK, ?mp)"
    by (rule unmap_workingset_loop) (use assms(2) in \<open>simp_all add: small_indices_def unmap_fuel_def\<close>)
  have sub: "set (mapped_cp_indices ii) \<subseteq> fst ` set (ii_checkpoint_pages ii)" by (auto simp: mapped_cp_indices_def)
  have small: "\<forall>p \<in> set (mapped_cp_indices ii). p < 2 ^ 52" using sub assms(2) ii(1) unfolding small_indices_def by auto
  have len: "length (mapped_cp_indices ii) \<le> unmap_fuel mp"
    using ii(1) by (simp add: mapped_cp_indices_def unmap_fuel_def trans_le_add2)
  obtain mp' ii' where l: "unmap_cps_loop (unmap_fuel mp) ?mp = (OK, mp')" "ai_info mp' = Some ii'" "mapped_cp_indices ii' = []"
      "ai_pages mp' = []" "\<And>p. ai_ptes mp' p = (if p \<in> set (mapped_cp_indices ii) then None else ai_ptes ?mp p)"
    using unmap_cps_loop_clears [OF _ small len, of ?mp] ii(1) by auto
  show ?thesis
  proof (cases "options AND SIVFS_NO_INVALIDATE_CPS \<noteq> 0")
    case True
    then show ?thesis using ws excl pte by (auto simp: cleared_def inode_cp_def)
  next
    case False
    have "\<not> inode_cp p mp'" for p
      using l(2,3) by (auto simp: inode_cp_def mapped_cp_indices_def radix_tree_lookup_def filter_empty_conv
          dest!: map_of_SomeD split: option.splits slot.splits)
    then have "cleared options mp mp'" using False l(4) l(5) cp pte by (auto simp: cleared_def)
    then show ?thesis using False ws l(1) by (simp add: sivfs_unmap_mapping_def)
  qed
qed

lemma invalidate_loop_clears:
  assumes "distinct (map snd xs)" and "\<forall>a \<in> snd ` set xs. \<exists>mp. h a = Some mp \<and> ws_inode_ok st mp \<and> small_indices mp"
  shows "\<exists>h'. invalidate_loop options xs h = (OK, h') \<and> (\<forall>a. a \<notin> snd ` set xs \<longrightarrow> h' a = h a) \<and>
    (\<forall>a \<in> snd ` set xs. \<exists>mp mp'. h a = Some mp \<and> h' a = Some mp' \<and> cleared options mp mp')"
  using assms
proof (induction xs arbitrary: h)
  case Nil
  then show ?case by simp
next
  case (Cons x xs)
  obtain i a where x: "x = (i, a)" by fastforce
  obtain mp where mp: "h a = Some mp" "ws_inode_ok st mp" "small_indices mp" using Cons.prems(2) x by auto
  obtain mp' where mp': "(if options AND SIVFS_NO_INVALIDATE_CPS \<noteq> 0 then sivfs_unmap_mapping_workingset (unmap_fuel mp) mp
      else sivfs_unmap_mapping (unmap_fuel mp) mp) = (OK, mp')" "cleared options mp mp'"
    using unmap_mapping_clears [OF mp(2,3)] by blast
  have "invalidate_loop options (x # xs) h = invalidate_loop options xs (h(a \<mapsto> mp'))"
    using mp(1) mp'(1) x by simp
  moreover have "\<exists>h'. invalidate_loop options xs (h(a \<mapsto> mp')) = (OK, h') \<and>
      (\<forall>b. b \<notin> snd ` set xs \<longrightarrow> h' b = (h(a \<mapsto> mp')) b) \<and>
      (\<forall>b \<in> snd ` set xs. \<exists>m m'. (h(a \<mapsto> mp')) b = Some m \<and> h' b = Some m' \<and> cleared options m m')"
    by (rule Cons.IH) (use Cons.prems x in auto)
  moreover have "a \<notin> snd ` set xs" using Cons.prems(1) x by simp
  ultimately show ?case using mp(1) mp'(2) x by (fastforce split: if_splits)
qed

lemma invalidate_clears:
  assumes "ws_ok st ws h" and "\<forall>i mp. ws_inode ws h i = Some mp \<longrightarrow> small_indices mp" and "rt_inv (anon_inodes ws)"
  shows "\<exists>h'. sivfs_invalidate_workingset ws options h = (OK, h') \<and>
    (\<forall>i mp. ws_inode ws h i = Some mp \<longrightarrow> (\<exists>mp'. ws_inode ws h' i = Some mp' \<and> cleared options mp mp'))"
proof -
  have look: "radix_tree_lookup (anon_inodes ws) i = Some a \<longleftrightarrow> (i, a) \<in> set (anon_inodes ws)" for i a
    using rt_inv_distinct [OF assms(3)] by (simp add: radix_tree_lookup_def)
  have "\<forall>a \<in> snd ` set (anon_inodes ws). \<exists>mp. h a = Some mp \<and> ws_inode_ok st mp \<and> small_indices mp"
  proof
    fix a assume "a \<in> snd ` set (anon_inodes ws)"
    then obtain i where i: "radix_tree_lookup (anon_inodes ws) i = Some a" unfolding look by force
    then obtain mp where "h a = Some mp" "ws_inode_ok st mp" using ws_okD [OF assms(1)] by blast
    moreover from this have "ws_inode ws h i = Some mp" using i by (simp add: ws_inode_def)
    ultimately show "\<exists>mp. h a = Some mp \<and> ws_inode_ok st mp \<and> small_indices mp"
      using assms(2) by blast
  qed
  from invalidate_loop_clears [OF _ this, of options] obtain h' where
    h': "invalidate_loop options (anon_inodes ws) h = (OK, h')"
      "\<forall>a \<in> snd ` set (anon_inodes ws). \<exists>mp mp'. h a = Some mp \<and> h' a = Some mp' \<and> cleared options mp mp'"
    using assms(1) by (auto simp: ws_ok_def)
  have "\<exists>mp'. ws_inode ws h' i = Some mp' \<and> cleared options mp mp'" if ino: "ws_inode ws h i = Some mp" for i mp
  proof -
    obtain a where a: "radix_tree_lookup (anon_inodes ws) i = Some a" "h a = Some mp"
      using ino by (auto simp: ws_inode_def bind_eq_Some_conv)
    then have "a \<in> snd ` set (anon_inodes ws)" unfolding look by force
    then show ?thesis using h'(2) a by (fastforce simp: ws_inode_def)
  qed
  then show ?thesis using h'(1) by (auto simp: sivfs_invalidate_workingset_def)
qed

text \<open>
  \<^verbatim>\<open>sivfs_invalidate_workingset\<close> returns, although its loops restart until nothing is left, and leaves the working set
  empty: no private page, no mapping of one, and no page of a checkpoint and no mapping at all unless the caller
  asked to keep the pages of checkpoints, which are then kept as they were.
\<close>

theorem invalidate_workingset_clears:
  assumes "ws_ok st ws h" and "\<forall>i mp. ws_inode ws h i = Some mp \<longrightarrow> small_indices mp" and "rt_inv (anon_inodes ws)"
  shows "\<exists>h'. sivfs_invalidate_workingset ws options h = (OK, h') \<and>
    (\<forall>i mp. ws_inode ws h i = Some mp \<longrightarrow> (\<exists>mp'. ws_inode ws h' i = Some mp' \<and> cleared options mp mp'))"
  by (rule invalidate_clears [OF assms])

theorem invalidate_workingset_clears_witness:
  "\<exists>h'. sivfs_invalidate_workingset (st_workingset ex_task) 0 (ex_anon (\<lambda>_. 0)) = (OK, h') \<and>
     (\<exists>mp'. ws_inode (st_workingset ex_task) h' 5 = Some mp' \<and> ai_pages mp' = [] \<and> ai_ptes mp' = (\<lambda>_. None))"
proof -
  have "ws_inode (st_workingset ex_task) (ex_anon (\<lambda>_. 0)) i \<noteq> None \<longleftrightarrow> i = 5" for i
    by (simp add: ws_inode_def ex_anon_def radix_tree_lookup_def)
  moreover have "\<forall>i mp. ws_inode (st_workingset ex_task) (ex_anon (\<lambda>_. 0)) i = Some mp \<longrightarrow> small_indices mp"
    by (auto simp: ws_inode_def ex_anon_def radix_tree_lookup_def small_indices_def split: if_splits)
  ultimately show ?thesis
    using invalidate_workingset_clears [OF ex_anon_ok [of "\<lambda>_. 0"], of 0] by (fastforce simp: cleared_def fun_eq_iff)
qed

end
