(* ===== verification/Commit_Update.thy ===== *)
theory Commit_Update
  imports Working_Set
begin

text \<open>
  The end of a transaction: \<^verbatim>\<open>my_sivfs_commit_update\<close> and \<^verbatim>\<open>sivfs_add_metadata_to_changes\<close> of
  \<^verbatim>\<open>kern/sivfs_commit_update_checkpoints.c\<close>, \<^verbatim>\<open>sivfs_find_vma\<close> of \<^verbatim>\<open>kern/sivfs_mm.c\<close> and the wrapper \<^verbatim>\<open>sivfs_commit_update\<close> of
  \<^verbatim>\<open>kern/sivfs_commit_update.h\<close>.  This is where the components meet: the writeset is translated to file offsets, validated and
  appended to the log, the allocator is told the outcome, a checkpoint is checked out and the working set is moved to the
  newest snapshot.

  The memory map of a task is a list of areas in address order.  \<^verbatim>\<open>find_vma\<close> returns the first area that ends
  above an address, as documented; the page table below the middle directory of an address is present or not (\<open>mm_pmd\<close>, by
  2 MB region), and its entries are those the anonymous inode of the area records.  Dirty bits of page table entries are not
  modelled.  The configuration is \<^verbatim>\<open>SIVFS_FIGURE_NO_EXTERNAL_CONSISTENCY_TRICKS\<close> and \<^verbatim>\<open>SIVFS_FIGURE_WORKINGSET_HARDLIMIT_PLUS_ONE\<close> = -1.
\<close>

section \<open>The memory map\<close>

text \<open>\<open>vm_sb\<close> says that the file of the area is on the sivfs superblock, \<open>vm_inode\<close> is the address of its inode.\<close>

record vm_area =
  vm_start :: u64
  vm_end :: u64
  vm_pgoff :: u64
  vm_anonymous :: bool
  vm_sb :: bool
  vm_inode :: u64

record mm_struct =
  mm_vmas :: "vm_area list"
  mm_pmd :: "u64 \<Rightarrow> bool"
  mm_i_size :: "u64 \<Rightarrow> u64"

definition find_vma :: "mm_struct \<Rightarrow> u64 \<Rightarrow> vm_area option" where
  "find_vma mm addr = find (\<lambda>vma. addr < vm_end vma) (mm_vmas mm)"

definition sivfs_find_vma ::
  "mm_struct \<Rightarrow> anon_heap \<Rightarrow> u64 \<Rightarrow> u64 \<Rightarrow> u64 \<Rightarrow> bool \<Rightarrow> rc \<times> vm_area option" where
  "sivfs_find_vma mm h current start sz check_sivfs_current =
     (let end_addr = start + sz in
      if end_addr < start then (E EINVAL, None)
      else case find_vma mm start of
        None \<Rightarrow> (E EINVAL, None)
      | Some vma \<Rightarrow>
          if vm_start vma > start \<or> vm_end vma < end_addr then (E EINVAL, None)
          else if \<not> check_sivfs_current then (OK, Some vma)
          else if vm_anonymous vma then (E EINVAL, None)
          else if \<not> vm_sb vma then (E EINVAL, None)
          else case h (vm_inode vma) of
            None \<Rightarrow> (UB, None)
          | Some inode \<Rightarrow>
              (case ai_info inode of
                 None \<Rightarrow> (E EINVAL, None)
               | Some iinfo \<Rightarrow>
                   if ii_state iinfo \<noteq> current then (E EINVAL, None) else (OK, Some vma)))"

section \<open>Adding metadata to a writeset\<close>

text \<open>
  \<open>md_buf\<close> is the buffer of the writeset, which the loop reads and updates; \<open>md_locked\<close> are the page-table locks that are
  held, by 2 MB region.  Acquiring a lock that is held never ends.
\<close>

record metadata =
  md_buf :: "u64 list"
  md_stats :: sivfs_stats
  md_anon :: anon_heap
  md_locked :: "u64 list"

definition clean_page :: "u64 \<Rightarrow> u64 \<Rightarrow> anon_inode \<Rightarrow> anon_inode" where
  "clean_page pgoff page inode = inode\<lparr>ai_pages :=
     map (\<lambda>(p, pg). (p, if p = pgoff \<and> wp_addr pg = page then pg\<lparr>wp_dirty := False\<rparr> else pg)) (ai_pages inode)\<rparr>"

definition clear_dirty :: "mm_struct \<Rightarrow> u64 \<Rightarrow> u64 \<Rightarrow> u64 \<Rightarrow> metadata \<Rightarrow> rc \<times> metadata" where
  "clear_dirty mm a target_start pgoff md =
     (let ptl = drop_bit 21 target_start in
      if \<not> mm_pmd mm ptl then (OK, md)
      else if ptl \<in> set (md_locked md) then (HANG, md)
      else case md_anon md a of
        None \<Rightarrow> (UB, md)
      | Some inode \<Rightarrow>
          (case ai_ptes inode pgoff of
             None \<Rightarrow> (OK, md\<lparr>md_locked := ptl # md_locked md\<rparr>)
           | Some page \<Rightarrow> (OK, md\<lparr>md_anon := (md_anon md)(a \<mapsto> clean_page pgoff page inode)\<rparr>)))"

text \<open>The file offset of an address in an area.\<close>

definition vma_offset :: "vm_area \<Rightarrow> u64 \<Rightarrow> u64" where
  "vma_offset vma target_start = (target_start - vm_start vma) + push_bit 12 (vm_pgoff vma)"

text \<open>One entry; the flag of the result says that the function is left because of a write beyond the end of the file.\<close>

definition tag_entry ::
  "mm_struct \<Rightarrow> u64 \<Rightarrow> nat \<Rightarrow> sivfs_writeset_entry \<Rightarrow> metadata \<Rightarrow> rc \<times> bool \<times> metadata" where
  "tag_entry mm current pos ent md0 =
     (let md = md0\<lparr>md_stats := stat_inc nWriteTxnsWrites (md_stats md0)\<rparr>;
          target_start = wse_address ent
      in case sivfs_find_vma mm (md_anon md) current target_start 8 True of
           (OK, Some vma) \<Rightarrow>
             if target_start AND 7 \<noteq> 0 then (E EINVAL, False, md)
             else
               let file_offset = vma_offset vma target_start;
                   backing_ino = (case Option.bind (md_anon md (vm_inode vma)) ai_info of
                                    None \<Rightarrow> 0 | Some iinfo \<Rightarrow> ii_backing_ino iinfo)
               in if file_offset \<ge> mm_i_size mm backing_ino then (OK, True, md)
                  else (case clear_dirty mm (vm_inode vma) target_start (drop_bit 12 file_offset) md of
                          (OK, md1) \<Rightarrow> (OK, False, md1\<lparr>md_buf := (md_buf md1)[pos := backing_ino, Suc pos := file_offset]\<rparr>)
                        | (r, md1) \<Rightarrow> (r, False, md1))
         | (OK, None) \<Rightarrow> (UB, False, md)
         | (r, _) \<Rightarrow> (r, False, md))"

fun metadata_loop ::
  "mm_struct \<Rightarrow> u64 \<Rightarrow> nat \<Rightarrow> nat \<Rightarrow> u64 \<Rightarrow> metadata \<Rightarrow> rc \<times> bool \<times> metadata" where
  "metadata_loop mm current 0 pos size_left md = (if size_left = 0 then (OK, False, md) else (HANG, False, md))"
| "metadata_loop mm current (Suc fuel) pos size_left md =
     (if size_left = 0 then (OK, False, md)
      else case wse_read (drop pos (md_buf md)) of
        None \<Rightarrow> (UB, False, md)
      | Some ent \<Rightarrow>
          (case sivfs_wse_to_stream_info ent size_left of
             Inl e \<Rightarrow> (E e, False, md)
           | Inr info \<Rightarrow>
               (case tag_entry mm current pos ent md of
                  (OK, False, md1) \<Rightarrow>
                    metadata_loop mm current fuel (pos + words_of_bytes (sivfs_wse_size info))
                      (size_left - sivfs_wse_size info) md1
                | res \<Rightarrow> res)))"

definition sivfs_add_metadata_to_changes ::
  "mm_struct \<Rightarrow> u64 \<Rightarrow> sivfs_stats \<Rightarrow> anon_heap \<Rightarrow> sivfs_log_entry \<Rightarrow> rc \<times> sivfs_log_entry \<times> metadata" where
  "sivfs_add_metadata_to_changes mm current stats h log_writeset =
     (let md = \<lparr>md_buf = entries (le_ws log_writeset), md_stats = stats, md_anon = h, md_locked = []\<rparr> in
      if le_ws_has_metadata log_writeset then (OK, log_writeset, md)
      else case metadata_loop mm current (wse_fuel (md_buf md)) 0 (size_bytes (le_ws log_writeset)) md of
        (r, beyond, md1) \<Rightarrow>
          (let lw = log_writeset\<lparr>le_ws := (le_ws log_writeset)\<lparr>entries := md_buf md1\<rparr>\<rparr> in
           (r, if r = OK then (if beyond then lw\<lparr>le_aborted := True\<rparr> else lw\<lparr>le_ws_has_metadata := True\<rparr>) else lw, md1)))"

section \<open>Ending a transaction\<close>

definition SIVFS_ABORT_FLAG :: u64 where
  "SIVFS_ABORT_FLAG = 2"

definition SIVFS_DIRECT_ACCESS :: u64 where
  "SIVFS_DIRECT_ACCESS = 4"

text \<open>
  The part of the kernel the function works on.  \<open>k_locked\<close> are the page-table locks left locked.  The outcomes of the
  requests \<open>sivfs_commit_changes\<close> makes are the fields of \<open>commit_env\<close>; \<open>ce_fuel\<close> bounds the coalescing of the allocator.
\<close>

record kernel =
  k_shared :: sivfs_shared_state
  k_cps :: cp_world
  k_anon :: anon_heap
  k_alloc :: alloc_heap
  k_locked :: "u64 list"

record commit_env =
  ce_mm :: mm_struct
  ce_signal :: bool
  ce_kmalloc :: "u64 option"
  ce_tree_ok :: bool
  ce_fuel :: nat

record commit_run =
  cr_aborted :: bool
  cr_commit_ts :: sivfs_ts
  cr_state :: sivfs_state
  cr_log :: "sivfs_log_entry option"
  cr_kernel :: kernel

text \<open>The first part, up to the invalidation of the pages written by an aborted transaction.\<close>

definition commit_writes :: "commit_env \<Rightarrow> commit_run \<Rightarrow> sivfs_log_entry \<Rightarrow> rc \<times> commit_run" where
  "commit_writes env c log_writeset =
     (let k = cr_kernel c; state = cr_state c in
      case sivfs_add_metadata_to_changes (ce_mm env) (t_owner state) (st_stats state) (k_anon k) log_writeset of
        (r, lw, md) \<Rightarrow>
          let state1 = state\<lparr>st_stats := md_stats md\<rparr>;
              k1 = k\<lparr>k_anon := md_anon md, k_locked := md_locked md @ k_locked k\<rparr>;
              c1 = c\<lparr>cr_state := state1, cr_log := Some lw, cr_kernel := k1\<rparr>
          in if r \<noteq> OK then (r, c1)
             else case (if cr_aborted c then (OK, SIVFS_INVALID_TS, True, False, k_shared k1)
                        else sivfs_commit_changes (ce_signal env) (ce_kmalloc env) (ce_tree_ok env)
                               (latest_checkpoint_published (cw_checkpoints (k_cps k1))) (k_shared k1) (txn_ts state1) lw) of
               (r2, commit_ts, aborted, throttled, s) \<Rightarrow>
                 let c2 = c1\<lparr>cr_kernel := k1\<lparr>k_shared := s\<rparr>\<rparr> in
                 if r2 \<noteq> OK then (r2, c2)
                 else
                   let c3 = c2\<lparr>cr_commit_ts := commit_ts, cr_aborted := aborted,
                               cr_state := if throttled
                                 then state1\<lparr>st_stats := stat_inc nWriteTxnsThrottledOnSS (st_stats state1)\<rparr> else state1\<rparr>
                   in if aborted then
                        (case sivfs_invalidate_workingset_log (st_workingset state1) lw (k_anon k1) of
                           (r3, h) \<Rightarrow> (r3, c3\<lparr>cr_kernel := (cr_kernel c3)\<lparr>k_anon := h\<rparr>\<rparr>))
                      else (OK, c3))"

text \<open>
  Checking out a checkpoint.  Run without interference the loop validates what it has read at once, unless
  no checkpoint is published, when it never ends.  The result carries \<open>checkpoint_ts\<close>.
\<close>

definition checkout_checkpoint :: "cp_world \<Rightarrow> sivfs_state \<Rightarrow> rc \<times> sivfs_ts \<times> sivfs_state" where
  "checkout_checkpoint w state =
     (let checkpoint_ts = latest_cp_ts (cw_checkpoints w) in
      if st_checkpoint_ts state = checkpoint_ts then (OK, checkpoint_ts, state)
      else
        let state1 = state\<lparr>st_checkpoint := latest_cp_checkpoint (cw_checkpoints w), st_checkpoint_ts := checkpoint_ts\<rparr>
        in if checkpoint_ts = SIVFS_INVALID_TS then (HANG, checkpoint_ts, state1)
           else if st_checkpoint state1 = 0 then (E EINVAL, checkpoint_ts, state1)
           else (OK, checkpoint_ts, state1))"

definition update_workingset :: "u64 \<Rightarrow> sivfs_ts \<Rightarrow> sivfs_ts \<Rightarrow> kernel \<Rightarrow> sivfs_state \<Rightarrow> rc \<times> sivfs_state \<times> anon_heap" where
  "update_workingset options commit_ts next_ts k state =
     (if options AND SIVFS_DIRECT_ACCESS \<noteq> 0
      then sivfs_update_direct_access (k_shared k) state next_ts (k_anon k)
      else case (if direct_access state then sivfs_invalidate_workingset (st_workingset state) 0 (k_anon k)
                 else (OK, k_anon k)) of
        (OK, h) \<Rightarrow> sivfs_update (cw_store (k_cps k)) (k_shared k) (state\<lparr>direct_access := False\<rparr>) next_ts commit_ts h
      | (r, h) \<Rightarrow> (r, state, h))"

text \<open>The second part, from the hooks of the allocator on.\<close>

definition update_snapshot :: "commit_env \<Rightarrow> u64 \<Rightarrow> commit_run \<Rightarrow> rc \<times> commit_run" where
  "update_snapshot env options c =
     (let k = cr_kernel c in
      case sivfs_allocation_on_commit (ce_fuel env) (k_alloc k) (cr_state c) (cr_aborted c) (cr_commit_ts c) of
        (r, state1, ah) \<Rightarrow>
          let k1 = k\<lparr>k_alloc := ah\<rparr> in
          if r \<noteq> OK then (r, c\<lparr>cr_state := state1, cr_kernel := k1\<rparr>)
          else case checkout_checkpoint (k_cps k1) state1 of
            (r2, checkpoint_ts, state2) \<Rightarrow>
              if r2 \<noteq> OK then (r2, c\<lparr>cr_state := state2, cr_kernel := k1\<rparr>)
              else case update_workingset options (cr_commit_ts c) (master_ts (k_shared k1)) k1 state2 of
                (r3, state3, h) \<Rightarrow>
                  let k3 = k1\<lparr>k_anon := h\<rparr> in
                  if r3 \<noteq> OK then (r3, c\<lparr>cr_state := state3, cr_kernel := k3\<rparr>)
                  else (OK, c\<lparr>cr_state := state3\<lparr>st_prior_checkpoint_ts := checkpoint_ts\<rparr>, cr_kernel := k3\<rparr>))"

definition my_sivfs_commit_update ::
  "commit_env \<Rightarrow> u64 \<Rightarrow> sivfs_log_entry option \<Rightarrow> sivfs_state \<Rightarrow> kernel \<Rightarrow> rc \<times> commit_run" where
  "my_sivfs_commit_update env options log_writeset state k =
     (let aborted = (should_abort state \<or> options AND SIVFS_ABORT_FLAG \<noteq> 0);
          c = \<lparr>cr_aborted = aborted, cr_commit_ts = SIVFS_INVALID_TS, cr_state = state\<lparr>should_abort := False\<rparr>,
               cr_log = log_writeset, cr_kernel = k\<rparr>
      in case log_writeset of
           None \<Rightarrow> update_snapshot env options c
         | Some lw \<Rightarrow>
             if le_aborted lw then (E EINVAL, c\<lparr>cr_state := state\<rparr>)
             else if sivfs_writeset_empty (le_ws lw) then update_snapshot env options c
             else (case commit_writes env c lw of
                     (OK, c1) \<Rightarrow> update_snapshot env options c1
                   | (r, c1) \<Rightarrow> (r, c1)))"

text \<open>The wrapper counts transactions; \<open>cr_aborted\<close> is the value written to \<^verbatim>\<open>*aborted\<close>.\<close>

definition sivfs_commit_update ::
  "commit_env \<Rightarrow> u64 \<Rightarrow> sivfs_log_entry option \<Rightarrow> sivfs_state \<Rightarrow> kernel \<Rightarrow> rc \<times> commit_run" where
  "sivfs_commit_update env options log_writeset state k =
     (case my_sivfs_commit_update env options log_writeset state k of
        (r, c) \<Rightarrow>
          if r \<noteq> OK then (r, c)
          else
            let wrote = (case cr_log c of None \<Rightarrow> False | Some lw \<Rightarrow> \<not> sivfs_writeset_empty (le_ws lw));
                stats = st_stats (cr_state c);
                stats1 = (if wrote then stat_inc nWriteTxns stats else stats);
                stats2 = stat_inc nTxns stats1;
                stats3 = (if cr_aborted c then stats2 else stat_inc nCommits stats2)
            in (OK, c\<lparr>cr_state := (cr_state c)\<lparr>st_stats := stats3\<rparr>\<rparr>))"

section \<open>Heaps that differ in dirty bits only\<close>

definition undirty :: "anon_inode \<Rightarrow> anon_inode" where
  "undirty inode = inode\<lparr>ai_pages := map (\<lambda>(p, pg). (p, pg\<lparr>wp_dirty := False\<rparr>)) (ai_pages inode)\<rparr>"

definition same_pages :: "anon_heap \<Rightarrow> anon_heap \<Rightarrow> bool" where
  "same_pages h h' \<longleftrightarrow> (\<forall>a. map_option undirty (h' a) = map_option undirty (h a))"

lemma same_pages_refl: "same_pages h h"
  by (simp add: same_pages_def)

lemma same_pages_trans: "same_pages h h1 \<Longrightarrow> same_pages h1 h2 \<Longrightarrow> same_pages h h2"
  by (simp add: same_pages_def)

lemma undirty_clean: "undirty (clean_page p x inode) = undirty inode"
  by (simp add: undirty_def clean_page_def comp_def case_prod_beta)

lemma same_pages_clean:
  assumes "h a = Some inode"
  shows "same_pages h (h(a \<mapsto> clean_page p x inode))"
  using assms by (simp add: same_pages_def undirty_clean)

lemma undirty_eqD:
  assumes "undirty x = undirty y"
  shows "ai_info x = ai_info y" "ai_ptes x = ai_ptes y"
    "map (\<lambda>(p, pg). (p, wp_addr pg, wp_mem pg)) (ai_pages x) = map (\<lambda>(p, pg). (p, wp_addr pg, wp_mem pg)) (ai_pages y)"
proof -
  have "ai_info (undirty x) = ai_info (undirty y)" "ai_ptes (undirty x) = ai_ptes (undirty y)"
    "map (\<lambda>(p, pg). (p, wp_addr pg, wp_mem pg)) (ai_pages (undirty x)) =
     map (\<lambda>(p, pg). (p, wp_addr pg, wp_mem pg)) (ai_pages (undirty y))" using assms by simp_all
  then show "ai_info x = ai_info y" "ai_ptes x = ai_ptes y"
    "map (\<lambda>(p, pg). (p, wp_addr pg, wp_mem pg)) (ai_pages x) = map (\<lambda>(p, pg). (p, wp_addr pg, wp_mem pg)) (ai_pages y)"
    by (simp_all add: undirty_def comp_def case_prod_unfold)
qed

lemma same_pages_inode:
  assumes "same_pages h h'"
  shows "(h a = None \<longleftrightarrow> h' a = None) \<and> (\<forall>x. h a = Some x \<longrightarrow> (\<exists>y. h' a = Some y \<and> undirty x = undirty y))"
proof -
  have "map_option undirty (h' a) = map_option undirty (h a)" using assms by (simp add: same_pages_def)
  then show ?thesis by (cases "h a"; cases "h' a") auto
qed

lemma same_pages_find_vma:
  assumes "same_pages h h'"
  shows "sivfs_find_vma mm h' current addr n b = sivfs_find_vma mm h current addr n b"
proof -
  have "(case h' a of None \<Rightarrow> x | Some i \<Rightarrow> (case ai_info i of None \<Rightarrow> y | Some j \<Rightarrow> f j)) =
      (case h a of None \<Rightarrow> x | Some i \<Rightarrow> (case ai_info i of None \<Rightarrow> y | Some j \<Rightarrow> f j))"
    for a and x y :: "rc \<times> vm_area option" and f
  proof (cases "h a")
    case None
    then show ?thesis using same_pages_inode [OF assms, of a] by simp
  next
    case (Some i)
    then obtain i' where "h' a = Some i'" "ai_info i = ai_info i'"
      using same_pages_inode [OF assms, of a] undirty_eqD(1) by blast
    then show ?thesis using Some by simp
  qed
  then show ?thesis unfolding sivfs_find_vma_def by presburger
qed

section \<open>Translating addresses\<close>

text \<open>The file and the offset an address of the writeset stands for, when the code accepts it.\<close>

definition translate :: "mm_struct \<Rightarrow> anon_heap \<Rightarrow> u64 \<Rightarrow> u64 \<Rightarrow> (u64 \<times> u64) option" where
  "translate mm h current addr =
     (case sivfs_find_vma mm h current addr 8 True of
        (OK, Some vma) \<Rightarrow>
          (case Option.bind (h (vm_inode vma)) ai_info of
             None \<Rightarrow> None
           | Some iinfo \<Rightarrow>
               if addr AND 7 = 0 \<and> vma_offset vma addr < mm_i_size mm (ii_backing_ino iinfo)
               then Some (ii_backing_ino iinfo, vma_offset vma addr) else None)
      | _ \<Rightarrow> None)"

text \<open>The page table entry of the address is present, or there is no page table at all.\<close>

definition pte_or_no_table :: "mm_struct \<Rightarrow> anon_heap \<Rightarrow> u64 \<Rightarrow> u64 \<Rightarrow> bool" where
  "pte_or_no_table mm h current addr \<longleftrightarrow> \<not> mm_pmd mm (drop_bit 21 addr) \<or>
     (case sivfs_find_vma mm h current addr 8 True of
        (OK, Some vma) \<Rightarrow>
          (case h (vm_inode vma) of None \<Rightarrow> False | Some inode \<Rightarrow> ai_ptes inode (drop_bit 12 (vma_offset vma addr)) \<noteq> None)
      | _ \<Rightarrow> False)"

lemma tag_entry_ok:
  assumes "translate mm (md_anon md) current (wse_address ent) = Some (i, off)"
    and "pte_or_no_table mm (md_anon md) current (wse_address ent)" and "md_locked md = []"
  shows "\<exists>h'. tag_entry mm current pos ent md =
    (OK, False, md\<lparr>md_buf := (md_buf md)[pos := i, Suc pos := off],
       md_stats := stat_inc nWriteTxnsWrites (md_stats md), md_anon := h'\<rparr>) \<and> same_pages (md_anon md) h'"
proof -
  obtain vma iinfo where v: "sivfs_find_vma mm (md_anon md) current (wse_address ent) 8 True = (OK, Some vma)"
      "Option.bind (md_anon md (vm_inode vma)) ai_info = Some iinfo" "wse_address ent AND 7 = 0"
      "off < mm_i_size mm i" "i = ii_backing_ino iinfo" "off = vma_offset vma (wse_address ent)"
    using assms(1) by (auto simp: translate_def split: prod.splits rc.splits option.splits if_splits)
  obtain inode where ino: "md_anon md (vm_inode vma) = Some inode" using v(2) by (auto simp: bind_eq_Some_conv)
  have nge: "\<not> mm_i_size mm i \<le> off" using v(4) by simp
  show ?thesis
  proof (cases "mm_pmd mm (drop_bit 21 (wse_address ent))")
    case False
    then show ?thesis using v nge assms(3)
      by (auto simp: tag_entry_def Let_def clear_dirty_def same_pages_refl intro!: metadata.equality)
  next
    case True
    then obtain page where pg: "ai_ptes inode (drop_bit 12 off) = Some page"
      using assms(2) v(1,6) ino by (auto simp: pte_or_no_table_def)
    have "same_pages (md_anon md) ((md_anon md)(vm_inode vma \<mapsto> clean_page (drop_bit 12 off) page inode))"
      using ino by (rule same_pages_clean)
    then show ?thesis using v nge assms(3) True pg ino
      by (auto simp: tag_entry_def Let_def clear_dirty_def intro!: exI [of _ "(md_anon md)(vm_inode vma \<mapsto> clean_page (drop_bit 12 off) page inode)"] metadata.equality)
  qed
qed

lemma same_pages_translate:
  assumes "same_pages h h'"
  shows "translate mm h' current addr = translate mm h current addr"
    and "pte_or_no_table mm h' current addr = pte_or_no_table mm h current addr"
proof -
  have b: "Option.bind (h' a) ai_info = Option.bind (h a) ai_info" for a
    using same_pages_inode [OF assms, of a] by (cases "h a") (auto dest: undirty_eqD)
  have p: "(case h' a of None \<Rightarrow> False | Some inode \<Rightarrow> ai_ptes inode q \<noteq> None) =
      (case h a of None \<Rightarrow> False | Some inode \<Rightarrow> ai_ptes inode q \<noteq> None)" for a q
    using same_pages_inode [OF assms, of a] by (cases "h a") (auto dest: undirty_eqD)
  show "translate mm h' current addr = translate mm h current addr"
    unfolding translate_def same_pages_find_vma [OF assms] b ..
  show "pte_or_no_table mm h' current addr = pte_or_no_table mm h current addr"
    unfolding pte_or_no_table_def same_pages_find_vma [OF assms] p ..
qed

definition tag :: "mm_struct \<Rightarrow> anon_heap \<Rightarrow> u64 \<Rightarrow> sivfs_writeset_entry \<Rightarrow> sivfs_writeset_entry" where
  "tag mm h current ent =
     (case translate mm h current (wse_address ent) of
        None \<Rightarrow> ent
      | Some (i, off) \<Rightarrow> ent\<lparr>wse_ino := i, wse_file_offset := off\<rparr>)"

definition acceptable :: "mm_struct \<Rightarrow> anon_heap \<Rightarrow> u64 \<Rightarrow> sivfs_writeset_entry \<Rightarrow> bool" where
  "acceptable mm h current ent \<longleftrightarrow> translate mm h current (wse_address ent) \<noteq> None \<and>
     pte_or_no_table mm h current (wse_address ent)"

lemma same_pages_tag:
  assumes "same_pages h h'"
  shows "tag mm h' current ent = tag mm h current ent" "acceptable mm h' current ent = acceptable mm h current ent"
  unfolding tag_def acceptable_def by (simp_all only: same_pages_translate [OF assms])

lemma wse_valid_tag: "wse_valid (tag mm h current e, xs) = wse_valid (e, xs)"
proof -
  have "sivfs_wse_to_stream_info (e\<lparr>wse_ino := i, wse_file_offset := off\<rparr>) n = sivfs_wse_to_stream_info e n" for i off n
    by (simp add: sivfs_wse_to_stream_info_def)
  then show ?thesis by (auto simp: tag_def wse_valid_def info_of_def split: option.splits)
qed

lemma encode_tag:
  assumes "translate mm h current (wse_address e) = Some (i, off)"
  shows "(ds @ wse_encode (e, xs) @ ys)[length ds := i, Suc (length ds) := off] = ds @ wse_encode (tag mm h current e, xs) @ ys"
  using assms by (simp add: tag_def wse_encode_def list_update_append)

lemma metadata_loop_encode:
  assumes "list_all wse_valid es" and "length (ws_encode es) < 2 ^ 61" and "length es \<le> fuel"
    and "md_buf md = ds @ ws_encode es @ rest" and "\<forall>(e, _) \<in> set es. acceptable mm (md_anon md) current e"
    and "md_locked md = []"
  shows "\<exists>md'. metadata_loop mm current fuel (length ds) (bytes (length (ws_encode es))) md = (OK, False, md') \<and>
    md_buf md' = ds @ ws_encode (map (\<lambda>(e, xs). (tag mm (md_anon md) current e, xs)) es) @ rest \<and>
    md_locked md' = [] \<and> same_pages (md_anon md) (md_anon md')"
  using assms
proof (induction es arbitrary: fuel md ds)
  case Nil
  then show ?case by (cases fuel) (auto simp: same_pages_refl)
next
  case (Cons x es)
  obtain e xs where x: "x = (e, xs)" by fastforce
  obtain f where f: "fuel = Suc f" "length es \<le> f" using Cons.prems(3) by (cases fuel) auto
  have v: "wse_valid (e, xs)" and vs: "list_all wse_valid es" using Cons.prems(1) x by auto
  let ?n = "length (ws_encode es)"
  have n: "5 + length xs + ?n < 2 ^ 61" using Cons.prems(2) x by simp
  have info: "sivfs_wse_to_stream_info e (bytes (5 + length xs + ?n)) = Inr (info_of e)"
    using wse_valid_to_stream_info [OF v _ n] by simp
  have wsz: "sivfs_wse_size (info_of e) = bytes (5 + length xs)" using v by (rule wse_valid_size)
  have rd: "wse_read (drop (length ds) (md_buf md)) = Some e" using Cons.prems(4) x by simp
  obtain i off where tr: "translate mm (md_anon md) current (wse_address e) = Some (i, off)"
      and pte: "pte_or_no_table mm (md_anon md) current (wse_address e)"
    using Cons.prems(5) x by (auto simp: acceptable_def)
  obtain h1 where t: "tag_entry mm current (length ds) e md =
      (OK, False, md\<lparr>md_buf := (md_buf md)[length ds := i, Suc (length ds) := off],
         md_stats := stat_inc nWriteTxnsWrites (md_stats md), md_anon := h1\<rparr>)" "same_pages (md_anon md) h1"
    using tag_entry_ok [OF tr pte Cons.prems(6)] by blast
  let ?md = "md\<lparr>md_buf := (md_buf md)[length ds := i, Suc (length ds) := off],
         md_stats := stat_inc nWriteTxnsWrites (md_stats md), md_anon := h1\<rparr>"
  let ?ds = "ds @ wse_encode (tag mm (md_anon md) current e, xs)"
  have buf: "md_buf ?md = ?ds @ ws_encode es @ rest"
    using Cons.prems(4) encode_tag [OF tr, of ds xs "ws_encode es @ rest"] x by simp
  have acc: "\<forall>(e, _) \<in> set es. acceptable mm (md_anon ?md) current e"
    using Cons.prems(5) x same_pages_tag(2) [OF t(2)] by auto
  obtain md' where md': "metadata_loop mm current f (length ?ds) (bytes ?n) ?md = (OK, False, md')"
      "md_buf md' = ?ds @ ws_encode (map (\<lambda>(e, xs). (tag mm (md_anon ?md) current e, xs)) es) @ rest"
      "md_locked md' = []" "same_pages (md_anon ?md) (md_anon md')"
    using Cons.IH [OF vs _ f(2) buf acc] n Cons.prems(6) by auto
  have nz: "bytes (5 + length xs + ?n) \<noteq> 0" using unat_bytes [OF n] by (metis add_is_0 mult_is_0 unat_0 zero_neq_numeral)
  have pos: "length ds + words_of_bytes (bytes (5 + length xs)) = length ?ds" using n by simp
  have left: "bytes (5 + length xs + ?n) - bytes (5 + length xs) = bytes ?n" by (simp add: bytes_def)
  have step: "metadata_loop mm current fuel (length ds) (bytes (length (ws_encode (x # es)))) md =
      metadata_loop mm current f (length ?ds) (bytes ?n) ?md"
    using f(1) nz info rd t(1) wsz pos left x by simp
  show ?case unfolding step using md' t(2) same_pages_tag(1) [OF t(2)] x
    by (auto intro: same_pages_trans)
qed

lemma length_encode_ge: "length es \<le> length (ws_encode es)"
  by (induction es) (auto simp: wse_encode_def split: prod.splits)

lemma add_metadata_ok:
  assumes "ws_repr (le_ws lw) es" and "\<not> le_ws_has_metadata lw"
    and "\<forall>(e, _) \<in> set es. acceptable mm h current e"
  shows "\<exists>lw' md. sivfs_add_metadata_to_changes mm current stats h lw = (OK, lw', md) \<and>
    ws_repr (le_ws lw') (map (\<lambda>(e, xs). (tag mm h current e, xs)) es) \<and>
    le_aborted lw' = le_aborted lw \<and> le_ws_has_metadata lw' \<and> size_bytes (le_ws lw') = size_bytes (le_ws lw) \<and>
    md_locked md = [] \<and> same_pages h (md_anon md)"
proof -
  let ?ws = "le_ws lw"
  let ?md = "\<lparr>md_buf = entries ?ws, md_stats = stats, md_anon = h, md_locked = []\<rparr>"
  let ?es = "map (\<lambda>(e, xs). (tag mm h current e, xs)) es"
  have r: "list_all wse_valid es" "length (ws_encode es) < 2 ^ 58" "size_bytes ?ws = bytes (length (ws_encode es))"
      "length (ws_encode es) \<le> length (entries ?ws)" "take (length (ws_encode es)) (entries ?ws) = ws_encode es"
    using assms(1) by (simp_all add: ws_repr_def)
  have buf: "md_buf ?md = [] @ ws_encode es @ drop (length (ws_encode es)) (entries ?ws)"
    using r(5) by (metis append_Nil append_take_drop_id metadata.select_convs(1))
  have fuel: "length es \<le> wse_fuel (entries ?ws)"
    using length_encode_ge [of es] r(4) by (simp add: wse_fuel_def)
  obtain md where md: "metadata_loop mm current (wse_fuel (entries ?ws)) 0 (size_bytes ?ws) ?md = (OK, False, md)"
      "md_buf md = ws_encode ?es @ drop (length (ws_encode es)) (entries ?ws)" "md_locked md = []" "same_pages h (md_anon md)"
    using metadata_loop_encode [OF r(1) _ fuel buf, of mm current] r(2,3) assms(3) by auto
  have len: "length (ws_encode ?es) = length (ws_encode es)"
    by (induction es) (auto simp: wse_encode_def)
  have valid: "list_all wse_valid ?es" using r(1) by (auto simp: list_all_iff wse_valid_tag)
  have "ws_repr (?ws\<lparr>entries := md_buf md\<rparr>) ?es"
    using assms(1) valid r(4) len by (simp add: ws_repr_def md(2))
  then show ?thesis using md assms(2) by (simp add: sivfs_add_metadata_to_changes_def Let_def)
qed

section \<open>What dirty bits do not matter for\<close>

lemma undirty_lookup:
  assumes "undirty x = undirty y"
  shows "map_option (\<lambda>pg. (wp_addr pg, wp_mem pg)) (radix_tree_lookup (ai_pages x) p) =
    map_option (\<lambda>pg. (wp_addr pg, wp_mem pg)) (radix_tree_lookup (ai_pages y) p)"
  using arg_cong [OF undirty_eqD(3) [OF assms], of "\<lambda>xs. map_of xs p"] by (simp add: radix_tree_lookup_def map_of_map)

lemma undirty_inode_ok:
  assumes "undirty x = undirty y" and "ws_inode_ok st x"
  shows "ws_inode_ok st y"
proof -
  note eq = undirty_eqD [OF assms(1)]
  have keys: "map fst (ai_pages x) = map fst (ai_pages y)"
    using arg_cong [OF eq(3), of "map fst"] by (simp add: comp_def case_prod_unfold)
  have "map (fst \<circ> snd) (map (\<lambda>(p, pg). (p, wp_addr pg, wp_mem pg)) (ai_pages x)) =
      map (fst \<circ> snd) (map (\<lambda>(p, pg). (p, wp_addr pg, wp_mem pg)) (ai_pages y))" by (simp only: eq(3))
  then have "map (wp_addr \<circ> snd) (ai_pages x) = map (wp_addr \<circ> snd) (ai_pages y)" by (simp add: comp_def case_prod_unfold)
  then have "set (map (wp_addr \<circ> snd) (ai_pages x)) = set (map (wp_addr \<circ> snd) (ai_pages y))" by simp
  then have addrs: "wp_addr ` snd ` set (ai_pages x) = wp_addr ` snd ` set (ai_pages y)" by (simp add: image_comp)
  have none: "radix_tree_lookup (ai_pages x) p = None \<longleftrightarrow> radix_tree_lookup (ai_pages y) p = None" for p
    using undirty_lookup [OF assms(1), of p]
    by (cases "radix_tree_lookup (ai_pages x) p"; cases "radix_tree_lookup (ai_pages y) p") simp_all
  have some: "(\<exists>pg. radix_tree_lookup (ai_pages x) p = Some pg \<and> wp_addr pg = z) \<longleftrightarrow>
      (\<exists>pg. radix_tree_lookup (ai_pages y) p = Some pg \<and> wp_addr pg = z)" for p z
    using undirty_lookup [OF assms(1), of p]
    by (cases "radix_tree_lookup (ai_pages x) p"; cases "radix_tree_lookup (ai_pages y) p") auto
  have cps: "(\<forall>pg \<in> snd ` set (ai_pages z). \<not> sivfs_is_checkpoint_page st (wp_addr pg)) \<longleftrightarrow>
      (\<forall>a \<in> wp_addr ` snd ` set (ai_pages z). \<not> sivfs_is_checkpoint_page st a)" for z by blast
  show ?thesis using assms(2) unfolding ws_inode_ok_def cps rt_inv_def keys addrs eq(1,2) some none by (simp split: option.splits)
qed

lemma same_pages_ws_ok:
  assumes "same_pages h h'" and "ws_ok st ws h"
  shows "ws_ok st ws h'"
proof -
  have "case h' a of None \<Rightarrow> False | Some mp \<Rightarrow> ws_inode_ok st mp"
    if old: "case h a of None \<Rightarrow> False | Some mp \<Rightarrow> ws_inode_ok st mp" for a
  proof -
    obtain x where x: "h a = Some x" "ws_inode_ok st x" using old by (cases "h a") auto
    then obtain y where "h' a = Some y" "undirty x = undirty y" using same_pages_inode [OF assms(1), of a] by blast
    then show ?thesis using undirty_inode_ok [of x y st] x(2) by simp
  qed
  then show ?thesis using assms(2) by (auto simp: ws_ok_def)
qed

lemma same_pages_wspg:
  assumes "same_pages h h'"
  shows "wspg ws h' i off = wspg ws h i off"
proof -
  have page: "inode_page p x = inode_page p y" if "undirty x = undirty y" for p x y
    using arg_cong [OF undirty_lookup [OF that, of p], of "map_option snd"]
    by (simp add: inode_page_def option.map_comp comp_def)
  show ?thesis
  proof (cases "radix_tree_lookup (anon_inodes ws) i")
    case (Some a)
    show ?thesis
    proof (cases "h a")
      case None
      then show ?thesis using Some same_pages_inode [OF assms, of a] by (simp add: wspg_def ws_inode_def)
    next
      case (Some x)
      then obtain y where "h' a = Some y" "undirty x = undirty y" using same_pages_inode [OF assms, of a] by blast
      then show ?thesis using Some \<open>radix_tree_lookup (anon_inodes ws) i = Some a\<close> page [of x y]
        by (simp add: wspg_def ws_inode_def)
    qed
  qed (simp add: wspg_def ws_inode_def)
qed

lemma same_pages_shows: "same_pages h h' \<Longrightarrow> ws_shows ws h' f = ws_shows ws h f"
  by (simp add: ws_shows_def same_pages_wspg)

section \<open>Invalidating the pages of an aborted transaction\<close>

definition drop_page :: "u64 \<Rightarrow> anon_inode \<Rightarrow> anon_inode" where
  "drop_page p mp = mp\<lparr>ai_ptes := (ai_ptes mp)(p := None), ai_pages := radix_tree_delete (ai_pages mp) p\<rparr>"

lemma drop_page_ok: "ws_inode_ok st mp \<Longrightarrow> ws_inode_ok st (drop_page p mp)"
  using set_delete [of "ai_pages mp" p] by (auto simp: ws_inode_ok_def drop_page_def split: option.splits)

definition ws_dropped :: "cp_store \<Rightarrow> sivfs_workingset \<Rightarrow> sivfs_writeset_entry list \<Rightarrow> anon_heap \<Rightarrow> anon_heap \<Rightarrow> bool" where
  "ws_dropped st ws es h h' \<longleftrightarrow> ws_ok st ws h' \<and>
     (\<forall>i off. wspg ws h' i off = (if \<exists>e \<in> set es. hits_page i off e then None else wspg ws h i off))"

lemma invalidate_entry_drops:
  assumes "ws_ok st ws h"
  shows "\<exists>h'. invalidate_entry ws ent info h = Next h' \<and> ws_dropped st ws [ent] h h'"
proof (cases "radix_tree_lookup (anon_inodes ws) (wse_ino ent)")
  case None
  then have "wspg ws h (wse_ino ent) off = None" for off by (simp add: wspg_def ws_inode_def)
  then have "ws_dropped st ws [ent] h h" using assms by (auto simp: ws_dropped_def hits_page_def)
  then show ?thesis using None by (simp add: invalidate_entry_def sivfs_backing_ino_to_anon_inode_def)
next
  case (Some a)
  let ?p = "drop_bit 12 (wse_file_offset ent)"
  obtain mp where mp: "a \<noteq> 0" "h a = Some mp" "ws_inode_ok st mp" using ws_okD [OF assms Some] by blast
  define h' where "h' = h(a := map_option (drop_page ?p) (h a))"
  have run: "invalidate_entry ws ent info h = Next h'"
    using Some mp by (simp add: invalidate_entry_def sivfs_backing_ino_to_anon_inode_def h'_def unmap_offset drop_page_def)
  have ino: "ws_inode ws h' i = map_option (if i = wse_ino ent then drop_page ?p else id) (ws_inode ws h i)" for i
    unfolding h'_def by (rule ws_inode_upd [OF assms Some])
  have "wspg ws h' i off = (if hits_page i off ent then None else wspg ws h i off)" for i off
    by (cases "ws_inode ws h i")
      (auto simp: wspg_def ino hits_page_def same_page_index inode_page_def drop_page_def)
  moreover have "ws_ok st ws h'"
    using assms drop_page_ok by (fastforce simp: ws_ok_def h'_def split: option.splits)
  ultimately show ?thesis using run by (auto simp: ws_dropped_def)
qed

lemma invalidate_log_drops:
  assumes "ws_repr (le_ws lw) es" and "ws_ok st ws h"
  shows "\<exists>h'. sivfs_invalidate_workingset_log ws lw h = (OK, h') \<and> ws_dropped st ws (ws_list (le_ws lw)) h h'"
proof -
  have "\<exists>h'. ws_run (invalidate_entry ws) es h = (OK, h') \<and> ws_dropped st ws (map fst es) h h'"
    using assms(2)
  proof (induction es arbitrary: h)
    case Nil
    then show ?case by (simp add: ws_dropped_def)
  next
    case (Cons x es)
    obtain e xs where x: "x = (e, xs)" by fastforce
    obtain h1 where 1: "invalidate_entry ws e (info_of e) h = Next h1" "ws_dropped st ws [e] h h1"
      using invalidate_entry_drops [OF Cons.prems] by blast
    obtain h2 where 2: "ws_run (invalidate_entry ws) es h1 = (OK, h2)" "ws_dropped st ws (map fst es) h1 h2"
      using Cons.IH [of h1] 1(2) by (auto simp: ws_dropped_def)
    have "ws_dropped st ws (map fst (x # es)) h h2" using 1(2) 2(2) x by (auto simp: ws_dropped_def)
    then show ?case using 1(1) 2(1) x by simp
  qed
  then show ?thesis
    by (simp add: sivfs_invalidate_workingset_log_def wse_loop_repr [OF assms(1)] ws_list_repr [OF assms(1)])
qed

lemma db_writes_unhit:
  assumes "cp_addressable i off" and "list_all writable es" and "\<not> (\<exists>e \<in> set es. hits_page i off e)"
  shows "fold db_write es f (cp_path i off) = f (cp_path i off)"
  using db_writes_page [OF assms(1,2)] page_write_unhit [of es i off] assms(3) by auto

lemma dropped_shows:
  assumes "ws_dropped st ws es h h'" and "list_all writable es" and "ws_shows ws h (fold db_write es f)"
  shows "ws_shows ws h' f"
  unfolding ws_shows_def
proof (intro allI impI)
  fix i off mem
  assume a: "cp_addressable i off" "wspg ws h' i off = Some mem"
  then have no: "\<not> (\<exists>e \<in> set es. hits_page i off e)" and old: "wspg ws h i off = Some mem"
    using assms(1) by (auto simp: ws_dropped_def split: if_splits)
  have "mem = fold db_write es f (cp_path i off)" using assms(3) a(1) old unfolding ws_shows_def by blast
  then show "mem = f (cp_path i off)" using db_writes_unhit [OF a(1) assms(2) no] by simp
qed

section \<open>The parts of a commit\<close>

lemma view_ok: "entry_view e = entry_view d \<Longrightarrow> log_entry_ok e = log_entry_ok d \<and> blocks ws e = blocks ws d"
  by (simp add: entry_view_def log_entry_ok_def blocks_def)

text \<open>The entries before the new one are those of the old log, up to their links.\<close>

lemma committed_before:
  assumes "log_good s" and "log_good s'" and "snap + 1 \<noteq> 0" and "m + 1 \<noteq> 0"
    and "\<forall>t. t \<noteq> m + 1 \<longrightarrow> map_option entry_view (entry_at s' t) = map_option entry_view (entry_at s t)"
    and "d \<in> set (log_between s' snap m)"
  shows "\<exists>t e. snap < t \<and> t \<le> m \<and> entry_at s t = Some e \<and> entry_view e = entry_view d \<and> e \<in> set (log_between s snap m)"
proof -
  obtain t where t: "snap < t" "t \<le> m" "entry_at s' t = Some d"
    using assms(6) log_between_iff [OF log_good_run [OF assms(2)] assms(3)] by blast
  then have "t \<noteq> m + 1" using less_inc_iff [OF assms(4), of m] by auto
  then obtain e where "entry_at s t = Some e" "entry_view e = entry_view d"
    using assms(5) t(3) by (metis map_option_eq_Some option.map(2))
  then show ?thesis using t log_between_iff [OF log_good_run [OF assms(1)] assms(3)] by blast
qed

lemma between_next:
  assumes "log_good s" and "snap \<le> m" and "m + 1 \<noteq> 0" and "entry_at s (m + 1) = Some e"
  shows "log_between s snap (m + 1) = log_between s snap m @ [e]"
proof -
  note run = log_good_run [OF assms(1)]
  have lt: "m < m + 1" using less_inc_iff [OF assms(3), of m] by simp
  have "log_between s snap (m + 1) = log_between s snap m @ log_between s m (m + 1)"
    by (rule log_between_append [OF run assms(2) _ assms(3)]) (use lt in simp)
  moreover have "log_between s m (m + 1) = [e]"
  proof -
    have mem: "d \<in> set (log_between s m (m + 1)) \<longleftrightarrow> d = e" for d
      unfolding log_between_iff [OF run assms(3)] using inc_le_iff [OF assms(3)] lt assms(4)
      by (metis option.inject order_antisym order_refl)
    obtain xs :: "u64 rt" where "map le_ts (log_between s m (m + 1)) = map fst xs" "rt_inv xs"
      using log_between_ts [OF run] by blast
    then have "distinct (log_between s m (m + 1))" using rt_inv_distinct by (metis distinct_map)
    then show ?thesis using mem
      by (cases "log_between s m (m + 1)" rule: remdups_adj.cases) (auto, metis list.set_intros(1))
  qed
  ultimately show ?thesis by simp
qed

lemma no_allocations:
  assumes "allocated_chunks state = []" and "alloc_chunks_to_free state = []"
  shows "sivfs_allocation_on_commit fuel ah state aborted ts = (OK, state, ah)"
  using assms by (simp add: sivfs_allocation_on_commit_def allocation_commit_def allocation_abort_def)

lemma checkout_ok:
  assumes "latest_cp_ts (cw_checkpoints w) \<noteq> SIVFS_INVALID_TS" and "latest_cp_checkpoint (cw_checkpoints w) \<noteq> 0"
  shows "\<exists>cp. checkout_checkpoint w state =
    (OK, latest_cp_ts (cw_checkpoints w), state\<lparr>st_checkpoint := cp, st_checkpoint_ts := latest_cp_ts (cw_checkpoints w)\<rparr>) \<and>
    (st_checkpoint_ts state \<noteq> latest_cp_ts (cw_checkpoints w) \<longrightarrow> cp = latest_cp_checkpoint (cw_checkpoints w))"
proof (cases "st_checkpoint_ts state = latest_cp_ts (cw_checkpoints w)")
  case True
  have "state\<lparr>st_checkpoint := st_checkpoint state, st_checkpoint_ts := st_checkpoint_ts state\<rparr> = state" by simp
  with True show ?thesis by (intro exI [of _ "st_checkpoint state"]) (simp add: checkout_checkpoint_def)
qed (use assms in \<open>simp add: checkout_checkpoint_def Let_def\<close>)

lemma update_snapshot_ok:
  fixes c :: commit_run
  defines "k \<equiv> cr_kernel c"
  defines "state \<equiv> cr_state c"
  defines "s \<equiv> k_shared k"
  assumes "allocated_chunks state = []" and "alloc_chunks_to_free state = []"
    and "latest_cp_ts (cw_checkpoints (k_cps k)) \<noteq> SIVFS_INVALID_TS" and "latest_cp_checkpoint (cw_checkpoints (k_cps k)) \<noteq> 0"
    and "log_good s" and "ws_ok (cw_store (k_cps k)) (st_workingset state) (k_anon k)" and "\<not> direct_access state"
    and "txn_ts state \<noteq> SIVFS_INVALID_TS" and "master_ts s \<noteq> SIVFS_INVALID_TS" and "txn_ts state \<le> master_ts s"
    and "master_ts s \<le> commit_started_ts s" and "master_log_deleted_ts s \<le> txn_ts state + 1"
    and "list_all log_entry_ok (log_between s (txn_ts state) (master_ts s))"
  shows "\<exists>c' h'. update_snapshot env 0 c = (OK, c') \<and> cr_aborted c' = cr_aborted c \<and> cr_kernel c' = k\<lparr>k_anon := h'\<rparr> \<and>
    ws_advance (cw_store (k_cps k)) (st_workingset state)
      (log_writes (filter (\<lambda>e. le_ts e \<noteq> cr_commit_ts c) (log_between s (txn_ts state) (master_ts s)))) (k_anon k) h' \<and>
    txn_ts (cr_state c') = master_ts s \<and> st_workingset (cr_state c') = st_workingset state \<and>
    st_checkpoint_ts (cr_state c') = latest_cp_ts (cw_checkpoints (k_cps k)) \<and>
    st_prior_checkpoint_ts (cr_state c') = latest_cp_ts (cw_checkpoints (k_cps k))"
proof -
  obtain cp where cp: "checkout_checkpoint (k_cps k) state = (OK, latest_cp_ts (cw_checkpoints (k_cps k)),
      state\<lparr>st_checkpoint := cp, st_checkpoint_ts := latest_cp_ts (cw_checkpoints (k_cps k))\<rparr>)"
    using checkout_ok [OF assms(6,7)] by blast
  let ?state = "state\<lparr>st_checkpoint := cp, st_checkpoint_ts := latest_cp_ts (cw_checkpoints (k_cps k)), direct_access := False\<rparr>"
  have "\<exists>h'. sivfs_update (cw_store (k_cps k)) s ?state (master_ts s) (cr_commit_ts c) (k_anon k) =
        (OK, ?state\<lparr>txn_ts := master_ts s\<rparr>, h') \<and>
      ws_advance (cw_store (k_cps k)) (st_workingset ?state)
        (log_writes (filter (\<lambda>e. le_ts e \<noteq> cr_commit_ts c) (log_between s (txn_ts ?state) (master_ts s)))) (k_anon k) h'"
    by (rule update_advances) (use assms(8-16) in simp_all)
  then obtain h' where h': "sivfs_update (cw_store (k_cps k)) s ?state (master_ts s) (cr_commit_ts c) (k_anon k) =
        (OK, ?state\<lparr>txn_ts := master_ts s\<rparr>, h')"
      "ws_advance (cw_store (k_cps k)) (st_workingset state)
        (log_writes (filter (\<lambda>e. le_ts e \<noteq> cr_commit_ts c) (log_between s (txn_ts state) (master_ts s)))) (k_anon k) h'"
    by auto
  have uw: "update_workingset 0 (cr_commit_ts c) (master_ts s) k
      (state\<lparr>st_checkpoint := cp, st_checkpoint_ts := latest_cp_ts (cw_checkpoints (k_cps k))\<rparr>) =
      (OK, ?state\<lparr>txn_ts := master_ts s\<rparr>, h')"
    using h'(1) assms(10) by (simp add: update_workingset_def s_def)
  have "update_snapshot env 0 c = (OK, c\<lparr>cr_state := ?state\<lparr>txn_ts := master_ts s,
      st_prior_checkpoint_ts := latest_cp_ts (cw_checkpoints (k_cps k))\<rparr>, cr_kernel := k\<lparr>k_anon := h'\<rparr>\<rparr>)"
    using no_allocations [OF assms(4,5)] cp uw by (simp add: update_snapshot_def Let_def k_def state_def s_def)
  then show ?thesis using h'(2) by auto
qed

lemma commit_writes_ok:
  fixes c :: commit_run and env :: commit_env
  defines "k \<equiv> cr_kernel c"
  defines "state \<equiv> cr_state c"
  defines "s \<equiv> k_shared k"
  defines "own \<equiv> \<lambda>es. map (\<lambda>(e, _ :: u64 list). tag (ce_mm env) (k_anon k) (t_owner state) e) es"
  assumes "\<not> cr_aborted c" and "ws_repr (le_ws lw) es" and "\<not> le_ws_has_metadata lw"
    and "\<forall>(e, _) \<in> set es. acceptable (ce_mm env) (k_anon k) (t_owner state) e" and "list_all writable (own es)"
    and "log_good s" and "master_ts s = commit_started_ts s" and "txn_ts state \<le> master_ts s"
    and "master_log_deleted_ts s \<le> txn_ts state + 1" and "unat (master_ts s) + 2 < 2 ^ 64"
    and "\<not> ce_signal env" and "ce_tree_ok env" and "ce_kmalloc env = Some start"
    and "kmalloc_ok s start (log_chunk_real (size_bytes (le_ws lw)))"
    and "ws_ok st (st_workingset state) (k_anon k)"
    and "ws_shows (st_workingset state) (k_anon k) (fold db_write (own es) f)"
  shows "\<exists>c' s' e stats h'. commit_writes env c lw = (OK, c') \<and> cr_commit_ts c' = master_ts s + 1 \<and>
    cr_aborted c' = le_aborted e \<and> cr_state c' = state\<lparr>st_stats := stats\<rparr> \<and> cr_kernel c' = k\<lparr>k_shared := s', k_anon := h'\<rparr> \<and>
    (le_aborted e \<longleftrightarrow> (\<exists>t d. txn_ts state < t \<and> t \<le> master_ts s \<and> entry_at s t = Some d \<and> blocks (le_ws e) d)) \<and>
    log_good s' \<and> master_ts s' = master_ts s + 1 \<and> commit_started_ts s' = master_ts s' \<and>
    entry_at s' (master_ts s + 1) = Some e \<and> ws_list (le_ws e) = own es \<and> le_ts e = master_ts s + 1 \<and>
    master_log_deleted_ts s' = master_log_deleted_ts s \<and>
    (\<forall>t. t \<noteq> master_ts s + 1 \<longrightarrow> map_option entry_view (entry_at s' t) = map_option entry_view (entry_at s t)) \<and>
    ws_ok st (st_workingset state) h' \<and>
    ws_shows (st_workingset state) h' (if le_aborted e then f else fold db_write (own es) f)"
proof -
  obtain lw' md where m: "sivfs_add_metadata_to_changes (ce_mm env) (t_owner state) (st_stats state) (k_anon k) lw = (OK, lw', md)"
      "ws_repr (le_ws lw') (map (\<lambda>(e, xs). (tag (ce_mm env) (k_anon k) (t_owner state) e, xs)) es)"
      "size_bytes (le_ws lw') = size_bytes (le_ws lw)" "md_locked md = []" "same_pages (k_anon k) (md_anon md)"
    using add_metadata_ok [OF assms(6-8), of "st_stats state"] by blast
  have own: "ws_list (le_ws lw') = own es" using ws_list_repr [OF m(2)] by (simp add: own_def comp_def case_prod_unfold)
  have formed: "ws_formed (le_ws lw')" using m(2) by (auto simp: ws_formed_def)
  have km: "kmalloc_ok s start (log_chunk_real (size_bytes (le_ws lw')))" using assms(18) m(3) by simp
  obtain s' e throttled where c: "sivfs_commit_changes False (Some start) True
        (latest_checkpoint_published (cw_checkpoints (k_cps k))) s (txn_ts state) lw' =
      (OK, master_ts s + 1, le_aborted e, throttled, s')"
      "le_aborted e \<longleftrightarrow> (\<exists>t d. txn_ts state < t \<and> t \<le> master_ts s \<and> entry_at s t = Some d \<and> blocks (le_ws lw') d)"
      "log_good s'" "master_ts s' = master_ts s + 1" "commit_started_ts s' = master_ts s'"
      "entry_at s' (master_ts s + 1) = Some e" "ws_list (le_ws e) = ws_list (le_ws lw')"
      "le_ts e = master_ts s + 1" "master_log_deleted_ts s' = master_log_deleted_ts s"
      "\<forall>t. t \<noteq> master_ts s + 1 \<longrightarrow> map_option entry_view (entry_at s' t) = map_option entry_view (entry_at s t)"
    using commit_changes_ok [OF assms(10-13) formed assms(14) km, of "latest_checkpoint_published (cw_checkpoints (k_cps k))"]
    by blast
  have blk: "blocks (le_ws e) d = blocks (le_ws lw') d" for d using c(7) by (simp add: blocks_def ws_conflict_def)
  have ok: "ws_ok st (st_workingset state) (md_anon md)" by (rule same_pages_ws_ok [OF m(5) assms(19)])
  have showing: "ws_shows (st_workingset state) (md_anon md) (fold db_write (own es) f)"
    using assms(20) same_pages_shows [OF m(5)] by simp
  obtain h1 where inv: "sivfs_invalidate_workingset_log (st_workingset state) lw' (md_anon md) = (OK, h1)"
      "ws_dropped st (st_workingset state) (own es) (md_anon md) h1"
    using invalidate_log_drops [OF m(2) ok] own by auto
  define h' where "h' = (if le_aborted e then h1 else md_anon md)"
  have ws: "ws_ok st (st_workingset state) h'" "ws_shows (st_workingset state) h' (if le_aborted e then f else fold db_write (own es) f)"
    using ok showing inv(2) dropped_shows [OF inv(2) assms(9), of f] by (auto simp: h'_def ws_dropped_def)
  define stats where "stats = (if throttled then stat_inc nWriteTxnsThrottledOnSS (md_stats md) else md_stats md)"
  have st: "(if throttled then state\<lparr>st_stats := stat_inc nWriteTxnsThrottledOnSS (md_stats md)\<rparr> else state\<lparr>st_stats := md_stats md\<rparr>) =
      state\<lparr>st_stats := stats\<rparr>" by (simp add: stats_def)
  define c' where "c' = c\<lparr>cr_state := state\<lparr>st_stats := stats\<rparr>, cr_log := Some lw',
      cr_kernel := k\<lparr>k_shared := s', k_anon := h'\<rparr>, cr_commit_ts := master_ts s + 1, cr_aborted := le_aborted e\<rparr>"
  have run: "commit_writes env c lw = (OK, c')"
    using m(1,4) c(1) inv(1) assms(5,15-17)
    by (cases "le_aborted e"; cases throttled) (simp_all add: commit_writes_def Let_def k_def state_def s_def h'_def stats_def c'_def)
  have conflict: "le_aborted e \<longleftrightarrow> (\<exists>t d. txn_ts state < t \<and> t \<le> master_ts s \<and> entry_at s t = Some d \<and> blocks (le_ws e) d)"
    unfolding blk by (rule c(2))
  have wr: "ws_list (le_ws e) = own es" using c(7) own by simp
  have "cr_commit_ts c' = master_ts s + 1" "cr_aborted c' = le_aborted e" "cr_state c' = state\<lparr>st_stats := stats\<rparr>"
    "cr_kernel c' = k\<lparr>k_shared := s', k_anon := h'\<rparr>" by (simp_all add: c'_def)
  with run conflict c(3-6) wr c(8-10) ws show ?thesis by blast
qed

lemma repr_not_empty:
  assumes "ws_repr ws es" and "es \<noteq> []"
  shows "\<not> sivfs_writeset_empty ws"
proof -
  obtain x xs where "es = x # xs" using assms(2) by (cases es) auto
  then have "0 < length (ws_encode es)" by (cases x) (simp add: wse_encode_def)
  moreover have "unat (size_bytes ws) = 8 * length (ws_encode es)" using assms(1) by (auto simp: ws_repr_def)
  ultimately show ?thesis by (auto simp: sivfs_writeset_empty_def)
qed

lemma room_for_ts:
  fixes t :: u64
  assumes "unat t + 2 < 2 ^ 64"
  shows "t \<noteq> SIVFS_INVALID_TS" "t + 1 \<noteq> 0" "t + 1 \<noteq> SIVFS_INVALID_TS"
proof -
  have "unat (t + 1) = unat t + 1" "unat (t + 2) = unat t + 2" using assms unat_add_u64 [of t 1] unat_add_u64 [of t 2] by auto
  then have nz: "t + 1 \<noteq> 0" "t + 2 \<noteq> 0" by auto
  moreover have "t = SIVFS_INVALID_TS \<Longrightarrow> t + 1 = 0" "t + 1 = SIVFS_INVALID_TS \<Longrightarrow> t + 2 = 0"
    by (simp_all add: SIVFS_INVALID_TS_def eq_neg_iff_add_eq_0 add.assoc)
  ultimately show "t \<noteq> SIVFS_INVALID_TS" "t + 1 \<noteq> 0" "t + 1 \<noteq> SIVFS_INVALID_TS" by blast+
qed

text \<open>The log after a commit, seen from the snapshot of the transaction.\<close>

lemma log_after_commit:
  assumes "log_good s" and "log_good s'" and "snap \<le> m" and "snap + 1 \<noteq> 0" and "m + 1 \<noteq> 0"
    and "\<forall>t. t \<noteq> m + 1 \<longrightarrow> map_option entry_view (entry_at s' t) = map_option entry_view (entry_at s t)"
    and "entry_at s' (m + 1) = Some e" and "ws_list (le_ws e) = own" and "list_all writable own"
    and "list_all log_entry_ok (log_between s snap m)"
  shows "log_between s' snap (m + 1) = log_between s' snap m @ [e]"
    and "list_all log_entry_ok (log_between s' snap m @ [e])"
    and "\<nexists>t d. snap < t \<and> t \<le> m \<and> entry_at s t = Some d \<and> blocks (le_ws e) d \<Longrightarrow>
      \<forall>d \<in> set (log_between s' snap m). \<not> blocks (le_ws e) d"
proof -
  have before: "\<exists>t e. snap < t \<and> t \<le> m \<and> entry_at s t = Some e \<and> entry_view e = entry_view d \<and> e \<in> set (log_between s snap m)"
    if "d \<in> set (log_between s' snap m)" for d
    by (rule committed_before [OF assms(1,2,4,5,6) that])
  have "log_entry_ok d" if "d \<in> set (log_between s' snap m)" for d
    using before [OF that] view_ok assms(10) unfolding list_all_iff by blast
  moreover have "\<exists>xs. ws_repr (le_ws e) xs" using assms(2,7) by (auto simp: log_good_def ws_formed_def)
  then have "log_entry_ok e" using assms(8,9) ws_list_repr by (fastforce simp: log_entry_ok_def list_all_iff)
  ultimately show "list_all log_entry_ok (log_between s' snap m @ [e])" by (simp add: list_all_iff)
  show "log_between s' snap (m + 1) = log_between s' snap m @ [e]" by (rule between_next [OF assms(2,3,5,7)])
  show "\<forall>d \<in> set (log_between s' snap m). \<not> blocks (le_ws e) d"
    if "\<nexists>t d. snap < t \<and> t \<le> m \<and> entry_at s t = Some d \<and> blocks (le_ws e) d"
    using before that view_ok by metis
qed

section \<open>An example: a mapping of file 5, and a write that conflicts\<close>

definition ex_mm :: mm_struct where
  "ex_mm = \<lparr>mm_vmas = [\<lparr>vm_start = 65536, vm_end = 131072, vm_pgoff = 0, vm_anonymous = False, vm_sb = True, vm_inode = 700\<rparr>],
     mm_pmd = (\<lambda>_. True), mm_i_size = (\<lambda>_. 65536)\<rparr>"

definition ex_raw_write :: sivfs_writeset_entry where
  "ex_raw_write = \<lparr>wse_ino = 0, wse_file_offset = 0, wse_address = 69640, wse_stream_control = 0, wse_value = 43\<rparr>"

definition ex_raw_log :: sivfs_log_entry where
  "ex_raw_log = sivfs_init_log_entry\<lparr>le_ws := \<lparr>capacity_bytes = 40, size_bytes = 40, entries = [0, 0, 69640, 0, 43]\<rparr>\<rparr>"

lemma ex_raw_repr: "ws_repr (le_ws ex_raw_log) [(ex_raw_write, [])]" "\<not> le_ws_has_metadata ex_raw_log" "\<not> le_aborted ex_raw_log"
  by (simp add: ws_repr_def wse_valid_def info_of_def ex_raw_write_def sivfs_wse_to_stream_info_def)
     (simp_all add: ex_raw_log_def wse_encode_def bytes_def sivfs_init_log_entry_def)

lemma ex_find: "sivfs_find_vma ex_mm (ex_anon mem) 7 69640 8 True = (OK, Some (hd (mm_vmas ex_mm)))"
  by (simp add: sivfs_find_vma_def find_vma_def ex_mm_def ex_anon_def)

lemma ex_acceptable: "acceptable ex_mm (ex_anon mem) 7 ex_raw_write"
  "tag ex_mm (ex_anon mem) 7 ex_raw_write = ex_raw_write\<lparr>wse_ino := 5, wse_file_offset := 4104\<rparr>"
  by (simp_all add: acceptable_def tag_def translate_def pte_or_no_table_def ex_raw_write_def ex_find)
     (simp_all add: ex_mm_def ex_anon_def vma_offset_def)

section \<open>Properties\<close>

text \<open>
  Addresses become file offsets.  When every address of the writeset lies in a mapping of a sivfs file of the current task, is
  word aligned and inside the file, and its page table entry is present if there is a page table,
  \<^verbatim>\<open>sivfs_add_metadata_to_changes\<close> succeeds, completes exactly the inode numbers and offsets of the entries, changes no page
  but for its dirty flag and holds no lock.
\<close>

theorem add_metadata_translates:
  assumes "ws_repr (le_ws lw) es" and "\<not> le_ws_has_metadata lw"
    and "\<forall>(e, _) \<in> set es. acceptable mm h current e"
  shows "\<exists>lw' md. sivfs_add_metadata_to_changes mm current stats h lw = (OK, lw', md) \<and>
    ws_list (le_ws lw') = map (tag mm h current) (ws_list (le_ws lw)) \<and>
    le_aborted lw' = le_aborted lw \<and> le_ws_has_metadata lw' \<and> md_locked md = [] \<and> same_pages h (md_anon md)"
  using add_metadata_ok [OF assms, of stats] ws_list_repr [OF assms(1)] ws_list_repr
  by (fastforce simp: comp_def case_prod_unfold)

theorem add_metadata_translates_witness:
  "\<exists>lw' md. sivfs_add_metadata_to_changes ex_mm 7 zero_stats (ex_anon (\<lambda>_. 0)) ex_raw_log = (OK, lw', md) \<and>
    ws_list (le_ws lw') = [ex_raw_write\<lparr>wse_ino := 5, wse_file_offset := 4104\<rparr>] \<and> md_locked md = []"
  using add_metadata_translates [OF ex_raw_repr(1,2), of ex_mm "ex_anon (\<lambda>_. 0)" 7 zero_stats] ex_acceptable
    ws_list_repr [OF ex_raw_repr(1)] by auto

lemma commit_update_moves:
  fixes env :: commit_env and state :: sivfs_state and k :: kernel and es :: "(sivfs_writeset_entry \<times> u64 list) list"
  defines "s \<equiv> k_shared k"
  defines "own \<equiv> map (\<lambda>(e, _). tag (ce_mm env) (k_anon k) (t_owner state) e) es"
  assumes "\<not> should_abort state" and "\<not> direct_access state" and "\<not> le_aborted lw" and "\<not> le_ws_has_metadata lw"
    and "ws_repr (le_ws lw) es" and "es \<noteq> []"
    and "\<forall>(e, _) \<in> set es. acceptable (ce_mm env) (k_anon k) (t_owner state) e" and "list_all writable own"
    and "log_good s" and "master_ts s = commit_started_ts s" and "txn_ts state \<le> master_ts s"
    and "master_log_deleted_ts s \<le> txn_ts state + 1" and "unat (master_ts s) + 2 < 2 ^ 64"
    and "list_all log_entry_ok (log_between s (txn_ts state) (master_ts s))"
    and "\<not> ce_signal env" and "ce_tree_ok env" and "ce_kmalloc env = Some start"
    and "kmalloc_ok s start (log_chunk_real (size_bytes (le_ws lw)))"
    and "allocated_chunks state = []" and "alloc_chunks_to_free state = []"
    and "latest_cp_ts (cw_checkpoints (k_cps k)) \<noteq> SIVFS_INVALID_TS" and "latest_cp_checkpoint (cw_checkpoints (k_cps k)) \<noteq> 0"
    and "ws_ok (cw_store (k_cps k)) (st_workingset state) (k_anon k)"
    and "ws_shows (st_workingset state) (k_anon k) (fold db_write own f)"
  shows "\<exists>c e s' h'. my_sivfs_commit_update env 0 (Some lw) state k = (OK, c) \<and>
    cr_kernel c = k\<lparr>k_shared := s', k_anon := h'\<rparr> \<and> log_good s' \<and> master_ts s' = master_ts s + 1 \<and>
    entry_at s' (master_ts s + 1) = Some e \<and> ws_list (le_ws e) = own \<and> cr_aborted c = le_aborted e \<and>
    (\<forall>t. t \<noteq> master_ts s + 1 \<longrightarrow> map_option entry_view (entry_at s' t) = map_option entry_view (entry_at s t)) \<and>
    (cr_aborted c \<longleftrightarrow> (\<exists>t d. txn_ts state < t \<and> t \<le> master_ts s \<and> entry_at s t = Some d \<and> blocks (le_ws e) d)) \<and>
    txn_ts (cr_state c) = master_ts s' \<and>
    st_checkpoint_ts (cr_state c) = latest_cp_ts (cw_checkpoints (k_cps k)) \<and>
    st_prior_checkpoint_ts (cr_state c) = latest_cp_ts (cw_checkpoints (k_cps k)) \<and>
    ws_ok (cw_store (k_cps k)) (st_workingset state) h' \<and>
    ws_shows (st_workingset state) h' (db_apply (log_between s' (txn_ts state) (master_ts s')) f)"
proof -
  define state0 where "state0 = state\<lparr>should_abort := False\<rparr>"
  define c0 where "c0 = \<lparr>cr_aborted = False, cr_commit_ts = SIVFS_INVALID_TS, cr_state = state0, cr_log = Some lw, cr_kernel = k\<rparr>"
  have sel: "cr_aborted c0 = False" "cr_kernel c0 = k" "cr_state c0 = state0" "txn_ts state0 = txn_ts state"
    "t_owner state0 = t_owner state" "st_workingset state0 = st_workingset state" "k_shared k = s"
    by (simp_all add: c0_def state0_def s_def)
  let ?m = "master_ts s" and ?T = "txn_ts state"
  have room: "?m + 1 \<noteq> 0" "?m + 1 \<noteq> SIVFS_INVALID_TS" using room_for_ts [OF assms(15)] by auto
  have T: "?T \<noteq> SIVFS_INVALID_TS" "?T + 1 \<noteq> 0" using room_for_ts [of ?T] assms(13,15) by (auto simp: word_le_nat_alt)
  have not_aborted: "\<not> False" by simp
  obtain c1 s' e stats h1 where c1: "commit_writes env c0 lw = (OK, c1)" "cr_commit_ts c1 = ?m + 1"
      "cr_aborted c1 = le_aborted e" "cr_state c1 = state0\<lparr>st_stats := stats\<rparr>"
      "cr_kernel c1 = k\<lparr>k_shared := s', k_anon := h1\<rparr>"
      "le_aborted e \<longleftrightarrow> (\<exists>t d. ?T < t \<and> t \<le> ?m \<and> entry_at s t = Some d \<and> blocks (le_ws e) d)"
      "log_good s'" "master_ts s' = ?m + 1" "commit_started_ts s' = master_ts s'"
      "entry_at s' (?m + 1) = Some e" "ws_list (le_ws e) = own" "le_ts e = ?m + 1"
      "master_log_deleted_ts s' = master_log_deleted_ts s"
      "\<forall>t. t \<noteq> ?m + 1 \<longrightarrow> map_option entry_view (entry_at s' t) = map_option entry_view (entry_at s t)"
      "ws_ok (cw_store (k_cps k)) (st_workingset state) h1"
      "ws_shows (st_workingset state) h1 (if le_aborted e then f else fold db_write own f)"
    using commit_writes_ok [of c0 lw es env start "cw_store (k_cps k)" f, unfolded sel, folded own_def,
        OF not_aborted assms(7,6,9-15,17-20,25,26)]
    by (elim exE conjE) (rule that)
  note after = log_after_commit [OF assms(11) c1(7) assms(13) T(2) room(1) c1(14,10,11) assms(10,16)]
  have btw: "log_between s' ?T (master_ts s') = log_between s' ?T ?m @ [e]" using after(1) c1(8) by simp
  have okall: "list_all log_entry_ok (log_between s' ?T (master_ts s'))" unfolding btw by (rule after(2))
  have le: "?T \<le> master_ts s'" using assms(13) c1(8) less_inc_iff [OF room(1), of ?T] by simp
  obtain c2 h2 where c2: "update_snapshot env 0 c1 = (OK, c2)" "cr_aborted c2 = cr_aborted c1"
      "cr_kernel c2 = cr_kernel c1\<lparr>k_anon := h2\<rparr>"
      "ws_advance (cw_store (k_cps k)) (st_workingset state)
        (log_writes (filter (\<lambda>e. le_ts e \<noteq> ?m + 1) (log_between s' ?T (master_ts s')))) h1 h2"
      "txn_ts (cr_state c2) = master_ts s'" "st_checkpoint_ts (cr_state c2) = latest_cp_ts (cw_checkpoints (k_cps k))"
      "st_prior_checkpoint_ts (cr_state c2) = latest_cp_ts (cw_checkpoints (k_cps k))"
  proof -
    have sel1: "allocated_chunks (cr_state c1) = []" "alloc_chunks_to_free (cr_state c1) = []" "\<not> direct_access (cr_state c1)"
      "txn_ts (cr_state c1) = ?T" "st_workingset (cr_state c1) = st_workingset state" "k_cps (cr_kernel c1) = k_cps k"
      "k_shared (cr_kernel c1) = s'" "k_anon (cr_kernel c1) = h1"
      using c1(4,5) assms(4,21,22) by (simp_all add: state0_def)
    have "master_log_deleted_ts s' \<le> ?T + 1" "master_ts s' \<noteq> SIVFS_INVALID_TS" "master_ts s' \<le> commit_started_ts s'"
      using assms(14) c1(8,9,13) room(2) by simp_all
    note snap = update_snapshot_ok [of c1 env, unfolded sel1, OF refl refl assms(23,24) c1(7,15) _ T(1) this(2) le this(3,1) okall]
    show ?thesis using snap sel1(3) c1(2) that by auto
  qed
  have skip: "filter (\<lambda>e. le_ts e \<noteq> ?m + 1) (log_between s' ?T (master_ts s')) = log_between s' ?T ?m"
    using log_between_split_filter [OF log_good_run [OF c1(7)] btw] c1(12) by simp
  have wr: "list_all writable (log_writes (log_between s' ?T ?m))"
    using after(2) by (intro log_writes_writable) simp
  have "ws_shows (st_workingset state) h2 (fold db_write (log_writes (log_between s' ?T ?m)) (if le_aborted e then f else fold db_write own f))"
    by (rule ws_advance_shows [OF c2(4) [unfolded skip] wr c1(16)])
  moreover have "fold db_write (log_writes (log_between s' ?T ?m)) (if le_aborted e then f else fold db_write own f) =
      db_apply (log_between s' ?T (master_ts s')) f"
  proof (cases "le_aborted e")
    case True
    then show ?thesis unfolding btw by (simp add: db_apply_writes)
  next
    case False
    then have "\<forall>d \<in> set (log_between s' ?T ?m). \<not> blocks (le_ws e) d" using after(3) c1(6) by blast
    from own_commit_database [OF after(2) False this, of f] show ?thesis using False c1(11) unfolding btw by simp
  qed
  ultimately have showing: "ws_shows (st_workingset state) h2 (db_apply (log_between s' ?T (master_ts s')) f)" by simp
  have "\<not> sivfs_writeset_empty (le_ws lw)" using repr_not_empty [OF assms(7,8)] .
  then have "my_sivfs_commit_update env 0 (Some lw) state k = (OK, c2)"
    using assms(3,5) c1(1) c2(1) by (simp add: my_sivfs_commit_update_def c0_def state0_def)
  moreover have "cr_kernel c2 = k\<lparr>k_shared := s', k_anon := h2\<rparr>" using c2(3) c1(5) by simp
  ultimately show ?thesis
    using c1(3,6-8,10,11,14) c2(2,5-7) ws_advance_ok [OF c2(4)] showing by metis
qed


definition ex_kernel :: kernel where
  "ex_kernel = \<lparr>k_shared = ex_log, k_cps = ex_cps ex_boot, k_anon = ex_anon ((\<lambda>_. 0)(1 := 43)), k_alloc = boot_heap, k_locked = []\<rparr>"

definition ex_env :: commit_env where
  "ex_env = \<lparr>ce_mm = ex_mm, ce_signal = False, ce_kmalloc = Some 8192, ce_tree_ok = True, ce_fuel = 0\<rparr>"


end
