(* ===== verification/Page_Fault.thy ===== *)
theory Page_Fault
  imports Commit_Update
begin

text \<open>
  The page faults of a task, \<^verbatim>\<open>kern/inode.c\<close>: \<^verbatim>\<open>sivfs_fault\<close>, its fast path \<^verbatim>\<open>sivfs_fault_checkpoint\<close> that maps a page
  of the checkpoint, and \<^verbatim>\<open>sivfs_mkwrite\<close>, which turns the first write to such a page into a fault that copies it;
  with \<^verbatim>\<open>sivfs_lock_cp_page\<close> and \<^verbatim>\<open>sivfs_get_cp_page\<close> of \<^verbatim>\<open>kern/sivfs_checkpoints.c\<close> and the dirty and write-back callbacks.

  The configuration is \<^verbatim>\<open>SIVFS_FIGURE_YES_CHECKOUT_CP_PAGES\<close> and \<^verbatim>\<open>SIVFS_FIGURE_NO_CHECKOUT_CPS\<close>, in which
  \<^verbatim>\<open>sivfs_try_checkout_checkpoint\<close> returns at once and checks nothing out.  The kernel's part of a fault is a parameter or
  documented behaviour: whether a page cache page can be allocated, added and locked are fields of \<open>fault_env\<close>, and
  a handler that returns a page has it mapped by the kernel (\<open>install_page\<close>).  Locks and reference counts of
  single pages are not modelled.
\<close>

section \<open>The code\<close>

text \<open>
  The results of a fault handler.  \<open>VM_FAULT_NONE\<close> is 0; \<open>VM_UNDEFINED\<close> stands for undefined behaviour or a call that never
  returns.
\<close>

datatype vm_ret = VM_FAULT_NONE | VM_FAULT_SIGBUS | VM_FAULT_LOCKED | VM_FAULT_RETRY | VM_FAULT_NOPAGE
  | VM_UNDEFINED

definition fault_of_rc :: "rc \<Rightarrow> vm_ret" where
  "fault_of_rc r = (case r of OK \<Rightarrow> VM_FAULT_NONE | E _ \<Rightarrow> VM_FAULT_SIGBUS | _ \<Rightarrow> VM_UNDEFINED)"

text \<open>\<^verbatim>\<open>(ret & VM_FAULT_ERROR) || (ret & VM_FAULT_RETRY)\<close>.\<close>

definition fault_stops :: "vm_ret \<Rightarrow> bool" where
  "fault_stops ret \<longleftrightarrow> ret \<in> {VM_FAULT_SIGBUS, VM_FAULT_RETRY, VM_UNDEFINED}"

text \<open>\<open>vf_write_bit\<close> is \<^verbatim>\<open>vmf->flags & VM_FAULT_WRITE\<close>; \<open>vf_page\<close> is the page that is mapped when \<^verbatim>\<open>sivfs_mkwrite\<close> is called.\<close>

record vm_fault =
  vf_pgoff :: u64
  vf_address :: u64
  vf_write_bit :: bool
  vf_page :: u64

text \<open>
  What the kernel answers: \<open>fe_alloc\<close> is the result of \<^verbatim>\<open>page_cache_alloc\<close> with the contents of the new page, \<open>fe_cache_ok\<close> that of
  \<^verbatim>\<open>add_to_page_cache_lru\<close>, \<open>fe_trylock\<close> that of \<^verbatim>\<open>trylock_page\<close>, \<open>fe_same_mapping\<close> whether the page still belongs to the mapping,
  \<open>fe_radix_ok\<close> whether a radix tree node can be allocated, \<open>fe_cp_mapped\<close> is \<^verbatim>\<open>sivfs_checkpoint_mapped\<close>, \<open>fe_mkwrite\<close> is the
  result of \<^verbatim>\<open>filemap_page_mkwrite\<close>, which marks the page dirty when it succeeds.
\<close>

record fault_env =
  fe_alloc :: "(u64 \<times> page_mem) option"
  fe_cache_ok :: bool
  fe_trylock :: bool
  fe_same_mapping :: bool
  fe_radix_ok :: bool
  fe_cp_mapped :: bool
  fe_mkwrite :: vm_ret

definition sivfs_lock_cp_page :: "mmu \<Rightarrow> cp_world \<Rightarrow> u64 \<Rightarrow> u64 \<Rightarrow> u64 \<Rightarrow> vm_ret \<times> u64" where
  "sivfs_lock_cp_page m w checkpoint file_ino file_offset =
     (if checkpoint = 0 then (VM_FAULT_SIGBUS, 0)
      else case cw_inodes w checkpoint of
        None \<Rightarrow> (VM_UNDEFINED, 0)
      | Some cpinfo \<Rightarrow>
          (case sivfs_checkpoint_traverse m (cw_store w) (cp_root cpinfo) file_ino file_offset of
             (OK, cp_page) \<Rightarrow> if cp_page = 0 then (VM_FAULT_NONE, 0) else (VM_FAULT_LOCKED, cp_page)
           | (r, _) \<Rightarrow> (fault_of_rc r, 0)))"

definition sivfs_get_cp_page :: "mmu \<Rightarrow> cp_world \<Rightarrow> u64 \<Rightarrow> u64 \<Rightarrow> u64 \<Rightarrow> vm_ret \<times> u64" where
  "sivfs_get_cp_page m w checkpoint file_ino file_offset =
     (if checkpoint = 0 then (VM_FAULT_SIGBUS, 0)
      else case cw_inodes w checkpoint of
        None \<Rightarrow> (VM_UNDEFINED, 0)
      | Some cpinfo \<Rightarrow>
          (case sivfs_checkpoint_traverse m (cw_store w) (cp_root cpinfo) file_ino file_offset of
             (OK, cp_page) \<Rightarrow> (VM_FAULT_NONE, cp_page)
           | (r, _) \<Rightarrow> (fault_of_rc r, 0)))"

text \<open>Under direct access a page that is missing or zero is made first, and the fault is taken again.\<close>

definition fault_direct ::
  "mmu \<Rightarrow> cp_world \<Rightarrow> sivfs_state \<Rightarrow> u64 \<Rightarrow> u64 \<Rightarrow> u64 \<Rightarrow> (vm_ret \<times> cp_world) option" where
  "fault_direct m w state ino file_offset cp_page =
     (if direct_access state \<and> (cp_page = 0 \<or> sivfs_is_zero_page (cw_store w) cp_page)
      then (case sivfs_prepare_direct_access_page m w (st_checkpoint state) ino file_offset of
              (OK, w1) \<Rightarrow> Some (VM_FAULT_RETRY, w1)
            | (r, w1) \<Rightarrow> Some (fault_of_rc r, w1))
      else None)"

definition register_cp_page :: "fault_env \<Rightarrow> u64 \<Rightarrow> anon_inode \<Rightarrow> vm_ret \<times> anon_inode" where
  "register_cp_page env pgoff mp =
     (case ai_info mp of
        None \<Rightarrow> (VM_FAULT_SIGBUS, mp)
      | Some iinfo \<Rightarrow>
          (case sivfs_radix_tree_set (fe_radix_ok env) (ii_checkpoint_pages iinfo) pgoff () of
             (r, t) \<Rightarrow> (fault_of_rc r, mp\<lparr>ai_info := Some (iinfo\<lparr>ii_checkpoint_pages := t\<rparr>)\<rparr>)))"

definition sivfs_fault_checkpoint ::
  "mmu \<Rightarrow> fault_env \<Rightarrow> sivfs_shared_state \<Rightarrow> sivfs_state \<Rightarrow> u64 \<Rightarrow> u64 \<Rightarrow> cp_world \<Rightarrow> anon_inode \<Rightarrow>
   vm_ret \<times> u64 \<times> cp_world \<times> anon_inode" where
  "sivfs_fault_checkpoint m env s state ino pgoff w mp =
     (let file_offset = push_bit 12 pgoff; checkpoint = st_checkpoint state in
      if txn_ts state = SIVFS_INVALID_TS then (VM_FAULT_SIGBUS, 0, w, mp)
      else if checkpoint = 0 then (VM_FAULT_SIGBUS, 0, w, mp)
      else case cw_inodes w checkpoint of
        None \<Rightarrow> (VM_UNDEFINED, 0, w, mp)
      | Some cpinfo \<Rightarrow>
          (case sivfs_find_first_write s (cp_ts cpinfo) (txn_ts state) ino file_offset (file_offset + PAGE_SIZE) of
             (OK, first_modifier) \<Rightarrow>
               if first_modifier \<noteq> SIVFS_INVALID_TS then (VM_FAULT_NONE, 0, w, mp)
               else if radix_tree_lookup (ai_pages mp) pgoff \<noteq> None then (VM_FAULT_NONE, 0, w, mp)
               else (case sivfs_lock_cp_page m w checkpoint ino file_offset of
                       (ret, cp_page) \<Rightarrow>
                         if fault_stops ret then (ret, 0, w, mp)
                         else if cp_page \<noteq> 0 \<and> \<not> sivfs_is_checkpoint_page (cw_store w) cp_page
                         then (VM_FAULT_SIGBUS, 0, w, mp)
                         else (case fault_direct m w state ino file_offset cp_page of
                                 Some (ret1, w1) \<Rightarrow> (ret1, 0, w1, mp)
                               | None \<Rightarrow>
                                   if cp_page = 0 then (ret, 0, w, mp)
                                   else (case register_cp_page env pgoff mp of
                                           (ret1, mp1) \<Rightarrow>
                                             if ret1 \<noteq> VM_FAULT_NONE then (ret1, 0, w, mp1)
                                             else (ret, cp_page, w, mp1))))
           | (r, _) \<Rightarrow> (fault_of_rc r, 0, w, mp)))"

definition sivfs_check_state_current :: "u64 \<Rightarrow> u64 \<Rightarrow> rc" where
  "sivfs_check_state_current current state =
     (if current = 0 then E EINVAL else if state \<noteq> current then E EINVAL else OK)"

text \<open>Finding or adding the page of the working set; \<open>Inl\<close> is an early return.\<close>

definition fault_cache_page ::
  "fault_env \<Rightarrow> u64 \<Rightarrow> anon_inode \<Rightarrow> vm_ret + ws_page \<times> anon_inode" where
  "fault_cache_page env pgoff mp =
     (case radix_tree_lookup (ai_pages mp) pgoff of
        None \<Rightarrow>
          (case fe_alloc env of
             None \<Rightarrow> Inl VM_FAULT_SIGBUS
           | Some (page, mem) \<Rightarrow>
               if \<not> fe_cache_ok env then Inl VM_FAULT_SIGBUS
               else let pg = \<lparr>wp_addr = page, wp_mem = mem, wp_dirty = False, wp_uptodate = False\<rparr>
                    in Inr (pg, mp\<lparr>ai_pages := snd (radix_tree_insert True (ai_pages mp) pgoff pg)\<rparr>))
      | Some pg \<Rightarrow>
          if \<not> fe_trylock env then Inl VM_FAULT_RETRY
          else if \<not> fe_same_mapping env then Inl VM_FAULT_RETRY
          else if \<not> wp_uptodate pg then Inl VM_FAULT_SIGBUS
          else Inr (pg, mp))"

definition set_cache_page :: "u64 \<Rightarrow> ws_page \<Rightarrow> anon_inode \<Rightarrow> anon_inode" where
  "set_cache_page pgoff pg mp = mp\<lparr>ai_pages := map (\<lambda>(p, x). (p, if p = pgoff then pg else x)) (ai_pages mp)\<rparr>"

text \<open>Filling a new page, by copying the page of the checkpoint or by applying the log to it.\<close>

definition fault_fill ::
  "mmu \<Rightarrow> sivfs_shared_state \<Rightarrow> cp_world \<Rightarrow> sivfs_state \<Rightarrow> u64 \<Rightarrow> u64 \<Rightarrow> u64 \<Rightarrow> page_mem \<Rightarrow> rc \<times> page_mem" where
  "fault_fill m s w state ino pgoff cp_page mem =
     (if cp_page \<noteq> 0
      then (case cps_pages (cw_store w) cp_page of None \<Rightarrow> (UB, mem) | Some p \<Rightarrow> (OK, page_mem p))
      else my_sivfs_update_page m w s (txn_ts state) (st_checkpoint state) mem ino (push_bit 12 pgoff))"

definition fault_evict :: "u64 \<Rightarrow> anon_inode \<Rightarrow> anon_inode" where
  "fault_evict pgoff mp =
     (case Option.bind (ai_info mp) (\<lambda>iinfo. radix_tree_lookup (ii_checkpoint_pages iinfo) pgoff) of
        Some (Ptr _) \<Rightarrow>
          (let mp1 = sivfs_unmap_page_range mp (PAGE_ROUND_DOWN (push_bit 12 pgoff)) PAGE_SIZE in
           mp1\<lparr>ai_info := map_option (\<lambda>iinfo. iinfo\<lparr>ii_checkpoint_pages :=
             radix_tree_delete (ii_checkpoint_pages iinfo) pgoff\<rparr>) (ai_info mp1)\<rparr>)
      | _ \<Rightarrow> mp)"

definition fault_workingset ::
  "mmu \<Rightarrow> fault_env \<Rightarrow> sivfs_shared_state \<Rightarrow> cp_world \<Rightarrow> sivfs_state \<Rightarrow> u64 \<Rightarrow> u64 \<Rightarrow> u64 \<Rightarrow> anon_inode \<Rightarrow>
   vm_ret \<times> u64 \<times> anon_inode" where
  "fault_workingset m env s w state ino pgoff cp_page mp =
     (let mp1 = fault_evict pgoff mp in
      case fault_cache_page env pgoff mp1 of
        Inl ret \<Rightarrow> (ret, 0, mp1)
      | Inr (pg, mp2) \<Rightarrow>
          if wp_uptodate pg then (VM_FAULT_LOCKED, wp_addr pg, mp2)
          else (case fault_fill m s w state ino pgoff cp_page (wp_mem pg) of
                  (r, mem) \<Rightarrow>
                    if r \<noteq> OK then (fault_of_rc r, 0, set_cache_page pgoff (pg\<lparr>wp_mem := mem\<rparr>) mp2)
                    else (VM_FAULT_LOCKED, wp_addr pg, set_cache_page pgoff (pg\<lparr>wp_mem := mem, wp_uptodate := True\<rparr>) mp2)))"

text \<open>
  The handler.  \<open>current\<close> identifies the current task and \<open>a\<close> is the address of the inode of the mapping; the result carries
  \<^verbatim>\<open>vmf->page\<close>.
\<close>

definition bump :: "stat \<Rightarrow> sivfs_state \<Rightarrow> sivfs_state" where
  "bump x state = state\<lparr>st_stats := stat_inc x (st_stats state)\<rparr>"

definition sivfs_fault ::
  "mmu \<Rightarrow> fault_env \<Rightarrow> u64 \<Rightarrow> u64 \<Rightarrow> vm_fault \<Rightarrow> sivfs_state \<Rightarrow> kernel \<Rightarrow> vm_ret \<times> u64 \<times> sivfs_state \<times> kernel" where
  "sivfs_fault m env current a vmf state k =
     (case k_anon k a of
        None \<Rightarrow> (VM_UNDEFINED, 0, state, k)
      | Some mp \<Rightarrow>
          (case ai_info mp of
             None \<Rightarrow> (VM_FAULT_SIGBUS, 0, state, k)
           | Some iinfo \<Rightarrow>
               if ii_state iinfo = 0 then (VM_FAULT_SIGBUS, 0, state, k)
               else if sivfs_check_state_current current (ii_state iinfo) \<noteq> OK then (VM_FAULT_SIGBUS, 0, state, k)
               else
                 let ino = ii_backing_ino iinfo; initial_write = vf_write_bit vmf;
                     state1 = (if initial_write then bump nCoWCPPagesInitialWrite state else state)
                 in if ii_checkpoint_checked_out iinfo then (VM_FAULT_SIGBUS, 0, state1, k)
                 else case sivfs_fault_checkpoint m env (k_shared k) state1 ino (vf_pgoff vmf) (k_cps k) mp of
                   (ret, cp_page, w1, mp1) \<Rightarrow>
                     let k1 = k\<lparr>k_cps := w1, k_anon := (k_anon k)(a \<mapsto> mp1)\<rparr> in
                     if fault_stops ret then (ret, 0, state1, k1)
                     else
                       let cow_cp_page = cp_page_to_cow state1;
                           should_cow_cp_page = (cow_cp_page = cp_page);
                           state2 = state1\<lparr>cp_page_to_cow := 0\<rparr>;
                           state3 = (if should_cow_cp_page then bump nCoWCPPagesMkwrite state2 else state2)
                       in if direct_access state3 then
                            if cp_page = 0 \<or> should_cow_cp_page \<or> sivfs_is_zero_page (cw_store w1) cp_page
                            then (VM_FAULT_SIGBUS, 0, state3, k1)
                            else (ret, cp_page, bump nPgFaults (bump nCheckoutCPPages state3), k1)
                          else if cp_page \<noteq> 0 \<and> \<not> initial_write \<and> \<not> should_cow_cp_page
                          then (ret, cp_page, bump nPgFaults (bump nCheckoutCPPages state3), k1)
                          else case fault_workingset m env (k_shared k) w1 state3 ino (vf_pgoff vmf) cp_page mp1 of
                            (ret1, page, mp2) \<Rightarrow>
                              (ret1, page, if ret1 = VM_FAULT_LOCKED then bump nPgFaults state3 else state3,
                               k1\<lparr>k_anon := (k_anon k1)(a \<mapsto> mp2)\<rparr>)))"

text \<open>The kernel maps the page a handler returns.\<close>

definition install_page :: "u64 \<Rightarrow> u64 \<Rightarrow> anon_inode \<Rightarrow> anon_inode" where
  "install_page pgoff page mp = mp\<lparr>ai_ptes := (ai_ptes mp)(pgoff \<mapsto> page)\<rparr>"

text \<open>Setting a page dirty; the result says whether it was clean.  The warnings of the function have no effect.\<close>

definition sivfs_set_page_dirty :: "ws_page \<Rightarrow> bool \<times> ws_page" where
  "sivfs_set_page_dirty pg = (\<not> wp_dirty pg, pg\<lparr>wp_dirty := True\<rparr>)"

definition dirty_page :: "u64 \<Rightarrow> anon_inode \<Rightarrow> anon_inode" where
  "dirty_page page mp = mp\<lparr>ai_pages := map (\<lambda>(p, pg). (p, if wp_addr pg = page then snd (sivfs_set_page_dirty pg) else pg)) (ai_pages mp)\<rparr>"

definition linear_page_index :: "vm_area \<Rightarrow> u64 \<Rightarrow> u64" where
  "linear_page_index vma address = drop_bit 12 (address - vm_start vma) + vm_pgoff vma"

definition sivfs_mkwrite ::
  "fault_env \<Rightarrow> u64 \<Rightarrow> vm_area \<Rightarrow> vm_fault \<Rightarrow> sivfs_state \<Rightarrow> kernel \<Rightarrow> vm_ret \<times> sivfs_state \<times> kernel" where
  "sivfs_mkwrite env current vma vmf state k =
     (case k_anon k (vm_inode vma) of
        None \<Rightarrow> (VM_UNDEFINED, state, k)
      | Some mp \<Rightarrow>
          (case ai_info mp of
             None \<Rightarrow> (VM_FAULT_SIGBUS, state, k)
           | Some iinfo \<Rightarrow>
               if ii_state iinfo = 0 then (VM_FAULT_SIGBUS, state, k)
               else if sivfs_check_state_current current (ii_state iinfo) \<noteq> OK then (VM_FAULT_SIGBUS, state, k)
               else if cp_page_to_cow state \<noteq> 0 then (VM_FAULT_SIGBUS, state, k)
               else if direct_access state then
                 if \<not> sivfs_is_checkpoint_page (cw_store (k_cps k)) (vf_page vmf) then (VM_FAULT_SIGBUS, state, k)
                 else (VM_FAULT_LOCKED, state, k)
               else
                 let pgoff = linear_page_index vma (vf_address vmf); file_offset = push_bit 12 pgoff;
                     page = vf_page vmf;
                     put = (\<lambda>mp. k\<lparr>k_anon := (k_anon k)(vm_inode vma \<mapsto> mp)\<rparr>)
                 in if fe_cp_mapped env then
                      let mp1 = sivfs_unmap_page_range mp (PAGE_ROUND_DOWN file_offset) PAGE_SIZE in
                      if \<not> ii_checkpoint_checked_out iinfo then (VM_FAULT_SIGBUS, state, put mp1)
                      else (VM_FAULT_NOPAGE, state\<lparr>cp_page_to_cow := page\<rparr>,
                            put (mp1\<lparr>ai_info := Some (iinfo\<lparr>ii_checkpoint_checked_out := False\<rparr>)\<rparr>))
                    else if sivfs_is_checkpoint_page (cw_store (k_cps k)) page then
                      let mp1 = sivfs_unmap_page_range mp file_offset PAGE_SIZE in
                      (VM_FAULT_NOPAGE, state\<lparr>cp_page_to_cow := page\<rparr>,
                       put (mp1\<lparr>ai_info := Some (iinfo\<lparr>ii_checkpoint_pages :=
                         radix_tree_delete (ii_checkpoint_pages iinfo) pgoff\<rparr>)\<rparr>))
                    else (fe_mkwrite env, state,
                          if fe_mkwrite env = VM_FAULT_LOCKED then put (dirty_page page mp) else k)))"

text \<open>
  The write-back callback.  The four flags are \<^verbatim>\<open>PagePrivate\<close>, \<^verbatim>\<open>PageReclaim\<close>, \<^verbatim>\<open>PageWriteback\<close> and \<^verbatim>\<open>wbc->for_reclaim\<close>; the result
  is \<open>Inl\<close> an error or the page, returned with \<^verbatim>\<open>AOP_WRITEPAGE_ACTIVATE\<close>.
\<close>

definition sivfs_writepage :: "cp_store \<Rightarrow> bool \<Rightarrow> bool \<Rightarrow> bool \<Rightarrow> bool \<Rightarrow> ws_page \<Rightarrow> errno + ws_page" where
  "sivfs_writepage st private reclaim writeback for_reclaim pg =
     (if wp_dirty pg then Inl EINVAL
      else if sivfs_is_checkpoint_page st (wp_addr pg) then Inl EINVAL
      else if private then Inl EINVAL
      else if \<not> wp_uptodate pg then Inl EINVAL
      else if \<not> reclaim then Inl EINVAL
      else if writeback then Inl EINVAL
      else if \<not> for_reclaim then Inl EINVAL
      else Inr (snd (sivfs_set_page_dirty pg)))"

section \<open>The snapshot a task reads\<close>

text \<open>
  \<open>at_snapshot m s w state f i off\<close>: the task is in a transaction, has a checkpoint checked out that is not newer than its
  snapshot, the log still has what came after it, and the page at \<open>off\<close> of file \<open>i\<close> is that of \<open>f\<close> at the snapshot: the page of the
  checkpoint with the log applied to it.
\<close>

definition at_snapshot :: "mmu \<Rightarrow> sivfs_shared_state \<Rightarrow> cp_world \<Rightarrow> sivfs_state \<Rightarrow> database \<Rightarrow> u64 \<Rightarrow> u64 \<Rightarrow> bool" where
  "at_snapshot m s w state f i off \<longleftrightarrow> cp_addressable i off \<and> txn_ts state \<noteq> SIVFS_INVALID_TS \<and> st_checkpoint state \<noteq> 0 \<and> log_good s \<and>
     txn_ts state \<le> commit_started_ts s \<and>
     (\<exists>ci g. cw_inodes w (st_checkpoint state) = Some ci \<and> cp_ts ci \<le> txn_ts state \<and>
        master_log_deleted_ts s \<le> cp_ts ci + 1 \<and> list_all log_entry_ok (log_between s (cp_ts ci) (txn_ts state)) \<and>
        (\<forall>mem. sivfs_read_checkpoint m (cw_store w) mem PAGE_SIZE (Some ci) i off = (OK, g (cp_path i off))) \<and>
        f = db_apply (log_between s (cp_ts ci) (txn_ts state)) g)"

lemma page_start: "push_bit 12 (p :: u64) mod PAGE_SIZE = 0"
proof -
  have "push_bit 12 p mod PAGE_SIZE = take_bit 12 (push_bit 12 p)" by (simp add: PAGE_SIZE_def take_bit_eq_mod)
  then show ?thesis by (simp add: take_bit_push_bit)
qed

lemma update_page_at_snapshot:
  assumes "at_snapshot m s w state f i (push_bit 12 p)"
  shows "my_sivfs_update_page m w s (txn_ts state) (st_checkpoint state) mem i (push_bit 12 p) = (OK, f (cp_path i (push_bit 12 p)))"
proof -
  obtain ci g where c: "cw_inodes w (st_checkpoint state) = Some ci" "cp_ts ci \<le> txn_ts state"
      "master_log_deleted_ts s \<le> cp_ts ci + 1" "list_all log_entry_ok (log_between s (cp_ts ci) (txn_ts state))"
      "f = db_apply (log_between s (cp_ts ci) (txn_ts state)) g"
      "\<And>mem. sivfs_read_checkpoint m (cw_store w) mem PAGE_SIZE (Some ci) i (push_bit 12 p) = (OK, g (cp_path i (push_bit 12 p)))"
    using assms unfolding at_snapshot_def by blast
  have s: "log_good s" "txn_ts state \<le> commit_started_ts s" "txn_ts state \<noteq> SIVFS_INVALID_TS" "st_checkpoint state \<noteq> 0" "cp_addressable i (push_bit 12 p)"
    using assms(1) by (simp_all add: at_snapshot_def)
  show ?thesis unfolding c(5)
    by (rule update_page_snapshot [where f = g, OF s(1) c(3) s(2) c(4) s(3) page_start s(5,4) c(1,2,6)])
qed

lemma read_checkpoint_page:
  assumes "sivfs_read_checkpoint m st mem PAGE_SIZE (Some ci) i off = (OK, x)"
  shows "\<exists>p. sivfs_checkpoint_traverse m st (cp_root ci) i off = (OK, p) \<and>
    (p \<noteq> 0 \<longrightarrow> (\<exists>pg. cps_pages st p = Some pg \<and> page_mem pg = x))"
  using assms by (auto simp: sivfs_read_checkpoint_def split: if_splits prod.splits rc.splits option.splits)

text \<open>A page no transaction after the checkpoint has written to is the same at the snapshot.\<close>

lemma page_bounds:
  assumes "cp_addressable i off" and "off mod PAGE_SIZE = 0"
  shows "unat off mod 4096 = 0" "unat (off + PAGE_SIZE) = unat off + 4096" "off < off + PAGE_SIZE"
proof -
  have "unat off div 4096 < 2 ^ 27" using assms(1) by (simp add: cp_addressable_def PAGE_SIZE_def unat_div)
  then have small: "unat off + 4096 < 2 ^ 64" by simp
  have "unat (off mod 4096) = 0" using assms(2) by (simp add: PAGE_SIZE_def)
  then show "unat off mod 4096 = 0" by (simp add: unat_mod)
  show sum: "unat (off + PAGE_SIZE) = unat off + 4096" using unat_add_u64 [of off 4096] small by (simp add: PAGE_SIZE_def)
  then show "off < off + PAGE_SIZE" by (simp add: word_less_nat_alt)
qed

lemma untouched_page:
  assumes "\<forall>e \<in> set log. \<not> touches i off (off + PAGE_SIZE) e" and "cp_addressable i off" and "off mod PAGE_SIZE = 0"
  shows "page_apply i off log mem = mem"
proof -
  note b = page_bounds [OF assms(2,3)]
  have "sivfs_range_overlaps_wsent off (off + PAGE_SIZE) x" if "sivfs_same_page (wse_file_offset x) off" for x
  proof -
    have "unat (wse_file_offset x) div 4096 = unat off div 4096"
      using arg_cong [OF that [unfolded sivfs_same_page_def], of unat] by (simp add: PAGE_SIZE_def unat_div)
    then show ?thesis using b by (auto simp: sivfs_range_overlaps_wsent_def word_le_nat_alt word_less_nat_alt Let_def)
  qed
  then have "page_write i off x mem = mem" if "\<not> (wse_ino x = i \<and> sivfs_range_overlaps_wsent off (off + PAGE_SIZE) x)" for x mem
    using that by (auto simp: page_write_def)
  then have "fold (page_write i off) xs mem = mem"
    if "\<forall>x \<in> set xs. \<not> (wse_ino x = i \<and> sivfs_range_overlaps_wsent off (off + PAGE_SIZE) x)" for xs mem
    using that by (induction xs) auto
  then show ?thesis using assms(1) by (induction log) (auto simp: touches_def)
qed

text \<open>What the first step of a fault finds.\<close>

lemma first_write_at_snapshot:
  assumes "at_snapshot m s w state f i (push_bit 12 p)"
  shows "\<exists>ci t cp. cw_inodes w (st_checkpoint state) = Some ci \<and>
    sivfs_find_first_write s (cp_ts ci) (txn_ts state) i (push_bit 12 p) (push_bit 12 p + PAGE_SIZE) = (OK, t) \<and>
    sivfs_checkpoint_traverse m (cw_store w) (cp_root ci) i (push_bit 12 p) = (OK, cp) \<and>
    (t = SIVFS_INVALID_TS \<longrightarrow> cp \<noteq> 0 \<longrightarrow>
       (\<exists>pg. cps_pages (cw_store w) cp = Some pg \<and> page_mem pg = f (cp_path i (push_bit 12 p))))"
proof -
  let ?off = "push_bit 12 p"
  obtain ci g where c: "cw_inodes w (st_checkpoint state) = Some ci" "cp_ts ci \<le> txn_ts state"
      "master_log_deleted_ts s \<le> cp_ts ci + 1" "list_all log_entry_ok (log_between s (cp_ts ci) (txn_ts state))"
      "f = db_apply (log_between s (cp_ts ci) (txn_ts state)) g"
      "\<And>mem. sivfs_read_checkpoint m (cw_store w) mem PAGE_SIZE (Some ci) i (push_bit 12 p) = (OK, g (cp_path i (push_bit 12 p)))"
    using assms unfolding at_snapshot_def by blast
  have s: "log_good s" "txn_ts state \<le> commit_started_ts s" "txn_ts state \<noteq> SIVFS_INVALID_TS" "cp_addressable i (push_bit 12 p)"
    using assms(1) by (simp_all add: at_snapshot_def)
  obtain t where t: "sivfs_find_first_write s (cp_ts ci) (txn_ts state) i ?off (?off + PAGE_SIZE) = (OK, t)"
      "t = SIVFS_INVALID_TS \<Longrightarrow> \<forall>u e. cp_ts ci < u \<longrightarrow> u \<le> txn_ts state \<longrightarrow> entry_at s u = Some e \<longrightarrow> \<not> touches i ?off (?off + PAGE_SIZE) e"
    using first_write_found [OF s(1) c(2) s(2) c(3) s(3) page_bounds(3) [OF s(4) page_start]] by blast
  obtain cp where cp: "sivfs_checkpoint_traverse m (cw_store w) (cp_root ci) i ?off = (OK, cp)"
      "cp \<noteq> 0 \<Longrightarrow> \<exists>pg. cps_pages (cw_store w) cp = Some pg \<and> page_mem pg = g (cp_path i ?off)"
    using read_checkpoint_page [OF c(6)] by blast
  have "f (cp_path i ?off) = g (cp_path i ?off)" if "t = SIVFS_INVALID_TS"
  proof -
    have nz: "cp_ts ci + 1 \<noteq> 0" using s(3) c(2) by (metis SIVFS_INVALID_TS_def add_eq_0_iff2 ts_le_INVALID order_antisym add.commute)
    have "\<forall>e \<in> set (log_between s (cp_ts ci) (txn_ts state)). \<not> touches i ?off (?off + PAGE_SIZE) e"
      using t(2) [OF that] log_between_iff [OF log_good_run [OF s(1)] nz] by blast
    then show ?thesis unfolding c(5) db_apply_page [OF s(4) c(4)] by (rule untouched_page [OF _ s(4) page_start])
  qed
  then show ?thesis using c(1) t(1) cp by metis
qed

section \<open>The inode after a fault\<close>

lemma ws_inode_ok_iff:
  "ws_inode_ok st mp \<longleftrightarrow> (\<exists>iinfo. ai_info mp = Some iinfo \<and> rt_inv (ai_pages mp) \<and> \<not> ii_checkpoint_checked_out iinfo \<and>
     rt_inv (ii_checkpoint_pages iinfo) \<and>
     (\<forall>p pg. radix_tree_lookup (ai_pages mp) p = Some pg \<longrightarrow> \<not> sivfs_is_checkpoint_page st (wp_addr pg) \<and> \<not> inode_cp p mp) \<and>
     (\<forall>p x. ai_ptes mp p = Some x \<longrightarrow>
        (\<exists>pg. radix_tree_lookup (ai_pages mp) p = Some pg \<and> wp_addr pg = x) \<or> inode_cp p mp))"
proof (cases "\<exists>iinfo. ai_info mp = Some iinfo \<and> rt_inv (ai_pages mp)")
  case True
  then obtain iinfo where i: "ai_info mp = Some iinfo" "rt_inv (ai_pages mp)" by blast
  have cp: "inode_cp p mp \<longleftrightarrow> (\<exists>x. radix_tree_lookup (ii_checkpoint_pages iinfo) p = Some (Ptr x))" for p
    by (auto simp: inode_cp_def i(1) split: option.splits slot.splits)
  have pages: "(\<forall>pg \<in> snd ` set (ai_pages mp). P pg) \<longleftrightarrow> (\<forall>p pg. radix_tree_lookup (ai_pages mp) p = Some pg \<longrightarrow> P pg)" for P
    using rt_inv_distinct [OF i(2)] by (force simp: radix_tree_lookup_def)
  have excl: "(\<forall>p x. radix_tree_lookup (ii_checkpoint_pages iinfo) p = Some (Ptr x) \<longrightarrow> radix_tree_lookup (ai_pages mp) p = None) \<longleftrightarrow>
      (\<forall>p pg. radix_tree_lookup (ai_pages mp) p = Some pg \<longrightarrow> \<not> inode_cp p mp)"
    unfolding cp by (metis not_Some_eq)
  have "ws_inode_ok st mp \<longleftrightarrow> (\<forall>p pg. radix_tree_lookup (ai_pages mp) p = Some pg \<longrightarrow> \<not> sivfs_is_checkpoint_page st (wp_addr pg)) \<and>
      \<not> ii_checkpoint_checked_out iinfo \<and> rt_inv (ii_checkpoint_pages iinfo) \<and>
      (\<forall>p pg. radix_tree_lookup (ai_pages mp) p = Some pg \<longrightarrow> \<not> inode_cp p mp) \<and>
      (\<forall>p x. ai_ptes mp p = Some x \<longrightarrow> (\<exists>pg. radix_tree_lookup (ai_pages mp) p = Some pg \<and> wp_addr pg = x) \<or> inode_cp p mp)"
    unfolding ws_inode_ok_def pages by (simp only: i option.case excl cp [symmetric] simp_thms)
  then show ?thesis unfolding i(1) using i(2) by (simp only: option.inject ex_simps simp_thms) blast
next
  case False
  then show ?thesis by (auto simp: ws_inode_ok_def split: option.splits)
qed

text \<open>Registering a page of the checkpoint.\<close>

definition cp_entered :: "u64 \<Rightarrow> anon_inode \<Rightarrow> anon_inode" where
  "cp_entered p mp = mp\<lparr>ai_info := map_option (\<lambda>iinfo. iinfo\<lparr>ii_checkpoint_pages :=
     snd (sivfs_radix_tree_set True (ii_checkpoint_pages iinfo) p ())\<rparr>) (ai_info mp)\<rparr>"

lemma radix_set_unit:
  assumes "rt_inv t"
  shows "\<exists>t'. sivfs_radix_tree_set True t p () = (OK, t') \<and> rt_inv t' \<and> radix_tree_lookup t' = (radix_tree_lookup t)(p \<mapsto> Ptr ())"
proof -
  have "rt_inv (radix_tree_delete t p)" using assms by (simp add: radix_tree_delete_def)
  then show ?thesis using assms
    by (auto simp: sivfs_radix_tree_set_def radix_tree_insert_def fun_upd_idem split: option.splits slot.splits)
qed

lemma register_entered:
  assumes "ws_inode_ok st mp" and "fe_radix_ok env"
  shows "register_cp_page env p mp = (VM_FAULT_NONE, cp_entered p mp)"
proof -
  obtain iinfo where i: "ai_info mp = Some iinfo" "rt_inv (ii_checkpoint_pages iinfo)"
    using assms(1) by (auto simp: ws_inode_ok_iff)
  then show ?thesis using radix_set_unit [OF i(2), of p] assms(2)
    by (auto simp: register_cp_page_def cp_entered_def fault_of_rc_def)
qed

lemma entered_simps [simp]:
  "ai_pages (cp_entered p mp) = ai_pages mp" "ai_ptes (cp_entered p mp) = ai_ptes mp"
  by (simp_all add: cp_entered_def)

lemma entered_cp:
  assumes "ws_inode_ok st mp"
  shows "inode_cp q (cp_entered p mp) \<longleftrightarrow> q = p \<or> inode_cp q mp"
proof -
  obtain iinfo where i: "ai_info mp = Some iinfo" "rt_inv (ii_checkpoint_pages iinfo)"
    using assms(1) by (auto simp: ws_inode_ok_iff)
  then show ?thesis using radix_set_unit [OF i(2), of p] by (auto simp: inode_cp_def cp_entered_def split: if_splits)
qed

lemma entered_ok:
  assumes "ws_inode_ok st mp" and "radix_tree_lookup (ai_pages mp) p = None"
  shows "ws_inode_ok st (cp_entered p mp)"
proof -
  obtain iinfo where i: "ai_info mp = Some iinfo" "rt_inv (ii_checkpoint_pages iinfo)" "\<not> ii_checkpoint_checked_out iinfo"
    using assms(1) by (auto simp: ws_inode_ok_iff)
  obtain t where "sivfs_radix_tree_set True (ii_checkpoint_pages iinfo) p () = (OK, t)" "rt_inv t"
    using radix_set_unit [OF i(2)] by blast
  then have "ai_info (cp_entered p mp) = Some (iinfo\<lparr>ii_checkpoint_pages := t\<rparr>)" by (simp add: cp_entered_def i(1))
  then show ?thesis using assms i(3) \<open>rt_inv t\<close> unfolding ws_inode_ok_iff by (auto simp: entered_cp [OF assms(1)])
qed

lemma evict_cp_simps:
  "radix_tree_lookup (ai_pages (evict_cp p mp)) = (radix_tree_lookup (ai_pages mp))(p := None)"
  "ai_ptes (evict_cp p mp) = (ai_ptes mp)(p := None)"
  "inode_cp q (evict_cp p mp) \<longleftrightarrow> q \<noteq> p \<and> inode_cp q mp"
  by (auto simp: evict_cp_def inode_cp_def split: option.splits)

lemma evict_cp_ok: "ws_inode_ok st mp \<Longrightarrow> ws_inode_ok st (evict_cp p mp)"
  unfolding ws_inode_ok_iff evict_cp_simps by (auto simp: evict_cp_def radix_tree_delete_def)

lemma drop_push: "(p::u64) < 2 ^ 52 \<Longrightarrow> drop_bit 12 (push_bit 12 p) = p"
  using page_start_div [of p] by (simp add: PAGE_SIZE_def drop_bit_eq_div)

lemma fault_evict_eq:
  assumes "p < 2 ^ 52"
  shows "fault_evict p mp = (if inode_cp p mp then evict_cp p mp else mp)"
  unfolding fault_evict_def unmap_offset drop_push [OF assms]
  by (auto simp: inode_cp_def evict_cp_def Let_def split: option.splits slot.splits)

text \<open>Adding a private page.\<close>

definition page_added :: "u64 \<Rightarrow> ws_page \<Rightarrow> anon_inode \<Rightarrow> anon_inode" where
  "page_added p pg mp = mp\<lparr>ai_pages := rt_ins p pg (ai_pages mp)\<rparr>"

lemma added_cp [simp]: "inode_cp q (page_added p pg mp) = inode_cp q mp"
  by (simp add: inode_cp_def page_added_def)

lemma set_cache_added:
  assumes "radix_tree_lookup (ai_pages mp) p = None"
  shows "set_cache_page p pg' (page_added p pg mp) = page_added p pg' mp"
proof -
  have "map (\<lambda>(q, x). (q, if q = p then pg' else x)) (rt_ins p pg t) = rt_ins p pg' t" if "radix_tree_lookup t p = None" for t
    using that by (induction p pg t rule: rt_ins.induct)
      (force simp: radix_tree_lookup_def map_of_eq_None_iff split: if_splits intro!: map_idI)+
  then show ?thesis using assms by (simp add: set_cache_page_def page_added_def)
qed

lemma added_ok:
  assumes "ws_inode_ok st mp" and "\<not> inode_cp p mp" and "\<not> sivfs_is_checkpoint_page st (wp_addr pg)"
  shows "ws_inode_ok st (install_page p (wp_addr pg) (page_added p pg mp))"
proof -
  have "inode_cp q (install_page p (wp_addr pg) (page_added p pg mp)) = inode_cp q mp" for q
    by (simp add: inode_cp_def page_added_def install_page_def)
  then show ?thesis using assms unfolding ws_inode_ok_iff by (auto simp: page_added_def install_page_def)
qed

section \<open>The outcome of a fault\<close>

text \<open>The page of the checkpoint at a place of a file.\<close>

definition cp_page_at :: "mmu \<Rightarrow> cp_world \<Rightarrow> u64 \<Rightarrow> u64 \<Rightarrow> u64 \<Rightarrow> u64" where
  "cp_page_at m w checkpoint i off =
     (case cw_inodes w checkpoint of None \<Rightarrow> 0 | Some ci \<Rightarrow> snd (sivfs_checkpoint_traverse m (cw_store w) (cp_root ci) i off))"

lemma fault_checkpoint_outcome:
  assumes "at_snapshot m s w state f i (push_bit 12 p)" and "\<not> direct_access state"
    and "fe_radix_ok env" and "ws_inode_ok (cw_store w) mp"
  shows "\<exists>ret cp mp1. sivfs_fault_checkpoint m env s state i p w mp = (ret, cp, w, mp1) \<and> \<not> fault_stops ret \<and>
    (cp = 0 \<and> mp1 = mp \<or>
     cp \<noteq> 0 \<and> ret = VM_FAULT_LOCKED \<and> mp1 = cp_entered p mp \<and> radix_tree_lookup (ai_pages mp) p = None \<and>
       cp = cp_page_at m w (st_checkpoint state) i (push_bit 12 p) \<and>
       (\<exists>pg. cps_pages (cw_store w) cp = Some pg \<and> page_mem pg = f (cp_path i (push_bit 12 p))))"
proof -
  obtain ci t cp where c: "cw_inodes w (st_checkpoint state) = Some ci"
      "sivfs_find_first_write s (cp_ts ci) (txn_ts state) i (push_bit 12 p) (push_bit 12 p + PAGE_SIZE) = (OK, t)"
      "sivfs_checkpoint_traverse m (cw_store w) (cp_root ci) i (push_bit 12 p) = (OK, cp)"
      "t = SIVFS_INVALID_TS \<Longrightarrow> cp \<noteq> 0 \<Longrightarrow>
         \<exists>pg. cps_pages (cw_store w) cp = Some pg \<and> page_mem pg = f (cp_path i (push_bit 12 p))"
    using first_write_at_snapshot [OF assms(1)] by blast
  have s: "txn_ts state \<noteq> SIVFS_INVALID_TS" "st_checkpoint state \<noteq> 0" using assms(1) by (simp_all add: at_snapshot_def)
  note run = sivfs_fault_checkpoint_def fault_stops_def sivfs_lock_cp_page_def fault_direct_def Let_def
  consider (written) "t \<noteq> SIVFS_INVALID_TS \<or> radix_tree_lookup (ai_pages mp) p \<noteq> None" | (hole) "cp = 0"
    | (page) "t = SIVFS_INVALID_TS" "radix_tree_lookup (ai_pages mp) p = None" "cp \<noteq> 0" by blast
  then show ?thesis
  proof cases
    case written
    then show ?thesis using c s by (auto simp: run)
  next
    case hole
    then show ?thesis using c s assms(2) by (auto simp: run)
  next
    case page
    then have "sivfs_is_checkpoint_page (cw_store w) cp" using c(4) by (auto simp: sivfs_is_checkpoint_page_def)
    then show ?thesis using page c s assms(2) register_entered [OF assms(4,3), of p] by (auto simp: run cp_page_at_def)
  qed
qed

lemma fault_workingset_new:
  assumes "at_snapshot m s w state f i (push_bit 12 p)" and "p < 2 ^ 52"
    and "radix_tree_lookup (ai_pages mp) p = None" and "fe_alloc env = Some (page, mem)" and "fe_cache_ok env"
    and "cp \<noteq> 0 \<Longrightarrow> \<exists>pg. cps_pages (cw_store w) cp = Some pg \<and> page_mem pg = f (cp_path i (push_bit 12 p))"
  shows "fault_workingset m env s w state i p cp mp =
    (VM_FAULT_LOCKED, page, page_added p \<lparr>wp_addr = page, wp_mem = f (cp_path i (push_bit 12 p)), wp_dirty = False, wp_uptodate = True\<rparr>
       (if inode_cp p mp then evict_cp p mp else mp))"
proof -
  let ?mp = "if inode_cp p mp then evict_cp p mp else mp"
  let ?pg = "\<lparr>wp_addr = page, wp_mem = mem, wp_dirty = False, wp_uptodate = False\<rparr>"
  have none: "radix_tree_lookup (ai_pages ?mp) p = None" using assms(3) by (simp add: evict_cp_simps)
  have "fault_cache_page env p ?mp = Inr (?pg, page_added p ?pg ?mp)"
    using none assms(4,5) by (simp add: fault_cache_page_def radix_tree_insert_def page_added_def Let_def)
  moreover have "fault_fill m s w state i p cp mem = (OK, f (cp_path i (push_bit 12 p)))"
    using assms(6) update_page_at_snapshot [OF assms(1)] by (auto simp: fault_fill_def)
  ultimately show ?thesis
    using set_cache_added [OF none] by (simp add: fault_workingset_def fault_evict_eq [OF assms(2)])
qed

text \<open>What a task reads through a page that is mapped at an index: the private page there, or a page of a checkpoint.\<close>

definition page_seen :: "cp_store \<Rightarrow> anon_inode \<Rightarrow> u64 \<Rightarrow> page_mem option" where
  "page_seen st mp p =
     (case ai_ptes mp p of
        None \<Rightarrow> None
      | Some x \<Rightarrow>
          (case radix_tree_lookup (ai_pages mp) p of
             Some pg \<Rightarrow> if wp_addr pg = x then Some (wp_mem pg) else None
           | None \<Rightarrow> map_option page_mem (cps_pages st x)))"

definition same_elsewhere :: "u64 \<Rightarrow> anon_inode \<Rightarrow> anon_inode \<Rightarrow> bool" where
  "same_elsewhere p mp mp' \<longleftrightarrow> (\<forall>q. q \<noteq> p \<longrightarrow>
     radix_tree_lookup (ai_pages mp') q = radix_tree_lookup (ai_pages mp) q \<and> ai_ptes mp' q = ai_ptes mp q \<and>
     inode_cp q mp' = inode_cp q mp)"

lemma bump_stats:
  "\<exists>stats. bump x (state\<lparr>st_stats := s0, cp_page_to_cow := 0\<rparr>) = state\<lparr>st_stats := stats, cp_page_to_cow := 0\<rparr>"
  "\<exists>stats. bump x (state\<lparr>cp_page_to_cow := 0\<rparr>) = state\<lparr>st_stats := stats, cp_page_to_cow := 0\<rparr>"
  by (rule exI, rule sivfs_state.equality; simp add: bump_def)+

lemma fault_ready:
  assumes "k_anon k a = Some mp" and "ws_inode_ok st mp" and "ai_info mp = Some iinfo" and "ii_state iinfo = current" and "current \<noteq> 0"
    and "sivfs_fault_checkpoint m env (k_shared k) (if vf_write_bit vmf then bump nCoWCPPagesInitialWrite state else state)
      (ii_backing_ino iinfo) (vf_pgoff vmf) (k_cps k) mp = (ret, cp, k_cps k, mp1)"
    and "\<not> fault_stops ret" and "\<not> direct_access state"
  shows "\<exists>state'. (\<exists>stats. state' = state\<lparr>st_stats := stats, cp_page_to_cow := 0\<rparr>) \<and>
    sivfs_fault m env current a vmf state k =
      (if cp \<noteq> 0 \<and> \<not> vf_write_bit vmf \<and> cp_page_to_cow state \<noteq> cp
       then (ret, cp, bump nPgFaults (bump nCheckoutCPPages state'), k\<lparr>k_anon := (k_anon k)(a \<mapsto> mp1)\<rparr>)
       else case fault_workingset m env (k_shared k) (k_cps k) state' (ii_backing_ino iinfo) (vf_pgoff vmf) cp mp1 of
         (ret1, page, mp2) \<Rightarrow> (ret1, page, if ret1 = VM_FAULT_LOCKED then bump nPgFaults state' else state',
           k\<lparr>k_anon := (k_anon k)(a \<mapsto> mp2)\<rparr>))"
proof -
  have co: "\<not> ii_checkpoint_checked_out iinfo" using assms(2,3) by (auto simp: ws_inode_ok_iff)
  let ?s1 = "if vf_write_bit vmf then bump nCoWCPPagesInitialWrite state else state"
  let ?s2 = "?s1\<lparr>cp_page_to_cow := 0\<rparr>"
  let ?s3 = "if cp_page_to_cow state = cp then bump nCoWCPPagesMkwrite ?s2 else ?s2"
  have sel: "cp_page_to_cow ?s1 = cp_page_to_cow state" "\<not> direct_access ?s3" using assms(8) by (simp_all add: bump_def)
  have "sivfs_fault m env current a vmf state k =
      (if cp \<noteq> 0 \<and> \<not> vf_write_bit vmf \<and> cp_page_to_cow state \<noteq> cp
       then (ret, cp, bump nPgFaults (bump nCheckoutCPPages ?s3), k\<lparr>k_anon := (k_anon k)(a \<mapsto> mp1)\<rparr>)
       else case fault_workingset m env (k_shared k) (k_cps k) ?s3 (ii_backing_ino iinfo) (vf_pgoff vmf) cp mp1 of
         (ret1, page, mp2) \<Rightarrow> (ret1, page, if ret1 = VM_FAULT_LOCKED then bump nPgFaults ?s3 else ?s3,
           k\<lparr>k_anon := (k_anon k)(a \<mapsto> mp2)\<rparr>))"
    unfolding sivfs_fault_def assms(1,3) Let_def option.case assms(6) prod.case sel(1)
    using assms(4,5,7) co sel(2) by (simp add: sivfs_check_state_current_def split del: if_split cong: if_cong)
  moreover have "\<exists>stats. ?s3 = state\<lparr>st_stats := stats, cp_page_to_cow := 0\<rparr>" 
    using bump_stats(1) [where x = nCoWCPPagesMkwrite and state = state and ?s0.0 = "stat_inc nCoWCPPagesInitialWrite (st_stats state)"]
      bump_stats(2) [where x = nCoWCPPagesMkwrite and state = state] by (auto simp: bump_def intro: exI [of _ "st_stats state"])
  ultimately show ?thesis by blast
qed

lemma fault_outcome:
  assumes "k_anon k a = Some mp" and "ws_inode_ok (cw_store (k_cps k)) mp" and "ai_info mp = Some iinfo"
    and "ii_state iinfo = current" and "current \<noteq> 0" and "\<not> direct_access state"
    and "at_snapshot m (k_shared k) (k_cps k) state f (ii_backing_ino iinfo) off" and "p = vf_pgoff vmf" and "p < 2 ^ 52"
    and "off = push_bit 12 p"
    and "fe_alloc env = Some (page, mem)" and "\<not> sivfs_is_checkpoint_page (cw_store (k_cps k)) page"
    and "fe_cache_ok env" and "fe_trylock env" and "fe_same_mapping env" and "fe_radix_ok env"
    and "\<forall>q pg. radix_tree_lookup (ai_pages mp) q = Some pg \<longrightarrow> wp_uptodate pg"
  shows "\<exists>x state' mp'. sivfs_fault m env current a vmf state k = (VM_FAULT_LOCKED, x, state', k\<lparr>k_anon := (k_anon k)(a \<mapsto> mp')\<rparr>) \<and>
    (\<exists>stats. state' = state\<lparr>st_stats := stats, cp_page_to_cow := 0\<rparr>) \<and>
    ws_inode_ok (cw_store (k_cps k)) (install_page p x mp') \<and> same_elsewhere p mp mp' \<and>
    page_seen (cw_store (k_cps k)) (install_page p x mp') p =
      Some (case inode_page p mp of Some old \<Rightarrow> old | None \<Rightarrow> f (cp_path (ii_backing_ino iinfo) off)) \<and>
    (inode_page p mp' = None \<longrightarrow> inode_cp p mp' \<and> \<not> vf_write_bit vmf \<and> cp_page_to_cow state \<noteq> x \<and>
       x = cp_page_at m (k_cps k) (st_checkpoint state) (ii_backing_ino iinfo) off)"
proof -
  let ?w = "k_cps k" and ?i = "ii_backing_ino iinfo"
  let ?st = "if vf_write_bit vmf then bump nCoWCPPagesInitialWrite state else state"
  have snap: "at_snapshot m (k_shared k) ?w ?st f ?i off" "\<not> direct_access ?st" "st_checkpoint ?st = st_checkpoint state"
    using assms(6,7) by (simp_all add: at_snapshot_def bump_def)
  obtain ret cp mp1 where c: "sivfs_fault_checkpoint m env (k_shared k) ?st ?i (vf_pgoff vmf) ?w mp = (ret, cp, ?w, mp1)" "\<not> fault_stops ret"
      "cp = 0 \<and> mp1 = mp \<or>
       cp \<noteq> 0 \<and> ret = VM_FAULT_LOCKED \<and> mp1 = cp_entered p mp \<and> radix_tree_lookup (ai_pages mp) p = None \<and>
         cp = cp_page_at m ?w (st_checkpoint state) ?i off \<and> (\<exists>pg. cps_pages (cw_store ?w) cp = Some pg \<and> page_mem pg = f (cp_path ?i off))"
    using fault_checkpoint_outcome [OF snap(1) [unfolded assms(10)] snap(2) assms(16,2)] assms(8,10) snap(3) by auto
  obtain state' where st: "\<exists>stats. state' = state\<lparr>st_stats := stats, cp_page_to_cow := 0\<rparr>"
      "sivfs_fault m env current a vmf state k =
      (if cp \<noteq> 0 \<and> \<not> vf_write_bit vmf \<and> cp_page_to_cow state \<noteq> cp
       then (ret, cp, bump nPgFaults (bump nCheckoutCPPages state'), k\<lparr>k_anon := (k_anon k)(a \<mapsto> mp1)\<rparr>)
       else case fault_workingset m env (k_shared k) ?w state' ?i (vf_pgoff vmf) cp mp1 of
         (ret1, page, mp2) \<Rightarrow> (ret1, page, if ret1 = VM_FAULT_LOCKED then bump nPgFaults state' else state',
           k\<lparr>k_anon := (k_anon k)(a \<mapsto> mp2)\<rparr>))"
    using fault_ready [OF assms(1-5) c(1,2) assms(6)] by blast
  have stats: "\<exists>stats. bump x state' = state\<lparr>st_stats := stats, cp_page_to_cow := 0\<rparr>"
    "\<exists>stats. bump x (bump y state') = state\<lparr>st_stats := stats, cp_page_to_cow := 0\<rparr>" for x y
    using st(1) bump_stats(1) by metis+
  have snap': "at_snapshot m (k_shared k) ?w state' f ?i off" using st(1) assms(7) by (auto simp: at_snapshot_def)
  have ok1: "ws_inode_ok (cw_store ?w) mp1" using c(3) assms(2) entered_ok [OF assms(2)] by auto
  consider (existing) pg where "radix_tree_lookup (ai_pages mp) p = Some pg"
    | (from_cp) "radix_tree_lookup (ai_pages mp) p = None" "cp \<noteq> 0" "\<not> vf_write_bit vmf" "cp_page_to_cow state \<noteq> cp"
    | (copy) "radix_tree_lookup (ai_pages mp) p = None" "\<not> (cp \<noteq> 0 \<and> \<not> vf_write_bit vmf \<and> cp_page_to_cow state \<noteq> cp)" by fastforce
  then show ?thesis
  proof cases
    case existing
    then have "cp = 0" "mp1 = mp" "\<not> inode_cp p mp" using c(3) assms(2) by (auto simp: ws_inode_ok_iff)
    then have "fault_workingset m env (k_shared k) ?w state' ?i p cp mp1 = (VM_FAULT_LOCKED, wp_addr pg, mp)"
      using existing assms(14,15,17) by (simp add: fault_workingset_def fault_evict_eq [OF assms(9)] fault_cache_page_def)
    moreover have "ws_inode_ok (cw_store ?w) (install_page p (wp_addr pg) mp)"
      using assms(2) existing unfolding ws_inode_ok_iff by (auto simp: install_page_def inode_cp_def)
    ultimately show ?thesis using st(2) \<open>cp = 0\<close> existing stats(1) assms(8)
      by (auto simp: same_elsewhere_def page_seen_def install_page_def inode_page_def)
  next
    case from_cp
    then have mp1: "mp1 = cp_entered p mp" "ret = VM_FAULT_LOCKED" using c(3) by auto
    have "ws_inode_ok (cw_store ?w) (install_page p cp mp1)"
      using ok1 mp1 entered_cp [OF assms(2), of p p] unfolding ws_inode_ok_iff by (auto simp: install_page_def inode_cp_def)
    then show ?thesis using st(2) from_cp stats(2) c(3) mp1
      by (auto simp: same_elsewhere_def page_seen_def install_page_def inode_page_def entered_cp [OF assms(2)])
  next
    case copy
    let ?pg = "\<lparr>wp_addr = page, wp_mem = f (cp_path ?i off), wp_dirty = False, wp_uptodate = True\<rparr>"
    let ?mp = "if inode_cp p mp1 then evict_cp p mp1 else mp1"
    have none: "radix_tree_lookup (ai_pages mp1) p = None" using c(3) copy(1) by auto
    have "fault_workingset m env (k_shared k) ?w state' ?i p cp mp1 = (VM_FAULT_LOCKED, page, page_added p ?pg ?mp)"
      using fault_workingset_new [OF snap' [unfolded assms(10)] assms(9) none assms(11,13), of cp] c(3) assms(10) by auto
    moreover have "ws_inode_ok (cw_store ?w) (install_page p page (page_added p ?pg ?mp))"
      using added_ok [of "cw_store ?w" ?mp p ?pg] ok1 evict_cp_ok [OF ok1] assms(12) by (auto simp: evict_cp_simps)
    moreover have "same_elsewhere p mp (page_added p ?pg ?mp)"
      using c(3) by (auto simp: same_elsewhere_def evict_cp_simps entered_cp [OF assms(2)]) (auto simp: page_added_def evict_cp_simps)
    ultimately show ?thesis using st(2) copy stats(1) assms(8)
      by (auto simp: page_seen_def install_page_def inode_page_def page_added_def)
  qed
qed

section \<open>Properties\<close>


text \<open>
  C9: the first write to a page of the checkpoint copies it.  When a task writes through a mapping of a page of its
  checkpoint, \<^verbatim>\<open>sivfs_mkwrite\<close> unmaps the page and asks for the fault again, and the fault that follows gives the task a
  private page with the same contents; the store of checkpoint pages is the same afterwards.
\<close>

theorem write_fault_copies_page:
  assumes "k_anon k (vm_inode vma) = Some mp" and "ws_inode_ok (cw_store (k_cps k)) mp" and "ai_info mp = Some iinfo"
    and "ii_state iinfo = current" and "current \<noteq> 0" and "\<not> direct_access state" and "cp_page_to_cow state = 0"
    and "at_snapshot m (k_shared k) (k_cps k) state f (ii_backing_ino iinfo) off"
    and "p = linear_page_index vma (vf_address vmf)" and "vf_pgoff vmf' = p" and "p < 2 ^ 52" and "off = push_bit 12 p"
    and "\<not> fe_cp_mapped env" and "sivfs_is_checkpoint_page (cw_store (k_cps k)) (vf_page vmf)"
    and "vf_page vmf = cp_page_at m (k_cps k) (st_checkpoint state) (ii_backing_ino iinfo) off"
    and "radix_tree_lookup (ai_pages mp) p = None"
    and "fe_alloc env = Some (page, mem)" and "\<not> sivfs_is_checkpoint_page (cw_store (k_cps k)) page"
    and "fe_cache_ok env" and "fe_trylock env" and "fe_same_mapping env" and "fe_radix_ok env"
    and "\<forall>q pg. radix_tree_lookup (ai_pages mp) q = Some pg \<longrightarrow> wp_uptodate pg"
  shows "\<exists>state1 k1 x state2 mp2. sivfs_mkwrite env current vma vmf state k = (VM_FAULT_NOPAGE, state1, k1) \<and>
    sivfs_fault m env current (vm_inode vma) vmf' state1 k1 =
      (VM_FAULT_LOCKED, x, state2, k\<lparr>k_anon := (k_anon k)(vm_inode vma \<mapsto> mp2)\<rparr>) \<and>
    inode_page p mp2 = Some (f (cp_path (ii_backing_ino iinfo) off)) \<and> \<not> inode_cp p mp2 \<and>
    ws_inode_ok (cw_store (k_cps k)) (install_page p x mp2) \<and> same_elsewhere p mp mp2"
proof -
  let ?state = "state\<lparr>cp_page_to_cow := vf_page vmf\<rparr>" and ?mp = "evict_cp p mp"
  let ?k = "k\<lparr>k_anon := (k_anon k)(vm_inode vma \<mapsto> ?mp)\<rparr>"
  have "sivfs_mkwrite env current vma vmf state k = (VM_FAULT_NOPAGE, ?state, ?k)"
    using assms(1,3-7,9,13,14) unmap_page [OF assms(11), of mp]
    by (simp add: sivfs_mkwrite_def sivfs_check_state_current_def Let_def evict_cp_def)
  have info: "ai_info ?mp = Some (iinfo\<lparr>ii_checkpoint_pages := radix_tree_delete (ii_checkpoint_pages iinfo) p\<rparr>)"
    by (simp add: evict_cp_def assms(3))
  have snap: "at_snapshot m (k_shared ?k) (k_cps ?k) ?state f (ii_backing_ino (iinfo\<lparr>ii_checkpoint_pages := radix_tree_delete (ii_checkpoint_pages iinfo) p\<rparr>)) off"
    using assms(8) by (simp add: at_snapshot_def)
  have here: "k_anon ?k (vm_inode vma) = Some ?mp" and ok: "ws_inode_ok (cw_store (k_cps ?k)) ?mp"
    and own: "ii_state (iinfo\<lparr>ii_checkpoint_pages := radix_tree_delete (ii_checkpoint_pages iinfo) p\<rparr>) = current"
    and nodirect: "\<not> direct_access ?state" and fresh: "\<not> sivfs_is_checkpoint_page (cw_store (k_cps ?k)) page"
    and upto: "\<forall>q pg. radix_tree_lookup (ai_pages ?mp) q = Some pg \<longrightarrow> wp_uptodate pg"
    using assms(4,6,18,23) evict_cp_ok [OF assms(2)] by (simp_all add: evict_cp_simps)
  have none: "inode_page p ?mp = None" by (simp add: inode_page_def evict_cp_simps)
  obtain x state2 mp2 where r: "sivfs_fault m env current (vm_inode vma) vmf' ?state ?k =
        (VM_FAULT_LOCKED, x, state2, ?k\<lparr>k_anon := (k_anon ?k)(vm_inode vma \<mapsto> mp2)\<rparr>)"
      "ws_inode_ok (cw_store (k_cps k)) (install_page p x mp2)" "same_elsewhere p ?mp mp2"
      "page_seen (cw_store (k_cps k)) (install_page p x mp2) p =
        Some (f (cp_path (ii_backing_ino iinfo) off))"
      "inode_page p mp2 = None \<Longrightarrow> vf_page vmf \<noteq> x \<and> x = cp_page_at m (k_cps k) (st_checkpoint state) (ii_backing_ino iinfo) off"
    using fault_outcome [OF here ok info own assms(5) nodirect snap assms(10) [symmetric] assms(11,12,17) fresh assms(19-22) upto]
    by (elim exE conjE) (rule that, simp_all add: none, blast)
  have "inode_page p mp2 \<noteq> None" using r(5) assms(15) by blast
  then obtain pg where pg: "radix_tree_lookup (ai_pages mp2) p = Some pg" by (auto simp: inode_page_def)
  then have "inode_page p mp2 = Some (f (cp_path (ii_backing_ino iinfo) off))"
    using r(4) by (auto simp: page_seen_def install_page_def inode_page_def evict_cp_simps split: if_splits)
  moreover have "\<not> inode_cp p mp2"
    using r(2) pg by (auto simp: ws_inode_ok_iff install_page_def inode_cp_def)
  moreover have "same_elsewhere p mp mp2" using r(3) by (auto simp: same_elsewhere_def evict_cp_simps)
  moreover have "?k\<lparr>k_anon := (k_anon ?k)(vm_inode vma \<mapsto> mp2)\<rparr> = k\<lparr>k_anon := (k_anon k)(vm_inode vma \<mapsto> mp2)\<rparr>" by simp
  ultimately show ?thesis using \<open>sivfs_mkwrite env current vma vmf state k = _\<close> r(1,2) by metis
qed

section \<open>An example: a checkpoint in which page 1 of file 5 is set\<close>

text \<open>A small store: one table page whose entries lead back to it, but for one that leads to the page of the file.\<close>

definition ex_leaf_mem :: page_mem where
  "ex_leaf_mem = (\<lambda>_. 0)(1 := 42)"

definition ex_store :: cp_store where
  "ex_store = ex_boot\<lparr>cps_pages :=
     [65536 \<mapsto> \<lparr>page_mem = (\<lambda>_. sivfs_mk_pxd_ent ex_mmu 65536)(1 := sivfs_mk_pte ex_mmu 69632), page_info = None, page_index = 0,
                page_refct = 1, page_mapct = 0, page_locked = False\<rparr>,
      69632 \<mapsto> \<lparr>page_mem = ex_leaf_mem, page_info = None, page_index = 0, page_refct = 1, page_mapct = 0, page_locked = False\<rparr>]\<rparr>"

definition ex_fault_world :: cp_world where
  "ex_fault_world = (ex_cps ex_store)\<lparr>cw_inodes := [64 \<mapsto> \<lparr>cp_root = 65536, cp_ts = 1, cp_obsoleted_ts = SIVFS_INVALID_TS\<rparr>]\<rparr>"

definition ex_fault_anon :: "unit slot rt \<Rightarrow> anon_inode" where
  "ex_fault_anon cps = \<lparr>ai_info = Some \<lparr>ii_backing_ino = 5, ii_state = 7, ii_refcount = 1, ii_checkpoint_pages = cps,
     ii_checkpoint_checked_out = False\<rparr>, ai_pages = [], ai_ptes = (\<lambda>p. if cps \<noteq> [] \<and> p = 1 then Some 69632 else None)\<rparr>"

definition ex_fault_kernel :: "unit slot rt \<Rightarrow> kernel" where
  "ex_fault_kernel cps = ex_kernel\<lparr>k_cps := ex_fault_world, k_anon := [700 \<mapsto> ex_fault_anon cps]\<rparr>"

definition ex_fault_env :: fault_env where
  "ex_fault_env = \<lparr>fe_alloc = Some (9000, (\<lambda>_. 3)), fe_cache_ok = True, fe_trylock = True, fe_same_mapping = True, fe_radix_ok = True,
     fe_cp_mapped = False, fe_mkwrite = VM_FAULT_LOCKED\<rparr>"

definition ex_fault_state :: sivfs_state where
  "ex_fault_state = ex_task\<lparr>txn_ts := 1, st_checkpoint := 64\<rparr>"

definition ex_vmf :: vm_fault where
  "ex_vmf = \<lparr>vf_pgoff = 1, vf_address = 69640, vf_write_bit = False, vf_page = 69632\<rparr>"

lemma ex_iter: "sivfs_checkpoint_iter_init 5 4096 = Inr \<lparr>iter_offsets = [0, 0, 5, 0, 0, 1], iter_cur_i = 0\<rparr>"
  by code_simp

lemma ex_traverse: "sivfs_checkpoint_traverse ex_mmu ex_store 65536 5 4096 = (OK, 69632)"
proof -
  have pa: "sivfs_pxd_to_pa ex_mmu (sivfs_mk_pxd_ent ex_mmu 65536) = 65536" "sivfs_pxd_to_pa ex_mmu (sivfs_mk_pte ex_mmu 69632) = 69632"
    by (simp_all add: sivfs_pxd_to_pa_def sivfs_mk_pxd_ent_def sivfs_mk_pte_def ex_mmu_def)
  have levels: "SIVFS_CHECKPOINT_TOTAL_LEVELS - 1 - 0 = Suc (Suc (Suc (Suc (Suc (Suc 0)))))"
    by (simp add: SIVFS_CHECKPOINT_TOTAL_LEVELS_def SIVFS_CHECKPOINT_INO_LEVELS_def SIVFS_CHECKPOINT_FOFFSET_LEVELS_def)
  show ?thesis unfolding sivfs_checkpoint_traverse_def sivfs_checkpoint_traverse_partial_def ex_iter levels
    by (simp add: sivfs_checkpoint_iter_next_offset_def sivfs_checkpoint_iter_advance_def ex_store_def pa Let_def)
qed

lemma ex_at_snapshot: "at_snapshot ex_mmu ex_log ex_fault_world ex_fault_state (\<lambda>_. ex_leaf_mem) 5 4096"
proof -
  have none: "log_between ex_log 1 1 = []" using log_between_self [OF _ log_good_run [OF ex_log_good], of 1] by simp
  have "sivfs_read_checkpoint ex_mmu ex_store mem PAGE_SIZE (Some \<lparr>cp_root = 65536, cp_ts = 1, cp_obsoleted_ts = SIVFS_INVALID_TS\<rparr>) 5 4096 =
      (OK, ex_leaf_mem)" for mem
    using ex_traverse by (simp add: sivfs_read_checkpoint_def ex_snapshot_facts(3)) (simp add: ex_store_def)
  then show ?thesis using ex_log_good ex_snapshot_facts none
    by (auto simp: at_snapshot_def ex_fault_state_def ex_fault_world_def ex_cps_def ex_world_def db_apply_def)
qed

lemma ex_fault_facts:
  "ws_inode_ok ex_store (ex_fault_anon [])" "ws_inode_ok ex_store (ex_fault_anon [(1, Ptr ())])"
  "\<not> sivfs_is_checkpoint_page ex_store 9000" "sivfs_is_checkpoint_page ex_store 69632" 
  by (auto simp: ws_inode_ok_def ex_fault_anon_def sivfs_is_checkpoint_page_def ex_store_def ex_boot_def radix_tree_lookup_def)

lemma ex_fault_sel [simp]:
  "k_shared (ex_fault_kernel cps) = ex_log" "k_cps (ex_fault_kernel cps) = ex_fault_world" "k_anon (ex_fault_kernel cps) = [700 \<mapsto> ex_fault_anon cps]"
  "cw_store ex_fault_world = ex_store" "ai_info (ex_fault_anon cps) = Some \<lparr>ii_backing_ino = 5, ii_state = 7, ii_refcount = 1,
     ii_checkpoint_pages = cps, ii_checkpoint_checked_out = False\<rparr>" "ai_pages (ex_fault_anon cps) = []"
  "fe_alloc ex_fault_env = Some (9000, (\<lambda>_. 3))" "fe_cache_ok ex_fault_env" "fe_trylock ex_fault_env" "fe_same_mapping ex_fault_env"
  "fe_radix_ok ex_fault_env" "\<not> fe_cp_mapped ex_fault_env" "vf_pgoff ex_vmf = 1" "vf_page ex_vmf = 69632" "vf_address ex_vmf = 69640"
  "\<not> direct_access ex_fault_state" "cp_page_to_cow ex_fault_state = 0" "st_checkpoint ex_fault_state = 64"
  "vm_inode (hd (mm_vmas ex_mm)) = 700" "linear_page_index (hd (mm_vmas ex_mm)) 69640 = 1"
  by (simp_all add: ex_fault_kernel_def ex_kernel_def ex_fault_world_def ex_cps_def ex_world_def ex_fault_anon_def ex_fault_env_def ex_vmf_def
      ex_fault_state_def ex_task_def fresh_state_def ex_mm_def linear_page_index_def)

lemma ex_cp_page: "cp_page_at ex_mmu ex_fault_world 64 5 4096 = 69632"
  using ex_traverse by (simp add: cp_page_at_def) (simp add: ex_fault_world_def ex_cps_def ex_world_def)

lemma ex_no_pages: "inode_page p (ex_fault_anon cps) = None" "radix_tree_lookup ([] :: ws_page rt) p = None"
  by (simp_all add: inode_page_def radix_tree_lookup_def)


theorem write_fault_copies_page_witness:
  "\<exists>state1 k1 x state2 mp2.
     sivfs_mkwrite ex_fault_env 7 (hd (mm_vmas ex_mm)) ex_vmf ex_fault_state (ex_fault_kernel [(1, Ptr ())]) = (VM_FAULT_NOPAGE, state1, k1) \<and>
     sivfs_fault ex_mmu ex_fault_env 7 700 ex_vmf state1 k1 =
       (VM_FAULT_LOCKED, x, state2, (ex_fault_kernel [(1, Ptr ())])\<lparr>k_anon := [700 \<mapsto> mp2]\<rparr>) \<and>
     inode_page 1 mp2 = Some ex_leaf_mem \<and> \<not> inode_cp 1 mp2"
proof -
  let ?k = "ex_fault_kernel [(1, Ptr ())]" and ?vma = "hd (mm_vmas ex_mm)"
  have "\<exists>state1 k1 x state2 mp2. sivfs_mkwrite ex_fault_env 7 ?vma ex_vmf ex_fault_state ?k = (VM_FAULT_NOPAGE, state1, k1) \<and>
    sivfs_fault ex_mmu ex_fault_env 7 (vm_inode ?vma) ex_vmf state1 k1 =
      (VM_FAULT_LOCKED, x, state2, ?k\<lparr>k_anon := (k_anon ?k)(vm_inode ?vma \<mapsto> mp2)\<rparr>) \<and>
    inode_page 1 mp2 = Some ex_leaf_mem \<and> \<not> inode_cp 1 mp2 \<and>
    ws_inode_ok (cw_store (k_cps ?k)) (install_page 1 x mp2) \<and> same_elsewhere 1 (ex_fault_anon [(1, Ptr ())]) mp2"
    by (rule write_fault_copies_page [where f = "\<lambda>_. ex_leaf_mem" and off = 4096 and iinfo = "the (ai_info (ex_fault_anon [(1, Ptr ())]))"])
       (use ex_at_snapshot ex_fault_facts ex_cp_page in \<open>simp_all add: ex_no_pages\<close>)
  then show ?thesis by simp blast
qed

end
