(* ===== verification/Gc_Checkpoints.thy ===== *)
theory Gc_Checkpoints
  imports Task_State Make_Checkpoint "HOL-Library.Multiset"
begin

text \<open>
  The collector of checkpoint pages and checkpoint inodes, \<^verbatim>\<open>kern/sivfs_gc_checkpoints.c\<close> with
  \<^verbatim>\<open>sivfs_gc_free_entry\<close> (\<^verbatim>\<open>kern/sivfs_checkpoints.c\<close>), and the collector of the log, \<^verbatim>\<open>kern/sivfs_gc_log.c\<close>.

  Obsoleted entries wait in groups, \<^verbatim>\<open>gc_blocked_entries\<close>: a tree of stacks indexed by the version that blocks
  them, with the group \<^verbatim>\<open>SIVFS_INVALID_TS\<close> for those not looked at yet.  The iteration over the tree continues from
  the current index in the current tree, so that groups inserted behind the current one are visited too.
  \<^verbatim>\<open>iput\<close> on a checkpoint inode drops its last reference.
\<close>

section \<open>Lifetimes\<close>

definition sivfs_ts_range_contains :: "sivfs_ts \<Rightarrow> sivfs_ts \<Rightarrow> sivfs_ts \<Rightarrow> bool" where
  "sivfs_ts_range_contains start end_ts ts \<longleftrightarrow> ts \<ge> start \<and> ts < end_ts"

definition sivfs_gc_entry_to_lifetime :: "cp_world \<Rightarrow> u64 \<Rightarrow> rc \<times> sivfs_ts \<times> sivfs_ts" where
  "sivfs_gc_entry_to_lifetime w entry =
     (case sivfs_gc_entry_to_type entry of
        Inl e \<Rightarrow> (E e, 0, 0)
      | Inr type \<Rightarrow>
          if type = SIVFS_GC_ENTRY_INODE then
            (case cw_inodes w (sivfs_gc_entry_to_inode entry) of
               None \<Rightarrow> (UB, 0, 0)
             | Some cpinfo \<Rightarrow> (OK, cp_ts cpinfo, cp_obsoleted_ts cpinfo))
          else
            (case cps_pages (cw_store w) (sivfs_gc_entry_to_page entry) of
               None \<Rightarrow> (UB, 0, 0)
             | Some p \<Rightarrow>
                 (case page_info p of
                    None \<Rightarrow> (E EINVAL, 0, 0)
                  | Some pginfo \<Rightarrow> (OK, pgi_checkpoint_ts pginfo, pgi_obsoleted_ts pginfo))))"

definition sivfs_gc_free_entry :: "cp_world \<Rightarrow> sivfs_stats option \<Rightarrow> u64 \<Rightarrow> rc \<times> sivfs_stats option \<times> cp_world" where
  "sivfs_gc_free_entry w stats entry =
     (case sivfs_gc_entry_to_type entry of
        Inl e \<Rightarrow> (OK, stats, w)
      | Inr type \<Rightarrow>
          if type = SIVFS_GC_ENTRY_PAGE then
            (case sivfs_put_checkpoint_page (cw_store w) (sivfs_gc_entry_to_page entry) of
               (r, st) \<Rightarrow> (r, map_option (stat_inc nCheckpointPagesFreed) stats, w\<lparr>cw_store := st\<rparr>))
          else (OK, map_option (stat_inc nCheckpointInodesFreed) stats,
                drop_inode w (sivfs_gc_entry_to_inode entry)))"

section \<open>Groups of blocked entries\<close>

definition set_blocked :: "sivfs_stack rt \<Rightarrow> cp_world \<Rightarrow> cp_world" where
  "set_blocked t w = w\<lparr>cw_checkpoints := (cw_checkpoints w)\<lparr>gc_blocked_entries := t\<rparr>\<rparr>"

abbreviation blocked :: "cp_world \<Rightarrow> sivfs_stack rt" where
  "blocked w \<equiv> gc_blocked_entries (cw_checkpoints w)"

definition empty_stack :: sivfs_stack where
  "empty_stack = \<lparr>stack_size = 0, stack_capacity = 0, stack_values = []\<rparr>"

text \<open>On success the group exists; its address is its index.\<close>

definition sivfs_gc_get_blocked_entries :: "cp_world \<Rightarrow> sivfs_ts \<Rightarrow> rc \<times> cp_world" where
  "sivfs_gc_get_blocked_entries w ts =
     (case radix_tree_lookup (blocked w) ts of
        Some stack \<Rightarrow> (OK, w)
      | None \<Rightarrow>
          let (kzalloc_ok, w1) = next_alloc w in
          case sivfs_new_stack kzalloc_ok of
            (OK, stack) \<Rightarrow>
              (let (insert_ok, w2) = next_alloc w1;
                   (r, t) = radix_tree_insert insert_ok (blocked w2) ts stack
               in (r, set_blocked t w2))
          | (r, _) \<Rightarrow> (r, w1))"

definition push_blocked :: "cp_world \<Rightarrow> sivfs_ts \<Rightarrow> u64 \<Rightarrow> rc \<times> cp_world" where
  "push_blocked w ts entry =
     (case radix_tree_lookup (blocked w) ts of
        None \<Rightarrow> (UB, w)
      | Some stack \<Rightarrow>
          let (ok, w1) = next_alloc w;
              (r, stack') = sivfs_stack_push ok stack entry
          in (r, set_blocked (rt_ins ts stack' (blocked w1)) w1))"

text \<open>The version an entry has to wait for; \<^verbatim>\<open>SIVFS_INVALID_TS\<close> when it can be freed.\<close>

definition reassign_target :: "sivfs_ts \<Rightarrow> sivfs_ts \<Rightarrow> sivfs_ts list \<Rightarrow> sivfs_ts \<Rightarrow> sivfs_ts" where
  "reassign_target start_ts obsoleted_ts versions latest_snapshot =
     (if obsoleted_ts > latest_snapshot then latest_snapshot
      else foldl (\<lambda>reassign_to blocker.
             if sivfs_ts_range_contains start_ts obsoleted_ts blocker then blocker else reassign_to)
             SIVFS_INVALID_TS versions)"

definition sivfs_gc_or_reassign_entry ::
  "sivfs_ts list \<Rightarrow> sivfs_ts \<Rightarrow> bool \<times> sivfs_stats option \<times> cp_world \<Rightarrow> u64 \<Rightarrow>
   rc \<times> bool \<times> sivfs_stats option \<times> cp_world" where
  "sivfs_gc_or_reassign_entry versions latest_snapshot g entry =
     (case g of (did_gc, stats, w) \<Rightarrow>
        (case sivfs_gc_entry_to_lifetime w entry of
           (OK, start_ts, obsoleted_ts) \<Rightarrow>
             (let reassign_to = reassign_target start_ts obsoleted_ts versions latest_snapshot in
              if reassign_to = SIVFS_INVALID_TS then
                (case sivfs_gc_free_entry w stats entry of (r, stats', w') \<Rightarrow> (r, True, stats', w'))
              else
                (case sivfs_gc_get_blocked_entries w reassign_to of
                   (OK, w1) \<Rightarrow> (case push_blocked w1 reassign_to entry of (r, w2) \<Rightarrow> (r, did_gc, stats, w2))
                 | (r, w1) \<Rightarrow> (r, did_gc, stats, w1)))
         | (r, _, _) \<Rightarrow> (r, did_gc, stats, w)))"

definition sivfs_gc_blocked_entries_empty :: "cp_world \<Rightarrow> bool" where
  "sivfs_gc_blocked_entries_empty w \<longleftrightarrow> list_all (\<lambda>(_, pages). stack_size pages = 0) (blocked w)"

section \<open>The collector of checkpoints\<close>

text \<open>The loop that empties one group; each round looks at the top of the stack and pops it on success.\<close>

fun gc_group :: "nat \<Rightarrow> sivfs_ts list \<Rightarrow> sivfs_ts \<Rightarrow> sivfs_ts \<Rightarrow> bool \<times> sivfs_stats option \<times> cp_world \<Rightarrow>
   rc \<times> bool \<times> sivfs_stats option \<times> cp_world" where
  "gc_group fuel versions latest_snapshot ts (did_gc, stats, w) =
     (case radix_tree_lookup (blocked w) ts of
        None \<Rightarrow> (UB, did_gc, stats, w)
      | Some grp \<Rightarrow>
          if sivfs_stack_empty grp then (OK, did_gc, stats, w)
          else (case fuel of
             0 \<Rightarrow> (HANG, did_gc, stats, w)
           | Suc fuel' \<Rightarrow>
               (case sivfs_gc_or_reassign_entry versions latest_snapshot (did_gc, stats, w) (sivfs_stack_peek grp) of
                  (OK, did_gc1, stats1, w1) \<Rightarrow>
                    (case radix_tree_lookup (blocked w1) ts of
                       None \<Rightarrow> (UB, did_gc1, stats1, w1)
                     | Some grp1 \<Rightarrow>
                         gc_group fuel' versions latest_snapshot ts
                           (did_gc1, stats1, set_blocked (rt_ins ts (snd (sivfs_stack_pop grp1)) (blocked w1)) w1))
                | (r, g) \<Rightarrow> (r, g))))"

definition still_blocked :: "sivfs_ts list \<Rightarrow> sivfs_ts \<Rightarrow> sivfs_ts \<Rightarrow> bool" where
  "still_blocked versions latest_snapshot blocked_ts \<longleftrightarrow>
     blocked_ts \<noteq> SIVFS_INVALID_TS \<and> (blocked_ts \<ge> latest_snapshot \<or> blocked_ts \<in> set versions)"

lemma rt_from_Cons_ge: "rt_from t i = (j, s) # rest \<Longrightarrow> i \<le> j"
proof -
  assume "rt_from t i = (j, s) # rest"
  then have "\<not> (case (j, s) of (j, _) \<Rightarrow> j < i)"
    unfolding rt_from_def by (metis hd_dropWhile list.distinct(1) list.sel(1))
  then show ?thesis by simp
qed

function gc_groups :: "sivfs_ts list \<Rightarrow> sivfs_ts \<Rightarrow> u64 \<Rightarrow> bool \<times> sivfs_stats option \<times> cp_world \<Rightarrow>
   rc \<times> bool \<times> sivfs_stats option \<times> cp_world" where
  "gc_groups versions latest_snapshot index (did_gc, stats, w) =
     (case rt_from (blocked w) index of
        [] \<Rightarrow> (OK, did_gc, stats, w)
      | (blocked_ts, grp) # _ \<Rightarrow>
          if still_blocked versions latest_snapshot blocked_ts then
            (if blocked_ts = - 1 then (OK, did_gc, stats, w)
             else gc_groups versions latest_snapshot (blocked_ts + 1) (did_gc, stats, w))
          else
            (case gc_group (stack_size grp) versions latest_snapshot blocked_ts (did_gc, stats, w) of
               (OK, did_gc1, stats1, w1) \<Rightarrow>
                 (let w2 = set_blocked (radix_tree_delete (blocked w1) blocked_ts) w1 in
                  if blocked_ts = - 1 then (OK, did_gc1, stats1, w2)
                  else gc_groups versions latest_snapshot (blocked_ts + 1) (did_gc1, stats1, w2))
             | (r, g) \<Rightarrow> (r, g)))"
  by pat_completeness auto

lemma next_index_measure:
  assumes "rt_from t i = (j, s) # rest" and "j \<noteq> - 1"
  shows "2 ^ 64 - unat (j + 1) < 2 ^ 64 - unat (i::u64)"
proof -
  have "j + 1 \<noteq> 0" using assms(2) by (metis add.inverse_unique add.commute)
  then have "unat (j + 1) = unat j + 1" by (rule unat_inc)
  moreover have "unat i \<le> unat j" using rt_from_Cons_ge [OF assms(1)] by (simp add: word_le_nat_alt)
  ultimately show ?thesis using unat_less_u64 [of "j + 1"] by linarith
qed

termination gc_groups
  by (relation "measure (\<lambda>(_, _, i, _). 2 ^ 64 - unat i)") (auto dest: next_index_measure)

text \<open>
  \<open>stats\<close> belongs to the calling task (\<open>None\<close>: the task has no state, which is refused); \<open>interrupted\<close> is the
  outcome of \<^verbatim>\<open>mutex_lock_interruptible\<close>.  The result carries the value written to \<^verbatim>\<open>did_gc_out\<close>, \<open>None\<close> when the
  function fails.
\<close>

definition sivfs_gc_checkpoints ::
  "sivfs_state rt \<Rightarrow> errno option \<Rightarrow> sivfs_stats option \<Rightarrow> cp_world \<Rightarrow>
   rc \<times> bool option \<times> sivfs_stats option \<times> cp_world" where
  "sivfs_gc_checkpoints threads interrupted stats w =
     (if stats = None then (E EINVAL, None, stats, w)
      else case interrupted of Some e \<Rightarrow> (E e, None, stats, w) | None \<Rightarrow>
        (case sivfs_gc_get_blocked_entries w SIVFS_INVALID_TS of
           (OK, w1) \<Rightarrow>
             (let (ok, w2) = next_alloc w1;
                  (r, dest) = sivfs_stack_push_all ok
                                (radix_tree_lookup (blocked w2) SIVFS_INVALID_TS)
                                (Some (obsoleted_entries (cw_checkpoints w2)))
              in if r \<noteq> OK then (r, None, stats, w2)
                 else
                   let w3 = set_blocked (case dest of None \<Rightarrow> blocked w2 | Some u \<Rightarrow> rt_ins SIVFS_INVALID_TS u (blocked w2)) w2;
                       w4 = w3\<lparr>cw_checkpoints := (cw_checkpoints w3)\<lparr>obsoleted_entries :=
                                 (obsoleted_entries (cw_checkpoints w3))\<lparr>stack_size := 0\<rparr>\<rparr>\<rparr>
                   in if sivfs_gc_blocked_entries_empty w4 then (OK, Some False, stats, w4)
                      else
                        let latest_snapshot = latest_checkpoint_published (cw_checkpoints w4);
                            (new_ok, w5) = next_alloc w4
                        in case sivfs_new_stack new_ok of
                             (OK, tmp) \<Rightarrow>
                               (case sivfs_get_checked_out_versions threads tmp w5 of
                                  (OK, versions, w6) \<Rightarrow>
                                    (case gc_groups (stack_elems versions) latest_snapshot 0 (False, stats, w6) of
                                       (r', did_gc, stats', w7) \<Rightarrow>
                                         (r', if r' = OK then Some did_gc else None, stats', w7))
                                | (r', _, w6) \<Rightarrow> (r', None, stats, w6))
                           | (r', _) \<Rightarrow> (r', None, stats, w5))
         | (r, w1) \<Rightarrow> (r, None, stats, w1)))"

section \<open>The collector of the log\<close>

definition sivfs_gc_log ::
  "sivfs_state rt \<Rightarrow> cp_world \<Rightarrow> sivfs_shared_state \<Rightarrow> rc \<times> bool option \<times> cp_world \<times> sivfs_shared_state" where
  "sivfs_gc_log threads w s =
     (let latest_snapshot = latest_checkpoint_published (cw_checkpoints w);
          (new_ok, w1) = next_alloc w
      in case sivfs_new_stack new_ok of
           (OK, tmp) \<Rightarrow>
             (case sivfs_get_checked_out_versions threads tmp w1 of
                (OK, versions, w2) \<Rightarrow>
                  (let stop_ts = foldl min latest_snapshot (stack_elems versions) in
                   case sivfs_delete_log False s stop_ts of
                     (OK, did_gc, s') \<Rightarrow> (OK, Some did_gc, w2, s')
                   | (r, _, s') \<Rightarrow> (r, None, w2, s'))
              | (r, _, w2) \<Rightarrow> (r, None, w2, s))
         | (r, _) \<Rightarrow> (r, None, w1, s))"

section \<open>What the collector keeps account of\<close>

definition group_entries :: "sivfs_stack rt \<Rightarrow> u64 multiset" where
  "group_entries t = sum_list (map (\<lambda>(_, s). mset (stack_elems s)) t)"

definition groups_ok :: "cp_world \<Rightarrow> bool" where
  "groups_ok w \<longleftrightarrow> rt_inv (blocked w) \<and> (\<forall>i s. radix_tree_lookup (blocked w) i = Some s \<longrightarrow> stack_inv s)"

definition gc_free_to_collect :: "sivfs_ts list \<Rightarrow> sivfs_ts \<Rightarrow> cp_world \<Rightarrow> u64 \<Rightarrow> bool" where
  "gc_free_to_collect versions lat w e \<longleftrightarrow>
     (\<exists>a b. sivfs_gc_entry_to_lifetime w e = (OK, a, b) \<and> b \<le> lat \<and>
        (\<forall>v \<in> set versions. \<not> sivfs_ts_range_contains a b v))"

text \<open>\<open>freed\<close> are the entries whose page or inode may be gone in the later world.\<close>

definition only_freed :: "u64 list \<Rightarrow> cp_world \<Rightarrow> cp_world \<Rightarrow> bool" where
  "only_freed freed w w' \<longleftrightarrow>
     (\<forall>p. cps_pages (cw_store w') p = cps_pages (cw_store w) p \<or> cps_pages (cw_store w') p = None \<and>
        (\<exists>e \<in> set freed. sivfs_gc_entry_to_type e = Inr SIVFS_GC_ENTRY_PAGE \<and> sivfs_gc_entry_to_page e = p)) \<and>
     (\<forall>c. cw_inodes w' c = cw_inodes w c \<or> cw_inodes w' c = None \<and>
        (\<exists>e \<in> set freed. sivfs_gc_entry_to_type e = Inr SIVFS_GC_ENTRY_INODE \<and> sivfs_gc_entry_to_inode e = c))"

definition collects :: "sivfs_ts list \<Rightarrow> sivfs_ts \<Rightarrow> u64 list \<Rightarrow> cp_world \<Rightarrow> cp_world \<Rightarrow> bool" where
  "collects versions lat freed w w' \<longleftrightarrow>
     only_freed freed w w' \<and> (\<forall>e \<in> set freed. gc_free_to_collect versions lat w e) \<and>
     obsoleted_entries (cw_checkpoints w') = obsoleted_entries (cw_checkpoints w) \<and>
     latest_checkpoint_published (cw_checkpoints w') = latest_checkpoint_published (cw_checkpoints w)"

lemma group_entries_Nil [simp]: "group_entries [] = {#}"
  by (simp add: group_entries_def)

lemma group_entries_Cons [simp]: "group_entries ((i, s) # t) = mset (stack_elems s) + group_entries t"
  by (simp add: group_entries_def)

lemma group_entries_new:
  "radix_tree_lookup t i = None \<Longrightarrow> group_entries (rt_ins i s t) = mset (stack_elems s) + group_entries t"
  by (induction i s t rule: rt_ins.induct)
     (auto simp: radix_tree_lookup_def ac_simps split: if_splits)

lemma group_entries_old:
  assumes "rt_inv t" and "radix_tree_lookup t i = Some s0"
  shows "group_entries (rt_ins i s t) + mset (stack_elems s0) = group_entries t + mset (stack_elems s)"
  using assms
proof (induction i s t rule: rt_ins.induct)
  case (2 i v j w t)
  then show ?case
  proof (cases "i = j")
    case False
    then have "(i, s0) \<in> set t" using "2.prems"(2) by (auto simp: radix_tree_lookup_def dest: map_of_SomeD)
    then have "\<not> i < j" using "2.prems"(1) by force
    with False 2 show ?thesis by (auto simp: radix_tree_lookup_def ac_simps)
  qed (auto simp: radix_tree_lookup_def ac_simps)
qed (simp add: radix_tree_lookup_def)

lemma group_entries_delete:
  assumes "rt_inv t" and "radix_tree_lookup t i = Some s0"
  shows "group_entries (radix_tree_delete t i) + mset (stack_elems s0) = group_entries t"
  using assms
proof (induction t)
  case (Cons p t)
  obtain j s where p: "p = (j, s)" by fastforce
  show ?case
  proof (cases "i = j")
    case True
    then have "\<forall>q \<in> set t. fst q \<noteq> i" using Cons.prems(1) p by force
    then have "radix_tree_delete (p # t) i = t"
      using p True by (auto simp: radix_tree_delete_def filter_id_conv)
    then show ?thesis using Cons.prems(2) p True by (simp add: radix_tree_lookup_def)
  next
    case False
    then show ?thesis using Cons p by (simp add: radix_tree_delete_def radix_tree_lookup_def ac_simps)
  qed
qed (simp add: radix_tree_lookup_def)

lemma blocked_set [simp]: "blocked (set_blocked t w) = t"
  by (simp add: set_blocked_def)

lemma set_blocked_frame [simp]:
  "cw_store (set_blocked t w) = cw_store w" "cw_inodes (set_blocked t w) = cw_inodes w"
  "obsoleted_entries (cw_checkpoints (set_blocked t w)) = obsoleted_entries (cw_checkpoints w)"
  "latest_checkpoint_published (cw_checkpoints (set_blocked t w)) = latest_checkpoint_published (cw_checkpoints w)"
  "cw_allocs (set_blocked t w) = cw_allocs w"
  by (simp_all add: set_blocked_def)

lemma lifetime_only_freed:
  assumes "only_freed freed w w'" and "sivfs_gc_entry_to_lifetime w' e = (OK, a, b)"
  shows "sivfs_gc_entry_to_lifetime w e = (OK, a, b)"
proof -
  have "cps_pages (cw_store w') (sivfs_gc_entry_to_page e) = cps_pages (cw_store w) (sivfs_gc_entry_to_page e) \<or>
      cps_pages (cw_store w') (sivfs_gc_entry_to_page e) = None"
    and "cw_inodes w' (sivfs_gc_entry_to_inode e) = cw_inodes w (sivfs_gc_entry_to_inode e) \<or>
      cw_inodes w' (sivfs_gc_entry_to_inode e) = None"
    using assms(1) unfolding only_freed_def by metis+
  with assms(2) show ?thesis
    by (auto simp: sivfs_gc_entry_to_lifetime_def split: sum.splits if_splits)
qed

lemma collects_same:
  assumes "cw_store w' = cw_store w" and "cw_inodes w' = cw_inodes w"
    and "obsoleted_entries (cw_checkpoints w') = obsoleted_entries (cw_checkpoints w)"
    and "latest_checkpoint_published (cw_checkpoints w') = latest_checkpoint_published (cw_checkpoints w)"
  shows "collects versions lat [] w w'"
  using assms by (simp add: collects_def only_freed_def)

lemma only_freed_trans:
  assumes "only_freed f1 w w1" and "only_freed f2 w1 w2"
  shows "only_freed (f1 @ f2) w w2"
  unfolding only_freed_def
proof (intro conjI allI)
  fix p
  show "cps_pages (cw_store w2) p = cps_pages (cw_store w) p \<or> cps_pages (cw_store w2) p = None \<and>
    (\<exists>e \<in> set (f1 @ f2). sivfs_gc_entry_to_type e = Inr SIVFS_GC_ENTRY_PAGE \<and> sivfs_gc_entry_to_page e = p)"
    using assms unfolding only_freed_def set_append bex_Un by metis
next
  fix c
  show "cw_inodes w2 c = cw_inodes w c \<or> cw_inodes w2 c = None \<and>
    (\<exists>e \<in> set (f1 @ f2). sivfs_gc_entry_to_type e = Inr SIVFS_GC_ENTRY_INODE \<and> sivfs_gc_entry_to_inode e = c)"
    using assms unfolding only_freed_def set_append bex_Un by metis
qed

lemma collects_trans:
  assumes "collects versions lat f1 w w1" and "collects versions lat f2 w1 w2"
  shows "collects versions lat (f1 @ f2) w w2"
proof -
  have "only_freed (f1 @ f2) w w2"
    using only_freed_trans assms unfolding collects_def by blast
  moreover have "gc_free_to_collect versions lat w e" if "e \<in> set f2" for e
    using assms that lifetime_only_freed [of f1 w w1]
    unfolding collects_def gc_free_to_collect_def by blast
  ultimately show ?thesis using assms by (auto simp: collects_def)
qed

section \<open>One entry\<close>

lemma reassign_foldl:
  "foldl (\<lambda>r b. if sivfs_ts_range_contains a z b then b else r) r0 vs = r \<Longrightarrow>
    (r = r0 \<and> (\<forall>v \<in> set vs. \<not> sivfs_ts_range_contains a z v)) \<or> (r \<in> set vs \<and> sivfs_ts_range_contains a z r)"
proof (induction vs arbitrary: r0)
  case (Cons v vs)
  let ?r0 = "if sivfs_ts_range_contains a z v then v else r0"
  from Cons.prems have "foldl (\<lambda>r b. if sivfs_ts_range_contains a z b then b else r) ?r0 vs = r" by simp
  from Cons.IH [OF this] show ?case by (cases "sivfs_ts_range_contains a z v") auto
qed simp

lemma reassign_target_free:
  assumes "reassign_target a z versions lat = SIVFS_INVALID_TS"
  shows "z \<le> lat \<and> (\<forall>v \<in> set versions. \<not> sivfs_ts_range_contains a z v)"
proof -
  have "\<not> sivfs_ts_range_contains a z SIVFS_INVALID_TS" by (simp add: sivfs_ts_range_contains_def)
  then show ?thesis
    using assms reassign_foldl [of a z SIVFS_INVALID_TS versions SIVFS_INVALID_TS]
    by (auto simp: reassign_target_def not_less split: if_splits)
qed

lemma reassign_target_blocked:
  assumes "reassign_target a z versions lat = t" and "t \<noteq> SIVFS_INVALID_TS"
  shows "still_blocked versions lat t"
  using assms reassign_foldl [of a z SIVFS_INVALID_TS versions t]
  by (auto simp: reassign_target_def still_blocked_def split: if_splits)

lemma get_blocked_entries_ok:
  assumes "groups_ok w" and "sivfs_gc_get_blocked_entries w ts = (r, w')"
  shows "groups_ok w' \<and> group_entries (blocked w') = group_entries (blocked w) \<and>
    collects versions lat [] w w' \<and> (r = OK \<or> r = E ENOMEM) \<and> (r = OK \<longrightarrow> radix_tree_lookup (blocked w') ts \<noteq> None) \<and>
    (\<forall>j. j \<noteq> ts \<longrightarrow> radix_tree_lookup (blocked w') j = radix_tree_lookup (blocked w) j) \<and>
    (\<forall>s. radix_tree_lookup (blocked w) ts = Some s \<longrightarrow> w' = w) \<and> cw_new_inodes w' = cw_new_inodes w"
proof (cases "radix_tree_lookup (blocked w) ts")
  case (Some s)
  then show ?thesis using assms by (auto simp: sivfs_gc_get_blocked_entries_def intro: collects_same)
next
  case None
  obtain b1 w1 where a1: "next_alloc w = (b1, w1)" by fastforce
  obtain b2 w2 where a2: "next_alloc w1 = (b2, w2)" by fastforce
  note f1 = alloc_frameD [OF next_alloc_frame [OF a1]]
  note f2 = alloc_frameD [OF next_alloc_frame [OF a2]]
  have e: "stack_inv empty_stack" "stack_elems empty_stack = []"
    by (simp_all add: empty_stack_def stack_inv_def stack_elems_def)
  show ?thesis
  proof (cases "b1 \<and> b2")
    case True
    then have w': "r = OK" "w' = set_blocked (rt_ins ts empty_stack (blocked w)) w2"
      using assms(2) None a1 a2 f1 f2
      by (simp_all add: sivfs_gc_get_blocked_entries_def sivfs_new_stack_def radix_tree_insert_def empty_stack_def)
    have "groups_ok w'" using assms(1) e by (auto simp: w' groups_ok_def radix_tree_lookup_def)
    then show ?thesis
      using f1 f2 None group_entries_new [OF None, of empty_stack]
      by (auto simp: w' e radix_tree_lookup_def set_blocked_def intro!: collects_same)
  next
    case False
    then have w': "r = E ENOMEM" "w' = w1 \<or> w' = set_blocked (blocked w) w2"
      using assms(2) None a1 a2 f1 f2
      by (auto simp: sivfs_gc_get_blocked_entries_def sivfs_new_stack_def radix_tree_insert_def split: if_splits)
    then show ?thesis using assms(1) f1 f2 None
      by (auto simp: groups_ok_def set_blocked_def intro!: collects_same)
  qed
qed

lemma push_blocked_ok:
  assumes "groups_ok w" and "radix_tree_lookup (blocked w) ts = Some s" and "push_blocked w ts e = (r, w')"
  shows "groups_ok w' \<and> collects versions lat [] w w' \<and> (r = OK \<or> r = E ENOMEM) \<and>
    group_entries (blocked w') = group_entries (blocked w) + (if r = OK then {#e#} else {#}) \<and>
    (\<forall>j. j \<noteq> ts \<longrightarrow> radix_tree_lookup (blocked w') j = radix_tree_lookup (blocked w) j)"
proof -
  obtain b w1 where a: "next_alloc w = (b, w1)" by fastforce
  obtain r1 s' where p: "sivfs_stack_push b s e = (r1, s')" by fastforce
  note f = alloc_frameD [OF next_alloc_frame [OF a]]
  have s: "stack_inv s" and t: "rt_inv (blocked w)" using assms(1,2) by (auto simp: groups_ok_def)
  have w': "r = r1" "w' = set_blocked (rt_ins ts s' (blocked w)) w1"
    using assms(2,3) a p f by (simp_all add: push_blocked_def)
  have c: "(r1 = OK \<and> stack_inv s' \<and> stack_elems s' = stack_elems s @ [e]) \<or> (r1 = E ENOMEM \<and> s' = s)"
    by (rule stack_push_cases [OF s p])
  then have "groups_ok w'" using assms(1) s by (auto simp: w' groups_ok_def radix_tree_lookup_def)
  moreover have "group_entries (blocked w') = group_entries (blocked w) + (if r = OK then {#e#} else {#})"
    using group_entries_old [OF t assms(2), of s'] c by (auto simp: w')
  moreover have "collects versions lat [] w w'" using f by (auto simp: w' intro!: collects_same)
  ultimately show ?thesis using c by (auto simp: w' radix_tree_lookup_def)
qed

lemma put_checkpoint_page_some:
  assumes "cps_pages st p = Some pg" and "sivfs_put_checkpoint_page st p = (r, st')"
  shows "r = OK \<and> (\<forall>q. cps_pages st' q = cps_pages st q \<or> q = p \<and> cps_pages st' q = None)"
  using assms by (auto simp: sivfs_put_checkpoint_page_def split: option.splits if_splits)

lemma free_entry_ok:
  assumes "sivfs_gc_entry_to_lifetime w e = (OK, a, b)" and "sivfs_gc_free_entry w stats e = (r, stats', w')"
  shows "r = OK \<and> only_freed [e] w w' \<and> cw_checkpoints w' = cw_checkpoints w"
proof -
  obtain ty where ty: "sivfs_gc_entry_to_type e = Inr ty"
    using assms(1) by (auto simp: sivfs_gc_entry_to_lifetime_def split: sum.splits)
  show ?thesis
  proof (cases "ty = SIVFS_GC_ENTRY_INODE")
    case True
    then have "r = OK" "w' = drop_inode w (sivfs_gc_entry_to_inode e)"
      using assms(2) ty gc_page_ne_inode by (auto simp: sivfs_gc_free_entry_def)
    then show ?thesis using ty True by (auto simp: only_freed_def drop_inode_def)
  next
    case False
    then have page: "ty = SIVFS_GC_ENTRY_PAGE"
      using ty by (auto simp: sivfs_gc_entry_to_type_def Let_def split: if_splits)
    obtain p where p: "cps_pages (cw_store w) (sivfs_gc_entry_to_page e) = Some p"
      using assms(1) ty False by (auto simp: sivfs_gc_entry_to_lifetime_def split: option.splits)
    obtain st where st: "sivfs_put_checkpoint_page (cw_store w) (sivfs_gc_entry_to_page e) = (OK, st)"
      "\<forall>q. cps_pages st q = cps_pages (cw_store w) q \<or> q = sivfs_gc_entry_to_page e \<and> cps_pages st q = None"
      using put_checkpoint_page_some [OF p] by (cases "sivfs_put_checkpoint_page (cw_store w) (sivfs_gc_entry_to_page e)") auto
    then have w': "r = OK" "w' = w\<lparr>cw_store := st\<rparr>"
      using assms(2) ty page by (auto simp: sivfs_gc_free_entry_def)
    have "only_freed [e] w w'" using st(2) ty page unfolding only_freed_def w' by auto
    then show ?thesis by (simp add: w')
  qed
qed

text \<open>
  What happens to one entry: it is freed, or joins another group, or (on an error) nothing has happened to it.
\<close>

lemma or_reassign_ok:
  assumes "groups_ok w" and "sivfs_gc_or_reassign_entry versions lat (did, stats, w) e = (r, did', stats', w')"
  shows "groups_ok w' \<and> r \<noteq> HANG \<and>
    (\<forall>j. \<not> still_blocked versions lat j \<longrightarrow> radix_tree_lookup (blocked w') j = radix_tree_lookup (blocked w) j) \<and>
    (\<exists>freed. collects versions lat freed w w' \<and>
       group_entries (blocked w') + mset freed = group_entries (blocked w) + (if r = OK then {#e#} else {#}))"
proof -
  obtain q a b where life: "sivfs_gc_entry_to_lifetime w e = (q, a, b)" by (metis prod_cases3)
  have q: "q \<noteq> HANG"
    using life by (auto simp: sivfs_gc_entry_to_lifetime_def split: sum.splits if_splits option.splits)
  show ?thesis
  proof (cases "q = OK")
    case False
    then have "r = q" "w' = w" using assms(2) life by (auto simp: sivfs_gc_or_reassign_entry_def split: rc.splits)
    then show ?thesis using assms(1) False q by (auto intro!: exI [of _ "[]"] collects_same)
  next
    case ok: True
    let ?t = "reassign_target a b versions lat"
    show ?thesis
    proof (cases "?t = SIVFS_INVALID_TS")
      case True
      obtain r1 st1 w1 where f: "sivfs_gc_free_entry w stats e = (r1, st1, w1)" by (metis prod_cases3)
      have e: "r = r1" "w' = w1" using assms(2) life ok True f by (auto simp: sivfs_gc_or_reassign_entry_def)
      have "gc_free_to_collect versions lat w e"
        using life ok reassign_target_free [OF True] by (auto simp: gc_free_to_collect_def)
      then show ?thesis using free_entry_ok [OF life [unfolded ok] f] assms(1)
        by (auto simp: e collects_def groups_ok_def intro!: exI [of _ "[e]"])
    next
      case False
      have sb: "j \<noteq> ?t" if "\<not> still_blocked versions lat j" for j
        using reassign_target_blocked [OF refl False] that by blast
      obtain r1 w1 where g: "sivfs_gc_get_blocked_entries w ?t = (r1, w1)" by fastforce
      note g' = get_blocked_entries_ok [OF assms(1) g, of versions lat]
      show ?thesis
      proof (cases "r1 = OK")
        case False
        then have "r = r1" "w' = w1"
          using assms(2) life ok \<open>?t \<noteq> SIVFS_INVALID_TS\<close> g
          by (auto simp: sivfs_gc_or_reassign_entry_def split: rc.splits)
        then show ?thesis using g' False sb by (auto intro!: exI [of _ "[]"])
      next
        case True
        obtain s where s: "radix_tree_lookup (blocked w1) ?t = Some s" using g' True by auto
        obtain r2 w2 where p: "push_blocked w1 ?t e = (r2, w2)" by fastforce
        have e: "r = r2" "w' = w2"
          using assms(2) life ok \<open>?t \<noteq> SIVFS_INVALID_TS\<close> g True p
          by (auto simp: sivfs_gc_or_reassign_entry_def)
        have g1: "groups_ok w1" using g' by blast
        note p' = push_blocked_ok [OF g1 s p, of versions lat]
        have "collects versions lat ([] @ []) w w2" using g' p' collects_trans by blast
        then show ?thesis using g' p' sb by (auto simp: e intro!: exI [of _ "[]"])
      qed
    qed
  qed
qed

section \<open>One group\<close>

lemma mset_balance:
  fixes x :: "u64 multiset"
  assumes "x + {#l#} = w1" and "w1 + mset f1 = w + {#l#}" and "w' + mset f2 = x"
  shows "w' + mset (f1 @ f2) = w"
proof -
  have "x + mset f1 + {#l#} = w + {#l#}" unfolding assms(2) [symmetric] assms(1) [symmetric] by (simp add: ac_simps)
  then have "x + mset f1 = w" by simp
  then show ?thesis unfolding assms(3) [symmetric] by (simp add: ac_simps)
qed

lemma gc_group_ok:
  assumes "groups_ok w" and "radix_tree_lookup (blocked w) ts = Some grp" and "\<not> still_blocked versions lat ts"
    and "stack_size grp \<le> fuel" and "gc_group fuel versions lat ts (did, stats, w) = (r, did', stats', w')"
  shows "groups_ok w' \<and> r \<noteq> HANG \<and>
    (\<forall>j. \<not> still_blocked versions lat j \<longrightarrow> j \<noteq> ts \<longrightarrow> radix_tree_lookup (blocked w') j = radix_tree_lookup (blocked w) j) \<and>
    (r = OK \<longrightarrow> (\<exists>g. radix_tree_lookup (blocked w') ts = Some g \<and> stack_elems g = [])) \<and>
    (\<exists>freed. collects versions lat freed w w' \<and>
       group_entries (blocked w') + mset freed = group_entries (blocked w))"
  using assms
proof (induction fuel arbitrary: w grp did stats)
  case (0 w grp did stats)
  then have "stack_size grp = 0" by simp
  moreover have "stack_elems grp = []" using 0 by (simp add: stack_elems_def)
  ultimately show ?case using 0
    by (auto simp: sivfs_stack_empty_def intro!: exI [of _ "[]"] collects_same)
next
  case (Suc fuel w grp did stats)
  have inv: "stack_inv grp" "rt_inv (blocked w)" using Suc.prems(1,2) by (auto simp: groups_ok_def)
  show ?case
  proof (cases "sivfs_stack_empty grp")
    case True
    then have "stack_elems grp = []" by (simp add: sivfs_stack_empty_def stack_elems_def)
    with True Suc.prems show ?thesis
      by (auto intro!: exI [of _ "[]"] collects_same)
  next
    case False
    then have ne: "stack_elems grp \<noteq> []" "stack_size grp \<noteq> 0"
      using stk.is_empty_iff [OF inv(1)] by (auto simp: sivfs_stack_empty_def)
    obtain r1 did1 stats1 w1 where
      o: "sivfs_gc_or_reassign_entry versions lat (did, stats, w) (sivfs_stack_peek grp) = (r1, did1, stats1, w1)"
      by (metis prod_cases4)
    note o' = or_reassign_ok [OF Suc.prems(1) o]
    show ?thesis
    proof (cases "r1 = OK")
      case err: False
      then have "r = r1" "w' = w1"
        using Suc.prems(2,5) False o by (auto split: rc.splits)
      then show ?thesis using o' err by auto
    next
      case ok: True
      have l1: "radix_tree_lookup (blocked w1) ts = Some grp" using o' Suc.prems(2,3) by simp
      let ?g = "snd (sivfs_stack_pop grp)"
      let ?w2 = "set_blocked (rt_ins ts ?g (blocked w1)) w1"
      have pop: "stack_inv ?g" "stack_elems ?g = butlast (stack_elems grp)"
          "sivfs_stack_peek grp = last (stack_elems grp)" "stack_size ?g \<le> fuel"
        using stk.pop_elems [OF inv(1) ne(1)] stk.peek_elems [OF inv(1) ne(1)] ne(2) Suc.prems(4)
        by (auto simp: sivfs_stack_pop_def sivfs_stack_empty_def)
      have g2: "groups_ok ?w2" using o' pop(1) by (auto simp: groups_ok_def radix_tree_lookup_def)
      have l2: "radix_tree_lookup (blocked ?w2) ts = Some ?g" by (simp add: radix_tree_lookup_def)
      have step: "gc_group fuel versions lat ts (did1, stats1, ?w2) = (r, did', stats', w')"
        using Suc.prems(2,5) False o ok l1 by simp
      note IH = Suc.IH [OF g2 l2 Suc.prems(3) pop(4) step]
      obtain f1 where f1: "collects versions lat f1 w w1"
          "group_entries (blocked w1) + mset f1 = group_entries (blocked w) + {#last (stack_elems grp)#}"
        using o' ok pop(3) by auto
      obtain f2 where f2: "collects versions lat f2 ?w2 w'"
          "group_entries (blocked w') + mset f2 = group_entries (blocked ?w2)" using IH by blast
      have "rt_inv (blocked w1)" using o' by (simp add: groups_ok_def)
      note old = group_entries_old [OF this l1, of ?g]
      have split: "mset (stack_elems grp) = mset (stack_elems ?g) + {#last (stack_elems grp)#}"
        using ne(1) append_butlast_last_id [of "stack_elems grp"] pop(2) by (metis mset_append mset.simps mset_single_iff)
      have x: "group_entries (blocked ?w2) + {#last (stack_elems grp)#} = group_entries (blocked w1)"
        using old by (simp add: split add.assoc [symmetric])
      have bal: "group_entries (blocked w') + mset (f1 @ f2) = group_entries (blocked w)"
        by (rule mset_balance [OF x f1(2) f2(2)])
      have "collects versions lat (f1 @ ([] @ f2)) w w'"
        using collects_trans [OF f1(1) collects_trans [OF collects_same [of ?w2 w1] f2(1)]] by simp
      then have "\<exists>freed. collects versions lat freed w w' \<and> group_entries (blocked w') + mset freed = group_entries (blocked w)"
        using bal by auto
      moreover have "radix_tree_lookup (blocked w') j = radix_tree_lookup (blocked w) j"
        if "\<not> still_blocked versions lat j" "j \<noteq> ts" for j
        using IH o' that by (simp add: radix_tree_lookup_def)
      ultimately show ?thesis using IH by blast
    qed
  qed
qed

section \<open>All groups\<close>

lemma gc_groups_ok:
  assumes "groups_ok w"
    and "\<And>j s. radix_tree_lookup (blocked w) j = Some s \<Longrightarrow> j < index \<Longrightarrow> still_blocked versions lat j"
    and "gc_groups versions lat index (did, stats, w) = (r, did', stats', w')"
  shows "groups_ok w' \<and> r \<noteq> HANG \<and>
    (r = OK \<longrightarrow> (\<forall>j s. radix_tree_lookup (blocked w') j = Some s \<longrightarrow> still_blocked versions lat j)) \<and>
    (\<exists>freed. collects versions lat freed w w' \<and> group_entries (blocked w') + mset freed = group_entries (blocked w))"
  using assms
proof (induction versions lat index "(did, stats, w)" arbitrary: did stats w rule: gc_groups.induct)
  case (1 versions lat index did stats w)
  have inv: "rt_inv (blocked w)" using "1.prems"(1) by (simp add: groups_ok_def)
  have refl_case: "groups_ok w \<and> (\<exists>freed. collects versions lat freed w w \<and>
      group_entries (blocked w) + mset freed = group_entries (blocked w))"
    using "1.prems"(1) by (auto intro!: exI [of _ "[]"] collects_same)
  show ?case
  proof (cases "rt_from (blocked w) index")
    case Nil
    then have "still_blocked versions lat j" if "radix_tree_lookup (blocked w) j = Some s" for j s
      using rtree.slots_Nil [OF inv Nil that] "1.prems"(2) that by blast
    then show ?thesis using "1.prems"(3) Nil refl_case by auto
  next
    case (Cons p rest)
    obtain ts grp where p: "p = (ts, grp)" by fastforce
    note from_eq = Cons [unfolded p]
    note first = rtree.slots_first_least [OF inv from_eq]
    have sooner: "still_blocked versions lat j" if "radix_tree_lookup (blocked w) j = Some s" "j < ts" for j s
      using first "1.prems"(2) that by (meson leD leI)
    have last: "j \<le> ts" if "ts = - 1" for j using that by simp
    show ?thesis
    proof (cases "still_blocked versions lat ts")
      case True
      have upto: "still_blocked versions lat j" if "radix_tree_lookup (blocked w) j = Some s" "j \<le> ts" for j s
        using sooner [OF that(1)] True that(2) by (cases "j = ts") auto
      show ?thesis
      proof (cases "ts = - 1")
        case m: True
        then show ?thesis using "1.prems"(3) from_eq True refl_case upto last by auto
      next
        case m: False
        then have nz: "ts + 1 \<noteq> 0" by (metis add.commute add.inverse_unique)
        have run: "gc_groups versions lat (ts + 1) (did, stats, w) = (r, did', stats', w')"
          using "1.prems"(3) from_eq True m by simp
        show ?thesis
          by (rule "1.hyps"(1) [OF from_eq refl True m "1.prems"(1) upto run])
             (simp_all add: less_inc_iff [OF nz])
      qed
    next
      case False
      obtain r1 did1 stats1 w1 where g: "gc_group (stack_size grp) versions lat ts (did, stats, w) = (r1, did1, stats1, w1)"
        by (metis prod_cases4)
      have l: "radix_tree_lookup (blocked w) ts = Some grp" using first by blast
      note g' = gc_group_ok [OF "1.prems"(1) l False le_refl g]
      obtain f1 where f1: "collects versions lat f1 w w1" "group_entries (blocked w1) + mset f1 = group_entries (blocked w)"
        using g' by blast
      show ?thesis
      proof (cases "r1 = OK")
        case err: False
        then have "r = r1" "w' = w1" using "1.prems"(3) from_eq False g by (auto split: rc.splits)
        then show ?thesis using g' err by auto
      next
        case ok: True
        let ?w2 = "set_blocked (radix_tree_delete (blocked w1) ts) w1"
        obtain e where e: "radix_tree_lookup (blocked w1) ts = Some e" "stack_elems e = []" using g' ok by blast
        have inv1: "rt_inv (blocked w1)" using g' by (simp add: groups_ok_def)
        have ge: "group_entries (blocked ?w2) = group_entries (blocked w1)"
          using group_entries_delete [OF inv1 e(1)] e(2) by simp
        have g2: "groups_ok ?w2"
          using g' by (auto simp: groups_ok_def radix_tree_delete_def radix_tree_lookup_def split: if_splits)
        have c2: "collects versions lat f1 w ?w2"
          using collects_trans [OF f1(1) collects_same [of ?w2 w1]] by simp
        have upto: "still_blocked versions lat j" if "radix_tree_lookup (blocked ?w2) j = Some s" "j \<le> ts" for j s
        proof (rule ccontr)
          assume nb: "\<not> still_blocked versions lat j"
          have "j \<noteq> ts" and "radix_tree_lookup (blocked w1) j = Some s"
            using that(1) by (auto simp: radix_tree_delete_def radix_tree_lookup_def split: if_splits)
          then have "radix_tree_lookup (blocked w) j = Some s" using g' nb by simp
          then show False using sooner [of j s] nb that(2) \<open>j \<noteq> ts\<close> by (metis le_less)
        qed
        show ?thesis
        proof (cases "ts = - 1")
          case m: True
          then have "r = OK" "w' = ?w2" using "1.prems"(3) from_eq False g ok by (auto simp: Let_def)
          then show ?thesis using g2 c2 f1(2) ge upto last m by auto
        next
          case m: False
          then have nz: "ts + 1 \<noteq> 0" by (metis add.commute add.inverse_unique)
          have run: "gc_groups versions lat (ts + 1) (did1, stats1, ?w2) = (r, did', stats', w')"
            using "1.prems"(3) from_eq False g ok m by (simp add: Let_def)
          have upto': "still_blocked versions lat j" if "radix_tree_lookup (blocked ?w2) j = Some s" "j < ts + 1" for j s
            using upto that less_inc_iff [OF nz] by blast
          have IH: "groups_ok w' \<and> r \<noteq> HANG \<and>
              (r = OK \<longrightarrow> (\<forall>j s. radix_tree_lookup (blocked w') j = Some s \<longrightarrow> still_blocked versions lat j)) \<and>
              (\<exists>freed. collects versions lat freed ?w2 w' \<and> group_entries (blocked w') + mset freed = group_entries (blocked ?w2))"
            by (rule "1.hyps"(2) [OF from_eq refl False g [symmetric] ok refl refl refl m g2 upto' run])
          then obtain f2 where f2: "collects versions lat f2 ?w2 w'" "group_entries (blocked w') + mset f2 = group_entries (blocked ?w2)"
            by blast
          have "group_entries (blocked w') + mset (f1 @ f2) = group_entries (blocked w)"
            using f1(2) f2(2) unfolding ge by (metis mset_append add.assoc add.commute)
          then show ?thesis using IH collects_trans [OF c2 f2(1)] by blast
        qed
      qed
    qed
  qed
qed

declare gc_groups.simps [simp del] gc_group.simps [simp del]

definition all_entries :: "cp_world \<Rightarrow> u64 multiset" where
  "all_entries w = group_entries (blocked w) + mset (stack_elems (obsoleted_entries (cw_checkpoints w)))"

lemma new_stack_ok: "sivfs_new_stack b = (r, s) \<Longrightarrow> s = empty_stack \<and> (r = (if b then OK else E ENOMEM))"
  by (auto simp: sivfs_new_stack_def empty_stack_def split: if_splits)

lemma empty_stack_ok [simp]: "stack_inv empty_stack" "stack_elems empty_stack = []"
  by (simp_all add: empty_stack_def stack_inv_def stack_elems_def)

text \<open>Step 0: all obsoleted entries move to the group of entries not looked at yet.\<close>

lemma gc_transfer_ok:
  assumes "groups_ok w" and "stack_inv (obsoleted_entries (cw_checkpoints w))"
    and "radix_tree_lookup (blocked w) SIVFS_INVALID_TS = Some u"
    and "sivfs_stack_push_all ok (Some u) (Some (obsoleted_entries (cw_checkpoints w))) = (OK, dest)"
    and "w3 = set_blocked (case dest of None \<Rightarrow> blocked w | Some u \<Rightarrow> rt_ins SIVFS_INVALID_TS u (blocked w)) w"
    and "w4 = w3\<lparr>cw_checkpoints := (cw_checkpoints w3)\<lparr>obsoleted_entries :=
                 (obsoleted_entries (cw_checkpoints w3))\<lparr>stack_size := 0\<rparr>\<rparr>\<rparr>"
  shows "groups_ok w4 \<and> all_entries w4 = all_entries w \<and> cw_store w4 = cw_store w \<and> cw_inodes w4 = cw_inodes w \<and>
    stack_elems (obsoleted_entries (cw_checkpoints w4)) = [] \<and>
    latest_checkpoint_published (cw_checkpoints w4) = latest_checkpoint_published (cw_checkpoints w)"
proof -
  have inv: "rt_inv (blocked w)" "stack_inv u" using assms(1,3) by (auto simp: groups_ok_def)
  from stack_push_all_cases [OF inv(2) assms(2,4)] obtain d where
    d: "dest = Some d" "stack_inv d" "stack_elems d = stack_elems u @ stack_elems (obsoleted_entries (cw_checkpoints w))"
    by auto
  have b: "blocked w4 = rt_ins SIVFS_INVALID_TS d (blocked w)" by (simp add: assms(5,6) d(1))
  have e: "stack_elems (obsoleted_entries (cw_checkpoints w4)) = []" by (simp add: assms(6) stack_elems_def)
  have "group_entries (blocked w4) + mset (stack_elems u) = group_entries (blocked w) + mset (stack_elems d)"
    unfolding b by (rule group_entries_old [OF inv(1) assms(3)])
  then have "group_entries (blocked w4) + mset (stack_elems u) = all_entries w + mset (stack_elems u)"
    by (simp add: d(3) all_entries_def ac_simps)
  then have "all_entries w4 = all_entries w" by (simp add: all_entries_def [of w4] e)
  moreover have "groups_ok w4" using assms(1) d(2) by (auto simp: groups_ok_def b radix_tree_lookup_def)
  ultimately show ?thesis using e by (simp add: assms(5,6))
qed

lemma lifetime_cong:
  "cw_store w' = cw_store w \<Longrightarrow> cw_inodes w' = cw_inodes w \<Longrightarrow>
   sivfs_gc_entry_to_lifetime w' = sivfs_gc_entry_to_lifetime w"
  by (rule ext) (simp only: sivfs_gc_entry_to_lifetime_def)

lemma gc_groups_all:
  assumes "groups_ok w" and "gc_groups versions lat 0 (did, stats, w) = (r, did', stats', w')"
  shows "groups_ok w' \<and> r \<noteq> HANG \<and>
    (r = OK \<longrightarrow> (\<forall>j s. radix_tree_lookup (blocked w') j = Some s \<longrightarrow> still_blocked versions lat j)) \<and>
    (\<exists>freed. collects versions lat freed w w' \<and> group_entries (blocked w') + mset freed = group_entries (blocked w))"
  by (rule gc_groups_ok [OF assms(1) _ assms(2)]) simp

definition gc_accounts :: "sivfs_ts list \<Rightarrow> cp_world \<Rightarrow> cp_world \<Rightarrow> bool" where
  "gc_accounts versions w w' \<longleftrightarrow>
     (\<exists>freed. only_freed freed w w' \<and>
        (\<forall>e \<in> set freed. gc_free_to_collect versions (latest_checkpoint_published (cw_checkpoints w)) w e) \<and>
        all_entries w = all_entries w' + mset freed)"

lemma gc_accounts_same:
  "cw_store w' = cw_store w \<Longrightarrow> cw_inodes w' = cw_inodes w \<Longrightarrow> all_entries w' = all_entries w \<Longrightarrow> gc_accounts versions w w'"
  unfolding gc_accounts_def by (intro exI [of _ "[]"]) (simp add: only_freed_def)

lemma alloc_frame_entries: "alloc_frame w w' \<Longrightarrow> all_entries w' = all_entries w \<and> (groups_ok w' \<longleftrightarrow> groups_ok w)"
  by (simp add: all_entries_def groups_ok_def alloc_frameD)

text \<open>The part of the collector after step 0.\<close>

definition gc_work :: "sivfs_state rt \<Rightarrow> sivfs_stats option \<Rightarrow> cp_world \<Rightarrow> rc \<times> bool option \<times> sivfs_stats option \<times> cp_world" where
  "gc_work threads stats w4 =
     (if sivfs_gc_blocked_entries_empty w4 then (OK, Some False, stats, w4)
      else let latest_snapshot = latest_checkpoint_published (cw_checkpoints w4);
               (new_ok, w5) = next_alloc w4
           in case sivfs_new_stack new_ok of
                (OK, tmp) \<Rightarrow>
                  (case sivfs_get_checked_out_versions threads tmp w5 of
                     (OK, versions, w6) \<Rightarrow>
                       (case gc_groups (stack_elems versions) latest_snapshot 0 (False, stats, w6) of
                          (r', did_gc, stats', w7) \<Rightarrow> (r', if r' = OK then Some did_gc else None, stats', w7))
                   | (r', _, w6) \<Rightarrow> (r', None, stats, w6))
              | (r', _) \<Rightarrow> (r', None, stats, w5))"

lemma gc_work_ok:
  assumes "groups_ok w" and "stack_elems (obsoleted_entries (cw_checkpoints w)) = []"
    and "gc_work threads stats w = (r, did, stats', w')"
  shows "r \<noteq> HANG \<and> groups_ok w' \<and> gc_accounts (reported threads) w w' \<and>
    (r = OK \<longrightarrow> stack_elems (obsoleted_entries (cw_checkpoints w')) = [] \<and>
       (\<forall>j s. radix_tree_lookup (blocked w') j = Some s \<longrightarrow> stack_elems s \<noteq> [] \<longrightarrow>
          still_blocked (reported threads) (latest_checkpoint_published (cw_checkpoints w)) j))"
proof (cases "sivfs_gc_blocked_entries_empty w")
  case True
  then have "stack_elems s = []" if "radix_tree_lookup (blocked w) j = Some s" for j s
    using that
    by (auto simp: sivfs_gc_blocked_entries_empty_def list_all_iff radix_tree_lookup_def stack_elems_def dest!: map_of_SomeD)
  then show ?thesis using assms True by (auto simp: gc_work_def intro: gc_accounts_same)
next
  case False
  obtain b w5 where a5: "next_alloc w = (b, w5)" by fastforce
  note f5 = next_alloc_frame [OF a5]
  let ?lat = "latest_checkpoint_published (cw_checkpoints w)"
  have same: "groups_ok x \<and> gc_accounts (reported threads) w x" if "alloc_frame w x" for x
    using assms(1) alloc_frame_entries [OF that] alloc_frameD [OF that] by (auto intro: gc_accounts_same)
  show ?thesis
  proof (cases b)
    case nb: False
    then have "r = E ENOMEM" "w' = w5" using assms(3) False a5 by (auto simp: gc_work_def sivfs_new_stack_def)
    then show ?thesis using same [OF f5] by simp
  next
    case bt: True
    obtain q versions w6 where v: "push_versions threads empty_stack w5 = (q, versions, w6)" by (metis prod_cases3)
    note v' = push_versions_ok [OF v empty_stack_ok(1)]
    have f6: "alloc_frame w w6" using alloc_frame_trans [OF f5] v' by blast
    show ?thesis
    proof (cases "q = OK")
      case nq: False
      then have "r = q" "w' = w6"
        using assms(3) False a5 bt v
        by (auto simp: gc_work_def sivfs_new_stack_def sivfs_get_checked_out_versions_def empty_stack_def split: rc.splits)
      then show ?thesis using same [OF f6] v' nq by auto
    next
      case ok: True
      have ev: "stack_elems versions = reported threads" using v' ok by simp
      obtain r7 d7 s7 w7 where g: "gc_groups (reported threads) ?lat 0 (False, stats, w6) = (r7, d7, s7, w7)"
        by (metis prod_cases4)
      have e: "r = r7" "w' = w7"
        using assms(3) False a5 bt v ok ev g
        by (auto simp: gc_work_def sivfs_new_stack_def sivfs_get_checked_out_versions_def empty_stack_def
           )
      have g6: "groups_ok w6" using same [OF f6] by blast
      note g' = gc_groups_all [OF g6 g]
      obtain freed where fr: "collects (reported threads) ?lat freed w6 w7"
          "group_entries (blocked w7) + mset freed = group_entries (blocked w6)" using g' by blast
      note fd = alloc_frameD [OF f6]
      have "only_freed freed w w7" using fr(1) fd by (simp add: collects_def only_freed_def)
      moreover have "gc_free_to_collect (reported threads) ?lat w x" if "x \<in> set freed" for x
        using fr(1) that unfolding collects_def gc_free_to_collect_def lifetime_cong [OF fd(1,2)] by blast
      moreover have ob: "stack_elems (obsoleted_entries (cw_checkpoints w7)) = []"
        using fr(1) fd assms(2) by (simp add: collects_def)
      moreover have "all_entries w = all_entries w7 + mset freed"
        using fr(2) fd assms(2) ob by (simp add: all_entries_def)
      ultimately have "gc_accounts (reported threads) w w7" unfolding gc_accounts_def by blast
      then show ?thesis using g' ob by (auto simp: e)
    qed
  qed
qed

lemma gc_checkpoints_cases:
  assumes "groups_ok w" and "sivfs_gc_checkpoints threads interrupted stats w = (r, did, stats', w')"
    and "stack_inv (obsoleted_entries (cw_checkpoints w))"
  shows "(groups_ok w' \<and> cw_store w' = cw_store w \<and> cw_inodes w' = cw_inodes w \<and> all_entries w' = all_entries w \<and>
      r \<noteq> OK \<and> r \<noteq> HANG) \<or>
    (\<exists>w4. groups_ok w4 \<and> all_entries w4 = all_entries w \<and> cw_store w4 = cw_store w \<and> cw_inodes w4 = cw_inodes w \<and>
      stack_elems (obsoleted_entries (cw_checkpoints w4)) = [] \<and>
      latest_checkpoint_published (cw_checkpoints w4) = latest_checkpoint_published (cw_checkpoints w) \<and>
      gc_work threads stats w4 = (r, did, stats', w'))"
proof (cases "stats = None \<or> interrupted \<noteq> None")
  case True
  then obtain e where "sivfs_gc_checkpoints threads interrupted stats w = (E e, None, stats, w)"
    unfolding sivfs_gc_checkpoints_def by (cases "stats = None"; cases interrupted) simp_all
  then show ?thesis using assms(1,2) by simp
next
  case False
  then have st: "stats \<noteq> None" "interrupted = None" by auto
  obtain r1 w1 where g: "sivfs_gc_get_blocked_entries w SIVFS_INVALID_TS = (r1, w1)" by fastforce
  note g' = get_blocked_entries_ok [OF assms(1) g, of "[]" 0]
  have c1: "cw_store w1 = cw_store w" "cw_inodes w1 = cw_inodes w" "obsoleted_entries (cw_checkpoints w1) = obsoleted_entries (cw_checkpoints w)"
      "latest_checkpoint_published (cw_checkpoints w1) = latest_checkpoint_published (cw_checkpoints w)"
    using g g' by (auto simp: sivfs_gc_get_blocked_entries_def next_alloc_def set_blocked_def collects_def
        split: option.splits list.splits prod.splits rc.splits)
  have a1: "all_entries w1 = all_entries w" using g' c1 by (simp add: all_entries_def)
  show ?thesis
  proof (cases "r1 = OK")
    case False
    then have "r = r1" "w' = w1" using assms(2) st g by (auto simp: sivfs_gc_checkpoints_def split: rc.splits)
    then show ?thesis using g' c1 a1 False by auto
  next
    case True
    obtain u where u1: "radix_tree_lookup (blocked w1) SIVFS_INVALID_TS = Some u" using g' True by auto
    obtain ok w2 where a2: "next_alloc w1 = (ok, w2)" by fastforce
    note f2 = alloc_frameD [OF next_alloc_frame [OF a2]] and e2 = alloc_frame_entries [OF next_alloc_frame [OF a2]]
    have u: "radix_tree_lookup (blocked w2) SIVFS_INVALID_TS = Some u" using u1 f2 by simp
    have g2: "groups_ok w2" and o2: "stack_inv (obsoleted_entries (cw_checkpoints w2))"
      using e2 g' f2 c1 assms(3) by auto
    obtain r2 dest where p: "sivfs_stack_push_all ok (Some u) (Some (obsoleted_entries (cw_checkpoints w2))) = (r2, dest)"
      by fastforce
    have "stack_inv u" using g2 u by (auto simp: groups_ok_def)
    note p' = stack_push_all_cases [OF this o2 p]
    show ?thesis
    proof (cases "r2 = OK")
      case False
      then have "r = r2" "w' = w2"
        using assms(2) st g True a2 u p by (auto simp: sivfs_gc_checkpoints_def)
      then show ?thesis using e2 f2 c1 a1 g2 p' False by auto
    next
      case ok2: True
      let ?w3 = "set_blocked (case dest of None \<Rightarrow> blocked w2 | Some u \<Rightarrow> rt_ins SIVFS_INVALID_TS u (blocked w2)) w2"
      let ?w4 = "?w3\<lparr>cw_checkpoints := (cw_checkpoints ?w3)\<lparr>obsoleted_entries :=
                   (obsoleted_entries (cw_checkpoints ?w3))\<lparr>stack_size := 0\<rparr>\<rparr>\<rparr>"
      have "gc_work threads stats ?w4 = (r, did, stats', w')"
        using assms(2) st g True a2 u p ok2
        by (auto simp: sivfs_gc_checkpoints_def gc_work_def Let_def)
      then show ?thesis
        using gc_transfer_ok [OF g2 o2 u p [unfolded ok2] refl refl] e2 f2 c1 a1 by auto
    qed
  qed
qed

text \<open>
  C14: garbage collection of checkpoints is safe and loses nothing.  A run of \<^verbatim>\<open>sivfs_gc_checkpoints\<close>, also one that
  fails half-way, terminates, frees only pages and inodes whose lifetime ends at or before the latest published
  checkpoint and contains no version reported by any task, and every entry that is not freed is still waiting in a
  group or among the obsoleted ones.  After a successful run the obsoleted entries are taken over and every
  non-empty group waits for the latest checkpoint or for a version some task reported.
\<close>

theorem gc_checkpoints_safe_and_lossless:
  assumes "groups_ok w" and "stack_inv (obsoleted_entries (cw_checkpoints w))"
    and "sivfs_gc_checkpoints threads interrupted stats w = (r, did, stats', w')"
  shows "r \<noteq> HANG \<and> groups_ok w' \<and>
    (\<exists>freed. only_freed freed w w' \<and> all_entries w = all_entries w' + mset freed \<and>
       (\<forall>e \<in> set freed. \<exists>a b. sivfs_gc_entry_to_lifetime w e = (OK, a, b) \<and>
          b \<le> latest_checkpoint_published (cw_checkpoints w) \<and>
          (\<forall>v \<in> set (reported threads). \<not> sivfs_ts_range_contains a b v))) \<and>
    (r = OK \<longrightarrow> stack_elems (obsoleted_entries (cw_checkpoints w')) = [] \<and>
       (\<forall>j s. radix_tree_lookup (gc_blocked_entries (cw_checkpoints w')) j = Some s \<longrightarrow> stack_elems s \<noteq> [] \<longrightarrow>
          still_blocked (reported threads) (latest_checkpoint_published (cw_checkpoints w)) j))"
  using gc_checkpoints_cases [OF assms(1,3,2)]
proof (elim disjE exE conjE)
  assume "cw_store w' = cw_store w" "cw_inodes w' = cw_inodes w" "all_entries w' = all_entries w"
    and "groups_ok w'" "r \<noteq> OK" "r \<noteq> HANG"
  then show ?thesis by (auto simp: only_freed_def intro!: exI [of _ "[]"])
next
  fix w4
  assume w4: "groups_ok w4" "all_entries w4 = all_entries w" "cw_store w4 = cw_store w" "cw_inodes w4 = cw_inodes w"
      "stack_elems (obsoleted_entries (cw_checkpoints w4)) = []"
      "latest_checkpoint_published (cw_checkpoints w4) = latest_checkpoint_published (cw_checkpoints w)"
    and run: "gc_work threads stats w4 = (r, did, stats', w')"
  note g = gc_work_ok [OF w4(1,5) run]
  have life: "sivfs_gc_entry_to_lifetime w4 = sivfs_gc_entry_to_lifetime w"
    by (rule lifetime_cong [OF w4(3,4)])
  have of4: "only_freed freed w4 w' = only_freed freed w w'" for freed by (simp add: only_freed_def w4)
  obtain freed where "only_freed freed w w'" "all_entries w = all_entries w' + mset freed"
      "\<forall>e \<in> set freed. gc_free_to_collect (reported threads) (latest_checkpoint_published (cw_checkpoints w)) w4 e"
    using g unfolding gc_accounts_def of4 w4 by blast
  then have "\<exists>freed. only_freed freed w w' \<and> all_entries w = all_entries w' + mset freed \<and>
       (\<forall>e \<in> set freed. \<exists>a b. sivfs_gc_entry_to_lifetime w e = (OK, a, b) \<and>
          b \<le> latest_checkpoint_published (cw_checkpoints w) \<and>
          (\<forall>v \<in> set (reported threads). \<not> sivfs_ts_range_contains a b v))"
    unfolding gc_free_to_collect_def life by blast
  then show ?thesis using g unfolding w4 by blast
qed

section \<open>The collector of the log\<close>

lemma foldl_min_le: "foldl min (l::u64) vs \<le> i \<longleftrightarrow> l \<le> i \<or> (\<exists>v \<in> set vs. v \<le> i)"
  by (induction vs arbitrary: l) (auto simp: min_le_iff_disj)

lemma foldl_min_below: "foldl min (l::u64) vs \<le> l"
  by (simp add: foldl_min_le)

text \<open>
  C15: garbage collection of the log never runs ahead of a reader.  \<^verbatim>\<open>sivfs_gc_log\<close> fails only when it has no
  memory for the list of versions, leaving the log alone; otherwise it deletes exactly the entries that are
  older than the latest published checkpoint and than every version reported by a task, and all others stay
  allocated, unchanged and reachable.
\<close>

theorem gc_log_keeps_what_readers_need:
  assumes "log_inv s" and "latest_checkpoint_published (cw_checkpoints w) \<noteq> SIVFS_INVALID_TS"
    and "sivfs_gc_log threads w s = (r, did, w', s')"
  shows "log_inv s' \<and> (r = OK \<or> r = E ENOMEM \<and> s' = s) \<and>
    (r = OK \<longrightarrow>
       log_cache s' = filter (\<lambda>(i, _). latest_checkpoint_published (cw_checkpoints w) \<le> i \<or>
                               (\<exists>v \<in> set (reported threads). v \<le> i)) (log_cache s) \<and>
       (\<forall>(i, a) \<in> set (log_cache s'). log_mem s' a \<noteq> None \<and> log_mem s' a = log_mem s a))"
proof -
  let ?lat = "latest_checkpoint_published (cw_checkpoints w)"
  obtain b w1 where a1: "next_alloc w = (b, w1)" by fastforce
  obtain q versions w2 where v: "push_versions threads empty_stack w1 = (q, versions, w2)" by (metis prod_cases3)
  note v' = push_versions_ok [OF v empty_stack_ok(1)]
  show ?thesis
  proof (cases "b \<and> q = OK")
    case False
    then have "r = E ENOMEM \<and> s' = s"
      using assms(3) a1 v v'
      by (auto simp: sivfs_gc_log_def sivfs_new_stack_def sivfs_get_checked_out_versions_def empty_stack_def
          split: rc.splits if_splits)
    then show ?thesis using assms(1) by simp
  next
    case True
    let ?stop = "foldl min ?lat (reported threads)"
    have stop: "?stop \<noteq> SIVFS_INVALID_TS" using foldl_min_below [of ?lat "reported threads"] assms(2)
      by (metis ts_le_INVALID antisym)
    obtain s1 where d: "sivfs_delete_log False s ?stop = (OK, False \<or> (\<exists>i \<in> fst ` set (log_cache s). i < ?stop), s1)"
        "log_inv s1" "log_cache s1 = filter (\<lambda>(i, _). ?stop \<le> i) (log_cache s)"
        "\<forall>(i, a) \<in> set (log_cache s1). log_mem s1 a \<noteq> None \<and> log_mem s1 a = log_mem s a"
      using delete_log_ok [OF assms(1) stop, of False] by blast
    have ev: "stack_elems versions = reported threads" using v' True by simp
    have "r = OK" "s' = s1"
      using assms(3) a1 v ev True d(1)
      by (auto simp: sivfs_gc_log_def sivfs_new_stack_def sivfs_get_checked_out_versions_def empty_stack_def)
    then show ?thesis using d(2,4) d(3) [unfolded foldl_min_le] by blast
  qed
qed

section \<open>A run of the collectors\<close>

definition gc_page :: cp_page where
  "gc_page = \<lparr>page_mem = (\<lambda>_. 0),
     page_info = Some \<lparr>pgi_checkpoint_ts = 1, pgi_obsoleted_ts = 3, pgi_level = 0, pgi_is_pmd = False,
       pgi_is_pte = False, pgi_is_zero_page = False, pgi_is_noprivate = False, pgi_order = 0\<rparr>,
     page_index = 0, page_refct = 1, page_mapct = 0, page_locked = False\<rparr>"

definition gc_world :: cp_world where
  "gc_world = \<lparr>cw_store = \<lparr>cps_pages = [4096 \<mapsto> gc_page, 8192 \<mapsto> gc_page], cps_npages = 2, cps_supply = [],
       cps_zero_page = 0, cps_zero_pxd = (\<lambda>_. 0), cps_zero_refcount = 0\<rparr>,
     cw_inodes = Map.empty,
     cw_checkpoints = \<lparr>latest_cp_checkpoint = 0, latest_cp_ts = 3, latest_checkpoint_published = 3,
       checkpoints_reverse = [], obsoleted_entries = example_stack [4096 OR SIVFS_GC_ENTRY_PAGE],
       gc_blocked_entries = []\<rparr>,
     cw_allocs = [], cw_new_inodes = [], cw_nCheckpointPagesNew = 0\<rparr>"

lemmas gc_eval = sivfs_gc_checkpoints_def gc_world_def gc_page_def sivfs_gc_get_blocked_entries_def
  radix_tree_lookup_def next_alloc_def sivfs_new_stack_def radix_tree_insert_def set_blocked_def
  sivfs_stack_push_all_def sivfs_stack_reserve_def example_stack_def SIVFS_INVALID_TS_def
  sivfs_gc_blocked_entries_empty_def sivfs_get_checked_out_versions_def gc_groups.simps gc_group.simps
  rt_from_def still_blocked_def sivfs_stack_empty_def sivfs_stack_peek_def sivfs_gc_or_reassign_entry_def
  sivfs_gc_entry_to_lifetime_def sivfs_gc_entry_to_type_def SIVFS_GC_ENTRY_FLAGS_def SIVFS_GC_ENTRY_PAGE_def
  SIVFS_GC_ENTRY_INODE_def sivfs_gc_entry_to_page_def reassign_target_def sivfs_ts_range_contains_def
  sivfs_gc_free_entry_def sivfs_put_checkpoint_page_def sivfs_stack_pop_def radix_tree_delete_def stack_elems_def Let_def

lemma gc_world_run:
  "\<exists>stats w'. sivfs_gc_checkpoints [] None (Some zero_stats) gc_world = (OK, Some True, stats, w') \<and>
     cps_pages (cw_store w') = [8192 \<mapsto> gc_page]"
  by (simp add: gc_eval)

lemma gc_world_ok: "groups_ok gc_world" "stack_inv (obsoleted_entries (cw_checkpoints gc_world))"
  by (simp_all add: gc_world_def groups_ok_def radix_tree_lookup_def stack_inv_def example_stack_def)

theorem gc_checkpoints_safe_and_lossless_witness:
  "\<exists>stats w' freed. sivfs_gc_checkpoints [] None (Some zero_stats) gc_world = (OK, Some True, stats, w') \<and>
     cps_pages (cw_store w') = [8192 \<mapsto> gc_page] \<and> groups_ok w' \<and> only_freed freed gc_world w' \<and>
     all_entries gc_world = all_entries w' + mset freed"
proof -
  obtain stats w' where run: "sivfs_gc_checkpoints [] None (Some zero_stats) gc_world = (OK, Some True, stats, w')"
      "cps_pages (cw_store w') = [8192 \<mapsto> gc_page]" using gc_world_run by blast
  from gc_checkpoints_safe_and_lossless [OF gc_world_ok run(1)] run show ?thesis by blast
qed

theorem gc_log_keeps_what_readers_need_witness:
  "\<exists>r did w' s'. sivfs_gc_log [(64, fresh_state\<lparr>st_checkpoint_ts := 2, st_prior_checkpoint_ts := 2\<rparr>)] gc_world example_log =
      (r, did, w', s') \<and> log_inv s' \<and> (r = OK \<longrightarrow> log_cache s' = [(2, 4200)])"
proof -
  let ?t = "[(64, fresh_state\<lparr>st_checkpoint_ts := 2, st_prior_checkpoint_ts := 2\<rparr>)] :: sivfs_state rt"
  obtain r did w' s' where run: "sivfs_gc_log ?t gc_world example_log = (r, did, w', s')" by (metis prod_cases4)
  have ne: "latest_checkpoint_published (cw_checkpoints gc_world) \<noteq> SIVFS_INVALID_TS"
    by (simp add: gc_world_def SIVFS_INVALID_TS_def)
  have "\<not> (2::u64) \<le> 1" "\<not> (3::u64) \<le> 1" by (simp_all add: word_le_nat_alt)
  then show ?thesis
    using gc_log_keeps_what_readers_need [OF log_inv_example_log ne run] run
    by (auto simp: reported_def example_log_def gc_world_def)
qed

end
