(* ===== verification/User_Alloc.thy ===== *)
theory User_Alloc
  imports Writeset
begin

text \<open>
  The allocator of the user-space library, \<^verbatim>\<open>lib/sivfs_allocator.h\<close>, \<^verbatim>\<open>lib/sivfs_allocator_bins.h\<close>, \<^verbatim>\<open>lib/sivfs_allocator_list.h\<close>, and
  \<^verbatim>\<open>sivfs_write_ws\<close> of \<^verbatim>\<open>kern/sivfs.h\<close>.  It carves the blocks it gets from the kernel into slabs of equal elements and keeps the
  free ones in circular doubly linked lists that live in the mapped file itself, one list per size class; every change of
  the file goes through the writeset of the transaction.

  The mapped memory is a function from byte addresses of words to words.  A slot that holds the head of a free list is named
  by the address of its \<^verbatim>\<open>struct sivfs_allocator_mmap_state\<close> and the number of the bin.  The answers of the kernel to the allocation
  and free requests and of \<^verbatim>\<open>malloc\<close> are consumed from lists of the state.  The bin of a size is computed in the C code with
  \<^verbatim>\<open>exp\<close> and \<^verbatim>\<open>log\<close> on doubles; the model has the exact powers of 1.15, none of which (but 1) is an integer.
  A null pointer is treated as the address 0, and a request that \<^verbatim>\<open>ioctl\<close> answers with -1 as \<^verbatim>\<open>-EPERM\<close>, which is that number.
  \<open>u_exit\<close> records that the process has been ended by \<^verbatim>\<open>assert\<close> or \<^verbatim>\<open>exit\<close>.
\<close>

section \<open>Writing through the writeset\<close>

record mmap_state =
  ms_free_lists :: "nat \<Rightarrow> u64"
  ms_start :: u64
  ms_tag :: u64
  ms_size :: u64

record block_answer =
  ba_mmap_start :: u64
  ba_mmap_size :: u64
  ba_start :: u64
  ba_size :: u64

record user =
  u_mem :: "u64 \<Rightarrow> u64"
  u_ws :: sivfs_writeset
  u_ready :: bool
  u_mstates :: "u64 \<Rightarrow> mmap_state option"
  u_mmap_states :: "u64 list"
  u_restore_ptrs :: "(u64 \<times> nat) list"
  u_restore_values :: "u64 list"
  u_nAllocs :: u64
  u_nFrees :: u64
  u_exit :: bool
  u_oks :: "bool list"
  u_blocks :: "block_answer option list"

text \<open>The outcome of the next memory allocation of the library itself; it succeeds when the list has run out.\<close>

definition next_ok :: "user \<Rightarrow> bool \<times> user" where
  "next_ok u = (case u_oks u of [] \<Rightarrow> (True, u) | b # bs \<Rightarrow> (b, u\<lparr>u_oks := bs\<rparr>))"

definition die :: "user \<Rightarrow> user" where
  "die u = u\<lparr>u_exit := True\<rparr>"

definition sivfs_write_ws :: "user \<Rightarrow> u64 \<Rightarrow> u64 \<Rightarrow> rc \<times> user" where
  "sivfs_write_ws u address val =
     (if address mod 8 \<noteq> 0 then (E EINVAL, u)
      else
        let u1 = u\<lparr>u_mem := (u_mem u)(address := val)\<rparr>;
            (ok, u2) = next_ok u1;
            entry = \<lparr>wse_ino = 0, wse_file_offset = 0, wse_address = address, wse_stream_control = 0, wse_value = val\<rparr>
        in case sivfs_add_to_writeset ok (u_ws u2) (wse_encode (entry, [])) SIVFS_WRITESET_ENTRY_MIN_SIZE of
             (r, ws) \<Rightarrow> (r, u2\<lparr>u_ws := ws\<rparr>))"

text \<open>A sequence of writes, left at the first that fails.\<close>

fun write_all :: "(u64 \<times> u64) list \<Rightarrow> user \<Rightarrow> rc \<times> user" where
  "write_all [] u = (OK, u)"
| "write_all ((a, v) # ws) u =
     (case sivfs_write_ws u a v of
        (OK, u1) \<Rightarrow> write_all ws u1
      | (r, u1) \<Rightarrow> (r, u1))"

section \<open>Lists\<close>

text \<open>A list node at address \<open>l\<close> has its \<^verbatim>\<open>prev\<close> pointer at \<open>l\<close> and its \<^verbatim>\<open>next\<close> pointer at \<open>l + 8\<close>.\<close>

definition lh_prev :: "(u64 \<Rightarrow> u64) \<Rightarrow> u64 \<Rightarrow> u64" where
  "lh_prev mem l = mem l"

definition lh_next :: "(u64 \<Rightarrow> u64) \<Rightarrow> u64 \<Rightarrow> u64" where
  "lh_next mem l = mem (l + 8)"

definition sivfs_alloc_list_empty :: "(u64 \<Rightarrow> u64) \<Rightarrow> u64 \<Rightarrow> bool" where
  "sivfs_alloc_list_empty mem head \<longleftrightarrow> lh_next mem head = head"

definition sivfs_alloc_lh_advance_incl :: "(u64 \<Rightarrow> u64) \<Rightarrow> u64 \<Rightarrow> u64 \<Rightarrow> u64" where
  "sivfs_alloc_lh_advance_incl mem iter head = (if iter = head then 0 else lh_next mem iter)"

definition sivfs_alloc_lh_add_ws :: "u64 \<Rightarrow> u64 \<Rightarrow> user \<Rightarrow> rc \<times> user" where
  "sivfs_alloc_lh_add_ws lst lh u =
     (let target = lh_next (u_mem u) lst;
          target_prev = lh_prev (u_mem u) target
      in write_all [(lh + 8, target), (lh, target_prev), (target_prev + 8, lh), (target, lh)] u)"

definition sivfs_alloc_lh_remove_ws :: "u64 \<Rightarrow> user \<Rightarrow> rc \<times> user" where
  "sivfs_alloc_lh_remove_ws lh u =
     (let prev = lh_prev (u_mem u) lh; nxt = lh_next (u_mem u) lh in
      if lh = prev \<or> lh = nxt then (E EINVAL, u)
      else if prev = 0 \<or> nxt = 0 then (E EINVAL, u)
      else write_all [(lh, 0), (lh + 8, 0), (prev + 8, nxt), (nxt, prev)] u)"

text \<open>The variants that write to memory directly; the second is used for lists in the memory of the process.\<close>

definition sivfs_alloc_lh_add :: "(u64 \<Rightarrow> u64) \<Rightarrow> u64 \<Rightarrow> u64 \<Rightarrow> (u64 \<Rightarrow> u64)" where
  "sivfs_alloc_lh_add mem lst lh =
     (let target = lh_next mem lst; target_prev = lh_prev mem target in
      mem(lh + 8 := target, lh := target_prev, target_prev + 8 := lh, target := lh))"

definition sivfs_alloc_lh_remove :: "(u64 \<Rightarrow> u64) \<Rightarrow> u64 \<Rightarrow> (u64 \<Rightarrow> u64)" where
  "sivfs_alloc_lh_remove mem lh =
     (let prev = lh_prev mem lh; nxt = lh_next mem lh in
      if lh = prev \<or> lh = nxt then mem
      else if prev = 0 \<or> nxt = 0 then mem
      else mem(lh := 0, lh + 8 := 0, prev + 8 := nxt, nxt := prev))"

definition sivfs_alloc_list_add :: "(u64 \<Rightarrow> u64) \<Rightarrow> u64 \<Rightarrow> u64 \<Rightarrow> (u64 \<Rightarrow> u64)" where
  "sivfs_alloc_list_add mem head toAdd =
     (let target = lh_next mem head; target_prev = lh_prev mem target in
      if lh_next mem toAdd \<noteq> 0 \<or> lh_prev mem toAdd \<noteq> 0 then mem
      else mem(toAdd + 8 := target, toAdd := target_prev, target_prev + 8 := toAdd, target := toAdd))"

definition sivfs_alloc_list_remove :: "(u64 \<Rightarrow> u64) \<Rightarrow> u64 \<Rightarrow> (u64 \<Rightarrow> u64)" where
  "sivfs_alloc_list_remove mem toRemove =
     (let prev = lh_prev mem toRemove; nxt = lh_next mem toRemove in
      if toRemove = prev \<or> toRemove = nxt then mem
      else mem(toRemove := 0, toRemove + 8 := 0, prev + 8 := nxt, nxt := prev))"

section \<open>Regions and blocks\<close>

definition SIVFS_BIG_ALLOCATION_FLAG :: u64 where
  "SIVFS_BIG_ALLOCATION_FLAG = push_bit 63 1"

definition SIVFS_LIST_HEAD_FLAG :: u64 where
  "SIVFS_LIST_HEAD_FLAG = push_bit 62 1"

definition SIVFS_FREED_MAGIC :: u64 where
  "SIVFS_FREED_MAGIC = push_bit 46 57005"

definition SIVFS_FREED_MAGIC_MASK :: u64 where
  "SIVFS_FREED_MAGIC_MASK = push_bit 46 65535"

definition SIVFS_ALLOCATION_FLAGS :: u64 where
  "SIVFS_ALLOCATION_FLAGS = SIVFS_BIG_ALLOCATION_FLAG OR SIVFS_LIST_HEAD_FLAG OR SIVFS_FREED_MAGIC_MASK"

definition SIVFS_SLAB_INDEX_MASK :: u64 where
  "SIVFS_SLAB_INDEX_MASK = push_bit 30 65535"

definition SIVFS_SLAB_INDEX_SHIFT :: nat where
  "SIVFS_SLAB_INDEX_SHIFT = 30"

definition SIVFS_MAX_SLAB_ELTS :: u64 where
  "SIVFS_MAX_SLAB_ELTS = 65535"

definition SIVFS_ALLOCATOR_SLABSIZE :: u64 where
  "SIVFS_ALLOCATOR_SLABSIZE = 16384"

text \<open>Sizes of the headers in bytes; a region is its header followed by the list node.\<close>

definition SIVFS_ALLOC_REGION_HEADER_SIZE :: u64 where
  "SIVFS_ALLOC_REGION_HEADER_SIZE = 8"

definition sizeof_allocated_region :: u64 where
  "sizeof_allocated_region = 24"

definition SIVFS_BLOCK_HEADER_SIZE :: u64 where
  "SIVFS_BLOCK_HEADER_SIZE = 8"

definition SIVFS_BLOCK_FOOTER_SIZE :: u64 where
  "SIVFS_BLOCK_FOOTER_SIZE = 16"

definition ROUND_UP :: "u64 \<Rightarrow> u64 \<Rightarrow> u64" where
  "ROUND_UP x align = (x + align - 1) div align * align"

definition sivfs_allocated_region_set_flags :: "u64 \<Rightarrow> u64 \<Rightarrow> user \<Rightarrow> rc \<times> user" where
  "sivfs_allocated_region_set_flags region flags u =
     (if flags AND NOT SIVFS_ALLOCATION_FLAGS \<noteq> 0 then (E EINVAL, u)
      else sivfs_write_ws u region ((u_mem u region AND NOT SIVFS_ALLOCATION_FLAGS) OR flags))"

definition sivfs_allocated_region_size :: "(u64 \<Rightarrow> u64) \<Rightarrow> u64 \<Rightarrow> u64" where
  "sivfs_allocated_region_size mem region =
     (if mem region AND SIVFS_BIG_ALLOCATION_FLAG \<noteq> 0 then mem region AND NOT SIVFS_ALLOCATION_FLAGS
      else mem region AND NOT SIVFS_ALLOCATION_FLAGS AND NOT SIVFS_SLAB_INDEX_MASK)"

definition sivfs_allocated_region_flags :: "(u64 \<Rightarrow> u64) \<Rightarrow> u64 \<Rightarrow> u64" where
  "sivfs_allocated_region_flags mem region = mem region AND SIVFS_ALLOCATION_FLAGS"

definition sivfs_allocated_region_slab_index :: "(u64 \<Rightarrow> u64) \<Rightarrow> u64 \<Rightarrow> u64" where
  "sivfs_allocated_region_slab_index mem region = drop_bit SIVFS_SLAB_INDEX_SHIFT (mem region AND SIVFS_SLAB_INDEX_MASK)"

text \<open>The head of the block of a region, 0 when the checks fail.\<close>

definition sivfs_alloc_region_to_block_head :: "(u64 \<Rightarrow> u64) \<Rightarrow> u64 \<Rightarrow> u64" where
  "sivfs_alloc_region_to_block_head mem region =
     (if mem region AND SIVFS_BIG_ALLOCATION_FLAG \<noteq> 0 then region
      else
        let region0 = region - sivfs_allocated_region_slab_index mem region * sivfs_allocated_region_size mem region
        in if sivfs_allocated_region_slab_index mem region0 \<noteq> 0 then 0
           else
             let slab_head = region0 - SIVFS_BLOCK_HEADER_SIZE; block_size = mem slab_head
             in if block_size = 0 then 0
                else if mem (slab_head + block_size - SIVFS_BLOCK_FOOTER_SIZE + 8) \<noteq> block_size then 0
                else slab_head)"

text \<open>The tag of a block; \<open>None\<close> when an assertion fails.\<close>

definition sivfs_block_tag :: "(u64 \<Rightarrow> u64) \<Rightarrow> u64 \<Rightarrow> u64 option" where
  "sivfs_block_tag mem block_head =
     (let block_size = mem block_head AND NOT SIVFS_BIG_ALLOCATION_FLAG;
          footer = block_head + block_size - SIVFS_BLOCK_FOOTER_SIZE
      in if block_size = 0 then None
         else if mem (footer + 8) \<noteq> block_size then None
         else Some (mem footer))"

definition sivfs_alloc_ret_to_region :: "u64 \<Rightarrow> u64" where
  "sivfs_alloc_ret_to_region p = p - SIVFS_ALLOC_REGION_HEADER_SIZE"

definition sivfs_allocated_region_to_alloc_ret :: "u64 \<Rightarrow> u64" where
  "sivfs_allocated_region_to_alloc_ret region = region + SIVFS_ALLOC_REGION_HEADER_SIZE"

definition sivfs_allocator_lh_to_allocated_region :: "u64 \<Rightarrow> u64" where
  "sivfs_allocator_lh_to_allocated_region lh = lh - 8"

section \<open>Size classes\<close>

definition SIVFS_ALLOCATOR_NBINS :: nat where
  "SIVFS_ALLOCATOR_NBINS = 51"

text \<open>1.15 is 23/20: \<^verbatim>\<open>floor(exp((binindex+1)*log(1.15)))\<close> words, and \<^verbatim>\<open>floor(log(words)/log(1.15))\<close>.\<close>

definition sivfs_allocator_bin_maxsize :: "nat \<Rightarrow> u64" where
  "sivfs_allocator_bin_maxsize binindex = of_nat (23 ^ (binindex + 1) div 20 ^ (binindex + 1)) * 8"

definition bin_index :: "nat \<Rightarrow> nat" where
  "bin_index words = length (takeWhile (\<lambda>k. 23 ^ k \<le> words * 20 ^ k) [1 ..< 400])"

text \<open>The result has the number and the size of the bin, or nothing for a size that is too large for one.\<close>

definition sivfs_allocator_bins_get_bin :: "u64 \<Rightarrow> errno + (nat \<times> u64) option" where
  "sivfs_allocator_bins_get_bin sz =
     (if sz mod 8 \<noteq> 0 then Inl EINVAL
      else
        let binindex = bin_index (unat (sz div 8)) in
        if binindex \<ge> SIVFS_ALLOCATOR_NBINS then Inr None
        else
          let binsize = sivfs_allocator_bin_maxsize binindex in
          if binsize < sz then Inl EINVAL else Inr (Some (binindex, binsize)))"

section \<open>The free lists of a mapping\<close>

definition sivfs_init_allocator_mmap_state :: mmap_state where
  "sivfs_init_allocator_mmap_state = \<lparr>ms_free_lists = (\<lambda>_. 0), ms_start = 0, ms_tag = 0, ms_size = 0\<rparr>"

definition slot_value :: "user \<Rightarrow> u64 \<times> nat \<Rightarrow> u64 option" where
  "slot_value u slot = map_option (\<lambda>ms. ms_free_lists ms (snd slot)) (u_mstates u (fst slot))"

definition set_slot :: "u64 \<times> nat \<Rightarrow> u64 \<Rightarrow> user \<Rightarrow> user" where
  "set_slot slot v u = u\<lparr>u_mstates := (u_mstates u)(fst slot := map_option (\<lambda>ms. ms\<lparr>ms_free_lists :=
     (ms_free_lists ms)(snd slot := v)\<rparr>) (u_mstates u (fst slot)))\<rparr>"

definition sivfs_set_free_list :: "u64 \<times> nat \<Rightarrow> u64 \<Rightarrow> user \<Rightarrow> rc \<times> user" where
  "sivfs_set_free_list slot lst u =
     (case slot_value u slot of
        None \<Rightarrow> (UB, u)
      | Some old_list \<Rightarrow>
          if \<not> u_ready u then (E EINVAL, u)
          else
            let (ok, u1) = next_ok u in
            if \<not> ok then (E ENOMEM, u1)
            else
              let (ok2, u2) = next_ok u1 in
              if \<not> ok2 then (E ENOMEM, u2)
              else (OK, set_slot slot lst (u2\<lparr>u_restore_ptrs := u_restore_ptrs u2 @ [slot],
                                             u_restore_values := u_restore_values u2 @ [old_list]\<rparr>)))"

fun restore_loop :: "((u64 \<times> nat) \<times> u64) list \<Rightarrow> user \<Rightarrow> rc \<times> user" where
  "restore_loop [] u = (OK, u)"
| "restore_loop ((slot, v) # xs) u =
     (case slot_value u slot of None \<Rightarrow> (UB, u) | Some _ \<Rightarrow> restore_loop xs (set_slot slot v u))"

definition sivfs_lib_allocation_on_commit :: "bool \<Rightarrow> user \<Rightarrow> rc \<times> user" where
  "sivfs_lib_allocation_on_commit aborted u =
     (if \<not> u_ready u then (OK, u)
      else case (if aborted then restore_loop (rev (zip (u_restore_ptrs u) (u_restore_values u))) u else (OK, u)) of
        (OK, u1) \<Rightarrow> (OK, u1\<lparr>u_restore_ptrs := [], u_restore_values := []\<rparr>)
      | (r, u1) \<Rightarrow> (r, u1))"

text \<open>The first state whose mapping contains an address and has the tag; 0 when there is none.\<close>

definition sivfs_get_allocator_mmap_state :: "user \<Rightarrow> u64 \<Rightarrow> u64 \<Rightarrow> u64" where
  "sivfs_get_allocator_mmap_state u zone tag =
     (case find (\<lambda>a. case u_mstates u a of
                   None \<Rightarrow> False
                 | Some ms \<Rightarrow> ms_start ms \<le> zone \<and> zone < ms_start ms + ms_size ms \<and> ms_tag ms = tag) (u_mmap_states u) of
        None \<Rightarrow> 0 | Some a \<Rightarrow> a)"

definition sivfs_mmap_state_overlaps :: "mmap_state \<Rightarrow> u64 \<Rightarrow> u64 \<Rightarrow> u64 \<Rightarrow> bool" where
  "sivfs_mmap_state_overlaps ms start tag sz \<longleftrightarrow>
     ms_tag ms = tag \<and> ms_start ms < start + sz \<and> ms_start ms + ms_size ms \<ge> start"

text \<open>
  \<open>open_ok\<close> is the outcome of opening the device, \<open>fresh\<close> the address \<^verbatim>\<open>malloc\<close> returns for the new state (not checked
  against null).  The loop removes the states that overlap and goes on at the same index.
\<close>

definition sivfs_allocator_add_mmap :: "bool \<Rightarrow> u64 \<Rightarrow> u64 \<Rightarrow> u64 \<Rightarrow> u64 \<Rightarrow> user \<Rightarrow> rc \<times> user" where
  "sivfs_allocator_add_mmap open_ok fresh start tag sz u =
     (if \<not> u_ready u \<and> \<not> open_ok then (E EINVAL, u)
      else
        let u0 = (if u_ready u then u
                  else u\<lparr>u_ready := True, u_mmap_states := [], u_restore_ptrs := [], u_restore_values := [],
                         u_nAllocs := 0, u_nFrees := 0\<rparr>);
            stale = (\<lambda>a. case u_mstates u0 a of None \<Rightarrow> False | Some ms \<Rightarrow> sivfs_mmap_state_overlaps ms start tag sz);
            u1 = u0\<lparr>u_mstates := (\<lambda>a. if a \<in> set (u_mmap_states u0) \<and> stale a then None else u_mstates u0 a),
                    u_mmap_states := filter (\<lambda>a. \<not> stale a) (u_mmap_states u0)\<rparr>
        in if fresh = 0 then (UB, u1)
           else
             let (ok, u2) = next_ok u1 in
             if \<not> ok then (E ENOMEM, u2)
             else (OK, u2\<lparr>u_mstates := (u_mstates u2)(fresh \<mapsto> sivfs_init_allocator_mmap_state\<lparr>ms_start := start, ms_tag := tag, ms_size := sz\<rparr>),
                          u_mmap_states := u_mmap_states u2 @ [fresh]\<rparr>))"

section \<open>Blocks from the kernel\<close>

definition lib_alloc_block :: "user \<Rightarrow> rc \<times> block_answer option \<times> user" where
  "lib_alloc_block u =
     (if \<not> u_ready u then (E EINVAL, None, u)
      else case u_blocks u of
        Some b # bs \<Rightarrow> (OK, Some b, u\<lparr>u_blocks := bs\<rparr>)
      | None # bs \<Rightarrow> (E EPERM, None, u\<lparr>u_blocks := bs\<rparr>)
      | [] \<Rightarrow> (E EPERM, None, u))"

definition lib_free_block :: "user \<Rightarrow> rc \<times> user" where
  "lib_free_block u =
     (if \<not> u_ready u then (E EINVAL, u)
      else let (ok, u1) = next_ok u in (if ok then OK else E EPERM, u1))"

text \<open>A new slab: the block is checked, its header and footer and the one free region in it are written, and the slot is set.\<close>

definition new_slab :: "u64 \<times> nat \<Rightarrow> u64 \<Rightarrow> u64 \<Rightarrow> mmap_state \<Rightarrow> user \<Rightarrow> rc \<times> user" where
  "new_slab slot tag slab_elt_size ms u =
     (let slab_elts_size = ROUND_UP (SIVFS_ALLOCATOR_SLABSIZE - (SIVFS_BLOCK_HEADER_SIZE + SIVFS_BLOCK_FOOTER_SIZE)) slab_elt_size;
          block_alloc = SIVFS_BLOCK_HEADER_SIZE + SIVFS_BLOCK_FOOTER_SIZE + slab_elts_size
      in if slab_elts_size div slab_elt_size > SIVFS_MAX_SLAB_ELTS then (E EINVAL, u)
         else if block_alloc AND (SIVFS_ALLOCATION_FLAGS OR SIVFS_SLAB_INDEX_MASK) \<noteq> 0 then (E EINVAL, u)
         else case lib_alloc_block u of
           (OK, Some b, u1) \<Rightarrow>
             if ba_mmap_start b \<noteq> ms_start ms \<or> ba_mmap_size b \<noteq> ms_size ms \<or> block_alloc = 0 \<or> ba_size b < block_alloc
             then (E EINVAL, u1)
             else
               let block = ba_start b; block_size = ba_size b; footer = block + block_size - SIVFS_BLOCK_FOOTER_SIZE;
                   region = block + SIVFS_BLOCK_HEADER_SIZE
               in (case write_all [(block, block_size), (footer, tag), (footer + 8, block_size),
                                   (region, (block_size - SIVFS_BLOCK_FOOTER_SIZE - SIVFS_BLOCK_HEADER_SIZE)
                                      OR SIVFS_FREED_MAGIC OR SIVFS_LIST_HEAD_FLAG),
                                   (region + 16, region + 8), (region + 8, region + 8)] u1 of
                     (OK, u2) \<Rightarrow> sivfs_set_free_list slot (region + 8) u2
                   | (r, u2) \<Rightarrow> (r, u2))
         | (OK, None, u1) \<Rightarrow> (UB, u1)
         | (r, _, u1) \<Rightarrow> (r, u1))"

text \<open>The slot for a size, \<open>None\<close> for one that needs a block of its own, and the size of the elements of its list.\<close>

definition sivfs_get_free_list_slot ::
  "u64 \<Rightarrow> u64 \<Rightarrow> u64 \<Rightarrow> bool \<Rightarrow> user \<Rightarrow> rc \<times> ((u64 \<times> nat) option \<times> u64) \<times> user" where
  "sivfs_get_free_list_slot zone tag sz alloc u =
     (let a = sivfs_get_allocator_mmap_state u zone tag;
          slab_elt_size = max2_size_t (sz + SIVFS_ALLOC_REGION_HEADER_SIZE) sizeof_allocated_region
      in if sz = 0 then (E EINVAL, (None, 0), u)
         else if sz mod 8 \<noteq> 0 then (E EINVAL, (None, 0), u)
         else if a = 0 then (E EINVAL, (None, 0), u)
         else case u_mstates u a of
           None \<Rightarrow> (UB, (None, 0), u)
         | Some ms \<Rightarrow>
             (case sivfs_allocator_bins_get_bin slab_elt_size of
                Inl e \<Rightarrow> (E EINVAL, (None, 0), u)
              | Inr None \<Rightarrow> (OK, (None, slab_elt_size), u)
              | Inr (Some (bin, binsize)) \<Rightarrow>
                  if slab_elt_size > binsize then (E EINVAL, (None, 0), u)
                  else if ms_free_lists ms bin = 0 \<and> alloc
                  then (case new_slab (a, bin) tag binsize ms u of
                          (OK, u1) \<Rightarrow> (OK, (Some (a, bin), binsize), u1)
                        | (r, u1) \<Rightarrow> (r, (None, 0), u1))
                  else (OK, (Some (a, bin), binsize), u)))"

section \<open>Allocation\<close>

text \<open>Results carry the pointer returned to the caller, 0 for an error.\<close>

definition big_alloc :: "u64 \<Rightarrow> u64 \<Rightarrow> user \<Rightarrow> rc \<times> u64 \<times> user" where
  "big_alloc tag sz u =
     (let block_size = max2_size_t (sz + SIVFS_BLOCK_HEADER_SIZE + SIVFS_BLOCK_FOOTER_SIZE)
                         (sizeof_allocated_region + SIVFS_BLOCK_FOOTER_SIZE)
      in if block_size AND SIVFS_ALLOCATION_FLAGS \<noteq> 0 then (E EINVAL, 0, u)
         else case lib_alloc_block u of
           (OK, Some b, u1) \<Rightarrow>
             if block_size > ba_size b then (E EINVAL, 0, u1)
             else
               let block = ba_start b; footer = block + ba_size b - SIVFS_BLOCK_FOOTER_SIZE
               in (case write_all [(block, ba_size b OR SIVFS_BIG_ALLOCATION_FLAG), (footer, tag), (footer + 8, ba_size b),
                                   (block + 16, block + 8), (block + 8, block + 8)] u1 of
                     (OK, u2) \<Rightarrow> (OK, sivfs_allocated_region_to_alloc_ret block, u2\<lparr>u_nAllocs := u_nAllocs u2 + 1\<rparr>)
                   | (r, u2) \<Rightarrow> (r, 0, u2))
         | (OK, None, u1) \<Rightarrow> (UB, 0, u1)
         | (r, _, u1) \<Rightarrow> (r, 0, u1))"

text \<open>Splitting a region: it keeps \<open>free_list_size\<close> bytes, the rest is a new element of the list.\<close>

definition split_region :: "u64 \<Rightarrow> u64 \<Rightarrow> u64 \<Rightarrow> user \<Rightarrow> rc \<times> user" where
  "split_region head region free_list_size u =
     (let mem = u_mem u; split_next = region + free_list_size;
          split_next_size = sivfs_allocated_region_size mem region - free_list_size;
          split_slab_index = sivfs_allocated_region_slab_index mem region + 1
      in if split_slab_index > SIVFS_MAX_SLAB_ELTS then (E EINVAL, u)
         else case write_all [(region, free_list_size OR sivfs_allocated_region_flags mem region OR (mem region AND SIVFS_SLAB_INDEX_MASK)),
                              (split_next, split_next_size OR SIVFS_FREED_MAGIC OR push_bit SIVFS_SLAB_INDEX_SHIFT split_slab_index)] u of
                (OK, u1) \<Rightarrow> sivfs_alloc_lh_add_ws head (split_next + 8) u1
              | (r, u1) \<Rightarrow> (r, u1))"

text \<open>Taking the region out of the list; \<open>None\<close> stands for the error path that leaves \<^verbatim>\<open>rc\<close> at 0.\<close>

definition take_region :: "u64 \<times> nat \<Rightarrow> u64 \<Rightarrow> u64 \<Rightarrow> u64 \<Rightarrow> user \<Rightarrow> rc option \<times> user" where
  "take_region slot head iter free_list_size u =
     (let region = sivfs_allocator_lh_to_allocated_region iter in
      case sivfs_write_ws u region (free_list_size OR (u_mem u region AND SIVFS_SLAB_INDEX_MASK)) of
        (OK, u1) \<Rightarrow>
          if iter = head then
            if \<not> sivfs_alloc_list_empty (u_mem u1) head then (None, u1)
            else map_prod Some id (sivfs_set_free_list slot 0 u1)
          else map_prod Some id (sivfs_alloc_lh_remove_ws (region + 8) u1)
      | (r, u1) \<Rightarrow> (Some r, u1))"

text \<open>
  The loop over the list: its body always leaves it, unless it has split the head, when it starts again; the region that was split
  is then no longer large enough to be split.  \<open>allocate_within\<close> is the region of the last round, 0 in the first.
\<close>

primrec malloc_loop :: "nat \<Rightarrow> u64 \<times> nat \<Rightarrow> u64 \<Rightarrow> u64 \<Rightarrow> u64 \<Rightarrow> user \<Rightarrow> rc \<times> u64 \<times> user" where
  "malloc_loop 0 slot head free_list_size allocate_within u = (HANG, 0, u)"
| "malloc_loop (Suc fuel) slot head free_list_size allocate_within u =
     (let iter = lh_next (u_mem u) head in
      if iter = 0 then
        if allocate_within = 0 then (OK, 0, u)
        else (OK, sivfs_allocated_region_to_alloc_ret allocate_within, u\<lparr>u_nAllocs := u_nAllocs u + 1\<rparr>)
      else
        let region = sivfs_allocator_lh_to_allocated_region iter in
        if u_mem u region AND SIVFS_FREED_MAGIC_MASK \<noteq> SIVFS_FREED_MAGIC then (E EINVAL, 0, die u)
        else
          let region_size = sivfs_allocated_region_size (u_mem u) region;
              split = (region_size \<ge> free_list_size * 2)
          in case (if split then split_region head region free_list_size u else (OK, u)) of
               (OK, u1) \<Rightarrow>
                 if split \<and> iter = head then malloc_loop fuel slot head free_list_size region u1
                 else if \<not> split \<and> region_size < free_list_size then (E EINVAL, 0, u1)
                 else (case take_region slot head iter free_list_size u1 of
                         (None, u2) \<Rightarrow> (OK, 0, u2)
                       | (Some OK, u2) \<Rightarrow>
                           (OK, sivfs_allocated_region_to_alloc_ret region, u2\<lparr>u_nAllocs := u_nAllocs u2 + 1\<rparr>)
                       | (Some r, u2) \<Rightarrow> (r, 0, u2))
             | (r, u1) \<Rightarrow> (r, 0, u1))"

definition sivfs_malloc_ws :: "u64 \<Rightarrow> u64 \<Rightarrow> u64 \<Rightarrow> user \<Rightarrow> rc \<times> u64 \<times> user" where
  "sivfs_malloc_ws zone tag sz0 u =
     (if \<not> u_ready u then (E EINVAL, 0, die u)
      else
        let sz = ROUND_UP sz0 8 in
        case sivfs_get_free_list_slot zone tag sz True u of
          (OK, (None, _), u1) \<Rightarrow> big_alloc tag sz u1
        | (OK, (Some slot, free_list_size), u1) \<Rightarrow>
            (case slot_value u1 slot of
               None \<Rightarrow> (UB, 0, u1)
             | Some head \<Rightarrow>
                 if head = 0 then (E ENOMEM, 0, u1)
                 else if u_mem u1 (sivfs_allocator_lh_to_allocated_region head) AND SIVFS_FREED_MAGIC_MASK \<noteq> SIVFS_FREED_MAGIC
                 then (E EINVAL, 0, die u1)
                 else malloc_loop 2 slot head free_list_size 0 u1)
        | (r, _, u1) \<Rightarrow> (r, 0, u1))"

section \<open>Freeing\<close>

text \<open>\<open>footer_ptr + sizeof(uint64_t)\<close> is arithmetic on a pointer to words: it is 64 bytes further.\<close>

definition free_big :: "u64 \<Rightarrow> user \<Rightarrow> rc \<times> user" where
  "free_big region u =
     (let allocated_size = sivfs_allocated_region_size (u_mem u) region;
          footer_ptr = region + allocated_size - SIVFS_BLOCK_FOOTER_SIZE
      in case lib_free_block u of
           (OK, u1) \<Rightarrow> write_all [(region, 0), (footer_ptr, 0), (footer_ptr + 8 * 8, 0)] u1
         | (r, u1) \<Rightarrow> (r, u1))"

definition free_to_list :: "u64 \<times> nat \<Rightarrow> u64 \<Rightarrow> user \<Rightarrow> rc \<times> user" where
  "free_to_list slot region u =
     (case slot_value u slot of
        None \<Rightarrow> (UB, u)
      | Some head \<Rightarrow>
          (case (if head = 0
                 then (case write_all [(region + 8, region + 8), (region + 16, region + 8)] u of
                         (OK, u1) \<Rightarrow> sivfs_set_free_list slot (region + 8) u1
                       | (r, u1) \<Rightarrow> (r, u1))
                 else sivfs_alloc_lh_add_ws head (region + 8) u) of
             (OK, u2) \<Rightarrow> sivfs_allocated_region_set_flags region
                           (if head = 0 then SIVFS_FREED_MAGIC OR SIVFS_LIST_HEAD_FLAG else SIVFS_FREED_MAGIC) u2
           | (r, u2) \<Rightarrow> (r, u2)))"

definition sivfs_free_ws :: "u64 \<Rightarrow> user \<Rightarrow> rc \<times> user" where
  "sivfs_free_ws p u =
     (let region = sivfs_alloc_ret_to_region p; header = u_mem u region;
          allocated_size = sivfs_allocated_region_size (u_mem u) region;
          done = (\<lambda>(r, u1). (r, if r = OK then u1\<lparr>u_nFrees := u_nFrees u1 + 1\<rparr> else u1))
      in if \<not> u_ready u then (E EINVAL, die u)
         else if header AND SIVFS_FREED_MAGIC_MASK \<noteq> 0 then (E EINVAL, die u)
         else if header AND SIVFS_BIG_ALLOCATION_FLAG \<noteq> 0 then done (free_big region u)
         else if allocated_size = 0 then (E EINVAL, u)
         else
           let object_size = allocated_size - SIVFS_ALLOC_REGION_HEADER_SIZE;
               slab_head = sivfs_alloc_region_to_block_head (u_mem u) region
           in if slab_head = 0 then (E EINVAL, die u)
              else case sivfs_block_tag (u_mem u) slab_head of
                None \<Rightarrow> (E EINVAL, die u)
              | Some tag \<Rightarrow>
                  (case sivfs_get_free_list_slot region tag object_size False u of
                     (OK, (None, _), u1) \<Rightarrow> (E EINVAL, u1)
                   | (OK, (Some slot, _), u1) \<Rightarrow> done (free_to_list slot region u1)
                   | (r, _, u1) \<Rightarrow> (r, u1)))"

section \<open>The size classes are consistent\<close>

text \<open>A number of words \<open>n\<close> belongs to bin \<open>k\<close>: it lies between the powers \<open>k\<close> and \<open>k + 1\<close> of 1.15.\<close>

definition in_bin :: "nat \<Rightarrow> nat \<Rightarrow> bool" where
  "in_bin k n \<longleftrightarrow> 23 ^ k \<le> n * 20 ^ k \<and> n * 20 ^ (k + 1) < (23 :: nat) ^ (k + 1)"

lemma bin_step: "\<not> 23 ^ k \<le> n * (20 :: nat) ^ k \<Longrightarrow> \<not> 23 ^ Suc k \<le> n * 20 ^ Suc k"
  by (simp add: not_le algebra_simps)

lemma bin_later:
  assumes "k \<le> j" and "\<not> 23 ^ k \<le> n * (20 :: nat) ^ k"
  shows "\<not> 23 ^ j \<le> n * 20 ^ j"
proof -
  have "\<not> 23 ^ (k + d) \<le> n * 20 ^ (k + d)" for d
  proof (induction d)
    case 0
    then show ?case using assms(2) by simp
  next
    case (Suc d)
    then show ?case unfolding add_Suc_right by (rule bin_step)
  qed
  then show ?thesis using assms(1) le_Suc_ex by blast
qed

lemma takeWhile_upt:
  assumes "\<And>i j. \<not> P i \<Longrightarrow> i \<le> j \<Longrightarrow> \<not> P j" and "m \<le> k" and "k \<le> n" and "\<forall>i. m \<le> i \<longrightarrow> i < k \<longrightarrow> P i" and "k < n \<Longrightarrow> \<not> P k"
  shows "takeWhile P [m ..< n] = [m ..< k]"
proof -
  have "[m ..< n] = [m ..< k] @ [k ..< n]" using assms(2,3) by (metis le_Suc_ex upt_add_eq_append)
  moreover have "takeWhile P [k ..< n] = []" using assms(3,5) by (cases "k < n") (simp_all add: upt_conv_Cons)
  ultimately show ?thesis using assms(4) by (simp add: takeWhile_append)
qed

lemma bin_index_eq:
  assumes "in_bin k n" and "k < 399"
  shows "bin_index n = k"
proof -
  have holds: "\<forall>i. 1 \<le> i \<longrightarrow> i < Suc k \<longrightarrow> 23 ^ i \<le> n * 20 ^ i"
    using assms(1) bin_later [of _ k n] unfolding in_bin_def by (metis less_Suc_eq_le)
  have fails: "\<not> 23 ^ Suc k \<le> n * 20 ^ Suc k" using assms(1) by (simp only: in_bin_def not_le Suc_eq_plus1)
  have le: "Suc k \<le> 400" using assms(2) by linarith
  have "takeWhile (\<lambda>k. 23 ^ k \<le> n * 20 ^ k) [1 ..< 400] = [1 ..< Suc k]"
    by (rule takeWhile_upt [OF bin_later _ le holds fails]) simp_all
  then show ?thesis by (simp only: bin_index_def length_upt)
qed

lemma in_bin_below:
  assumes "1 \<le> n" and top: "\<not> 23 ^ Suc m \<le> n * 20 ^ Suc m"
  shows "\<exists>k \<le> m. in_bin k n"
proof -
  define k where "k = (LEAST j. \<not> 23 ^ Suc j \<le> n * 20 ^ Suc j)"
  have k: "\<not> 23 ^ Suc k \<le> n * 20 ^ Suc k" "k \<le> m" unfolding k_def by (rule LeastI, rule top, rule Least_le, rule top)
  have "23 ^ k \<le> n * 20 ^ k"
  proof (cases k)
    case 0
    then show ?thesis using assms(1) by simp
  next
    case (Suc j)
    then show ?thesis using not_less_Least [of j "\<lambda>j. \<not> 23 ^ Suc j \<le> n * 20 ^ Suc j"] by (auto simp: k_def)
  qed
  then show ?thesis using k unfolding in_bin_def not_le by auto
qed

lemma in_bin_ex:
  assumes "1 \<le> n" and "n < 2 ^ 61"
  shows "\<exists>k < 399. in_bin k n"
proof -
  have "((2 :: nat) * 20 ^ 5) ^ 61 < (23 ^ 5) ^ 61" by (rule power_strict_mono) simp_all
  moreover have "(5 :: nat) * 61 = 305" by simp
  ultimately have "(2 :: nat) ^ 61 * 20 ^ 305 < 23 ^ 305" by (simp only: power_mult_distrib flip: power_mult)
  moreover have "n * 20 ^ 305 \<le> (2 ^ 61 :: nat) * 20 ^ 305" by (rule mult_le_mono1, rule less_imp_le, rule assms(2))
  ultimately have "n * 20 ^ 305 < 23 ^ 305" by (rule le_less_trans [rotated])
  then have below: "\<not> 23 ^ 305 \<le> n * 20 ^ 305" by (simp only: not_le not_False_eq_True)
  have eq: "Suc 304 = 305" by simp
  have "\<not> 23 ^ Suc 304 \<le> n * 20 ^ Suc 304" unfolding eq by (rule below)
  then obtain k where "k \<le> 304" and "in_bin k n" using in_bin_below [OF assms(1)] by blast
  moreover have "k < 399" using \<open>k \<le> 304\<close> by linarith
  ultimately show ?thesis by blast
qed

lemma in_bin_max:
  assumes "in_bin k n"
  shows "n \<le> 23 ^ (k + 1) div 20 ^ (k + 1)" and "in_bin k (23 ^ (k + 1) div 20 ^ (k + 1))"
proof -
  let ?m = "(23 :: nat) ^ (k + 1) div 20 ^ (k + 1)"
  have lt: "n * 20 ^ (k + 1) < 23 ^ (k + 1)" and ge: "23 ^ k \<le> n * 20 ^ k" using assms by (simp_all add: in_bin_def)
  show le: "n \<le> ?m" using lt by (simp add: less_eq_div_iff_mult_less_eq)
  have "\<not> (20 :: nat) ^ (k + 1) dvd 23 ^ (k + 1)"
  proof
    assume "(20 :: nat) ^ (k + 1) dvd 23 ^ (k + 1)"
    moreover have "even ((20 :: nat) ^ (k + 1))" "odd ((23 :: nat) ^ (k + 1))" by simp_all
    ultimately show False using dvd_trans by blast
  qed
  then have "?m * 20 ^ (k + 1) \<noteq> 23 ^ (k + 1)" by (metis dvd_triv_right)
  moreover have "?m * 20 ^ (k + 1) \<le> 23 ^ (k + 1)" by (rule div_times_less_eq_dividend)
  moreover have "23 ^ k \<le> ?m * 20 ^ k" using ge le by (meson le_trans mult_right_mono zero_le)
  ultimately show "in_bin k ?m" unfolding in_bin_def by linarith
qed

lemma get_bin_eq:
  assumes "sz mod 8 = 0" and "in_bin k (unat (sz div 8))" and "k < 399"
  shows "sivfs_allocator_bins_get_bin sz =
    (if k \<ge> 51 then Inr None
     else if sivfs_allocator_bin_maxsize k < sz then Inl EINVAL else Inr (Some (k, sivfs_allocator_bin_maxsize k)))"
  by (simp only: sivfs_allocator_bins_get_bin_def bin_index_eq [OF assms(2,3)] assms(1) SIVFS_ALLOCATOR_NBINS_def Let_def
      not_False_eq_True simp_thms if_False)

lemma bin_maxsize_unat:
  assumes "k < 51"
  shows "unat (sivfs_allocator_bin_maxsize k) = 23 ^ (k + 1) div 20 ^ (k + 1) * 8"
proof -
  have "(23 :: nat) ^ (k + 1) \<le> 2 ^ (k + 1) * 20 ^ (k + 1)" using power_mono [of "23 :: nat" "2 * 20" "k + 1"] by (simp only: power_mult_distrib)
  then have "(23 :: nat) ^ (k + 1) div 20 ^ (k + 1) \<le> 2 ^ (k + 1)" by (simp add: div_le_mono [THEN order_trans])
  also have "\<dots> \<le> 2 ^ 51" using assms by (intro power_increasing) auto
  finally have "(23 :: nat) ^ (k + 1) div 20 ^ (k + 1) * 8 < 2 ^ 64" by simp
  then have "unat (of_nat (23 ^ (k + 1) div 20 ^ (k + 1) * 8) :: u64) = 23 ^ (k + 1) div 20 ^ (k + 1) * 8"
    by (rule unat_of_nat_u64)
  then show ?thesis unfolding sivfs_allocator_bin_maxsize_def of_nat_mult of_nat_numeral .
qed

lemma unat_div8:
  fixes sz :: u64
  assumes "sz mod 8 = 0"
  shows "unat sz = unat (sz div 8) * 8"
proof -
  have "unat sz mod 8 = unat (sz mod 8)" by (simp add: unat_mod)
  then have "unat sz mod 8 = 0" using assms by simp
  moreover have "unat (sz div 8) = unat sz div 8" by (simp add: unat_div)
  ultimately show ?thesis by presburger
qed

lemma size_class_cases:
  fixes sz :: u64
  assumes aligned: "sz mod 8 = 0" and pos: "0 < sz"
  obtains (bin) k where "k < 51" and "in_bin k (unat (sz div 8))"
      and "sivfs_allocator_bins_get_bin sz = Inr (Some (k, sivfs_allocator_bin_maxsize k))"
    | (large) "sivfs_allocator_bins_get_bin sz = Inr None" and "8192 < sz"
proof -
  define n where "n = unat (sz div 8)"
  have sz: "unat sz = n * 8" using unat_div8 [OF aligned] by (simp add: n_def)
  have "unat sz \<noteq> 0" using pos by (simp add: unat_eq_zero word_neq_0_conv)
  moreover have "unat sz < 2 ^ 64" using unsigned_less [of sz] by simp
  ultimately have n: "1 \<le> n" "n < 2 ^ 61" using sz by auto
  obtain k where k: "k < 399" "in_bin k n" using in_bin_ex [OF n] by blast
  note eq = get_bin_eq [OF aligned k(2) [unfolded n_def] k(1)]
  show ?thesis
  proof (cases "k < 51")
    case True
    have "unat sz \<le> unat (sivfs_allocator_bin_maxsize k)"
      unfolding sz bin_maxsize_unat [OF True] by (rule mult_le_mono1 [OF in_bin_max(1) [OF k(2)]])
    then have "\<not> sivfs_allocator_bin_maxsize k < sz" by (simp add: word_le_nat_alt not_less)
    then show ?thesis using bin [OF True] k(2) eq True by (simp add: n_def)
  next
    case False
    then have "\<not> \<not> 23 ^ 51 \<le> n * 20 ^ 51" using bin_later [of 51 k n] k(2) by (auto simp: in_bin_def)
    then have "1024 < n" by (simp add: not_less)
    then have "8192 < unat sz" using sz by simp
    then have "8192 < sz" by (simp add: word_less_nat_alt)
    then show ?thesis using large eq False by simp
  qed
qed

lemma size_class_fixed:
  assumes "k < 51" and "in_bin k n"
  shows "sivfs_allocator_bins_get_bin (sivfs_allocator_bin_maxsize k) = Inr (Some (k, sivfs_allocator_bin_maxsize k))"
    and "sivfs_allocator_bin_maxsize k mod 8 = 0"
proof -
  let ?b = "sivfs_allocator_bin_maxsize k"
  have b: "unat ?b = 23 ^ (k + 1) div 20 ^ (k + 1) * 8" by (rule bin_maxsize_unat [OF assms(1)])
  then have "unat (?b mod 8) = 0" by (simp add: unat_mod)
  then show "?b mod 8 = 0" by (simp add: unat_eq_zero)
  moreover have "unat (?b div 8) = 23 ^ (k + 1) div 20 ^ (k + 1)" using b by (simp add: unat_div)
  ultimately show "sivfs_allocator_bins_get_bin ?b = Inr (Some (k, ?b))"
    using get_bin_eq [of ?b k] in_bin_max(2) [OF assms(2)] assms(1) by simp
qed

lemma size_class_waste:
  fixes sz :: u64
  assumes "k < 51" and "in_bin k (unat (sz div 8))" and "sz mod 8 = 0"
  shows "20 * unat (sivfs_allocator_bin_maxsize k) \<le> 23 * unat sz"
proof -
  let ?m = "(23 :: nat) ^ (k + 1) div 20 ^ (k + 1)" and ?n = "unat (sz div 8)"
  have "?m * 20 ^ (k + 1) \<le> 23 ^ (k + 1)" by (rule div_times_less_eq_dividend)
  also have "\<dots> \<le> 23 * (?n * 20 ^ k)" using assms(2) by (simp add: in_bin_def)
  finally have "20 * ?m \<le> 23 * ?n" by (simp add: algebra_simps)
  then show ?thesis unfolding bin_maxsize_unat [OF assms(1)] using unat_div8 [OF assms(3)] by simp
qed

lemma size_classes:
  assumes "sz mod 8 = 0" and "0 < sz"
  shows "case sivfs_allocator_bins_get_bin sz of
           Inl e \<Rightarrow> False
         | Inr None \<Rightarrow> 8192 < sz
         | Inr (Some (b, bs)) \<Rightarrow> b < SIVFS_ALLOCATOR_NBINS \<and> sz \<le> bs \<and> 20 * unat bs \<le> 23 * unat sz \<and>
             sivfs_allocator_bins_get_bin bs = Inr (Some (b, bs))"
  using assms
proof (cases rule: size_class_cases)
  case (bin k)
  have "unat sz \<le> unat (sivfs_allocator_bin_maxsize k)"
    unfolding unat_div8 [OF assms(1)] bin_maxsize_unat [OF bin(1)] by (rule mult_le_mono1 [OF in_bin_max(1) [OF bin(2)]])
  then show ?thesis using bin(1,3) size_class_fixed(1) [OF bin(1,2)] size_class_waste [OF bin(1,2) assms(1)]
    by (simp add: word_le_nat_alt SIVFS_ALLOCATOR_NBINS_def)
next
  case large
  then show ?thesis by simp
qed

section \<open>Aborting undoes the changes of the free lists\<close>

text \<open>Undoing the recorded changes, the last first, gives back the free lists \<open>base\<close>.\<close>

definition undoes :: "(u64 \<Rightarrow> mmap_state option) \<Rightarrow> user \<Rightarrow> bool" where
  "undoes base u \<longleftrightarrow> length (u_restore_ptrs u) = length (u_restore_values u) \<and>
     (\<exists>u'. restore_loop (rev (zip (u_restore_ptrs u) (u_restore_values u))) u = (OK, u') \<and> u_mstates u' = base)"

definition undoable :: "user \<Rightarrow> user \<Rightarrow> bool" where
  "undoable u v \<longleftrightarrow> u_ready v = u_ready u \<and> (\<forall>base. undoes base u \<longrightarrow> undoes base v)"

lemma undoable_refl [simp, intro]: "undoable u u"
  by (simp add: undoable_def)

lemma undoable_trans [trans]: "undoable u v \<Longrightarrow> undoable v w \<Longrightarrow> undoable u w"
  by (simp add: undoable_def)

lemma restore_loop_mstates:
  assumes "restore_loop xs u = (OK, u')" and "u_mstates v = u_mstates u"
  shows "\<exists>v'. restore_loop xs v = (OK, v') \<and> u_mstates v' = u_mstates u'"
  using assms
proof (induction xs u arbitrary: v rule: restore_loop.induct)
  case (1 u)
  then show ?case by simp
next
  case (2 slot val xs u)
  obtain w where "slot_value u slot = Some w" using "2.prems"(1) by (auto split: option.splits)
  moreover have "slot_value v slot = slot_value u slot" and "u_mstates (set_slot slot val v) = u_mstates (set_slot slot val u)"
    using "2.prems"(2) by (simp_all add: slot_value_def set_slot_def)
  ultimately show ?case using "2.IH" [of w "set_slot slot val v"] "2.prems"(1) by simp
qed

lemma undoable_same:
  assumes "u_mstates v = u_mstates u" and "u_restore_ptrs v = u_restore_ptrs u"
    and "u_restore_values v = u_restore_values u" and "u_ready v = u_ready u"
  shows "undoable u v"
  using assms restore_loop_mstates [OF _ assms(1)] unfolding undoable_def undoes_def by metis

named_theorems undoable_ops

lemma next_ok_undoable [undoable_ops]: "undoable u (snd (next_ok u))"
  by (rule undoable_same) (simp_all add: next_ok_def split: list.split)

lemma die_undoable [undoable_ops]: "undoable u (die u)"
  by (rule undoable_same) (simp_all add: die_def)

lemma write_ws_undoable [undoable_ops]: "undoable u (snd (sivfs_write_ws u a v))"
  by (rule undoable_same)
    (simp_all add: sivfs_write_ws_def next_ok_def Let_def split: list.split prod.split)

text \<open>The rules for a step that is left on an error.\<close>

lemma undoable_bind:
  assumes "undoable u (snd p)" and "\<And>u1. p = (OK, u1) \<Longrightarrow> undoable u1 (snd (f u1))"
  shows "undoable u (snd (case p of (OK, u1) \<Rightarrow> f u1 | (r, u1) \<Rightarrow> (r, u1)))"
  using assms by (cases p; cases "fst p") (auto intro: undoable_trans)

lemma undoable_bind_ptr:
  assumes "undoable u (snd p)" and "\<And>u1. p = (OK, u1) \<Longrightarrow> undoable u1 (snd (snd (f u1)))"
  shows "undoable u (snd (snd (case p of (OK, u1) \<Rightarrow> f u1 | (r, u1) \<Rightarrow> (r, c, u1))))"
  using assms by (cases p; cases "fst p") (auto intro: undoable_trans)

lemma undoable_bind_slot:
  assumes "undoable u (snd (snd p))" and "\<And>x u1. p = (OK, x, u1) \<Longrightarrow> undoable u1 (snd (snd (f x u1)))"
  shows "undoable u (snd (snd (case p of (OK, x, u1) \<Rightarrow> f x u1 | (r, _, u1) \<Rightarrow> (r, c, u1))))"
  using assms by (cases p; cases "fst p") (auto intro: undoable_trans)

lemma write_all_undoable [undoable_ops]: "undoable u (snd (write_all ws u))"
proof (induction ws u rule: write_all.induct)
  case (2 a v ws u)
  then show ?case unfolding write_all.simps by (intro undoable_bind write_ws_undoable) auto
qed simp

lemma lh_add_ws_undoable [undoable_ops]: "undoable u (snd (sivfs_alloc_lh_add_ws l n u))"
  unfolding sivfs_alloc_lh_add_ws_def Let_def by (rule write_all_undoable)

lemma lh_remove_ws_undoable [undoable_ops]: "undoable u (snd (sivfs_alloc_lh_remove_ws n u))"
  unfolding sivfs_alloc_lh_remove_ws_def Let_def by (simp del: write_all.simps add: write_all_undoable)

lemma set_flags_undoable [undoable_ops]: "undoable u (snd (sivfs_allocated_region_set_flags r f u))"
  unfolding sivfs_allocated_region_set_flags_def by (auto intro: write_ws_undoable)

lemma lib_alloc_block_undoable [undoable_ops]: "undoable u (snd (snd (lib_alloc_block u)))"
  by (rule undoable_same) (simp_all add: lib_alloc_block_def split: list.split option.split)

lemma lib_free_block_undoable [undoable_ops]: "undoable u (snd (lib_free_block u))"
  by (rule undoable_same) (simp_all add: lib_free_block_def next_ok_def split: list.split)

lemma set_free_list_undoes:
  assumes old: "slot_value u slot = Some old_list" and undo: "undoes base u"
  shows "undoes base (set_slot slot lst (u\<lparr>u_restore_ptrs := u_restore_ptrs u @ [slot],
    u_restore_values := u_restore_values u @ [old_list]\<rparr>))"
proof -
  let ?v = "set_slot slot lst (u\<lparr>u_restore_ptrs := u_restore_ptrs u @ [slot],
    u_restore_values := u_restore_values u @ [old_list]\<rparr>)"
  obtain u' where len: "length (u_restore_ptrs u) = length (u_restore_values u)"
    and r: "restore_loop (rev (zip (u_restore_ptrs u) (u_restore_values u))) u = (OK, u')" and u': "u_mstates u' = base"
    using undo by (auto simp: undoes_def)
  have "u_mstates (set_slot slot old_list ?v) = u_mstates u"
    using old by (auto simp: set_slot_def slot_value_def fun_eq_iff)
  moreover have "rev (zip (u_restore_ptrs ?v) (u_restore_values ?v))
      = (slot, old_list) # rev (zip (u_restore_ptrs u) (u_restore_values u))" using len by (simp add: set_slot_def)
  moreover have "slot_value ?v slot \<noteq> None" using old by (auto simp: set_slot_def slot_value_def)
  ultimately show ?thesis using restore_loop_mstates [OF r] len u' by (auto simp: undoes_def set_slot_def split: option.splits)
qed

lemma set_free_list_undoable [undoable_ops]: "undoable u (snd (sivfs_set_free_list slot lst u))"
proof (cases "slot_value u slot")
  case None
  then show ?thesis by (simp add: sivfs_set_free_list_def)
next
  case (Some old_list)
  obtain ok u1 ok2 u2 where n: "next_ok u = (ok, u1)" "next_ok u1 = (ok2, u2)" by fastforce
  have u1: "undoable u u1" and u2: "undoable u u2"
    using next_ok_undoable [of u] next_ok_undoable [of u1] n by (auto intro: undoable_trans)
  have "slot_value u2 slot = Some old_list" using n Some by (auto simp: next_ok_def slot_value_def split: list.splits)
  then have "undoable u2 (set_slot slot lst (u2\<lparr>u_restore_ptrs := u_restore_ptrs u2 @ [slot],
    u_restore_values := u_restore_values u2 @ [old_list]\<rparr>))"
    using set_free_list_undoes by (simp add: undoable_def set_slot_def)
  then show ?thesis using u1 u2 Some n by (auto simp: sivfs_set_free_list_def intro: undoable_trans)
qed

lemma new_slab_undoable [undoable_ops]: "undoable u (snd (new_slab slot tag n ms u))"
proof -
  obtain r ob u1 where b: "lib_alloc_block u = (r, ob, u1)" by (cases "lib_alloc_block u")
  have u1: "undoable u u1" using lib_alloc_block_undoable [of u] b by simp
  have step: "undoable u1 (snd (case write_all ws u1 of (OK, u2) \<Rightarrow> sivfs_set_free_list slot h u2 | (r, u2) \<Rightarrow> (r, u2)))" for ws h
    by (intro undoable_bind undoable_ops)
  show ?thesis using u1 undoable_trans [OF u1 step]
    by (simp add: new_slab_def Let_def b del: write_all.simps split: rc.split option.split)
qed

lemma get_free_list_slot_undoable [undoable_ops]: "undoable u (snd (snd (sivfs_get_free_list_slot zone tag sz alloc u)))"
proof -
  have "undoable u (snd (snd (case new_slab slot tag n ms u of (OK, u1) \<Rightarrow> (OK, (Some slot, n), u1) | (r, u1) \<Rightarrow> (r, (None, 0), u1))))"
    for slot n ms by (intro undoable_bind_ptr undoable_ops) simp
  then show ?thesis by (simp add: sivfs_get_free_list_slot_def Let_def split: option.split sum.split)
qed

lemma count_undoable: "undoable u v \<Longrightarrow> undoable u (v\<lparr>u_nAllocs := n\<rparr>)" "undoable u v \<Longrightarrow> undoable u (v\<lparr>u_nFrees := n\<rparr>)"
  by (erule undoable_trans, rule undoable_same, simp_all)+

lemma big_alloc_undoable [undoable_ops]: "undoable u (snd (snd (big_alloc tag sz u)))"
proof -
  obtain r ob u1 where b: "lib_alloc_block u = (r, ob, u1)" by (cases "lib_alloc_block u")
  have u1: "undoable u u1" using lib_alloc_block_undoable [of u] b by simp
  have step: "undoable u1 (snd (snd (case write_all ws u1 of
      (OK, u2) \<Rightarrow> (OK, a, u2\<lparr>u_nAllocs := u_nAllocs u2 + 1\<rparr>) | (r, u2) \<Rightarrow> (r, 0, u2))))" for ws and a :: u64
    by (intro undoable_bind_ptr undoable_ops) (simp add: count_undoable)
  show ?thesis using u1 undoable_trans [OF u1 step]
    by (simp add: big_alloc_def Let_def b del: write_all.simps split: rc.split option.split)
qed

lemma split_region_undoable [undoable_ops]: "undoable u (snd (split_region head region n u))"
proof -
  have "undoable u (snd (case write_all ws u of (OK, u1) \<Rightarrow> sivfs_alloc_lh_add_ws head l u1 | (r, u1) \<Rightarrow> (r, u1)))" for ws l
    by (intro undoable_bind undoable_ops)
  then show ?thesis by (simp add: split_region_def Let_def del: write_all.simps)
qed

lemma take_region_undoable: "undoable u (snd (take_region slot head iter n u))"
  unfolding take_region_def Let_def
  using write_ws_undoable [of u "sivfs_allocator_lh_to_allocated_region iter"
      "n OR (u_mem u (sivfs_allocator_lh_to_allocated_region iter) AND SIVFS_SLAB_INDEX_MASK)"]
  by (auto split: prod.split rc.split intro: undoable_trans undoable_ops)

lemma malloc_loop_undoable [undoable_ops]: "undoable u (snd (snd (malloc_loop fuel slot head n within u)))"
proof (induction fuel arbitrary: u within)
  case (Suc fuel)
  let ?split = "sivfs_allocated_region_size (u_mem u) (sivfs_allocator_lh_to_allocated_region (lh_next (u_mem u) head)) \<ge> n * 2"
  let ?region = "sivfs_allocator_lh_to_allocated_region (lh_next (u_mem u) head)"
  define p where "p = (if ?split then split_region head ?region n u else (OK, u))"
  have p: "undoable u (snd p)" by (simp add: p_def undoable_ops)
  have taken: "undoable u1 (snd (snd (case take_region slot head (lh_next (u_mem u) head) n u1 of
        (None, u2) \<Rightarrow> (OK, 0, u2)
      | (Some OK, u2) \<Rightarrow> (OK, sivfs_allocated_region_to_alloc_ret ?region, u2\<lparr>u_nAllocs := u_nAllocs u2 + 1\<rparr>)
      | (Some r, u2) \<Rightarrow> (r, 0, u2))))" for u1
    using take_region_undoable [of u1 slot head "lh_next (u_mem u) head" n]
    by (auto split: option.split prod.split rc.split intro: count_undoable)
  show ?case
    unfolding malloc_loop.simps Let_def p_def [symmetric]
    using taken Suc.IH by (auto intro!: undoable_bind_ptr p die_undoable count_undoable)
qed simp

lemma malloc_ws_undoable [undoable_ops]: "undoable u (snd (snd (sivfs_malloc_ws zone tag sz u)))"
proof -
  obtain r q u1 where "sivfs_get_free_list_slot zone tag (ROUND_UP sz 8) True u = (r, q, u1)" by (rule prod_cases3)
  then obtain os n where g: "sivfs_get_free_list_slot zone tag (ROUND_UP sz 8) True u = (r, (os, n), u1)" by (cases q) simp
  have u1: "undoable u u1" using get_free_list_slot_undoable [of u zone tag "ROUND_UP sz 8" True] g by simp
  then show ?thesis
    using undoable_trans [OF u1 big_alloc_undoable] undoable_trans [OF u1 malloc_loop_undoable] undoable_trans [OF u1 die_undoable]
    by (simp add: sivfs_malloc_ws_def Let_def g die_undoable del: malloc_loop.simps split: rc.split option.split)
qed

lemma free_to_list_undoable [undoable_ops]: "undoable u (snd (free_to_list slot region u))"
proof -
  have "undoable u (snd (case (if h then (case write_all ws u of (OK, u1) \<Rightarrow> sivfs_set_free_list slot l u1 | (r, u1) \<Rightarrow> (r, u1))
        else sivfs_alloc_lh_add_ws head l u) of
      (OK, u2) \<Rightarrow> sivfs_allocated_region_set_flags region f u2 | (r, u2) \<Rightarrow> (r, u2)))" for h ws l head f
    by (cases h) (simp_all only: if_True if_False, (intro undoable_bind undoable_ops)+)
  then show ?thesis by (simp add: free_to_list_def del: write_all.simps split: option.split)
qed

lemma free_big_undoable [undoable_ops]: "undoable u (snd (free_big region u))"
  unfolding free_big_def Let_def by (intro undoable_bind undoable_ops)

lemma free_ws_undoable [undoable_ops]: "undoable u (snd (sivfs_free_ws p u))"
proof -
  have counted: "undoable u (snd p) \<Longrightarrow> undoable u (snd (case p of (r, u1) \<Rightarrow> (r, if r = OK then u1\<lparr>u_nFrees := u_nFrees u1 + 1\<rparr> else u1)))"
    for u p by (cases p) (simp add: count_undoable)
  have freed: "undoable u (snd (case sivfs_get_free_list_slot zone tag sz False u of
      (OK, (None, _), u1) \<Rightarrow> (E EINVAL, u1)
    | (OK, (Some slot, _), u1) \<Rightarrow> (case free_to_list slot region u1 of (r, u1) \<Rightarrow> (r, if r = OK then u1\<lparr>u_nFrees := u_nFrees u1 + 1\<rparr> else u1))
    | (r, _, u1) \<Rightarrow> (r, u1)))" for zone tag sz region
  proof -
    obtain r q u1 where "sivfs_get_free_list_slot zone tag sz False u = (r, q, u1)" by (rule prod_cases3)
    then obtain os n where g: "sivfs_get_free_list_slot zone tag sz False u = (r, (os, n), u1)" by (cases q) simp
    have u1: "undoable u u1" using get_free_list_slot_undoable [of u zone tag sz False] g by simp
    then show ?thesis using undoable_trans [OF u1 counted [OF free_to_list_undoable]] by (simp add: g split: rc.split option.split)
  qed
  show ?thesis unfolding sivfs_free_ws_def Let_def
    by (simp add: die_undoable counted free_big_undoable freed split: option.split)
qed

text \<open>A program of allocations and frees, which goes on after errors.\<close>

datatype alloc_op = Malloc u64 u64 u64 | Free u64

fun alloc_run :: "alloc_op list \<Rightarrow> user \<Rightarrow> user" where
  "alloc_run [] u = u"
| "alloc_run (Malloc zone tag sz # ops) u = alloc_run ops (snd (snd (sivfs_malloc_ws zone tag sz u)))"
| "alloc_run (Free p # ops) u = alloc_run ops (snd (sivfs_free_ws p u))"

lemma alloc_run_undoable: "undoable u (alloc_run ops u)"
  by (induction ops u rule: alloc_run.induct) (auto intro: undoable_trans undoable_ops)

lemma abort_undoes:
  assumes "u_ready u" and "u_restore_ptrs u = []" and "u_restore_values u = []"
  obtains v where "sivfs_lib_allocation_on_commit True (alloc_run ops u) = (OK, v)" and "u_mstates v = u_mstates u"
    and "u_restore_ptrs v = []" and "u_restore_values v = []"
proof -
  have "undoes (u_mstates u) u" using assms by (simp add: undoes_def)
  then have "undoes (u_mstates u) (alloc_run ops u)" and "u_ready (alloc_run ops u)"
    using alloc_run_undoable [of u ops] assms(1) by (simp_all add: undoable_def)
  then show ?thesis using that by (fastforce simp: undoes_def sivfs_lib_allocation_on_commit_def)
qed

end
