(* ===== verification/User_Heap.thy ===== *)
theory User_Heap
  imports User_Alloc
begin

text \<open>
  The free lists of the allocator of \<^verbatim>\<open>lib/sivfs_allocator.h\<close> in memory: what it means that a list is in good order, that the steps of
  \<^verbatim>\<open>sivfs_malloc_ws\<close> and \<^verbatim>\<open>sivfs_free_ws\<close> (splitting a region, taking one out of a list, adding one) keep it so, and the properties
  of the two operations.  The state and the operations are those of \<open>User_Alloc\<close>.
\<close>

section \<open>Headers of regions\<close>

text \<open>The fields of a header: the size in 30 bits, the index in the slab in 16 and the mark of a freed region in 16.\<close>

definition hd_size :: "u64 \<Rightarrow> u64" where
  "hd_size w = take_bit 30 w"

definition hd_index :: "u64 \<Rightarrow> u64" where
  "hd_index w = take_bit 16 (drop_bit 30 w)"

definition hd_freed :: "u64 \<Rightarrow> u64" where
  "hd_freed w = take_bit 16 (drop_bit 46 w)"

lemma ffff_mask: "(65535 :: u64) = mask 16"
  by (simp add: mask_numeral)

lemma dead_bits: "bit (57005 :: int) n \<Longrightarrow> n < 16"
proof -
  assume "bit (57005 :: int) n"
  moreover have "take_bit 16 (57005 :: int) = 57005" by code_simp
  ultimately show "n < 16" by (metis bit_take_bit_iff)
qed

lemma bit_drop_bit_add: "bit (drop_bit n (w :: u64)) m \<longleftrightarrow> bit w (n + m)"
  by (simp add: bit_drop_bit_eq)

lemmas header_bits = SIVFS_BIG_ALLOCATION_FLAG_def SIVFS_LIST_HEAD_FLAG_def SIVFS_FREED_MAGIC_def SIVFS_FREED_MAGIC_MASK_def
  SIVFS_ALLOCATION_FLAGS_def SIVFS_SLAB_INDEX_MASK_def SIVFS_SLAB_INDEX_SHIFT_def ffff_mask
  bit_and_iff bit_or_iff bit_not_iff bit_push_bit_iff bit_take_bit_iff bit_drop_bit_add bit_mask_iff bit_1_iff
  hd_size_def hd_index_def hd_freed_def

lemma big_flag_iff: "w AND SIVFS_BIG_ALLOCATION_FLAG \<noteq> 0 \<longleftrightarrow> bit w 63"
  unfolding SIVFS_BIG_ALLOCATION_FLAG_def by (simp add: bit_iff_and_push_bit_not_eq_0)

lemma region_size_small:
  assumes "\<not> bit (mem r) 63"
  shows "sivfs_allocated_region_size mem r = hd_size (mem r)"
proof -
  have "mem r AND NOT SIVFS_ALLOCATION_FLAGS AND NOT SIVFS_SLAB_INDEX_MASK = hd_size (mem r)"
    by (rule bit_eqI) (simp only: header_bits hd_size_def, auto)
  then show ?thesis using assms by (simp only: sivfs_allocated_region_size_def big_flag_iff if_False)
qed

lemma region_slab_index: "sivfs_allocated_region_slab_index mem r = hd_index (mem r)"
  unfolding sivfs_allocated_region_slab_index_def hd_index_def
  by (rule bit_eqI) (auto simp: header_bits)

lemma freed_magic_iff: "w AND SIVFS_FREED_MAGIC_MASK = SIVFS_FREED_MAGIC \<longleftrightarrow> hd_freed w = 57005"
proof -
  have "w AND SIVFS_FREED_MAGIC_MASK = push_bit 46 (hd_freed w)"
    by (rule bit_eqI) (auto simp: header_bits hd_freed_def add.commute)
  moreover have "push_bit 46 (hd_freed w) = push_bit 46 57005 \<longleftrightarrow> hd_freed w = 57005"
  proof
    assume "push_bit 46 (hd_freed w) = push_bit 46 57005"
    then have "take_bit 16 (drop_bit 46 (push_bit 46 (hd_freed w))) = take_bit 16 (drop_bit 46 (push_bit 46 57005))" by simp
    moreover have "take_bit 16 (drop_bit 46 (push_bit 46 x)) = take_bit 16 x" for x :: u64
      by (rule bit_eqI) (auto simp: header_bits)
    ultimately have "take_bit 16 (hd_freed w) = take_bit 16 57005" by simp
    then show "hd_freed w = 57005" by (simp add: hd_freed_def)
  qed simp
  ultimately show ?thesis by (simp add: SIVFS_FREED_MAGIC_def)
qed

lemma below_bits:
  fixes x :: u64
  assumes "unat x < 2 ^ k" and "bit x n"
  shows "n < k"
proof -
  have "unat (take_bit k x) = unat x" using assms(1) by (simp add: unsigned_take_bit_eq take_bit_nat_eq_self)
  then have "take_bit k x = x" by (simp add: word_unat_eq_iff)
  then show ?thesis using assms(2) by (metis bit_take_bit_iff)
qed

lemma header_split:
  fixes w n :: u64
  assumes "unat n < 2 ^ 30"
  defines "w' \<equiv> n OR (w AND SIVFS_ALLOCATION_FLAGS) OR (w AND SIVFS_SLAB_INDEX_MASK)"
  shows "hd_size w' = n" and "hd_index w' = hd_index w" and "hd_freed w' = hd_freed w" and "bit w' 63 = bit w 63"
  unfolding w'_def by ((rule bit_eqI)?, simp only: header_bits, auto dest: below_bits [OF assms(1)])+

lemma header_free:
  fixes n i :: u64
  assumes "unat n < 2 ^ 30" and "unat i < 2 ^ 16"
  defines "w \<equiv> n OR SIVFS_FREED_MAGIC OR push_bit SIVFS_SLAB_INDEX_SHIFT i"
  shows "hd_size w = n" and "hd_index w = i" and "hd_freed w = 57005" and "\<not> bit w 63"
  unfolding w_def
  by ((rule bit_eqI)?, simp only: header_bits, auto dest: below_bits [OF assms(1)] below_bits [OF assms(2)] dead_bits)+

lemma header_taken:
  fixes w n :: u64
  assumes "unat n < 2 ^ 30"
  defines "w' \<equiv> n OR (w AND SIVFS_SLAB_INDEX_MASK)"
  shows "hd_size w' = n" and "hd_index w' = hd_index w" and "hd_freed w' = 0" and "\<not> bit w' 63"
  unfolding w'_def by ((rule bit_eqI)?, simp only: header_bits, auto dest: below_bits [OF assms(1)])+

lemma header_freed:
  fixes w f :: u64
  assumes "f = SIVFS_FREED_MAGIC \<or> f = SIVFS_FREED_MAGIC OR SIVFS_LIST_HEAD_FLAG"
  defines "w' \<equiv> (w AND NOT SIVFS_ALLOCATION_FLAGS) OR f"
  shows "hd_size w' = hd_size w" and "hd_index w' = hd_index w" and "hd_freed w' = 57005" and "\<not> bit w' 63"
    and "f AND NOT SIVFS_ALLOCATION_FLAGS = 0"
proof -
  obtain g where f: "f = SIVFS_FREED_MAGIC OR g" and g: "g = 0 \<or> g = push_bit 62 1"
    using assms(1) by (elim disjE) (rule that [of 0], simp, simp, rule that [of "push_bit 62 1"], simp add: SIVFS_LIST_HEAD_FLAG_def, simp)
  have "bit (push_bit 62 1 :: u64) n \<Longrightarrow> n = 62" for n by (simp only: bit_push_bit_iff bit_1_iff) auto
  then have bits: "bit g n \<Longrightarrow> n = 62" for n using g by (metis bit_0_eq bot_apply bot_bool_def)
  show "hd_size w' = hd_size w" "hd_index w' = hd_index w" "hd_freed w' = 57005" "\<not> bit w' 63"
    "f AND NOT SIVFS_ALLOCATION_FLAGS = 0"
    unfolding w'_def f by ((rule bit_eqI)?, simp only: header_bits, auto dest: dead_bits bits)+
qed

section \<open>Writes are recorded\<close>

definition change_entry :: "u64 \<times> u64 \<Rightarrow> sivfs_writeset_entry \<times> u64 list" where
  "change_entry = (\<lambda>(a, v). (\<lparr>wse_ino = 0, wse_file_offset = 0, wse_address = a, wse_stream_control = 0, wse_value = v\<rparr>, []))"

definition put_all :: "(u64 \<times> u64) list \<Rightarrow> (u64 \<Rightarrow> u64) \<Rightarrow> (u64 \<Rightarrow> u64)" where
  "put_all ws mem = fold (\<lambda>(a, v) m. m(a := v)) ws mem"

lemma put_all_simps [simp]:
  "put_all [] mem = mem" "put_all ((a, v) # ws) mem = put_all ws (mem(a := v))"
  by (simp_all add: put_all_def)

text \<open>The writeset has the entries \<open>es\<close> and room for \<open>n\<close> more, and the library gets the memory it asks for.\<close>

definition ws_room :: "(sivfs_writeset_entry \<times> u64 list) list \<Rightarrow> nat \<Rightarrow> user \<Rightarrow> bool" where
  "ws_room es n u \<longleftrightarrow> u_oks u = [] \<and> ws_repr (u_ws u) es \<and> length (ws_encode es) + 5 * n < 2 ^ 58"

text \<open>\<open>v\<close> has the memory of \<open>u\<close> after the writes \<open>ws\<close>, and each of them is at the end of the writeset, in this order.\<close>

definition wrote :: "(sivfs_writeset_entry \<times> u64 list) list \<Rightarrow> (u64 \<times> u64) list \<Rightarrow> user \<Rightarrow> user \<Rightarrow> bool" where
  "wrote es ws u v \<longleftrightarrow> u_mem v = put_all ws (u_mem u) \<and> ws_repr (u_ws v) (es @ map change_entry ws)"

lemma put_all_append [simp]: "put_all (ws @ ws') mem = put_all ws' (put_all ws mem)"
  by (simp add: put_all_def)

lemma wrote_trans: "wrote es ws u v \<Longrightarrow> wrote (es @ map change_entry ws) ws' v w \<Longrightarrow> wrote es (ws @ ws') u w"
  by (simp add: wrote_def)

lemma length_changes [simp]: "length (ws_encode (map change_entry ws)) = 5 * length ws"
  by (induction ws) (auto simp: change_entry_def)

lemma ws_room_wrote:
  assumes "ws_room es n u" and "wrote es ws u v" and "u_oks v = u_oks u" and "m + length ws \<le> n"
  shows "ws_room (es @ map change_entry ws) m v"
  using assms by (auto simp: ws_room_def wrote_def)

lemma wse_valid_change: "wse_valid (change_entry x)"
  by (cases x) (simp add: change_entry_def wse_valid_def info_of_def sivfs_wse_to_stream_info_def)

lemma write_ws_ok:
  assumes room: "ws_room es (Suc n) u" and "a mod 8 = 0"
  obtains w where "sivfs_write_ws u a v = (OK, u\<lparr>u_mem := (u_mem u)(a := v), u_ws := w\<rparr>)"
    and "ws_room (es @ [change_entry (a, v)]) n (u\<lparr>u_mem := (u_mem u)(a := v), u_ws := w\<rparr>)"
proof -
  obtain e where e: "change_entry (a, v) = (e, [])" by (simp add: change_entry_def)
  obtain w where w: "sivfs_add_to_writeset True (u_ws u) (wse_encode (e, [])) (bytes (5 + length ([] :: u64 list))) = (OK, w)"
      "ws_repr w (es @ [(e, [])])"
    using sivfs_add_to_writeset_repr [of "u_ws u" es e "[]"] room wse_valid_change [of "(a, v)"] e by (auto simp: ws_room_def)
  then show ?thesis using that [of w] room e assms(2)
    by (auto simp: sivfs_write_ws_def next_ok_def ws_room_def change_entry_def SIVFS_WRITESET_ENTRY_MIN_SIZE_def bytes_def)
qed

lemma write_all_ok:
  assumes "ws_room es (n + length ws) u" and "\<forall>(a, v) \<in> set ws. a mod 8 = 0"
  shows "\<exists>w. write_all ws u = (OK, u\<lparr>u_mem := put_all ws (u_mem u), u_ws := w\<rparr>) \<and>
    ws_room (es @ map change_entry ws) n (u\<lparr>u_mem := put_all ws (u_mem u), u_ws := w\<rparr>)"
  using assms
proof (induction ws arbitrary: es u)
  case Nil
  then show ?case by (intro exI [of _ "u_ws u"]) simp
next
  case (Cons x ws)
  obtain a v where x: "x = (a, v)" by (cases x)
  obtain w where w: "sivfs_write_ws u a v = (OK, u\<lparr>u_mem := (u_mem u)(a := v), u_ws := w\<rparr>)"
    and room: "ws_room (es @ [change_entry (a, v)]) (n + length ws) (u\<lparr>u_mem := (u_mem u)(a := v), u_ws := w\<rparr>)"
    using write_ws_ok [of es "n + length ws" u a v] Cons.prems x by auto
  show ?case using Cons.IH [OF room] Cons.prems(2) x w by (auto simp del: fun_upd_apply)
qed

lemma write_all_done:
  assumes "ws_room es (k + m) u" and "length ws = m" and "\<forall>(a, v) \<in> set ws. a mod 8 = 0"
  obtains v w where "write_all ws u = (OK, v)" and "v = u\<lparr>u_mem := put_all ws (u_mem u), u_ws := w\<rparr>"
    and "ws_room (es @ map change_entry ws) k v"
  using write_all_ok [of es k ws u] assms by blast

section \<open>Free lists\<close>

text \<open>\<open>chain mem a xs b\<close>: following the list from node \<open>a\<close> leads through \<open>xs\<close> to \<open>b\<close>, with matching back pointers.\<close>

fun chain :: "(u64 \<Rightarrow> u64) \<Rightarrow> u64 \<Rightarrow> u64 list \<Rightarrow> u64 \<Rightarrow> bool" where
  "chain mem a [] b \<longleftrightarrow> lh_next mem a = b \<and> lh_prev mem b = a"
| "chain mem a (x # xs) b \<longleftrightarrow> lh_next mem a = x \<and> lh_prev mem x = a \<and> chain mem x xs b"

definition class_size :: "u64 \<Rightarrow> bool" where
  "class_size n \<longleftrightarrow> 24 \<le> unat n \<and> unat n < 2 ^ 30 \<and> n mod 8 = 0"

text \<open>The bytes of the region with list node \<open>l\<close>.\<close>

definition ext :: "(u64 \<Rightarrow> u64) \<Rightarrow> u64 \<Rightarrow> nat set" where
  "ext mem l = {unat (l - 8) ..< unat (l - 8) + unat (hd_size (mem (l - 8)))}"

definition elem_ok :: "u64 \<Rightarrow> (u64 \<Rightarrow> u64) \<Rightarrow> u64 \<Rightarrow> bool" where
  "elem_ok n mem l \<longleftrightarrow> l mod 8 = 0 \<and> 8 \<le> unat l \<and> hd_freed (mem (l - 8)) = 57005 \<and> \<not> bit (mem (l - 8)) 63 \<and>
     unat n \<le> unat (hd_size (mem (l - 8))) \<and> unat (l - 8) + unat (hd_size (mem (l - 8))) < 2 ^ 64 \<and>
     unat (hd_index (mem (l - 8))) + unat (hd_size (mem (l - 8))) div unat n \<le> 65535"

definition elems_ok :: "u64 \<Rightarrow> (u64 \<Rightarrow> u64) \<Rightarrow> u64 set \<Rightarrow> bool" where
  "elems_ok n mem L \<longleftrightarrow> (\<forall>l \<in> L. elem_ok n mem l) \<and> (\<forall>a \<in> L. \<forall>b \<in> L. a \<noteq> b \<longrightarrow> ext mem a \<inter> ext mem b = {})"

text \<open>The list with head \<open>h\<close> has the nodes \<open>ls\<close>; a head of 0 is the empty list.\<close>

definition free_list :: "u64 \<Rightarrow> (u64 \<Rightarrow> u64) \<Rightarrow> u64 \<Rightarrow> u64 list \<Rightarrow> bool" where
  "free_list n mem h ls \<longleftrightarrow> distinct ls \<and> elems_ok n mem (set ls) \<and>
     (case ls of [] \<Rightarrow> h = 0 | a # xs \<Rightarrow> h = a \<and> chain mem h xs h)"

lemma chain_cong:
  assumes "\<forall>y \<in> set (a # xs). m' (y + 8) = m (y + 8)" and "\<forall>y \<in> set (xs @ [b]). m' y = m y"
  shows "chain m' a xs b = chain m a xs b"
  using assms by (induction xs arbitrary: a) (auto simp: lh_next_def lh_prev_def)

lemma chain_insert:
  assumes "chain mem h xs h" and "distinct (x # h # xs)" and "\<forall>a \<in> set (x # h # xs). \<forall>b \<in> set (x # h # xs). a \<noteq> b + 8"
  shows "chain (put_all [(x + 8, lh_next mem h), (x, h), (h + 8, x), (lh_next mem h, x)] mem) h (x # xs) h"
proof (cases xs)
  case Nil
  then show ?thesis using assms by (auto simp: lh_next_def lh_prev_def)
next
  case (Cons t r)
  let ?m = "put_all [(x + 8, t), (x, h), (h + 8, x), (t, x)] mem"
  have t: "lh_next mem h = t" using assms(1) Cons by simp
  have "chain ?m t r h = chain mem t r h"
    using assms(2,3) Cons by (intro chain_cong) auto
  then show ?thesis using assms t Cons by (auto simp: lh_next_def lh_prev_def)
qed

lemma chain_remove:
  assumes "chain mem p (x # zs) h" and "distinct (x # p # zs)" and "h \<notin> set (x # zs)"
    and "\<forall>a \<in> set (h # x # p # zs). \<forall>b \<in> set (h # x # p # zs). a \<noteq> b + 8"
  shows "chain (put_all [(x, 0), (x + 8, 0), (p + 8, lh_next mem x), (lh_next mem x, p)] mem) p zs h"
proof (cases zs)
  case Nil
  then show ?thesis using assms by (auto simp: lh_next_def lh_prev_def)
next
  case (Cons t r)
  let ?m = "put_all [(x, 0), (x + 8, 0), (p + 8, t), (t, p)] mem"
  have t: "lh_next mem x = t" using assms(1) Cons by simp
  have "chain ?m t r h = chain mem t r h"
    using assms(2-4) Cons by (intro chain_cong) auto
  then show ?thesis using assms t Cons by (auto simp: lh_next_def lh_prev_def)
qed

lemma elem_addr:
  assumes "elem_ok n mem l" and "class_size n"
  shows "unat (l - 8) = unat l - 8" and "unat (l + 8) = unat l + 8" and "8 \<le> unat l"
    and "unat (l - 8) \<in> ext mem l" and "unat l \<in> ext mem l" and "unat (l + 8) \<in> ext mem l"
proof -
  show low: "8 \<le> unat l" using assms(1) by (simp add: elem_ok_def)
  then show a: "unat (l - 8) = unat l - 8" by (simp add: unat_sub word_le_nat_alt)
  have b: "24 \<le> unat (hd_size (mem (l - 8)))" "unat (l - 8) + unat (hd_size (mem (l - 8))) < 2 ^ 64"
    using assms by (auto simp: elem_ok_def class_size_def)
  then have "unat l + 8 < 2 ^ 64" using a low by linarith
  then show c: "unat (l + 8) = unat l + 8" by (subst unat_add_lem [THEN iffD1]) simp_all
  show "unat (l - 8) \<in> ext mem l" "unat l \<in> ext mem l" "unat (l + 8) \<in> ext mem l"
    unfolding c using a b(1) low by (auto simp: ext_def)
qed

text \<open>The words of distinct elements are distinct.\<close>

definition words_of :: "u64 \<Rightarrow> u64 set" where
  "words_of l = {l - 8, l, l + 8}"

lemma words_in_ext:
  assumes "elem_ok n mem l" and "class_size n" and "x \<in> words_of l"
  shows "unat x \<in> ext mem l"
  using elem_addr [OF assms(1,2)] assms(3) by (auto simp: words_of_def)

lemma words_disjoint:
  assumes "elems_ok n mem L" and "class_size n" and "a \<in> L" and "b \<in> L" and "a \<noteq> b"
  shows "words_of a \<inter> words_of b = {}"
  using assms words_in_ext [OF _ assms(2), of mem] unfolding elems_ok_def by blast

lemma words_distinct:
  assumes "elem_ok n mem l" and "class_size n"
  shows "l \<noteq> l + 8" and "l \<noteq> l - 8" and "l + 8 \<noteq> l - 8"
proof -
  note a = elem_addr(1-3) [OF assms]
  have "unat l \<noteq> unat (l + 8)" "unat l \<noteq> unat (l - 8)" "unat (l + 8) \<noteq> unat (l - 8)"
    unfolding a(1,2) using a(3) by linarith+
  then show "l \<noteq> l + 8" "l \<noteq> l - 8" "l + 8 \<noteq> l - 8" by metis+
qed

lemma nodes_apart:
  assumes "elems_ok n mem L" and "class_size n" and "a \<in> L" and "b \<in> L"
  shows "a \<noteq> b + 8" and "a \<noteq> b - 8" and "a + 8 \<noteq> b - 8"
proof -
  show "a \<noteq> b + 8" "a \<noteq> b - 8" "a + 8 \<noteq> b - 8"
    using words_disjoint [OF assms] words_distinct [of n mem b] assms by (cases "a = b"; auto simp: words_of_def elems_ok_def)+
qed

lemma elem_ok_header: "m' (l - 8) = m (l - 8) \<Longrightarrow> elem_ok n m' l = elem_ok n m l" "m' (l - 8) = m (l - 8) \<Longrightarrow> ext m' l = ext m l"
  by (simp_all add: elem_ok_def ext_def)

lemma elems_ok_header:
  assumes "\<forall>l \<in> L. m' (l - 8) = m (l - 8)"
  shows "elems_ok n m' L = elems_ok n m L"
  using assms elem_ok_header [of m' _ m] by (auto simp: elems_ok_def)

lemma elems_ok_subset: "elems_ok n m L \<Longrightarrow> K \<subseteq> L \<Longrightarrow> elems_ok n m K"
  unfolding elems_ok_def by blast

definition add_writes :: "(u64 \<Rightarrow> u64) \<Rightarrow> u64 \<Rightarrow> u64 \<Rightarrow> (u64 \<times> u64) list" where
  "add_writes mem lst lh = [(lh + 8, lh_next mem lst), (lh, lh_prev mem (lh_next mem lst)),
     (lh_prev mem (lh_next mem lst) + 8, lh), (lh_next mem lst, lh)]"

definition remove_writes :: "(u64 \<Rightarrow> u64) \<Rightarrow> u64 \<Rightarrow> (u64 \<times> u64) list" where
  "remove_writes mem lh = [(lh, 0), (lh + 8, 0), (lh_prev mem lh + 8, lh_next mem lh), (lh_next mem lh, lh_prev mem lh)]"

text \<open>Writes to the nodes of the elements in \<open>L\<close> leave everything else as it is, in particular their headers.\<close>

lemma put_all_elsewhere: "a \<notin> fst ` set ws \<Longrightarrow> put_all ws mem a = mem a"
  by (induction ws arbitrary: mem) auto

lemma node_writes_headers:
  assumes "elems_ok n mem L" and "class_size n" and "fst ` set ws \<subseteq> L \<union> (\<lambda>l. l + 8) ` L"
  shows "\<forall>l \<in> L. put_all ws mem (l - 8) = mem (l - 8)"
proof
  fix l assume "l \<in> L"
  then have "l - 8 \<notin> L \<union> (\<lambda>l. l + 8) ` L" using nodes_apart [OF assms(1,2)] by (metis (no_types, lifting) UnE imageE)
  then show "put_all ws mem (l - 8) = mem (l - 8)" using assms(3) by (intro put_all_elsewhere) blast
qed

lemma ring_first:
  assumes "chain mem h xs h"
  shows "lh_next mem h \<in> set (h # xs)" and "lh_prev mem (lh_next mem h) = h"
  using assms by (cases xs; simp)+

lemma free_list_add:
  assumes fl: "free_list n mem h (h # xs)" and ok: "elems_ok n mem (set (x # h # xs))" and new: "x \<notin> set (h # xs)" and n: "class_size n"
  shows "free_list n (put_all (add_writes mem h x) mem) h (h # x # xs)"
    and "\<forall>l \<in> set (x # h # xs). put_all (add_writes mem h x) mem (l - 8) = mem (l - 8)"
proof -
  have ring: "chain mem h xs h" and d: "distinct (h # xs)" using fl by (simp_all add: free_list_def)
  note first = ring_first [OF ring]
  have ws: "add_writes mem h x = [(x + 8, lh_next mem h), (x, h), (h + 8, x), (lh_next mem h, x)]"
    by (simp add: add_writes_def first(2))
  show hd: "\<forall>l \<in> set (x # h # xs). put_all (add_writes mem h x) mem (l - 8) = mem (l - 8)"
    by (rule node_writes_headers [OF ok n]) (use first(1) in \<open>auto simp: ws\<close>)
  have "chain (put_all (add_writes mem h x) mem) h (x # xs) h"
    unfolding ws by (rule chain_insert [OF ring]) (use new d nodes_apart(1) [OF ok n] in auto)
  moreover have "elems_ok n (put_all (add_writes mem h x) mem) (set (h # x # xs))"
    using ok elems_ok_header [OF hd] by (simp add: insert_commute)
  ultimately show "free_list n (put_all (add_writes mem h x) mem) h (h # x # xs)"
    using d new by (simp add: free_list_def) auto
qed

text \<open>The element taken out is the first after the head, or the second when the first has just been put there.\<close>

lemma free_list_remove:
  assumes fl: "free_list n mem h (h # ys @ x # zs)" and n: "class_size n" and ys: "ys = [] \<or> (\<exists>s. ys = [s])"
  shows "free_list n (put_all (remove_writes mem x) mem) h (h # ys @ zs)"
    and "\<forall>l \<in> set (h # ys @ x # zs). put_all (remove_writes mem x) mem (l - 8) = mem (l - 8)"
    and "lh_prev mem x \<in> set (h # ys)" and "lh_next mem x \<in> set (h # zs)"
    and "fst ` set (remove_writes mem x) \<subseteq> set (h # ys @ x # zs) \<union> (\<lambda>l. l + 8) ` set (h # ys @ x # zs)"
proof -
  let ?L = "set (h # ys @ x # zs)"
  have ring: "chain mem h (ys @ x # zs) h" and d: "distinct (h # ys @ x # zs)" and ok: "elems_ok n mem ?L"
    using fl by (simp_all add: free_list_def)
  define p where "p = last (h # ys)"
  have p: "chain mem p (x # zs) h" "p \<in> set (h # ys)" using ring ys by (auto simp: p_def)
  have prev: "lh_prev mem x = p" using p(1) by simp
  have nxt: "lh_next mem x \<in> set (h # zs)" using p(1) by (cases zs) auto
  show "lh_prev mem x \<in> set (h # ys)" "lh_next mem x \<in> set (h # zs)" using prev p(2) nxt by simp_all
  show sub: "fst ` set (remove_writes mem x) \<subseteq> ?L \<union> (\<lambda>l. l + 8) ` ?L"
    using prev p(2) nxt by (auto simp: remove_writes_def)
  show hd: "\<forall>l \<in> ?L. put_all (remove_writes mem x) mem (l - 8) = mem (l - 8)"
    by (rule node_writes_headers [OF ok n sub])
  have ws: "remove_writes mem x = [(x, 0), (x + 8, 0), (p + 8, lh_next mem x), (lh_next mem x, p)]"
    by (simp add: remove_writes_def prev)
  have apart: "\<forall>a \<in> ?L. \<forall>b \<in> ?L. a \<noteq> b + 8" using nodes_apart(1) [OF ok n] by blast
  have rest: "chain (put_all (remove_writes mem x) mem) p zs h"
    unfolding ws by (rule chain_remove [OF p(1)]) (use d apart p(2) in auto)
  have "chain (put_all (remove_writes mem x) mem) h (ys @ zs) h"
  proof (cases ys)
    case Nil
    then show ?thesis using rest by (simp add: p_def)
  next
    case (Cons s ys')
    then have s: "ys = [s]" "p = s" using ys by (auto simp: p_def)
    have "lh_next mem x \<noteq> s" using nxt d s by auto
    then have "put_all (remove_writes mem x) mem s = mem s" "put_all (remove_writes mem x) mem (h + 8) = mem (h + 8)"
      using nxt s apart d by (auto simp: ws) 
    then show ?thesis using rest ring s by (simp add: lh_next_def lh_prev_def)
  qed
  moreover have "elems_ok n (put_all (remove_writes mem x) mem) (set (h # ys @ zs))"
    by (rule elems_ok_subset [OF elems_ok_header [OF hd, THEN iffD2, OF ok]]) auto
  ultimately show "free_list n (put_all (remove_writes mem x) mem) h (h # ys @ zs)"
    using d by (simp add: free_list_def)
qed

lemma aligned_unat: "(x :: u64) mod 8 = 0 \<longleftrightarrow> unat x mod 8 = 0"
proof -
  have "unat (x mod 8) = unat x mod 8" by (simp add: unat_mod)
  then show ?thesis by (metis unat_eq_zero unsigned_0)
qed

text \<open>Splitting the region of \<open>l\<close> in memory: its header is \<open>w1\<close> afterwards, and \<open>w2\<close> is the header of the rest.\<close>

lemma split_elem:
  assumes l: "elem_ok n mem l" and n: "class_size n" and big: "2 * unat n \<le> unat (hd_size (mem (l - 8)))"
    and w1: "hd_size w1 = n" "hd_index w1 = hd_index (mem (l - 8))" "hd_freed w1 = 57005" "\<not> bit w1 63"
    and w2: "hd_size w2 = hd_size (mem (l - 8)) - n" "hd_index w2 = hd_index (mem (l - 8)) + 1" "hd_freed w2 = 57005" "\<not> bit w2 63"
  defines "m' \<equiv> mem(l - 8 := w1, l + n - 8 := w2)"
  shows "unat (l + n) = unat l + unat n" and "unat (l + n - 8) = unat (l - 8) + unat n"
    and "elem_ok n m' l" and "elem_ok n m' (l + n)"
    and "ext m' l = {unat (l - 8) ..< unat (l - 8) + unat n}"
    and "ext m' (l + n) = {unat (l - 8) + unat n ..< unat (l - 8) + unat (hd_size (mem (l - 8)))}"
proof -
  let ?sz = "hd_size (mem (l - 8))" and ?ix = "hd_index (mem (l - 8))"
  have n': "24 \<le> unat n" "8 dvd n" using n by (auto simp: class_size_def)
  have ok: "unat (l - 8) + unat ?sz < 2 ^ 64" "8 dvd l" "unat ?ix + unat ?sz div unat n \<le> 65535" and low: "8 \<le> unat l"
    using l by (auto simp: elem_ok_def)
  have a: "unat (l - 8) = unat l - 8" by (rule elem_addr(1) [OF l n])
  have "unat l + unat n < 2 ^ 64" using ok(1) a big n'(1) low by linarith
  then show s: "unat (l + n) = unat l + unat n" by (subst unat_add_lem [THEN iffD1]) simp_all
  then show r: "unat (l + n - 8) = unat (l - 8) + unat n" using a low by (simp add: unat_sub word_le_nat_alt)
  have ne: "l - 8 \<noteq> l + n - 8" using r n'(1) by (metis add_cancel_right_right not_numeral_le_zero)
  have sz: "unat (?sz - n) = unat ?sz - unat n" using big by (simp add: unat_sub word_le_nat_alt)
  have dv: "unat ?sz div unat n = Suc ((unat ?sz - unat n) div unat n)" using big n'(1) by (intro le_div_geq) auto
  have ix: "unat (?ix + 1) = unat ?ix + 1" using ok(3) by (subst unat_add_lem [THEN iffD1]) auto
  show "elem_ok n m' l" using l ne w1 n'(1) ok dv a low by (auto simp: m'_def elem_ok_def)
  show "ext m' l = {unat (l - 8) ..< unat (l - 8) + unat n}" using ne w1 by (simp add: m'_def ext_def)
  have "unat (l + n) mod 8 = 0" unfolding s using l n by (simp add: elem_ok_def class_size_def aligned_unat mod_add_eq [symmetric])
  then have "(l + n) mod 8 = 0" by (simp add: aligned_unat)
  then show "elem_ok n m' (l + n)" using w2 s r sz big low ok dv ix n'(2) by (auto simp: m'_def elem_ok_def)
  show "ext m' (l + n) = {unat (l - 8) + unat n ..< unat (l - 8) + unat ?sz}"
    using w2 r sz big by (auto simp: m'_def ext_def)
qed

text \<open>The elements \<open>L'\<close> lie inside the elements \<open>L\<close> of the memory before, outside of which nothing has changed.\<close>

definition within :: "(u64 \<Rightarrow> u64) \<Rightarrow> u64 set \<Rightarrow> (u64 \<Rightarrow> u64) \<Rightarrow> u64 set \<Rightarrow> bool" where
  "within m L m' L' \<longleftrightarrow> (\<forall>l' \<in> L'. \<exists>l \<in> L. ext m' l' \<subseteq> ext m l) \<and> (\<forall>a. (\<forall>l \<in> L. unat a \<notin> ext m l) \<longrightarrow> m' a = m a)"

lemma within_trans:
  assumes "within m L m' L'" and "within m' L' m'' L''"
  shows "within m L m'' L''"
proof -
  have "\<forall>l'' \<in> L''. \<exists>l \<in> L. ext m'' l'' \<subseteq> ext m l" using assms unfolding within_def by (metis order_trans)
  moreover have "m'' a = m a" if a: "\<forall>l \<in> L. unat a \<notin> ext m l" for a
  proof -
    have "\<forall>l' \<in> L'. unat a \<notin> ext m' l'" using assms(1) a unfolding within_def by blast
    then show ?thesis using assms a unfolding within_def by metis
  qed
  ultimately show ?thesis by (simp add: within_def)
qed

lemma within_writes:
  assumes ok: "elems_ok n mem L" and n: "class_size n" and ws: "fst ` set ws \<subseteq> \<Union> (words_of ` L)"
    and same: "\<forall>l \<in> L'. put_all ws mem (l - 8) = mem (l - 8)" and sub: "L' \<subseteq> L"
  shows "within mem L (put_all ws mem) L'"
proof -
  have "put_all ws mem a = mem a" if "\<forall>l \<in> L. unat a \<notin> ext mem l" for a
  proof (rule put_all_elsewhere, rule notI)
    assume "a \<in> fst ` set ws"
    then obtain l where "l \<in> L" "a \<in> words_of l" using ws by blast
    then have "unat a \<in> ext mem l" using ok n words_in_ext by (auto simp: elems_ok_def)
    then show False using that \<open>l \<in> L\<close> by blast
  qed
  then show ?thesis using same sub elem_ok_header(2) [of "put_all ws mem"] unfolding within_def by blast
qed

lemma split_elems:
  assumes ok: "elems_ok n mem L" and l: "l \<in> L" and n: "class_size n" and big: "2 * unat n \<le> unat (hd_size (mem (l - 8)))"
    and w1: "hd_size w1 = n" "hd_index w1 = hd_index (mem (l - 8))" "hd_freed w1 = 57005" "\<not> bit w1 63"
    and w2: "hd_size w2 = hd_size (mem (l - 8)) - n" "hd_index w2 = hd_index (mem (l - 8)) + 1" "hd_freed w2 = 57005" "\<not> bit w2 63"
  defines "m' \<equiv> mem(l - 8 := w1, l + n - 8 := w2)"
  shows "l + n \<notin> L" and "elems_ok n m' (insert (l + n) L)" and "within mem L m' (insert (l + n) L)"
    and "\<forall>y \<in> L. m' y = mem y \<and> m' (y + 8) = mem (y + 8)"
proof -
  have lok: "elem_ok n mem l" using ok l by (simp add: elems_ok_def)
  note sp = split_elem [OF lok n big w1 w2, folded m'_def]
  have n': "24 \<le> unat n" using n by (simp add: class_size_def)
  have low: "8 \<le> unat l" and hd: "unat (l - 8) = unat l - 8" using elem_addr(1,3) [OF lok n] by simp_all
  have in_l: "{unat (l - 8) + unat n .. unat (l - 8) + unat n + 16} \<subseteq> ext mem l"
    using big n' by (auto simp: ext_def)
  have out: "unat x \<notin> {unat (l - 8) + unat n .. unat (l - 8) + unat n + 16}" if "y \<in> L" "x \<in> words_of y" for x y
  proof (cases "y = l")
    case True
    then show ?thesis using that(2) elem_addr(1-3) [OF lok n] n' by (auto simp: words_of_def)
  next
    case False
    then show ?thesis using ok l that words_in_ext [OF _ n that(2), of mem] in_l unfolding elems_ok_def by blast
  qed
  have ne: "x \<noteq> l + n - 8 \<and> x \<noteq> l + n" if "y \<in> L" "x \<in> words_of y" for x y
  proof -
    have "unat x \<noteq> unat (l + n - 8) \<and> unat x \<noteq> unat (l + n)" using out [OF that] sp(1,2) hd low by auto
    then show ?thesis by metis
  qed
  show new: "l + n \<notin> L" using ne [of "l + n" "l + n"] by (auto simp: words_of_def)
  show "\<forall>y \<in> L. m' y = mem y \<and> m' (y + 8) = mem (y + 8)"
  proof
    fix y assume y: "y \<in> L"
    have "y \<noteq> l + n - 8" "y + 8 \<noteq> l + n - 8" using ne [OF y] by (simp_all only: words_of_def) blast+
    then show "m' y = mem y \<and> m' (y + 8) = mem (y + 8)"
      unfolding m'_def fun_upd_def using nodes_apart(2,3) [OF ok n y l] by metis
  qed
  have others: "m' (y - 8) = mem (y - 8)" if "y \<in> L" "y \<noteq> l" for y
  proof -
    have "y - 8 \<noteq> l + n - 8" "y - 8 \<noteq> l - 8" using ne [OF that(1)] that(2) by (simp_all only: words_of_def) (blast, simp)
    then show ?thesis by (simp only: m'_def fun_upd_def if_False)
  qed
  have sub: "ext m' l \<subseteq> ext mem l" "ext m' (l + n) \<subseteq> ext mem l" "ext m' l \<inter> ext m' (l + n) = {}"
    unfolding sp(5,6) using big by (auto simp: ext_def)
  have same: "ext m' y = ext mem y" "elem_ok n m' y = elem_ok n mem y" if "y \<in> L" "y \<noteq> l" for y
    using elem_ok_header [of m' y mem, OF others [OF that]] by simp_all
  have disj: "ext mem a \<inter> ext mem b = {}" if "a \<in> L" "b \<in> L" "a \<noteq> b" for a b using ok that by (simp add: elems_ok_def)
  define own where "own a = (if a = l + n then l else a)" for a
  have own: "own a \<in> L" "ext m' a \<subseteq> ext mem (own a)" if "a \<in> insert (l + n) L" for a
    using that sub(1,2) l same(1) [of a] by (cases "a = l"; auto simp: own_def)+
  have "ext m' a \<inter> ext m' b = {}" if a: "a \<in> insert (l + n) L" and b: "b \<in> insert (l + n) L" and ab: "a \<noteq> b" for a b
  proof (cases "own a = own b")
    case True
    then have "a = l \<and> b = l + n \<or> a = l + n \<and> b = l" using ab new l by (auto simp: own_def split: if_splits)
    then show ?thesis using sub(3) by blast
  next
    case False
    then show ?thesis using disj [OF own(1) [OF a] own(1) [OF b]] own(2) [OF a] own(2) [OF b] by blast
  qed
  moreover have "elem_ok n m' a" if "a \<in> insert (l + n) L" for a
    using that sp(3,4) same(2) [of a] ok by (cases "a = l \<or> a = l + n") (auto simp: elems_ok_def)
  ultimately show "elems_ok n m' (insert (l + n) L)" by (simp add: elems_ok_def)
  have "\<exists>k \<in> L. ext m' a \<subseteq> ext mem k" if "a \<in> insert (l + n) L" for a using own [OF that] by blast
  moreover have "m' a = mem a" if "\<forall>k \<in> L. unat a \<notin> ext mem k" for a
  proof -
    have "unat a \<notin> ext mem l" using that l by blast
    moreover have "unat (l - 8) + unat n \<in> ext mem l" using in_l by auto
    ultimately have "a \<noteq> l - 8" "a \<noteq> l + n - 8" using elem_addr(4) [OF lok n] sp(2) by auto
    then show ?thesis by (simp add: m'_def)
  qed
  ultimately show "within mem L m' (insert (l + n) L)" by (simp add: within_def)
qed

section \<open>The operations on free lists\<close>

lemma lh_add_ws_eq: "sivfs_alloc_lh_add_ws lst lh u = write_all (add_writes (u_mem u) lst lh) u"
  by (simp add: sivfs_alloc_lh_add_ws_def add_writes_def Let_def)

lemma lh_remove_ws_eq:
  assumes "lh_prev (u_mem u) lh \<notin> {lh, 0}" and "lh_next (u_mem u) lh \<notin> {lh, 0}"
  shows "sivfs_alloc_lh_remove_ws lh u = write_all (remove_writes (u_mem u) lh) u"
  using assms by (auto simp: sivfs_alloc_lh_remove_ws_def remove_writes_def Let_def)

lemma free_list_elems: "free_list n mem h ls \<Longrightarrow> elems_ok n mem (set ls)"
  by (simp add: free_list_def)

lemma elem_aligned:
  assumes "elem_ok n mem l" and "class_size n"
  shows "l mod 8 = 0" and "(l + 8) mod 8 = 0" and "(l - 8) mod 8 = 0" and "l \<noteq> 0"
proof -
  note addr = elem_addr(1-3) [OF assms]
  show l: "l mod 8 = 0" "l \<noteq> 0" using assms(1) by (auto simp: elem_ok_def)
  then have m: "unat l mod 8 = 0" by (simp add: aligned_unat)
  show "(l + 8) mod 8 = 0" unfolding aligned_unat addr(2) using m by simp
  show "(l - 8) mod 8 = 0" unfolding aligned_unat addr(1) using m addr(3) by presburger
qed

lemma add_writes_nodes:
  assumes "chain mem h xs h"
  shows "fst ` set (add_writes mem h x) \<subseteq> set (x # h # xs) \<union> (\<lambda>l. l + 8) ` set (x # h # xs)"
  using ring_first [OF assms] by (auto simp: add_writes_def)

lemma nodes_words: "L \<union> (\<lambda>l. l + 8) ` L \<subseteq> \<Union> (words_of ` L)"
  by (auto simp: words_of_def)

lemma nodes_aligned:
  assumes "elems_ok n mem L" and "class_size n" and "fst ` set ws \<subseteq> L \<union> (\<lambda>l. l + 8) ` L"
  shows "\<forall>(a, v) \<in> set ws. a mod 8 = 0"
proof clarify
  fix a v assume "(a, v) \<in> set ws"
  then have "a \<in> L \<union> (\<lambda>l. l + 8) ` L" using assms(3) by force
  then obtain l where l: "l \<in> L" "a = l \<or> a = l + 8" by blast
  then have "elem_ok n mem l" using assms(1) by (simp add: elems_ok_def)
  then show "a mod 8 = 0" using elem_aligned(1,2) [OF _ assms(2)] l(2) by metis
qed

text \<open>Adding an element that is in good order and disjoint from the others.\<close>

lemma lh_add_ok:
  assumes fl: "free_list n (u_mem u) h (h # xs)" and ok: "elems_ok n (u_mem u) (set (x # h # xs))" and new: "x \<notin> set (h # xs)"
    and n: "class_size n" and room: "ws_room es (k + 4) u"
  obtains v ws w where "sivfs_alloc_lh_add_ws h x u = (OK, v)" and "v = u\<lparr>u_mem := put_all ws (u_mem u), u_ws := w\<rparr>"
    and "ws_room (es @ map change_entry ws) k v" and "free_list n (u_mem v) h (h # x # xs)"
    and "within (u_mem u) (set (x # h # xs)) (u_mem v) (set (x # h # xs))"
    and "\<forall>l \<in> set (x # h # xs). u_mem v (l - 8) = u_mem u (l - 8)"
proof -
  let ?ws = "add_writes (u_mem u) h x"
  have ring: "chain (u_mem u) h xs h" using fl by (simp add: free_list_def)
  note sub = add_writes_nodes [OF ring, of x]
  have len: "length ?ws = 4" by (simp add: add_writes_def)
  obtain v w where v: "write_all ?ws u = (OK, v)" "v = u\<lparr>u_mem := put_all ?ws (u_mem u), u_ws := w\<rparr>"
      "ws_room (es @ map change_entry ?ws) k v"
    by (rule write_all_done [OF room len nodes_aligned [OF ok n sub]])
  note add = free_list_add [OF fl ok new n]
  have "within (u_mem u) (set (x # h # xs)) (put_all ?ws (u_mem u)) (set (x # h # xs))"
    by (rule within_writes [OF ok n order_trans [OF sub nodes_words] add(2)]) simp
  then show ?thesis using that [OF _ v(2,3)] v(1) add unfolding lh_add_ws_eq by (simp add: v(2))
qed

lemma split_region_ok:
  assumes fl: "free_list n (u_mem u) h (h # xs)" and l: "l \<in> set (h # xs)" and n: "class_size n"
    and big: "2 * unat n \<le> unat (hd_size (u_mem u (l - 8)))" and room: "ws_room es (k + 6) u"
  obtains v ws w where "split_region h (l - 8) n u = (OK, v)" and "v = u\<lparr>u_mem := put_all ws (u_mem u), u_ws := w\<rparr>"
    and "ws_room (es @ map change_entry ws) k v" and "free_list n (u_mem v) h (h # (l + n) # xs)" and "hd_size (u_mem v (l - 8)) = n"
    and "within (u_mem u) (set (h # xs)) (u_mem v) (set (h # (l + n) # xs))"
    and "\<forall>y \<in> set (h # xs). y \<noteq> l \<longrightarrow> u_mem v (y - 8) = u_mem u (y - 8)"
proof -
  let ?L = "set (h # xs)" and ?w = "u_mem u (l - 8)" and ?m = "u_mem u"
  define w1 where "w1 = n OR (?w AND SIVFS_ALLOCATION_FLAGS) OR (?w AND SIVFS_SLAB_INDEX_MASK)"
  define w2 where "w2 = (hd_size ?w - n) OR SIVFS_FREED_MAGIC OR push_bit SIVFS_SLAB_INDEX_SHIFT (hd_index ?w + 1)"
  have ok: "elems_ok n ?m ?L" by (rule free_list_elems [OF fl])
  then have lok: "elem_ok n ?m l" using l unfolding elems_ok_def by blast
  have n30: "unat n < 2 ^ 30" and npos: "0 < unat n" using n by (auto simp: class_size_def)
  have "2 \<le> unat (hd_size ?w) div unat n" using big npos by (simp add: less_eq_div_iff_mult_less_eq mult.commute)
  then have ix: "unat (hd_index ?w) \<le> 65533" using lok by (auto simp: elem_ok_def)
  then have ix1: "unat (hd_index ?w + 1) = unat (hd_index ?w) + 1" by (subst unat_add_lem [THEN iffD1]) auto
  have "unat (hd_size ?w) < 2 ^ 30" unfolding hd_size_def unsigned_take_bit_eq by (rule take_bit_nat_less_exp)
  moreover have "unat (hd_size ?w - n) = unat (hd_size ?w) - unat n" using big by (simp add: unat_sub word_le_nat_alt)
  ultimately have sz: "unat (hd_size ?w - n) < 2 ^ 30" by simp
  have h1: "hd_size w1 = n" "hd_index w1 = hd_index ?w" "hd_freed w1 = 57005" "\<not> bit w1 63"
    using header_split [OF n30, of ?w, folded w1_def] lok by (simp_all add: elem_ok_def)
  have ix16: "unat (hd_index ?w + 1) < 2 ^ 16" using ix ix1 by simp
  note h2 = header_free [OF sz ix16, folded w2_def]
  let ?m1 = "?m(l - 8 := w1, l + n - 8 := w2)"
  note sp = split_elems [OF ok l n big h1 h2]
  have aligned: "(l - 8) mod 8 = 0" "(l + n - 8) mod 8 = 0"
    using elem_aligned(3) [OF lok n] elem_aligned(3) [OF split_elem(4) [OF lok n big h1 h2] n] by auto
  have sn: "l - 8 + n = l + n - 8" "l - 8 + n + 8 = l + n" by simp_all
  let ?hs = "[(l - 8, w1), (l + n - 8, w2)]"
  have room2: "ws_room es (k + 4 + 2) u" using room by (simp add: add.commute)
  have hs: "length ?hs = 2" "\<forall>(a, v) \<in> set ?hs. a mod 8 = 0" using aligned by simp_all
  obtain u1 w where u1: "write_all ?hs u = (OK, u1)"
      "u1 = u\<lparr>u_mem := put_all ?hs ?m, u_ws := w\<rparr>"
      "ws_room (es @ map change_entry ?hs) (k + 4) u1"
    by (rule write_all_done [OF room2 hs])
  have m1: "u_mem u1 = ?m1" using u1(2) by simp
  have "chain ?m1 h xs h = chain ?m h xs h" using sp(4) by (intro chain_cong) auto
  then have fl1: "free_list n (u_mem u1) h (h # xs)"
    using fl elems_ok_subset [OF sp(2)] unfolding m1 free_list_def by auto
  have ok1: "elems_ok n (u_mem u1) (set ((l + n) # h # xs))" using sp(2) unfolding m1 by simp
  obtain v ws w' where v: "sivfs_alloc_lh_add_ws h (l + n) u1 = (OK, v)" "v = u1\<lparr>u_mem := put_all ws (u_mem u1), u_ws := w'\<rparr>"
      "ws_room ((es @ map change_entry ?hs) @ map change_entry ws) k v" "free_list n (u_mem v) h (h # (l + n) # xs)"
      "within (u_mem u1) (set ((l + n) # h # xs)) (u_mem v) (set ((l + n) # h # xs))"
      "\<forall>y \<in> set ((l + n) # h # xs). u_mem v (y - 8) = u_mem u1 (y - 8)"
    by (rule lh_add_ok [OF fl1 ok1 sp(1) n u1(3)])
  have res: "split_region h (l - 8) n u = (OK, v)"
    using u1(1) v(1) ix ix1 lok
    by (simp add: split_region_def Let_def region_size_small elem_ok_def region_slab_index sivfs_allocated_region_flags_def
        SIVFS_MAX_SLAB_ELTS_def word_less_nat_alt sn w1_def w2_def del: write_all.simps)
  have same: "u_mem v (y - 8) = u_mem u1 (y - 8)" if "y \<in> ?L" for y using v(6) that by (meson list.set_intros(2))
  have hdl: "hd_size (u_mem v (l - 8)) = n" using same [OF l] h1(1) sp(1) l by (auto simp: m1)
  have others: "\<forall>y \<in> ?L. y \<noteq> l \<longrightarrow> u_mem v (y - 8) = ?m (y - 8)"
  proof (intro ballI impI)
    fix y assume y: "y \<in> ?L" "y \<noteq> l"
    then have "y - 8 \<noteq> l + n - 8" "y - 8 \<noteq> l - 8" using sp(1) by auto
    then show "u_mem v (y - 8) = ?m (y - 8)" using same [OF y(1)] by (simp add: m1)
  qed
  have inside: "within ?m ?L (u_mem v) (set (h # (l + n) # xs))"
    using within_trans [OF sp(3) [folded m1]] v(5) by (simp add: insert_commute)
  have eq: "v = u\<lparr>u_mem := put_all (?hs @ ws) ?m, u_ws := w'\<rparr>" using v(2) u1(2) by simp
  have left: "ws_room (es @ map change_entry (?hs @ ws)) k v" using v(3) by simp
  show ?thesis by (rule that [OF res eq left v(4) hdl inside others])
qed

lemma put_all_commute: "a \<notin> fst ` set ws \<Longrightarrow> put_all ws (mem(a := v)) = (put_all ws mem)(a := v)"
proof (induction ws arbitrary: mem)
  case (Cons x ws)
  then show ?case by (cases x) (simp add: fun_upd_twist del: fun_upd_apply)
qed simp

text \<open>A region handed out: its bytes were free, are not in the list any more, and its header says that it is in use.\<close>

definition region_of :: "u64 \<Rightarrow> u64 \<Rightarrow> nat set" where
  "region_of p n = {unat (p - 8) ..< unat (p - 8) + unat n}"

definition in_use :: "u64 \<Rightarrow> (u64 \<Rightarrow> u64) \<Rightarrow> u64 \<Rightarrow> bool" where
  "in_use n mem p \<longleftrightarrow> p mod 8 = 0 \<and> 8 \<le> unat p \<and> unat (p - 8) + unat n < 2 ^ 64 \<and> hd_size (mem (p - 8)) = n \<and>
     hd_freed (mem (p - 8)) = 0 \<and> \<not> bit (mem (p - 8)) 63 \<and> unat (hd_index (mem (p - 8))) < 65535"

definition granted :: "u64 \<Rightarrow> u64 \<Rightarrow> (u64 \<Rightarrow> u64) \<Rightarrow> u64 set \<Rightarrow> (u64 \<Rightarrow> u64) \<Rightarrow> u64 set \<Rightarrow> bool" where
  "granted n p m L m' L' \<longleftrightarrow> within m L m' L' \<and> (\<exists>l \<in> L. region_of p n \<subseteq> ext m l) \<and> (\<forall>l \<in> L'. ext m' l \<inter> region_of p n = {}) \<and>
     in_use n m' p"

lemma elem_in_use:
  assumes l: "elem_ok n m l" and n: "class_size n" and w: "m' (l - 8) = n OR (m (l - 8) AND SIVFS_SLAB_INDEX_MASK)"
  shows "in_use n m' l" and "region_of l n \<subseteq> ext m l"
proof -
  have n30: "unat n < 2 ^ 30" "0 < unat n" using n by (auto simp: class_size_def)
  have le: "unat n \<le> unat (hd_size (m (l - 8)))" using l by (simp add: elem_ok_def)
  then have "1 \<le> unat (hd_size (m (l - 8))) div unat n" using n30(2) by (simp add: less_eq_div_iff_mult_less_eq)
  then have "unat (hd_index (m (l - 8))) < 65535" using l unfolding elem_ok_def by linarith
  moreover have "unat (l - 8) + unat n < 2 ^ 64" using l le unfolding elem_ok_def by linarith
  ultimately show "in_use n m' l"
    using l header_taken [OF n30(1), of "m (l - 8)"] unfolding in_use_def w elem_ok_def by simp
  show "region_of l n \<subseteq> ext m l" using le by (auto simp: region_of_def ext_def)
qed

lemma granted_within:
  assumes "within m L m1 L1" and "granted n p m1 L1 m' L'"
  shows "granted n p m L m' L'"
proof -
  have "\<exists>l \<in> L. region_of p n \<subseteq> ext m l" using assms unfolding granted_def within_def by (meson order_trans)
  then show ?thesis using assms(2) within_trans [OF assms(1)] by (simp add: granted_def)
qed

lemma free_list_other_header:
  assumes "free_list n m h ls" and "x \<notin> set ls" and "\<forall>y \<in> set ls. x - 8 \<noteq> y \<and> x - 8 \<noteq> y + 8"
  shows "free_list n (m(x - 8 := w)) h ls"
proof -
  define m' where "m' = m(x - 8 := w)"
  have "\<forall>l \<in> set ls. m' (l - 8) = m (l - 8)" using assms(2) by (auto simp: m'_def)
  then have ok: "elems_ok n m' (set ls) = elems_ok n m (set ls)" by (rule elems_ok_header)
  have nodes: "\<forall>y \<in> set ls. m' y = m y \<and> m' (y + 8) = m (y + 8)" using assms(3) by (auto simp: m'_def)
  have "free_list n m' h ls"
  proof (cases ls)
    case (Cons a xs)
    then have "chain m' h xs h = chain m h xs h" using assms(1) nodes by (intro chain_cong) (auto simp: free_list_def)
    then show ?thesis using assms(1) Cons ok by (auto simp: free_list_def)
  qed (use assms(1) in \<open>simp add: free_list_def elems_ok_def\<close>)
  then show ?thesis by (simp only: m'_def)
qed

lemma take_mid_ok:
  assumes fl: "free_list n (u_mem u) h (h # ys @ x # zs)" and n: "class_size n" and ys: "ys = [] \<or> (\<exists>s. ys = [s])"
    and room: "ws_room es (k + 5) u"
  obtains v ws w where "take_region slot h x n u = (Some OK, v)" and "v = u\<lparr>u_mem := put_all ws (u_mem u), u_ws := w\<rparr>"
    and "ws_room (es @ map change_entry ws) k v" and "free_list n (u_mem v) h (h # ys @ zs)"
    and "granted n x (u_mem u) (set (h # ys @ x # zs)) (u_mem v) (set (h # ys @ zs))"
proof -
  let ?m = "u_mem u" and ?L = "set (h # ys @ x # zs)" and ?L' = "set (h # ys @ zs)"
  let ?w = "n OR (?m (x - 8) AND SIVFS_SLAB_INDEX_MASK)" and ?rw = "remove_writes ?m x"
  have ok: "elems_ok n ?m ?L" and d: "distinct (h # ys @ x # zs)" using fl by (simp_all add: free_list_def)
  then have xok: "elem_ok n ?m x" unfolding elems_ok_def by simp
  note rm = free_list_remove [OF fl n ys]
  have x: "x \<noteq> h" "x \<notin> ?L'" "x \<in> ?L" using d by auto
  have out: "x - 8 \<notin> ?L \<union> (\<lambda>l. l + 8) ` ?L" using nodes_apart(2,3) [OF ok n _ x(3)] by (metis (no_types, lifting) UnE imageE)
  obtain w1 where w1: "sivfs_write_ws u (x - 8) ?w = (OK, u\<lparr>u_mem := ?m(x - 8 := ?w), u_ws := w1\<rparr>)"
      "ws_room (es @ [change_entry (x - 8, ?w)]) (k + 4) (u\<lparr>u_mem := ?m(x - 8 := ?w), u_ws := w1\<rparr>)"
    using write_ws_ok [OF _ elem_aligned(3) [OF xok n], of es "k + 4" u ?w] room by (auto simp: add.commute)
  let ?u1 = "u\<lparr>u_mem := ?m(x - 8 := ?w), u_ws := w1\<rparr>"
  have rw: "remove_writes (u_mem ?u1) x = ?rw"
    using words_distinct [OF xok n] by (simp add: remove_writes_def lh_prev_def lh_next_def)
  have len: "length ?rw = 4" by (simp add: remove_writes_def)
  obtain v w where v: "write_all ?rw ?u1 = (OK, v)" "v = ?u1\<lparr>u_mem := put_all ?rw (u_mem ?u1), u_ws := w\<rparr>"
      "ws_room ((es @ [change_entry (x - 8, ?w)]) @ map change_entry ?rw) k v"
    by (rule write_all_done [OF w1(2) len nodes_aligned [OF ok n rm(5)]])
  have mem: "u_mem v = (put_all ?rw ?m)(x - 8 := ?w)"
    unfolding v(2) using put_all_commute [OF contra_subsetD [OF rm(5) out]] by simp
  have nz: "0 \<notin> ?L" using ok elem_aligned(4) [OF _ n] unfolding elems_ok_def by blast
  have "lh_prev (u_mem ?u1) x \<notin> {x, 0}" "lh_next (u_mem ?u1) x \<notin> {x, 0}"
    using words_distinct [OF xok n] rm(3,4) d nz by (auto simp: lh_prev_def lh_next_def)
  then have rem: "sivfs_alloc_lh_remove_ws x ?u1 = (OK, v)" using lh_remove_ws_eq [of ?u1 x] rw v(1) by simp
  then have res: "take_region slot h x n u = (Some OK, v)"
    using w1(1) x(1) by (simp add: take_region_def Let_def sivfs_allocator_lh_to_allocated_region_def)
  have eq: "v = u\<lparr>u_mem := put_all ((x - 8, ?w) # ?rw) ?m, u_ws := w\<rparr>" using v(2) by simp
  have left: "ws_room (es @ map change_entry ((x - 8, ?w) # ?rw)) k v" using v(3) by simp
  have "\<forall>y \<in> ?L'. x - 8 \<noteq> y \<and> x - 8 \<noteq> y + 8" using out by auto
  then have fl': "free_list n (u_mem v) h (h # ys @ zs)" unfolding mem by (rule free_list_other_header [OF rm(1) x(2)])
  have same: "\<forall>y \<in> ?L'. u_mem v (y - 8) = ?m (y - 8)" using rm(2) x(2) unfolding mem by auto
  have "within ?m ?L (u_mem v) ?L'"
    using within_writes [OF ok n, of "(x - 8, ?w) # ?rw" ?L'] same order_trans [OF rm(5) nodes_words] x(3) eq
    by (auto simp: words_of_def)
  moreover have "in_use n (u_mem v) x" "region_of x n \<subseteq> ext ?m x"
    by (rule elem_in_use [OF xok n], simp add: mem)+
  moreover have "ext (u_mem v) y \<inter> ext ?m x = {}" if "y \<in> ?L'" for y
  proof -
    have "y \<in> ?L" "y \<noteq> x" using that x by auto
    then have "ext ?m y \<inter> ext ?m x = {}" using ok x(3) unfolding elems_ok_def by blast
    then show ?thesis using elem_ok_header(2) [of "u_mem v" y ?m, OF bspec [OF same that]] by simp
  qed
  ultimately have "granted n x ?m ?L (u_mem v) ?L'" using x(3) unfolding granted_def by blast
  then show ?thesis by (rule that [OF res eq left fl'])
qed

lemma set_free_list_ok:
  assumes "slot_value u slot = Some old" and "u_ready u" and "u_oks u = []"
  shows "sivfs_set_free_list slot h u = (OK, set_slot slot h (u\<lparr>u_restore_ptrs := u_restore_ptrs u @ [slot],
    u_restore_values := u_restore_values u @ [old]\<rparr>))"
  using assms by (simp add: sivfs_set_free_list_def next_ok_def)

lemma set_slot_simps [simp]:
  "u_mem (set_slot slot h u) = u_mem u" "u_ws (set_slot slot h u) = u_ws u" "u_oks (set_slot slot h u) = u_oks u"
  "u_exit (set_slot slot h u) = u_exit u" "u_ready (set_slot slot h u) = u_ready u"
  "slot_value u slot \<noteq> None \<Longrightarrow> slot_value (set_slot slot h u) slot = Some h"
  by (auto simp: set_slot_def slot_value_def)

text \<open>The list has one element only.\<close>

lemma take_head_ok:
  assumes fl: "free_list n (u_mem u) h [h]" and n: "class_size n" and room: "ws_room es (Suc k) u"
    and slot: "slot_value u slot = Some h" "u_ready u"
  obtains v ws where "take_region slot h h n u = (Some OK, v)" and "u_mem v = put_all ws (u_mem u)"
    and "ws_room (es @ map change_entry ws) k v" and "slot_value v slot = Some 0" and "u_exit v = u_exit u" and "u_ready v"
    and "granted n h (u_mem u) {h} (u_mem v) {}"
proof -
  let ?m = "u_mem u" and ?w = "n OR (u_mem u (h - 8) AND SIVFS_SLAB_INDEX_MASK)"
  have ok: "elems_ok n ?m {h}" and ring: "chain ?m h [] h" using fl by (simp_all add: free_list_def)
  then have hok: "elem_ok n ?m h" by (simp add: elems_ok_def)
  obtain w where w: "sivfs_write_ws u (h - 8) ?w = (OK, u\<lparr>u_mem := ?m(h - 8 := ?w), u_ws := w\<rparr>)"
      "ws_room (es @ [change_entry (h - 8, ?w)]) k (u\<lparr>u_mem := ?m(h - 8 := ?w), u_ws := w\<rparr>)"
    by (rule write_ws_ok [OF room elem_aligned(3) [OF hok n]])
  let ?u1 = "u\<lparr>u_mem := ?m(h - 8 := ?w), u_ws := w\<rparr>"
  have "sivfs_alloc_list_empty (u_mem ?u1) h"
    using ring words_distinct [OF hok n] by (simp add: sivfs_alloc_list_empty_def lh_next_def)
  moreover have s1: "slot_value ?u1 slot = Some h" "u_ready ?u1" "u_oks ?u1 = []"
    using slot room by (auto simp: slot_value_def ws_room_def)
  ultimately have res: "take_region slot h h n u = (Some OK, set_slot slot 0 (?u1\<lparr>u_restore_ptrs := u_restore_ptrs ?u1 @ [slot],
      u_restore_values := u_restore_values ?u1 @ [h]\<rparr>))"
    using w(1) set_free_list_ok [OF s1]
    by (simp add: take_region_def Let_def sivfs_allocator_lh_to_allocated_region_def)
  let ?v = "set_slot slot 0 (?u1\<lparr>u_restore_ptrs := u_restore_ptrs ?u1 @ [slot], u_restore_values := u_restore_values ?u1 @ [h]\<rparr>)"
  have "within ?m {h} (u_mem ?v) {}"
    using within_writes [OF ok n, of "[(h - 8, ?w)]" "{}"] by (simp add: words_of_def)
  moreover have "in_use n (u_mem ?v) h" "region_of h n \<subseteq> ext ?m h" by (rule elem_in_use [OF hok n], simp)+
  ultimately have gr: "granted n h ?m {h} (u_mem ?v) {}" unfolding granted_def by blast
  have sv: "slot_value ?v slot = Some 0" using slot(1) by (intro set_slot_simps) (auto simp: slot_value_def)
  show ?thesis
    by (rule that [of ?v "[(h - 8, ?w)]", OF res _ _ sv _ _ gr]) (use w(2) slot(2) in \<open>simp_all add: ws_room_def\<close>)
qed

section \<open>Allocation from a list\<close>

text \<open>
  The outcome of an allocation from the list \<open>ls\<close> with the pointer \<open>p\<close>: the list of the slot is in good order, the region
  has been taken from it, and the writes are recorded.
\<close>

definition malloc_ok :: "u64 \<Rightarrow> u64 \<times> nat \<Rightarrow> (sivfs_writeset_entry \<times> u64 list) list \<Rightarrow> user \<Rightarrow> u64 list \<Rightarrow> u64 \<Rightarrow> user \<Rightarrow> bool" where
  "malloc_ok n slot es u ls p v \<longleftrightarrow> (\<exists>ws h ls'. u_mem v = put_all ws (u_mem u) \<and> ws_repr (u_ws v) (es @ map change_entry ws) \<and>
     slot_value v slot = Some h \<and> free_list n (u_mem v) h ls' \<and> granted n p (u_mem u) (set ls) (u_mem v) (set ls') \<and>
     u_exit v = u_exit u)"

lemma malloc_ok_after:
  assumes "malloc_ok n slot (es @ map change_entry ws) u1 ls1 p v" and "u_mem u1 = put_all ws (u_mem u)" and "u_exit u1 = u_exit u"
    and "within (u_mem u) (set ls) (u_mem u1) (set ls1)"
  shows "malloc_ok n slot es u ls p v"
proof -
  obtain ws' h ls' where *: "u_mem v = put_all ws' (u_mem u1)" "ws_repr (u_ws v) ((es @ map change_entry ws) @ map change_entry ws')"
      "slot_value v slot = Some h" "free_list n (u_mem v) h ls'" "granted n p (u_mem u1) (set ls1) (u_mem v) (set ls')"
      "u_exit v = u_exit u1"
    using assms(1) unfolding malloc_ok_def by blast
  have "u_mem v = put_all (ws @ ws') (u_mem u)" "ws_repr (u_ws v) (es @ map change_entry (ws @ ws'))"
    using *(1,2) assms(2) by simp_all
  then show ?thesis using * granted_within [OF assms(4) *(5)] assms(3) unfolding malloc_ok_def by metis
qed

lemma class_double:
  assumes "class_size n"
  shows "n * 2 \<le> s \<longleftrightarrow> 2 * unat n \<le> unat (s :: u64)"
proof -
  have "unat (n * 2) = unat n * 2" using assms by (subst unat_mult_lem [THEN iffD1]) (auto simp: class_size_def)
  then show ?thesis by (simp add: word_le_nat_alt mult.commute)
qed

lemma elem_head:
  assumes "elem_ok n mem l"
  shows "mem (l - 8) AND SIVFS_FREED_MAGIC_MASK = SIVFS_FREED_MAGIC"
    and "sivfs_allocated_region_size mem (l - 8) = hd_size (mem (l - 8))" and "\<not> hd_size (mem (l - 8)) < n"
  using assms by (simp_all add: elem_ok_def freed_magic_iff region_size_small word_less_nat_alt)

text \<open>The body of the loop on a list with more than one element.\<close>

lemma malloc_loop_mid:
  assumes fl: "free_list n (u_mem u) h (h # x # zs)" and n: "class_size n" and room: "ws_room es 11 u"
    and slot: "slot_value u slot = Some h"
  shows "\<exists>v. malloc_loop (Suc f) slot h n q u = (OK, x, v) \<and> malloc_ok n slot es u (h # x # zs) x v"
proof -
  let ?m = "u_mem u" and ?n8 = "\<lambda>v. v\<lparr>u_nAllocs := u_nAllocs v + 1\<rparr>"
  have ring: "chain ?m h (x # zs) h" and d: "distinct (h # x # zs)" and ok: "elems_ok n ?m (set (h # x # zs))"
    using fl by (simp_all add: free_list_def)
  have xok: "elem_ok n ?m x" using ok unfolding elems_ok_def by simp
  have it: "lh_next ?m h = x" "x \<noteq> h" "x \<noteq> 0" using ring d elem_aligned(4) [OF xok n] by auto
  note hd = elem_head [OF xok]
  let ?split = "n * 2 \<le> hd_size (?m (x - 8))"
  obtain u1 ws1 w1 ys where u1: "(if ?split then split_region h (x - 8) n u else (OK, u)) = (OK, u1)"
      "u1 = u\<lparr>u_mem := put_all ws1 ?m, u_ws := w1\<rparr>" "ws_room (es @ map change_entry ws1) 5 u1"
      "free_list n (u_mem u1) h (h # ys @ x # zs)" "ys = [] \<or> (\<exists>s. ys = [s])"
      "within ?m (set (h # x # zs)) (u_mem u1) (set (h # ys @ x # zs))"
  proof (cases ?split)
    case True
    have room5: "ws_room es (5 + 6) u" using room by simp
    obtain v ws w where v: "split_region h (x - 8) n u = (OK, v)" "v = u\<lparr>u_mem := put_all ws ?m, u_ws := w\<rparr>"
        "ws_room (es @ map change_entry ws) 5 v" "free_list n (u_mem v) h (h # (x + n) # x # zs)"
        "within ?m (set (h # x # zs)) (u_mem v) (set (h # (x + n) # x # zs))"
      by (rule split_region_ok [OF fl _ n _ room5, of x]) (use True class_double [OF n] in simp_all)
    then show ?thesis using True that [of v w ws "[x + n]"] by simp
  next
    case False
    have "within ?m (set (h # x # zs)) ?m (set (h # x # zs))" unfolding within_def by blast
    moreover have "ws_room es 5 u" using room by (auto simp: ws_room_def)
    ultimately show ?thesis using False that [of u "u_ws u" "[]" "[]"] fl by simp
  qed
  have room0: "ws_room (es @ map change_entry ws1) (0 + 5) u1" using u1(3) by simp
  obtain v ws w where v: "take_region slot h x n u1 = (Some OK, v)" "v = u1\<lparr>u_mem := put_all ws (u_mem u1), u_ws := w\<rparr>"
      "ws_room ((es @ map change_entry ws1) @ map change_entry ws) 0 v" "free_list n (u_mem v) h (h # ys @ zs)"
      "granted n x (u_mem u1) (set (h # ys @ x # zs)) (u_mem v) (set (h # ys @ zs))"
    by (rule take_mid_ok [OF u1(4) n u1(5) room0])
  have res: "malloc_loop (Suc f) slot h n q u = (OK, x, ?n8 v)"
    using it hd u1(1) v(1)
    by (simp add: Let_def sivfs_allocator_lh_to_allocated_region_def sivfs_allocated_region_to_alloc_ret_def
        SIVFS_ALLOC_REGION_HEADER_SIZE_def)
  have "slot_value (?n8 v) slot = Some h" using slot by (simp add: v(2) u1(2) slot_value_def)
  then have "malloc_ok n slot (es @ map change_entry ws1) u1 (h # ys @ x # zs) x (?n8 v)"
    unfolding malloc_ok_def using v(2-5) by (intro exI [of _ ws] exI [of _ h] exI [of _ "h # ys @ zs"]) (simp add: ws_room_def)
  then have "malloc_ok n slot es u (h # x # zs) x (?n8 v)"
    by (rule malloc_ok_after) (use u1(2,6) in simp_all)
  then show ?thesis using res by blast
qed

lemma malloc_loop_head:
  assumes fl: "free_list n (u_mem u) h [h]" and n: "class_size n" and room: "ws_room es 17 u"
    and slot: "slot_value u slot = Some h" "u_ready u"
  shows "\<exists>p v. malloc_loop 2 slot h n q u = (OK, p, v) \<and> malloc_ok n slot es u [h] p v"
proof -
  let ?m = "u_mem u" and ?n8 = "\<lambda>v. v\<lparr>u_nAllocs := u_nAllocs v + 1\<rparr>"
  have ring: "chain ?m h [] h" and hok: "elem_ok n ?m h" using fl by (simp_all add: free_list_def elems_ok_def)
  have it: "lh_next ?m h = h" "h \<noteq> 0" using ring elem_aligned(4) [OF hok n] by auto
  note hd = elem_head [OF hok]
  have two: "(2 :: nat) = Suc (Suc 0)" by simp
  show ?thesis
  proof (cases "n * 2 \<le> hd_size (?m (h - 8))")
    case True
    have room11: "ws_room es (11 + 6) u" using room by simp
    obtain u1 ws w where u1: "split_region h (h - 8) n u = (OK, u1)" "u1 = u\<lparr>u_mem := put_all ws ?m, u_ws := w\<rparr>"
        "ws_room (es @ map change_entry ws) 11 u1" "free_list n (u_mem u1) h [h, h + n]"
        "within ?m (set [h]) (u_mem u1) (set [h, h + n])"
      by (rule split_region_ok [OF fl _ n _ room11, of h]) (use True class_double [OF n] in simp_all)
    have again: "malloc_loop 2 slot h n q u = malloc_loop (Suc 0) slot h n (h - 8) u1"
      unfolding two malloc_loop.simps(2) [of "Suc 0"] using it hd True u1(1)
      by (simp add: Let_def sivfs_allocator_lh_to_allocated_region_def del: malloc_loop.simps)
    have "slot_value u1 slot = Some h" using slot(1) u1(2) by (simp add: slot_value_def)
    then obtain v where v: "malloc_loop (Suc 0) slot h n (h - 8) u1 = (OK, h + n, v)" "malloc_ok n slot (es @ map change_entry ws) u1 [h, h + n] (h + n) v"
      using malloc_loop_mid [OF u1(4) n u1(3), of slot 0 "h - 8"] by blast
    have "malloc_ok n slot es u [h] (h + n) v" by (rule malloc_ok_after [OF v(2)]) (use u1(2,5) in simp_all)
    then show ?thesis using again v(1) by auto
  next
    case False
    have room1: "ws_room es (Suc 0) u" using room by (auto simp: ws_room_def)
    obtain v ws where v: "take_region slot h h n u = (Some OK, v)" "u_mem v = put_all ws ?m"
        "ws_room (es @ map change_entry ws) 0 v" "slot_value v slot = Some 0" "u_exit v = u_exit u"
        "granted n h ?m {h} (u_mem v) {}"
      by (rule take_head_ok [OF fl n room1 slot])
    have "malloc_loop 2 slot h n q u = (OK, h, ?n8 v)"
      unfolding two malloc_loop.simps(2) [of "Suc 0"] using it hd False v(1)
      by (simp add: Let_def sivfs_allocator_lh_to_allocated_region_def sivfs_allocated_region_to_alloc_ret_def
          SIVFS_ALLOC_REGION_HEADER_SIZE_def del: malloc_loop.simps)
    moreover have "malloc_ok n slot es u [h] h (?n8 v)"
      unfolding malloc_ok_def using v
      by (intro exI [of _ ws] exI [of _ 0] exI [of _ "[]"]) (simp add: ws_room_def free_list_def elems_ok_def slot_value_def)
    ultimately show ?thesis by blast
  qed
qed

lemma malloc_loop_ok:
  assumes fl: "free_list n (u_mem u) h (h # xs)" and n: "class_size n" and room: "ws_room es 17 u"
    and slot: "slot_value u slot = Some h" "u_ready u"
  shows "\<exists>p v. malloc_loop 2 slot h n q u = (OK, p, v) \<and> malloc_ok n slot es u (h # xs) p v"
proof (cases xs)
  case Nil
  then show ?thesis using malloc_loop_head [of n u h es slot] assms by simp
next
  case (Cons x zs)
  have "ws_room es 11 u" using room by (auto simp: ws_room_def)
  moreover have "(2 :: nat) = Suc (Suc 0)" by simp
  ultimately show ?thesis using malloc_loop_mid [of n u h x zs es slot "Suc 0" q] fl n slot(1) Cons by (metis (no_types))
qed

section \<open>The allocator\<close>

lemma bin_maxsize_below:
  assumes "k < 51"
  shows "unat (sivfs_allocator_bin_maxsize k) < 2 ^ 14"
proof -
  let ?m = "(23 :: nat) ^ (k + 1) div 20 ^ (k + 1)"
  have "?m < 1300"
  proof (rule ccontr)
    assume "\<not> ?m < 1300"
    have "(1299 :: nat) * 20 ^ (k + 1) < 1300 * 20 ^ (k + 1)" by (rule mult_strict_right_mono) simp_all
    also have "\<dots> \<le> ?m * 20 ^ (k + 1)" using \<open>\<not> ?m < 1300\<close> by (intro mult_le_mono1) simp
    also have "\<dots> \<le> 23 ^ (k + 1)" by (rule div_times_less_eq_dividend)
    finally have below: "\<not> 23 ^ (k + 1) \<le> 1299 * (20 :: nat) ^ (k + 1)" by (simp only: not_le simp_thms)
    have "k + 1 \<le> 51" using assms by simp
    then have "\<not> 23 ^ 51 \<le> 1299 * (20 :: nat) ^ 51" by (rule bin_later [OF _ below])
    then show False by simp
  qed
  then show ?thesis unfolding bin_maxsize_unat [OF assms] by simp
qed

lemma get_bin_class:
  assumes "sivfs_allocator_bins_get_bin sz = Inr (Some (b, n))" and "24 \<le> unat sz"
  shows "class_size n" and "unat sz \<le> unat n" and "sivfs_allocator_bins_get_bin n = Inr (Some (b, n))"
proof -
  have al: "sz mod 8 = 0" using assms(1) by (auto simp: sivfs_allocator_bins_get_bin_def split: if_splits)
  have pos: "0 < sz" using assms(2) by (cases "sz = 0") (auto simp: word_neq_0_conv)
  obtain k where k: "k < 51" "in_bin k (unat (sz div 8))" and n: "n = sivfs_allocator_bin_maxsize k" "b = k"
    by (rule size_class_cases [OF al pos]) (use assms(1) in auto)
  show le: "unat sz \<le> unat n" using size_classes [OF al pos] assms(1) by (simp add: word_le_nat_alt)
  show "class_size n" using le assms(2) size_class_fixed(2) [OF k] bin_maxsize_below [OF k(1)] by (simp add: class_size_def n)
  show "sivfs_allocator_bins_get_bin n = Inr (Some (b, n))" using size_class_fixed(1) [OF k] n by simp
qed

lemma max2_unat: "unat (max2_size_t x 24) = max (unat x) 24"
  by (auto simp: max2_size_t_def word_le_nat_alt word_less_nat_alt max_def)

lemma round_up_aligned: "ROUND_UP x 8 mod 8 = 0"
proof -
  let ?q = "(x + 8 - 1) div 8"
  have "unat (x + 8 - 1) < 2 ^ LENGTH(64)" by (rule unsigned_less)
  then have "unat ?q * 8 < 2 ^ 64" by (simp add: unat_div)
  then have "unat (?q * 8) = unat ?q * 8" by (subst unat_mult_lem [THEN iffD1]) simp_all
  then have "unat (?q * 8) mod 8 = 0" by (simp only: mod_mult_self2_is_0)
  then show ?thesis unfolding ROUND_UP_def by (simp only: aligned_unat)
qed

text \<open>The slot of a size whose class has elements.\<close>

lemma get_slot_class:
  assumes "sz \<noteq> 0" and "sz mod 8 = 0" and "a = sivfs_get_allocator_mmap_state u zone tag" and "a \<noteq> 0" and "u_mstates u a = Some ms"
    and "sivfs_allocator_bins_get_bin (max2_size_t (sz + 8) 24) = Inr (Some (b, n))" and "\<not> (ms_free_lists ms b = 0 \<and> alloc)"
  shows "sivfs_get_free_list_slot zone tag sz alloc u = (OK, (Some (a, b), n), u)"
proof -
  have "24 \<le> unat (max2_size_t (sz + 8) 24)" by (simp add: max2_unat)
  from get_bin_class(2) [OF assms(6) this] have "\<not> max2_size_t (sz + 8) 24 > n" by (simp add: word_less_nat_alt)
  then show ?thesis
    using assms by (auto simp: sivfs_get_free_list_slot_def Let_def SIVFS_ALLOC_REGION_HEADER_SIZE_def sizeof_allocated_region_def)
qed

lemma malloc_ws_ok:
  assumes "u_ready u" and "ROUND_UP sz0 8 \<noteq> 0" and "unat (ROUND_UP sz0 8) + 8 < 2 ^ 64"
    and a: "a = sivfs_get_allocator_mmap_state u zone tag" "a \<noteq> 0" "u_mstates u a = Some ms"
    and bin: "sivfs_allocator_bins_get_bin (max2_size_t (ROUND_UP sz0 8 + 8) 24) = Inr (Some (b, n))"
    and fl: "free_list n (u_mem u) (ms_free_lists ms b) ls" "ls \<noteq> []" and room: "ws_room es 17 u"
  shows "\<exists>p v. sivfs_malloc_ws zone tag sz0 u = (OK, p, v) \<and> malloc_ok n (a, b) es u ls p v \<and> unat (ROUND_UP sz0 8) + 8 \<le> unat n"
proof -
  obtain h xs where ls: "ls = h # xs" and h: "ms_free_lists ms b = h" using fl by (cases ls) (auto simp: free_list_def)
  have big: "24 \<le> unat (max2_size_t (ROUND_UP sz0 8 + 8) 24)" by (simp add: max2_unat)
  note cls = get_bin_class [OF bin big]
  have hok: "elem_ok n (u_mem u) h" using fl(1) by (simp add: ls free_list_def elems_ok_def)
  have h0: "h \<noteq> 0" by (rule elem_aligned(4) [OF hok cls(1)])
  have al: "ROUND_UP sz0 8 mod 8 = 0" by (rule round_up_aligned)
  have slot: "sivfs_get_free_list_slot zone tag (ROUND_UP sz0 8) True u = (OK, (Some (a, b), n), u)"
    using get_slot_class [OF assms(2) al a bin, of True] h h0 by simp
  have sv: "slot_value u (a, b) = Some h" using a(3) h by (simp add: slot_value_def)
  have fl': "free_list n (u_mem u) h (h # xs)" using fl(1) h ls by simp
  obtain p v where v: "malloc_loop 2 (a, b) h n 0 u = (OK, p, v)" "malloc_ok n (a, b) es u (h # xs) p v"
    using malloc_loop_ok [OF fl' cls(1) room sv assms(1), of 0] by blast
  have "sivfs_malloc_ws zone tag sz0 u = (OK, p, v)"
    using assms(1) slot sv h0 elem_head(1) [OF hok] v(1)
    by (simp add: sivfs_malloc_ws_def Let_def sivfs_allocator_lh_to_allocated_region_def del: malloc_loop.simps)
  moreover have "unat (ROUND_UP sz0 8 + 8) = unat (ROUND_UP sz0 8) + 8" using assms(3) by (subst unat_add_lem [THEN iffD1]) simp_all
  then have "unat (ROUND_UP sz0 8) + 8 \<le> unat n" using cls(2) by (simp add: max2_unat)
  ultimately show ?thesis using v(2) ls by blast
qed

section \<open>Freeing a region\<close>

lemma header_returned:
  assumes "in_use n mem p" and f: "f = SIVFS_FREED_MAGIC \<or> f = SIVFS_FREED_MAGIC OR SIVFS_LIST_HEAD_FLAG"
    and w: "w = (mem (p - 8) AND NOT SIVFS_ALLOCATION_FLAGS) OR f"
  shows "hd_size w = n" "hd_index w = hd_index (mem (p - 8))" "hd_freed w = 57005" "\<not> bit w 63"
  unfolding w using header_freed(1-4) [OF f, of "mem (p - 8)"] assms(1) by (simp_all add: in_use_def)

text \<open>The memory with the header of the region marked as free, before the region is in the list.\<close>

lemma freed_elem:
  assumes p: "in_use n mem p" and n: "class_size n" and ok: "elems_ok n mem L" and disj: "\<forall>l \<in> L. ext mem l \<inter> region_of p n = {}"
    and w: "hd_size w = n" "hd_index w = hd_index (mem (p - 8))" "hd_freed w = 57005" "\<not> bit w 63"
  defines "m' \<equiv> mem(p - 8 := w)"
  shows "p \<notin> L" and "elem_ok n m' p" and "ext m' p = region_of p n" and "elems_ok n m' (insert p L)"
    and "\<forall>l \<in> L. m' (l - 8) = mem (l - 8)"
proof -
  have n': "24 \<le> unat n" using n by (simp add: class_size_def)
  show pok: "elem_ok n m' p" using p w n' unfolding in_use_def elem_ok_def m'_def by auto
  show e: "ext m' p = region_of p n" using w by (simp add: m'_def ext_def region_of_def)
  show out: "p \<notin> L"
  proof
    assume "p \<in> L"
    then have "elem_ok n mem p" "ext mem p \<inter> region_of p n = {}" using ok disj unfolding elems_ok_def by blast+
    moreover have "unat (p - 8) \<in> region_of p n" using n' by (simp add: region_of_def)
    ultimately show False using elem_addr(4) [of n mem p] n by blast
  qed
  show same: "\<forall>l \<in> L. m' (l - 8) = mem (l - 8)" using out by (auto simp: m'_def)
  then have exts: "\<forall>l \<in> L. ext m' l = ext mem l" and "elems_ok n m' L" using elem_ok_header(2) [of m' _ mem] elems_ok_header [OF same] ok by auto
  then show "elems_ok n m' (insert p L)" using pok e disj unfolding elems_ok_def by (simp add: Int_commute)
qed

text \<open>The region is an element of the list afterwards, the others are as they were, and nothing else has changed.\<close>

definition returned :: "u64 \<Rightarrow> u64 \<Rightarrow> u64 \<times> nat \<Rightarrow> (sivfs_writeset_entry \<times> u64 list) list \<Rightarrow> user \<Rightarrow> u64 list \<Rightarrow> user \<Rightarrow> bool" where
  "returned n p slot es u ls v \<longleftrightarrow> (\<exists>ws h ls'. u_mem v = put_all ws (u_mem u) \<and> ws_repr (u_ws v) (es @ map change_entry ws) \<and>
     slot_value v slot = Some h \<and> free_list n (u_mem v) h ls' \<and> set ls' = insert p (set ls) \<and>
     ext (u_mem v) p = region_of p n \<and> (\<forall>l \<in> set ls. ext (u_mem v) l = ext (u_mem u) l) \<and>
     (\<forall>a. unat a \<notin> region_of p n \<longrightarrow> (\<forall>l \<in> set ls. unat a \<notin> ext (u_mem u) l) \<longrightarrow> u_mem v a = u_mem u a) \<and> u_exit v = u_exit u)"

lemma set_flags_ok:
  assumes room: "ws_room es (Suc k) u" and al: "r mod 8 = 0" and f: "f = SIVFS_FREED_MAGIC \<or> f = SIVFS_FREED_MAGIC OR SIVFS_LIST_HEAD_FLAG"
  obtains w where "sivfs_allocated_region_set_flags r f u =
      (OK, u\<lparr>u_mem := (u_mem u)(r := (u_mem u r AND NOT SIVFS_ALLOCATION_FLAGS) OR f), u_ws := w\<rparr>)"
    and "ws_room (es @ [change_entry (r, (u_mem u r AND NOT SIVFS_ALLOCATION_FLAGS) OR f)]) k
      (u\<lparr>u_mem := (u_mem u)(r := (u_mem u r AND NOT SIVFS_ALLOCATION_FLAGS) OR f), u_ws := w\<rparr>)"
  using write_ws_ok [OF room al, of "(u_mem u r AND NOT SIVFS_ALLOCATION_FLAGS) OR f"] header_freed(5) [OF f]
  by (metis sivfs_allocated_region_set_flags_def)

text \<open>The last step: the links \<open>ws\<close> have been written, and the header follows.\<close>

lemma mark_freed:
  fixes u1 :: user
  assumes p: "in_use n (u_mem u) p" and n: "class_size n" and ok: "elems_ok n (u_mem u) (set ls)"
    and disj: "\<forall>l \<in> set ls. ext (u_mem u) l \<inter> region_of p n = {}" and room: "ws_room (es @ map change_entry ws) 1 u1"
    and mem: "u_mem u1 = put_all ws (u_mem u)" and ex: "u_exit u1 = u_exit u" and sv: "slot_value u1 slot = Some h"
    and f: "f = SIVFS_FREED_MAGIC \<or> f = SIVFS_FREED_MAGIC OR SIVFS_LIST_HEAD_FLAG"
    and w: "w = (u_mem u (p - 8) AND NOT SIVFS_ALLOCATION_FLAGS) OR f"
    and sub: "fst ` set ws \<subseteq> set (p # ls) \<union> (\<lambda>l. l + 8) ` set (p # ls)"
    and fl: "free_list n (put_all ws ((u_mem u)(p - 8 := w))) h ls'" and set: "set ls' = insert p (set ls)"
  shows "\<exists>v. sivfs_allocated_region_set_flags (p - 8) f u1 = (OK, v) \<and> returned n p slot es u ls v \<and> u_ready v = u_ready u1"
proof -
  let ?m = "u_mem u" and ?k = "(u_mem u)(p - 8 := w)"
  note hw = header_returned [OF p f w]
  note fr = freed_elem [OF p n ok disj hw]
  have ok0: "elems_ok n ?k (set (p # ls))" using fr(4) by simp
  have out: "p - 8 \<notin> set (p # ls) \<union> (\<lambda>l. l + 8) ` set (p # ls)"
    using nodes_apart(2,3) [OF ok0 n _ list.set_intros(1)] by (metis (no_types, lifting) UnE imageE)
  have nout: "p - 8 \<notin> fst ` set ws" by (rule contra_subsetD [OF sub out])
  have old: "u_mem u1 (p - 8) = ?m (p - 8)" unfolding mem by (rule put_all_elsewhere [OF nout])
  have al: "(p - 8) mod 8 = 0" by (rule elem_aligned(3) [OF fr(2) n])
  obtain w' where v: "sivfs_allocated_region_set_flags (p - 8) f u1 = (OK, u1\<lparr>u_mem := (u_mem u1)(p - 8 := w), u_ws := w'\<rparr>)"
      "ws_room ((es @ map change_entry ws) @ [change_entry (p - 8, w)]) 0 (u1\<lparr>u_mem := (u_mem u1)(p - 8 := w), u_ws := w'\<rparr>)"
    using set_flags_ok [of "es @ map change_entry ws" 0 u1 "p - 8" f] room al f old w by (metis One_nat_def)
  let ?v = "u1\<lparr>u_mem := (u_mem u1)(p - 8 := w), u_ws := w'\<rparr>"
  have m: "u_mem ?v = put_all ws ?k" using put_all_commute [OF nout] mem by simp
  have mm: "u_mem ?v = put_all (ws @ [(p - 8, w)]) ?m" using mem by simp
  have keep: "\<forall>l \<in> set (p # ls). u_mem ?v (l - 8) = ?k (l - 8)" unfolding m by (rule node_writes_headers [OF ok0 n sub])
  have exts: "ext (u_mem ?v) l = ext ?k l" if "l \<in> set (p # ls)" for l
    using elem_ok_header(2) [of "u_mem ?v" l ?k] bspec [OF keep that] by metis
  have others: "ext ?k l = ext ?m l" if "l \<in> set ls" for l
    using elem_ok_header(2) [of ?k l ?m] bspec [OF fr(5) that] by metis
  have frame: "u_mem ?v a = ?m a" if a: "unat a \<notin> region_of p n" "\<forall>l \<in> set ls. unat a \<notin> ext ?m l" for a
  proof -
    have "within ?k (set (p # ls)) (put_all ws ?k) (set (p # ls))"
      by (rule within_writes [OF ok0 n order_trans [OF sub nodes_words]]) (use keep m in simp_all)
    moreover have "\<forall>l \<in> set (p # ls). unat a \<notin> ext ?k l" using a others fr(3) by auto
    ultimately have "u_mem ?v a = ?k a" unfolding m within_def by blast
    moreover have "a \<noteq> p - 8" using a(1) elem_addr(4) [OF fr(2) n] fr(3) by auto
    ultimately show ?thesis by simp
  qed
  have "returned n p slot es u ls ?v"
    unfolding returned_def
  proof (intro exI conjI)
    show "u_mem ?v = put_all (ws @ [(p - 8, w)]) ?m" by (rule mm)
    show "ws_repr (u_ws ?v) (es @ map change_entry (ws @ [(p - 8, w)]))" using v(2) by (simp add: ws_room_def)
    show "slot_value ?v slot = Some h" using sv by (simp add: slot_value_def)
    show "free_list n (u_mem ?v) h ls'" using fl m by simp
    show "set ls' = insert p (set ls)" by (rule set)
    show "ext (u_mem ?v) p = region_of p n" using exts [of p] fr(3) by simp
    show "\<forall>l \<in> set ls. ext (u_mem ?v) l = ext ?m l" using exts others by simp
  qed (use frame ex in auto)
  then show ?thesis using v(1) by simp
qed

lemma node_of_region: "(p :: u64) - 8 + 8 = p" "(p :: u64) - 8 + 16 = p + 8"
  by simp_all

lemma single_list:
  assumes "elems_ok n mem {x}" and "mem x = x" and "mem (x + 8) = x"
  shows "free_list n mem x [x]"
  using assms by (simp add: free_list_def lh_next_def lh_prev_def)

lemma free_to_list_empty:
  assumes p: "in_use n (u_mem u) p" and n: "class_size n" and room: "ws_room es 3 u" and ready: "u_ready u" and sv: "slot_value u slot = Some 0"
  shows "\<exists>v. free_to_list slot (p - 8) u = (OK, v) \<and> returned n p slot es u [] v"
proof -
  let ?m = "u_mem u" and ?ws = "[(p, p), (p + 8, p)]" and ?f = "SIVFS_FREED_MAGIC OR SIVFS_LIST_HEAD_FLAG"
  let ?w = "(u_mem u (p - 8) AND NOT SIVFS_ALLOCATION_FLAGS) OR ?f"
  have f: "?f = SIVFS_FREED_MAGIC \<or> ?f = SIVFS_FREED_MAGIC OR SIVFS_LIST_HEAD_FLAG" by simp
  note hw = header_returned [OF p f refl]
  have none: "elems_ok n ?m (set [])" "\<forall>l \<in> set []. ext ?m l \<inter> region_of p n = {}" by (simp_all add: elems_ok_def)
  note fr = freed_elem [OF p n none hw]
  have ok: "elems_ok n (?m(p - 8 := ?w)) (set [p])" using fr(4) by simp
  note apart = nodes_apart [OF ok n list.set_intros(1) list.set_intros(1)]
  have hs: "length ?ws = 2" "\<forall>(a, v) \<in> set ?ws. a mod 8 = 0" using elem_aligned(1,2) [OF fr(2) n] by simp_all
  have room2: "ws_room es (1 + 2) u" using room by (simp add: numeral_3_eq_3)
  obtain u1 w where u1: "write_all ?ws u = (OK, u1)" "u1 = u\<lparr>u_mem := put_all ?ws ?m, u_ws := w\<rparr>" "ws_room (es @ map change_entry ?ws) 1 u1"
    by (rule write_all_done [OF room2 hs])
  have s1: "slot_value u1 slot = Some 0" "u_ready u1" "u_oks u1 = []" using sv ready u1(2) room by (auto simp: slot_value_def ws_room_def)
  let ?u2 = "set_slot slot p (u1\<lparr>u_restore_ptrs := u_restore_ptrs u1 @ [slot], u_restore_values := u_restore_values u1 @ [0]\<rparr>)"
  have set: "sivfs_set_free_list slot p u1 = (OK, ?u2)" by (rule set_free_list_ok [OF s1])
  let ?k = "put_all ?ws (?m(p - 8 := ?w))"
  have fl: "free_list n ?k p [p]"
  proof (rule single_list)
    have "\<forall>l \<in> set [p]. ?k (l - 8) = (?m(p - 8 := ?w)) (l - 8)" by (rule node_writes_headers [OF ok n]) auto
    then show "elems_ok n ?k {p}" using elems_ok_header [of "set [p]" ?k "?m(p - 8 := ?w)" n] ok by simp
  qed (use apart in simp_all)
  have sv2: "slot_value ?u2 slot = Some p" using s1(1) by (intro set_slot_simps) (auto simp: slot_value_def)
  have left: "ws_room (es @ map change_entry ?ws) 1 ?u2" using u1(3) by (simp add: ws_room_def)
  have same: "u_mem ?u2 = put_all ?ws ?m" "u_exit ?u2 = u_exit u" using u1(2) by simp_all
  have sub: "fst ` set ?ws \<subseteq> set [p] \<union> (\<lambda>l. l + 8) ` set [p]" by simp
  have "\<exists>v. sivfs_allocated_region_set_flags (p - 8) ?f ?u2 = (OK, v) \<and> returned n p slot es u [] v \<and> u_ready v = u_ready ?u2"
    by (rule mark_freed [OF p n none left same sv2 f refl sub fl]) simp
  then show ?thesis unfolding free_to_list_def node_of_region using u1(1) set sv by (auto simp del: write_all.simps)
qed

lemma free_to_list_add:
  assumes p: "in_use n (u_mem u) p" and n: "class_size n" and room: "ws_room es 5 u" and sv: "slot_value u slot = Some h"
    and fl: "free_list n (u_mem u) h (h # xs)" and disj: "\<forall>l \<in> set (h # xs). ext (u_mem u) l \<inter> region_of p n = {}"
  shows "\<exists>v. free_to_list slot (p - 8) u = (OK, v) \<and> returned n p slot es u (h # xs) v"
proof -
  let ?m = "u_mem u" and ?ws = "add_writes (u_mem u) h p" and ?f = "SIVFS_FREED_MAGIC"
  let ?w = "(u_mem u (p - 8) AND NOT SIVFS_ALLOCATION_FLAGS) OR ?f"
  have f: "?f = SIVFS_FREED_MAGIC \<or> ?f = SIVFS_FREED_MAGIC OR SIVFS_LIST_HEAD_FLAG" by simp
  note hw = header_returned [OF p f refl]
  note ok = free_list_elems [OF fl]
  note fr = freed_elem [OF p n ok disj hw]
  let ?k = "?m(p - 8 := ?w)"
  have ok0: "elems_ok n ?k (set (p # h # xs))" using fr(4) by simp
  have apart: "p - 8 \<noteq> y \<and> p - 8 \<noteq> y + 8" if "y \<in> set (p # h # xs)" for y
    using nodes_apart(2,3) [OF ok0 n that list.set_intros(1)] by metis
  have fl0: "free_list n ?k h (h # xs)" by (rule free_list_other_header [OF fl fr(1)]) (use apart in auto)
  have ring: "chain ?m h xs h" and h0: "h \<noteq> 0" using fl elem_aligned(4) [OF _ n] by (auto simp: free_list_def elems_ok_def)
  note first = ring_first [OF ring]
  have aw: "add_writes ?k h p = ?ws"
    using apart [of h] apart [of "lh_next ?m h"] first(1) by (auto simp: add_writes_def lh_next_def lh_prev_def)
  note sub = add_writes_nodes [OF ring, of p]
  have len: "length ?ws = 4" by (simp add: add_writes_def)
  have room1: "ws_room es (1 + 4) u" using room by simp
  obtain u1 w where u1: "write_all ?ws u = (OK, u1)" "u1 = u\<lparr>u_mem := put_all ?ws ?m, u_ws := w\<rparr>" "ws_room (es @ map change_entry ?ws) 1 u1"
    by (rule write_all_done [OF room1 len nodes_aligned [OF ok0 n sub]])
  have "free_list n (put_all ?ws ?k) h (h # p # xs)" using free_list_add(1) [OF fl0 ok0 fr(1) n] by (simp only: aw)
  moreover have "slot_value u1 slot = Some h" using sv u1(2) by (simp add: slot_value_def)
  ultimately have "\<exists>v. sivfs_allocated_region_set_flags (p - 8) ?f u1 = (OK, v) \<and> returned n p slot es u (h # xs) v \<and> u_ready v = u_ready u1"
    by (intro mark_freed [OF p n ok disj u1(3) _ _ _ f refl sub]) (use u1(2) in auto)
  then show ?thesis unfolding free_to_list_def node_of_region lh_add_ws_eq using u1(1) sv h0 by (auto simp del: write_all.simps)
qed

lemma free_to_list_ok:
  assumes p: "in_use n (u_mem u) p" and n: "class_size n" and room: "ws_room es 5 u" and ready: "u_ready u" and sv: "slot_value u slot = Some h"
    and fl: "free_list n (u_mem u) h ls" and disj: "\<forall>l \<in> set ls. ext (u_mem u) l \<inter> region_of p n = {}"
  shows "\<exists>v. free_to_list slot (p - 8) u = (OK, v) \<and> returned n p slot es u ls v"
proof (cases ls)
  case Nil
  have "ws_room es 3 u" using room by (auto simp: ws_room_def)
  then show ?thesis using free_to_list_empty [OF p n _ ready] sv fl Nil by (simp add: free_list_def)
next
  case (Cons a xs)
  then have "a = h" using fl by (simp add: free_list_def)
  then show ?thesis using free_to_list_add [OF p n room sv, of xs] fl disj Cons by simp
qed

lemma returned_marked:
  assumes "returned n p slot es u ls v"
  shows "u_mem v (p - 8) AND SIVFS_FREED_MAGIC_MASK \<noteq> 0"
proof -
  obtain h ls' where "free_list n (u_mem v) h ls'" "p \<in> set ls'" using assms unfolding returned_def by blast
  then have "hd_freed (u_mem v (p - 8)) = 57005" by (simp add: free_list_def elems_ok_def elem_ok_def)
  then have "u_mem v (p - 8) AND SIVFS_FREED_MAGIC_MASK = SIVFS_FREED_MAGIC" by (simp add: freed_magic_iff)
  moreover have "SIVFS_FREED_MAGIC \<noteq> 0" by (simp add: SIVFS_FREED_MAGIC_def)
  ultimately show ?thesis by simp
qed

lemma unfreed_mask:
  assumes "hd_freed w = 0"
  shows "w AND SIVFS_FREED_MAGIC_MASK = 0"
proof -
  have "w AND SIVFS_FREED_MAGIC_MASK = push_bit 46 (hd_freed w)"
    by (rule bit_eqI) (auto simp: header_bits hd_freed_def add.commute)
  then show ?thesis using assms by simp
qed

lemma free_ws_ok:
  assumes ready: "u_ready u" and p: "in_use n (u_mem u) p" and n: "sivfs_allocator_bins_get_bin n = Inr (Some (b, n))" "24 \<le> unat n"
    and block: "bh = sivfs_alloc_region_to_block_head (u_mem u) (p - 8)" "bh \<noteq> 0" "sivfs_block_tag (u_mem u) bh = Some tag"
    and a: "a = sivfs_get_allocator_mmap_state u (p - 8) tag" "a \<noteq> 0" "u_mstates u a = Some ms"
    and fl: "free_list n (u_mem u) (ms_free_lists ms b) ls" "\<forall>l \<in> set ls. ext (u_mem u) l \<inter> region_of p n = {}"
    and room: "ws_room es 5 u"
  shows "\<exists>v. sivfs_free_ws p u = (OK, v) \<and> returned n p (a, b) es u ls v \<and> sivfs_free_ws p v = (E EINVAL, die v)"
proof -
  let ?m = "u_mem u" and ?count = "\<lambda>v. v\<lparr>u_nFrees := u_nFrees v + 1\<rparr>"
  note cls = get_bin_class [OF n]
  have hd: "?m (p - 8) AND SIVFS_FREED_MAGIC_MASK = 0" "\<not> (?m (p - 8) AND SIVFS_BIG_ALLOCATION_FLAG \<noteq> 0)" "sivfs_allocated_region_size ?m (p - 8) = n"
    using p unfreed_mask [of "?m (p - 8)"] by (simp_all only: in_use_def big_flag_iff region_size_small simp_thms)
  have n0: "unat (n - 8) = unat n - 8" using n(2) by (simp add: unat_sub word_le_nat_alt)
  then have nz: "n - 8 \<noteq> 0" "n \<noteq> 0" using n(2) by auto
  have "unat n mod 8 = 0" using cls(1) by (simp add: class_size_def aligned_unat)
  then have "unat (n - 8) mod 8 = 0" unfolding n0 using n(2) by presburger
  then have al: "(n - 8) mod 8 = 0" by (simp add: aligned_unat)
  have "max2_size_t (n - 8 + 8) 24 = n" using n(2) by (simp add: max2_size_t_def word_le_nat_alt)
  then have bin: "sivfs_allocator_bins_get_bin (max2_size_t (n - 8 + 8) 24) = Inr (Some (b, n))" using n(1) by simp
  have slot: "sivfs_get_free_list_slot (p - 8) tag (n - 8) False u = (OK, (Some (a, b), n), u)"
    by (rule get_slot_class [OF nz(1) al a bin]) simp
  have sv: "slot_value u (a, b) = Some (ms_free_lists ms b)" using a(3) by (simp add: slot_value_def)
  obtain v where v: "free_to_list (a, b) (p - 8) u = (OK, v)" "returned n p (a, b) es u ls v"
    using free_to_list_ok [OF p cls(1) room ready sv fl] by blast
  have "sivfs_free_ws p u = (OK, ?count v)"
    unfolding sivfs_free_ws_def sivfs_alloc_ret_to_region_def SIVFS_ALLOC_REGION_HEADER_SIZE_def Let_def hd(3) block(1) [symmetric]
    using ready hd(1,2) nz(2) block(2,3) slot v(1) by simp
  moreover have ret: "returned n p (a, b) es u ls (?count v)" using v(2) by (simp add: returned_def slot_value_def)
  moreover have "sivfs_free_ws p (?count v) = (E EINVAL, die (?count v))"
    using returned_marked [OF ret] by (simp add: sivfs_free_ws_def sivfs_alloc_ret_to_region_def SIVFS_ALLOC_REGION_HEADER_SIZE_def Let_def)
  ultimately show ?thesis by blast
qed

text \<open>Freeing a block of its own.\<close>

lemma free_big_outside:
  assumes ready: "u_ready u" and room: "ws_room es 3 u" and r: "r mod 8 = 0" and s: "s = sivfs_allocated_region_size (u_mem u) r" "s mod 8 = 0" "24 \<le> unat s"
    and fit: "unat r + unat s + 56 < 2 ^ 64"
    and hd: "u_mem u r AND SIVFS_FREED_MAGIC_MASK = 0" "u_mem u r AND SIVFS_BIG_ALLOCATION_FLAG \<noteq> 0"
  shows "\<exists>v. sivfs_free_ws (r + 8) u = (OK, v) \<and> u_mem v (r + s + 48) = 0 \<and> u_mem v (r + s - 8) = u_mem u (r + s - 8) \<and>
    unat (r + s + 48) = unat r + unat s + 48"
proof -
  let ?m = "u_mem u" and ?ws = "[(r, 0), (r + s - 16, 0), (r + s - 16 + 8 * 8, 0)]" and ?count = "\<lambda>v. v\<lparr>u_nFrees := u_nFrees v + 1\<rparr>"
  have rs: "unat (r + s) = unat r + unat s" using fit by (subst unat_add_lem [THEN iffD1]) simp_all
  have a: "unat (r + s + 48) = unat r + unat s + 48" using fit rs by (subst unat_add_lem [THEN iffD1]) simp_all
  have b: "unat (r + s - 16) = unat r + unat s - 16" "unat (r + s - 8) = unat r + unat s - 8"
    using s(3) rs by (simp_all add: unat_sub word_le_nat_alt)
  have c: "r + s - 16 + 8 * 8 = r + s + 48" by simp
  have al: "unat r mod 8 = 0" "unat s mod 8 = 0" using r s(2) by (simp_all add: aligned_unat)
  have "(r + s - 16) mod 8 = 0" unfolding aligned_unat b(1) using al s(3) by presburger
  moreover have "(r + s + 48) mod 8 = 0" unfolding aligned_unat a using al by presburger
  ultimately have ws: "length ?ws = 3" "\<forall>(a, v) \<in> set ?ws. a mod 8 = 0" using r c by (simp_all add: add.commute)
  have room0: "ws_room es (0 + 3) u" using room by simp
  obtain v w where v: "write_all ?ws u = (OK, v)" "v = u\<lparr>u_mem := put_all ?ws ?m, u_ws := w\<rparr>"
    by (rule write_all_done [OF room0 ws])
  have ne: "unat (r + s - 8) \<noteq> unat r" "unat (r + s - 8) \<noteq> unat (r + s - 16)" "unat (r + s - 8) \<noteq> unat (r + s + 48)"
    unfolding a b using s(3) by linarith+
  then have ne': "r + s - 8 \<noteq> r" "r + s - 8 \<noteq> r + s - 16" "r + s - 8 \<noteq> r + s + 48" by metis+
  have mem: "u_mem v (r + s + 48) = 0" "u_mem v (r + s - 8) = ?m (r + s - 8)"
    unfolding v(2) c using ne' by simp_all
  have start: "r + 8 - 8 = r" by simp
  have "free_big r u = (OK, v)"
    unfolding free_big_def s(1) [symmetric] Let_def SIVFS_BLOCK_FOOTER_SIZE_def
    using v(1) ready room by (simp add: lib_free_block_def next_ok_def ws_room_def del: write_all.simps)
  then have "sivfs_free_ws (r + 8) u = (OK, ?count v)"
    unfolding sivfs_free_ws_def sivfs_alloc_ret_to_region_def SIVFS_ALLOC_REGION_HEADER_SIZE_def Let_def start
    using ready hd by simp
  then show ?thesis using mem a by (intro exI [of _ "?count v"]) simp
qed

section \<open>A new slab\<close>

text \<open>What the allocator relies on in an answer of the kernel: an aligned block inside the address space, of a size its headers can hold.\<close>

definition block_fits :: "u64 \<Rightarrow> mmap_state \<Rightarrow> block_answer \<Rightarrow> bool" where
  "block_fits n ms b \<longleftrightarrow> ba_mmap_start b = ms_start ms \<and> ba_mmap_size b = ms_size ms \<and> ba_start b mod 8 = 0 \<and> ba_size b mod 8 = 0 \<and>
     0 < unat (ba_start b) \<and> unat (ba_start b) + unat (ba_size b) < 2 ^ 64 \<and> unat (ba_size b) < 2 ^ 30 \<and>
     16384 + unat n \<le> unat (ba_size b) \<and> (unat (ba_size b) - 24) div unat n \<le> 65535"

definition block_bytes :: "block_answer \<Rightarrow> nat set" where
  "block_bytes b = {unat (ba_start b) ..< unat (ba_start b) + unat (ba_size b)}"

lemma header_fresh:
  fixes s :: u64
  assumes "unat s < 2 ^ 30"
  defines "w \<equiv> s OR SIVFS_FREED_MAGIC OR SIVFS_LIST_HEAD_FLAG"
  shows "hd_size w = s" and "hd_index w = 0" and "hd_freed w = 57005" and "\<not> bit w 63"
  unfolding w_def by ((rule bit_eqI)?, simp only: header_bits, auto dest: below_bits [OF assms(1)] dead_bits)+

lemma slab_size_ok:
  assumes n: "class_size n" "unat n < 2 ^ 14"
  defines "e \<equiv> ROUND_UP (SIVFS_ALLOCATOR_SLABSIZE - (SIVFS_BLOCK_HEADER_SIZE + SIVFS_BLOCK_FOOTER_SIZE)) n"
  shows "\<not> e div n > SIVFS_MAX_SLAB_ELTS" and "(24 + e) AND (SIVFS_ALLOCATION_FLAGS OR SIVFS_SLAB_INDEX_MASK) = 0"
    and "24 + e \<noteq> 0" and "unat (24 + e) \<le> 16384 + unat n"
proof -
  have n24: "24 \<le> unat n" using n(1) by (simp add: class_size_def)
  let ?q = "(16359 + n) div n"
  have "unat (16359 + n) = 16359 + unat n" using n(2) by (subst unat_add_lem [THEN iffD1]) auto
  then have q: "unat ?q = (16359 + unat n) div unat n" by (simp add: unat_div)
  have "unat ?q * unat n \<le> 16359 + unat n" unfolding q by (rule div_times_less_eq_dividend)
  moreover from this have "unat (?q * n) = unat ?q * unat n" using n(2) by (subst unat_mult_lem [THEN iffD1]) auto
  moreover have e: "e = ?q * n" by (simp add: e_def ROUND_UP_def SIVFS_ALLOCATOR_SLABSIZE_def SIVFS_BLOCK_HEADER_SIZE_def SIVFS_BLOCK_FOOTER_SIZE_def)
  ultimately have le: "unat e \<le> 16359 + unat n" by simp
  then have ue: "unat (24 + e) = 24 + unat e" using n(2) by (subst unat_add_lem [THEN iffD1]) auto
  then show "unat (24 + e) \<le> 16384 + unat n" "24 + e \<noteq> 0" using le by auto
  have "unat (e div n) \<le> unat e" by (simp add: unat_div)
  then show "\<not> e div n > SIVFS_MAX_SLAB_ELTS" using le n(2) by (simp add: SIVFS_MAX_SLAB_ELTS_def word_less_nat_alt)
  have "unat (24 + e) < 2 ^ 30" using ue le n(2) by simp
  note low = below_bits [OF this]
  show "(24 + e) AND (SIVFS_ALLOCATION_FLAGS OR SIVFS_SLAB_INDEX_MASK) = 0"
    by (intro bit_eqI) (simp only: header_bits, auto dest: low)
qed

lemma new_slab_ok:
  assumes n: "class_size n" "unat n < 2 ^ 14" and ready: "u_ready u" and sv: "slot_value u slot = Some 0" and room: "ws_room es (k + 6) u"
    and blocks: "u_blocks u = Some b # bs" and fits: "block_fits n ms b"
  obtains v ws where "new_slab slot tag n ms u = (OK, v)" and "u_mem v = put_all ws (u_mem u)" and "ws_room (es @ map change_entry ws) k v"
    and "slot_value v slot = Some (ba_start b + 16)" and "u_ready v" and "u_exit v = u_exit u"
    and "free_list n (u_mem v) (ba_start b + 16) [ba_start b + 16]"
    and "ext (u_mem v) (ba_start b + 16) \<subseteq> block_bytes b"
    and "\<forall>a. unat a \<notin> block_bytes b \<longrightarrow> u_mem v a = u_mem u a"
proof -
  let ?st = "ba_start b" and ?sz = "ba_size b" and ?m = "u_mem u"
  have f: "unat ?st mod 8 = 0" "unat ?sz mod 8 = 0" "0 < unat ?st" "unat ?st + unat ?sz < 2 ^ 64" "unat ?sz < 2 ^ 30"
      "16384 + unat n \<le> unat ?sz" "(unat ?sz - 24) div unat n \<le> 65535" "ba_mmap_start b = ms_start ms" "ba_mmap_size b = ms_size ms"
    using fits by (auto simp: block_fits_def aligned_unat)
  have n24: "24 \<le> unat n" using n(1) by (simp add: class_size_def)
  define w where "w = (?sz - 24) OR SIVFS_FREED_MAGIC OR SIVFS_LIST_HEAD_FLAG"
  let ?ws = "[(?st, ?sz), (?st + ?sz - 16, tag), (?st + ?sz - 16 + 8, ?sz), (?st + 8, w), (?st + 8 + 16, ?st + 8 + 8), (?st + 8 + 8, ?st + 8 + 8)]"
  have add: "unat (?st + c) = unat ?st + unat c" if "unat c \<le> unat ?sz" for c using f(4) that by (subst unat_add_lem [THEN iffD1]) auto
  have a8: "unat (?st + 8) = unat ?st + 8" "unat (?st + 16) = unat ?st + 16" "unat (?st + 24) = unat ?st + 24" using add [of 8] add [of 16] add [of 24] f(6) by simp_all
  have az: "unat (?st + ?sz) = unat ?st + unat ?sz" using add [of ?sz] by simp
  have foot: "unat (?st + ?sz - 16) = unat ?st + unat ?sz - 16" "unat (?st + ?sz - 8) = unat ?st + unat ?sz - 8"
    using az f(6) by (simp_all add: unat_sub word_le_nat_alt)
  have s24: "unat (?sz - 24) = unat ?sz - 24" using f(6) by (simp add: unat_sub word_le_nat_alt)
  have eqs: "?st + ?sz - 16 + 8 = ?st + ?sz - 8" "?st + 8 + 16 = ?st + 24" "?st + 8 + 8 = ?st + 16" by simp_all
  have al: "\<forall>(a, v) \<in> set ?ws. a mod 8 = 0"
    unfolding eqs using f(1,2,6) by (simp add: aligned_unat a8 foot) presburger
  have len: "length ?ws = 6" by simp
  obtain u2 wsx where u2: "write_all ?ws (u\<lparr>u_blocks := bs\<rparr>) = (OK, u2)" "u2 = (u\<lparr>u_blocks := bs\<rparr>)\<lparr>u_mem := put_all ?ws (u_mem (u\<lparr>u_blocks := bs\<rparr>)), u_ws := wsx\<rparr>"
      "ws_room (es @ map change_entry ?ws) k u2"
    by (rule write_all_done [OF _ len al, of es k "u\<lparr>u_blocks := bs\<rparr>"]) (use room in \<open>simp_all add: ws_room_def\<close>)
  have m2: "u_mem u2 = put_all ?ws ?m" using u2(2) by simp
  have "unat (?st + 8) \<noteq> unat (?st + 24)" "unat (?st + 8) \<noteq> unat (?st + 16)" "unat (?st + 24) \<noteq> unat (?st + 16)" unfolding a8 by simp_all
  then have ne: "?st + 8 \<noteq> ?st + 24" "?st + 8 \<noteq> ?st + 16" "?st + 24 \<noteq> ?st + 16" by metis+
  have vals: "u_mem u2 (?st + 8) = w" "u_mem u2 (?st + 16) = ?st + 16" "u_mem u2 (?st + 24) = ?st + 16"
    unfolding m2 eqs using ne by simp_all
  have hdr: "?st + 16 - 8 = ?st + 8" "?st + 16 + 8 = ?st + 24" by simp_all
  have "unat (?sz - 24) < 2 ^ 30" using s24 f(5) by simp
  note h = header_fresh [OF this, folded w_def]
  have "(unat ?st + 16) mod 8 = 0" "unat n \<le> unat ?sz - 24" "unat ?st + unat ?sz - 16 < 2 ^ 64" using f(1,4,6) by presburger+
  then have "elem_ok n (u_mem u2) (?st + 16)"
    unfolding elem_ok_def hdr vals h(1-3) using f(6,7) s24 a8 h(4) by (simp add: aligned_unat)
  then have fl: "free_list n (u_mem u2) (?st + 16) [?st + 16]"
    by (intro single_list) (simp_all only: hdr vals elems_ok_def, simp_all)
  have ext: "ext (u_mem u2) (?st + 16) \<subseteq> block_bytes b"
    unfolding ext_def hdr vals h block_bytes_def using s24 a8 f(6) by auto
  have frame: "u_mem u2 a = ?m a" if "unat a \<notin> block_bytes b" for a
    unfolding m2 by (rule put_all_elsewhere, unfold eqs) (use that a8 foot f(6) in \<open>auto simp: block_bytes_def\<close>)
  have s2: "slot_value u2 slot = Some 0" "u_ready u2" "u_oks u2 = []" using sv ready room u2(2) by (auto simp: slot_value_def ws_room_def)
  let ?v = "set_slot slot (?st + 16) (u2\<lparr>u_restore_ptrs := u_restore_ptrs u2 @ [slot], u_restore_values := u_restore_values u2 @ [0]\<rparr>)"
  note sz = slab_size_ok [OF n]
  have "\<not> ?sz < 24 + ROUND_UP (SIVFS_ALLOCATOR_SLABSIZE - (SIVFS_BLOCK_HEADER_SIZE + SIVFS_BLOCK_FOOTER_SIZE)) n"
    using sz(4) f(6) by (simp add: word_less_nat_alt)
  moreover have "24 = SIVFS_BLOCK_HEADER_SIZE + SIVFS_BLOCK_FOOTER_SIZE" by (simp add: SIVFS_BLOCK_HEADER_SIZE_def SIVFS_BLOCK_FOOTER_SIZE_def)
  moreover have "lib_alloc_block u = (OK, Some b, u\<lparr>u_blocks := bs\<rparr>)" using ready blocks by (simp add: lib_alloc_block_def)
  moreover have "write_all [(?st, ?sz), (?st + ?sz - SIVFS_BLOCK_FOOTER_SIZE, tag), (?st + ?sz - SIVFS_BLOCK_FOOTER_SIZE + 8, ?sz),
      (?st + SIVFS_BLOCK_HEADER_SIZE, (?sz - SIVFS_BLOCK_FOOTER_SIZE - SIVFS_BLOCK_HEADER_SIZE) OR SIVFS_FREED_MAGIC OR SIVFS_LIST_HEAD_FLAG),
      (?st + SIVFS_BLOCK_HEADER_SIZE + 16, ?st + SIVFS_BLOCK_HEADER_SIZE + 8), (?st + SIVFS_BLOCK_HEADER_SIZE + 8, ?st + SIVFS_BLOCK_HEADER_SIZE + 8)]
      (u\<lparr>u_blocks := bs\<rparr>) = (OK, u2)"
    using u2(1) by (simp only: w_def SIVFS_BLOCK_FOOTER_SIZE_def SIVFS_BLOCK_HEADER_SIZE_def diff_diff_eq) simp
  moreover have "sivfs_set_free_list slot (?st + SIVFS_BLOCK_HEADER_SIZE + 8) u2 = (OK, ?v)"
    unfolding SIVFS_BLOCK_HEADER_SIZE_def eqs by (rule set_free_list_ok [OF s2])
  ultimately have res: "new_slab slot tag n ms u = (OK, ?v)"
    using sz(1-3) f(8,9) by (simp add: new_slab_def Let_def del: write_all.simps)
  have "slot_value ?v slot = Some (?st + 16)" using s2(1) by (intro set_slot_simps) (auto simp: slot_value_def)
  moreover have "ws_room (es @ map change_entry ?ws) k ?v" using u2(3) by (simp add: ws_room_def)
  ultimately show ?thesis using that [OF res, of ?ws] m2 s2(2) fl ext frame u2(2) by simp
qed

lemma get_bin_below:
  assumes "sivfs_allocator_bins_get_bin sz = Inr (Some (b, n))"
  shows "unat n < 2 ^ 14"
  using assms bin_maxsize_below [of b] by (auto simp: sivfs_allocator_bins_get_bin_def Let_def SIVFS_ALLOCATOR_NBINS_def not_le split: if_splits)

lemma malloc_new_slab:
  assumes "u_ready u" and "ROUND_UP sz0 8 \<noteq> 0" and "unat (ROUND_UP sz0 8) + 8 < 2 ^ 64"
    and a: "a = sivfs_get_allocator_mmap_state u zone tag" "a \<noteq> 0" "u_mstates u a = Some ms"
    and bin: "sivfs_allocator_bins_get_bin (max2_size_t (ROUND_UP sz0 8 + 8) 24) = Inr (Some (b, n))"
    and empty: "ms_free_lists ms b = 0" and blocks: "u_blocks u = Some blk # bs" "block_fits n ms blk" and room: "ws_room es 23 u"
  shows "\<exists>p v ws h ls. sivfs_malloc_ws zone tag sz0 u = (OK, p, v) \<and> unat (ROUND_UP sz0 8) + 8 \<le> unat n \<and>
    u_mem v = put_all ws (u_mem u) \<and> ws_repr (u_ws v) (es @ map change_entry ws) \<and> slot_value v (a, b) = Some h \<and>
    free_list n (u_mem v) h ls \<and> in_use n (u_mem v) p \<and> region_of p n \<subseteq> block_bytes blk \<and>
    (\<forall>l \<in> set ls. ext (u_mem v) l \<subseteq> block_bytes blk \<and> ext (u_mem v) l \<inter> region_of p n = {}) \<and>
    (\<forall>x. unat x \<notin> block_bytes blk \<longrightarrow> u_mem v x = u_mem u x)"
proof -
  have big: "24 \<le> unat (max2_size_t (ROUND_UP sz0 8 + 8) 24)" by (simp add: max2_unat)
  note cls = get_bin_class [OF bin big]
  have n14: "unat n < 2 ^ 14" using get_bin_below [OF bin] .
  let ?h = "ba_start blk + 16"
  have sv: "slot_value u (a, b) = Some 0" using a(3) empty by (simp add: slot_value_def)
  have room6: "ws_room es (17 + 6) u" using room by simp
  obtain u1 ws1 where u1: "new_slab (a, b) tag n ms u = (OK, u1)" "u_mem u1 = put_all ws1 (u_mem u)" "ws_room (es @ map change_entry ws1) 17 u1"
      "slot_value u1 (a, b) = Some ?h" "u_ready u1" "free_list n (u_mem u1) ?h [?h]" "ext (u_mem u1) ?h \<subseteq> block_bytes blk"
      "\<forall>x. unat x \<notin> block_bytes blk \<longrightarrow> u_mem u1 x = u_mem u x"
    by (rule new_slab_ok [OF cls(1) n14 assms(1) sv room6 blocks, of tag])
  have hok: "elem_ok n (u_mem u1) ?h" using u1(6) by (simp add: free_list_def elems_ok_def)
  note h0 = elem_aligned(4) [OF hok cls(1)]
  have al: "ROUND_UP sz0 8 mod 8 = 0" by (rule round_up_aligned)
  have "\<not> max2_size_t (ROUND_UP sz0 8 + 8) 24 > n" using cls(2) by (simp add: word_less_nat_alt)
  then have slot: "sivfs_get_free_list_slot zone tag (ROUND_UP sz0 8) True u = (OK, (Some (a, b), n), u1)"
    using assms(2) al a bin empty u1(1)
    by (auto simp: sivfs_get_free_list_slot_def Let_def SIVFS_ALLOC_REGION_HEADER_SIZE_def sizeof_allocated_region_def)
  obtain p v where v: "malloc_loop 2 (a, b) ?h n 0 u1 = (OK, p, v)" "malloc_ok n (a, b) (es @ map change_entry ws1) u1 [?h] p v"
    using malloc_loop_ok [OF u1(6) cls(1) u1(3,4,5), of 0] by blast
  have res: "sivfs_malloc_ws zone tag sz0 u = (OK, p, v)"
    using assms(1) slot u1(4) h0 elem_head(1) [OF hok] v(1)
    by (simp add: sivfs_malloc_ws_def Let_def sivfs_allocator_lh_to_allocated_region_def del: malloc_loop.simps)
  obtain ws h ls where m: "u_mem v = put_all ws (u_mem u1)" "ws_repr (u_ws v) ((es @ map change_entry ws1) @ map change_entry ws)"
      "slot_value v (a, b) = Some h" "free_list n (u_mem v) h ls" and g: "granted n p (u_mem u1) (set [?h]) (u_mem v) (set ls)"
    using v(2) unfolding malloc_ok_def by blast
  have mem: "u_mem v = put_all (ws1 @ ws) (u_mem u)" "ws_repr (u_ws v) (es @ map change_entry (ws1 @ ws))" using m(1,2) u1(2) by simp_all
  have g': "in_use n (u_mem v) p" "region_of p n \<subseteq> block_bytes blk"
      "\<forall>l \<in> set ls. ext (u_mem v) l \<subseteq> block_bytes blk \<and> ext (u_mem v) l \<inter> region_of p n = {}"
    using g u1(7) unfolding granted_def within_def by auto
  have frame: "\<forall>x. unat x \<notin> block_bytes blk \<longrightarrow> u_mem v x = u_mem u x"
    using g u1(7,8) unfolding granted_def within_def by (metis (no_types, lifting) in_mono set_ConsD list.set_intros(1) empty_iff empty_set)
  have "unat (ROUND_UP sz0 8 + 8) = unat (ROUND_UP sz0 8) + 8" using assms(3) by (subst unat_add_lem [THEN iffD1]) simp_all
  then have "unat (ROUND_UP sz0 8) + 8 \<le> unat n" using cls(2) by (simp add: max2_unat)
  then show ?thesis using res mem m(3,4) g' frame by blast
qed

section \<open>Properties\<close>

text \<open>
  C19: allocation hands out free memory.  When the free list of the size class of a request is in good order and not empty,
  \<^verbatim>\<open>sivfs_malloc_ws\<close> returns a pointer to a region that is large enough, lay inside a free region and overlaps none of the regions
  that are free afterwards; the list is in good order again, whether the region was split or the list became empty, nothing
  outside of the free regions has changed, and the changes are at the end of the writeset.
\<close>

theorem malloc_takes_free_region:
  assumes "u_ready u" and "ROUND_UP sz0 8 \<noteq> 0" and "unat (ROUND_UP sz0 8) + 8 < 2 ^ 64"
    and "a = sivfs_get_allocator_mmap_state u zone tag" and "a \<noteq> 0" and "u_mstates u a = Some ms"
    and "sivfs_allocator_bins_get_bin (max2_size_t (ROUND_UP sz0 8 + 8) 24) = Inr (Some (b, n))"
    and "free_list n (u_mem u) (ms_free_lists ms b) ls" and "ls \<noteq> []" and "ws_room es 17 u"
  shows "\<exists>p v. sivfs_malloc_ws zone tag sz0 u = (OK, p, v) \<and> malloc_ok n (a, b) es u ls p v \<and> unat (ROUND_UP sz0 8) + 8 \<le> unat n"
  by (rule malloc_ws_ok [OF assms])

text \<open>
  C20: allocation from an empty list.  When the list of the size class is empty and the kernel provides a block, \<^verbatim>\<open>sivfs_malloc_ws\<close> makes a slab of it
  and returns a region inside the block; what is left of the block is the free list of the class, in good order and disjoint from
  the region, nothing outside the block has changed, and the changes are at the end of the writeset.
\<close>

theorem malloc_from_new_slab:
  assumes "u_ready u" and "ROUND_UP sz0 8 \<noteq> 0" and "unat (ROUND_UP sz0 8) + 8 < 2 ^ 64"
    and "a = sivfs_get_allocator_mmap_state u zone tag" and "a \<noteq> 0" and "u_mstates u a = Some ms"
    and "sivfs_allocator_bins_get_bin (max2_size_t (ROUND_UP sz0 8 + 8) 24) = Inr (Some (b, n))"
    and "ms_free_lists ms b = 0" and "u_blocks u = Some blk # bs" and "block_fits n ms blk" and "ws_room es 23 u"
  shows "\<exists>p v ws h ls. sivfs_malloc_ws zone tag sz0 u = (OK, p, v) \<and> unat (ROUND_UP sz0 8) + 8 \<le> unat n \<and>
    u_mem v = put_all ws (u_mem u) \<and> ws_repr (u_ws v) (es @ map change_entry ws) \<and> slot_value v (a, b) = Some h \<and>
    free_list n (u_mem v) h ls \<and> in_use n (u_mem v) p \<and> region_of p n \<subseteq> block_bytes blk \<and>
    (\<forall>l \<in> set ls. ext (u_mem v) l \<subseteq> block_bytes blk \<and> ext (u_mem v) l \<inter> region_of p n = {}) \<and>
    (\<forall>x. unat x \<notin> block_bytes blk \<longrightarrow> u_mem v x = u_mem u x)"
  by (rule malloc_new_slab [OF assms])

text \<open>
  C21: freeing gives the region back.  For a region in use whose block leads to the list of its size class,
  \<^verbatim>\<open>sivfs_free_ws\<close> makes the region an element of the list, be it empty or not, keeps the other elements, changes nothing else
  and records its changes; freeing the region a second time is recognised and ends the process.
\<close>

theorem free_returns_region:
  assumes "u_ready u" and "in_use n (u_mem u) p" and "sivfs_allocator_bins_get_bin n = Inr (Some (b, n))" and "24 \<le> unat n"
    and "bh = sivfs_alloc_region_to_block_head (u_mem u) (p - 8)" and "bh \<noteq> 0" and "sivfs_block_tag (u_mem u) bh = Some tag"
    and "a = sivfs_get_allocator_mmap_state u (p - 8) tag" and "a \<noteq> 0" and "u_mstates u a = Some ms"
    and "free_list n (u_mem u) (ms_free_lists ms b) ls" and "\<forall>l \<in> set ls. ext (u_mem u) l \<inter> region_of p n = {}"
    and "ws_room es 5 u"
  shows "\<exists>v. sivfs_free_ws p u = (OK, v) \<and> returned n p (a, b) es u ls v \<and> sivfs_free_ws p v = (E EINVAL, die v)"
  by (rule free_ws_ok [OF assms])

text \<open>
  C22: an abort gives back the free lists.  After any sequence of allocations and frees, with whatever errors of the kernel and of
  \<^verbatim>\<open>malloc\<close>, \<^verbatim>\<open>sivfs_lib_allocation_on_commit\<close> for an aborted transaction succeeds and leaves every head of a free list as it was when
  the transaction began.
\<close>

theorem abort_restores_free_lists:
  assumes "u_ready u" and "u_restore_ptrs u = []" and "u_restore_values u = []"
  shows "\<exists>v. sivfs_lib_allocation_on_commit True (alloc_run ops u) = (OK, v) \<and> u_mstates v = u_mstates u \<and>
    u_restore_ptrs v = [] \<and> u_restore_values v = []"
  by (rule abort_undoes [OF assms]) blast

text \<open>
  C24: size classes.  Every aligned size other than 0 has a class or is larger than two pages; the size of the class is not smaller and at most
  15 percent larger, and looking up the size of the class gives the class itself, so that a region goes back to the list it came from.
\<close>

theorem size_class_roundtrip:
  assumes "sz mod 8 = 0" and "0 < sz"
  shows "case sivfs_allocator_bins_get_bin sz of
           Inl e \<Rightarrow> False
         | Inr None \<Rightarrow> 8192 < sz
         | Inr (Some (b, bs)) \<Rightarrow> b < SIVFS_ALLOCATOR_NBINS \<and> sz \<le> bs \<and> 20 * unat bs \<le> 23 * unat sz \<and>
             sivfs_allocator_bins_get_bin bs = Inr (Some (b, bs))"
  by (rule size_classes [OF assms])

text \<open>
  C39: freeing a large block writes behind it.  The second write to the footer goes to an address 48 bytes after the end of the
  block, which it sets to zero, and the size word of the footer, which it is meant for, keeps its value.
\<close>

theorem big_free_writes_outside_block:
  assumes "u_ready u" and "ws_room es 3 u" and "r mod 8 = 0" and "s = sivfs_allocated_region_size (u_mem u) r" and "s mod 8 = 0"
    and "24 \<le> unat s" and "unat r + unat s + 56 < 2 ^ 64"
    and "u_mem u r AND SIVFS_FREED_MAGIC_MASK = 0" and "u_mem u r AND SIVFS_BIG_ALLOCATION_FLAG \<noteq> 0"
  shows "\<exists>v. sivfs_free_ws (r + 8) u = (OK, v) \<and> u_mem v (r + s + 48) = 0 \<and> u_mem v (r + s - 8) = u_mem u (r + s - 8) \<and>
    unat (r + s + 48) = unat r + unat s + 48"
  by (rule free_big_outside [OF assms])

section \<open>Examples\<close>

definition ex_user :: "(u64 \<Rightarrow> u64) \<Rightarrow> u64 \<Rightarrow> user" where
  "ex_user mem h = \<lparr>u_mem = mem, u_ws = \<lparr>capacity_bytes = 0, size_bytes = 0, entries = []\<rparr>, u_ready = True,
     u_mstates = [64 \<mapsto> \<lparr>ms_free_lists = (\<lambda>_. 0)(7 := h), ms_start = 4096, ms_tag = 5, ms_size = 65536\<rparr>],
     u_mmap_states = [64], u_restore_ptrs = [], u_restore_values = [], u_nAllocs = 0, u_nFrees = 0, u_exit = False, u_oks = [], u_blocks = []\<rparr>"

text \<open>One free region of 72 bytes at 4096.\<close>

definition ex_free_mem :: "u64 \<Rightarrow> u64" where
  "ex_free_mem = (\<lambda>_. 0)(4096 := 72 OR SIVFS_FREED_MAGIC OR push_bit SIVFS_SLAB_INDEX_SHIFT 0, 4104 := 4104, 4112 := 4104)"

text \<open>A region of 24 bytes at 4096 in use, in a block of 72 bytes at 4088 with tag 5, and a block of its own of 64 bytes at 8192.\<close>

definition ex_used_mem :: "u64 \<Rightarrow> u64" where
  "ex_used_mem = (\<lambda>_. 0)(4088 := 72, 4096 := 24, 4144 := 5, 4152 := 72, 8192 := 64 OR SIVFS_BIG_ALLOCATION_FLAG, 8248 := 64)"

lemma ex_user_simps [simp]:
  "u_mem (ex_user mem h) = mem" "u_ready (ex_user mem h)" "u_restore_ptrs (ex_user mem h) = []" "u_restore_values (ex_user mem h) = []"
  "u_mstates (ex_user mem h) 64 = Some \<lparr>ms_free_lists = (\<lambda>_. 0)(7 := h), ms_start = 4096, ms_tag = 5, ms_size = 65536\<rparr>"
  "sivfs_get_allocator_mmap_state (ex_user mem h) 4096 5 = 64"
  by (simp_all add: ex_user_def sivfs_get_allocator_mmap_state_def)

lemma ex_user_room: "n < 2 ^ 50 \<Longrightarrow> ws_room [] n (ex_user mem h)"
  by (simp add: ws_room_def ex_user_def ws_repr_def bytes_def)

lemma ex_bin: "sivfs_allocator_bins_get_bin 24 = Inr (Some (7, 24))"
  using get_bin_eq [of 24 7] by (simp add: in_bin_def sivfs_allocator_bin_maxsize_def)

lemma ex_free_list: "free_list 24 ex_free_mem 4104 [4104]"
proof (rule single_list)
  have "unat (72 :: u64) < 2 ^ 30" "unat (0 :: u64) < 2 ^ 16" by simp_all
  from header_free [OF this] show "elems_ok 24 ex_free_mem {4104}"
    by (simp add: elems_ok_def elem_ok_def ex_free_mem_def)
qed (simp_all add: ex_free_mem_def)

theorem malloc_takes_free_region_witness:
  "\<exists>p v. sivfs_malloc_ws 4096 5 16 (ex_user ex_free_mem 4104) = (OK, p, v) \<and> malloc_ok 24 (64, 7) [] (ex_user ex_free_mem 4104) [4104] p v"
proof -
  have up: "ROUND_UP 16 8 = 16" "max2_size_t 24 24 = 24" by (simp_all add: ROUND_UP_def max2_size_t_def)
  show ?thesis
    using malloc_takes_free_region [of "ex_user ex_free_mem 4104" 16 64 4096 5 _ 7 24 "[4104]" "[]"] ex_free_list ex_bin ex_user_room [of 17 ex_free_mem 4104]
    by (auto simp: up)
qed

text \<open>A block of five pages.\<close>

definition ex_block :: block_answer where
  "ex_block = \<lparr>ba_mmap_start = 4096, ba_mmap_size = 65536, ba_start = 8192, ba_size = 20480\<rparr>"

definition ex_slab_user :: user where
  "ex_slab_user = (ex_user (\<lambda>_. 0) 0)\<lparr>u_blocks := [Some ex_block]\<rparr>"

lemma ex_slab_user_simps [simp]:
  "u_mem ex_slab_user = (\<lambda>_. 0)" "u_ready ex_slab_user" "u_blocks ex_slab_user = [Some ex_block]" "ws_room [] 23 ex_slab_user"
  "u_mstates ex_slab_user 64 = Some \<lparr>ms_free_lists = (\<lambda>_. 0)(7 := 0), ms_start = 4096, ms_tag = 5, ms_size = 65536\<rparr>"
  "sivfs_get_allocator_mmap_state ex_slab_user 4096 5 = 64"
  by (simp_all add: ex_slab_user_def ex_user_def sivfs_get_allocator_mmap_state_def ws_room_def ws_repr_def bytes_def)

theorem malloc_from_new_slab_witness:
  "\<exists>p v h ls. sivfs_malloc_ws 4096 5 16 ex_slab_user = (OK, p, v) \<and> slot_value v (64, 7) = Some h \<and> free_list 24 (u_mem v) h ls \<and>
     region_of p 24 \<subseteq> block_bytes ex_block"
proof -
  have up: "ROUND_UP 16 8 = 16" "max2_size_t 24 24 = 24" by (simp_all add: ROUND_UP_def max2_size_t_def)
  show ?thesis
    using malloc_from_new_slab [of ex_slab_user 16 64 4096 5 "the (u_mstates ex_slab_user 64)" 7 24 ex_block "[]" "[]"] ex_bin
    by (auto simp: up block_fits_def ex_block_def)
qed

theorem abort_restores_free_lists_witness:
  "\<exists>v. sivfs_lib_allocation_on_commit True (alloc_run [Malloc 4096 5 16, Free 4104] (ex_user ex_free_mem 4104)) = (OK, v) \<and>
     u_mstates v = u_mstates (ex_user ex_free_mem 4104)"
  using abort_restores_free_lists [of "ex_user ex_free_mem 4104" "[Malloc 4096 5 16, Free 4104]"] by auto

theorem size_class_roundtrip_witness:
  "case sivfs_allocator_bins_get_bin 24 of
     Inl e \<Rightarrow> False
   | Inr None \<Rightarrow> 8192 < (24 :: u64)
   | Inr (Some (b, bs)) \<Rightarrow> b < SIVFS_ALLOCATOR_NBINS \<and> 24 \<le> bs \<and> 20 * unat bs \<le> 23 * unat (24 :: u64) \<and>
       sivfs_allocator_bins_get_bin bs = Inr (Some (b, bs))"
  by (rule size_class_roundtrip) simp_all

lemma ex_used:
  "in_use 24 ex_used_mem 4104" "sivfs_alloc_region_to_block_head ex_used_mem 4096 = 4088" "sivfs_block_tag ex_used_mem 4088 = Some 5"
  by (simp_all add: in_use_def ex_used_mem_def hd_size_def hd_freed_def hd_index_def sivfs_alloc_region_to_block_head_def sivfs_block_tag_def
      region_slab_index big_flag_iff Let_def SIVFS_BLOCK_HEADER_SIZE_def SIVFS_BLOCK_FOOTER_SIZE_def SIVFS_BIG_ALLOCATION_FLAG_def)

theorem free_returns_region_witness:
  "\<exists>v. sivfs_free_ws 4104 (ex_user ex_used_mem 0) = (OK, v) \<and> returned 24 4104 (64, 7) [] (ex_user ex_used_mem 0) [] v \<and>
     sivfs_free_ws 4104 v = (E EINVAL, die v)"
  by (rule free_returns_region [where tag = 5 and bh = 4088 and ms = "the (u_mstates (ex_user ex_used_mem 0) 64)"])
     (simp_all add: ex_used ex_bin ex_user_room free_list_def elems_ok_def)

theorem big_free_writes_outside_block_witness:
  "\<exists>v. sivfs_free_ws 8200 (ex_user ex_used_mem 0) = (OK, v) \<and> u_mem v 8304 = 0 \<and> u_mem v 8248 = 64"
proof -
  have m: "ex_used_mem 8192 = 64 OR push_bit 63 1" "ex_used_mem 8248 = 64" by (simp_all add: ex_used_mem_def SIVFS_BIG_ALLOCATION_FLAG_def)
  have s: "sivfs_allocated_region_size ex_used_mem 8192 = 64"
    unfolding sivfs_allocated_region_size_def m by code_simp
  have hd: "ex_used_mem 8192 AND SIVFS_FREED_MAGIC_MASK = 0" "ex_used_mem 8192 AND SIVFS_BIG_ALLOCATION_FLAG \<noteq> 0"
    unfolding m by code_simp+
  show ?thesis
    using big_free_writes_outside_block [of "ex_user ex_used_mem 0" "[]" 8192 64] s hd ex_user_room [of 3 ex_used_mem 0] m(2) by simp
qed

end
