(* ===== verification/Anon_Frame.thy ===== *)
theory Anon_Frame
  imports Commit_Update
begin

text \<open>
  What the end of a transaction leaves alone.  Whatever \<^verbatim>\<open>sivfs_commit_update\<close> and the functions it calls do, and whatever they
  return, they keep of every anonymous inode the backing inode, the owner and the reference count, and of the task its
  references, its notifier and the trees of its working set.  The theories on the life of anonymous inodes rest on this frame.
\<close>

section \<open>What updates keep of an anonymous inode\<close>

definition anon_key :: "anon_inode option \<Rightarrow> (u64 \<times> u64 \<times> int) option option" where
  "anon_key x = map_option (\<lambda>inode. map_option (\<lambda>ii. (ii_backing_ino ii, ii_state ii, ii_refcount ii)) (ai_info inode)) x"

definition same_keys :: "anon_heap \<Rightarrow> anon_heap \<Rightarrow> bool" where
  "same_keys h h' \<longleftrightarrow> (\<forall>a. anon_key (h' a) = anon_key (h a))"

lemma same_keys_refl [simp]: "same_keys h h"
  by (simp add: same_keys_def)

lemma same_keys_trans: "same_keys h h' \<Longrightarrow> same_keys h' h'' \<Longrightarrow> same_keys h h''"
  by (simp add: same_keys_def)

lemma same_keys_upd: "same_keys h h' \<Longrightarrow> anon_key x = anon_key (h a) \<Longrightarrow> same_keys h (h'(a := x))"
  by (simp add: same_keys_def)

lemma unmap_range_info [simp]: "ai_info (sivfs_unmap_page_range mp off sz) = ai_info mp"
  by (simp add: sivfs_unmap_page_range_def)

lemma fold_info: "(\<And>i mp. anon_key (Some (f i mp)) = anon_key (Some mp)) \<Longrightarrow> anon_key (Some (fold f is mp)) = anon_key (Some mp)"
  by (induction "is" arbitrary: mp) simp_all

lemma unmap_index_key: "anon_key (Some (unmap_index i mp)) = anon_key (Some mp)"
  by (simp add: unmap_index_def anon_key_def)

lemma evict_index_key: "anon_key (Some (evict_index i mp)) = anon_key (Some mp)"
  by (simp add: evict_index_def unmap_index_def anon_key_def Let_def option.map_comp comp_def)

lemma unmap_ws_key:
  "sivfs_unmap_mapping_workingset fuel mp = (r, mp') \<Longrightarrow> anon_key (Some mp') = anon_key (Some mp)"
proof (induction fuel mp rule: sivfs_unmap_mapping_workingset.induct)
  case (2 fuel mp)
  then show ?case using fold_info [of unmap_index, OF unmap_index_key] by (auto simp: Let_def split: if_splits)
qed (auto split: if_splits)

lemma unmap_cps_key: "unmap_cps_loop fuel mp = (r, mp') \<Longrightarrow> anon_key (Some mp') = anon_key (Some mp)"
proof (induction fuel arbitrary: mp)
  case 0
  then show ?case by (subst (asm) unmap_cps_loop.simps) (auto split: option.splits if_splits)
next
  case (Suc fuel)
  note keep = fold_info [of evict_index, OF evict_index_key]
  show ?case using Suc.prems keep
    by (subst (asm) unmap_cps_loop.simps) (auto simp: Let_def dest!: Suc.IH split: option.splits if_splits)
qed

lemma unmap_mapping_key: "sivfs_unmap_mapping fuel mp = (r, mp') \<Longrightarrow> anon_key (Some mp') = anon_key (Some mp)"
  by (auto simp: sivfs_unmap_mapping_def simp del: unmap_cps_loop.simps dest!: unmap_ws_key unmap_cps_key split: prod.splits rc.splits)

lemma invalidate_loop_keys: "invalidate_loop options slots h = (r, h') \<Longrightarrow> same_keys h h'"
proof (induction options slots h arbitrary: h' rule: invalidate_loop.induct)
  case (2 options i a slots h)
  show ?case
  proof (cases "h a")
    case None
    then show ?thesis using "2.prems" by simp
  next
    case (Some mp)
    obtain r1 mp1 where u: "(if options AND SIVFS_NO_INVALIDATE_CPS \<noteq> 0
        then sivfs_unmap_mapping_workingset (unmap_fuel mp) mp else sivfs_unmap_mapping (unmap_fuel mp) mp) = (r1, mp1)"
      by fastforce
    then have k: "anon_key (Some mp1) = anon_key (h a)"
      using Some unmap_ws_key unmap_mapping_key by (metis (full_types))
    then have s: "same_keys h (h(a \<mapsto> mp1))" by (intro same_keys_upd) simp_all
    show ?thesis
    proof (cases "r1 = OK")
      case True
      then have "invalidate_loop options slots (h(a \<mapsto> mp1)) = (r, h')" using "2.prems" Some u by simp
      from "2.IH" [OF Some u [symmetric] True this] show ?thesis using s by (rule same_keys_trans [rotated])
    next
      case False
      then show ?thesis using "2.prems" Some u s by (cases r1) auto
    qed
  qed
qed simp

lemma invalidate_ws_keys: "sivfs_invalidate_workingset ws options h = (r, h') \<Longrightarrow> same_keys h h'"
  unfolding sivfs_invalidate_workingset_def by (rule invalidate_loop_keys)

lemma wse_loop_keeps:
  assumes "\<And>e i s s'. body e i s = Next s' \<Longrightarrow> R s s'" and "\<And>e i s r s'. body e i s = Stop r s' \<Longrightarrow> R s s'"
    and "reflp R" and "transp R"
  shows "wse_loop fuel body mem left s = (r, s') \<Longrightarrow> R s s'"
proof (induction fuel arbitrary: mem left s)
  case 0
  then show ?case using reflpD [OF assms(3)] by (auto split: if_splits)
next
  case (Suc fuel)
  then show ?case using reflpD [OF assms(3)]
    by (auto split: if_splits option.splits sum.splits step.splits dest!: assms(1,2) intro: transpD [OF assms(4)])
qed

lemma keys_refl_trans: "reflp same_keys" "transp same_keys"
  by (auto intro: reflpI transpI same_keys_trans)

lemma ws_for_each_keys:
  assumes "\<And>e i s s'. body e i s = Next s' \<Longrightarrow> same_keys s s'" and "\<And>e i s r s'. body e i s = Stop r s' \<Longrightarrow> same_keys s s'"
    and "ws_for_each body ws h = (r, h')"
  shows "same_keys h h'"
  by (rule wse_loop_keeps [of body same_keys, OF assms(1,2) keys_refl_trans assms(3) [unfolded ws_for_each_def]])

lemma invalidate_entry_keys:
  "invalidate_entry ws e i h = Next h' \<Longrightarrow> same_keys h h'" "invalidate_entry ws e i h = Stop r h' \<Longrightarrow> same_keys h h'"
  by (auto simp: invalidate_entry_def Let_def anon_key_def intro!: same_keys_upd split: if_splits option.splits)

lemma invalidate_log_keys: "sivfs_invalidate_workingset_log ws e h = (r, h') \<Longrightarrow> same_keys h h'"
  unfolding sivfs_invalidate_workingset_log_def by (rule ws_for_each_keys [OF invalidate_entry_keys])

lemma find_get_wspg_keys: "sivfs_find_get_wspg h ws i off fl = (r, p, h') \<Longrightarrow> same_keys h h'"
  by (auto simp: sivfs_find_get_wspg_def evict_checked_out_def evict_cp_page_def Let_def anon_key_def intro!: same_keys_upd
      split: if_splits option.splits slot.splits)

lemma set_ws_page_keys: "same_keys h (set_ws_page a p pg h)"
  unfolding set_ws_page_def by (rule same_keys_upd) (simp_all add: anon_key_def option.map_comp comp_def)

lemma apply_ws_write_keys:
  "apply_ws_write st ws e i h = Next h' \<Longrightarrow> same_keys h h'" "apply_ws_write st ws e i h = Stop r h' \<Longrightarrow> same_keys h h'"
  by (auto simp: apply_ws_write_def dest!: find_get_wspg_keys intro: same_keys_trans [OF _ set_ws_page_keys]
      split: prod.splits rc.splits option.splits if_splits)

lemma apply_log_entry_keys: "sivfs_apply_log_entry_workingset st ws e h = (r, h') \<Longrightarrow> same_keys h h'"
  unfolding sivfs_apply_log_entry_workingset_def
  using ws_for_each_keys [OF apply_ws_write_keys] by (auto split: if_splits)

lemma apply_logs_loop_keys: "apply_logs_loop st ws s stop skip fuel clog h = (r, h') \<Longrightarrow> same_keys h h'"
proof (induction fuel arbitrary: clog h)
  case (Suc fuel)
  show ?case
  proof (cases "log_mem s clog")
    case None
    then show ?thesis using Suc.prems by simp
  next
    case (Some c)
    obtain r1 h1 where e: "(if le_ts c = skip then (OK, h) else sivfs_apply_log_entry_workingset st ws c h) = (r1, h1)"
      by fastforce
    then have k: "same_keys h h1" using apply_log_entry_keys by (auto split: if_splits)
    then show ?thesis using Suc.prems Some e same_keys_trans [OF k] Suc.IH
      by (auto split: rc.splits if_splits option.splits)
  qed
qed simp

lemma apply_logs_keys: "sivfs_apply_logs_workingset st ws s log stop skip h = (r, h') \<Longrightarrow> same_keys h h'"
  by (auto simp: sivfs_apply_logs_workingset_def simp del: apply_logs_loop.simps dest: apply_logs_loop_keys split: option.splits if_splits)

text \<open>The part of a task state that holds its references and its files.\<close>

definition state_key :: "sivfs_state \<Rightarrow> int \<times> bool \<times> sivfs_workingset \<times> u64" where
  "state_key state = (nref state, notifier_registered state, st_workingset state, t_owner state)"

lemma sivfs_update_keys:
  "sivfs_update st s state t skip h = (r, state', h') \<Longrightarrow> same_keys h h' \<and> state_key state' = state_key state"
  by (auto simp: sivfs_update_def Let_def state_key_def dest: apply_logs_keys split: if_splits prod.splits rc.splits)

lemma update_direct_keys:
  "sivfs_update_direct_access s state t h = (r, state', h') \<Longrightarrow> same_keys h h' \<and> state_key state' = state_key state"
  by (auto simp: sivfs_update_direct_access_def state_key_def dest: invalidate_ws_keys split: if_splits prod.splits rc.splits)

lemma update_workingset_keys:
  assumes "update_workingset options c t k state = (r, state', h')"
  shows "same_keys (k_anon k) h' \<and> state_key state' = state_key state"
proof (cases "options AND SIVFS_DIRECT_ACCESS \<noteq> 0")
  case True
  then show ?thesis using assms update_direct_keys by (simp add: update_workingset_def)
next
  case False
  obtain r1 h1 where i: "(if direct_access state then sivfs_invalidate_workingset (st_workingset state) 0 (k_anon k)
      else (OK, k_anon k)) = (r1, h1)" by fastforce
  then have k: "same_keys (k_anon k) h1" using invalidate_ws_keys by (auto split: if_splits)
  have sk: "state_key (state\<lparr>direct_access := False\<rparr>) = state_key state" by (simp add: state_key_def)
  show ?thesis
  proof (cases "r1 = OK")
    case True
    then show ?thesis using assms False i sivfs_update_keys same_keys_trans [OF k] sk
      by (fastforce simp: update_workingset_def)
  next
    case r1: False
    then show ?thesis using assms False i k by (cases r1) (auto simp: update_workingset_def)
  qed
qed


lemma clear_dirty_keys: "clear_dirty mm a t p md = (r, md') \<Longrightarrow> same_keys (md_anon md) (md_anon md')"
  by (auto simp: clear_dirty_def clean_page_def Let_def anon_key_def intro!: same_keys_upd split: if_splits option.splits)

lemma tag_entry_keys:
  assumes "tag_entry mm cur pos e md = (r, b, md')"
  shows "same_keys (md_anon md) (md_anon md')"
proof -
  define md0 where "md0 = md\<lparr>md_stats := stat_inc nWriteTxnsWrites (md_stats md)\<rparr>"
  have m: "md_anon md = md_anon md0" by (simp add: md0_def)
  show ?thesis using assms unfolding m tag_entry_def Let_def md0_def [symmetric]
    by (auto dest!: clear_dirty_keys split: prod.splits rc.splits option.splits if_splits)
qed

lemma metadata_loop_keys: "metadata_loop mm cur fuel pos left md = (r, b, md') \<Longrightarrow> same_keys (md_anon md) (md_anon md')"
proof (induction fuel arbitrary: pos left md)
  case (Suc fuel)
  then show ?case
    by (auto split: if_splits option.splits sum.splits prod.splits rc.splits bool.splits
        dest!: tag_entry_keys intro: same_keys_trans)
qed (auto split: if_splits)

lemma add_metadata_keys:
  "sivfs_add_metadata_to_changes mm cur stats h lw = (r, lw', md) \<Longrightarrow> same_keys h (md_anon md)"
  by (auto simp: sivfs_add_metadata_to_changes_def Let_def dest!: metadata_loop_keys split: if_splits prod.splits)

definition run_keys :: "commit_run \<Rightarrow> commit_run \<Rightarrow> bool" where
  "run_keys c c' \<longleftrightarrow> same_keys (k_anon (cr_kernel c)) (k_anon (cr_kernel c')) \<and> state_key (cr_state c') = state_key (cr_state c)"

lemma run_keys_trans: "run_keys c c' \<Longrightarrow> run_keys c' c'' \<Longrightarrow> run_keys c c''"
  unfolding run_keys_def by (auto intro: same_keys_trans)

lemma commit_writes_keys:
  assumes "commit_writes env c lw = (r, c')"
  shows "run_keys c c'"
proof -
  obtain r0 lw0 md where md: "sivfs_add_metadata_to_changes (ce_mm env) (t_owner (cr_state c)) (st_stats (cr_state c))
      (k_anon (cr_kernel c)) lw = (r0, lw0, md)" by (metis surj_pair)
  note k = add_metadata_keys [OF md]
  show ?thesis using assms unfolding commit_writes_def Let_def md
    by (auto simp: run_keys_def state_key_def k intro: same_keys_trans [OF k] dest!: invalidate_log_keys
        split: if_splits prod.splits)
qed

lemma commit_frees_key: "commit_frees fuel h state ts cs = (r, state', h') \<Longrightarrow> state_key state' = state_key state"
  by (induction fuel h state ts cs rule: commit_frees.induct) (auto simp: state_key_def split: prod.splits rc.splits)

lemma abort_frees_key: "abort_frees h state cs = (r, state', h') \<Longrightarrow> state_key state' = state_key state"
  by (induction h state cs rule: abort_frees.induct) (auto simp: state_key_def split: option.splits if_splits)

lemma abort_allocs_key: "abort_allocs fuel h state cs = (r, state', h') \<Longrightarrow> state_key state' = state_key state"
  by (induction fuel h state cs rule: abort_allocs.induct) (auto simp: state_key_def split: prod.splits rc.splits)

lemma on_commit_key:
  assumes "sivfs_allocation_on_commit fuel h state b ts = (r, state', h')"
  shows "state_key state' = state_key state"
proof -
  have "state_key (state\<lparr>allocated_chunks := []\<rparr>) = state_key state" by (simp add: state_key_def)
  then show ?thesis using assms
    by (auto simp: sivfs_allocation_on_commit_def allocation_commit_def allocation_abort_def
        dest!: commit_frees_key abort_frees_key abort_allocs_key split: if_splits prod.splits rc.splits)
qed

lemma checkout_key: "checkout_checkpoint w state = (r, t, state') \<Longrightarrow> state_key state' = state_key state"
  by (auto simp: checkout_checkpoint_def state_key_def Let_def split: if_splits)

lemma update_snapshot_keys:
  assumes "update_snapshot env options c = (r, c')"
  shows "run_keys c c'"
proof -
  obtain r1 s1 h1 where 1: "sivfs_allocation_on_commit (ce_fuel env) (k_alloc (cr_kernel c)) (cr_state c) (cr_aborted c)
      (cr_commit_ts c) = (r1, s1, h1)" by (metis surj_pair)
  obtain r2 t2 s2 where 2: "checkout_checkpoint (k_cps (cr_kernel c)) s1 = (r2, t2, s2)" by (metis surj_pair)
  obtain r3 s3 h3 where 3: "update_workingset options (cr_commit_ts c) (master_ts (k_shared (cr_kernel c)))
      (cr_kernel c\<lparr>k_alloc := h1\<rparr>) s2 = (r3, s3, h3)" by (metis surj_pair)
  note k = on_commit_key [OF 1] checkout_key [OF 2] update_workingset_keys [OF 3]
  have "state_key (s3\<lparr>st_prior_checkpoint_ts := t2\<rparr>) = state_key s3" by (simp add: state_key_def)
  then show ?thesis using assms k 1 2 3
    by (auto simp: update_snapshot_def Let_def run_keys_def split: if_splits)
qed

lemma my_commit_update_keys:
  assumes "my_sivfs_commit_update env options lw state k = (r, c)"
  shows "same_keys (k_anon k) (k_anon (cr_kernel c)) \<and> state_key (cr_state c) = state_key state"
proof -
  define c0 where "c0 = \<lparr>cr_aborted = (should_abort state \<or> options AND SIVFS_ABORT_FLAG \<noteq> 0), cr_commit_ts = SIVFS_INVALID_TS,
     cr_state = state\<lparr>should_abort := False\<rparr>, cr_log = lw, cr_kernel = k\<rparr>"
  have "run_keys c0 c \<or> c = c0\<lparr>cr_state := state\<rparr>"
    using assms unfolding my_sivfs_commit_update_def Let_def c0_def [symmetric]
    by (auto dest!: update_snapshot_keys commit_writes_keys intro: run_keys_trans split: option.splits if_splits prod.splits rc.splits)
  then show ?thesis by (auto simp: run_keys_def c0_def state_key_def)
qed

lemma commit_update_keys:
  assumes "sivfs_commit_update env options lw state k = (r, c)"
  shows "same_keys (k_anon k) (k_anon (cr_kernel c)) \<and> state_key (cr_state c) = state_key state"
  using assms unfolding sivfs_commit_update_def
  by (auto simp: Let_def state_key_def dest!: my_commit_update_keys split: if_splits prod.splits)

end
