(* ===== verification/Anon_Inodes.thy ===== *)
theory Anon_Inodes
  imports Anon_Frame
begin

text \<open>
  The life of anonymous inodes: \<^verbatim>\<open>sivfs_get_anon_inode\<close> and \<^verbatim>\<open>sivfs_put_anon_inode\<close> of \<^verbatim>\<open>kern/sivfs_workingset.c\<close>, and the callbacks of
  \<^verbatim>\<open>kern/inode.c\<close> that create, open, map and release them or end a task: \<^verbatim>\<open>sivfs_create_anon_inode\<close>,
  \<^verbatim>\<open>sivfs_create_anon_dentry\<close>, \<^verbatim>\<open>sivfs_d_select_inode\<close>, \<^verbatim>\<open>sivfs_d_real\<close>, \<^verbatim>\<open>sivfs_anon_open\<close>, \<^verbatim>\<open>sivfs_anon_release\<close>,
  \<^verbatim>\<open>sivfs_anon_mmap\<close> and \<^verbatim>\<open>sivfs_mm_release\<close>.

  \<^item> A state is named by the task that owns it.  Following a state that has been freed is \<open>UB\<close>.
  \<^item> \<open>fw_dentries\<close> are the pseudo dentries by address, \<open>fw_files\<close> the reference counts of the files opened for direct
    access.  An anonymous inode has the one reference of its dentry, so that \<^verbatim>\<open>iput\<close> removes it; \<^verbatim>\<open>dput\<close> and \<^verbatim>\<open>fput\<close> drop one
    reference and remove the object with the last one, as documented.
  \<^item> The outcomes of the requests to the kernel are the fields of \<open>anon_env\<close>.
  \<^item> An output parameter \<^verbatim>\<open>*dentry_out\<close> is a value of type \<open>u64 option\<close>: \<open>None\<close> is an indeterminate value, 0 is \<^verbatim>\<open>NULL\<close>.
  \<^item> The checkpoints mapped into page directories, which \<^verbatim>\<open>sivfs_mm_release\<close> unmaps first, do not occur in this configuration.
\<close>

section \<open>The world\<close>

definition SIVFS_CREATE :: u64 where
  "SIVFS_CREATE = 2"

definition SIVFS_SKIP_REFCOUNT :: u64 where
  "SIVFS_SKIP_REFCOUNT = 4"

record dentry =
  d_inode :: u64
  d_count :: nat

record fs_world =
  fw_tasks :: task_world
  fw_shared :: sivfs_shared_state
  fw_cps :: cp_world
  fw_anon :: anon_heap
  fw_dentries :: "u64 \<Rightarrow> dentry option"
  fw_files :: "u64 \<Rightarrow> nat option"
  fw_isize :: "u64 \<Rightarrow> u64"
  fw_anon_size :: "u64 \<Rightarrow> u64"
  fw_locked :: "u64 list"

record anon_env =
  ae_new_inode :: "u64 option"
  ae_iinfo_ok :: bool
  ae_task_mm :: bool
  ae_notifier :: rc
  ae_insert_inode :: bool
  ae_dentry :: "u64 option"
  ae_insert_dentry :: bool
  ae_finfo_ok :: bool
  ae_direct_open :: "errno + u64"
  ae_commit :: commit_env

definition fw_state :: "fs_world \<Rightarrow> u64 \<Rightarrow> sivfs_state option" where
  "fw_state w task = sivfs_task_to_state (fw_tasks w) task"

definition set_fw_state :: "u64 \<Rightarrow> sivfs_state \<Rightarrow> fs_world \<Rightarrow> fs_world" where
  "set_fw_state task state w =
     w\<lparr>fw_tasks := (fw_tasks w)\<lparr>tw_threads := rt_ins task state (tw_threads (fw_tasks w))\<rparr>\<rparr>"

definition fw_kernel :: "fs_world \<Rightarrow> kernel" where
  "fw_kernel w = \<lparr>k_shared = fw_shared w, k_cps = fw_cps w, k_anon = fw_anon w,
     k_alloc = tw_alloc (fw_tasks w), k_locked = fw_locked w\<rparr>"

definition set_fw_kernel :: "kernel \<Rightarrow> fs_world \<Rightarrow> fs_world" where
  "set_fw_kernel k w = w\<lparr>fw_shared := k_shared k, fw_cps := k_cps k, fw_anon := k_anon k,
     fw_tasks := (fw_tasks w)\<lparr>tw_alloc := k_alloc k\<rparr>, fw_locked := k_locked k\<rparr>"

definition fs_get_task_state :: "nat \<Rightarrow> u64 \<Rightarrow> fs_world \<Rightarrow> rc \<times> fs_world" where
  "fs_get_task_state fuel task w =
     (case sivfs_get_task_state fuel (fw_tasks w) task of (r, tw) \<Rightarrow> (r, w\<lparr>fw_tasks := tw\<rparr>))"

definition fs_put_task_state :: "nat \<Rightarrow> u64 \<Rightarrow> fs_world \<Rightarrow> fs_world" where
  "fs_put_task_state fuel task w = w\<lparr>fw_tasks := sivfs_put_task_state fuel (fw_tasks w) task\<rparr>"

text \<open>The end of a transaction on this world; the results are the return code, \<^verbatim>\<open>*aborted\<close> and the log entry passed by reference.\<close>

definition fs_commit_update ::
  "commit_env \<Rightarrow> u64 \<Rightarrow> sivfs_log_entry option \<Rightarrow> u64 \<Rightarrow> fs_world \<Rightarrow> rc \<times> bool \<times> sivfs_log_entry option \<times> fs_world" where
  "fs_commit_update env options log_writeset task w =
     (case fw_state w task of
        None \<Rightarrow> (UB, False, log_writeset, w)
      | Some state \<Rightarrow>
          (case sivfs_commit_update env options log_writeset state (fw_kernel w) of
             (r, c) \<Rightarrow> (r, cr_aborted c, cr_log c, set_fw_kernel (cr_kernel c) (set_fw_state task (cr_state c) w))))"

section \<open>Inodes and dentries\<close>

definition new_iinfo :: anon_info where
  "new_iinfo = \<lparr>ii_backing_ino = 0, ii_state = 0, ii_refcount = 0, ii_checkpoint_pages = [], ii_checkpoint_checked_out = False\<rparr>"

definition sivfs_new_iinfo :: "bool \<Rightarrow> rc \<times> anon_info option" where
  "sivfs_new_iinfo kzalloc_ok = (if kzalloc_ok then (OK, Some new_iinfo) else (E ENOMEM, None))"

definition iput :: "u64 \<Rightarrow> fs_world \<Rightarrow> fs_world" where
  "iput a w = w\<lparr>fw_anon := (fw_anon w)(a := None)\<rparr>"

definition dput :: "u64 \<Rightarrow> fs_world \<Rightarrow> fs_world" where
  "dput d w =
     (case fw_dentries w d of
        None \<Rightarrow> w
      | Some de \<Rightarrow>
          if d_count de > 1 then w\<lparr>fw_dentries := (fw_dentries w)(d \<mapsto> de\<lparr>d_count := d_count de - 1\<rparr>)\<rparr>
          else iput (d_inode de) (w\<lparr>fw_dentries := (fw_dentries w)(d := None)\<rparr>))"

text \<open>The inode of a regular file; 0 when it cannot be created.\<close>

definition sivfs_get_inode :: "anon_env \<Rightarrow> fs_world \<Rightarrow> u64 \<times> fs_world" where
  "sivfs_get_inode env w =
     (case ae_new_inode env of
        None \<Rightarrow> (0, w)
      | Some a \<Rightarrow>
          (case sivfs_new_iinfo (ae_iinfo_ok env) of
             (OK, iinfo) \<Rightarrow> (a, w\<lparr>fw_anon := (fw_anon w)(a \<mapsto> \<lparr>ai_info = iinfo, ai_pages = [], ai_ptes = (\<lambda>_. None)\<rparr>)\<rparr>)
           | _ \<Rightarrow> (0, iput a w)))"

definition register_notifier :: "anon_env \<Rightarrow> u64 \<Rightarrow> fs_world \<Rightarrow> rc \<times> fs_world" where
  "register_notifier env task w =
     (case fw_state w task of
        None \<Rightarrow> (UB, w)
      | Some state \<Rightarrow>
          if notifier_registered state then (OK, w)
          else if \<not> ae_task_mm env then (E EINVAL, w)
          else case fs_get_task_state (ce_fuel (ae_commit env)) task w of
            (OK, w1) \<Rightarrow>
              if ae_notifier env \<noteq> OK
              then (ae_notifier env, fs_put_task_state (ce_fuel (ae_commit env)) task w1)
              else (case fw_state w1 task of
                      None \<Rightarrow> (UB, w1)
                    | Some state1 \<Rightarrow> (OK, set_fw_state task (state1\<lparr>notifier_registered := True\<rparr>) w1))
          | (r, w1) \<Rightarrow> (r, w1))"

definition set_info :: "u64 \<Rightarrow> (anon_info option \<Rightarrow> anon_info option) \<Rightarrow> fs_world \<Rightarrow> fs_world" where
  "set_info a f w =
     w\<lparr>fw_anon := (fw_anon w)(a := map_option (\<lambda>inode. inode\<lparr>ai_info := f (ai_info inode)\<rparr>) (fw_anon w a))\<rparr>"

definition sivfs_create_anon_inode :: "anon_env \<Rightarrow> u64 \<Rightarrow> u64 \<Rightarrow> fs_world \<Rightarrow> rc \<times> u64 \<times> fs_world" where
  "sivfs_create_anon_inode env backing_ino task w =
     (case sivfs_get_inode env w of
        (inode, w1) \<Rightarrow>
          if inode = 0 then (E ENOMEM, 0, w1)
          else (case register_notifier env task w1 of
                  (OK, w2) \<Rightarrow>
                    (OK, inode, set_info inode (map_option (\<lambda>ii. ii\<lparr>ii_backing_ino := backing_ino, ii_state := task\<rparr>)) w2)
                | (r, w2) \<Rightarrow> (r, 0, iput inode w2)))"

definition sivfs_create_anon_dentry :: "anon_env \<Rightarrow> u64 \<Rightarrow> fs_world \<Rightarrow> rc \<times> u64 \<times> fs_world" where
  "sivfs_create_anon_dentry env anon_inode w =
     (case ae_dentry env of
        None \<Rightarrow> (E ENOMEM, 0, w)
      | Some d \<Rightarrow> (OK, d, w\<lparr>fw_dentries := (fw_dentries w)(d \<mapsto> \<lparr>d_inode = anon_inode, d_count = 1\<rparr>)\<rparr>))"

section \<open>Getting an anonymous inode\<close>

definition upd_ws :: "u64 \<Rightarrow> (sivfs_workingset \<Rightarrow> sivfs_workingset) \<Rightarrow> fs_world \<Rightarrow> fs_world" where
  "upd_ws task f w =
     (case fw_state w task of
        None \<Rightarrow> w | Some state \<Rightarrow> set_fw_state task (state\<lparr>st_workingset := f (st_workingset state)\<rparr>) w)"

definition fw_ws :: "fs_world \<Rightarrow> u64 \<Rightarrow> sivfs_workingset" where
  "fw_ws w task = (case fw_state w task of None \<Rightarrow> sivfs_init_workingset | Some state \<Rightarrow> st_workingset state)"

definition del_anon_inode :: "u64 \<Rightarrow> u64 \<Rightarrow> fs_world \<Rightarrow> fs_world" where
  "del_anon_inode task ino = upd_ws task (\<lambda>ws. ws\<lparr>anon_inodes := radix_tree_delete (anon_inodes ws) ino\<rparr>)"

definition del_anon_dentry :: "u64 \<Rightarrow> u64 \<Rightarrow> fs_world \<Rightarrow> fs_world" where
  "del_anon_dentry task ino = upd_ws task (\<lambda>ws. ws\<lparr>anon_dentries := radix_tree_delete (anon_dentries ws) ino\<rparr>)"

text \<open>The last part: the first anonymous inode of a task starts a transaction.  An abort goes to the error label with the return code 0.\<close>

definition start_txn :: "anon_env \<Rightarrow> u64 \<Rightarrow> u64 \<Rightarrow> bool \<Rightarrow> u64 \<Rightarrow> fs_world \<Rightarrow> rc \<times> u64 option \<times> fs_world" where
  "start_txn env task backing_ino anon_inodes_was_empty anon_dentry w =
     (let undo = (\<lambda>w. fs_put_task_state (ce_fuel (ae_commit env)) task (del_anon_inode task backing_ino
                        (dput anon_dentry (del_anon_dentry task backing_ino w))))
      in if \<not> anon_inodes_was_empty then (OK, Some anon_dentry, w)
         else case fs_commit_update (ae_commit env) 0 None task w of
           (r, aborted, _, w1) \<Rightarrow>
             if r \<noteq> OK then (r, Some 0, undo w1)
             else if aborted then (OK, Some 0, undo w1)
             else (OK, Some anon_dentry, w1))"

text \<open>The part that fills the two trees, with the error labels 2, 3 and 4.\<close>

definition insert_anon :: "anon_env \<Rightarrow> u64 \<Rightarrow> u64 \<Rightarrow> u64 \<Rightarrow> fs_world \<Rightarrow> rc \<times> u64 option \<times> fs_world" where
  "insert_anon env task backing_ino a w =
     (let put = fs_put_task_state (ce_fuel (ae_commit env)) task;
          ws = fw_ws w task
      in case radix_tree_insert (ae_insert_inode env) (anon_inodes ws) backing_ino a of
           (OK, t) \<Rightarrow>
             (let w1 = upd_ws task (\<lambda>ws. ws\<lparr>anon_inodes := t\<rparr>) w in
              case sivfs_create_anon_dentry env a w1 of
                (OK, d, w2) \<Rightarrow>
                  (case radix_tree_insert (ae_insert_dentry env) (anon_dentries ws) backing_ino d of
                     (OK, t2) \<Rightarrow> start_txn env task backing_ino (anon_inodes ws = []) d
                                   (upd_ws task (\<lambda>ws. ws\<lparr>anon_dentries := t2\<rparr>) w2)
                   | (r, _) \<Rightarrow> (r, Some 0, put (del_anon_inode task backing_ino (dput d w2))))
              | (r, _, w2) \<Rightarrow> (r, Some 0, put (iput a (del_anon_inode task backing_ino w2))))
         | (r, _) \<Rightarrow> (r, Some 0, put (iput a w)))"

definition get_anon_inode_new :: "anon_env \<Rightarrow> u64 \<Rightarrow> u64 \<Rightarrow> u64 \<Rightarrow> fs_world \<Rightarrow> rc \<times> u64 option \<times> fs_world" where
  "get_anon_inode_new env task backing_ino flags w =
     (if flags AND SIVFS_CREATE = 0 then (OK, None, w)
      else case fs_get_task_state (ce_fuel (ae_commit env)) task w of
        (OK, w1) \<Rightarrow>
          (case sivfs_create_anon_inode env backing_ino task w1 of
             (OK, a, w2) \<Rightarrow>
               (case Option.bind (fw_anon w2 a) ai_info of
                  None \<Rightarrow> (E EINVAL, Some 0, fs_put_task_state (ce_fuel (ae_commit env)) task (iput a w2))
                | Some iinfo \<Rightarrow>
                    insert_anon env task backing_ino a
                      (if flags AND SIVFS_SKIP_REFCOUNT \<noteq> 0
                       then set_info a (map_option (\<lambda>ii. ii\<lparr>ii_refcount := SIVFS_UNREFERENCED\<rparr>)) w2 else w2))
           | (r, _, w2) \<Rightarrow> (r, Some 0, fs_put_task_state (ce_fuel (ae_commit env)) task w2))
      | (r, w1) \<Rightarrow> (r, Some 0, w1))"

definition anon_ref :: "anon_info \<Rightarrow> rc \<times> anon_info" where
  "anon_ref iinfo =
     (if ii_refcount iinfo = SIVFS_UNREFERENCED then (OK, iinfo\<lparr>ii_refcount := 1\<rparr>) else sivfs_iinfo_refct_inc iinfo)"

definition sivfs_get_anon_inode ::
  "anon_env \<Rightarrow> u64 option \<Rightarrow> u64 \<Rightarrow> u64 \<Rightarrow> u64 \<Rightarrow> fs_world \<Rightarrow> rc \<times> u64 option \<times> fs_world" where
  "sivfs_get_anon_inode env dentry_out task backing_ino flags w =
     (case fw_state w task of
        None \<Rightarrow> (UB, dentry_out, w)
      | Some state \<Rightarrow>
          (case radix_tree_lookup (anon_dentries (st_workingset state)) backing_ino of
             None \<Rightarrow>
               (case get_anon_inode_new env task backing_ino flags w of
                  (OK, d, w1) \<Rightarrow> (OK, d, w1)
                | (r, _, w1) \<Rightarrow> (r, dentry_out, w1))
           | Some d \<Rightarrow>
               if flags AND SIVFS_SKIP_REFCOUNT \<noteq> 0 then (OK, Some d, w)
               else (case fw_dentries w d of
                       None \<Rightarrow> (UB, dentry_out, w)
                     | Some de \<Rightarrow>
                         (case fw_anon w (d_inode de) of
                            None \<Rightarrow> (UB, dentry_out, w)
                          | Some inode \<Rightarrow>
                              (case ai_info inode of
                                 None \<Rightarrow> (E EINVAL, dentry_out, w)
                               | Some iinfo \<Rightarrow>
                                   (case anon_ref iinfo of
                                      (OK, iinfo1) \<Rightarrow> (OK, Some d, set_info (d_inode de) (\<lambda>_. Some iinfo1) w)
                                    | (r, _) \<Rightarrow> (r, dentry_out, w)))))))"

definition sivfs_put_anon_inode :: "nat \<Rightarrow> u64 \<Rightarrow> u64 \<Rightarrow> fs_world \<Rightarrow> rc \<times> fs_world" where
  "sivfs_put_anon_inode fuel task backing_ino w =
     (case fw_state w task of
        None \<Rightarrow> (UB, w)
      | Some state \<Rightarrow>
          (case radix_tree_lookup (anon_inodes (st_workingset state)) backing_ino of
             None \<Rightarrow> (OK, w)
           | Some a \<Rightarrow>
               (case fw_anon w a of
                  None \<Rightarrow> (UB, w)
                | Some inode \<Rightarrow>
                    (case ai_info inode of
                       None \<Rightarrow> (OK, w)
                     | Some iinfo \<Rightarrow>
                         if ii_refcount iinfo = SIVFS_UNREFERENCED \<or> ii_refcount iinfo = 1 then
                           (let w1 = del_anon_inode task backing_ino (set_info a (\<lambda>_. None) w) in
                            case radix_tree_lookup (anon_dentries (st_workingset state)) backing_ino of
                              None \<Rightarrow> (OK, w1)
                            | Some d \<Rightarrow>
                                (OK, fs_put_task_state fuel task (dput d (del_anon_dentry task backing_ino w1))))
                         else if ii_refcount iinfo < 1 then (OK, w)
                         else (OK, set_info a (\<lambda>_. Some (iinfo\<lparr>ii_refcount := ii_refcount iinfo - 1\<rparr>)) w)))))"


section \<open>Opening, mapping and releasing files\<close>

record sivfs_file_info =
  fi_state :: u64
  fi_direct_access_file :: u64

definition fput :: "u64 \<Rightarrow> fs_world \<Rightarrow> rc \<times> fs_world" where
  "fput f w =
     (case fw_files w f of
        None \<Rightarrow> (UB, w)
      | Some n \<Rightarrow> (OK, w\<lparr>fw_files := (fw_files w)(f := if n > 1 then Some (n - 1) else None)\<rparr>))"

definition sivfs_put_finfo :: "sivfs_file_info \<Rightarrow> fs_world \<Rightarrow> rc \<times> fs_world" where
  "sivfs_put_finfo finfo w =
     (if fi_direct_access_file finfo \<noteq> 0 then fput (fi_direct_access_file finfo) w else (OK, w))"

definition sivfs_open_direct_access :: "anon_env \<Rightarrow> fs_world \<Rightarrow> rc \<times> u64 \<times> fs_world" where
  "sivfs_open_direct_access env w =
     (case ae_direct_open env of
        Inl e \<Rightarrow> (E e, 0, w)
      | Inr f \<Rightarrow> (OK, f, w\<lparr>fw_files := (fw_files w)(f \<mapsto> 1)\<rparr>))"

text \<open>The error label 2 of \<open>sivfs_anon_open\<close>: the information of the file holds the direct access file once it has been filled in.\<close>

definition open_error2 :: "rc \<Rightarrow> u64 \<Rightarrow> sivfs_file_info \<Rightarrow> fs_world \<Rightarrow> rc \<times> sivfs_file_info option \<times> fs_world" where
  "open_error2 r direct_access_file finfo w =
     (case fput direct_access_file w of
        (OK, w1) \<Rightarrow> (case sivfs_put_finfo finfo w1 of (OK, w2) \<Rightarrow> (r, None, w2) | (r2, w2) \<Rightarrow> (r2, None, w2))
      | (r1, w1) \<Rightarrow> (r1, None, w1))"

definition sivfs_anon_open :: "anon_env \<Rightarrow> u64 \<Rightarrow> u64 \<Rightarrow> fs_world \<Rightarrow> rc \<times> sivfs_file_info option \<times> fs_world" where
  "sivfs_anon_open env current a w =
     (if \<not> ae_finfo_ok env then (E ENOMEM, None, w)
      else case sivfs_open_direct_access env w of
        (OK, f, w1) \<Rightarrow>
          (case fw_state w1 current of
             None \<Rightarrow> open_error2 (E EPERM) f \<lparr>fi_state = 0, fi_direct_access_file = 0\<rparr> w1
           | Some state \<Rightarrow>
               (let finfo = \<lparr>fi_state = current, fi_direct_access_file = f\<rparr> in
                case fw_anon w1 a of
                  None \<Rightarrow> (UB, None, w1)
                | Some inode \<Rightarrow>
                    (case ai_info inode of
                       None \<Rightarrow> open_error2 OK f finfo w1
                     | Some iinfo \<Rightarrow>
                         (case anon_ref iinfo of
                            (OK, iinfo1) \<Rightarrow> (OK, Some finfo, set_info a (\<lambda>_. Some iinfo1) w1)
                          | (r, _) \<Rightarrow> open_error2 r f finfo w1))))
      | (r, _, w1) \<Rightarrow> (r, None, w1))"

definition sivfs_anon_release :: "nat \<Rightarrow> u64 \<Rightarrow> sivfs_file_info \<Rightarrow> fs_world \<Rightarrow> rc \<times> fs_world" where
  "sivfs_anon_release fuel a finfo w =
     (case sivfs_put_finfo finfo w of
        (OK, w1) \<Rightarrow>
          (case fw_anon w1 a of
             None \<Rightarrow> (UB, w1)
           | Some inode \<Rightarrow>
               (case ai_info inode of
                  None \<Rightarrow> (OK, w1)
                | Some iinfo \<Rightarrow> sivfs_put_anon_inode fuel (fi_state finfo) (ii_backing_ino iinfo) w1))
      | (r, w1) \<Rightarrow> (r, w1))"

text \<open>\<^verbatim>\<open>truncate_setsize\<close> sets the size and removes the pages and mappings behind it.\<close>

definition truncate_anon :: "u64 \<Rightarrow> u64 \<Rightarrow> fs_world \<Rightarrow> fs_world" where
  "truncate_anon a newsize w =
     w\<lparr>fw_anon_size := (fw_anon_size w)(a := newsize),
       fw_anon := (fw_anon w)(a := map_option (\<lambda>inode. inode\<lparr>
         ai_pages := filter (\<lambda>(p, _). unat p < (unat newsize + 4095) div 4096) (ai_pages inode),
         ai_ptes := (\<lambda>p. if unat p < (unat newsize + 4095) div 4096 then ai_ptes inode p else None)\<rparr>) (fw_anon w a))\<rparr>"

definition sivfs_set_attributes_txn_ts :: "u64 \<Rightarrow> u64 \<Rightarrow> fs_world \<Rightarrow> rc \<times> fs_world" where
  "sivfs_set_attributes_txn_ts task a w =
     (case fw_state w task of
        None \<Rightarrow> (UB, w)
      | Some state \<Rightarrow>
          if \<not> sivfs_in_txn state then (E EPERM, w)
          else (case Option.bind (fw_anon w a) ai_info of
                  None \<Rightarrow> (UB, w)
                | Some iinfo \<Rightarrow> (OK, truncate_anon a (fw_isize w (ii_backing_ino iinfo)) w)))"

definition sivfs_anon_mmap :: "bool \<Rightarrow> bool \<Rightarrow> u64 \<Rightarrow> sivfs_file_info \<Rightarrow> fs_world \<Rightarrow> rc \<times> fs_world" where
  "sivfs_anon_mmap vm_shared vm_write a finfo w =
     (if \<not> vm_shared \<and> vm_write then (E EINVAL, w) else sivfs_set_attributes_txn_ts (fi_state finfo) a w)"

section \<open>Selecting the anonymous inode of a file\<close>

definition sivfs_d_select_anon_inode :: "anon_env \<Rightarrow> u64 \<Rightarrow> u64 \<Rightarrow> fs_world \<Rightarrow> rc \<times> u64 \<times> fs_world" where
  "sivfs_d_select_anon_inode env current backing_ino w =
     (case fs_get_task_state (ce_fuel (ae_commit env)) current w of
        (OK, w1) \<Rightarrow>
          if fw_state w1 current = None then (E EPERM, 0, w1)
          else (case sivfs_get_anon_inode env (Some 0) current backing_ino (SIVFS_CREATE OR SIVFS_SKIP_REFCOUNT) w1 of
                  (OK, d, w2) \<Rightarrow>
                    (case Option.bind d (fw_dentries w2) of
                       None \<Rightarrow> (UB, 0, w2)
                     | Some de \<Rightarrow> (OK, d_inode de, fs_put_task_state (ce_fuel (ae_commit env)) current w2))
                | (r, _, w2) \<Rightarrow> (r, 0, fs_put_task_state (ce_fuel (ae_commit env)) current w2))
      | (r, w1) \<Rightarrow> (r, 0, w1))"

definition sivfs_d_select_inode :: "anon_env \<Rightarrow> bool \<Rightarrow> bool \<Rightarrow> u64 \<Rightarrow> u64 \<Rightarrow> u64 \<Rightarrow> fs_world \<Rightarrow> rc \<times> u64 \<times> fs_world" where
  "sivfs_d_select_inode env is_dir direct_access_creds current file_inode backing_ino w =
     (if is_dir then (OK, file_inode, w)
      else case (if direct_access_creds then (OK, file_inode, w)
                 else sivfs_d_select_anon_inode env current backing_ino w) of
        (OK, inode, w1) \<Rightarrow> if inode = 0 then (E ENOMEM, 0, w1) else (OK, inode, w1)
      | (r, _, w1) \<Rightarrow> (r, 0, w1))"

record real_args =
  ra_is_dir :: bool
  ra_is_negative :: bool
  ra_has_sb :: bool
  ra_dentry :: u64
  ra_d_inode :: u64
  ra_backing_ino :: u64
  ra_inode :: u64
  ra_open_flags :: u64
  ra_direct_access_creds :: bool

definition sivfs_d_real :: "anon_env \<Rightarrow> u64 \<Rightarrow> real_args \<Rightarrow> fs_world \<Rightarrow> rc \<times> u64 option \<times> fs_world" where
  "sivfs_d_real env current ra w =
     (if ra_is_dir ra then
        if ra_inode ra = 0 \<or> ra_inode ra = ra_d_inode ra then (OK, Some (ra_dentry ra), w) else (E EINVAL, None, w)
      else if ra_direct_access_creds ra then (OK, Some (ra_dentry ra), w)
      else if ra_is_negative ra then (E EINVAL, None, w)
      else if ra_open_flags ra \<noteq> 0 \<and> ra_inode ra \<noteq> 0 then (E EINVAL, None, w)
      else if \<not> ra_has_sb ra then (E EINVAL, None, w)
      else case fs_get_task_state (ce_fuel (ae_commit env)) current w of
        (OK, w1) \<Rightarrow>
          if fw_state w1 current = None then (E EPERM, None, w1)
          else (case sivfs_get_anon_inode env (Some 0) current (ra_backing_ino ra) (SIVFS_CREATE OR SIVFS_SKIP_REFCOUNT) w1 of
                  (OK, d, w2) \<Rightarrow> (OK, d, fs_put_task_state (ce_fuel (ae_commit env)) current w2)
                | (r, _, w2) \<Rightarrow> (r, None, fs_put_task_state (ce_fuel (ae_commit env)) current w2))
      | (r, w1) \<Rightarrow> (r, None, w1))"

section \<open>The end of a task\<close>

definition ANON_DELETE_BATCH :: nat where
  "ANON_DELETE_BATCH = 16"

text \<open>
  A round of the loop collects the indices of at most 16 anonymous inodes that were never opened and puts them.  \<open>E EINVAL\<close> stands for an
  assertion that fails, where the function returns.  Every round removes an inode, so that the number of dentries bounds the rounds.
\<close>

fun unreferenced_batch :: "fs_world \<Rightarrow> nat \<Rightarrow> u64 rt \<Rightarrow> rc \<times> u64 list" where
  "unreferenced_batch w n [] = (OK, [])"
| "unreferenced_batch w n ((index, d) # ds) =
     (if n = 0 then (OK, [])
      else if d = 0 then (E EINVAL, [])
      else case fw_dentries w d of
        None \<Rightarrow> (UB, [])
      | Some de \<Rightarrow>
          if d_inode de = 0 then (E EINVAL, [])
          else (case fw_anon w (d_inode de) of
             None \<Rightarrow> (UB, [])
           | Some inode \<Rightarrow>
               (case ai_info inode of
                  None \<Rightarrow> (E EINVAL, [])
                | Some iinfo \<Rightarrow>
                    if ii_refcount iinfo \<noteq> SIVFS_UNREFERENCED then unreferenced_batch w n ds
                    else (case unreferenced_batch w (n - 1) ds of (r, is) \<Rightarrow> (r, index # is)))))"

fun put_batch :: "nat \<Rightarrow> u64 \<Rightarrow> u64 list \<Rightarrow> fs_world \<Rightarrow> rc \<times> fs_world" where
  "put_batch fuel task [] w = (OK, w)"
| "put_batch fuel task (index # is) w =
     (case sivfs_put_anon_inode fuel task index w of
        (OK, w1) \<Rightarrow>
          (case fw_state w1 task of
             None \<Rightarrow> (UB, w1)
           | Some state \<Rightarrow>
               if radix_tree_lookup (anon_dentries (st_workingset state)) index \<noteq> None then (E EINVAL, w1)
               else put_batch fuel task is w1)
      | (r, w1) \<Rightarrow> (r, w1))"

fun mm_release_loop :: "nat \<Rightarrow> nat \<Rightarrow> u64 \<Rightarrow> u64 \<Rightarrow> fs_world \<Rightarrow> rc \<times> fs_world" where
  "mm_release_loop 0 fuel task index w = (HANG, w)"
| "mm_release_loop (Suc rounds) fuel task index w =
     (case unreferenced_batch w ANON_DELETE_BATCH (rt_from (anon_dentries (fw_ws w task)) index) of
        (OK, indices) \<Rightarrow>
          if indices = [] then (OK, w)
          else (case put_batch fuel task indices w of
                  (OK, w1) \<Rightarrow> mm_release_loop rounds fuel task (last indices + 1) w1
                | (r, w1) \<Rightarrow> (r, w1))
      | (r, _) \<Rightarrow> (r, w))"

definition sivfs_mm_release :: "nat \<Rightarrow> u64 \<Rightarrow> fs_world \<Rightarrow> rc \<times> fs_world" where
  "sivfs_mm_release fuel task w =
     (case fw_state w task of
        None \<Rightarrow> (UB, w)
      | Some state \<Rightarrow>
          (case mm_release_loop (length (anon_dentries (st_workingset state)) + 1) fuel task 0 w of
             (OK, w1) \<Rightarrow>
               (case fw_state w1 task of
                  None \<Rightarrow> (UB, w1)
                | Some state1 \<Rightarrow>
                    (OK, fs_put_task_state fuel task
                           (set_fw_state task (state1\<lparr>notifier_registered := False\<rparr>) w1)))
           | (r, w1) \<Rightarrow> (r, w1)))"

end
