(* ===== verification/Anon_Refs.thy ===== *)
theory Anon_Refs
  imports Anon_Inodes
begin

text \<open>
  The references of anonymous inodes and task states are exact.  \<open>task_wf held cnt task w\<close> says that the reference count of the
  state is the number of its anonymous inodes, one for the notifier and \<open>held\<close> for the callers, and that the count of every
  anonymous inode is the number \<open>cnt\<close> of files open on it.  Each operation has a lemma on how it changes \<open>held\<close> and
  \<open>cnt\<close>; the steps of a task then keep the invariant by rule induction.
\<close>

section \<open>Projections of the world\<close>

lemma fw_state_set [simp]: "fw_state (set_fw_state task s w) t = (if t = task then Some s else fw_state w t)"
  by (simp add: fw_state_def set_fw_state_def sivfs_task_to_state_def radix_tree_lookup_def)

lemma fw_state_frame [simp]:
  "fw_state (w\<lparr>fw_anon := h\<rparr>) t = fw_state w t" "fw_state (w\<lparr>fw_dentries := ds\<rparr>) t = fw_state w t"
  "fw_state (w\<lparr>fw_files := fs\<rparr>) t = fw_state w t" "fw_state (set_info a f w) t = fw_state w t"
  "fw_state (iput a w) t = fw_state w t" "fw_state (set_fw_kernel k w) t = fw_state w t"
  by (simp_all add: fw_state_def set_info_def iput_def set_fw_kernel_def sivfs_task_to_state_def)

lemma fw_anon_frame [simp]:
  "fw_anon (set_fw_state t s w) = fw_anon w" "fw_anon (iput a w) = (fw_anon w)(a := None)"
  "fw_anon (fs_put_task_state fuel t w) = fw_anon w" "fw_anon (upd_ws t f w) = fw_anon w"
  "fw_anon (set_fw_kernel k w) = k_anon k"
  by (simp_all add: set_fw_state_def iput_def fs_put_task_state_def upd_ws_def set_fw_kernel_def split: option.splits)

lemma fw_dentries_frame [simp]:
  "fw_dentries (set_fw_state t s w) = fw_dentries w" "fw_dentries (iput a w) = fw_dentries w"
  "fw_dentries (fs_put_task_state fuel t w) = fw_dentries w" "fw_dentries (upd_ws t f w) = fw_dentries w"
  "fw_dentries (set_info a g w) = fw_dentries w" "fw_dentries (set_fw_kernel k w) = fw_dentries w"
  by (simp_all add: set_fw_state_def iput_def fs_put_task_state_def upd_ws_def set_info_def set_fw_kernel_def split: option.splits)

definition threads_inv :: "fs_world \<Rightarrow> bool" where
  "threads_inv w \<longleftrightarrow> rt_inv (tw_threads (fw_tasks w))"

lemma threads_inv_frame [simp]:
  "threads_inv w \<Longrightarrow> threads_inv (set_fw_state t s w)" "threads_inv (iput a w) = threads_inv w"
  "threads_inv (set_info a g w) = threads_inv w" "threads_inv (set_fw_kernel k w) = threads_inv w"
  "threads_inv (w\<lparr>fw_anon := h\<rparr>) = threads_inv w" "threads_inv (w\<lparr>fw_dentries := ds\<rparr>) = threads_inv w"
  "threads_inv (w\<lparr>fw_files := fs\<rparr>) = threads_inv w"
  by (simp_all add: threads_inv_def set_fw_state_def iput_def set_info_def set_fw_kernel_def)

section \<open>Well-formed tasks\<close>

definition open_count :: "nat \<Rightarrow> int" where
  "open_count n = (if n = 0 then SIVFS_UNREFERENCED else int n)"

definition ws_wf :: "(u64 \<Rightarrow> nat) \<Rightarrow> u64 \<Rightarrow> sivfs_workingset \<Rightarrow> anon_heap \<Rightarrow> (u64 \<Rightarrow> dentry option) \<Rightarrow> bool" where
  "ws_wf cnt task ws h ds \<longleftrightarrow>
     rt_inv (anon_inodes ws) \<and> rt_inv (anon_dentries ws) \<and> map fst (anon_inodes ws) = map fst (anon_dentries ws) \<and>
     (\<forall>ino a. radix_tree_lookup (anon_inodes ws) ino = Some a \<longrightarrow> a \<noteq> 0 \<and> anon_key (h a) = Some (Some (ino, task, open_count (cnt a)))) \<and>
     (\<forall>ino d. radix_tree_lookup (anon_dentries ws) ino = Some d \<longrightarrow>
        d \<noteq> 0 \<and> (\<exists>a. radix_tree_lookup (anon_inodes ws) ino = Some a \<and> ds d = Some \<lparr>d_inode = a, d_count = 1\<rparr>))"

fun key_wf :: "nat \<Rightarrow> (u64 \<Rightarrow> nat) \<Rightarrow> u64 \<Rightarrow> int \<times> bool \<times> sivfs_workingset \<times> u64 \<Rightarrow> anon_heap \<Rightarrow> (u64 \<Rightarrow> dentry option) \<Rightarrow> bool" where
  "key_wf held cnt task (n, notif, ws, _) h ds \<longleftrightarrow>
     n = int (length (anon_inodes ws)) + of_bool notif + int held \<and> 0 < n \<and> ws_wf cnt task ws h ds"

definition task_wf :: "nat \<Rightarrow> (u64 \<Rightarrow> nat) \<Rightarrow> u64 \<Rightarrow> fs_world \<Rightarrow> bool" where
  "task_wf held cnt task w \<longleftrightarrow> threads_inv w \<and>
     (case fw_state w task of
        None \<Rightarrow> held = 0
      | Some state \<Rightarrow> key_wf held cnt task (state_key state) (fw_anon w) (fw_dentries w))"

lemma ws_wf_keys: "ws_wf cnt task ws h ds \<Longrightarrow> same_keys h h' \<Longrightarrow> ws_wf cnt task ws h' ds"
  by (simp add: ws_wf_def same_keys_def)

lemma empty_ws_wf: "ws_wf cnt task sivfs_init_workingset h ds"
  by (simp add: ws_wf_def sivfs_init_workingset_def radix_tree_lookup_def)

section \<open>References\<close>

lemma update_stats_loop_keys:
  "update_stats_loop stats threads = (stats', threads') \<Longrightarrow>
   map (\<lambda>(i, s). (i, state_key s)) threads' = map (\<lambda>(i, s). (i, state_key s)) threads"
proof (induction threads arbitrary: stats stats' threads')
  case (Cons t ts)
  obtain i s where t: "t = (i, s)" by fastforce
  obtain s1 st1 where u: "update_stats_one stats s = (s1, st1)" by fastforce
  obtain s2 ts2 where l: "update_stats_loop s1 ts = (s2, ts2)" by fastforce
  have "state_key st1 = state_key s" using u by (auto simp: update_stats_one_def Let_def state_key_def)
  then show ?case using Cons.prems Cons.IH [OF l] t u l by auto
qed simp

lemma task_alloc_threads: "task_alloc tw = (b, tw') \<Longrightarrow> tw_threads tw' = tw_threads tw"
  by (auto simp: task_alloc_def split: list.splits)

lemma get_task_state_cases:
  assumes "sivfs_get_task_state fuel tw task = (r, tw')"
  obtains (held) s where "radix_tree_lookup (tw_threads tw) task = Some s" "r = OK"
      "tw_threads tw' = rt_ins task (s\<lparr>nref := nref s + 1\<rparr>) (tw_threads tw)"
  | (new) "radix_tree_lookup (tw_threads tw) task = None" "r = OK"
      "tw_threads tw' = rt_ins task (fresh_state\<lparr>t_owner := task\<rparr>) (tw_threads tw)"
  | (failed) "radix_tree_lookup (tw_threads tw) task = None" "r \<noteq> OK" "tw_threads tw' = tw_threads tw"
proof (cases "radix_tree_lookup (tw_threads tw) task")
  case None
  obtain b1 w1 where 1: "task_alloc tw = (b1, w1)" by fastforce
  obtain b2 w2 where 2: "task_alloc w1 = (b2, w2)" by fastforce
  note th = task_alloc_threads [OF 1] task_alloc_threads [OF 2]
  have "(r = OK \<and> tw_threads tw' = rt_ins task (fresh_state\<lparr>t_owner := task\<rparr>) (tw_threads tw)) \<or>
      (r \<noteq> OK \<and> tw_threads tw' = tw_threads tw)"
    using assms None 1 2 th
    by (auto simp: sivfs_get_task_state_def sivfs_new_state_def radix_tree_insert_def Let_def split: if_splits prod.splits)
  then show thesis using None new failed by blast
next
  case (Some s)
  then show thesis using assms held [of s] by (auto simp: sivfs_get_task_state_def)
qed

lemma put_task_state_cases:
  assumes "radix_tree_lookup (tw_threads tw) task = Some s"
  shows "nref s \<noteq> 1 \<Longrightarrow> tw_threads (sivfs_put_task_state fuel tw task) = rt_ins task (s\<lparr>nref := nref s - 1\<rparr>) (tw_threads tw)"
    and "nref s = 1 \<Longrightarrow> rt_inv (tw_threads tw) \<Longrightarrow>
      radix_tree_lookup (tw_threads (sivfs_put_task_state fuel tw task)) task = None \<and>
      rt_inv (tw_threads (sivfs_put_task_state fuel tw task))"
proof -
  show "tw_threads (sivfs_put_task_state fuel tw task) = rt_ins task (s\<lparr>nref := nref s - 1\<rparr>) (tw_threads tw)" if "nref s \<noteq> 1"
    using assms that by (simp add: sivfs_put_task_state_def)
next
  assume one: "nref s = 1" and inv: "rt_inv (tw_threads tw)"
  let ?t = "rt_ins task (s\<lparr>nref := 0\<rparr>) (tw_threads tw)"
  obtain st t' where u: "update_stats_loop (tw_stats tw) ?t = (st, t')" by fastforce
  have "rt_inv t'" using update_stats_loop_total [OF u] rt_inv_ins [OF inv] unfolding rt_inv_def by simp
  moreover have "tw_threads (sivfs_put_task_state fuel tw task) = radix_tree_delete t' task"
    using assms one u by (simp add: sivfs_put_task_state_def sivfs_update_stats_def)
  ultimately show "radix_tree_lookup (tw_threads (sivfs_put_task_state fuel tw task)) task = None \<and>
      rt_inv (tw_threads (sivfs_put_task_state fuel tw task))"
    by simp
qed

lemma fw_state_lookup: "fw_state w task = radix_tree_lookup (tw_threads (fw_tasks w)) task"
  by (simp add: fw_state_def sivfs_task_to_state_def)

lemma get_task_state_wf:
  assumes "task_wf held cnt task w" and "fs_get_task_state fuel task w = (r, w')"
  shows "fw_anon w' = fw_anon w" "fw_dentries w' = fw_dentries w" "fw_files w' = fw_files w" "fw_ws w' task = fw_ws w task"
    "task_wf (if r = OK then Suc held else held) cnt task w'" "r = OK \<Longrightarrow> fw_state w' task \<noteq> None"
proof -
  obtain tw where g: "sivfs_get_task_state fuel (fw_tasks w) task = (r, tw)" and w': "w' = w\<lparr>fw_tasks := tw\<rparr>"
    using assms(2) by (auto simp: fs_get_task_state_def split: prod.splits)
  then show "fw_anon w' = fw_anon w" "fw_dentries w' = fw_dentries w" "fw_files w' = fw_files w" by simp_all
  note defs = task_wf_def threads_inv_def fw_state_lookup fw_ws_def w'
  have "fw_ws w' task = fw_ws w task \<and> task_wf (if r = OK then Suc held else held) cnt task w' \<and> (r = OK \<longrightarrow> fw_state w' task \<noteq> None)"
    using g
  proof (cases rule: get_task_state_cases)
    case (held s)
    then show ?thesis using assms(1) by (simp add: defs state_key_def radix_tree_lookup_def)
  next
    case new
    then show ?thesis using assms(1) empty_ws_wf
      by (simp add: defs state_key_def radix_tree_lookup_def fresh_state_def) (simp add: sivfs_init_workingset_def)
  next
    case failed
    then show ?thesis using assms(1) by (simp add: defs)
  qed
  then show "fw_ws w' task = fw_ws w task" "task_wf (if r = OK then Suc held else held) cnt task w'" "r = OK \<Longrightarrow> fw_state w' task \<noteq> None"
    by blast+
qed

lemma put_task_state_wf:
  assumes "task_wf (Suc held) cnt task w"
  shows "task_wf held cnt task (fs_put_task_state fuel task w)" "fw_ws (fs_put_task_state fuel task w) task = fw_ws w task"
proof -
  obtain s where s: "radix_tree_lookup (tw_threads (fw_tasks w)) task = Some s"
    using assms by (auto simp: task_wf_def fw_state_lookup split: option.splits)
  note defs = task_wf_def threads_inv_def fw_state_lookup fw_ws_def fs_put_task_state_def
  have k: "rt_inv (tw_threads (fw_tasks w))" "nref s = int (length (anon_inodes (st_workingset s))) + of_bool (notifier_registered s) + int (Suc held)"
    "ws_wf cnt task (st_workingset s) (fw_anon w) (fw_dentries w)"
    using assms s by (simp_all add: defs state_key_def)
  have "task_wf held cnt task (fs_put_task_state fuel task w) \<and> fw_ws (fs_put_task_state fuel task w) task = fw_ws w task"
  proof (cases "nref s = 1")
    case True
    have "(0::int) \<le> of_bool (notifier_registered s)" by simp
    then have "int (length (anon_inodes (st_workingset s))) = 0" "int held = 0" using k(2) True by linarith+
    then have "anon_inodes (st_workingset s) = []" "held = 0" by simp_all
    moreover from this have "anon_dentries (st_workingset s) = []" using k(3) by (simp add: ws_wf_def)
    moreover note put_task_state_cases(2) [OF s True k(1), of fuel]
    ultimately show ?thesis using s
      by (simp add: defs) (simp add: sivfs_init_workingset_def)
  next
    case False
    then show ?thesis using put_task_state_cases(1) [OF s False, of fuel] s k
      by (cases "notifier_registered s") (simp_all add: defs state_key_def radix_tree_lookup_def)
  qed
  then show "task_wf held cnt task (fs_put_task_state fuel task w)" "fw_ws (fs_put_task_state fuel task w) task = fw_ws w task" by blast+
qed


definition fw_notif :: "fs_world \<Rightarrow> u64 \<Rightarrow> bool" where
  "fw_notif w task \<longleftrightarrow> (\<exists>s. fw_state w task = Some s \<and> notifier_registered s)"

lemma put_task_state_notif:
  assumes "task_wf (Suc held) cnt task w" and "fw_notif w task"
  shows "fw_notif (fs_put_task_state fuel task w) task"
proof -
  obtain s where s: "radix_tree_lookup (tw_threads (fw_tasks w)) task = Some s" "notifier_registered s"
    using assms(2) by (auto simp: fw_notif_def fw_state_lookup)
  then have "nref s \<noteq> 1" using assms(1) by (simp add: task_wf_def fw_state_lookup state_key_def)
  from put_task_state_cases(1) [OF s(1) this] show ?thesis
    using s(2) by (simp add: fw_notif_def fw_state_lookup fs_put_task_state_def radix_tree_lookup_def)
qed

lemma put_task_state_notifD:
  assumes "task_wf (Suc held) cnt task w" and "fw_notif (fs_put_task_state fuel task w) task"
  shows "fw_notif w task"
proof -
  obtain s where s: "radix_tree_lookup (tw_threads (fw_tasks w)) task = Some s" and inv: "rt_inv (tw_threads (fw_tasks w))"
    using assms(1) by (auto simp: task_wf_def threads_inv_def fw_state_lookup split: option.splits)
  show ?thesis using put_task_state_cases [OF s, of fuel] inv assms(2) s
    by (cases "nref s = 1") (auto simp: fw_notif_def fw_state_lookup fs_put_task_state_def radix_tree_lookup_def)
qed

section \<open>The trees of a working set\<close>

lemma rt_ins_keys: "map fst t = map fst u \<Longrightarrow> map fst (rt_ins i v t) = map fst (rt_ins i x u)"
proof (induction t arbitrary: u)
  case (Cons p t)
  then show ?case by (cases u; cases p; cases "hd u") auto
qed simp

lemma rt_ins_length: "radix_tree_lookup t i = None \<Longrightarrow> length (rt_ins i v t) = Suc (length t)"
  by (induction i v t rule: rt_ins.induct) (auto simp: radix_tree_lookup_def split: if_splits)

lemma rt_delete_absent: "radix_tree_lookup t i = None \<Longrightarrow> radix_tree_delete t i = t"
  by (induction t) (auto simp: radix_tree_lookup_def radix_tree_delete_def split: if_splits)

lemma rt_delete_length: "rt_inv t \<Longrightarrow> radix_tree_lookup t i = Some v \<Longrightarrow> length t = Suc (length (radix_tree_delete t i))"
proof (induction t)
  case (Cons p t)
  obtain j x where p: "p = (j, x)" by fastforce
  show ?case
  proof (cases "j = i")
    case True
    then have "radix_tree_lookup t i = None" using Cons.prems(1) p by (fastforce simp: radix_tree_lookup_def map_of_eq_None_iff)
    then show ?thesis using rt_delete_absent [of t i] True p by (simp add: radix_tree_delete_def)
  next
    case False
    then show ?thesis using Cons p by (simp add: radix_tree_delete_def radix_tree_lookup_def)
  qed
qed (simp add: radix_tree_lookup_def)

lemma lookup_keys: "map fst t = map fst u \<Longrightarrow> radix_tree_lookup t i = None \<longleftrightarrow> radix_tree_lookup u i = None"
  by (metis list.set_map map_of_eq_None_iff radix_tree_lookup_def)

lemma lookup_ins [simp]: "radix_tree_lookup (rt_ins i v t) = (radix_tree_lookup t)(i \<mapsto> v)"
  by (simp add: radix_tree_lookup_def fun_eq_iff)

lemma ws_wf_lookup:
  assumes "ws_wf cnt task ws h ds"
  shows "radix_tree_lookup (anon_inodes ws) ino = None \<longleftrightarrow> radix_tree_lookup (anon_dentries ws) ino = None"
    and "radix_tree_lookup (anon_inodes ws) ino = Some a \<Longrightarrow> anon_key (h a) = Some (Some (ino, task, open_count (cnt a)))"
    and "radix_tree_lookup (anon_dentries ws) ino = Some d \<Longrightarrow>
      \<exists>a. radix_tree_lookup (anon_inodes ws) ino = Some a \<and> ds d = Some \<lparr>d_inode = a, d_count = 1\<rparr>"
  using assms lookup_keys [of "anon_inodes ws" "anon_dentries ws" ino] by (auto simp: ws_wf_def)

lemma ws_wf_insert:
  assumes "ws_wf cnt task ws h ds" and "radix_tree_lookup (anon_inodes ws) ino = None" and "a \<noteq> 0" and "d \<noteq> 0"
    and "anon_key (h a) = Some (Some (ino, task, open_count (cnt a)))" and "ds d = Some \<lparr>d_inode = a, d_count = 1\<rparr>"
  shows "ws_wf cnt task (ws\<lparr>anon_inodes := rt_ins ino a (anon_inodes ws), anon_dentries := rt_ins ino d (anon_dentries ws)\<rparr>) h ds"
  using assms unfolding ws_wf_def by (auto intro: rt_ins_keys)

lemma ws_wf_delete:
  assumes "ws_wf cnt task ws h ds" and "radix_tree_lookup (anon_inodes ws) ino = Some a"
    and "radix_tree_lookup (anon_dentries ws) ino = Some d" and "\<And>b. b \<noteq> a \<Longrightarrow> cnt' b = cnt b"
  shows "ws_wf cnt' task (ws\<lparr>anon_inodes := radix_tree_delete (anon_inodes ws) ino,
    anon_dentries := radix_tree_delete (anon_dentries ws) ino\<rparr>) (h(a := x)) (ds(d := y))"
proof -
  have "b \<noteq> a" if "radix_tree_lookup (anon_inodes ws) j = Some b" "j \<noteq> ino" for j b
    using ws_wf_lookup(2) [OF assms(1) that(1)] ws_wf_lookup(2) [OF assms(1,2)] that(2) by auto
  moreover have "e \<noteq> d" if "radix_tree_lookup (anon_dentries ws) j = Some e" "j \<noteq> ino" for j e
    using ws_wf_lookup(3) [OF assms(1) that(1)] ws_wf_lookup(3) [OF assms(1,3)] calculation that(2) assms(2) by fastforce
  ultimately show ?thesis using assms unfolding ws_wf_def by (auto simp: rt_delete_keys)
qed

lemma ws_wf_other_dentry:
  assumes "ws_wf cnt task ws h ds" and "d \<notin> snd ` set (anon_dentries ws)"
  shows "ws_wf cnt task ws h (ds(d := y))"
proof -
  have "e \<noteq> d" if "radix_tree_lookup (anon_dentries ws) j = Some e" for j e
    using that assms(2) by (force simp: radix_tree_lookup_def dest: map_of_SomeD)
  then show ?thesis using assms(1) unfolding ws_wf_def by auto
qed

lemma ws_wf_count:
  assumes "ws_wf cnt task ws h ds" and "radix_tree_lookup (anon_inodes ws) ino = Some a"
    and "anon_key x = Some (Some (ino, task, open_count n))"
  shows "ws_wf (cnt(a := n)) task ws (h(a := x)) ds"
proof -
  have "j = ino" if "radix_tree_lookup (anon_inodes ws) j = Some a" for j
    using ws_wf_lookup(2) [OF assms(1) that] ws_wf_lookup(2) [OF assms(1,2)] by simp
  then have "b \<noteq> 0 \<and> anon_key ((h(a := x)) b) = Some (Some (j, task, open_count ((cnt(a := n)) b)))"
    if "radix_tree_lookup (anon_inodes ws) j = Some b" for j b
    using assms(1,3) that unfolding ws_wf_def by (cases "b = a") simp_all
  then show ?thesis using assms(1) unfolding ws_wf_def by blast
qed

lemma ws_wf_fresh:
  assumes "ws_wf cnt task ws h ds" and "h a = None"
  shows "a \<notin> snd ` set (anon_inodes ws)"
proof
  assume "a \<in> snd ` set (anon_inodes ws)"
  then obtain j where "(j, a) \<in> set (anon_inodes ws)" by force
  then have "radix_tree_lookup (anon_inodes ws) j = Some a"
    using assms(1) rt_inv_distinct [of "anon_inodes ws"] by (simp add: ws_wf_def radix_tree_lookup_def)
  then show False using ws_wf_lookup(2) [OF assms(1)] assms(2) by (fastforce simp: anon_key_def)
qed

lemma ws_wf_fresh_dentry:
  assumes "ws_wf cnt task ws h ds" and "ds d = None"
  shows "d \<notin> snd ` set (anon_dentries ws)"
proof
  assume "d \<in> snd ` set (anon_dentries ws)"
  then obtain j where "(j, d) \<in> set (anon_dentries ws)" by force
  then have "radix_tree_lookup (anon_dentries ws) j = Some d"
    using assms(1) rt_inv_distinct [of "anon_dentries ws"] by (simp add: ws_wf_def radix_tree_lookup_def)
  then show False using ws_wf_lookup(3) [OF assms(1)] assms(2) by fastforce
qed


section \<open>Creating an anonymous inode\<close>

lemma task_wf_state:
  assumes "task_wf held cnt task w" and "fw_state w task = Some s"
  shows "threads_inv w" "nref s = int (length (anon_inodes (st_workingset s))) + of_bool (notifier_registered s) + int held"
    "0 < nref s" "ws_wf cnt task (st_workingset s) (fw_anon w) (fw_dentries w)" "fw_ws w task = st_workingset s"
  using assms by (simp_all add: task_wf_def state_key_def fw_ws_def)

lemma task_wf_same:
  assumes "task_wf held cnt task w" and "threads_inv w'" and "fw_state w' task = fw_state w task"
    and "ws_wf cnt task (fw_ws w task) (fw_anon w) (fw_dentries w) \<Longrightarrow> ws_wf cnt' task (fw_ws w task) (fw_anon w') (fw_dentries w')"
  shows "task_wf held cnt' task w'"
  using assms by (auto simp: task_wf_def fw_ws_def state_key_def split: option.splits)

lemma register_notifier_wf:
  assumes "task_wf (Suc held) cnt task w" and "register_notifier env task w = (r, w')"
  shows "task_wf (Suc held) cnt task w'" "fw_anon w' = fw_anon w" "fw_dentries w' = fw_dentries w" "fw_files w' = fw_files w"
    "fw_ws w' task = fw_ws w task"
proof -
  obtain s where s: "fw_state w task = Some s" using assms(1) by (auto simp: task_wf_def split: option.splits)
  obtain r1 w1 where g: "fs_get_task_state (ce_fuel (ae_commit env)) task w = (r1, w1)" by fastforce
  note g' = get_task_state_wf [OF assms(1) g]
  have "task_wf (Suc held) cnt task w' \<and> fw_anon w' = fw_anon w \<and> fw_dentries w' = fw_dentries w \<and> fw_files w' = fw_files w \<and>
    fw_ws w' task = fw_ws w task"
  proof (cases "r1 = OK")
    case False
    then show ?thesis using assms g g' s by (cases r1) (auto simp: register_notifier_def split: if_splits)
  next
    case True
    obtain s1 where s1: "fw_state w1 task = Some s1" using g'(6) True by auto
    have wf1: "task_wf (Suc (Suc held)) cnt task w1" using g'(5) True by simp
    note k1 = task_wf_state [OF wf1 s1]
    have reg: "notifier_registered s1 = notifier_registered s"
      using g s s1 True unfolding fw_state_lookup fs_get_task_state_def
      by (auto elim!: get_task_state_cases split: prod.splits)
    have "task_wf (Suc held) cnt task (set_fw_state task (s1\<lparr>notifier_registered := True\<rparr>) w1)" if "\<not> notifier_registered s"
      using k1 that reg by (simp add: task_wf_def state_key_def)
    moreover have "fw_ws (set_fw_state task (s1\<lparr>notifier_registered := True\<rparr>) w1) task = fw_ws w task"
      using k1(5) g'(4) by (simp add: fw_ws_def)
    moreover have "fw_files (set_fw_state task s2 w1) = fw_files w" "fw_files (fs_put_task_state n task w1) = fw_files w" for s2 n
      using g'(3) by (simp_all add: set_fw_state_def fs_put_task_state_def)
    moreover note put_task_state_wf [OF wf1]
    ultimately show ?thesis using assms g g' s s1 True
      by (auto simp: register_notifier_def split: if_splits)
  qed
  then show "task_wf (Suc held) cnt task w'" "fw_anon w' = fw_anon w" "fw_dentries w' = fw_dentries w" "fw_files w' = fw_files w"
    "fw_ws w' task = fw_ws w task" by blast+
qed

text \<open>The allocators of the kernel return memory that is not in use.\<close>

definition fresh_env :: "anon_env \<Rightarrow> (u64 \<Rightarrow> nat) \<Rightarrow> fs_world \<Rightarrow> bool" where
  "fresh_env env cnt w \<longleftrightarrow>
     (\<forall>a. ae_new_inode env = Some a \<longrightarrow> a \<noteq> 0 \<and> fw_anon w a = None \<and> cnt a = 0) \<and>
     (\<forall>d. ae_dentry env = Some d \<longrightarrow> d \<noteq> 0 \<and> fw_dentries w d = None)"

lemma ws_wf_other_inode:
  assumes "ws_wf cnt task ws h ds" and "a \<notin> snd ` set (anon_inodes ws)"
  shows "ws_wf cnt task ws (h(a := x)) ds"
proof -
  have "b \<noteq> a" if "radix_tree_lookup (anon_inodes ws) j = Some b" for j b
    using that assms(2) by (force simp: radix_tree_lookup_def dest: map_of_SomeD)
  then show ?thesis using assms(1) unfolding ws_wf_def by auto
qed

lemma create_anon_inode_wf:
  assumes "task_wf (Suc held) cnt task w" and "fresh_env env cnt w"
    and "sivfs_create_anon_inode env ino task w = (r, a, w')"
  shows "task_wf (Suc held) cnt task w' \<and> fw_ws w' task = fw_ws w task \<and> fw_dentries w' = fw_dentries w \<and> fw_files w' = fw_files w \<and>
    (r = OK \<longrightarrow> ae_new_inode env = Some a \<and>
      (\<exists>x. fw_anon w' = (fw_anon w)(a \<mapsto> x) \<and> ai_info x = Some (new_iinfo\<lparr>ii_backing_ino := ino, ii_state := task\<rparr>))) \<and>
    (r \<noteq> OK \<longrightarrow> fw_anon w' = fw_anon w)"
proof -
  obtain s where s: "fw_state w task = Some s" using assms(1) by (auto simp: task_wf_def split: option.splits)
  note k = task_wf_state [OF assms(1) s]
  show ?thesis
  proof (cases "ae_new_inode env")
    case None
    then show ?thesis using assms by (auto simp: sivfs_create_anon_inode_def sivfs_get_inode_def)
  next
    case (Some b)
    then have b: "b \<noteq> 0" "fw_anon w b = None" using assms(2) by (simp_all add: fresh_env_def)
    have undo: "iput b w = w" using b(2) by (simp add: iput_def fun_upd_idem)
    show ?thesis
    proof (cases "ae_iinfo_ok env")
      case False
      then show ?thesis using assms Some b undo
        by (auto simp: sivfs_create_anon_inode_def sivfs_get_inode_def sivfs_new_iinfo_def)
    next
      case True
      define x where "x = \<lparr>ai_info = Some new_iinfo, ai_pages = [], ai_ptes = (\<lambda>_. None)\<rparr>"
      define w1 where "w1 = w\<lparr>fw_anon := (fw_anon w)(b \<mapsto> x)\<rparr>"
      have get: "sivfs_get_inode env w = (b, w1)" using Some True by (simp add: sivfs_get_inode_def sivfs_new_iinfo_def w1_def x_def)
      have wfx: "ws_wf cnt task (fw_ws w task) ((fw_anon w)(b := y)) (fw_dentries w)" for y
        using ws_wf_other_inode [OF k(4) ws_wf_fresh [OF k(4) b(2)]] k(5) by simp
      have ws1: "fw_ws w1 task = fw_ws w task" "fw_anon w1 = (fw_anon w)(b \<mapsto> x)" "fw_dentries w1 = fw_dentries w" "fw_files w1 = fw_files w"
        by (simp_all add: w1_def fw_ws_def)
      have wf1: "task_wf (Suc held) cnt task w1"
        using assms(1) by (rule task_wf_same) (use k(1) wfx in \<open>simp_all add: w1_def\<close>)
      obtain r2 w2 where n: "register_notifier env task w1 = (r2, w2)" by fastforce
      note n' = register_notifier_wf [OF wf1 n, unfolded ws1]
      have later: "task_wf (Suc held) cnt task (w2\<lparr>fw_anon := (fw_anon w)(b := y)\<rparr>)" for y
        using n'(1) by (rule task_wf_same) (use n' wfx in \<open>simp_all add: task_wf_def ws1\<close>)
      have info: "set_info b f w2 = w2\<lparr>fw_anon := (fw_anon w)(b \<mapsto> x\<lparr>ai_info := f (Some new_iinfo)\<rparr>)\<rparr>" for f
        using n'(2) by (simp add: set_info_def x_def)
      have drop: "iput b w2 = w2\<lparr>fw_anon := (fw_anon w)(b := None)\<rparr>" using n'(2) by (simp add: iput_def)
      have ws2: "fw_ws (w2\<lparr>fw_anon := h\<rparr>) task = fw_ws w task" for h using n'(5) by (simp add: fw_ws_def)
      have same: "(fw_anon w)(b := None) = fw_anon w" using b(2) by (simp add: fun_upd_idem)
      show ?thesis
      proof (cases "r2 = OK")
        case True
        then have res: "r = OK" "a = b" "w' = w2\<lparr>fw_anon := (fw_anon w)(b \<mapsto> x\<lparr>ai_info := Some (new_iinfo\<lparr>ii_backing_ino := ino, ii_state := task\<rparr>)\<rparr>)\<rparr>"
          using assms(3) get n b(1) by (auto simp: sivfs_create_anon_inode_def info)
        show ?thesis unfolding res using Some later ws2 n'(3,4) by auto
      next
        case False
        then have res: "r = r2" "w' = w2\<lparr>fw_anon := (fw_anon w)(b := None)\<rparr>"
          using assms(3) get n b(1) by (cases r2; simp add: sivfs_create_anon_inode_def drop)+
        show ?thesis unfolding res using False later [of None] ws2 n'(3,4) same by simp
      qed
    qed
  qed
qed


lemma commit_update_wf:
  assumes "task_wf held cnt task w" and "fs_commit_update env options lw task w = (r, aborted, lw', w')"
  shows "task_wf held cnt task w'" "fw_ws w' task = fw_ws w task" "fw_dentries w' = fw_dentries w" "fw_files w' = fw_files w"
    "same_keys (fw_anon w) (fw_anon w')"
proof -
  have "task_wf held cnt task w' \<and> fw_ws w' task = fw_ws w task \<and> fw_dentries w' = fw_dentries w \<and> fw_files w' = fw_files w \<and>
    same_keys (fw_anon w) (fw_anon w')"
  proof (cases "fw_state w task")
    case None
    then show ?thesis using assms by (simp add: fs_commit_update_def)
  next
    case (Some s)
    obtain r1 c where c: "sivfs_commit_update env options lw s (fw_kernel w) = (r1, c)" by fastforce
    have w': "w' = set_fw_kernel (cr_kernel c) (set_fw_state task (cr_state c) w)"
      using assms(2) Some c by (simp add: fs_commit_update_def)
    have k: "same_keys (fw_anon w) (k_anon (cr_kernel c))" "state_key (cr_state c) = state_key s"
      using commit_update_keys [OF c] by (simp_all add: fw_kernel_def)
    note t = task_wf_state [OF assms(1) Some]
    have "fw_ws w' task = fw_ws w task" using k(2) t(5) by (simp add: w' fw_ws_def state_key_def)
    moreover have "task_wf held cnt task w'"
      using assms(1) Some k t(1) ws_wf_keys [OF t(4) k(1)] by (simp add: w' task_wf_def) (simp add: state_key_def)
    ultimately show ?thesis using k(1) by (simp add: w' set_fw_kernel_def set_fw_state_def)
  qed
  then show "task_wf held cnt task w'" "fw_ws w' task = fw_ws w task" "fw_dentries w' = fw_dentries w" "fw_files w' = fw_files w"
    "same_keys (fw_anon w) (fw_anon w')" by blast+
qed

section \<open>Adding and removing an anonymous inode\<close>

definition with_anon :: "u64 \<Rightarrow> u64 \<Rightarrow> u64 \<Rightarrow> sivfs_workingset \<Rightarrow> sivfs_workingset" where
  "with_anon ino a d ws =
     ws\<lparr>anon_inodes := rt_ins ino a (anon_inodes ws), anon_dentries := rt_ins ino d (anon_dentries ws)\<rparr>"

definition without_anon :: "u64 \<Rightarrow> sivfs_workingset \<Rightarrow> sivfs_workingset" where
  "without_anon ino ws =
     ws\<lparr>anon_inodes := radix_tree_delete (anon_inodes ws) ino, anon_dentries := radix_tree_delete (anon_dentries ws) ino\<rparr>"

lemma without_with:
  assumes "rt_inv (anon_inodes ws)" "rt_inv (anon_dentries ws)"
    and "radix_tree_lookup (anon_inodes ws) ino = None" "radix_tree_lookup (anon_dentries ws) ino = None"
  shows "without_anon ino (with_anon ino a d ws) = ws"
  using assms by (simp add: without_anon_def with_anon_def rt_delete_ins)

lemma fw_state_upd_ws: "fw_state (upd_ws task f w) t =
    (if t = task then map_option (\<lambda>s. s\<lparr>st_workingset := f (st_workingset s)\<rparr>) (fw_state w task) else fw_state w t)"
  by (simp add: upd_ws_def split: option.splits)

lemma upd_ws_frame [simp]: "fw_files (upd_ws task f w) = fw_files w" "threads_inv w \<Longrightarrow> threads_inv (upd_ws task f w)"
  "fw_files (set_info a g w) = fw_files w" "fw_files (fs_put_task_state fuel task w) = fw_files w" "fw_files (iput a w) = fw_files w"
  by (simp_all add: upd_ws_def set_fw_state_def set_info_def fs_put_task_state_def iput_def threads_inv_def split: option.splits)

lemma remove_anon_wf:
  assumes "task_wf held cnt task w" and "fw_state w task = Some s" and "fw_state w' task = Some (s\<lparr>st_workingset := without_anon ino (st_workingset s)\<rparr>)"
    and "radix_tree_lookup (anon_inodes (st_workingset s)) ino = Some a" and "radix_tree_lookup (anon_dentries (st_workingset s)) ino = Some d"
    and "fw_anon w' = (fw_anon w)(a := x)" and "fw_dentries w' = (fw_dentries w)(d := y)" and "threads_inv w'" and "\<And>b. b \<noteq> a \<Longrightarrow> cnt' b = cnt b"
  shows "task_wf (Suc held) cnt' task w'"
proof -
  note t = task_wf_state [OF assms(1,2)]
  have "length (anon_inodes (st_workingset s)) = Suc (length (radix_tree_delete (anon_inodes (st_workingset s)) ino))"
    using rt_delete_length [OF _ assms(4)] t(4) by (simp add: ws_wf_def)
  then show ?thesis using assms(3,6-8) t ws_wf_delete [OF t(4) assms(4,5), of cnt' x y, OF assms(9)]
    by (simp add: task_wf_def state_key_def without_anon_def)
qed

lemma dput_own:
  assumes "ws_wf cnt task ws (fw_anon w) (fw_dentries w)" and "radix_tree_lookup (anon_inodes ws) ino = Some a"
    and "radix_tree_lookup (anon_dentries ws) ino = Some d" and "fw_dentries w' = fw_dentries w"
  shows "dput d w' = w'\<lparr>fw_dentries := (fw_dentries w)(d := None), fw_anon := (fw_anon w')(a := None)\<rparr>"
  using ws_wf_lookup(3) [OF assms(1,3)] assms(2,4) by (auto simp: dput_def iput_def)

lemma undo_anon_wf:
  assumes "task_wf held cnt task w" and "fw_state w task = Some s"
    and "radix_tree_lookup (anon_inodes (st_workingset s)) ino = Some a" and "radix_tree_lookup (anon_dentries (st_workingset s)) ino = Some d"
    and "w' = fs_put_task_state fuel task (del_anon_inode task ino (dput d (del_anon_dentry task ino w)))"
  shows "task_wf held cnt task w' \<and> fw_ws w' task = without_anon ino (st_workingset s) \<and> fw_files w' = fw_files w \<and>
    fw_anon w' = (fw_anon w)(a := None) \<and> fw_dentries w' = (fw_dentries w)(d := None)"
proof -
  note t = task_wf_state [OF assms(1,2)]
  define w1 where "w1 = del_anon_dentry task ino w"
  have w1: "fw_state w1 task = Some (s\<lparr>st_workingset := (st_workingset s)\<lparr>anon_dentries := radix_tree_delete (anon_dentries (st_workingset s)) ino\<rparr>\<rparr>)"
    "fw_anon w1 = fw_anon w" "fw_dentries w1 = fw_dentries w" "fw_files w1 = fw_files w" "threads_inv w1"
    using assms(2) t(1) by (simp_all add: w1_def del_anon_dentry_def fw_state_upd_ws)
  define w2 where "w2 = del_anon_inode task ino (dput d w1)"
  have d: "dput d w1 = w1\<lparr>fw_dentries := (fw_dentries w)(d := None), fw_anon := (fw_anon w)(a := None)\<rparr>"
    using dput_own [OF t(4) assms(3,4) w1(3)] w1(2) by simp
  have w2: "fw_state w2 task = Some (s\<lparr>st_workingset := without_anon ino (st_workingset s)\<rparr>)"
    "fw_anon w2 = (fw_anon w)(a := None)" "fw_dentries w2 = (fw_dentries w)(d := None)" "fw_files w2 = fw_files w" "threads_inv w2"
    using w1 unfolding w2_def d by (simp_all add: del_anon_inode_def fw_state_upd_ws without_anon_def)
  have wf2: "task_wf (Suc held) cnt task w2" by (rule remove_anon_wf [OF assms(1,2) w2(1) assms(3,4) w2(2,3,5) refl])
  have "w' = fs_put_task_state fuel task w2" using assms(5) by (simp add: w2_def w1_def)
  then show ?thesis using put_task_state_wf [OF wf2, of fuel] w2 by (simp add: fw_ws_def)
qed


text \<open>The two outcomes of an attempt to add an anonymous inode: it is in the working set, or the working set is as it was.\<close>

definition anon_added ::
  "nat \<Rightarrow> (u64 \<Rightarrow> nat) \<Rightarrow> u64 \<Rightarrow> u64 \<Rightarrow> fs_world \<Rightarrow> rc \<times> u64 option \<times> fs_world \<Rightarrow> bool" where
  "anon_added held cnt task ino w res \<longleftrightarrow>
     (case res of (r, out, w') \<Rightarrow>
        task_wf held cnt task w' \<and> fw_files w' = fw_files w \<and>
        (r = OK \<and> (\<exists>d a. out = Some d \<and> d \<noteq> 0 \<and> fw_ws w' task = with_anon ino a d (fw_ws w task)) \<or>
         fw_ws w' task = fw_ws w task \<and> out = Some 0))"

lemma start_txn_wf:
  assumes "task_wf held cnt task w" and "fw_state w task \<noteq> None" and "fw_ws w task = with_anon ino a d ws" and "d \<noteq> 0"
    and "rt_inv (anon_inodes ws)" "rt_inv (anon_dentries ws)"
    and "radix_tree_lookup (anon_inodes ws) ino = None" "radix_tree_lookup (anon_dentries ws) ino = None"
    and "fw_ws w0 task = ws" and "fw_files w = fw_files w0"
  shows "anon_added held cnt task ino w0 (start_txn env task ino was_empty d w)"
proof (cases was_empty)
  case False
  then show ?thesis using assms by (simp add: start_txn_def anon_added_def) blast
next
  case True
  obtain r ab lw w1 where c: "fs_commit_update (ae_commit env) 0 None task w = (r, ab, lw, w1)" by (metis surj_pair)
  note k = commit_update_wf [OF assms(1) c]
  obtain s1 where s1: "fw_state w1 task = Some s1" using assms(2) c by (auto simp: fs_commit_update_def split: option.splits prod.splits)
  have ws1: "st_workingset s1 = with_anon ino a d ws" using k(2) assms(3) s1 by (simp add: fw_ws_def)
  let ?undo = "fs_put_task_state (ce_fuel (ae_commit env)) task (del_anon_inode task ino (dput d (del_anon_dentry task ino w1)))"
  have "task_wf held cnt task ?undo \<and> fw_ws ?undo task = ws \<and> fw_files ?undo = fw_files w1"
    using undo_anon_wf [OF k(1) s1 _ _ refl, of ino a d "ce_fuel (ae_commit env)"] ws1 without_with [OF assms(5-8)]
    by (simp add: with_anon_def)
  then show ?thesis using True c k assms(3,4,9,10) by (auto simp: start_txn_def anon_added_def Let_def)
qed

lemma insert_anon_wf:
  assumes "task_wf (Suc held) cnt task w" and "fw_anon w a = Some x" and "anon_key (Some x) = Some (Some (ino, task, SIVFS_UNREFERENCED))"
    and "cnt a = 0" "a \<noteq> 0" and "a \<notin> snd ` set (anon_inodes (fw_ws w task))"
    and "\<And>d. ae_dentry env = Some d \<Longrightarrow> d \<noteq> 0 \<and> fw_dentries w d = None"
    and "radix_tree_lookup (anon_inodes (fw_ws w task)) ino = None"
  shows "anon_added held cnt task ino w (insert_anon env task ino a w)"
proof -
  obtain s where s: "fw_state w task = Some s" using assms(1) by (auto simp: task_wf_def split: option.splits)
  note t = task_wf_state [OF assms(1) s]
  define ws where "ws = st_workingset s"
  have ws: "fw_ws w task = ws" using t(5) by (simp add: ws_def)
  have none: "radix_tree_lookup (anon_inodes ws) ino = None" "radix_tree_lookup (anon_dentries ws) ino = None"
    using assms(8) ws ws_wf_lookup(1) [OF t(4)] by (simp_all add: ws_def)
  have inv: "rt_inv (anon_inodes ws)" "rt_inv (anon_dentries ws)" using t(4) by (simp_all add: ws_wf_def ws_def)
  have dropped: "task_wf (Suc held) cnt task w1"
    if "fw_state w1 task = Some s" "fw_anon w1 = (fw_anon w)(a := None)" "fw_dentries w1 = fw_dentries w" "threads_inv w1" for w1
    using assms(1) that(4) s that(1) ws_wf_other_inode [OF _ assms(6)] that(2,3) by (intro task_wf_same [OF assms(1)]) simp_all
  have failed: "anon_added held cnt task ino w (r, Some 0, fs_put_task_state fuel task w1)"
    if "fw_state w1 task = Some s" "fw_anon w1 = (fw_anon w)(a := None)" "fw_dentries w1 = fw_dentries w" "threads_inv w1" "fw_files w1 = fw_files w" for w1 r fuel
    using put_task_state_wf [OF dropped [OF that(1-4)], of fuel] that(1,5) s by (simp add: anon_added_def fw_ws_def)
  define w1 where "w1 = upd_ws task (\<lambda>ws. ws\<lparr>anon_inodes := rt_ins ino a (anon_inodes ws)\<rparr>) w"
  have w1: "fw_state w1 task = Some (s\<lparr>st_workingset := ws\<lparr>anon_inodes := rt_ins ino a (anon_inodes ws)\<rparr>\<rparr>)"
    "fw_anon w1 = fw_anon w" "fw_dentries w1 = fw_dentries w" "fw_files w1 = fw_files w" "threads_inv w1"
    using s t(1) by (simp_all add: w1_def fw_state_upd_ws ws_def)
  have undone: "s\<lparr>st_workingset := ws\<lparr>anon_inodes := radix_tree_delete (rt_ins ino a (anon_inodes ws)) ino\<rparr>\<rparr> = s"
    using rt_delete_ins [OF inv(1) none(1)] by (simp add: ws_def)
  show ?thesis
  proof (cases "ae_insert_inode env")
    case False
    then have "insert_anon env task ino a w = (E ENOMEM, Some 0, fs_put_task_state (ce_fuel (ae_commit env)) task (iput a w))"
      using none(1) by (simp add: insert_anon_def radix_tree_insert_def ws)
    then show ?thesis using failed [of "iput a w"] s t(1) by simp
  next
    case ins: True
    show ?thesis
    proof (cases "ae_dentry env")
      case None
      let ?w2 = "iput a (del_anon_inode task ino w1)"
      have "insert_anon env task ino a w = (E ENOMEM, Some 0, fs_put_task_state (ce_fuel (ae_commit env)) task ?w2)"
        using none(1) ins None by (simp add: insert_anon_def radix_tree_insert_def ws w1_def upd_ws_def s ws_def sivfs_create_anon_dentry_def Let_def)
      then show ?thesis using failed [of ?w2] w1 undone by (simp add: del_anon_inode_def fw_state_upd_ws)
    next
      case (Some d)
      then have d: "d \<noteq> 0" "fw_dentries w d = None" using assms(7) by auto
      define w2 where "w2 = w1\<lparr>fw_dentries := (fw_dentries w)(d \<mapsto> \<lparr>d_inode = a, d_count = 1\<rparr>)\<rparr>"
      have dd: "dput d w2 = w2\<lparr>fw_dentries := fw_dentries w, fw_anon := (fw_anon w)(a := None)\<rparr>"
        using d(2) w1(2) by (simp add: dput_def iput_def w2_def fun_upd_idem)
      define w3 where "w3 = upd_ws task (\<lambda>ws. ws\<lparr>anon_dentries := rt_ins ino d (anon_dentries ws)\<rparr>) w2"
      have w3: "fw_state w3 task = Some (s\<lparr>st_workingset := with_anon ino a d ws\<rparr>)" "fw_anon w3 = fw_anon w"
        "fw_dentries w3 = (fw_dentries w)(d \<mapsto> \<lparr>d_inode = a, d_count = 1\<rparr>)" "fw_files w3 = fw_files w" "threads_inv w3"
        using w1 by (simp_all add: w3_def w2_def fw_state_upd_ws with_anon_def)
      have run: "insert_anon env task ino a w =
          (if ae_insert_dentry env then start_txn env task ino (anon_inodes ws = []) d w3
           else (E ENOMEM, Some 0, fs_put_task_state (ce_fuel (ae_commit env)) task (del_anon_inode task ino (dput d w2))))"
        using none ins Some s
        by (simp add: insert_anon_def radix_tree_insert_def ws w1_def sivfs_create_anon_dentry_def w2_def w3_def upd_ws_def ws_def Let_def)
      show ?thesis
      proof (cases "ae_insert_dentry env")
        case False
        then show ?thesis using run failed [of "del_anon_inode task ino (dput d w2)"] w1 undone dd
          by (simp add: del_anon_inode_def fw_state_upd_ws w2_def)
      next
        case True
        have "ws_wf cnt task ws (fw_anon w) ((fw_dentries w)(d \<mapsto> \<lparr>d_inode = a, d_count = 1\<rparr>))"
          using ws_wf_other_dentry [OF t(4) ws_wf_fresh_dentry [OF t(4) d(2)]] unfolding ws_def .
        from ws_wf_insert [OF this none(1) assms(5) d(1)] have "ws_wf cnt task (with_anon ino a d ws) (fw_anon w3) (fw_dentries w3)"
          using assms(2-4) w3 by (simp add: with_anon_def open_count_def)
        then have "task_wf held cnt task w3"
          using w3 t(2,3) rt_ins_length [OF none(1)] by (simp add: task_wf_def state_key_def with_anon_def ws_def)
        from start_txn_wf [OF this _ _ d(1) inv none] show ?thesis using run True w3 ws by (simp add: fw_ws_def)
      qed
    qed
  qed
qed


lemma flags_create [simp]: "(SIVFS_CREATE OR SIVFS_SKIP_REFCOUNT) AND SIVFS_CREATE \<noteq> 0"
  "(SIVFS_CREATE OR SIVFS_SKIP_REFCOUNT) AND SIVFS_SKIP_REFCOUNT \<noteq> 0" "SIVFS_CREATE \<noteq> 0" "SIVFS_SKIP_REFCOUNT \<noteq> 0"
  by (simp_all add: SIVFS_CREATE_def SIVFS_SKIP_REFCOUNT_def)

lemma get_anon_inode_new_wf:
  assumes "task_wf held cnt task w" and "fresh_env env cnt w"
    and "radix_tree_lookup (anon_inodes (fw_ws w task)) ino = None"
  shows "anon_added held cnt task ino w (get_anon_inode_new env task ino (SIVFS_CREATE OR SIVFS_SKIP_REFCOUNT) w)"
proof -
  let ?fuel = "ce_fuel (ae_commit env)"
  obtain r1 w1 where g: "fs_get_task_state ?fuel task w = (r1, w1)" by fastforce
  note g' = get_task_state_wf [OF assms(1) g]
  show ?thesis
  proof (cases "r1 = OK")
    case False
    then show ?thesis using g g' by (cases r1) (simp_all add: get_anon_inode_new_def anon_added_def)
  next
    case True
    then have wf1: "task_wf (Suc held) cnt task w1" using g'(5) by simp
    have fr: "fresh_env env cnt w1" using assms(2) g'(1,2) by (simp add: fresh_env_def)
    obtain r2 a w2 where c: "sivfs_create_anon_inode env ino task w1 = (r2, a, w2)" by (metis surj_pair)
    note c' = create_anon_inode_wf [OF wf1 fr c]
    show ?thesis
    proof (cases "r2 = OK")
      case False
      then have "get_anon_inode_new env task ino (SIVFS_CREATE OR SIVFS_SKIP_REFCOUNT) w = (r2, Some 0, fs_put_task_state ?fuel task w2)"
        using g True c by (cases r2) (simp_all add: get_anon_inode_new_def)
      then show ?thesis using put_task_state_wf [of held cnt task w2 ?fuel] c' g'(3,4) by (simp add: anon_added_def)
    next
      case r2: True
      obtain x where x: "fw_anon w2 = (fw_anon w1)(a \<mapsto> x)" "ai_info x = Some (new_iinfo\<lparr>ii_backing_ino := ino, ii_state := task\<rparr>)"
        using c' r2 by auto
      have a: "a \<noteq> 0" "fw_anon w1 a = None" "cnt a = 0" using c' r2 fr by (auto simp: fresh_env_def)
      define w3 where "w3 = set_info a (map_option (\<lambda>ii. ii\<lparr>ii_refcount := SIVFS_UNREFERENCED\<rparr>)) w2"
      have w3: "fw_anon w3 = (fw_anon w1)(a \<mapsto> x\<lparr>ai_info := map_option (\<lambda>ii. ii\<lparr>ii_refcount := SIVFS_UNREFERENCED\<rparr>) (ai_info x)\<rparr>)"
        "fw_ws w3 task = fw_ws w task" "fw_dentries w3 = fw_dentries w" "fw_files w3 = fw_files w" "fw_state w3 task = fw_state w2 task"
        using x(1) c' g'(2-4) by (simp_all add: w3_def set_info_def fw_ws_def)
      obtain s where s: "fw_state w1 task = Some s" using g'(6) True by auto
      note t = task_wf_state [OF wf1 s]
      have own: "a \<notin> snd ` set (anon_inodes (fw_ws w task))" using ws_wf_fresh [OF t(4) a(2)] t(5) g'(4) by simp
      have wf3: "task_wf (Suc held) cnt task w3"
      proof (rule task_wf_same [of "Suc held" cnt task w2])
        show "task_wf (Suc held) cnt task w2" using c' by blast
        then show "threads_inv w3" by (simp add: task_wf_def w3_def)
        show "fw_state w3 task = fw_state w2 task" by (rule w3(5))
        have "ws_wf cnt task (fw_ws w task) (fw_anon w3) (fw_dentries w3)"
          using ws_wf_other_inode [OF t(4) ws_wf_fresh [OF t(4) a(2)]] t(5) g'(2,4) w3(1,3) by simp
        then show "ws_wf cnt task (fw_ws w2 task) (fw_anon w3) (fw_dentries w3)" using c' g'(4) by simp
      qed
      have "insert_anon env task ino a w3 = get_anon_inode_new env task ino (SIVFS_CREATE OR SIVFS_SKIP_REFCOUNT) w"
        using g True c r2 x by (simp add: get_anon_inode_new_def w3_def)
      moreover have "anon_added held cnt task ino w3 (insert_anon env task ino a w3)"
        using wf3 _ _ a(3,1)
      proof (rule insert_anon_wf)
        show "fw_anon w3 a = Some (x\<lparr>ai_info := map_option (\<lambda>ii. ii\<lparr>ii_refcount := SIVFS_UNREFERENCED\<rparr>) (ai_info x)\<rparr>)" by (simp add: w3(1))
        show "anon_key (Some (x\<lparr>ai_info := map_option (\<lambda>ii. ii\<lparr>ii_refcount := SIVFS_UNREFERENCED\<rparr>) (ai_info x)\<rparr>)) =
            Some (Some (ino, task, SIVFS_UNREFERENCED))" by (simp add: anon_key_def x(2))
      qed (use own assms(2,3) w3 in \<open>simp_all add: fresh_env_def\<close>)
      ultimately show ?thesis using w3(2,4) by (simp add: anon_added_def)
    qed
  qed
qed

section \<open>Opening and closing\<close>

lemma anon_ref_count:
  assumes "ii_refcount ii = open_count n" and "anon_ref ii = (r, ii')"
  shows "r = OK \<and> ii' = ii\<lparr>ii_refcount := open_count (Suc n)\<rparr> \<and> n < 100 \<or> r = E EINVAL \<and> 100 \<le> n"
  using assms by (auto simp: anon_ref_def open_count_def sivfs_iinfo_refct_inc_def SIVFS_UNREFERENCED_def SIVFS_IINFO_MAX_REFCOUNT_def split: if_splits)

lemma own_inode:
  assumes "ws_wf cnt task ws h ds" and "radix_tree_lookup (anon_inodes ws) ino = Some a"
  obtains x ii where "h a = Some x" "ai_info x = Some ii" "ii_backing_ino ii = ino" "ii_state ii = task" "ii_refcount ii = open_count (cnt a)"
  using ws_wf_lookup(2) [OF assms] by (auto simp: anon_key_def)

lemma set_info_count_wf:
  assumes "task_wf held cnt task w" and "radix_tree_lookup (anon_inodes (fw_ws w task)) ino = Some a"
    and "fw_anon w a = Some x" "ai_info x = Some ii"
  shows "task_wf held (cnt(a := n)) task (set_info a (\<lambda>_. Some (ii\<lparr>ii_refcount := open_count n\<rparr>)) w)"
    "fw_ws (set_info a f w) task = fw_ws w task"
proof -
  let ?w = "set_info a (\<lambda>_. Some (ii\<lparr>ii_refcount := open_count n\<rparr>)) w"
  show "task_wf held (cnt(a := n)) task ?w"
    using assms(1)
  proof (rule task_wf_same)
    show "threads_inv ?w" using assms(1) by (simp add: task_wf_def)
    show "ws_wf (cnt(a := n)) task (fw_ws w task) (fw_anon ?w) (fw_dentries ?w)"
      if "ws_wf cnt task (fw_ws w task) (fw_anon w) (fw_dentries w)"
      using ws_wf_count [OF that assms(2)] ws_wf_lookup(2) [OF that assms(2)] assms(3,4)
      by (simp add: set_info_def anon_key_def)
  qed simp
  show "fw_ws (set_info a f w) task = fw_ws w task" by (simp add: fw_ws_def)
qed

lemma put_anon_inode_wf:
  assumes "task_wf held cnt task w" and "radix_tree_lookup (anon_inodes (fw_ws w task)) ino = Some a"
    and "cnt' = cnt(a := cnt a - 1)"
  shows "\<exists>w'. sivfs_put_anon_inode fuel task ino w = (OK, w') \<and> task_wf held cnt' task w' \<and> fw_files w' = fw_files w \<and>
    fw_ws w' task = (if cnt a \<le> 1 then without_anon ino (fw_ws w task) else fw_ws w task) \<and>
    (fw_notif w' task \<longleftrightarrow> fw_notif w task)"
proof -
  obtain s where s: "fw_state w task = Some s"
    using assms(2) by (auto simp: fw_ws_def sivfs_init_workingset_def radix_tree_lookup_def split: option.splits)
  note t = task_wf_state [OF assms(1) s]
  have l: "radix_tree_lookup (anon_inodes (st_workingset s)) ino = Some a" using assms(2) t(5) by simp
  obtain x ii where x: "fw_anon w a = Some x" "ai_info x = Some ii" "ii_refcount ii = open_count (cnt a)"
    using own_inode [OF t(4) l] by metis
  show ?thesis
  proof (cases "cnt a \<le> 1")
    case False
    then have "sivfs_put_anon_inode fuel task ino w = (OK, set_info a (\<lambda>_. Some (ii\<lparr>ii_refcount := open_count (cnt a - 1)\<rparr>)) w)"
      using s l x by (simp add: sivfs_put_anon_inode_def open_count_def SIVFS_UNREFERENCED_def)
    then show ?thesis using set_info_count_wf [OF assms(1,2) x(1,2)] False by (simp add: assms(3) fw_notif_def)
  next
    case True
    obtain d where d: "radix_tree_lookup (anon_dentries (st_workingset s)) ino = Some d"
      using ws_wf_lookup(1) [OF t(4), of ino] l by auto
    define w1 where "w1 = del_anon_dentry task ino (del_anon_inode task ino (set_info a (\<lambda>_. None) w))"
    have w1: "fw_state w1 task = Some (s\<lparr>st_workingset := without_anon ino (st_workingset s)\<rparr>)" "fw_dentries w1 = fw_dentries w"
      "fw_anon w1 = (fw_anon w)(a \<mapsto> x\<lparr>ai_info := None\<rparr>)" "fw_files w1 = fw_files w" "threads_inv w1"
      using s t(1) x by (simp_all add: w1_def del_anon_dentry_def del_anon_inode_def fw_state_upd_ws without_anon_def)
         (simp add: set_info_def)
    have dd: "dput d w1 = w1\<lparr>fw_dentries := (fw_dentries w)(d := None), fw_anon := (fw_anon w)(a := None)\<rparr>"
      using dput_own [OF t(4) l d w1(2)] w1(3) by simp
    have run: "sivfs_put_anon_inode fuel task ino w = (OK, fs_put_task_state fuel task (dput d w1))"
      using s l x d True by (simp add: sivfs_put_anon_inode_def open_count_def w1_def split: if_splits)
    have "task_wf (Suc held) cnt' task (dput d w1)"
      using assms(1) s _ l d by (rule remove_anon_wf) (use w1 assms(3) in \<open>simp_all add: dd\<close>)
    moreover have "fw_notif (dput d w1) task \<longleftrightarrow> fw_notif w task" using s w1(1) by (simp add: fw_notif_def dd)
    ultimately show ?thesis using run put_task_state_wf [of held cnt' task "dput d w1" fuel]
        put_task_state_notif [of held cnt' task "dput d w1" fuel] put_task_state_notifD [of held cnt' task "dput d w1" fuel] w1 True t(5)
      by (auto simp: dd) (simp_all add: fw_ws_def)
  qed
qed


section \<open>The end of a task\<close>

lemma unreferenced_batch_eq:
  assumes "ws_wf cnt task ws (fw_anon w) (fw_dentries w)" and "set ds \<subseteq> set (anon_dentries ws)"
  shows "unreferenced_batch w n ds =
    (OK, take n (map fst (filter (\<lambda>(ino, _). \<exists>a. radix_tree_lookup (anon_inodes ws) ino = Some a \<and> cnt a = 0) ds)))"
  using assms(2)
proof (induction ds arbitrary: n)
  case (Cons p ds)
  obtain ino d where p: "p = (ino, d)" by fastforce
  have ld: "radix_tree_lookup (anon_dentries ws) ino = Some d"
    using Cons.prems p assms(1) rt_inv_distinct [of "anon_dentries ws"] by (simp add: ws_wf_def radix_tree_lookup_def)
  obtain a where a: "radix_tree_lookup (anon_inodes ws) ino = Some a" "fw_dentries w d = Some \<lparr>d_inode = a, d_count = 1\<rparr>"
    using ws_wf_lookup(3) [OF assms(1) ld] by auto
  have nz: "d \<noteq> 0" "a \<noteq> 0" using assms(1) ld a(1) by (auto simp: ws_wf_def)
  obtain x ii where x: "fw_anon w a = Some x" "ai_info x = Some ii" "ii_refcount ii = open_count (cnt a)"
    using own_inode [OF assms(1) a(1)] by metis
  have "ii_refcount ii = SIVFS_UNREFERENCED \<longleftrightarrow> cnt a = 0" using x(3) by (simp add: open_count_def SIVFS_UNREFERENCED_def)
  then show ?case using Cons p a nz x by (cases n) simp_all
qed simp

lemma without_filter: "anon_inodes (fold without_anon is ws) = filter (\<lambda>(ino, _). ino \<notin> set is) (anon_inodes ws)"
  "anon_dentries (fold without_anon is ws) = filter (\<lambda>(ino, _). ino \<notin> set is) (anon_dentries ws)"
  by (induction "is" arbitrary: ws) (simp_all add: without_anon_def radix_tree_delete_def case_prod_unfold conj_commute)

lemma put_batch_wf:
  assumes "task_wf held cnt task w" and "fw_notif w task" and "distinct is"
    and "\<And>ino. ino \<in> set is \<Longrightarrow> \<exists>a. radix_tree_lookup (anon_inodes (fw_ws w task)) ino = Some a \<and> cnt a = 0"
  shows "\<exists>w'. put_batch fuel task is w = (OK, w') \<and> task_wf held cnt task w' \<and> fw_notif w' task \<and> fw_files w' = fw_files w \<and>
    fw_ws w' task = fold without_anon is (fw_ws w task)"
  using assms
proof (induction "is" arbitrary: w)
  case (Cons ino js)
  obtain a where a: "radix_tree_lookup (anon_inodes (fw_ws w task)) ino = Some a" "cnt a = 0" using Cons.prems(4) [of ino] by auto
  have cnt: "cnt = cnt(a := cnt a - 1)" using a(2) by (simp add: fun_eq_iff)
  obtain w1 where w1: "sivfs_put_anon_inode fuel task ino w = (OK, w1)" "task_wf held cnt task w1" "fw_files w1 = fw_files w"
      "fw_ws w1 task = without_anon ino (fw_ws w task)" "fw_notif w1 task"
    using put_anon_inode_wf [OF Cons.prems(1) a(1) cnt, of fuel] a(2) Cons.prems(2) by auto
  obtain s1 where s1: "fw_state w1 task = Some s1" using w1(5) by (auto simp: fw_notif_def)
  have gone: "radix_tree_lookup (anon_dentries (st_workingset s1)) ino = None"
    using w1(4) s1 by (simp add: fw_ws_def without_anon_def)
  have "\<exists>a. radix_tree_lookup (anon_inodes (fw_ws w1 task)) j = Some a \<and> cnt a = 0" if "j \<in> set js" for j
    using Cons.prems(3) Cons.prems(4) [of j] that w1(4) by (auto simp: without_anon_def)
  then show ?case using Cons.IH [OF w1(2,5)] Cons.prems(3) w1 s1 gone by simp
qed simp

lemma take_sorted_rest:
  assumes "sorted_wrt (<) (xs :: u64 list)" and "x \<in> set xs" and "x \<notin> set (take n xs)" and "take n xs \<noteq> []"
  shows "last (take n xs) < x"
proof -
  have "x \<in> set (drop n xs)" using assms(2,3) by (metis Un_iff append_take_drop_id set_append)
  moreover have "sorted_wrt (<) (take n xs @ drop n xs)" using assms(1) by simp
  ultimately show ?thesis using assms(4) unfolding sorted_wrt_append by simp
qed

definition idle :: "(u64 \<Rightarrow> nat) \<Rightarrow> sivfs_workingset \<Rightarrow> u64 \<Rightarrow> bool" where
  "idle cnt ws ino \<longleftrightarrow> (\<exists>a. radix_tree_lookup (anon_inodes ws) ino = Some a \<and> cnt a = 0)"

definition idle_from :: "(u64 \<Rightarrow> nat) \<Rightarrow> sivfs_workingset \<Rightarrow> u64 \<Rightarrow> u64 list" where
  "idle_from cnt ws index = map fst (filter (\<lambda>(ino, _). idle cnt ws ino) (rt_from (anon_dentries ws) index))"

lemma idle_mem:
  assumes "ws_wf cnt task ws h ds" and "(ino, a) \<in> set (anon_inodes ws)"
  shows "idle cnt ws ino \<longleftrightarrow> cnt a = 0"
  using assms rt_inv_distinct [of "anon_inodes ws"] by (auto simp: ws_wf_def idle_def radix_tree_lookup_def)

lemma idle_from:
  assumes "ws_wf cnt task ws h ds" and "\<And>ino. idle cnt ws ino \<Longrightarrow> index \<le> ino"
  shows "ino \<in> set (idle_from cnt ws index) \<longleftrightarrow> idle cnt ws ino" and "sorted_wrt (<) (idle_from cnt ws index)"
proof -
  have inv: "rt_inv (anon_dentries ws)" using assms(1) by (simp add: ws_wf_def)
  have "\<exists>d. (ino, d) \<in> set (anon_dentries ws)" if "idle cnt ws ino"
    using that ws_wf_lookup(1) [OF assms(1), of ino] by (force simp: idle_def radix_tree_lookup_def dest: map_of_SomeD)
  then show "ino \<in> set (idle_from cnt ws index) \<longleftrightarrow> idle cnt ws ino"
    using rt_from_set [OF inv, of index] assms(2) [of ino] by (auto simp: idle_from_def) force
  show "sorted_wrt (<) (idle_from cnt ws index)"
    using rt_inv_filter [OF rt_inv_from [OF inv]] unfolding idle_from_def rt_inv_def .
qed

lemma batch_idle:
  assumes "ws_wf cnt task ws (fw_anon w) (fw_dentries w)"
  shows "unreferenced_batch w n (rt_from (anon_dentries ws) index) = (OK, take n (idle_from cnt ws index))"
proof -
  have "set (rt_from (anon_dentries ws) index) \<subseteq> set (anon_dentries ws)"
    using assms rt_from_set [of "anon_dentries ws"] by (auto simp: ws_wf_def)
  from unreferenced_batch_eq [OF assms this] show ?thesis unfolding idle_from_def idle_def .
qed

text \<open>One round of the loop.\<close>

lemma release_round:
  assumes "task_wf held cnt task w" and "fw_notif w task" and "idle_from cnt (fw_ws w task) index \<noteq> []"
    and "\<And>ino. idle cnt (fw_ws w task) ino \<Longrightarrow> index \<le> ino"
  defines "is \<equiv> take ANON_DELETE_BATCH (idle_from cnt (fw_ws w task) index)"
  shows "\<exists>w'. put_batch fuel task is w = (OK, w') \<and> task_wf held cnt task w' \<and> fw_notif w' task \<and> fw_files w' = fw_files w \<and>
    length (anon_dentries (fw_ws w' task)) < length (anon_dentries (fw_ws w task)) \<and>
    (\<forall>ino. idle cnt (fw_ws w' task) ino \<longrightarrow> last is + 1 \<le> ino) \<and>
    filter (\<lambda>(_, a). cnt a \<noteq> 0) (anon_inodes (fw_ws w' task)) = filter (\<lambda>(_, a). cnt a \<noteq> 0) (anon_inodes (fw_ws w task))"
proof -
  obtain s where s: "fw_state w task = Some s" using assms(2) by (auto simp: fw_notif_def)
  define ws where "ws = fw_ws w task"
  have wf: "ws_wf cnt task ws (fw_anon w) (fw_dentries w)" using task_wf_state [OF assms(1) s] by (simp add: ws_def)
  note fr = idle_from [OF wf, of index, OF assms(4) [folded ws_def]]
  have ne: "is \<noteq> []" using assms(3) by (simp add: is_def ANON_DELETE_BATCH_def)
  have idle: "idle cnt ws ino" if "ino \<in> set is" for ino
    using that fr(1) in_set_takeD unfolding is_def ws_def by metis
  have "distinct is" using fr(2) unfolding is_def ws_def by (simp add: strict_sorted_iff)
  from put_batch_wf [OF assms(1,2) this] obtain w1 where w1: "put_batch fuel task is w = (OK, w1)" "task_wf held cnt task w1"
      "fw_notif w1 task" "fw_files w1 = fw_files w" "fw_ws w1 task = fold without_anon is ws"
    using idle by (auto simp: ws_def idle_def)
  note del = w1(5) without_filter [of "is" ws]
  have "length (anon_dentries (fw_ws w1 task)) < length (anon_dentries ws)"
  proof -
    have "last is \<in> set is" using ne by simp
    then have "radix_tree_lookup (anon_dentries ws) (last is) \<noteq> None"
      using idle ws_wf_lookup(1) [OF wf, of "last is"] by (fastforce simp: idle_def)
    then have "last is \<in> fst ` set (anon_dentries ws)" by (simp add: radix_tree_lookup_def map_of_eq_None_iff)
    with \<open>last is \<in> set is\<close> show ?thesis unfolding del by (auto intro: length_filter_less)
  qed
  moreover have "last is + 1 \<le> ino" if left: "idle cnt (fw_ws w1 task) ino" for ino
  proof -
    obtain a where l: "map_of (filter (\<lambda>(ino, _). ino \<notin> set is) (anon_inodes ws)) ino = Some a" "cnt a = 0"
      using left unfolding idle_def del radix_tree_lookup_def by blast
    then have a: "(ino, a) \<in> set (anon_inodes ws)" "ino \<notin> set is" "cnt a = 0" using map_of_SomeD [OF l(1)] by auto
    then have "ino \<in> set (idle_from cnt ws index)" using idle_mem [OF wf a(1)] fr(1) by simp
    then have "last is < ino" using take_sorted_rest [OF fr(2)] a(2) ne unfolding is_def ws_def by blast
    then show ?thesis by (rule inc_le)
  qed
  moreover have "filter (\<lambda>(_, a). cnt a \<noteq> 0) (anon_inodes (fw_ws w1 task)) = filter (\<lambda>(_, a). cnt a \<noteq> 0) (anon_inodes ws)"
  proof -
    have "cnt a \<noteq> 0 \<longrightarrow> ino \<notin> set is" if "(ino, a) \<in> set (anon_inodes ws)" for ino a
      using idle [of ino] idle_mem [OF wf that] by auto
    then show ?thesis unfolding del by (auto intro!: filter_cong)
  qed
  ultimately show ?thesis using w1(1-4) unfolding ws_def by blast
qed

lemma mm_release_loop_wf:
  assumes "task_wf held cnt task w" and "fw_notif w task" and "length (anon_dentries (fw_ws w task)) < rounds"
    and "\<And>ino. idle cnt (fw_ws w task) ino \<Longrightarrow> index \<le> ino"
  shows "\<exists>w'. mm_release_loop rounds fuel task index w = (OK, w') \<and> task_wf held cnt task w' \<and> fw_notif w' task \<and>
    fw_files w' = fw_files w \<and> anon_inodes (fw_ws w' task) = filter (\<lambda>(_, a). cnt a \<noteq> 0) (anon_inodes (fw_ws w task))"
  using assms
proof (induction rounds arbitrary: w index)
  case (Suc rounds)
  obtain s where s: "fw_state w task = Some s" using Suc.prems(2) by (auto simp: fw_notif_def)
  have wf: "ws_wf cnt task (fw_ws w task) (fw_anon w) (fw_dentries w)" using task_wf_state [OF Suc.prems(1) s] by simp
  note batch = batch_idle [OF wf, of ANON_DELETE_BATCH index]
  show ?case
  proof (cases "idle_from cnt (fw_ws w task) index = []")
    case True
    then have "\<forall>(ino, a) \<in> set (anon_inodes (fw_ws w task)). cnt a \<noteq> 0"
      using idle_from(1) [OF wf Suc.prems(4)] idle_mem [OF wf] by fastforce
    then have "filter (\<lambda>(_, a). cnt a \<noteq> 0) (anon_inodes (fw_ws w task)) = anon_inodes (fw_ws w task)"
      by (auto simp: filter_id_conv)
    then show ?thesis using Suc.prems batch True by simp
  next
    case False
    from release_round [OF Suc.prems(1,2) False Suc.prems(4), of fuel] obtain w1 where
      w1: "put_batch fuel task (take ANON_DELETE_BATCH (idle_from cnt (fw_ws w task) index)) w = (OK, w1)"
        "task_wf held cnt task w1" "fw_notif w1 task" "fw_files w1 = fw_files w"
        "length (anon_dentries (fw_ws w1 task)) < length (anon_dentries (fw_ws w task))"
        "\<And>ino. idle cnt (fw_ws w1 task) ino \<Longrightarrow> last (take ANON_DELETE_BATCH (idle_from cnt (fw_ws w task) index)) + 1 \<le> ino"
        "filter (\<lambda>(_, a). cnt a \<noteq> 0) (anon_inodes (fw_ws w1 task)) = filter (\<lambda>(_, a). cnt a \<noteq> 0) (anon_inodes (fw_ws w task))"
      by blast
    have "length (anon_dentries (fw_ws w1 task)) < rounds" using w1(5) Suc.prems(3) by simp
    from Suc.IH [OF w1(2,3) this w1(6)] show ?thesis
      using batch False w1(1,4,7) by (auto simp: ANON_DELETE_BATCH_def)
  qed
qed simp


lemma mm_release_wf:
  assumes "task_wf held cnt task w" and "fw_notif w task"
  shows "\<exists>w'. sivfs_mm_release fuel task w = (OK, w') \<and> task_wf held cnt task w' \<and> fw_files w' = fw_files w \<and> \<not> fw_notif w' task \<and>
    anon_inodes (fw_ws w' task) = filter (\<lambda>(_, a). cnt a \<noteq> 0) (anon_inodes (fw_ws w task))"
proof -
  obtain s where s: "fw_state w task = Some s" using assms(2) by (auto simp: fw_notif_def)
  have ws: "fw_ws w task = st_workingset s" by (rule task_wf_state(5) [OF assms(1) s])
  obtain w1 where w1: "mm_release_loop (length (anon_dentries (st_workingset s)) + 1) fuel task 0 w = (OK, w1)" "task_wf held cnt task w1"
      "fw_notif w1 task" "fw_files w1 = fw_files w"
      "anon_inodes (fw_ws w1 task) = filter (\<lambda>(_, a). cnt a \<noteq> 0) (anon_inodes (fw_ws w task))"
    using mm_release_loop_wf [OF assms, of "length (anon_dentries (st_workingset s)) + 1" 0 fuel] ws by auto
  obtain s1 where s1: "fw_state w1 task = Some s1" "notifier_registered s1" using w1(3) by (auto simp: fw_notif_def)
  define w2 where "w2 = set_fw_state task (s1\<lparr>notifier_registered := False\<rparr>) w1"
  have w2: "task_wf (Suc held) cnt task w2" "fw_ws w2 task = fw_ws w1 task" "fw_files w2 = fw_files w1" "\<not> fw_notif w2 task"
    using task_wf_state [OF w1(2) s1(1)] s1 by (simp_all add: w2_def task_wf_def state_key_def fw_notif_def fw_ws_def) (simp add: set_fw_state_def)
  have "\<not> fw_notif (fs_put_task_state fuel task w2) task" using put_task_state_notifD [OF w2(1)] w2(4) by blast
  moreover have "sivfs_mm_release fuel task w = (OK, fs_put_task_state fuel task w2)"
    using s w1(1) s1(1) by (simp add: sivfs_mm_release_def w2_def)
  ultimately show ?thesis using put_task_state_wf [OF w2(1), of fuel] w2 w1(4,5) by simp
qed

section \<open>The life of the files of a task\<close>

text \<open>An open file is its information and the address of the anonymous inode it was opened on.\<close>

type_synonym open_file = "sivfs_file_info \<times> u64"

definition opens :: "open_file list \<Rightarrow> u64 \<Rightarrow> nat" where
  "opens files a = length (filter (\<lambda>f. snd f = a) files)"

definition files_wf :: "u64 \<Rightarrow> open_file list \<Rightarrow> fs_world \<Rightarrow> bool" where
  "files_wf task files w \<longleftrightarrow>
     (\<forall>(fi, a) \<in> set files. fi_state fi = task \<and> fi_direct_access_file fi \<noteq> 0 \<and>
        fw_files w (fi_direct_access_file fi) = Some 1 \<and> (\<exists>ino. radix_tree_lookup (anon_inodes (fw_ws w task)) ino = Some a)) \<and>
     distinct (map (fi_direct_access_file \<circ> fst) files)"

text \<open>What belongs to a task.\<close>

definition own_view :: "u64 \<Rightarrow> fs_world \<Rightarrow> sivfs_state option \<times> (u64 \<rightharpoonup> anon_inode) \<times> (u64 \<rightharpoonup> dentry)" where
  "own_view task w =
     (fw_state w task, fw_anon w |` (snd ` set (anon_inodes (fw_ws w task))), fw_dentries w |` (snd ` set (anon_dentries (fw_ws w task))))"

text \<open>
  The steps of a task: a lookup of a file, an open, a close, a mapping, the end of a transaction, the end of its address space, and the
  steps of others, which leave its own objects alone.  New memory is memory that is not in use.
\<close>

inductive file_step :: "u64 \<Rightarrow> fs_world \<times> open_file list \<Rightarrow> fs_world \<times> open_file list \<Rightarrow> bool" for task where
  look_up: "fresh_env env (opens files) w \<Longrightarrow> sivfs_d_real env task ra w = (r, d, w') \<Longrightarrow> file_step task (w, files) (w', files)"
| open_file: "radix_tree_lookup (anon_inodes (fw_ws w task)) ino = Some a \<Longrightarrow>
    (\<And>f. ae_direct_open env = Inr f \<Longrightarrow> f \<noteq> 0 \<and> fw_files w f = None) \<Longrightarrow>
    sivfs_anon_open env task a w = (OK, Some fi, w') \<Longrightarrow> file_step task (w, files) (w', (fi, a) # files)"
| open_fails: "radix_tree_lookup (anon_inodes (fw_ws w task)) ino = Some a \<Longrightarrow>
    (\<And>f. ae_direct_open env = Inr f \<Longrightarrow> f \<noteq> 0 \<and> fw_files w f = None) \<Longrightarrow>
    sivfs_anon_open env task a w = (E e, fi, w') \<Longrightarrow> file_step task (w, files) (w', files)"
| release: "sivfs_anon_release fuel a fi w = (r, w') \<Longrightarrow> file_step task (w, xs @ (fi, a) # ys) (w', xs @ ys)"
| map_file: "(fi, a) \<in> set files \<Longrightarrow> sivfs_anon_mmap shared wr a fi w = (r, w') \<Longrightarrow> file_step task (w, files) (w', files)"
| commit: "fs_commit_update env options lw task w = (r, aborted, lw', w') \<Longrightarrow> file_step task (w, files) (w', files)"
| mm_released: "fw_notif w task \<Longrightarrow> sivfs_mm_release fuel task w = (r, w') \<Longrightarrow> file_step task (w, files) (w', files)"
| others: "threads_inv w' \<Longrightarrow> own_view task w' = own_view task w \<Longrightarrow>
    (\<forall>(fi, a) \<in> set files. fw_files w' (fi_direct_access_file fi) = fw_files w (fi_direct_access_file fi)) \<Longrightarrow>
    file_step task (w, files) (w', files)"

inductive file_reach :: "u64 \<Rightarrow> fs_world \<times> open_file list \<Rightarrow> bool" for task where
  start: "threads_inv w \<Longrightarrow> fw_state w task = None \<Longrightarrow> file_reach task (w, [])"
| step: "file_reach task c \<Longrightarrow> file_step task c c' \<Longrightarrow> file_reach task c'"


section \<open>Every step keeps the references right\<close>

lemma get_anon_inode_select_wf:
  assumes "task_wf held cnt task w" and "fresh_env env cnt w"
    and "sivfs_get_anon_inode env out task ino (SIVFS_CREATE OR SIVFS_SKIP_REFCOUNT) w = (r, d, w')"
  shows "task_wf held cnt task w' \<and> fw_files w' = fw_files w \<and>
    (\<forall>j a. radix_tree_lookup (anon_inodes (fw_ws w task)) j = Some a \<longrightarrow> radix_tree_lookup (anon_inodes (fw_ws w' task)) j = Some a)"
proof (cases "fw_state w task")
  case None
  then show ?thesis using assms by (simp add: sivfs_get_anon_inode_def)
next
  case (Some s)
  note t = task_wf_state [OF assms(1) Some]
  show ?thesis
  proof (cases "radix_tree_lookup (anon_dentries (st_workingset s)) ino")
    case None
    then have free: "radix_tree_lookup (anon_inodes (fw_ws w task)) ino = None" using ws_wf_lookup(1) [OF t(4)] t(5) by simp
    note new = get_anon_inode_new_wf [OF assms(1,2) free]
    have "snd (snd (get_anon_inode_new env task ino (SIVFS_CREATE OR SIVFS_SKIP_REFCOUNT) w)) = w'"
      using assms(3) Some None by (auto simp: sivfs_get_anon_inode_def split: prod.splits rc.splits)
    then show ?thesis using new free by (auto simp: anon_added_def with_anon_def split: prod.splits)
  next
    case (Some d)
    then show ?thesis using assms \<open>fw_state w task = Some s\<close> by (simp add: sivfs_get_anon_inode_def)
  qed
qed

lemma d_real_wf:
  assumes "task_wf held cnt task w" and "fresh_env env cnt w" and "sivfs_d_real env task ra w = (r, d, w')"
  shows "task_wf held cnt task w' \<and> fw_files w' = fw_files w \<and>
    (\<forall>j a. radix_tree_lookup (anon_inodes (fw_ws w task)) j = Some a \<longrightarrow> radix_tree_lookup (anon_inodes (fw_ws w' task)) j = Some a)"
proof -
  let ?fuel = "ce_fuel (ae_commit env)"
  obtain r1 w1 where g: "fs_get_task_state ?fuel task w = (r1, w1)" by fastforce
  note g' = get_task_state_wf [OF assms(1) g]
  obtain r2 d2 w2 where n: "sivfs_get_anon_inode env (Some 0) task (ra_backing_ino ra) (SIVFS_CREATE OR SIVFS_SKIP_REFCOUNT) w1 = (r2, d2, w2)"
    by (metis surj_pair)
  show ?thesis
  proof (cases "r1 = OK")
    case False
    then have "w' = w \<or> w' = w1" using assms(3) g by (cases r1) (auto simp: sivfs_d_real_def split: if_splits)
    then show ?thesis using assms(1) g' False by auto
  next
    case True
    then have wf1: "task_wf (Suc held) cnt task w1" using g'(5) by simp
    have "fresh_env env cnt w1" using assms(2) g'(1,2) by (simp add: fresh_env_def)
    note n' = get_anon_inode_select_wf [OF wf1 this n]
    have "w' = w \<or> w' = fs_put_task_state ?fuel task w2"
      using assms(3) g True g'(6) n by (auto simp: sivfs_d_real_def split: if_splits rc.splits)
    then show ?thesis using assms(1) n' g'(3,4) put_task_state_wf [of held cnt task w2 ?fuel] by auto
  qed
qed

lemma anon_open_cases:
  assumes "task_wf held cnt task w" and "radix_tree_lookup (anon_inodes (fw_ws w task)) ino = Some a"
    and "\<And>f. ae_direct_open env = Inr f \<Longrightarrow> f \<noteq> 0 \<and> fw_files w f = None"
    and "sivfs_anon_open env task a w = (r, fi, w')"
  obtains (opened) f where "ae_direct_open env = Inr f" "r = OK" "fi = Some \<lparr>fi_state = task, fi_direct_access_file = f\<rparr>"
      "task_wf held (cnt(a := Suc (cnt a))) task w'" "fw_files w' = (fw_files w)(f \<mapsto> 1)" "fw_ws w' task = fw_ws w task" "fw_notif w' task = fw_notif w task"
  | (refused) e where "r = E e" "fi = None" "w' = w" "\<not> ae_finfo_ok env \<or> (\<exists>e. ae_direct_open env = Inl e)"
  | (too_many) "r = UB" "100 \<le> cnt a"
proof -
  obtain s where s: "fw_state w task = Some s"
    using assms(2) by (auto simp: fw_ws_def sivfs_init_workingset_def radix_tree_lookup_def split: option.splits)
  note t = task_wf_state [OF assms(1) s]
  obtain x ii where x: "fw_anon w a = Some x" "ai_info x = Some ii" "ii_refcount ii = open_count (cnt a)"
    using own_inode [OF t(4) assms(2) [unfolded t(5)]] by metis
  show thesis
  proof (cases "ae_finfo_ok env \<and> (\<exists>f. ae_direct_open env = Inr f)")
    case False
    then have "(\<exists>e. r = E e) \<and> fi = None \<and> w' = w"
      using assms(4) by (cases "ae_direct_open env") (auto simp: sivfs_anon_open_def sivfs_open_direct_access_def split: if_splits)
    then show thesis using refused False by (cases "ae_direct_open env") auto
  next
    case True
    then obtain f where f: "ae_direct_open env = Inr f" by auto
    define w1 where "w1 = w\<lparr>fw_files := (fw_files w)(f \<mapsto> 1)\<rparr>"
    have s1: "fw_state w1 task = Some s" "fw_anon w1 = fw_anon w" using s by (simp_all add: w1_def)
    have op: "sivfs_open_direct_access env w = (OK, f, w1)" using f by (simp add: sivfs_open_direct_access_def w1_def)
    obtain r1 ii1 where ref: "anon_ref ii = (r1, ii1)" by fastforce
    from anon_ref_count [OF x(3) ref] show thesis
    proof
      assume ok: "r1 = OK \<and> ii1 = ii\<lparr>ii_refcount := open_count (Suc (cnt a))\<rparr> \<and> cnt a < 100"
      have wf1: "task_wf held cnt task w1" using assms(1) by (rule task_wf_same) (use t(1) in \<open>simp_all add: w1_def\<close>)
      have ws1: "fw_ws w1 task = fw_ws w task" by (simp add: w1_def fw_ws_def)
      note c = set_info_count_wf(1) [OF wf1 assms(2) [folded ws1] x(1,2) [folded s1(2)], of "Suc (cnt a)"]
        set_info_count_wf(2) [OF wf1 assms(2) [folded ws1] x(1,2) [folded s1(2)]]
      have "(r, fi, w') = (OK, Some \<lparr>fi_state = task, fi_direct_access_file = f\<rparr>, set_info a (\<lambda>_. Some (ii\<lparr>ii_refcount := open_count (Suc (cnt a))\<rparr>)) w1)"
        using assms(4) True op s1 x ref ok by (simp add: sivfs_anon_open_def)
      then show thesis using opened [OF f] c ws1 by (simp add: w1_def fw_notif_def)
    next
      assume bad: "r1 = E EINVAL \<and> 100 \<le> cnt a"
      have "r = UB" using assms(4) True op s1 x ref bad assms(3) [OF f]
        by (simp add: sivfs_anon_open_def open_error2_def fput_def sivfs_put_finfo_def w1_def)
      then show thesis using too_many bad by blast
    qed
  qed
qed


lemma ws_wf_view:
  assumes "ws_wf cnt task ws h ds" and "h' |` (snd ` set (anon_inodes ws)) = h |` (snd ` set (anon_inodes ws))"
    and "ds' |` (snd ` set (anon_dentries ws)) = ds |` (snd ` set (anon_dentries ws))"
  shows "ws_wf cnt task ws h' ds'"
proof -
  have "h' a = h a" if "radix_tree_lookup (anon_inodes ws) ino = Some a" for ino a
    using that fun_cong [OF assms(2), of a] image_eqI [of a snd "(ino, a)"]
    by (simp add: radix_tree_lookup_def restrict_map_def map_of_SomeD)
  moreover have "ds' d = ds d" if "radix_tree_lookup (anon_dentries ws) ino = Some d" for ino d
    using that fun_cong [OF assms(3), of d] image_eqI [of d snd "(ino, d)"]
    by (simp add: radix_tree_lookup_def restrict_map_def map_of_SomeD)
  ultimately show ?thesis using assms(1) unfolding ws_wf_def by metis
qed

lemma own_view_wf:
  assumes "task_wf held cnt task w" and "threads_inv w'" and "own_view task w' = own_view task w"
  shows "task_wf held cnt task w'" "fw_ws w' task = fw_ws w task"
proof -
  have st: "fw_state w' task = fw_state w task" using assms(3) by (simp add: own_view_def)
  then show ws: "fw_ws w' task = fw_ws w task" by (simp add: fw_ws_def)
  show "task_wf held cnt task w'"
    using assms(1,2) st by (rule task_wf_same) (use assms(3) ws ws_wf_view in \<open>auto simp: own_view_def\<close>)
qed

lemma mmap_wf:
  assumes "task_wf held cnt task w" and "sivfs_anon_mmap shared wr a fi w = (r, w')"
  shows "task_wf held cnt task w' \<and> fw_ws w' task = fw_ws w task \<and> fw_files w' = fw_files w"
proof -
  have "w' = w \<or> (\<exists>n. w' = truncate_anon a n w)"
    using assms(2) by (auto simp: sivfs_anon_mmap_def sivfs_set_attributes_txn_ts_def split: if_splits option.splits)
  moreover have "task_wf held cnt task (truncate_anon a n w)" for n
    using assms(1)
  proof (rule task_wf_same)
    show "threads_inv (truncate_anon a n w)" using assms(1) by (simp add: truncate_anon_def task_wf_def threads_inv_def)
    show "fw_state (truncate_anon a n w) task = fw_state w task" by (simp add: truncate_anon_def fw_state_lookup)
    have "same_keys (fw_anon w) (fw_anon (truncate_anon a n w))"
      by (simp add: truncate_anon_def same_keys_def anon_key_def option.map_comp comp_def)
    then show "ws_wf cnt task (fw_ws w task) (fw_anon (truncate_anon a n w)) (fw_dentries (truncate_anon a n w))"
      if "ws_wf cnt task (fw_ws w task) (fw_anon w) (fw_dentries w)"
      using ws_wf_keys [OF that] by (simp add: truncate_anon_def)
  qed
  ultimately show ?thesis using assms(1) by (auto simp: truncate_anon_def fw_ws_def fw_state_lookup)
qed

lemma opens_remove: "opens (xs @ ys) = (opens (xs @ (fi, a) # ys))(a := opens (xs @ (fi, a) # ys) a - 1)"
  by (simp add: opens_def fun_eq_iff)

lemma files_wf_mono:
  assumes "files_wf task files w" and "\<And>f b. (f, b) \<in> set files \<Longrightarrow> fw_files w' (fi_direct_access_file f) = fw_files w (fi_direct_access_file f)"
    and "\<And>j b. radix_tree_lookup (anon_inodes (fw_ws w task)) j = Some b \<Longrightarrow> opens files b \<noteq> 0 \<Longrightarrow>
      radix_tree_lookup (anon_inodes (fw_ws w' task)) j = Some b"
  shows "files_wf task files w'"
proof -
  have "opens files b \<noteq> 0" if "(f, b) \<in> set files" for f b
    using that by (force simp: opens_def filter_empty_conv)
  then have "\<exists>j. radix_tree_lookup (anon_inodes (fw_ws w' task)) j = Some b" if "(f, b) \<in> set files" for f b
    using that assms(1) assms(3) [of _ b] unfolding files_wf_def by blast
  then show ?thesis using assms(1,2) unfolding files_wf_def by auto
qed

lemma anon_release_wf:
  assumes "task_wf held (opens files) task w" and "files_wf task files w" and "files = xs @ (fi, a) # ys"
  shows "\<exists>w'. sivfs_anon_release fuel a fi w = (OK, w') \<and> task_wf held (opens (xs @ ys)) task w' \<and> files_wf task (xs @ ys) w' \<and>
    (fw_notif w' task \<longleftrightarrow> fw_notif w task) \<and> (\<forall>j b. radix_tree_lookup (anon_inodes (fw_ws w' task)) j = Some b \<longrightarrow>
      radix_tree_lookup (anon_inodes (fw_ws w task)) j = Some b \<and> (b = a \<longrightarrow> opens (xs @ ys) a \<noteq> 0))"
proof -
  let ?f = "fi_direct_access_file fi"
  have fi: "fi_state fi = task" "?f \<noteq> 0" "fw_files w ?f = Some 1" using assms(2,3) by (simp_all add: files_wf_def)
  obtain ino where ino: "radix_tree_lookup (anon_inodes (fw_ws w task)) ino = Some a" using assms(2,3) by (auto simp: files_wf_def)
  define w1 where "w1 = w\<lparr>fw_files := (fw_files w)(?f := None)\<rparr>"
  have wf1: "task_wf held (opens files) task w1"
    using assms(1) by (rule task_wf_same) (use assms(1) in \<open>simp_all add: w1_def task_wf_def\<close>)
  have ws1: "fw_ws w1 task = fw_ws w task" "fw_anon w1 = fw_anon w" by (simp_all add: w1_def fw_ws_def)
  have w1_notif: "fw_notif w1 task \<longleftrightarrow> fw_notif w task" by (simp add: w1_def fw_notif_def)
  obtain s where s: "fw_state w task = Some s"
    using ino by (auto simp: fw_ws_def sivfs_init_workingset_def radix_tree_lookup_def split: option.splits)
  note t = task_wf_state [OF assms(1) s]
  have l: "radix_tree_lookup (anon_inodes (st_workingset s)) ino = Some a" using ino t(5) by simp
  obtain x ii where x: "fw_anon w a = Some x" "ai_info x = Some ii" "ii_backing_ino ii = ino" using own_inode [OF t(4) l] by metis
  obtain w2 where w2: "sivfs_put_anon_inode fuel task ino w1 = (OK, w2)" "task_wf held (opens (xs @ ys)) task w2" "fw_files w2 = fw_files w1"
      "fw_ws w2 task = (if opens files a \<le> 1 then without_anon ino (fw_ws w task) else fw_ws w task)" "fw_notif w2 task \<longleftrightarrow> fw_notif w task"
    using put_anon_inode_wf [OF wf1 _ opens_remove [of xs ys fi a, folded assms(3)], of ino fuel] ino ws1 w1_notif by auto
  have run: "sivfs_anon_release fuel a fi w = (OK, w2)"
    using fi x w2(1) ws1(2) by (simp add: sivfs_anon_release_def sivfs_put_finfo_def fput_def flip: w1_def)
  have sub: "files_wf task (xs @ ys) w" using assms(2) unfolding assms(3) files_wf_def by simp
  have "files_wf task (xs @ ys) w2"
  proof (rule files_wf_mono [OF sub])
    fix f b
    assume "(f, b) \<in> set (xs @ ys)"
    then have "fi_direct_access_file f \<in> set (map (fi_direct_access_file \<circ> fst) (xs @ ys))" by force
    moreover have "?f \<notin> set (map (fi_direct_access_file \<circ> fst) (xs @ ys))" using assms(2) unfolding assms(3) files_wf_def by simp
    ultimately have "fi_direct_access_file f \<noteq> ?f" by metis
    then show "fw_files w2 (fi_direct_access_file f) = fw_files w (fi_direct_access_file f)" using w2(3) by (simp add: w1_def)
  next
    fix j b
    assume j: "radix_tree_lookup (anon_inodes (fw_ws w task)) j = Some b" "opens (xs @ ys) b \<noteq> 0"
    have "j \<noteq> ino" if "opens files a \<le> 1" using that j ino unfolding assms(3) by (auto simp: opens_def)
    then show "radix_tree_lookup (anon_inodes (fw_ws w2 task)) j = Some b" using j(1) w2(4) by (auto simp: without_anon_def)
  qed
  moreover have "radix_tree_lookup (anon_inodes (fw_ws w task)) j = Some b \<and> (b = a \<longrightarrow> opens (xs @ ys) a \<noteq> 0)"
    if j: "radix_tree_lookup (anon_inodes (fw_ws w2 task)) j = Some b" for j b
  proof
    show old: "radix_tree_lookup (anon_inodes (fw_ws w task)) j = Some b"
      using j w2(4) by (auto simp: without_anon_def split: if_splits)
    show "b = a \<longrightarrow> opens (xs @ ys) a \<noteq> 0"
    proof
      assume "b = a"
      then have "j = ino" using ws_wf_lookup(2) [OF t(4), unfolded t(5) [symmetric], OF old]
          ws_wf_lookup(2) [OF t(4), unfolded t(5) [symmetric], OF ino] by simp
      then show "opens (xs @ ys) a \<noteq> 0" using j w2(4) opens_remove [of xs ys fi a, folded assms(3)]
        by (auto simp: without_anon_def split: if_splits)
    qed
  qed
  ultimately show ?thesis using run w2(2,5) by blast
qed

lemma lookup_filter_values:
  "radix_tree_lookup t i = Some v \<Longrightarrow> P v \<Longrightarrow> radix_tree_lookup (filter (\<lambda>(_, x). P x) t) i = Some v"
  by (induction t) (auto simp: radix_tree_lookup_def)

lemma file_reach_wf:
  "file_reach task c \<Longrightarrow> task_wf 0 (opens (snd c)) task (fst c) \<and> files_wf task (snd c) (fst c)"
proof (induction rule: file_reach.induct)
  case (start w)
  then show ?case by (simp add: task_wf_def files_wf_def)
next
  case (step c c')
  from step.hyps(2) step.IH show ?case
  proof (cases rule: file_step.cases)
    case (look_up env files w ra r d w')
    then show ?thesis using step.IH d_real_wf [of 0 "opens files" task w env ra r d w'] by (auto intro: files_wf_mono)
  next
    case (open_file w ino a env fi w' files)
    have wf: "task_wf 0 (opens files) task w" "files_wf task files w" using step.IH open_file by simp_all
    obtain f where f: "ae_direct_open env = Inr f" "fi = \<lparr>fi_state = task, fi_direct_access_file = f\<rparr>"
        "task_wf 0 ((opens files)(a := Suc (opens files a))) task w'" "fw_files w' = (fw_files w)(f \<mapsto> 1)" "fw_ws w' task = fw_ws w task"
      by (rule anon_open_cases [OF wf(1) open_file(3-5)]) auto
    have "(opens files)(a := Suc (opens files a)) = opens ((fi, a) # files)" by (simp add: opens_def fun_eq_iff)
    moreover have "files_wf task ((fi, a) # files) w'"
      using wf(2) f open_file(3,4) by (auto simp: files_wf_def)
    ultimately show ?thesis using f(3) open_file by simp
  next
    case (open_fails w ino a env e fi w' files)
    have wf: "task_wf 0 (opens files) task w" "files_wf task files w" using step.IH open_fails by simp_all
    have "w' = w" by (rule anon_open_cases [OF wf(1) open_fails(3-5)]) auto
    then show ?thesis using wf open_fails by simp
  next
    case (release fuel a fi w r w' xs ys)
    then show ?thesis using step.IH anon_release_wf [of 0 _ task w xs fi a ys fuel] by auto
  next
    case (map_file fi a files shared wr w r w')
    then show ?thesis using step.IH mmap_wf [of 0 "opens files" task w shared wr a fi r w'] by (auto intro: files_wf_mono)
  next
    case (commit env options lw w r aborted lw' w' files)
    then show ?thesis using step.IH commit_update_wf [of 0 "opens files" task w env options lw r aborted lw' w'] by (auto intro: files_wf_mono)
  next
    case (mm_released w fuel r w' files)
    have wf: "task_wf 0 (opens files) task w" "files_wf task files w" using step.IH mm_released by simp_all
    obtain v where v: "sivfs_mm_release fuel task w = (OK, v)" "task_wf 0 (opens files) task v" "fw_files v = fw_files w"
        "anon_inodes (fw_ws v task) = filter (\<lambda>(_, a). opens files a \<noteq> 0) (anon_inodes (fw_ws w task))"
      using mm_release_wf [OF wf(1) mm_released(3), of fuel] by auto
    have "radix_tree_lookup (anon_inodes (fw_ws v task)) j = Some b"
      if "radix_tree_lookup (anon_inodes (fw_ws w task)) j = Some b" "opens files b \<noteq> 0" for j b
      using that unfolding v(4) by (rule lookup_filter_values)
    then show ?thesis using mm_released v wf(2) by (auto intro: files_wf_mono)
  next
    case (others w' w files)
    then show ?thesis using step.IH own_view_wf [of 0 "opens files" task w w'] by (auto intro: files_wf_mono)
  qed
qed


section \<open>A task that ends\<close>

fun release_all :: "nat \<Rightarrow> open_file list \<Rightarrow> fs_world \<Rightarrow> rc \<times> fs_world" where
  "release_all fuel [] w = (OK, w)"
| "release_all fuel ((fi, a) # files) w =
     (case sivfs_anon_release fuel a fi w of (OK, w1) \<Rightarrow> release_all fuel files w1 | (r, w1) \<Rightarrow> (r, w1))"

lemma release_all_frees:
  assumes "task_wf 0 (opens files) task w" and "files_wf task files w" and "\<not> fw_notif w task"
    and "\<And>j b. radix_tree_lookup (anon_inodes (fw_ws w task)) j = Some b \<Longrightarrow> opens files b \<noteq> 0"
  shows "\<exists>w'. release_all fuel files w = (OK, w') \<and> fw_state w' task = None"
  using assms
proof (induction files arbitrary: w)
  case Nil
  have "fw_state w task = None"
  proof (rule ccontr)
    assume "fw_state w task \<noteq> None"
    then obtain s where s: "fw_state w task = Some s" by auto
    note t = task_wf_state [OF Nil.prems(1) s]
    have "anon_inodes (st_workingset s) = []"
    proof (cases "anon_inodes (st_workingset s)")
      case (Cons p t')
      then show ?thesis using Nil.prems(4) [of "fst p" "snd p"] t(5) by (cases p) (simp add: opens_def radix_tree_lookup_def)
    qed simp
    then show False using t(2,3) Nil.prems(3) s by (simp add: fw_notif_def)
  qed
  then show ?case by simp
next
  case (Cons f files)
  obtain fi a where f: "f = (fi, a)" by fastforce
  obtain w1 where w1: "sivfs_anon_release fuel a fi w = (OK, w1)" "task_wf 0 (opens files) task w1" "files_wf task files w1"
      "\<not> fw_notif w1 task" "\<And>j b. radix_tree_lookup (anon_inodes (fw_ws w1 task)) j = Some b \<Longrightarrow>
        radix_tree_lookup (anon_inodes (fw_ws w task)) j = Some b \<and> (b = a \<longrightarrow> opens files a \<noteq> 0)"
    using anon_release_wf [OF Cons.prems(1,2), of "[]" fi a files fuel] f Cons.prems(3) by auto
  have "opens files b \<noteq> 0" if "radix_tree_lookup (anon_inodes (fw_ws w1 task)) j = Some b" for j b
    using w1(5) [OF that] Cons.prems(4) [of j b] f by (auto simp: opens_def split: if_splits)
  from Cons.IH [OF w1(2-4) this] show ?case using w1(1) f by simp
qed

lemma exit_frees_state:
  assumes "file_reach task (w, files)" and "fw_notif w task"
  shows "\<exists>w1 w2. sivfs_mm_release fuel task w = (OK, w1) \<and> release_all fuel files w1 = (OK, w2) \<and> fw_state w2 task = None"
proof -
  have wf: "task_wf 0 (opens files) task w" "files_wf task files w" using file_reach_wf [OF assms(1)] by simp_all
  obtain v where v: "sivfs_mm_release fuel task w = (OK, v)" "task_wf 0 (opens files) task v" "fw_files v = fw_files w" "\<not> fw_notif v task"
      "anon_inodes (fw_ws v task) = filter (\<lambda>(_, a). opens files a \<noteq> 0) (anon_inodes (fw_ws w task))"
    using mm_release_wf [OF wf(1) assms(2), of fuel] by auto
  have "file_reach task (v, files)" using file_reach.step [OF assms(1) file_step.mm_released [OF assms(2) v(1)]] .
  then have "files_wf task files v" using file_reach_wf by fastforce
  moreover have "opens files b \<noteq> 0" if "radix_tree_lookup (anon_inodes (fw_ws v task)) j = Some b" for j b
    using that unfolding v(5) radix_tree_lookup_def by (auto dest!: map_of_SomeD)
  ultimately show ?thesis using release_all_frees [OF v(2) _ v(4)] v(1) by metis
qed

section \<open>Examples\<close>

definition ex_fs :: fs_world where
  "ex_fs = \<lparr>fw_tasks = \<lparr>tw_threads = [], tw_stats = zero_stats, tw_alloc = boot_heap, tw_allocs = []\<rparr>,
     fw_shared = ex_log, fw_cps = ex_cps ex_boot, fw_anon = (\<lambda>_. None), fw_dentries = (\<lambda>_. None), fw_files = (\<lambda>_. None),
     fw_isize = (\<lambda>_. 4096), fw_anon_size = (\<lambda>_. 0), fw_locked = []\<rparr>"

definition ex_anon_env :: anon_env where
  "ex_anon_env = \<lparr>ae_new_inode = Some 700, ae_iinfo_ok = True, ae_task_mm = True, ae_notifier = OK, ae_insert_inode = True,
     ae_dentry = Some 704, ae_insert_dentry = True, ae_finfo_ok = True, ae_direct_open = Inr 900, ae_commit = ex_env\<rparr>"

definition ex_lookup :: real_args where
  "ex_lookup = \<lparr>ra_is_dir = False, ra_is_negative = False, ra_has_sb = True, ra_dentry = 300, ra_d_inode = 304, ra_backing_ino = 5,
     ra_inode = 0, ra_open_flags = 0, ra_direct_access_creds = False\<rparr>"

lemmas fs_eval = fs_get_task_state_def sivfs_get_task_state_def radix_tree_lookup_def task_alloc_def sivfs_new_state_def radix_tree_insert_def
     fw_state_def sivfs_task_to_state_def sivfs_get_anon_inode_def get_anon_inode_new_def sivfs_create_anon_inode_def sivfs_get_inode_def
     sivfs_new_iinfo_def register_notifier_def set_fw_state_def set_info_def insert_anon_def fw_ws_def upd_ws_def sivfs_create_anon_dentry_def
     start_txn_def fs_put_task_state_def sivfs_put_task_state_def

lemmas txn_eval = fs_commit_update_def sivfs_commit_update_def my_sivfs_commit_update_def update_snapshot_def
     sivfs_allocation_on_commit_def allocation_commit_def allocation_abort_def checkout_checkpoint_def update_workingset_def sivfs_update_def
     fw_kernel_def set_fw_kernel_def fw_state_def sivfs_task_to_state_def set_fw_state_def radix_tree_lookup_def Let_def

lemma ex_opened:
  "\<exists>w fi w1. sivfs_d_real ex_anon_env 7 ex_lookup ex_fs = (OK, Some 704, w) \<and> fw_files w = (\<lambda>_. None) \<and>
     radix_tree_lookup (anon_inodes (fw_ws w 7)) 5 = Some 700 \<and> sivfs_anon_open ex_anon_env 7 700 w = (OK, Some fi, w1) \<and>
     fw_notif w1 7 \<and> fw_ws w1 7 = \<lparr>anon_inodes = [(5, 700)], anon_dentries = [(5, 704)]\<rparr> \<and> fw_isize w1 = (\<lambda>_. 4096) \<and>
     (\<exists>inode iinfo. fw_anon w1 700 = Some inode \<and> ai_info inode = Some iinfo \<and> ai_pages inode = [] \<and> ii_checkpoint_pages iinfo = [])"
  by (simp add: sivfs_d_real_def ex_lookup_def ex_anon_env_def ex_fs_def fs_eval fresh_state_def new_iinfo_def ex_env_def
      SIVFS_UNREFERENCED_def sivfs_init_workingset_def)
    (simp add: fs_eval txn_eval SIVFS_INVALID_TS_def ex_cps_def ex_log_def empty_log_def ex_world_def stat_inc_def zero_stats_def fw_notif_def
      sivfs_anon_open_def sivfs_open_direct_access_def anon_ref_def SIVFS_UNREFERENCED_def)

lemma ex_reach:
  "\<exists>w files. file_reach 7 (w, files) \<and> map snd files = [700] \<and> fw_notif w 7 \<and>
     fw_ws w 7 = \<lparr>anon_inodes = [(5, 700)], anon_dentries = [(5, 704)]\<rparr> \<and> fw_isize w = (\<lambda>_. 4096) \<and>
     (\<exists>inode iinfo. fw_anon w 700 = Some inode \<and> ai_info inode = Some iinfo \<and> ai_pages inode = [] \<and> ii_checkpoint_pages iinfo = [])"
proof -
  obtain w fi w1 where w: "sivfs_d_real ex_anon_env 7 ex_lookup ex_fs = (OK, Some 704, w)" "fw_files w = (\<lambda>_. None)"
      "radix_tree_lookup (anon_inodes (fw_ws w 7)) 5 = Some 700" "sivfs_anon_open ex_anon_env 7 700 w = (OK, Some fi, w1)"
      "fw_notif w1 7" "fw_ws w1 7 = \<lparr>anon_inodes = [(5, 700)], anon_dentries = [(5, 704)]\<rparr>" "fw_isize w1 = (\<lambda>_. 4096)"
      "\<exists>inode iinfo. fw_anon w1 700 = Some inode \<and> ai_info inode = Some iinfo \<and> ai_pages inode = [] \<and> ii_checkpoint_pages iinfo = []"
    using ex_opened by auto
  have "file_reach 7 (ex_fs, [])" by (rule file_reach.start) (simp_all add: threads_inv_def fw_state_lookup ex_fs_def radix_tree_lookup_def)
  moreover have "fresh_env ex_anon_env (opens []) ex_fs" by (simp add: fresh_env_def ex_anon_env_def ex_fs_def opens_def)
  ultimately have "file_reach 7 (w, [])" using file_reach.step file_step.look_up w(1) by blast
  moreover have "f \<noteq> 0 \<and> fw_files w f = None" if "ae_direct_open ex_anon_env = Inr f" for f using that w(2) by (simp add: ex_anon_env_def)
  ultimately have "file_reach 7 (w1, [(fi, 700)])" using file_reach.step file_step.open_file [OF w(3) _ w(4)] by blast
  then show ?thesis using w(5-8) by (intro exI [of _ w1] exI [of _ "[(fi, 700)]"]) simp
qed

section \<open>Properties\<close>

text \<open>
  C11: references are exact.  After any sequence of lookups, opens, closes, mappings, ends of transactions, ends of the address space and
  steps of other tasks, every open file refers to an anonymous inode of the working set; the count of every anonymous inode is the
  number of files open on it, and \<^verbatim>\<open>SIVFS_UNREFERENCED\<close> when there is none; and the count of the task's state is the number of its
  anonymous inodes, plus one while the notifier is registered.  So a state is there as long as a file is open.
\<close>

theorem file_references_exact:
  assumes "file_reach task (w, files)"
  shows "(\<forall>(fi, a) \<in> set files. fi_state fi = task \<and> (\<exists>ino. radix_tree_lookup (anon_inodes (fw_ws w task)) ino = Some a)) \<and>
    (\<forall>ino a. radix_tree_lookup (anon_inodes (fw_ws w task)) ino = Some a \<longrightarrow>
      (\<exists>inode iinfo. fw_anon w a = Some inode \<and> ai_info inode = Some iinfo \<and> ii_backing_ino iinfo = ino \<and> ii_state iinfo = task \<and>
        ii_refcount iinfo = (if opens files a = 0 then SIVFS_UNREFERENCED else int (opens files a)))) \<and>
    (\<forall>state. fw_state w task = Some state \<longrightarrow> 0 < nref state \<and>
      nref state = int (length (anon_inodes (st_workingset state))) + of_bool (notifier_registered state)) \<and>
    (fw_state w task = None \<longrightarrow> files = [])"
proof -
  have wf: "task_wf 0 (opens files) task w" and fs: "files_wf task files w" using file_reach_wf [OF assms] by simp_all
  have none: "radix_tree_lookup (anon_inodes (fw_ws w task)) ino = None" if "fw_state w task = None" for ino
    using that by (simp add: fw_ws_def sivfs_init_workingset_def radix_tree_lookup_def)
  have "\<exists>inode iinfo. fw_anon w a = Some inode \<and> ai_info inode = Some iinfo \<and> ii_backing_ino iinfo = ino \<and> ii_state iinfo = task \<and>
        ii_refcount iinfo = (if opens files a = 0 then SIVFS_UNREFERENCED else int (opens files a))"
    if l: "radix_tree_lookup (anon_inodes (fw_ws w task)) ino = Some a" for ino a
  proof -
    obtain s where s: "fw_state w task = Some s" using l none by fastforce
    show ?thesis using own_inode [OF task_wf_state(4) [OF wf s], folded task_wf_state(5) [OF wf s], OF l]
      by (metis open_count_def)
  qed
  moreover have "files = []" if "fw_state w task = None" using fs none [OF that] by (cases files) (auto simp: files_wf_def)
  ultimately show ?thesis using fs task_wf_state(2,3) [OF wf] by (auto simp: files_wf_def)
qed

theorem file_references_exact_witness:
  "\<exists>w files. file_reach 7 (w, files) \<and> (\<exists>inode iinfo. fw_anon w 700 = Some inode \<and> ai_info inode = Some iinfo \<and> ii_refcount iinfo = 1) \<and>
     (\<exists>state. fw_state w 7 = Some state \<and> nref state = 2)"
proof -
  obtain w files where w: "file_reach 7 (w, files)" "map snd files = [700]" "fw_notif w 7"
      "fw_ws w 7 = \<lparr>anon_inodes = [(5, 700)], anon_dentries = [(5, 704)]\<rparr>" using ex_reach by auto
  obtain state where st: "fw_state w 7 = Some state" "notifier_registered state" using w(3) by (auto simp: fw_notif_def)
  have "opens files 700 = 1" using w(2) by (auto simp: opens_def)
  moreover have "st_workingset state = \<lparr>anon_inodes = [(5, 700)], anon_dentries = [(5, 704)]\<rparr>" using w(4) st(1) by (simp add: fw_ws_def)
  ultimately show ?thesis using file_references_exact [OF w(1)] w st
    by (intro exI [of _ w] exI [of _ files]) (fastforce simp: radix_tree_lookup_def)
qed



text \<open>
  C33: the limit on opens frees a file twice.  When the anonymous inode has the largest reference count,
  \<^verbatim>\<open>sivfs_anon_open\<close> goes to the label that drops the direct access file and then drops it again with the information of
  the file, which already holds it.
\<close>

theorem open_at_limit_frees_file_twice:
  assumes "fw_state w current = Some state" and "fw_anon w a = Some inode" and "ai_info inode = Some iinfo"
    and "ii_refcount iinfo = SIVFS_IINFO_MAX_REFCOUNT" and "ae_finfo_ok env" and "ae_direct_open env = Inr f" and "f \<noteq> 0"
  shows "\<exists>w'. sivfs_anon_open env current a w = (UB, None, w')"
proof -
  have "anon_ref iinfo = (E EINVAL, iinfo)"
    using assms(4) by (simp add: anon_ref_def sivfs_iinfo_refct_inc_def SIVFS_IINFO_MAX_REFCOUNT_def SIVFS_UNREFERENCED_def)
  then show ?thesis using assms
    by (simp add: sivfs_anon_open_def sivfs_open_direct_access_def open_error2_def fput_def sivfs_put_finfo_def)
qed

definition ex_full :: fs_world where
  "ex_full = ex_fs\<lparr>fw_tasks := (fw_tasks ex_fs)\<lparr>tw_threads := [(7, fresh_state)]\<rparr>,
     fw_anon := [700 \<mapsto> \<lparr>ai_info = Some (new_iinfo\<lparr>ii_refcount := 100\<rparr>), ai_pages = [], ai_ptes = (\<lambda>_. None)\<rparr>]\<rparr>"

theorem open_at_limit_frees_file_twice_witness: "\<exists>w'. sivfs_anon_open ex_anon_env 7 700 ex_full = (UB, None, w')"
  using open_at_limit_frees_file_twice [of ex_full 7 fresh_state 700 _ "new_iinfo\<lparr>ii_refcount := 100\<rparr>" ex_anon_env 900]
  by (simp add: ex_full_def fw_state_lookup radix_tree_lookup_def ex_anon_env_def SIVFS_IINFO_MAX_REFCOUNT_def)

end
