(* ===== verification/Nontxnal.thy ===== *)
theory Nontxnal
  imports Anon_Refs
begin

text \<open>
  Operations outside of transactions: \<^verbatim>\<open>kern/sivfs_nontxnal_ops.c\<close> and \<^verbatim>\<open>sivfs_setattr\<close> of \<^verbatim>\<open>kern/inode.c\<close>.  Changing the size of a
  file is refused while the task has pages of the file mapped; otherwise the size is set and zeros are committed in 20000 transactions
  of 512 words.

  \<open>fw_isize\<close> are the sizes of the backing inodes.  \<open>te_oks i\<close> is the outcome of the allocation for the entry of word \<open>i\<close>
  and \<open>te_commits i\<close> the environment of the commit after it.  The pages of the backing inode, which \<^verbatim>\<open>truncate_setsize\<close> also
  drops, are not modelled: the contents of files are in the checkpoints and the log.
\<close>

section \<open>Checking\<close>

definition sivfs_check_nontxnal_op :: "anon_env \<Rightarrow> u64 \<Rightarrow> u64 \<Rightarrow> fs_world \<Rightarrow> rc \<times> bool \<times> fs_world" where
  "sivfs_check_nontxnal_op env backing_ino task w =
     (case sivfs_get_anon_inode env None task backing_ino 0 w of
        (OK, d, w1) \<Rightarrow>
          (case Option.bind d (fw_dentries w1) of
             None \<Rightarrow> (UB, False, w1)
           | Some de \<Rightarrow>
               (case fw_anon w1 (d_inode de) of
                  None \<Rightarrow> (UB, False, w1)
                | Some inode \<Rightarrow>
                    (let mapped = (if ai_pages inode \<noteq> [] then Some True
                                   else map_option (\<lambda>iinfo. \<not> sivfs_radix_tree_empty (ii_checkpoint_pages iinfo)) (ai_info inode))
                     in case mapped of
                          None \<Rightarrow> (UB, False, w1)
                        | Some m \<Rightarrow>
                            (case sivfs_put_anon_inode (ce_fuel (ae_commit env)) task backing_ino w1 of
                               (r, w2) \<Rightarrow> (r, \<not> m, w2)))))
      | (r, _, w1) \<Rightarrow> (r, False, w1))"

section \<open>Truncating\<close>

record trunc_env =
  te_anon :: anon_env
  te_oks :: "nat \<Rightarrow> bool"
  te_commits :: "nat \<Rightarrow> commit_env"

definition set_isize :: "u64 \<Rightarrow> u64 \<Rightarrow> fs_world \<Rightarrow> fs_world" where
  "set_isize ino offset w = w\<lparr>fw_isize := (fw_isize w)(ino := offset)\<rparr>"

definition zero_range :: nat where
  "zero_range = 512 * 20000"

text \<open>The memory of the entry for word \<open>i\<close>: inode number, file offset, address, stream control and value.\<close>

definition zero_entry :: "u64 \<Rightarrow> nat \<Rightarrow> u64 list" where
  "zero_entry ino i = [ino, of_nat i * 8, 0, 0, 0]"

fun add_zeros :: "(nat \<Rightarrow> bool) \<Rightarrow> u64 \<Rightarrow> nat list \<Rightarrow> sivfs_writeset \<Rightarrow> rc \<times> sivfs_writeset" where
  "add_zeros oks ino [] ws = (OK, ws)"
| "add_zeros oks ino (i # is) ws =
     (case sivfs_add_to_writeset (oks i) ws (zero_entry ino i) 40 of
        (OK, ws1) \<Rightarrow> add_zeros oks ino is ws1
      | (r, ws1) \<Rightarrow> (r, ws1))"

function commit_zeros :: "trunc_env \<Rightarrow> u64 \<Rightarrow> u64 \<Rightarrow> nat \<Rightarrow> sivfs_log_entry \<Rightarrow> fs_world \<Rightarrow> rc \<times> fs_world" where
  "commit_zeros env ino task i lw w =
     (if i \<ge> zero_range then (OK, w)
      else let i' = min (i + 512) zero_range in
        case add_zeros (te_oks env) ino [i ..< i'] (le_ws lw) of
          (OK, ws1) \<Rightarrow>
            (case fs_commit_update (te_commits env i) 0 (Some (lw\<lparr>le_ws := ws1\<rparr>)) task w of
               (OK, False, Some lw1, w1) \<Rightarrow>
                 commit_zeros env ino task i' (lw1\<lparr>le_ws := (le_ws lw1)\<lparr>size_bytes := 0\<rparr>\<rparr>) w1
             | (OK, True, _, w1) \<Rightarrow> (E EINVAL, w1)
             | (OK, False, None, w1) \<Rightarrow> (UB, w1)
             | (r, _, _, w1) \<Rightarrow> (r, w1))
        | (r, _) \<Rightarrow> (r, w))"
  by pat_completeness auto
termination by (relation "measure (\<lambda>(_, _, _, i, _, _). zero_range - i)") auto

definition sivfs_ftruncate :: "trunc_env \<Rightarrow> u64 \<Rightarrow> u64 \<Rightarrow> u64 \<Rightarrow> u64 \<Rightarrow> fs_world \<Rightarrow> rc \<times> fs_world" where
  "sivfs_ftruncate env task ino old_size offset w =
     (case sivfs_check_nontxnal_op (te_anon env) ino task w of
        (OK, allow, w1) \<Rightarrow>
          if \<not> allow then (E EINVAL, w1)
          else if old_size = offset then (OK, w1)
          else let w2 = set_isize ino offset w1;
                   lw = sivfs_init_log_entry\<lparr>le_ws_has_metadata := True\<rparr>
               in if offset \<noteq> 0 \<and> old_size \<noteq> 0 then (OK, set_isize ino old_size w2)
                  else (case commit_zeros env ino task 0 lw w2 of
                          (OK, w3) \<Rightarrow> (OK, w3)
                        | (r, w3) \<Rightarrow> (r, set_isize ino old_size w3))
      | (r, _, w1) \<Rightarrow> (r, w1))"

text \<open>\<open>prepare\<close> is the result of \<^verbatim>\<open>setattr_prepare\<close>, \<open>attr_size\<close> says that the size is to be changed.\<close>

definition sivfs_setattr :: "trunc_env \<Rightarrow> u64 \<Rightarrow> u64 \<Rightarrow> rc \<Rightarrow> bool \<Rightarrow> u64 \<Rightarrow> fs_world \<Rightarrow> rc \<times> fs_world" where
  "sivfs_setattr env current ino prepare attr_size ia_size w =
     (let fuel = ce_fuel (ae_commit (te_anon env)); old_size = fw_isize w ino in
      if prepare \<noteq> OK then (prepare, w)
      else if attr_size \<and> old_size \<noteq> ia_size then
        (case fs_get_task_state fuel current w of
           (OK, w1) \<Rightarrow>
             (case sivfs_ftruncate env current ino old_size ia_size w1 of
                (r, w2) \<Rightarrow> (r, fs_put_task_state fuel current w2))
         | (r, w1) \<Rightarrow> (r, w1))
      else (OK, w))"

declare commit_zeros.simps [simp del]

section \<open>What the check does to the references\<close>

lemma check_open_file:
  assumes "task_wf held cnt task w" and "radix_tree_lookup (anon_inodes (fw_ws w task)) ino = Some a" and "0 < cnt a" "cnt a < 100"
    and "fw_anon w a = Some inode" "ai_info inode = Some iinfo"
  shows "sivfs_check_nontxnal_op env ino task w =
    (OK, ai_pages inode = [] \<and> sivfs_radix_tree_empty (ii_checkpoint_pages iinfo), w)"
proof -
  obtain s where s: "fw_state w task = Some s"
    using assms(2) by (auto simp: fw_ws_def sivfs_init_workingset_def radix_tree_lookup_def split: option.splits)
  note t = task_wf_state [OF assms(1) s]
  have l: "radix_tree_lookup (anon_inodes (st_workingset s)) ino = Some a" using assms(2) t(5) by simp
  have rc: "ii_refcount iinfo = int (cnt a)" using own_inode [OF t(4) l] assms(3,5,6) by (metis open_count_def less_not_refl2 option.inject)
  obtain d where d: "radix_tree_lookup (anon_dentries (st_workingset s)) ino = Some d" using ws_wf_lookup(1) [OF t(4), of ino] l by auto
  have de: "fw_dentries w d = Some \<lparr>d_inode = a, d_count = 1\<rparr>" using ws_wf_lookup(3) [OF t(4) d] l by auto
  define w1 where "w1 = set_info a (\<lambda>_. Some (iinfo\<lparr>ii_refcount := int (cnt a) + 1\<rparr>)) w"
  have get: "sivfs_get_anon_inode env None task ino 0 w = (OK, Some d, w1)"
    using s d de assms(3-6) rc
    by (simp add: sivfs_get_anon_inode_def anon_ref_def sivfs_iinfo_refct_inc_def SIVFS_IINFO_MAX_REFCOUNT_def SIVFS_UNREFERENCED_def w1_def)
  have w1: "fw_state w1 task = Some s" "fw_dentries w1 d = Some \<lparr>d_inode = a, d_count = 1\<rparr>"
    "fw_anon w1 a = Some (inode\<lparr>ai_info := Some (iinfo\<lparr>ii_refcount := int (cnt a) + 1\<rparr>)\<rparr>)"
    using s de assms(5) by (simp_all add: w1_def) (simp add: set_info_def)
  have "set_info a (\<lambda>_. Some (iinfo\<lparr>ii_refcount := int (cnt a)\<rparr>)) w1 = w"
    using assms(5,6) rc by (simp add: w1_def set_info_def fun_upd_idem)
  then have "sivfs_put_anon_inode fuel task ino w1 = (OK, w)" for fuel
    using w1 l assms(3) by (simp add: sivfs_put_anon_inode_def SIVFS_UNREFERENCED_def)
  then show ?thesis using get w1 by (simp add: sivfs_check_nontxnal_op_def)
qed


lemma check_unopened_file:
  assumes "task_wf held cnt task w" and "radix_tree_lookup (anon_inodes (fw_ws w task)) ino = Some a" and "cnt a = 0"
    and "fw_anon w a = Some inode" "ai_info inode = Some iinfo"
  shows "\<exists>w'. sivfs_check_nontxnal_op env ino task w =
      (OK, ai_pages inode = [] \<and> sivfs_radix_tree_empty (ii_checkpoint_pages iinfo), w') \<and>
    radix_tree_lookup (anon_inodes (fw_ws w' task)) ino = None \<and> task_wf held cnt task w'"
proof -
  obtain s where s: "fw_state w task = Some s"
    using assms(2) by (auto simp: fw_ws_def sivfs_init_workingset_def radix_tree_lookup_def split: option.splits)
  note t = task_wf_state [OF assms(1) s]
  have l: "radix_tree_lookup (anon_inodes (st_workingset s)) ino = Some a" using assms(2) t(5) by simp
  have rc: "ii_refcount iinfo = SIVFS_UNREFERENCED" using own_inode [OF t(4) l] assms(3-5) by (metis open_count_def option.inject)
  obtain d where d: "radix_tree_lookup (anon_dentries (st_workingset s)) ino = Some d" using ws_wf_lookup(1) [OF t(4), of ino] l by auto
  have de: "fw_dentries w d = Some \<lparr>d_inode = a, d_count = 1\<rparr>" using ws_wf_lookup(3) [OF t(4) d] l by auto
  define w1 where "w1 = set_info a (\<lambda>_. Some (iinfo\<lparr>ii_refcount := open_count 1\<rparr>)) w"
  note c = set_info_count_wf [OF assms(1,2,4,5)]
  have get: "sivfs_get_anon_inode env None task ino 0 w = (OK, Some d, w1)"
    using s d de assms(3-5) rc by (simp add: sivfs_get_anon_inode_def anon_ref_def w1_def open_count_def)
  have wf1: "task_wf held (cnt(a := 1)) task w1" "radix_tree_lookup (anon_inodes (fw_ws w1 task)) ino = Some a"
    using c(1) [of 1] c(2) assms(2) by (simp_all add: w1_def)
  have same: "cnt = (cnt(a := 1))(a := (cnt(a := 1)) a - 1)" using assms(3) by (simp add: fun_eq_iff)
  obtain w2 where w2: "sivfs_put_anon_inode (ce_fuel (ae_commit env)) task ino w1 = (OK, w2)" "task_wf held cnt task w2"
      "fw_ws w2 task = without_anon ino (fw_ws w1 task)"
    using put_anon_inode_wf [OF wf1 same, of "ce_fuel (ae_commit env)"] by auto
  have "fw_dentries w1 d = Some \<lparr>d_inode = a, d_count = 1\<rparr>"
    "fw_anon w1 a = Some (inode\<lparr>ai_info := Some (iinfo\<lparr>ii_refcount := open_count 1\<rparr>)\<rparr>)"
    using de assms(4) by (simp_all add: w1_def) (simp add: set_info_def)
  then show ?thesis using get w2 by (simp add: sivfs_check_nontxnal_op_def without_anon_def)
qed

lemma check_without_inode:
  assumes "fw_state w task = Some s" and "radix_tree_lookup (anon_dentries (st_workingset s)) ino = None"
  shows "sivfs_check_nontxnal_op env ino task w = (UB, False, w)"
  using assms by (simp add: sivfs_check_nontxnal_op_def sivfs_get_anon_inode_def get_anon_inode_new_def)

section \<open>Changing the size of a file\<close>

lemma set_isize_frame [simp]: "fw_state (set_isize ino n w) task = fw_state w task" "fw_tasks (set_isize ino n w) = fw_tasks w"
  by (simp_all add: set_isize_def fw_state_lookup)

lemma set_isize_back: "fw_isize w ino = n \<Longrightarrow> set_isize ino n (set_isize ino m w) = w"
  by (simp add: set_isize_def fun_upd_idem)

lemma isize_frame [simp]:
  "fw_isize (set_info a f w) = fw_isize w" "fw_isize (iput a w) = fw_isize w" "fw_isize (dput d w) = fw_isize w"
  "fw_isize (fs_put_task_state fuel task w) = fw_isize w" "fw_isize (upd_ws task g w) = fw_isize w" "fw_isize (set_fw_state task s w) = fw_isize w"
  by (simp_all add: set_info_def iput_def dput_def fs_put_task_state_def upd_ws_def set_fw_state_def split: option.splits)

lemma put_anon_inode_isize: "sivfs_put_anon_inode fuel task ino w = (r, w') \<Longrightarrow> fw_isize w' = fw_isize w"
  by (auto simp: sivfs_put_anon_inode_def del_anon_inode_def del_anon_dentry_def Let_def split: option.splits if_splits)

lemma check_isize:
  assumes "sivfs_check_nontxnal_op env ino task w = (r, allow, w')"
  shows "fw_isize w' = fw_isize w"
proof -
  obtain r1 d w1 where g: "sivfs_get_anon_inode env None task ino 0 w = (r1, d, w1)" by (metis surj_pair)
  then have "fw_isize w1 = fw_isize w"
    by (auto simp: sivfs_get_anon_inode_def get_anon_inode_new_def split: option.splits prod.splits rc.splits)
  moreover have "fw_isize w' = fw_isize w1" using assms g
    by (auto simp: sivfs_check_nontxnal_op_def Let_def dest: put_anon_inode_isize split: rc.splits option.splits prod.splits)
  ultimately show ?thesis by simp
qed

lemma commit_update_isize: "fs_commit_update env options lw task w = (r, b, lw', w') \<Longrightarrow> fw_isize w' = fw_isize w"
  by (auto simp: fs_commit_update_def set_fw_kernel_def split: option.splits prod.splits)

lemma commit_zeros_isize: "commit_zeros env ino task i lw w = (r, w') \<Longrightarrow> fw_isize w' = fw_isize w"
proof (induction env ino task i lw w rule: commit_zeros.induct)
  case (1 env ino task i lw w)
  define i' where "i' = min (i + 512) zero_range"
  obtain r1 ws1 where z: "add_zeros (te_oks env) ino [i ..< i'] (le_ws lw) = (r1, ws1)" by fastforce
  obtain r2 b lw1 w1 where c: "fs_commit_update (te_commits env i) 0 (Some (lw\<lparr>le_ws := ws1\<rparr>)) task w = (r2, b, lw1, w1)" by (metis surj_pair)
  note k = commit_update_isize [OF c]
  show ?case
  proof (cases "i \<ge> zero_range \<or> r1 \<noteq> OK \<or> r2 \<noteq> OK \<or> b \<or> lw1 = None")
    case True
    then show ?thesis using "1.prems" z c k unfolding commit_zeros.simps [of env ino task i lw w] i'_def [symmetric] Let_def
      by (auto split: if_splits rc.splits option.splits bool.splits)
  next
    case False
    then obtain lw2 where lw2: "lw1 = Some lw2" by auto
    then have "commit_zeros env ino task i' (lw2\<lparr>le_ws := (le_ws lw2)\<lparr>size_bytes := 0\<rparr>\<rparr>) w1 = (r, w')"
      using "1.prems" z c False unfolding commit_zeros.simps [of env ino task i lw w] i'_def [symmetric] Let_def by simp
    then show ?thesis using "1.IH" [OF _ i'_def z [symmetric] _ c [symmetric]] False lw2 k by auto
  qed
qed

text \<open>The reference that \<open>sivfs_setattr\<close> takes keeps the conditions of the check.\<close>

lemma setattr_open_file:
  assumes "task_wf 0 cnt task w" and "radix_tree_lookup (anon_inodes (fw_ws w task)) ino = Some a" and "0 < cnt a" "cnt a < 100"
    and "fw_anon w a = Some inode" "ai_info inode = Some iinfo" and "fw_isize w ino \<noteq> n"
  defines "unmapped \<equiv> ai_pages inode = [] \<and> sivfs_radix_tree_empty (ii_checkpoint_pages iinfo)"
  shows "\<not> unmapped \<Longrightarrow> sivfs_setattr env task ino OK True n w = (E EINVAL, w)"
    and "unmapped \<Longrightarrow> n \<noteq> 0 \<Longrightarrow> fw_isize w ino \<noteq> 0 \<Longrightarrow> sivfs_setattr env task ino OK True n w = (OK, w)"
proof -
  obtain s where s: "fw_state w task = Some s"
    using assms(2) by (auto simp: fw_ws_def sivfs_init_workingset_def radix_tree_lookup_def split: option.splits)
  define w1 where "w1 = set_fw_state task (s\<lparr>nref := nref s + 1\<rparr>) w"
  have get: "fs_get_task_state fuel task w = (OK, w1)" for fuel
    using s by (simp add: fs_get_task_state_def sivfs_get_task_state_def w1_def set_fw_state_def flip: fw_state_lookup)
  have put: "fs_put_task_state fuel task w1 = w" for fuel
  proof -
    have "rt_ins task s (tw_threads (fw_tasks w)) = tw_threads (fw_tasks w)"
      using s task_wf_state(1) [OF assms(1) s] by (simp add: rt_ins_same threads_inv_def fw_state_lookup)
    then show ?thesis using task_wf_state(3) [OF assms(1) s] s
      by (simp add: w1_def fs_put_task_state_def sivfs_put_task_state_def set_fw_state_def radix_tree_lookup_def rt_ins_ins)
  qed
  have wf1: "task_wf 1 cnt task w1" using get_task_state_wf(5) [OF assms(1) get] by simp
  have ws1: "fw_ws w1 task = fw_ws w task" using s by (simp add: w1_def fw_ws_def)
  have "fw_anon w1 a = Some inode" using assms(5) by (simp add: w1_def)
  note check = check_open_file [OF wf1 assms(2) [folded ws1] assms(3,4) this assms(6), folded unmapped_def]
  have sz: "fw_isize w1 ino = fw_isize w ino" by (simp add: w1_def set_fw_state_def)
  show "sivfs_setattr env task ino OK True n w = (E EINVAL, w)" if "\<not> unmapped"
    using that get put check assms(7) by (simp add: sivfs_setattr_def sivfs_ftruncate_def)
  show "sivfs_setattr env task ino OK True n w = (OK, w)" if "unmapped" "n \<noteq> 0" "fw_isize w ino \<noteq> 0"
    using that get put check assms(7) set_isize_back [OF sz] by (simp add: sivfs_setattr_def sivfs_ftruncate_def)
qed


section \<open>Properties\<close>

lemma reach_own_inode:
  assumes "file_reach task (w, files)" and "radix_tree_lookup (anon_inodes (fw_ws w task)) ino = Some a"
  shows "task_wf 0 (opens files) task w" and "\<exists>inode iinfo. fw_anon w a = Some inode \<and> ai_info inode = Some iinfo"
proof -
  show wf: "task_wf 0 (opens files) task w" using file_reach_wf [OF assms(1)] by simp
  obtain s where s: "fw_state w task = Some s"
    using assms(2) by (auto simp: fw_ws_def sivfs_init_workingset_def radix_tree_lookup_def split: option.splits)
  have "radix_tree_lookup (anon_inodes (st_workingset s)) ino = Some a" using assms(2) task_wf_state(5) [OF wf s] by simp
  from own_inode [OF task_wf_state(4) [OF wf s] this]
  show "\<exists>inode iinfo. fw_anon w a = Some inode \<and> ai_info inode = Some iinfo" by metis
qed

text \<open>
  What the check for a non-transactional operation does.  For a file that the task has looked up it returns whether no page of the file is
  mapped.  When the file is open, the reference taken is given back and nothing changes.  When the file was looked up but
  never opened, giving the reference back frees its anonymous inode, although the callers of \<^verbatim>\<open>sivfs_d_real\<close> still hold it.
\<close>

theorem nontxnal_check_frees_unopened_inode:
  assumes "file_reach task (w, files)" and "radix_tree_lookup (anon_inodes (fw_ws w task)) ino = Some a" and "opens files a < 100"
  shows "\<exists>inode iinfo w'. fw_anon w a = Some inode \<and> ai_info inode = Some iinfo \<and>
    sivfs_check_nontxnal_op env ino task w = (OK, ai_pages inode = [] \<and> sivfs_radix_tree_empty (ii_checkpoint_pages iinfo), w') \<and>
    (if opens files a = 0 then radix_tree_lookup (anon_inodes (fw_ws w' task)) ino = None else w' = w)"
proof -
  note own = reach_own_inode [OF assms(1,2)]
  obtain inode iinfo where i: "fw_anon w a = Some inode" "ai_info inode = Some iinfo" using own(2) by blast
  show ?thesis
  proof (cases "opens files a = 0")
    case True
    then show ?thesis using check_unopened_file [OF own(1) assms(2) True i, of env] i by auto
  next
    case False
    then show ?thesis using check_open_file [OF own(1) assms(2) _ assms(3) i, of env] i by simp
  qed
qed

theorem nontxnal_check_frees_unopened_inode_witness:
  "\<exists>w files. file_reach 7 (w, files) \<and> sivfs_check_nontxnal_op ex_anon_env 5 7 w = (OK, True, w)"
proof -
  obtain w files where w: "file_reach 7 (w, files)" "map snd files = [700]" "fw_ws w 7 = \<lparr>anon_inodes = [(5, 700)], anon_dentries = [(5, 704)]\<rparr>"
    "\<exists>inode iinfo. fw_anon w 700 = Some inode \<and> ai_info inode = Some iinfo \<and> ai_pages inode = [] \<and> ii_checkpoint_pages iinfo = []"
    using ex_reach by auto
  have l: "radix_tree_lookup (anon_inodes (fw_ws w 7)) 5 = Some 700" using w(3) by (simp add: radix_tree_lookup_def)
  have o: "opens files 700 = 1" using w(2) by (auto simp: opens_def)
  show ?thesis using nontxnal_check_frees_unopened_inode [OF w(1) l, of ex_anon_env] o w(1,4)
    by (auto simp: sivfs_radix_tree_empty_def rt_from_def)
qed

text \<open>
  Changing the size of an open file.  While pages of the file are mapped, \<^verbatim>\<open>sivfs_setattr\<close> refuses and changes nothing.  Otherwise
  a change from one nonempty size to another, which the code marks as not implemented, is undone with the return code 0:
  the caller is told that the file has the new size, and it has the old one.
\<close>

theorem resize_nonempty_reports_success:
  assumes "file_reach task (w, files)" and "radix_tree_lookup (anon_inodes (fw_ws w task)) ino = Some a"
    and "0 < opens files a" "opens files a < 100" and "fw_isize w ino \<noteq> n"
    and "fw_anon w a = Some inode" and "ai_info inode = Some iinfo"
  defines "unmapped \<equiv> ai_pages inode = [] \<and> sivfs_radix_tree_empty (ii_checkpoint_pages iinfo)"
  shows "(\<not> unmapped \<longrightarrow> sivfs_setattr env task ino OK True n w = (E EINVAL, w)) \<and>
    (unmapped \<longrightarrow> n \<noteq> 0 \<longrightarrow> fw_isize w ino \<noteq> 0 \<longrightarrow> sivfs_setattr env task ino OK True n w = (OK, w))"
  using setattr_open_file [OF reach_own_inode(1) [OF assms(1,2)] assms(2-4,6,7,5), of env] unfolding unmapped_def by blast

definition ex_trunc_env :: trunc_env where
  "ex_trunc_env = \<lparr>te_anon = ex_anon_env, te_oks = (\<lambda>_. True), te_commits = (\<lambda>_. ex_env)\<rparr>"

theorem resize_nonempty_reports_success_witness:
  "\<exists>w files. file_reach 7 (w, files) \<and> fw_isize w 5 = 4096 \<and> sivfs_setattr ex_trunc_env 7 5 OK True 8192 w = (OK, w)"
proof -
  obtain w files where w: "file_reach 7 (w, files)" "map snd files = [700]" "fw_ws w 7 = \<lparr>anon_inodes = [(5, 700)], anon_dentries = [(5, 704)]\<rparr>"
    "fw_isize w = (\<lambda>_. 4096)"
    "\<exists>inode iinfo. fw_anon w 700 = Some inode \<and> ai_info inode = Some iinfo \<and> ai_pages inode = [] \<and> ii_checkpoint_pages iinfo = []"
    using ex_reach by auto
  then obtain inode iinfo where i: "fw_anon w 700 = Some inode" "ai_info inode = Some iinfo" "ai_pages inode = []" "ii_checkpoint_pages iinfo = []" by auto
  have l: "radix_tree_lookup (anon_inodes (fw_ws w 7)) 5 = Some 700" using w(3) by (simp add: radix_tree_lookup_def)
  have o: "0 < opens files 700" "opens files 700 < 100" using w(2) by (auto simp: opens_def)
  have n: "fw_isize w 5 \<noteq> 8192" using w(4) by simp
  show ?thesis using resize_nonempty_reports_success [OF w(1) l o n i(1,2), of ex_trunc_env] i w(1,4)
    by (auto simp: sivfs_radix_tree_empty_def rt_from_def)
qed

text \<open>
  C35: changing the size of a file that the task has not opened.  \<^verbatim>\<open>sivfs_get_anon_inode\<close> without \<^verbatim>\<open>SIVFS_CREATE\<close> returns success and an
  uninitialised pointer, which \<^verbatim>\<open>sivfs_check_nontxnal_op\<close> follows.
\<close>

theorem resize_unopened_follows_garbage:
  assumes "fw_state w task = Some state" and "radix_tree_lookup (anon_dentries (st_workingset state)) ino = None"
    and "fw_isize w ino \<noteq> n"
  shows "\<exists>w'. sivfs_setattr env task ino OK True n w = (UB, w')"
proof -
  define w1 where "w1 = set_fw_state task (state\<lparr>nref := nref state + 1\<rparr>) w"
  have "fs_get_task_state fuel task w = (OK, w1)" for fuel
    using assms(1) by (simp add: fs_get_task_state_def sivfs_get_task_state_def w1_def set_fw_state_def flip: fw_state_lookup)
  moreover have "sivfs_check_nontxnal_op (te_anon env) ino task w1 = (UB, False, w1)"
    by (rule check_without_inode [of _ _ "state\<lparr>nref := nref state + 1\<rparr>"]) (use assms(2) in \<open>simp_all add: w1_def\<close>)
  ultimately show ?thesis using assms(3) by (simp add: sivfs_setattr_def sivfs_ftruncate_def)
qed

theorem resize_unopened_follows_garbage_witness: "\<exists>w'. sivfs_setattr ex_trunc_env 7 9 OK True 0 ex_full = (UB, w')"
  using resize_unopened_follows_garbage [of ex_full 7 fresh_state 9 0 ex_trunc_env]
  by (simp add: ex_full_def ex_fs_def fw_state_lookup radix_tree_lookup_def fresh_state_def sivfs_init_workingset_def)



definition ex_mapped :: fs_world where
  "ex_mapped = ex_fs\<lparr>fw_tasks := (fw_tasks ex_fs)\<lparr>tw_threads :=
       [(7, fresh_state\<lparr>st_workingset := \<lparr>anon_inodes = [(5, 700)], anon_dentries = [(5, 704)]\<rparr>\<rparr>)]\<rparr>,
     fw_dentries := [704 \<mapsto> \<lparr>d_inode = 700, d_count = 1\<rparr>],
     fw_anon := [700 \<mapsto> \<lparr>ai_info = Some (new_iinfo\<lparr>ii_backing_ino := 5, ii_state := 7, ii_refcount := 1\<rparr>),
       ai_pages = [(1, \<lparr>wp_addr = 4096, wp_mem = (\<lambda>_. 0), wp_dirty = False, wp_uptodate = True\<rparr>)], ai_ptes = (\<lambda>_. None)\<rparr>]\<rparr>"


end
