(* ===== verification/Sivfs_Module.thy ===== *)
theory Sivfs_Module
  imports Nontxnal
begin

text \<open>
  The requests of user space, \<^verbatim>\<open>kern/module.c\<close>: ending a transaction, pausing, statistics, and allocation and freeing of blocks, with
  the creation and teardown of the allocator information of a file (\<^verbatim>\<open>kern/sivfs_inode_info.h\<close>, \<^verbatim>\<open>kern/alloc/sivfs_allocation.h\<close>).

  \<^item> What \<^verbatim>\<open>copy_from_user\<close> reads is a field of \<open>user_env\<close>, \<open>None\<close> when the memory is not accessible.  The arguments of a
    commit are read twice, and another thread of the process may change them in between.
  \<^item> The buffer of a writeset is copied in whole words; the bytes of an incomplete last word are never read by the
    loops over a writeset, since an entry has at least five words.  \<open>ue_entries\<close> are the accessible words of the buffer.  What a copy that faults
    leaves in the destination is left out: its size is not updated and the next copy overwrites it.
  \<^item> A file is named by the number of its backing inode; \<open>mw_iinfo\<close> gives the pointer \<^verbatim>\<open>alloc_info\<close> of its information.
  \<^item> Printing of page information (\<^verbatim>\<open>sivfs_ioctl_get_page_info\<close>) reads page tables only and is left out.
\<close>

section \<open>Arguments\<close>

record sivfs_args_t =
  arg_aborted :: bool
  arg_ws_size :: u64
  arg_abort :: bool
  arg_wants_direct_access :: bool

record sivfs_allocator_args_t =
  arg_mmap_start :: u64
  arg_mmap_size :: u64
  arg_alloc_ret :: u64
  arg_alloc_size :: u64
  arg_zone :: u64
  arg_block_alloc :: u64

record user_env =
  ue_args :: "sivfs_args_t option"
  ue_args_again :: "sivfs_args_t option"
  ue_entries :: "u64 list option"
  ue_reserve_ok :: bool
  ue_copy_out_ok :: bool
  ue_commit :: commit_env

definition MAX_COMMIT_SIZE :: u64 where
  "MAX_COMMIT_SIZE = 4096 * 64"

section \<open>Ending a transaction\<close>

definition sivfs_copy_argstruct_to_log_entry :: "user_env \<Rightarrow> sivfs_log_entry \<Rightarrow> rc \<times> sivfs_log_entry" where
  "sivfs_copy_argstruct_to_log_entry ue log_dest =
     (case ue_args_again ue of
        None \<Rightarrow> (E EFAULT, log_dest)
      | Some shallow \<Rightarrow>
          if arg_ws_size shallow AND SIVFS_WRITESET_DISABLED_FLAG \<noteq> 0 then (E EFAULT, log_dest)
          else if arg_ws_size shallow > MAX_COMMIT_SIZE then (E EFAULT, log_dest)
          else (case sivfs_writeset_reserve (ue_reserve_ok ue) (le_ws log_dest) (arg_ws_size shallow) of
                  (OK, ws) \<Rightarrow>
                    (case ue_entries ue of
                       None \<Rightarrow> (E EFAULT, log_dest\<lparr>le_ws := ws\<rparr>)
                     | Some src \<Rightarrow>
                         if length src < words_of_bytes (arg_ws_size shallow) then (E EFAULT, log_dest\<lparr>le_ws := ws\<rparr>)
                         else
                         (case memcpy_words (entries ws) 0 src (words_of_bytes (arg_ws_size shallow)) of
                            None \<Rightarrow> (UB, log_dest\<lparr>le_ws := ws\<rparr>)
                          | Some buf \<Rightarrow>
                              (OK, log_dest\<lparr>le_ws := ws\<lparr>entries := buf, size_bytes := arg_ws_size shallow\<rparr>,
                                            le_aborted := False, le_ws_has_metadata := False\<rparr>)))
                | (r, ws) \<Rightarrow> (r, log_dest\<lparr>le_ws := ws\<rparr>)))"

definition set_tmp_log :: "u64 \<Rightarrow> sivfs_log_entry \<Rightarrow> fs_world \<Rightarrow> fs_world" where
  "set_tmp_log task lw w =
     (case fw_state w task of None \<Rightarrow> w | Some state \<Rightarrow> set_fw_state task (state\<lparr>tmp_log_writeset := lw\<rparr>) w)"

definition commit_options :: "sivfs_args_t \<Rightarrow> u64" where
  "commit_options args =
     (if arg_abort args then SIVFS_ABORT_FLAG else 0) OR (if arg_wants_direct_access args then SIVFS_DIRECT_ACCESS else 0)"

text \<open>The result carries the arguments written to user space, if any.\<close>

definition sivfs_ioctl_commit_update :: "user_env \<Rightarrow> u64 \<Rightarrow> fs_world \<Rightarrow> rc \<times> sivfs_args_t option \<times> fs_world" where
  "sivfs_ioctl_commit_update ue current w =
     (case fw_state w current of
        None \<Rightarrow> (E ENOMEM, None, w)
      | Some state \<Rightarrow>
          (case ue_args ue of
             None \<Rightarrow> (E EFAULT, None, w)
           | Some args \<Rightarrow>
               (case sivfs_copy_argstruct_to_log_entry ue (tmp_log_writeset state) of
                  (OK, log) \<Rightarrow>
                    (case fs_commit_update (ue_commit ue) (commit_options args) (Some log) current (set_tmp_log current log w) of
                       (r, aborted, log1, w1) \<Rightarrow>
                         let w2 = (case log1 of None \<Rightarrow> w1 | Some l \<Rightarrow> set_tmp_log current l w1) in
                         if r \<noteq> OK then (r, None, w2)
                         else if \<not> ue_copy_out_ok ue then (E EFAULT, None, w2)
                         else (OK, Some (args\<lparr>arg_aborted := aborted, arg_ws_size := 0\<rparr>), w2))
                | (r, log) \<Rightarrow> (r, None, set_tmp_log current log w))))"

section \<open>Pausing\<close>

definition sivfs_ioctl_txn_pause :: "u64 \<Rightarrow> fs_world \<Rightarrow> rc \<times> fs_world" where
  "sivfs_ioctl_txn_pause current w =
     (case fw_state w current of
        None \<Rightarrow> (E ENOMEM, w)
      | Some state \<Rightarrow>
          (case sivfs_invalidate_workingset (st_workingset state) 0 (fw_anon w) of
             (OK, h) \<Rightarrow>
               (OK, set_fw_state current (state\<lparr>txn_ts := SIVFS_INVALID_TS, st_checkpoint_ts := SIVFS_INVALID_TS,
                      st_prior_checkpoint_ts := SIVFS_INVALID_TS, st_checkpoint := 0\<rparr>) (w\<lparr>fw_anon := h\<rparr>))
           | (r, h) \<Rightarrow> (r, w\<lparr>fw_anon := h\<rparr>)))"

section \<open>Statistics\<close>

definition sivfs_ioctl_get_stats :: "bool \<Rightarrow> bool \<Rightarrow> fs_world \<Rightarrow> rc \<times> sivfs_stats option \<times> fs_world" where
  "sivfs_ioctl_get_stats copy_in_ok copy_out_ok w =
     (if \<not> copy_in_ok then (E EFAULT, None, w)
      else let w1 = w\<lparr>fw_tasks := sivfs_update_stats (fw_tasks w)\<rparr> in
           if \<not> copy_out_ok then (E EFAULT, None, w1) else (OK, Some (tw_stats (fw_tasks w1)), w1))"

section \<open>The allocator information of a file\<close>

definition sivfs_new_allocator_info :: "u64 option \<Rightarrow> alloc_heap \<Rightarrow> rc \<times> u64 \<times> alloc_heap" where
  "sivfs_new_allocator_info kzalloc h =
     (case kzalloc of
        None \<Rightarrow> (E ENOMEM, 0, h)
      | Some a \<Rightarrow> (OK, a, set_ainfo a \<lparr>bestfit_list = [], pginfo_tree = []\<rparr> h))"

definition put_pginfo :: "u64 \<times> sivfs_allocator_pginfo \<Rightarrow> alloc_heap \<Rightarrow> alloc_heap" where
  "put_pginfo p h = (if starts_chunk (snd p) \<noteq> 0 then sivfs_put_alloc_chunk h (starts_chunk (snd p)) else h)"

text \<open>A round visits the first 16 records of the tree and deletes them from it.\<close>

function destroy_rounds :: "sivfs_allocator_pginfo rt \<Rightarrow> alloc_heap \<Rightarrow> alloc_heap" where
  "destroy_rounds t h =
     (let batch = take 16 (rt_from t 0) in
      if batch = [] then h
      else destroy_rounds (fold (\<lambda>i t. radix_tree_delete t i) (map fst batch) t) (fold put_pginfo batch h))"
  by pat_completeness auto

lemma batch_shorter:
  assumes "take (Suc n) t \<noteq> []"
  shows "length (filter (\<lambda>(j, _). j \<notin> set (map fst (take (Suc n) t))) t) < length t"
  using assms by (cases t) (auto intro: le_imp_less_Suc length_filter_le)

termination destroy_rounds
  by (relation "measure (\<lambda>(t, _). length t)") (use batch_shorter [of 15] in \<open>auto simp: fold_delete_eq numeral_eq_Suc simp del: set_map\<close>)

declare destroy_rounds.simps [simp del]

definition sivfs_put_allocator_info :: "u64 \<Rightarrow> alloc_heap \<Rightarrow> alloc_heap" where
  "sivfs_put_allocator_info a h =
     (if a = 0 then h
      else case ah_infos h a of
        None \<Rightarrow> h
      | Some ainfo \<Rightarrow>
          (let h1 = destroy_rounds (pginfo_tree ainfo) h in h1\<lparr>ah_infos := (ah_infos h1)(a := None)\<rparr>))"

text \<open>Run alone, the exchange at the end of \<open>sivfs_iinfo_get_alloc_info\<close> finds no other allocator information.\<close>

definition sivfs_iinfo_get_alloc_info :: "u64 option \<Rightarrow> u64 \<Rightarrow> alloc_heap \<Rightarrow> rc \<times> u64 \<times> alloc_heap" where
  "sivfs_iinfo_get_alloc_info kzalloc alloc_info h =
     (if alloc_info \<noteq> 0 then (OK, alloc_info, h)
      else case sivfs_new_allocator_info kzalloc h of
        (OK, a, h1) \<Rightarrow>
          (case sivfs_alloc_info_recover h1 a False of
             (OK, h2) \<Rightarrow> (OK, a, h2)
           | (r, h2) \<Rightarrow> (r, 0, sivfs_put_allocator_info a h2))
      | (r, _, h1) \<Rightarrow> (r, 0, h1))"

section \<open>Allocating and freeing blocks\<close>

record module_world =
  mw_fs :: fs_world
  mw_iinfo :: "u64 \<Rightarrow> u64 option"

record block_env =
  be_args :: "sivfs_allocator_args_t option"
  be_mm :: mm_struct
  be_kzalloc :: "u64 option"
  be_copy_out_ok :: bool

definition as_einval :: "rc \<Rightarrow> rc" where
  "as_einval r = (if r = UB \<or> r = HANG then r else E EINVAL)"

text \<open>The part both requests begin with: the state of the task, the arguments, the area that holds \<^verbatim>\<open>zone\<close> and the number of its file.\<close>

definition find_zone ::
  "block_env \<Rightarrow> u64 \<Rightarrow> module_world \<Rightarrow> rc \<times> (sivfs_state \<times> sivfs_allocator_args_t \<times> vm_area \<times> u64) option" where
  "find_zone be current mw =
     (case fw_state (mw_fs mw) current of
        None \<Rightarrow> (E EINVAL, None)
      | Some state \<Rightarrow>
          (case be_args be of
             None \<Rightarrow> (E EFAULT, None)
           | Some args \<Rightarrow>
               (case sivfs_find_vma (be_mm be) (fw_anon (mw_fs mw)) current (arg_zone args) 1 True of
                  (OK, Some vma) \<Rightarrow>
                    (case Option.bind (fw_anon (mw_fs mw) (vm_inode vma)) ai_info of
                       None \<Rightarrow> (UB, None)
                     | Some iinfo \<Rightarrow>
                         if mw_iinfo mw (ii_backing_ino iinfo) = None then (E EINVAL, None)
                         else (OK, Some (state, args, vma, ii_backing_ino iinfo)))
                | (OK, None) \<Rightarrow> (UB, None)
                | (r, _) \<Rightarrow> (as_einval r, None))))"

definition mw_alloc :: "module_world \<Rightarrow> alloc_heap" where
  "mw_alloc mw = tw_alloc (fw_tasks (mw_fs mw))"

definition set_mw_alloc :: "alloc_heap \<Rightarrow> module_world \<Rightarrow> module_world" where
  "set_mw_alloc h mw = mw\<lparr>mw_fs := (mw_fs mw)\<lparr>fw_tasks := (fw_tasks (mw_fs mw))\<lparr>tw_alloc := h\<rparr>\<rparr>\<rparr>"

text \<open>\<open>sivfs_iinfo_get_alloc_info\<close> on the information of a file.\<close>

definition mw_get_alloc_info :: "block_env \<Rightarrow> u64 \<Rightarrow> module_world \<Rightarrow> rc \<times> u64 \<times> module_world" where
  "mw_get_alloc_info be ino mw =
     (case mw_iinfo mw ino of
        None \<Rightarrow> (UB, 0, mw)
      | Some p \<Rightarrow>
          (case sivfs_iinfo_get_alloc_info (be_kzalloc be) p (mw_alloc mw) of
             (OK, a, h) \<Rightarrow> (OK, a, set_mw_alloc h (mw\<lparr>mw_iinfo := (mw_iinfo mw)(ino \<mapsto> a)\<rparr>))
           | (r, _, h) \<Rightarrow> (as_einval r, 0, set_mw_alloc h mw)))"

text \<open>The result carries the arguments written to user space, if any.\<close>

definition sivfs_ioctl_alloc_block ::
  "block_env \<Rightarrow> u64 \<Rightarrow> module_world \<Rightarrow> rc \<times> sivfs_allocator_args_t option \<times> module_world" where
  "sivfs_ioctl_alloc_block be current mw =
     (case find_zone be current mw of
        (OK, Some (state, args, vma, ino)) \<Rightarrow>
          (let finish = (\<lambda>args mw.
                 if be_copy_out_ok be
                 then (OK, Some (args\<lparr>arg_mmap_start := vm_start vma, arg_mmap_size := vm_end vma - vm_start vma\<rparr>), mw)
                 else (E EFAULT, None, mw))
           in if arg_block_alloc args = 0 then finish args mw
              else case mw_get_alloc_info be ino mw of
                (OK, ainfo, mw1) \<Rightarrow>
                  (case sivfs_alloc_block (mw_alloc mw1) state ainfo (arg_block_alloc args) of
                     (OK, alloc_ret_foffset, alloc_size, state1, h) \<Rightarrow>
                       finish (args\<lparr>arg_alloc_size := alloc_size, arg_alloc_ret := vm_start vma + alloc_ret_foffset\<rparr>)
                         (set_mw_alloc h (mw1\<lparr>mw_fs := set_fw_state current state1 (mw_fs mw1)\<rparr>))
                   | (r, _, _, _, h) \<Rightarrow> (as_einval r, None, set_mw_alloc h mw1))
              | (r, _, mw1) \<Rightarrow> (r, None, mw1))
      | (r, _) \<Rightarrow> (r, None, mw))"

definition sivfs_ioctl_free_block :: "block_env \<Rightarrow> u64 \<Rightarrow> module_world \<Rightarrow> rc \<times> module_world" where
  "sivfs_ioctl_free_block be current mw =
     (case find_zone be current mw of
        (OK, Some (state, args, vma, ino)) \<Rightarrow>
          (let file_offset = vma_offset vma (arg_zone args) in
           case mw_get_alloc_info be ino mw of
             (OK, ainfo, mw1) \<Rightarrow>
               (case sivfs_free_block (mw_alloc mw1) state ainfo file_offset of
                  (OK, state1, h) \<Rightarrow> (OK, set_mw_alloc h (mw1\<lparr>mw_fs := set_fw_state current state1 (mw_fs mw1)\<rparr>))
                | (r, _, h) \<Rightarrow> (as_einval r, set_mw_alloc h mw1))
           | (r, _, mw1) \<Rightarrow> (r, mw1))
      | (r, _) \<Rightarrow> (r, mw))"

section \<open>Properties of the requests\<close>

lemma copy_size_ok:
  assumes "n \<le> 32768"
  shows "bytes n AND SIVFS_WRITESET_DISABLED_FLAG = 0" "\<not> bytes n > MAX_COMMIT_SIZE"
proof -
  have n: "unat (bytes n) = 8 * n" using assms by (simp add: bytes_def unat_word_ariths unat_of_nat)
  have "unat (bytes n) < 2 ^ 61" using n assms by simp
  then have "\<not> bit (bytes n) 63" by (rule not_bit_of_small) simp
  then show "bytes n AND SIVFS_WRITESET_DISABLED_FLAG = 0"
    unfolding SIVFS_WRITESET_DISABLED_FLAG_def using word_and_single_bit_iff [of "bytes n" 63] by simp
  show "\<not> bytes n > MAX_COMMIT_SIZE" using n assms by (simp add: word_less_nat_alt MAX_COMMIT_SIZE_def)
qed

text \<open>The entries that reach the commit are those of the buffer of the program.\<close>

lemma copy_argstruct_repr:
  assumes "ue_args_again ue = Some args" and "arg_ws_size args = bytes (length (ws_encode es))"
    and "length (ws_encode es) \<le> 32768" and "list_all wse_valid es"
    and "ue_entries ue = Some src" and "take (length (ws_encode es)) src = ws_encode es"
    and "ue_reserve_ok ue" and "ws_repr (le_ws log) es0"
  shows "\<exists>ws. sivfs_copy_argstruct_to_log_entry ue log =
    (OK, log\<lparr>le_ws := ws, le_aborted := False, le_ws_has_metadata := False\<rparr>) \<and> ws_repr ws es"
proof -
  let ?n = "length (ws_encode es)"
  have small: "?n < 2 ^ 58" using assms(3) by simp
  obtain ws where ws: "sivfs_writeset_reserve True (le_ws log) (bytes ?n) = (OK, ws)" "ws_repr ws es0" "?n \<le> length (entries ws)"
    using sivfs_writeset_reserve_repr [OF assms(8) small] by blast
  have src: "?n \<le> length src" using arg_cong [OF assms(6), of length] by simp
  have wb: "words_of_bytes (bytes ?n) = ?n" using small by simp
  then have "memcpy_words (entries ws) 0 src (words_of_bytes (bytes ?n)) = Some (ws_encode es @ drop ?n (entries ws))"
    using ws(3) src assms(6) by (simp add: memcpy_words_def)
  then have "sivfs_copy_argstruct_to_log_entry ue log =
    (OK, log\<lparr>le_ws := ws\<lparr>entries := ws_encode es @ drop ?n (entries ws), size_bytes := bytes ?n\<rparr>,
             le_aborted := False, le_ws_has_metadata := False\<rparr>)"
    using assms ws(1) copy_size_ok [OF assms(3)] src wb by (simp add: sivfs_copy_argstruct_to_log_entry_def)
  moreover have "ws_repr (ws\<lparr>entries := ws_encode es @ drop ?n (entries ws), size_bytes := bytes ?n\<rparr>) es"
    using ws(2,3) small assms(4) by (simp add: ws_repr_def)
  ultimately show ?thesis by blast
qed


lemma set_tmp_log_state: "fw_state w task = Some state \<Longrightarrow> fw_state (set_tmp_log task lw w) task = Some (state\<lparr>tmp_log_writeset := lw\<rparr>)"
  by (simp add: set_tmp_log_def)

lemma set_tmp_log_kernel [simp]: "fw_kernel (set_tmp_log task lw w) = fw_kernel w"
  by (simp add: set_tmp_log_def fw_kernel_def set_fw_state_def split: option.splits)

lemma fw_kernel_sel:
  "fw_shared w = k_shared (fw_kernel w)" "fw_cps w = k_cps (fw_kernel w)" "fw_anon w = k_anon (fw_kernel w)"
  by (simp_all add: fw_kernel_def)

lemma fw_kernel_set [simp]: "fw_kernel (set_fw_kernel k w) = k" "fw_kernel (set_fw_state task s w) = fw_kernel w"
  by (simp_all add: fw_kernel_def set_fw_kernel_def set_fw_state_def)



definition ex_user :: user_env where
  "ex_user = (let args = \<lparr>arg_aborted = False, arg_ws_size = 40, arg_abort = False, arg_wants_direct_access = False\<rparr> in
     \<lparr>ue_args = Some args, ue_args_again = Some args, ue_entries = Some [0, 0, 69640, 0, 43, 99], ue_reserve_ok = True,
      ue_copy_out_ok = True, ue_commit = ex_env\<rparr>)"

definition ex_running :: fs_world where
  "ex_running = ex_fs\<lparr>fw_tasks := (fw_tasks ex_fs)\<lparr>tw_threads := [(7, ex_task)]\<rparr>, fw_anon := ex_anon ((\<lambda>_. 0)(1 := 43))\<rparr>"

lemma ex_running_sel: "fw_state ex_running 7 = Some ex_task" "fw_shared ex_running = ex_log" "fw_cps ex_running = ex_cps ex_boot"
  "fw_anon ex_running = ex_anon ((\<lambda>_. 0)(1 := 43))"
  by (simp_all add: ex_running_def ex_fs_def fw_state_def sivfs_task_to_state_def radix_tree_lookup_def)

lemma ex_raw_encode: "wse_encode (ex_raw_write, []) = [0, 0, 69640, 0, 43]"
  by (simp add: wse_encode_def ex_raw_write_def)


lemma set_rt_ins_inv: "rt_inv t \<Longrightarrow> set (rt_ins i v t) = Set.insert (i, v) {p \<in> set t. fst p \<noteq> i}"
  by (induction t) (force simp: image_iff)+

text \<open>
  C16: pausing.  \<^verbatim>\<open>sivfs_ioctl_txn_pause\<close> of a task with a consistent working set succeeds, leaves none of its pages mapped, ends its transaction, and
  afterwards the versions reported to the collectors are \<open>SIVFS_INVALID_TS\<close> and those of the other tasks: a paused task holds nothing back.
\<close>

theorem pause_releases_versions:
  assumes "fw_state w current = Some state" and "rt_inv (tw_threads (fw_tasks w))"
    and "ws_ok (cw_store (fw_cps w)) (st_workingset state) (fw_anon w)"
    and "\<forall>i mp. ws_inode (st_workingset state) (fw_anon w) i = Some mp \<longrightarrow> small_indices mp"
    and "rt_inv (anon_inodes (st_workingset state))"
  shows "\<exists>w' state'. sivfs_ioctl_txn_pause current w = (OK, w') \<and> fw_state w' current = Some state' \<and> \<not> sivfs_in_txn state' \<and>
    st_workingset state' = st_workingset state \<and>
    (\<forall>i mp. ws_inode (st_workingset state) (fw_anon w) i = Some mp \<longrightarrow>
       (\<exists>mp'. ws_inode (st_workingset state) (fw_anon w') i = Some mp' \<and> ai_pages mp' = [] \<and> ai_ptes mp' = (\<lambda>_. None))) \<and>
    set (reported (tw_threads (fw_tasks w'))) =
      Set.insert SIVFS_INVALID_TS (set (reported (filter (\<lambda>(t, _). t \<noteq> current) (tw_threads (fw_tasks w)))))"
proof -
  obtain h where h: "sivfs_invalidate_workingset (st_workingset state) 0 (fw_anon w) = (OK, h)"
      "\<forall>i mp. ws_inode (st_workingset state) (fw_anon w) i = Some mp \<longrightarrow>
         (\<exists>mp'. ws_inode (st_workingset state) h i = Some mp' \<and> cleared 0 mp mp')"
    using invalidate_clears [OF assms(3-5), of 0] by blast
  let ?s = "state\<lparr>txn_ts := SIVFS_INVALID_TS, st_checkpoint_ts := SIVFS_INVALID_TS,
      st_prior_checkpoint_ts := SIVFS_INVALID_TS, st_checkpoint := 0\<rparr>"
  let ?w = "set_fw_state current ?s (w\<lparr>fw_anon := h\<rparr>)"
  have run: "sivfs_ioctl_txn_pause current w = (OK, ?w)" by (simp add: sivfs_ioctl_txn_pause_def assms(1) h(1))
  have anon: "fw_anon ?w = h" by (simp add: set_fw_state_def)
  have "set (reported (rt_ins current ?s (tw_threads (fw_tasks w)))) =
      Set.insert SIVFS_INVALID_TS (set (reported (filter (\<lambda>(t, _). t \<noteq> current) (tw_threads (fw_tasks w)))))"
    by (auto simp: reported_def set_rt_ins_inv [OF assms(2)])
  then have rep: "set (reported (tw_threads (fw_tasks ?w))) =
      Set.insert SIVFS_INVALID_TS (set (reported (filter (\<lambda>(t, _). t \<noteq> current) (tw_threads (fw_tasks w)))))"
    by (simp add: set_fw_state_def)
  have pages: "\<forall>i mp. ws_inode (st_workingset state) (fw_anon w) i = Some mp \<longrightarrow>
      (\<exists>mp'. ws_inode (st_workingset state) h i = Some mp' \<and> ai_pages mp' = [] \<and> ai_ptes mp' = (\<lambda>_. None))"
    using h(2) by (fastforce simp: cleared_def fun_eq_iff)
  show ?thesis
    by (intro exI [of _ ?w] exI [of _ ?s] conjI, rule run) (simp_all add: sivfs_in_txn_def rep anon pages)
qed

theorem pause_releases_versions_witness:
  "\<exists>w'. sivfs_ioctl_txn_pause 7 ex_running = (OK, w') \<and> set (reported (tw_threads (fw_tasks w'))) = {SIVFS_INVALID_TS} \<and>
     (\<exists>mp'. ws_inode (st_workingset ex_task) (fw_anon w') 5 = Some mp' \<and> ai_pages mp' = [] \<and> ai_ptes mp' = (\<lambda>_. None))"
proof -
  have ino: "ws_inode (st_workingset ex_task) (fw_anon ex_running) i \<noteq> None \<longleftrightarrow> i = 5" for i
    by (simp add: ex_running_sel ws_inode_def ex_anon_def radix_tree_lookup_def)
  have thr: "tw_threads (fw_tasks ex_running) = [(7, ex_task)]" by (simp add: ex_running_def)
  have ok: "ws_ok (cw_store (fw_cps ex_running)) (st_workingset ex_task) (fw_anon ex_running)"
    using ex_anon_ok by (simp add: ex_running_sel ex_cps_def ex_world_def)
  have small: "\<forall>i mp. ws_inode (st_workingset ex_task) (fw_anon ex_running) i = Some mp \<longrightarrow> small_indices mp"
    by (auto simp: ex_running_sel ws_inode_def ex_anon_def radix_tree_lookup_def small_indices_def split: if_splits)
  show ?thesis
    using pause_releases_versions [OF ex_running_sel(1) _ ok small] ino [of 5] by (auto simp: thr reported_def)
qed

lemma fw_anon_set_state [simp]: "fw_anon (set_fw_state t s w) = fw_anon w"
  by (simp add: set_fw_state_def)

lemma mw_frame [simp]:
  "fw_state (mw_fs (set_mw_alloc h mw)) t = fw_state (mw_fs mw) t" "fw_anon (mw_fs (set_mw_alloc h mw)) = fw_anon (mw_fs mw)"
  "mw_iinfo (set_mw_alloc h mw) = mw_iinfo mw" "mw_alloc (set_mw_alloc h mw) = h"
  by (simp_all add: set_mw_alloc_def mw_alloc_def fw_state_def sivfs_task_to_state_def)

lemma mw_get_alloc_info_old:
  "mw_iinfo mw ino = Some a \<Longrightarrow> a \<noteq> 0 \<Longrightarrow> mw_get_alloc_info be ino mw = (OK, a, mw)"
  by (simp add: mw_get_alloc_info_def sivfs_iinfo_get_alloc_info_def set_mw_alloc_def mw_alloc_def fun_upd_idem)

text \<open>
  C23: allocation and freeing of blocks by address.  Let the chunks of a file be recorded at their starts, and map the file from its
  beginning.  The address \<^verbatim>\<open>sivfs_ioctl_alloc_block\<close> returns for a request of at least a page is that of a chunk of the requested size, and passing it to \<^verbatim>\<open>sivfs_ioctl_free_block\<close>
  in the same transaction succeeds, queues exactly this chunk for being freed and does not force the transaction to abort.
\<close>

theorem block_requests_roundtrip:
  assumes alloc: "sivfs_ioctl_alloc_block be current mw = (OK, Some out, mw1)"
    and zone: "find_zone be current mw = (OK, Some (state, args, vma, ino))"
    and a: "mw_iinfo mw ino = Some a" "a \<noteq> 0" and n: "PAGE_SIZE \<le> arg_block_alloc args"
    and heap: "\<forall>x. Some x \<in> set (ah_new_chunks (mw_alloc mw)) \<longrightarrow> ah_chunks (mw_alloc mw) x = None" "starts_recorded (mw_alloc mw) a"
      "\<forall>c k. ah_chunks (mw_alloc mw) c = Some k \<longrightarrow> ch_size k = - 1 \<longrightarrow> last_freed_ts k \<le> txn_ts state"
    and req: "be_args be' = Some args'" "arg_zone args' = arg_alloc_ret out" "vm_pgoff vma = 0"
      "sivfs_find_vma (be_mm be') (fw_anon (mw_fs mw)) current (arg_alloc_ret out) 1 True = (OK, Some vma)"
  shows "\<exists>c k mw2 state2. sivfs_ioctl_free_block be' current mw1 = (OK, mw2) \<and> fw_state (mw_fs mw2) current = Some state2 \<and>
    arg_alloc_ret out = vm_start vma + ch_start k \<and> arg_alloc_size out = ch_size k \<and> arg_block_alloc args \<le> ch_size k \<and>
    ah_chunks (mw_alloc mw1) c = Some k \<and> allocated_chunks state2 = c # allocated_chunks state \<and>
    alloc_chunks_to_free state2 = c # alloc_chunks_to_free state \<and> should_abort state2 = should_abort state"
proof -
  have n0: "arg_block_alloc args \<noteq> 0" using n by (auto simp: PAGE_SIZE_def)
  note get = mw_get_alloc_info_old [OF a]
  obtain off sz state1 h where blk: "sivfs_alloc_block (mw_alloc mw) state a (arg_block_alloc args) = (OK, off, sz, state1, h)"
    using alloc by (auto simp: sivfs_ioctl_alloc_block_def zone get n0 Let_def split: prod.splits rc.splits)
  have mw1: "mw1 = set_mw_alloc h (mw\<lparr>mw_fs := set_fw_state current state1 (mw_fs mw)\<rparr>)"
    and out: "arg_alloc_ret out = vm_start vma + off" "arg_alloc_size out = sz"
    using alloc by (auto simp: sivfs_ioctl_alloc_block_def zone get n0 blk Let_def split: if_splits)
  obtain c k where c: "allocated_chunks state1 = c # allocated_chunks state" "ah_chunks h c = Some k" "ch_start k = off" "ch_size k = sz"
      "sivfs_free_block h state1 a off = (OK, state1\<lparr>alloc_chunks_to_free := c # alloc_chunks_to_free state\<rparr>,
        set_chunk c (k\<lparr>last_freed_ts := (last_freed_ts k AND NOT SIVFS_CHUNK_ALLOCATED) OR SIVFS_CHUNK_FREEING\<rparr>) h)"
    using alloc_then_free [OF blk heap(1) n heap(2,3)] by blast
  have st1: "should_abort state1 = should_abort state" "arg_block_alloc args \<le> sz"
    using alloc_block_takes [OF blk heap(1)] by auto
  obtain iinfo where ii: "Option.bind (fw_anon (mw_fs mw) (vm_inode vma)) ai_info = Some iinfo" "ii_backing_ino iinfo = ino"
    using zone by (auto simp: find_zone_def split: option.splits prod.splits rc.splits if_splits)
  have sel: "fw_state (mw_fs mw1) current = Some state1" "fw_anon (mw_fs mw1) = fw_anon (mw_fs mw)" "mw_iinfo mw1 = mw_iinfo mw"
    "mw_alloc mw1 = h" by (simp_all add: mw1)
  have "find_zone be' current mw1 = (OK, Some (state1, args', vma, ino))"
    using req ii a by (simp add: find_zone_def sel)
  moreover have "vma_offset vma (arg_zone args') = off" using req(2,3) out by (simp add: vma_offset_def)
  moreover have "mw_get_alloc_info be' ino mw1 = (OK, a, mw1)" using a sel(3) by (simp add: mw_get_alloc_info_old)
  ultimately have "sivfs_ioctl_free_block be' current mw1 =
      (OK, set_mw_alloc (set_chunk c (k\<lparr>last_freed_ts := (last_freed_ts k AND NOT SIVFS_CHUNK_ALLOCATED) OR SIVFS_CHUNK_FREEING\<rparr>) h)
             (mw1\<lparr>mw_fs := set_fw_state current (state1\<lparr>alloc_chunks_to_free := c # alloc_chunks_to_free state\<rparr>) (mw_fs mw1)\<rparr>))"
    by (simp add: sivfs_ioctl_free_block_def sel(4) c(5))
  then show ?thesis using c(1-4) out st1 sel(4) by simp
qed


definition ex_module :: module_world where
  "ex_module = \<lparr>mw_fs = ex_running\<lparr>fw_tasks := (fw_tasks ex_running)\<lparr>tw_alloc := fresh_file\<rparr>\<rparr>, mw_iinfo = [5 \<mapsto> 8]\<rparr>"

definition ex_block_args :: "u64 \<Rightarrow> sivfs_allocator_args_t" where
  "ex_block_args zone = \<lparr>arg_mmap_start = 0, arg_mmap_size = 0, arg_alloc_ret = 0, arg_alloc_size = 0, arg_zone = zone, arg_block_alloc = 4096\<rparr>"

definition ex_block_env :: "mm_struct \<Rightarrow> u64 \<Rightarrow> block_env" where
  "ex_block_env mm zone = \<lparr>be_args = Some (ex_block_args zone), be_mm = mm, be_kzalloc = None, be_copy_out_ok = True\<rparr>"

definition ex_shifted_mm :: mm_struct where
  "ex_shifted_mm = ex_mm\<lparr>mm_vmas := [(hd (mm_vmas ex_mm))\<lparr>vm_pgoff := 1\<rparr>]\<rparr>"

lemma ex_module_sel: "fw_state (mw_fs ex_module) 7 = Some ex_task" "mw_alloc ex_module = fresh_file" "mw_iinfo ex_module = [5 \<mapsto> 8]"
  "fw_anon (mw_fs ex_module) = ex_anon ((\<lambda>_. 0)(1 := 43))"
  by (simp_all add: ex_module_def mw_alloc_def ex_running_sel) 
     (simp add: ex_running_def fw_state_def sivfs_task_to_state_def radix_tree_lookup_def)

lemma ex_zone:
  "find_zone (ex_block_env mm zone) 7 ex_module = (OK, Some (ex_task, ex_block_args zone, hd (mm_vmas mm), 5))"
  if "mm = ex_mm \<or> mm = ex_shifted_mm" "zone = 65536"
  using that by (auto simp: find_zone_def ex_module_sel ex_block_env_def ex_block_args_def sivfs_find_vma_def find_vma_def
      ex_shifted_mm_def ex_mm_def ex_anon_def)

lemma ex_alloc: "sivfs_alloc_block fresh_file ex_task 8 4096 = (OK, 0, 4096, ex_task\<lparr>allocated_chunks := [16]\<rparr>, one_block)"
  by (simp add: fresh_file_eq one_block_def ex_task_def fresh_state_def alloc_eval fun_upd_twist)

definition ex_allocated :: module_world where
  "ex_allocated = set_mw_alloc one_block (ex_module\<lparr>mw_fs := set_fw_state 7 (ex_task\<lparr>allocated_chunks := [16]\<rparr>) (mw_fs ex_module)\<rparr>)"

lemma ex_ioctl_alloc:
  "sivfs_ioctl_alloc_block (ex_block_env mm 65536) 7 ex_module =
    (OK, Some ((ex_block_args 65536)\<lparr>arg_alloc_size := 4096, arg_alloc_ret := 65536, arg_mmap_start := 65536, arg_mmap_size := 65536\<rparr>), ex_allocated)"
  if "mm = ex_mm \<or> mm = ex_shifted_mm"
proof -
  have "vm_start (hd (mm_vmas mm)) = 65536" "vm_end (hd (mm_vmas mm)) = 131072" using that by (auto simp: ex_shifted_mm_def ex_mm_def)
  moreover have "arg_block_alloc (ex_block_args 65536) = 4096" "be_copy_out_ok (ex_block_env mm 65536)"
    by (simp_all add: ex_block_args_def ex_block_env_def)
  ultimately show ?thesis
    using mw_get_alloc_info_old [of ex_module 5 8] ex_zone [OF that refl]
    by (simp add: sivfs_ioctl_alloc_block_def ex_module_sel ex_alloc ex_allocated_def Let_def)
qed

lemma ex_recorded: "starts_recorded fresh_file 8"
  by (simp add: starts_recorded_def block_start_def fresh_file_eq radix_tree_lookup_def PAGE_SIZE_def)

theorem block_requests_roundtrip_witness:
  "\<exists>mw2 state2. sivfs_ioctl_free_block (ex_block_env ex_mm 65536) 7 ex_allocated = (OK, mw2) \<and>
     fw_state (mw_fs mw2) 7 = Some state2 \<and> alloc_chunks_to_free state2 = [16] \<and> \<not> should_abort state2"
proof -
  let ?out = "(ex_block_args 65536)\<lparr>arg_alloc_size := 4096, arg_alloc_ret := 65536, arg_mmap_start := 65536, arg_mmap_size := 65536\<rparr>"
  have heap: "\<forall>x. Some x \<in> set (ah_new_chunks (mw_alloc ex_module)) \<longrightarrow> ah_chunks (mw_alloc ex_module) x = None"
      "starts_recorded (mw_alloc ex_module) 8"
      "\<forall>c k. ah_chunks (mw_alloc ex_module) c = Some k \<longrightarrow> ch_size k = - 1 \<longrightarrow> last_freed_ts k \<le> txn_ts ex_task"
    by (simp_all add: ex_module_sel ex_recorded) (auto simp: fresh_file_eq)
  have n: "PAGE_SIZE \<le> arg_block_alloc (ex_block_args 65536)" by (simp add: PAGE_SIZE_def ex_block_args_def)
  have req: "be_args (ex_block_env ex_mm 65536) = Some (ex_block_args 65536)" "arg_zone (ex_block_args 65536) = arg_alloc_ret ?out"
      "vm_pgoff (hd (mm_vmas ex_mm)) = 0"
      "sivfs_find_vma (be_mm (ex_block_env ex_mm 65536)) (fw_anon (mw_fs ex_module)) 7 (arg_alloc_ret ?out) 1 True = (OK, Some (hd (mm_vmas ex_mm)))"
    by (simp_all add: ex_block_env_def ex_block_args_def ex_mm_def sivfs_find_vma_def find_vma_def ex_module_sel ex_anon_def)
  have five: "mw_iinfo ex_module 5 = Some 8" "(8 :: u64) \<noteq> 0" by (simp_all add: ex_module_sel)
  have idle: "allocated_chunks ex_task = []" "alloc_chunks_to_free ex_task = []" "\<not> should_abort ex_task"
    by (simp_all add: ex_task_def fresh_state_def)
  obtain c k mw2 state2 where f: "sivfs_ioctl_free_block (ex_block_env ex_mm 65536) 7 ex_allocated = (OK, mw2)"
      "fw_state (mw_fs mw2) 7 = Some state2" "65536 = 65536 + ch_start k" "ah_chunks (mw_alloc ex_allocated) c = Some k"
      "alloc_chunks_to_free state2 = [c]" "\<not> should_abort state2"
    using block_requests_roundtrip [OF ex_ioctl_alloc [of ex_mm] ex_zone [of ex_mm] five n heap req] idle
    by (auto simp: ex_mm_def)
  have "c = 16" using f(3,4) by (auto simp: ex_allocated_def one_block_def split: if_splits)
  then show ?thesis using f by blast
qed


lemma fold_put_pginfo:
  "ah_chunks (fold put_pginfo ps g) = (\<lambda>c. if c \<in> starts_chunk ` snd ` set ps - {0} then None else ah_chunks g c) \<and>
   ah_infos (fold put_pginfo ps g) = ah_infos g"
  by (induction ps arbitrary: g) (auto simp: put_pginfo_def sivfs_put_alloc_chunk_def fun_eq_iff)

lemma batch_split:
  assumes "rt_inv t"
  shows "set t = set (filter (\<lambda>(j, _). j \<notin> set (map fst (take n t))) t) \<union> set (take n t)"
proof -
  have "p \<in> set (take n t)" if "p \<in> set t" "fst p \<in> fst ` set (take n t)" for p
    using that rt_inv_distinct [OF assms] by (metis (no_types, lifting) eq_key_imp_eq_value image_iff in_set_takeD prod.collapse)
  then show ?thesis using set_take_subset [of n t] by force
qed

lemma destroy_rounds_chunks:
  assumes "rt_inv t"
  shows "ah_chunks (destroy_rounds t h) = (\<lambda>c. if c \<in> starts_chunk ` snd ` set t - {0} then None else ah_chunks h c) \<and>
    ah_infos (destroy_rounds t h) = ah_infos h"
  using assms
proof (induction t h rule: destroy_rounds.induct)
  case (1 t h)
  let ?b = "take 16 t"
  let ?t = "filter (\<lambda>(j, _). j \<notin> set (map fst ?b)) t"
  show ?case
  proof (cases "?b = []")
    case True
    then show ?thesis by (subst (1 2) destroy_rounds.simps) simp
  next
    case False
    have step: "destroy_rounds t h = destroy_rounds ?t (fold put_pginfo ?b h)"
      using False by (subst destroy_rounds.simps) (simp add: fold_delete_eq Let_def del: set_map take_eq_Nil)
    have "rt_inv ?t" using 1(2) by simp
    then have "ah_chunks (destroy_rounds ?t (fold put_pginfo ?b h)) =
        (\<lambda>c. if c \<in> starts_chunk ` snd ` set ?t - {0} then None else ah_chunks (fold put_pginfo ?b h) c) \<and>
        ah_infos (destroy_rounds ?t (fold put_pginfo ?b h)) = ah_infos (fold put_pginfo ?b h)"
      using 1(1) [of ?b] False by (simp add: fold_delete_eq del: set_map take_eq_Nil)
    then show ?thesis
      unfolding step using fold_put_pginfo [of ?b h] arg_cong [OF batch_split [OF 1(2), of 16], of "\<lambda>s. starts_chunk ` snd ` s"]
      by (simp add: image_Un fun_eq_iff del: set_map)
  qed
qed

text \<open>
  The teardown of the allocator information of a file terminates and frees, in rounds of sixteen records, exactly the chunks that a
  record of the file says to start in its page, and the information itself; every other chunk and every other file is unchanged.
\<close>

theorem teardown_frees_recorded_chunks:
  assumes "a \<noteq> 0" and "ah_infos h a = Some ainfo" and "rt_inv (pginfo_tree ainfo)"
  shows "ah_infos (sivfs_put_allocator_info a h) = (ah_infos h)(a := None) \<and>
    ah_chunks (sivfs_put_allocator_info a h) c =
      (if c \<noteq> 0 \<and> (\<exists>i pg. radix_tree_lookup (pginfo_tree ainfo) i = Some pg \<and> starts_chunk pg = c) then None else ah_chunks h c)"
proof -
  have "c \<in> starts_chunk ` snd ` set (pginfo_tree ainfo) \<longleftrightarrow> (\<exists>i pg. radix_tree_lookup (pginfo_tree ainfo) i = Some pg \<and> starts_chunk pg = c)"
    using rt_inv_distinct [OF assms(3)] by (force simp: radix_tree_lookup_def)
  then show ?thesis using assms(1,2) destroy_rounds_chunks [OF assms(3), of h] by (auto simp: sivfs_put_allocator_info_def Let_def)
qed

theorem teardown_frees_recorded_chunks_witness:
  "ah_infos (sivfs_put_allocator_info 8 one_block) 8 = None \<and> ah_chunks (sivfs_put_allocator_info 8 one_block) 16 = None"
proof -
  let ?info = "\<lparr>bestfit_list = [24], pginfo_tree = [(0, \<lparr>boundary_offset = 0, ends_chunk = 0, starts_chunk = 16\<rparr>),
                      (1, \<lparr>boundary_offset = 0, ends_chunk = 16, starts_chunk = 24\<rparr>)]\<rparr>"
  have "ah_infos one_block 8 = Some ?info" "rt_inv (pginfo_tree ?info)" by (simp_all add: one_block_def)
  moreover have "radix_tree_lookup (pginfo_tree ?info) 0 = Some \<lparr>boundary_offset = 0, ends_chunk = 0, starts_chunk = 16\<rparr>"
    by (simp add: radix_tree_lookup_def)
  ultimately show ?thesis using teardown_frees_recorded_chunks [of 8 one_block ?info 16] by fastforce
qed

end
