(* ===== verification/Sivfs_Super.thy ===== *)
theory Sivfs_Super
  imports Sivfs_Module Gc_Checkpoints
begin

text \<open>
  Mounting and unmounting: \<^verbatim>\<open>kern/super.c\<close>, the creation and teardown of the shared state (\<^verbatim>\<open>kern/sivfs_shared_state.c\<close>) and of the set of
  checkpoints (\<^verbatim>\<open>kern/sivfs_checkpoints.c\<close>), and the start and stop of the background threads (\<^verbatim>\<open>kern/sivfs_background_threads.c\<close>).

  \<^item> \<open>mt_bgts\<close> are the kernel threads that run, \<open>mt_dirs\<close> the directory inodes that are live.  The three fields \<open>mt_..._bgt\<close> are those of the shared
    state.  The outcomes of the calls of the kernel are the fields of \<open>mount_env\<close>.
  \<^item> \<^verbatim>\<open>d_make_root\<close> releases the inode itself when it fails, as the kernel documents.  Releasing an inode that is not live is \<open>UB\<close>.
  \<^item> \<open>me_match\<close> is \<^verbatim>\<open>match_token\<close> with \<^verbatim>\<open>match_octal\<close> on the table of the one option \<^verbatim>\<open>mode=%o\<close>: \<open>None\<close> for another option, \<open>Some None\<close> for a number out of
    range.
  \<^item> \<^verbatim>\<open>kill_litter_super\<close>, which follows in \<open>sivfs_kill_sb\<close>, releases the dentries of the kernel.
\<close>

section \<open>State and environment\<close>

record mount_world =
  mt_fs :: fs_world
  mt_inited :: bool
  mt_bdi :: bool
  mt_creds :: bool
  mt_bgts :: "u64 list"
  mt_make_checkpoint_bgt :: u64
  mt_gc_checkpoints_bgt :: u64
  mt_gc_log_bgt :: u64
  mt_dirs :: "u64 list"
  mt_s_root :: u64

record mount_env =
  me_mmu :: mmu
  me_match :: "string \<Rightarrow> u64 option option"
  me_bdi_init :: rc
  me_bdi_register :: rc
  me_creds_ok :: bool
  me_cp_inode_ok :: bool
  me_interrupted :: "errno option"
  me_kthread_run :: "nat \<Rightarrow> errno + u64"
  me_exited :: "u64 \<Rightarrow> bool"
  me_root_inode :: "u64 option"
  me_d_make_root :: bool

section \<open>Mount options\<close>

definition SIVFS_DEFAULT_MODE :: u64 where
  "SIVFS_DEFAULT_MODE = 493"

definition S_IALLUGO :: u64 where
  "S_IALLUGO = 4095"

function strsep_all :: "string \<Rightarrow> string list" where
  "strsep_all data =
     (case dropWhile (\<lambda>c. c \<noteq> CHR '','') data of
        [] \<Rightarrow> [data]
      | _ # rest \<Rightarrow> takeWhile (\<lambda>c. c \<noteq> CHR '','') data # strsep_all rest)"
  by pat_completeness auto

termination strsep_all
  by (relation "measure length") (auto dest!: arg_cong [of "dropWhile _ _" _ length], metis Suc_le_lessD length_dropWhile_le)

fun parse_tokens :: "(string \<Rightarrow> u64 option option) \<Rightarrow> string list \<Rightarrow> u64 \<Rightarrow> errno + u64" where
  "parse_tokens match [] mode = Inr mode"
| "parse_tokens match (p # ps) mode =
     (if p = [] then parse_tokens match ps mode
      else case match p of
        None \<Rightarrow> parse_tokens match ps mode
      | Some None \<Rightarrow> Inl EINVAL
      | Some (Some opt) \<Rightarrow> parse_tokens match ps (opt AND S_IALLUGO))"

definition sivfs_parse_options :: "(string \<Rightarrow> u64 option option) \<Rightarrow> string option \<Rightarrow> errno + u64" where
  "sivfs_parse_options match data =
     parse_tokens match (case data of None \<Rightarrow> [] | Some s \<Rightarrow> strsep_all s) SIVFS_DEFAULT_MODE"

definition sivfs_init_bdi :: "mount_env \<Rightarrow> mount_world \<Rightarrow> rc \<times> mount_world" where
  "sivfs_init_bdi env mt =
     (if me_bdi_init env \<noteq> OK then (me_bdi_init env, mt) else (me_bdi_register env, mt\<lparr>mt_bdi := True\<rparr>))"

section \<open>Background threads\<close>

definition sivfs_bgt_run :: "errno + u64 \<Rightarrow> mount_world \<Rightarrow> rc \<times> u64 \<times> mount_world" where
  "sivfs_bgt_run kthread_run mt =
     (case kthread_run of
        Inl e \<Rightarrow> (E e, 0, mt)
      | Inr bgt \<Rightarrow> (OK, bgt, mt\<lparr>mt_bgts := bgt # mt_bgts mt\<rparr>))"

definition sivfs_bgt_stop :: "mount_env \<Rightarrow> u64 \<Rightarrow> mount_world \<Rightarrow> mount_world" where
  "sivfs_bgt_stop env bgt mt =
     (if bgt = 0 then mt
      else if me_exited env bgt then mt
      else mt\<lparr>mt_bgts := remove1 bgt (mt_bgts mt)\<rparr>)"

definition sivfs_init_background_work :: "mount_env \<Rightarrow> mount_world \<Rightarrow> rc \<times> mount_world" where
  "sivfs_init_background_work env mt =
     (case sivfs_bgt_run (me_kthread_run env 0) mt of
        (OK, b0, mt0) \<Rightarrow>
          (let mt0 = mt0\<lparr>mt_make_checkpoint_bgt := b0\<rparr> in
           case sivfs_bgt_run (me_kthread_run env 1) mt0 of
             (OK, b1, mt1) \<Rightarrow>
               (let mt1 = mt1\<lparr>mt_gc_checkpoints_bgt := b1\<rparr> in
                case sivfs_bgt_run (me_kthread_run env 2) mt1 of
                  (OK, b2, mt2) \<Rightarrow> (OK, mt2\<lparr>mt_gc_log_bgt := b2\<rparr>)
                | (r, _, mt2) \<Rightarrow>
                    (r, sivfs_bgt_stop env (mt_make_checkpoint_bgt mt2) (sivfs_bgt_stop env (mt_gc_checkpoints_bgt mt2) mt2)))
           | (r, _, mt1) \<Rightarrow> (r, sivfs_bgt_stop env (mt_make_checkpoint_bgt mt1) mt1))
      | (r, _, mt0) \<Rightarrow> (r, mt0))"

definition sivfs_destroy_background_work :: "mount_env \<Rightarrow> mount_world \<Rightarrow> mount_world" where
  "sivfs_destroy_background_work env mt =
     (let mt1 = sivfs_bgt_stop env (mt_make_checkpoint_bgt mt) mt;
          mt2 = sivfs_bgt_stop env (mt_gc_checkpoints_bgt mt1) mt1
      in sivfs_bgt_stop env (mt_gc_log_bgt mt2) mt2)"

section \<open>The set of checkpoints\<close>

definition zero_checkpoints :: sivfs_checkpoints where
  "zero_checkpoints = \<lparr>latest_cp_checkpoint = 0, latest_cp_ts = 0, latest_checkpoint_published = 0,
     checkpoints_reverse = [], obsoleted_entries = empty_stack, gc_blocked_entries = []\<rparr>"

definition sivfs_init_checkpoints :: "mmu \<Rightarrow> cp_world \<Rightarrow> rc \<times> cp_world" where
  "sivfs_init_checkpoints m w =
     (case sivfs_get_zero_checkpoint_pages m (cw_store w) of
        (r, st) \<Rightarrow> (r, w\<lparr>cw_checkpoints := zero_checkpoints, cw_store := st\<rparr>))"

text \<open>
  Freeing a tree; the flag says which of the two functions runs: the one for a node, or the loop over the remaining children of a table.
\<close>

function root_free :: "mmu \<Rightarrow> nat \<Rightarrow> u64 \<Rightarrow> cp_store \<Rightarrow> rc \<times> nat \<times> cp_store"
  and children_free :: "mmu \<Rightarrow> nat \<Rightarrow> u64 \<Rightarrow> 9 word list \<Rightarrow> cp_store \<Rightarrow> rc \<times> nat \<times> cp_store" where
  "root_free m level node st =
     (if node = 0 \<or> \<not> sivfs_is_checkpoint_page st node \<or> sivfs_is_zero_page st node then (OK, 0, st)
      else case (if level = 0 then (OK, 0, st) else children_free m level node (map of_nat [0 ..< 512]) st) of
        (OK, n, st1) \<Rightarrow> (case sivfs_put_checkpoint_page st1 node of (r, st2) \<Rightarrow> (r, Suc n, st2))
      | res \<Rightarrow> res)"
| "children_free m level node [] st = (OK, 0, st)"
| "children_free m level node (i # is) st =
     (case cps_pages st node of
        None \<Rightarrow> (UB, 0, st)
      | Some table \<Rightarrow>
          (let child = sivfs_pxd_to_pa m (page_mem table i) in
           case (if \<not> sivfs_pxd_present m (page_mem table i) \<or> \<not> sivfs_is_checkpoint_page st child \<or> sivfs_is_zero_page st child
                 then (OK, 0, st)
                 else if level \<le> 1 then (case sivfs_put_checkpoint_page st child of (r, st1) \<Rightarrow> (r, 1, st1))
                 else root_free m (level - 1) child st) of
             (OK, n, st1) \<Rightarrow> (case children_free m level node is st1 of (r, k, st2) \<Rightarrow> (r, n + k, st2))
           | res \<Rightarrow> res))"
  by pat_completeness auto

termination
  by (relation "measures [\<lambda>x. case x of Inl (_, l, _, _) \<Rightarrow> 2 * l + 1 | Inr (_, l, _, _, _) \<Rightarrow> 2 * l,
                          \<lambda>x. case x of Inl _ \<Rightarrow> 0 | Inr (_, _, _, is, _) \<Rightarrow> length is]") auto

declare root_free.simps [simp del]

fun free_entries :: "u64 list \<Rightarrow> cp_world \<Rightarrow> rc \<times> cp_world" where
  "free_entries [] w = (OK, w)"
| "free_entries (e # es) w =
     (case sivfs_gc_free_entry w None e of
        (OK, _, w1) \<Rightarrow> free_entries es w1
      | (r, _, w1) \<Rightarrow> (r, w1))"

function blocked_rounds :: "sivfs_stack rt \<Rightarrow> cp_world \<Rightarrow> rc \<times> cp_world" where
  "blocked_rounds t w =
     (let batch = take 16 (rt_from t 0) in
      if batch = [] then (OK, w\<lparr>cw_checkpoints := (cw_checkpoints w)\<lparr>gc_blocked_entries := t\<rparr>\<rparr>)
      else case free_entries (concat (map (\<lambda>(_, s). take (stack_size s) (stack_values s)) batch)) w of
        (OK, w1) \<Rightarrow> blocked_rounds (fold (\<lambda>i t. radix_tree_delete t i) (map fst batch) t) w1
      | (r, w1) \<Rightarrow> (r, w1))"
  by pat_completeness auto

termination blocked_rounds
  by (relation "measure (\<lambda>(t, _). length t)") (use batch_shorter [of 15] in \<open>auto simp: fold_delete_eq numeral_eq_Suc simp del: set_map\<close>)

declare blocked_rounds.simps [simp del]

definition sivfs_destroy_checkpoints :: "mmu \<Rightarrow> cp_world \<Rightarrow> rc \<times> cp_world" where
  "sivfs_destroy_checkpoints m w =
     (let cps = cw_checkpoints w; latest_checkpoint = latest_cp_checkpoint cps in
      case (if latest_checkpoint = 0 then (OK, w)
            else case cw_inodes w latest_checkpoint of
              None \<Rightarrow> (UB, w)
            | Some cpinfo \<Rightarrow>
                (case root_free m (SIVFS_CHECKPOINT_TOTAL_LEVELS - 1) (cp_root cpinfo) (cw_store w) of
                   (r, _, st) \<Rightarrow> (r, drop_inode (w\<lparr>cw_store := st\<rparr>) latest_checkpoint))) of
        (OK, w1) \<Rightarrow>
          (let w2 = w1\<lparr>cw_checkpoints := cps\<lparr>checkpoints_reverse := sivfs_radix_tree_clear (checkpoints_reverse cps)\<rparr>\<rparr> in
           case blocked_rounds (gc_blocked_entries cps) w2 of
             (OK, w3) \<Rightarrow>
               (case free_entries (take (stack_size (obsoleted_entries cps)) (stack_values (obsoleted_entries cps))) w3 of
                  (OK, w4) \<Rightarrow>
                    (case sivfs_put_zero_checkpoint_pages (cw_store w4) of
                       (r, st) \<Rightarrow> (r, w4\<lparr>cw_store := st, cw_checkpoints := (cw_checkpoints w4)\<lparr>obsoleted_entries := empty_stack\<rparr>\<rparr>))
                | (r, w4) \<Rightarrow> (r, w4))
           | (r, w3) \<Rightarrow> (r, w3))
      | (r, w1) \<Rightarrow> (r, w1))"

definition sivfs_create_checkpoint_inode :: "bool \<Rightarrow> cp_world \<Rightarrow> rc \<times> u64 \<times> cp_world" where
  "sivfs_create_checkpoint_inode inode_ok w =
     (case cw_new_inodes w of
        [] \<Rightarrow> (E ENOMEM, 0, w)
      | inode # inodes \<Rightarrow>
          if \<not> inode_ok then (E ENOMEM, 0, w)
          else (OK, inode, w\<lparr>cw_new_inodes := inodes, cw_inodes := (cw_inodes w)(inode \<mapsto>
                 \<lparr>cp_root = 0, cp_ts = 0, cp_obsoleted_ts = SIVFS_INVALID_TS\<rparr>)\<rparr>))"

section \<open>The shared state\<close>

definition upd_cps :: "cp_world \<Rightarrow> mount_world \<Rightarrow> mount_world" where
  "upd_cps w mt = mt\<lparr>mt_fs := (mt_fs mt)\<lparr>fw_cps := w\<rparr>\<rparr>"

definition zero_shared_state :: "mount_world \<Rightarrow> mount_world" where
  "zero_shared_state mt =
     (let w = mt_fs mt in
      mt\<lparr>mt_fs := w\<lparr>fw_shared := (fw_shared w)\<lparr>master_log := sivfs_init_log, log_cache := [], master_log_deleted_ts := 0,
                                     master_ts := 0, commit_started_ts := 0\<rparr>,
                    fw_tasks := (fw_tasks w)\<lparr>tw_threads := [], tw_stats := zero_stats\<rparr>,
                    fw_cps := (fw_cps w)\<lparr>cw_checkpoints := zero_checkpoints\<rparr>\<rparr>,
         mt_make_checkpoint_bgt := 0, mt_gc_checkpoints_bgt := 0, mt_gc_log_bgt := 0\<rparr>)"

text \<open>The error path from the failure of the first checkpoint or of the background threads on.\<close>

definition init_error3 :: "mount_env \<Rightarrow> rc \<Rightarrow> mount_world \<Rightarrow> rc \<times> mount_world" where
  "init_error3 env r mt =
     (case sivfs_destroy_checkpoints (me_mmu env) (fw_cps (mt_fs mt)) of
        (OK, w) \<Rightarrow> (r, (upd_cps w mt)\<lparr>mt_creds := False\<rparr>)
      | (r', w) \<Rightarrow> (r', upd_cps w mt))"

definition sivfs_init_shared_state :: "mount_env \<Rightarrow> mount_world \<Rightarrow> rc \<times> mount_world" where
  "sivfs_init_shared_state env mt0 =
     (let mt = zero_shared_state mt0 in
      if \<not> me_creds_ok env then (E ENOMEM, mt)
      else
        let mt1 = mt\<lparr>mt_creds := True\<rparr> in
        case sivfs_init_checkpoints (me_mmu env) (fw_cps (mt_fs mt1)) of
          (OK, w1) \<Rightarrow>
            (case sivfs_create_checkpoint_inode (me_cp_inode_ok env) w1 of
               (OK, first_checkpoint, w2) \<Rightarrow>
                 (case sivfs_checkpoints_insert (me_interrupted env) w2 first_checkpoint of
                    (OK, w3) \<Rightarrow>
                      (case sivfs_init_background_work env (upd_cps w3 mt1) of
                         (OK, mt2) \<Rightarrow> (OK, mt2)
                       | (r, mt2) \<Rightarrow> init_error3 env r mt2)
                  | (r, w3) \<Rightarrow> init_error3 env r (upd_cps (drop_inode w3 first_checkpoint) mt1))
             | (r, _, w2) \<Rightarrow> init_error3 env r (upd_cps w2 mt1))
        | (r, w1) \<Rightarrow> (r, (upd_cps w1 mt1)\<lparr>mt_creds := False\<rparr>))"

definition sivfs_destroy_shared_state :: "mount_env \<Rightarrow> mount_world \<Rightarrow> rc \<times> mount_world" where
  "sivfs_destroy_shared_state env mt =
     (let mt1 = sivfs_destroy_background_work env mt in
      case sivfs_delete_log False (fw_shared (mt_fs mt1)) SIVFS_INVALID_TS of
        (OK, _, s) \<Rightarrow>
          (case sivfs_destroy_checkpoints (me_mmu env) (fw_cps (mt_fs mt1)) of
             (r, w) \<Rightarrow> (r, (upd_cps w (mt1\<lparr>mt_fs := (mt_fs mt1)\<lparr>fw_shared := s\<rparr>\<rparr>))\<lparr>mt_creds := False\<rparr>))
      | (r, _, s) \<Rightarrow> (r, mt1\<lparr>mt_fs := (mt_fs mt1)\<lparr>fw_shared := s\<rparr>\<rparr>))"

section \<open>Mounting and unmounting\<close>

definition put_dir :: "u64 \<Rightarrow> mount_world \<Rightarrow> rc \<times> mount_world" where
  "put_dir inode mt = (if inode \<in> set (mt_dirs mt) then (OK, mt\<lparr>mt_dirs := remove1 inode (mt_dirs mt)\<rparr>) else (UB, mt))"

definition d_make_root :: "bool \<Rightarrow> u64 \<Rightarrow> mount_world \<Rightarrow> u64 \<times> mount_world" where
  "d_make_root ok inode mt =
     (if ok then (inode, mt\<lparr>mt_s_root := inode\<rparr>) else (0, snd (put_dir inode (mt\<lparr>mt_s_root := 0\<rparr>))))"

text \<open>From the label \<^verbatim>\<open>error3\<close> on; the code returned is the one that led to the error, unless the cleanup goes wrong.\<close>

definition fill_error3 :: "mount_env \<Rightarrow> rc \<Rightarrow> mount_world \<Rightarrow> rc \<times> mount_world" where
  "fill_error3 env r mt =
     (case sivfs_destroy_shared_state env mt of
        (OK, mt1) \<Rightarrow> (r, mt1\<lparr>mt_bdi := False\<rparr>)
      | (r', mt1) \<Rightarrow> (r', mt1))"

definition sivfs_fill_super :: "mount_env \<Rightarrow> string option \<Rightarrow> mount_world \<Rightarrow> rc \<times> mount_world" where
  "sivfs_fill_super env data mt =
     (case sivfs_parse_options (me_match env) data of
        Inl e \<Rightarrow> (E e, mt)
      | Inr mode \<Rightarrow>
          (case sivfs_init_bdi env mt of
             (OK, mt1) \<Rightarrow>
               if mt_inited mt1 then (OK, mt1\<lparr>mt_bdi := False\<rparr>)
               else
                 (case sivfs_init_shared_state env mt1 of
                    (OK, mt2) \<Rightarrow>
                      (case me_root_inode env of
                         None \<Rightarrow> fill_error3 env (E ENOMEM) mt2
                       | Some inode \<Rightarrow>
                           (case d_make_root (me_d_make_root env) inode (mt2\<lparr>mt_dirs := inode # mt_dirs mt2\<rparr>) of
                              (s_root, mt3) \<Rightarrow>
                                if s_root \<noteq> 0 then (OK, mt3\<lparr>mt_inited := True\<rparr>)
                                else (case put_dir inode mt3 of
                                        (OK, mt4) \<Rightarrow> fill_error3 env (E ENOMEM) mt4
                                      | (r, mt4) \<Rightarrow> (r, mt4))))
                  | (r, mt2) \<Rightarrow> (r, if r = UB \<or> r = HANG then mt2 else mt2\<lparr>mt_bdi := False\<rparr>))
           | (r, mt1) \<Rightarrow> (r, mt1)))"

definition sivfs_kill_sb :: "mount_env \<Rightarrow> mount_world \<Rightarrow> rc \<times> mount_world" where
  "sivfs_kill_sb env mt =
     (if \<not> mt_inited mt then (OK, mt)
      else sivfs_destroy_shared_state env (mt\<lparr>mt_bdi := False\<rparr>))"

section \<open>The zero pages\<close>

text \<open>The pages of the levels in \<open>R\<close> are there besides those of \<open>st0\<close>.\<close>

definition live_zero :: "cp_store \<Rightarrow> nat set \<Rightarrow> cp_store \<Rightarrow> bool" where
  "live_zero st0 R st \<longleftrightarrow> inj_on (cps_zero_pxd st) R \<and> (\<forall>a. a \<notin> cps_zero_pxd st ` R \<longrightarrow> cps_pages st a = cps_pages st0 a) \<and>
     (\<forall>l \<in> R. cps_zero_pxd st l \<noteq> 0 \<and> cps_pages st0 (cps_zero_pxd st l) = None \<and>
        (\<exists>p. cps_pages st (cps_zero_pxd st l) = Some p \<and> page_info p \<noteq> None \<and> page_refct p = 1 \<and> page_mapct p = 0 \<and> \<not> page_locked p))"

lemma live_zero_none: "live_zero st0 {} st \<Longrightarrow> cps_pages st = cps_pages st0"
  by (auto simp: live_zero_def)

abbreviation without_zero :: "nat \<Rightarrow> cp_store \<Rightarrow> cp_store" where
  "without_zero l st \<equiv> st\<lparr>cps_npages := cps_npages st - 1, cps_pages := (cps_pages st)(cps_zero_pxd st l := None)\<rparr>"

lemma live_zero_drop:
  assumes "live_zero st0 R st" and "l \<in> R"
  shows "sivfs_put_checkpoint_page st (cps_zero_pxd st l) = (OK, without_zero l st)"
    and "live_zero st0 (R - {l}) (without_zero l st)"
proof -
  show "sivfs_put_checkpoint_page st (cps_zero_pxd st l) = (OK, without_zero l st)"
    using assms by (force simp: live_zero_def sivfs_put_checkpoint_page_def)
  have ne: "cps_zero_pxd st k \<noteq> cps_zero_pxd st l" if "k \<in> R - {l}" for k
    using assms that by (auto simp: live_zero_def inj_on_def)
  have out: "cps_pages (without_zero l st) a = cps_pages st0 a" if "a \<notin> cps_zero_pxd st ` (R - {l})" for a
    using assms that by (auto simp: live_zero_def)
  show "live_zero st0 (R - {l}) (without_zero l st)"
    unfolding live_zero_def
  proof (intro conjI ballI allI impI)
    show "inj_on (cps_zero_pxd (without_zero l st)) (R - {l})" using assms(1) by (simp add: live_zero_def inj_on_diff)
  qed (use assms(1) ne out in \<open>auto simp: live_zero_def\<close>)
qed

lemma destroy_live_zero:
  assumes "live_zero st0 R st" and "R \<subseteq> set ls" and "distinct ls" and "\<forall>l \<in> set ls - R. cps_zero_pxd st l = 0"
  shows "\<exists>st'. destroy_zero_loop ls st = (OK, st') \<and> cps_pages st' = cps_pages st0 \<and>
    cps_npages st' = cps_npages st - int (card R) \<and> cps_zero_refcount st' = cps_zero_refcount st"
  using assms
proof (induction ls arbitrary: R st)
  case Nil
  then show ?case using live_zero_none by simp
next
  case (Cons l ls)
  show ?case
  proof (cases "l \<in> R")
    case True
    let ?st = "without_zero l st"
    have "cps_zero_pxd st l \<noteq> 0" using Cons.prems(1) True by (auto simp: live_zero_def)
    moreover have "finite R" using Cons.prems(2) by (rule finite_subset) simp
    then have "card R = Suc (card (R - {l}))" using True by (rule card.remove)
    moreover obtain st' where "destroy_zero_loop ls ?st = (OK, st')" "cps_pages st' = cps_pages st0"
      "cps_npages st' = cps_npages ?st - int (card (R - {l}))" "cps_zero_refcount st' = cps_zero_refcount ?st"
      using Cons.IH [OF live_zero_drop(2) [OF Cons.prems(1) True]] Cons.prems(2-4) by auto
    ultimately show ?thesis using live_zero_drop(1) [OF Cons.prems(1) True] by simp
  next
    case False
    then show ?thesis using Cons.IH [OF Cons.prems(1)] Cons.prems(2-4) by auto
  qed
qed

lemma live_zero_step:
  assumes "live_zero st0 R st" and "k \<notin> R" and "n \<noteq> 0" and "n \<notin> dom (cps_pages st)" and "cps_pages st0 n = None"
  shows "live_zero st0 (Set.insert k R) (zero_step m k n gs st)"
proof -
  have "cps_zero_pxd st l \<noteq> n" if "l \<in> R" for l using assms(1,4) that by (auto simp: live_zero_def)
  then show ?thesis using assms unfolding live_zero_def zero_step_def by (auto simp: inj_on_def)
qed

text \<open>Creating the zero pages: all three, or none.\<close>

lemma init_zero_all_or_nothing:
  assumes "init_zero_loop m [k ..< 4] st = (r, st')" and "live_zero st0 {1 ..< k} st" and "0 < k" and "k \<le> 4"
    and "\<forall>T. T \<noteq> 0 \<longrightarrow> zero_upto m T k st" and "cps_npages st = int k - 1" and "\<forall>l \<in> {k ..< 4}. cps_zero_pxd st l = 0"
  shows "r = UB \<or> (r = E ENOMEM \<and> cps_pages st' = cps_pages st0 \<and> cps_npages st' = 0 \<or>
      r = OK \<and> (\<forall>T. T \<noteq> 0 \<longrightarrow> store_ok m st' T) \<and> live_zero st0 {1 ..< 4} st' \<and> cps_npages st' = 3) \<and>
    cps_zero_refcount st' = cps_zero_refcount st"
  using assms
proof (induction "4 - k" arbitrary: k st)
  case 0
  then have "k = 4" by simp
  then show ?case using 0 by (auto simp: zero_upto_4)
next
  case (Suc d)
  then have ls: "[k ..< 4] = k # [Suc k ..< 4]" by (simp add: upt_conv_Cons)
  have small: "cps_npages st + 1 \<le> SIVFS_MAX_CHECKPOINT_PAGES" using Suc.prems(4,6) by (simp add: SIVFS_MAX_CHECKPOINT_PAGES_def)
  have fail: "\<exists>st''. sivfs_destroy_zero_checkpoint_pages (st\<lparr>cps_supply := gs\<rparr>) = (OK, st'') \<and> cps_pages st'' = cps_pages st0 \<and>
      cps_npages st'' = 0 \<and> cps_zero_refcount st'' = cps_zero_refcount st" for gs
  proof -
    have "live_zero st0 {1 ..< k} (st\<lparr>cps_supply := gs\<rparr>)" using Suc.prems(2) by (simp add: live_zero_def)
    moreover have "{1 ..< k} \<subseteq> set [1 ..< 4]" "distinct [1 ..< 4]" using Suc.prems(4) by auto
    moreover have "\<forall>l \<in> set [1 ..< 4] - {1 ..< k}. cps_zero_pxd (st\<lparr>cps_supply := gs\<rparr>) l = 0" using Suc.prems(7) by auto
    ultimately show ?thesis
      using destroy_live_zero [of st0 "{1 ..< k}" "st\<lparr>cps_supply := gs\<rparr>" "[1 ..< 4]"] Suc.prems(3,6)
      by (auto simp: sivfs_destroy_zero_checkpoint_pages_def SIVFS_CHECKPOINT_FOFFSET_LEVELS_def)
  qed
  show ?case
  proof (cases "\<exists>n junk gs. cps_supply st = Grant n junk # gs")
    case True
    then obtain n junk gs where g: "cps_supply st = Grant n junk # gs" by blast
    have "zero_upto m 1 k st" using Suc.prems(5) by simp
    then have n: "n \<noteq> 0" "n \<notin> dom (cps_pages st)" using g by (auto simp: zero_upto_def supply_ok_def pa_ok_def)
    have "cps_pages st0 n = None"
    proof (cases "n \<in> cps_zero_pxd st ` {1 ..< k}")
      case True
      then show ?thesis using Suc.prems(2) by (auto simp: live_zero_def)
    next
      case False
      then have "cps_pages st n = cps_pages st0 n" using Suc.prems(2) unfolding live_zero_def by blast
      then show ?thesis using n(2) by auto
    qed
    then have "live_zero st0 (Set.insert k {1 ..< k}) (zero_step m k n gs st)"
      using live_zero_step [OF Suc.prems(2) _ n, of k] by simp
    moreover have "Set.insert k {1 ..< k} = {1 ..< Suc k}" using Suc.prems(3) by auto
    ultimately have live: "live_zero st0 {1 ..< Suc k} (zero_step m k n gs st)" by simp
    have k: "d = 4 - Suc k" "0 < k" "k < 4" using Suc.hyps(2) Suc.prems(3) by auto
    have run: "init_zero_loop m [Suc k ..< 4] (zero_step m k n gs st) = (r, st')"
      using Suc.prems(1) init_zero_loop_step [OF g small k(2)] ls by simp
    have up: "\<forall>T. T \<noteq> 0 \<longrightarrow> zero_upto m T (Suc k) (zero_step m k n gs st)" using zero_step_upto [OF _ g k(2,3)] Suc.prems(5) by blast
    have rest: "\<forall>l \<in> {Suc k ..< 4}. cps_zero_pxd (zero_step m k n gs st) l = 0" "cps_npages (zero_step m k n gs st) = int (Suc k) - 1"
      "cps_zero_refcount (zero_step m k n gs st) = cps_zero_refcount st"
      using Suc.prems(6,7) by (auto simp: zero_step_def)
    show ?thesis using Suc.hyps(1) [OF k(1) run live _ _ up rest(2,1)] k rest(3) by simp
  next
    case False
    define gs where "gs = tl (cps_supply st)"
    have "cps_supply st = [] \<Longrightarrow> st\<lparr>cps_supply := gs\<rparr> = st" by (simp add: gs_def)
    then have new: "sivfs_new_checkpoint_page st 0 k = (E ENOMEM, None, st\<lparr>cps_supply := gs\<rparr>) \<or>
        sivfs_new_checkpoint_page st 0 k = (OK, None, st\<lparr>cps_supply := gs\<rparr>)"
      using small False unfolding sivfs_new_checkpoint_page_def Let_def gs_def
      by (cases "cps_supply st"; cases "hd (cps_supply st)") simp_all
    obtain st'' where "sivfs_destroy_zero_checkpoint_pages (st\<lparr>cps_supply := gs\<rparr>) = (OK, st'')" "cps_pages st'' = cps_pages st0"
      "cps_npages st'' = 0" "cps_zero_refcount st'' = cps_zero_refcount st" using fail [of gs] by blast
    then show ?thesis using Suc.prems(1) new unfolding ls by auto
  qed
qed

section \<open>Mounting\<close>

definition module_loaded :: "mmu \<Rightarrow> mount_world \<Rightarrow> bool" where
  "module_loaded m mt \<longleftrightarrow> \<not> mt_inited mt \<and> \<not> mt_creds mt \<and> \<not> mt_bdi mt \<and> mt_bgts mt = [] \<and>
     boot_store m (cw_store (fw_cps (mt_fs mt))) \<and> cps_zero_refcount (cw_store (fw_cps (mt_fs mt))) = 0 \<and>
     (\<forall>l \<in> {1 ..< 4}. cps_zero_pxd (cw_store (fw_cps (mt_fs mt))) l = 0) \<and>
     cw_inodes (fw_cps (mt_fs mt)) = (\<lambda>_. None) \<and> 0 \<notin> set (cw_new_inodes (fw_cps (mt_fs mt))) \<and>
     log_mem (fw_shared (mt_fs mt)) = (\<lambda>_. None) \<and> log_chunks (fw_shared (mt_fs mt)) = (\<lambda>_. None)"

text \<open>The threads the kernel starts are live tasks, and they do not end by themselves.\<close>

definition threads_ok :: "mount_env \<Rightarrow> bool" where
  "threads_ok env \<longleftrightarrow> (\<forall>n bgt. me_kthread_run env n = Inr bgt \<longrightarrow> bgt \<noteq> 0 \<and> \<not> me_exited env bgt)"

definition released :: "cp_store \<Rightarrow> mount_world \<Rightarrow> bool" where
  "released st0 mt \<longleftrightarrow> mt_bgts mt = [] \<and> \<not> mt_creds mt \<and> cps_pages (cw_store (fw_cps (mt_fs mt))) = cps_pages st0 \<and>
     cps_npages (cw_store (fw_cps (mt_fs mt))) = 0 \<and> cw_inodes (fw_cps (mt_fs mt)) = (\<lambda>_. None)"

text \<open>A set of checkpoints with its zero pages and at most the first checkpoint, which is empty.\<close>

definition fresh_cps :: "mmu \<Rightarrow> cp_store \<Rightarrow> cp_world \<Rightarrow> bool" where
  "fresh_cps m st0 w \<longleftrightarrow> (\<forall>T. T \<noteq> 0 \<longrightarrow> store_ok m (cw_store w) T) \<and> live_zero st0 {1 ..< 4} (cw_store w) \<and>
     cps_npages (cw_store w) = 3 \<and> cps_zero_refcount (cw_store w) = 1 \<and>
     gc_blocked_entries (cw_checkpoints w) = [] \<and> obsoleted_entries (cw_checkpoints w) = empty_stack \<and>
     latest_cp_ts (cw_checkpoints w) = 0 \<and> latest_checkpoint_published (cw_checkpoints w) = 0 \<and>
     cw_inodes w = (\<lambda>_. None)(latest_cp_checkpoint (cw_checkpoints w) :=
       if latest_cp_checkpoint (cw_checkpoints w) = 0 then None
       else Some \<lparr>cp_root = 0, cp_ts = 0, cp_obsoleted_ts = SIVFS_INVALID_TS\<rparr>)"

lemma levels_eq: "[1 ..< SIVFS_CHECKPOINT_FOFFSET_LEVELS] = [1 ..< 4]"
  by (simp add: SIVFS_CHECKPOINT_FOFFSET_LEVELS_def)

lemma put_zero_live:
  assumes "live_zero st0 {1 ..< 4} st" and "cps_npages st = 3" and "cps_zero_refcount st = 1"
  shows "\<exists>st'. sivfs_put_zero_checkpoint_pages st = (OK, st') \<and> cps_pages st' = cps_pages st0 \<and> cps_npages st' = 0"
proof -
  have "live_zero st0 {1 ..< 4} (st\<lparr>cps_zero_refcount := 0\<rparr>)" using assms(1) by (simp add: live_zero_def)
  from destroy_live_zero [OF this, of "[1 ..< 4]"] obtain st' where
    "destroy_zero_loop [1 ..< 4] (st\<lparr>cps_zero_refcount := 0\<rparr>) = (OK, st')" "cps_pages st' = cps_pages st0" "cps_npages st' = 0"
    using assms(2) by auto
  then show ?thesis
    using assms(3) unfolding sivfs_put_zero_checkpoint_pages_def sivfs_destroy_zero_checkpoint_pages_def levels_eq by simp
qed

lemma destroy_fresh:
  assumes "fresh_cps m st0 w"
  shows "\<exists>w'. sivfs_destroy_checkpoints m w = (OK, w') \<and> cps_pages (cw_store w') = cps_pages st0 \<and>
    cps_npages (cw_store w') = 0 \<and> cw_inodes w' = (\<lambda>_. None)"
proof -
  let ?c = "latest_cp_checkpoint (cw_checkpoints w)"
  have rounds: "blocked_rounds [] v = (OK, v\<lparr>cw_checkpoints := (cw_checkpoints v)\<lparr>gc_blocked_entries := []\<rparr>\<rparr>)" for v
    by (subst blocked_rounds.simps) simp
  have root: "root_free m l 0 st = (OK, 0, st)" for l st by (subst root_free.simps) simp
  obtain st' where "sivfs_put_zero_checkpoint_pages (cw_store w) = (OK, st')" "cps_pages st' = cps_pages st0" "cps_npages st' = 0"
    using put_zero_live assms unfolding fresh_cps_def by blast
  then show ?thesis
    using assms by (cases "?c = 0")
      (simp_all add: sivfs_destroy_checkpoints_def fresh_cps_def rounds root empty_stack_def drop_inode_def Let_def)
qed

lemma cp_tree_zero_refcount: "cp_tree m (st\<lparr>cps_zero_refcount := n\<rparr>) T l a f S \<longleftrightarrow> cp_tree m st T l a f S"
proof (induction l arbitrary: a f S)
  case 0
  then show ?case by (simp add: cp_level_def cp_mem_def cp_owned_def sivfs_is_zero_page_def sivfs_checkpoint_page_to_pginfo_def)
next
  case (Suc l)
  have "cp_mem (st\<lparr>cps_zero_refcount := n\<rparr>) = cp_mem st" "cp_owned (st\<lparr>cps_zero_refcount := n\<rparr>) = cp_owned st"
    "cp_level (st\<lparr>cps_zero_refcount := n\<rparr>) = cp_level st" "cp_child m (st\<lparr>cps_zero_refcount := n\<rparr>) = cp_child m st"
    by (simp_all add: fun_eq_iff cp_level_def cp_mem_def cp_owned_def cp_child_def sivfs_is_zero_page_def
        sivfs_checkpoint_page_to_pginfo_def)
  then show ?case using Suc by (simp add: owned_parts_def)
qed

lemma store_ok_refcount: "store_ok m (st\<lparr>cps_zero_refcount := n\<rparr>) T \<longleftrightarrow> store_ok m st T"
  by (simp add: store_ok_def zero_ok_def cp_tree_zero_refcount infos_ok_def supply_ok_def sivfs_checkpoint_page_to_pginfo_def)

lemma init_checkpoints_fresh:
  assumes "boot_store m (cw_store w)" and "cps_zero_refcount (cw_store w) = 0" and "\<forall>l \<in> {1 ..< 4}. cps_zero_pxd (cw_store w) l = 0"
    and "cw_inodes w = (\<lambda>_. None)" and "sivfs_init_checkpoints m w = (r, w')"
  shows "r = UB \<or> cw_inodes w' = (\<lambda>_. None) \<and> cw_new_inodes w' = cw_new_inodes w \<and> latest_cp_checkpoint (cw_checkpoints w') = 0 \<and>
    (r = E ENOMEM \<and> cps_pages (cw_store w') = cps_pages (cw_store w) \<and> cps_npages (cw_store w') = 0 \<or> r = OK \<and> fresh_cps m (cw_store w) w')"
proof -
  let ?st = "(cw_store w)\<lparr>cps_zero_pxd := (cps_zero_pxd (cw_store w))(0 := cps_zero_page (cw_store w))\<rparr>"
  obtain q st1 where run: "init_zero_loop m [1 ..< 4] ?st = (q, st1)" by fastforce
  have live: "live_zero (cw_store w) {1 ..< 1} ?st" by (simp add: live_zero_def)
  have up: "\<forall>T. T \<noteq> 0 \<longrightarrow> zero_upto m T 1 ?st" using boot_zero_upto [OF assms(1)] by blast
  have n: "cps_npages ?st = int 1 - 1" "\<forall>l \<in> {1 ..< 4}. cps_zero_pxd ?st l = 0" using assms(1,3) by (simp_all add: boot_store_def)
  note res = init_zero_all_or_nothing [OF run live _ _ up n]
  have live': "live_zero st0 R (s\<lparr>cps_zero_refcount := x\<rparr>) = live_zero st0 R s" for st0 R s x by (simp add: live_zero_def)
  show ?thesis
    using res run assms(2,4,5)
    unfolding sivfs_init_checkpoints_def sivfs_get_zero_checkpoint_pages_def sivfs_init_zero_checkpoint_pages_def levels_eq
    by (cases q) (auto simp: fresh_cps_def zero_checkpoints_def live' store_ok_refcount)
qed

lemma checkpoints_insert_outcome:
  assumes "sivfs_checkpoints_insert i w c = (q, w')" and "cw_inodes w c = Some ci" and "c \<noteq> 0"
  shows "\<exists>al t. (\<exists>e. q = E e) \<and> w' = w\<lparr>cw_allocs := al, cw_checkpoints := (cw_checkpoints w)\<lparr>checkpoints_reverse := t\<rparr>\<rparr> \<or>
    q = OK \<and> w' = w\<lparr>cw_allocs := al, cw_checkpoints := (cw_checkpoints w)\<lparr>checkpoints_reverse := t, latest_cp_checkpoint := c,
      latest_cp_ts := cp_ts ci, latest_checkpoint_published := cp_ts ci\<rparr>\<rparr>"
proof (cases i)
  case (Some e)
  then have "q = E e" "w' = w" using assms by (auto simp: sivfs_checkpoints_insert_def checkpoints_insert_first_def)
  then show ?thesis by (intro exI [of _ "cw_allocs w"] exI [of _ "checkpoints_reverse (cw_checkpoints w)"]) simp
next
  case None
  obtain ok w1 where a: "next_alloc w = (ok, w1)" by fastforce
  then obtain al where w1: "w1 = w\<lparr>cw_allocs := al\<rparr>" using next_alloc_frame [OF a] by (auto simp: alloc_frame_def)
  obtain r t where t: "radix_tree_insert ok (checkpoints_reverse (cw_checkpoints w)) (sivfs_checkpoints_ts_to_reverse_index (cp_ts ci)) c = (r, t)"
    by fastforce
  then have "r = OK \<or> (\<exists>e. r = E e)" by (auto simp: radix_tree_insert_def split: if_splits)
  then show ?thesis using assms None a w1 t
    by (intro exI [of _ al] exI [of _ t])
       (auto simp: sivfs_checkpoints_insert_def checkpoints_insert_first_def checkpoints_insert_finish_def Let_def)
qed

lemma first_checkpoint:
  assumes "fresh_cps m st0 w" and "latest_cp_checkpoint (cw_checkpoints w) = 0" and "0 \<notin> set (cw_new_inodes w)"
    and "sivfs_create_checkpoint_inode ok w = (r, c, w1)" and "r = OK \<Longrightarrow> sivfs_checkpoints_insert i w1 c = (q, w2)"
  shows "r = E ENOMEM \<and> w1 = w \<or>
    r = OK \<and> c \<noteq> 0 \<and> (q = OK \<and> fresh_cps m st0 w2 \<and> latest_cp_checkpoint (cw_checkpoints w2) = c \<or>
      (\<exists>e. q = E e) \<and> fresh_cps m st0 (drop_inode w2 c))"
proof (cases "r = OK")
  case True
  then obtain inodes where c: "cw_new_inodes w = c # inodes" "w1 = w\<lparr>cw_new_inodes := inodes, cw_inodes := (cw_inodes w)(c \<mapsto>
      \<lparr>cp_root = 0, cp_ts = 0, cp_obsoleted_ts = SIVFS_INVALID_TS\<rparr>)\<rparr>"
    using assms(4) by (auto simp: sivfs_create_checkpoint_inode_def split: list.splits if_splits)
  have nz: "c \<noteq> 0" using c(1) assms(3) by auto
  have "q = OK \<and> fresh_cps m st0 w2 \<and> latest_cp_checkpoint (cw_checkpoints w2) = c \<or> (\<exists>e. q = E e) \<and> fresh_cps m st0 (drop_inode w2 c)"
    using checkpoints_insert_outcome [OF assms(5) [OF True], of "\<lparr>cp_root = 0, cp_ts = 0, cp_obsoleted_ts = SIVFS_INVALID_TS\<rparr>"] assms(1,2) nz
    by (auto simp: c(2) fresh_cps_def drop_inode_def)
  then show ?thesis using True nz by blast
next
  case False
  then show ?thesis using assms(4) by (auto simp: sivfs_create_checkpoint_inode_def split: list.splits if_splits)
qed

lemma background_outcome:
  assumes "sivfs_init_background_work env mt = (r, mt')" and "threads_ok env" and "mt_bgts mt = []"
  shows "mt_fs mt' = mt_fs mt \<and> mt_creds mt' = mt_creds mt \<and> mt_bdi mt' = mt_bdi mt \<and> mt_inited mt' = mt_inited mt \<and> mt_dirs mt' = mt_dirs mt \<and>
    ((\<exists>e. r = E e) \<and> mt_bgts mt' = [] \<or>
     r = OK \<and> mt_bgts mt' = [mt_gc_log_bgt mt', mt_gc_checkpoints_bgt mt', mt_make_checkpoint_bgt mt'] \<and>
       (\<forall>b \<in> set (mt_bgts mt'). b \<noteq> 0 \<and> \<not> me_exited env b))"
  using assms
  by (auto simp: sivfs_init_background_work_def sivfs_bgt_run_def sivfs_bgt_stop_def threads_ok_def Let_def split: sum.splits)

lemma stop_threads:
  assumes "mt_bgts mt = [mt_gc_log_bgt mt, mt_gc_checkpoints_bgt mt, mt_make_checkpoint_bgt mt]"
    and "\<forall>b \<in> set (mt_bgts mt). b \<noteq> 0 \<and> \<not> me_exited env b"
  shows "sivfs_destroy_background_work env mt = mt\<lparr>mt_bgts := []\<rparr>"
  using assms by (auto simp: sivfs_destroy_background_work_def sivfs_bgt_stop_def Let_def)

lemma delete_empty_log:
  assumes "log_cache s = []" and "master_log s = sivfs_init_log"
  shows "\<exists>s'. sivfs_delete_log False s SIVFS_INVALID_TS = (OK, False, s')"
  using assms by (simp add: sivfs_delete_log_def delete_log_loop.simps kfree_chunk_def sivfs_init_log_def Let_def)

definition mounted :: "mount_env \<Rightarrow> cp_store \<Rightarrow> mount_world \<Rightarrow> bool" where
  "mounted env st0 mt \<longleftrightarrow> mt_creds mt \<and> mt_bgts mt = [mt_gc_log_bgt mt, mt_gc_checkpoints_bgt mt, mt_make_checkpoint_bgt mt] \<and>
     (\<forall>b \<in> set (mt_bgts mt). b \<noteq> 0 \<and> \<not> me_exited env b) \<and>
     fresh_cps (me_mmu env) st0 (fw_cps (mt_fs mt)) \<and> latest_cp_checkpoint (cw_checkpoints (fw_cps (mt_fs mt))) \<noteq> 0 \<and>
     fw_shared (mt_fs mt) = empty_log \<and> tw_threads (fw_tasks (mt_fs mt)) = []"

lemma init_shared_outcome:
  assumes loaded: "module_loaded (me_mmu env) mt" and thr: "threads_ok env"
    and run: "sivfs_init_shared_state env (mt\<lparr>mt_bdi := b\<rparr>) = (r, mt')"
  shows "r = UB \<or> mt_bdi mt' = b \<and> \<not> mt_inited mt' \<and> mt_dirs mt' = mt_dirs mt \<and>
    ((\<exists>e. r = E e) \<and> released (cw_store (fw_cps (mt_fs mt))) mt' \<or> r = OK \<and> mounted env (cw_store (fw_cps (mt_fs mt))) mt')"
proof -
  define st0 where "st0 = cw_store (fw_cps (mt_fs mt))"
  define z where "z = zero_shared_state (mt\<lparr>mt_bdi := b\<rparr>)"
  let ?w = "fw_cps (mt_fs z)"
  have z: "mt_bdi z = b" "\<not> mt_inited z" "mt_dirs z = mt_dirs mt" "mt_bgts z = []" "\<not> mt_creds z" "cw_store ?w = st0"
    "cw_inodes ?w = (\<lambda>_. None)" "cw_new_inodes ?w = cw_new_inodes (fw_cps (mt_fs mt))" "fw_shared (mt_fs z) = empty_log" "tw_threads (fw_tasks (mt_fs z)) = []"
    using loaded by (simp_all add: z_def zero_shared_state_def module_loaded_def st0_def empty_log_def Let_def)
  have boot: "boot_store (me_mmu env) st0" "cps_zero_refcount st0 = 0" "\<forall>l \<in> {1 ..< 4}. cps_zero_pxd st0 l = 0"
    "0 \<notin> set (cw_new_inodes ?w)" "cps_npages st0 = 0"
    using loaded z(8) by (auto simp: module_loaded_def st0_def boot_store_def)
  have err: "init_error3 env (E e) (upd_cps w (y\<lparr>mt_creds := True\<rparr>)) = (q, v) \<Longrightarrow> fresh_cps (me_mmu env) st0 w \<Longrightarrow> mt_bgts y = [] \<Longrightarrow>
      q = E e \<and> released st0 v \<and> mt_bdi v = mt_bdi y \<and> mt_inited v = mt_inited y \<and> mt_dirs v = mt_dirs y" for e w y q v
    using destroy_fresh [of "me_mmu env" st0 w] by (auto simp: init_error3_def upd_cps_def released_def)
  show ?thesis
  proof (cases "me_creds_ok env")
    case False
    then show ?thesis using run z boot by (auto simp: sivfs_init_shared_state_def z_def [symmetric] released_def Let_def st0_def [symmetric])
  next
    case True
    obtain r1 w1 where i1: "sivfs_init_checkpoints (me_mmu env) ?w = (r1, w1)" by fastforce
    note c1 = init_checkpoints_fresh [OF boot(1-3) [folded z(6)] z(7) i1, unfolded z(6)]
    show ?thesis
    proof (cases "r1 = OK")
      case False
      then show ?thesis using run c1 z True i1
        by (auto simp: sivfs_init_shared_state_def z_def [symmetric] released_def Let_def st0_def [symmetric] upd_cps_def)
    next
      case ok1: True
      then have f1: "fresh_cps (me_mmu env) st0 w1" "latest_cp_checkpoint (cw_checkpoints w1) = 0" "0 \<notin> set (cw_new_inodes w1)"
        using c1 boot(4) by auto
      obtain r2 c w2 where i2: "sivfs_create_checkpoint_inode (me_cp_inode_ok env) w1 = (r2, c, w2)" by (metis surj_pair)
      obtain r3 w3 where i3: "sivfs_checkpoints_insert (me_interrupted env) w2 c = (r3, w3)" by fastforce
      obtain r4 mt4 where i4: "sivfs_init_background_work env (upd_cps w3 (z\<lparr>mt_creds := True\<rparr>)) = (r4, mt4)" by fastforce
      note c2 = first_checkpoint [OF f1 i2 i3]
      have bg: "mt_bgts (upd_cps w3 (z\<lparr>mt_creds := True\<rparr>)) = []" using z(4) by (simp add: upd_cps_def)
      note c4 = background_outcome [OF i4 thr bg]
      have runs: "(case r2 of OK \<Rightarrow> (case r3 of OK \<Rightarrow> (case r4 of OK \<Rightarrow> (OK, mt4) | q \<Rightarrow> init_error3 env q mt4)
            | q \<Rightarrow> init_error3 env q (upd_cps (drop_inode w3 c) (z\<lparr>mt_creds := True\<rparr>)))
          | q \<Rightarrow> init_error3 env q (upd_cps w2 (z\<lparr>mt_creds := True\<rparr>))) = (r, mt')"
        using run True i1 ok1 i2 i3 i4
        by (simp add: sivfs_init_shared_state_def z_def [symmetric] Let_def split: rc.splits)
      show ?thesis
      proof (cases "r2 = OK \<and> r3 = OK")
        case True
        then have w3: "fresh_cps (me_mmu env) st0 w3" "latest_cp_checkpoint (cw_checkpoints w3) \<noteq> 0" using c2 by auto
        have "mt4 = upd_cps w3 (mt4\<lparr>mt_creds := True\<rparr>)" if "r4 \<noteq> OK"
          using c4 by (simp add: upd_cps_def)
        then have "r4 \<noteq> OK \<Longrightarrow> init_error3 env r4 (upd_cps w3 (mt4\<lparr>mt_creds := True\<rparr>)) = (r, mt')" using runs True by (cases r4) auto
        then show ?thesis
          using c4 runs True w3 z err [of _ w3 mt4 r mt'] unfolding st0_def [symmetric] by (auto simp: mounted_def upd_cps_def)
      next
        case False
        then obtain e w' where "init_error3 env (E e) (upd_cps w' (z\<lparr>mt_creds := True\<rparr>)) = (r, mt')" "fresh_cps (me_mmu env) st0 w'"
          using c2 runs f1(1) by (cases r2; cases r3) auto
        from err [OF this z(4)] show ?thesis using z(1-3) unfolding st0_def [symmetric] by simp
      qed
    qed
  qed
qed

lemma destroy_mounted:
  assumes "mounted env st0 mt"
  shows "\<exists>mt'. sivfs_destroy_shared_state env mt = (OK, mt') \<and> released st0 mt' \<and> mt_bdi mt' = mt_bdi mt \<and> mt_inited mt' = mt_inited mt"
proof -
  have stop: "sivfs_destroy_background_work env mt = mt\<lparr>mt_bgts := []\<rparr>" using assms by (intro stop_threads) (auto simp: mounted_def)
  obtain s where s: "sivfs_delete_log False (fw_shared (mt_fs mt)) SIVFS_INVALID_TS = (OK, False, s)"
    using delete_empty_log [of empty_log] assms by (auto simp: mounted_def empty_log_def)
  obtain w where "sivfs_destroy_checkpoints (me_mmu env) (fw_cps (mt_fs mt)) = (OK, w)" "cps_pages (cw_store w) = cps_pages st0"
      "cps_npages (cw_store w) = 0" "cw_inodes w = (\<lambda>_. None)"
    using destroy_fresh [of "me_mmu env" st0 "fw_cps (mt_fs mt)"] assms unfolding mounted_def by blast
  then show ?thesis by (simp add: sivfs_destroy_shared_state_def stop s Let_def upd_cps_def released_def)
qed

lemma fill_super_ok:
  assumes "module_loaded (me_mmu env) mt" and "threads_ok env" and "sivfs_fill_super env data mt = (OK, mt')"
  shows "mounted env (cw_store (fw_cps (mt_fs mt))) mt' \<and> mt_inited mt' \<and> mt_bdi mt'"
proof -
  obtain r mt2 where i: "sivfs_init_shared_state env (mt\<lparr>mt_bdi := True\<rparr>) = (r, mt2)" by fastforce
  note o = init_shared_outcome [OF assms(1,2) i]
  have "\<not> mt_inited mt" using assms(1) by (simp add: module_loaded_def)
  have err: "fst (fill_error3 env (E e) v) \<noteq> OK" for e v by (auto simp: fill_error3_def split: prod.splits rc.splits)
  show ?thesis
    using assms(3) i o \<open>\<not> mt_inited mt\<close> err
    by (auto simp: sivfs_fill_super_def sivfs_init_bdi_def d_make_root_def put_dir_def mounted_def
        split: sum.splits if_splits rc.splits option.splits prod.splits) (metis fst_conv)+
qed

lemma mount_invariants:
  assumes "module_loaded (me_mmu env) mt" and "threads_ok env" and "sivfs_parse_options (me_match env) data = Inr mode"
    and "me_bdi_init env = OK" and "me_bdi_register env = OK" and "me_creds_ok env" and "me_cp_inode_ok env" and "me_interrupted env = None"
    and "\<forall>n < 3. \<exists>bgt. me_kthread_run env n = Inr bgt" and "me_root_inode env = Some d" and "d \<noteq> 0" and "me_d_make_root env"
    and "cps_supply (cw_store (fw_cps (mt_fs mt))) = Grant a1 j1 # Grant a2 j2 # Grant a3 j3 # gs"
    and "cw_new_inodes (fw_cps (mt_fs mt)) = c # cs" and "cw_allocs (fw_cps (mt_fs mt)) = []"
  shows "\<exists>mt' w. sivfs_fill_super env data mt = (OK, mt') \<and> mt_inited mt' \<and> mt_s_root mt' = d \<and> w = fw_cps (mt_fs mt') \<and>
    log_good (fw_shared (mt_fs mt')) \<and> master_ts (fw_shared (mt_fs mt')) = 0 \<and> commit_started_ts (fw_shared (mt_fs mt')) = 0 \<and>
    (\<forall>T. T \<noteq> 0 \<longrightarrow> store_ok (me_mmu env) (cw_store w) T) \<and> latest_cp_ts (cw_checkpoints w) = 0 \<and>
    (\<exists>ci. cw_inodes w (latest_cp_checkpoint (cw_checkpoints w)) = Some ci \<and> cp_ts ci = 0 \<and>
      (\<forall>i off mem. cp_addressable i off \<longrightarrow> off mod PAGE_SIZE = 0 \<longrightarrow>
         sivfs_read_checkpoint (me_mmu env) (cw_store w) mem PAGE_SIZE (Some ci) i off = (OK, \<lambda>_. 0))) \<and>
    tw_threads (fw_tasks (mt_fs mt')) = [] \<and> length (mt_bgts mt') = 3"
proof -
  define z where "z = zero_shared_state (mt\<lparr>mt_bdi := True\<rparr>)"
  let ?w = "fw_cps (mt_fs z)" and ?st0 = "cw_store (fw_cps (mt_fs mt))"
  have boot: "boot_store (me_mmu env) ?st0" "cps_zero_refcount ?st0 = 0" "\<not> mt_inited mt" "0 \<notin> set (c # cs)" "cw_inodes (fw_cps (mt_fs mt)) = (\<lambda>_. None)"
    using assms(1,14) by (auto simp: module_loaded_def)
  have w: "cw_store ?w = ?st0" "cw_new_inodes ?w = c # cs" "cw_allocs ?w = []"
    using assms(14,15) by (simp_all add: z_def zero_shared_state_def Let_def)
  obtain st1 where "sivfs_init_zero_checkpoint_pages (me_mmu env) ?st0 = (OK, st1)"
    using init_zero_pages_ok [OF boot(1) assms(13), of 1] by auto
  then have i1: "sivfs_init_checkpoints (me_mmu env) ?w =
      (OK, ?w\<lparr>cw_checkpoints := zero_checkpoints, cw_store := st1\<lparr>cps_zero_refcount := cps_zero_refcount st1 + 1\<rparr>\<rparr>)"
    using boot(2) by (simp add: sivfs_init_checkpoints_def sivfs_get_zero_checkpoint_pages_def w(1))
  obtain b0 b1 b2 where "me_kthread_run env 0 = Inr b0" "me_kthread_run env 1 = Inr b1" "me_kthread_run env 2 = Inr b2"
    using assms(9) by (metis less_numeral_extra(1) numeral_3_eq_3 lessI less_Suc_eq one_less_numeral_iff numeral_2_eq_2 zero_less_numeral One_nat_def semiring_norm(77))
  then have "\<exists>mt2. sivfs_init_shared_state env (mt\<lparr>mt_bdi := True\<rparr>) = (OK, mt2)"
    using assms(6-8) boot(4)
    by (simp add: sivfs_init_shared_state_def z_def [symmetric] i1 sivfs_create_checkpoint_inode_def w sivfs_checkpoints_insert_def
        checkpoints_insert_first_def checkpoints_insert_finish_def next_alloc_def zero_checkpoints_def radix_tree_insert_def radix_tree_lookup_def
        sivfs_init_background_work_def sivfs_bgt_run_def Let_def)
  then obtain mt' where run: "sivfs_fill_super env data mt = (OK, mt')" "mt_s_root mt' = d"
    using assms(3-5,10-12) boot(3) by (auto simp: sivfs_fill_super_def sivfs_init_bdi_def d_make_root_def)
  note m = fill_super_ok [OF assms(1,2) run(1)]
  let ?v = "fw_cps (mt_fs mt')"
  have store: "store_ok (me_mmu env) (cw_store ?v) T" if "T \<noteq> 0" for T using m that by (auto simp: mounted_def fresh_cps_def)
  let ?ci = "\<lparr>cp_root = 0, cp_ts = 0, cp_obsoleted_ts = SIVFS_INVALID_TS\<rparr>"
  have ci: "cw_inodes ?v (latest_cp_checkpoint (cw_checkpoints ?v)) = Some ?ci" "latest_cp_ts (cw_checkpoints ?v) = 0"
    using m by (auto simp: mounted_def fresh_cps_def)
  have s1: "store_ok (me_mmu env) (cw_store ?v) 1" using store by simp
  have "0 \<notin> dom (cps_pages (cw_store ?v))" "cp_tree (me_mmu env) (cw_store ?v) 1 6 (cp_root ?ci) (\<lambda>_ _. 0) {}"
    using s1 ex_empty_tree [OF s1] by (simp_all add: store_ok_def)
  note read = read_checkpoint_tree [OF this]
  have "log_good empty_log"
    using log_inv_empty_log by (auto simp: log_good_def log_stamped_def entry_at_def empty_log_def radix_tree_lookup_def)
  then show ?thesis
    using run m store ci read by (intro exI [of _ mt'] exI [of _ ?v]) (auto simp: mounted_def empty_log_def)
qed

text \<open>
  C10: a fresh mount starts in a state that satisfies the invariants all other properties rely on.  When the module has just been loaded and the kernel
  grants what is asked for, \<^verbatim>\<open>sivfs_fill_super\<close> succeeds: the log is empty and in good order, the store of checkpoint pages is fit for every
  timestamp, the latest checkpoint is the one at timestamp 0, in which every page of every file reads as zeros, no task has a state and
  the three background threads run.
\<close>

theorem mount_establishes_invariants:
  assumes "module_loaded (me_mmu env) mt" and "threads_ok env" and "sivfs_parse_options (me_match env) data = Inr mode"
    and "me_bdi_init env = OK" and "me_bdi_register env = OK" and "me_creds_ok env" and "me_cp_inode_ok env" and "me_interrupted env = None"
    and "\<forall>n < 3. \<exists>bgt. me_kthread_run env n = Inr bgt" and "me_root_inode env = Some d" and "d \<noteq> 0" and "me_d_make_root env"
    and "cps_supply (cw_store (fw_cps (mt_fs mt))) = Grant a1 j1 # Grant a2 j2 # Grant a3 j3 # gs"
    and "cw_new_inodes (fw_cps (mt_fs mt)) = c # cs" and "cw_allocs (fw_cps (mt_fs mt)) = []"
  shows "\<exists>mt' w. sivfs_fill_super env data mt = (OK, mt') \<and> mt_inited mt' \<and> mt_s_root mt' = d \<and> w = fw_cps (mt_fs mt') \<and>
    log_good (fw_shared (mt_fs mt')) \<and> master_ts (fw_shared (mt_fs mt')) = 0 \<and> commit_started_ts (fw_shared (mt_fs mt')) = 0 \<and>
    (\<forall>T. T \<noteq> 0 \<longrightarrow> store_ok (me_mmu env) (cw_store w) T) \<and> latest_cp_ts (cw_checkpoints w) = 0 \<and>
    (\<exists>ci. cw_inodes w (latest_cp_checkpoint (cw_checkpoints w)) = Some ci \<and> cp_ts ci = 0 \<and>
      (\<forall>i off mem. cp_addressable i off \<longrightarrow> off mod PAGE_SIZE = 0 \<longrightarrow>
         sivfs_read_checkpoint (me_mmu env) (cw_store w) mem PAGE_SIZE (Some ci) i off = (OK, \<lambda>_. 0))) \<and>
    tw_threads (fw_tasks (mt_fs mt')) = [] \<and> length (mt_bgts mt') = 3"
  by (rule mount_invariants [OF assms])

definition ex_loaded :: mount_world where
  "ex_loaded = \<lparr>mt_fs = ex_fs\<lparr>fw_shared := empty_log, fw_cps := (ex_world ex_boot)\<lparr>cw_new_inodes := [64]\<rparr>\<rparr>, mt_inited = False, mt_bdi = False,
     mt_creds = False, mt_bgts = [], mt_make_checkpoint_bgt = 0, mt_gc_checkpoints_bgt = 0, mt_gc_log_bgt = 0, mt_dirs = [], mt_s_root = 0\<rparr>"

definition ex_mount_env :: mount_env where
  "ex_mount_env = \<lparr>me_mmu = ex_mmu, me_match = (\<lambda>_. None), me_bdi_init = OK, me_bdi_register = OK, me_creds_ok = True, me_cp_inode_ok = True,
     me_interrupted = None, me_kthread_run = (\<lambda>n. Inr (if n = 0 then 1001 else if n = 1 then 1002 else 1003)), me_exited = (\<lambda>_. False), me_root_inode = Some 48, me_d_make_root = True\<rparr>"

lemma ex_loaded_ok: "module_loaded ex_mmu ex_loaded"
  using boot_ex by (simp add: module_loaded_def ex_loaded_def ex_fs_def ex_world_def empty_log_def) (simp add: ex_boot_def)

lemma ex_threads_ok: "threads_ok ex_mount_env"
  by (simp add: threads_ok_def ex_mount_env_def)

lemma ex_options: "sivfs_parse_options (me_match ex_mount_env) None = Inr SIVFS_DEFAULT_MODE"
  by (simp add: sivfs_parse_options_def)

lemma ex_mount_sel: "me_mmu ex_mount_env = ex_mmu" "me_bdi_init ex_mount_env = OK" "me_bdi_register ex_mount_env = OK" "me_creds_ok ex_mount_env"
    "me_cp_inode_ok ex_mount_env" "me_interrupted ex_mount_env = None" "\<forall>n < 3. \<exists>bgt. me_kthread_run ex_mount_env n = Inr bgt"
    "me_root_inode ex_mount_env = Some 48" "(48 :: u64) \<noteq> 0" "me_d_make_root ex_mount_env"
    "cps_supply (cw_store (fw_cps (mt_fs ex_loaded))) = Grant 8192 (\<lambda>_. 7) # Grant 12288 (\<lambda>_. 7) # Grant 16384 (\<lambda>_. 7) #
       drop 3 (cps_supply ex_boot)"
    "cw_new_inodes (fw_cps (mt_fs ex_loaded)) = [64]" "cw_allocs (fw_cps (mt_fs ex_loaded)) = []"
  by (simp_all add: ex_mount_env_def ex_loaded_def ex_world_def ex_boot_def)

lemma ex_mounts: "\<exists>mt'. sivfs_fill_super ex_mount_env None ex_loaded = (OK, mt')"
  using mount_invariants [OF ex_loaded_ok [folded ex_mount_sel(1)] ex_threads_ok ex_options ex_mount_sel(2-13)] by blast

theorem mount_establishes_invariants_witness:
  "\<exists>mt'. sivfs_fill_super ex_mount_env None ex_loaded = (OK, mt') \<and> log_good (fw_shared (mt_fs mt')) \<and> length (mt_bgts mt') = 3"
  using mount_establishes_invariants [OF ex_loaded_ok [folded ex_mount_sel(1)] ex_threads_ok ex_options ex_mount_sel(2-13)] by blast


lemma ex_not_mounted: "\<exists>mt'. sivfs_fill_super (ex_mount_env\<lparr>me_creds_ok := False\<rparr>) None ex_loaded = (E ENOMEM, mt')"
  using ex_options
  by (simp add: sivfs_fill_super_def sivfs_init_bdi_def ex_mount_env_def ex_loaded_def sivfs_init_shared_state_def Let_def)


text \<open>
  C32: unmounting.  \<^verbatim>\<open>sivfs_kill_sb\<close> on a fresh mount succeeds, stops the background threads and releases the credentials, all checkpoint pages and
  inodes and the backing device.  The flag \<^verbatim>\<open>sivfs_shared_state_inited\<close> stays set, so the next \<^verbatim>\<open>sivfs_fill_super\<close> reports success without having created
  the shared state, the root directory or any thread.
\<close>

theorem unmount_releases_but_blocks_remount:
  assumes "module_loaded (me_mmu env) mt" and "threads_ok env" and "sivfs_fill_super env data mt = (OK, mt1)"
    and "sivfs_parse_options (me_match env') data' = Inr mode" and "me_bdi_init env' = OK" and "me_bdi_register env' = OK"
  shows "\<exists>mt2. sivfs_kill_sb env mt1 = (OK, mt2) \<and> mt_bgts mt2 = [] \<and> \<not> mt_creds mt2 \<and> \<not> mt_bdi mt2 \<and>
    cps_pages (cw_store (fw_cps (mt_fs mt2))) = cps_pages (cw_store (fw_cps (mt_fs mt))) \<and> cw_inodes (fw_cps (mt_fs mt2)) = (\<lambda>_. None) \<and>
    sivfs_fill_super env' data' mt2 = (OK, mt2)"
proof -
  note m = fill_super_ok [OF assms(1-3)]
  have "mounted env (cw_store (fw_cps (mt_fs mt))) (mt1\<lparr>mt_bdi := False\<rparr>)" using m by (simp add: mounted_def)
  from destroy_mounted [OF this] obtain mt2 where mt2: "sivfs_destroy_shared_state env (mt1\<lparr>mt_bdi := False\<rparr>) = (OK, mt2)"
      "released (cw_store (fw_cps (mt_fs mt))) mt2" "\<not> mt_bdi mt2" "mt_inited mt2"
    using m by auto
  then have "sivfs_kill_sb env mt1 = (OK, mt2)" using m by (simp add: sivfs_kill_sb_def)
  moreover have "sivfs_fill_super env' data' mt2 = (OK, mt2)"
    using assms(4-6) mt2(3,4) by (simp add: sivfs_fill_super_def sivfs_init_bdi_def)
  ultimately show ?thesis using mt2(2,3) by (auto simp: released_def)
qed

theorem unmount_releases_but_blocks_remount_witness:
  "\<exists>mt1 mt2. sivfs_fill_super ex_mount_env None ex_loaded = (OK, mt1) \<and> sivfs_kill_sb ex_mount_env mt1 = (OK, mt2) \<and> mt_bgts mt2 = [] \<and>
     sivfs_fill_super ex_mount_env None mt2 = (OK, mt2)"
proof -
  obtain mt1 where mt1: "sivfs_fill_super ex_mount_env None ex_loaded = (OK, mt1)" using ex_mounts by blast
  have "module_loaded (me_mmu ex_mount_env) ex_loaded" using ex_loaded_ok by (simp add: ex_mount_env_def)
  from unmount_releases_but_blocks_remount [OF this ex_threads_ok mt1 ex_options] show ?thesis
    using mt1 by (auto simp: ex_mount_env_def)
qed

end
