(* ===== verification/Spec2Isabelle.thy ===== *)
theory Spec2Isabelle
  imports Commit_Steps Page_Fault Gc_Checkpoints User_Heap Sivfs_Super
begin

text \<open>
  \<^bold>\<open>Verification of sivfs\<close>

  sivfs is a file system for Linux that gives mapped files the semantics of transactions with snapshot isolation.  A program
  maps files and works on a private snapshot of them, records its writes in a writeset, and ends a transaction with one
  call that commits the writes or aborts and moves it to the newest snapshot.  This library models the kernel module
  (\<^verbatim>\<open>src/kern\<close>) and the user-space allocator (\<^verbatim>\<open>src/lib\<close>) and proves what they promise to each other and to programs.

  \<^bold>\<open>How the parts work together.\<close>  The shared state is a log of writesets in the order of their timestamps.
  \<^verbatim>\<open>sivfs_commit_changes\<close> appends a writeset, validates it against what was committed after its snapshot, and releases it in
  timestamp order.  A background thread replays the log onto a tree of pages and publishes the result as a checkpoint; trees
  share pages and are changed by copying (\<^verbatim>\<open>sivfs_make_checkpoint\<close>).  A task reads through page faults: a page that nobody
  wrote since its checkpoint is mapped from the checkpoint, any other is private and filled from the checkpoint and the log
  (\<^verbatim>\<open>sivfs_fault\<close>, \<^verbatim>\<open>sivfs_update_page\<close>).  At the end of a transaction the private pages are brought forward by the entries of the
  log in between (\<^verbatim>\<open>sivfs_update\<close>), skipping the own commit.  Collectors free log entries and checkpoint pages that no task can
  reach.  Files are divided into blocks by an allocator in the kernel, and the library divides blocks into objects.

  \<^bold>\<open>Conventions.\<close>  Machine integers and pointers are \<open>64 word\<close> and wrap.  A return code is a value of \<open>rc\<close>: \<open>OK\<close>, an error number,
  \<open>UB\<close> where the code would access memory that is not its own, or \<open>HANG\<close> where the fuel of a loop is used up.  Objects that the code
  shares through pointers (log entries, checkpoint pages, inodes, chunks of a file) live in maps from addresses.  What the kernel
  answers to a request for memory, pages or locks is an argument of the operation or a list consumed by it, so that every failure is a
  branch of the model.  Locks are not part of the state: an operation of the model is a critical section of the code;
  \<open>Commit_Steps\<close> interleaves those of concurrent commits.  Statistics that nothing reads and debugging output are left out.
  The configuration is the one of \<^verbatim>\<open>kern/sivfs_config.h\<close>: \<^verbatim>\<open>CHECKOUT_CP_PAGES\<close> on, \<^verbatim>\<open>CHECKOUT_CPS\<close> off, \<^verbatim>\<open>SEQLOG_SEQ\<close>, no
  \<^verbatim>\<open>EXTERNAL_CONSISTENCY_TRICKS\<close> and no hard limit on the working set.

  \<^bold>\<open>The theories.\<close>

  \<^item> \<open>Sivfs_Prelude\<close>: return codes, timestamps (\<^verbatim>\<open>sivfs_types.h\<close>), size helpers (\<^verbatim>\<open>sivfs_common.h\<close>), lemmas on words and lists.
  \<^item> \<open>Writeset\<close>: \<^verbatim>\<open>sivfs_writeset.h\<close>.  The buffer with its stream entries, growing and appending, the decoding loop of all
    consumers.  Decoding is the inverse of appending; an entry whose size wraps stops the loop.
  \<^item> \<open>Sivfs_Stack\<close>: \<^verbatim>\<open>sivfs_stack.h\<close> with its contract, the locale \<open>lifo\<close>.  \<open>Radix_Tree\<close>: \<^verbatim>\<open>sivfs_radix_tree.h\<close> on top of the
    documented behaviour of the kernel's trees, the locale \<open>ordered_map\<close>; both locales are interpreted on what the components use.
  \<^item> \<open>Checkpoints\<close>, \<open>Checkpoint_Tree\<close>: pages and trees of \<^verbatim>\<open>sivfs_checkpoints.h\<close>, \<^verbatim>\<open>sivfs_checkpoints.c\<close> and \<^verbatim>\<open>sivfs_mm.h\<close>; the meaning of a tree
    as a function from paths to page contents, and that the iterator and the traversal compute it.
  \<^item> \<open>Make_Checkpoint\<close>, \<open>Cow\<close>, \<open>Zero_Pages\<close>: \<^verbatim>\<open>sivfs_make_checkpoint.c\<close>.  One write changes one word of the new tree and no page of another
    checkpoint (\<open>store_ok\<close>, \<open>store_ext\<close>); the zero pages establish the invariant.
  \<^item> \<open>Gc_Entries\<close>: the set of checkpoints with lookup and publication, and the tagged entries of the collector.
  \<^item> \<open>Sivfs_Log\<close>: \<^verbatim>\<open>sivfs_log.h\<close>, \<^verbatim>\<open>sivfs_shared_state.c\<close>.  Entries inside chunks of memory, appending, deletion by the collector of the log.
    Its invariant covers the layout in memory, the links and the timestamps.
  \<^item> \<open>Log_Walk\<close>: the locale \<open>log_walk\<close> for the loop along the log, which is a fold over its entries; the loops of validation,
    of the search for writes, of replay, of page updates and of the update of the working set are its interpretations.
  \<^item> \<open>Replay\<close>, \<open>Publish\<close>: the abstract database \<open>db_apply\<close> and the refinement: a published checkpoint is the database at its timestamp.
  \<^item> \<open>Commit\<close>, \<open>Commit_Log\<close>, \<open>Commit_Steps\<close>: \<^verbatim>\<open>sivfs_commit_changes\<close>.  A transaction aborts exactly when it conflicts; under every
    interleaving, committed transactions that overlap in time have disjoint writes, published entries are final, and some
    transaction can always go on.
  \<^item> \<open>Alloc\<close>: \<^verbatim>\<open>kern/alloc\<close>.  First fit, deferred frees, commit and abort, and three defects of freeing.
  \<^item> \<open>Task_State\<close>, \<open>Gc_Checkpoints\<close>: \<^verbatim>\<open>sivfs_state.c\<close>, \<^verbatim>\<open>sivfs_stats.c\<close>, \<^verbatim>\<open>sivfs_gc_checkpoints.c\<close>, \<^verbatim>\<open>sivfs_gc_log.c\<close>.  The collectors free
    only what no reported version and no later checkpoint needs, and lose nothing.
  \<^item> \<open>Update_Page\<close>, \<open>Working_Set\<close>: reading a page at a snapshot and moving the private pages to a newer one,
    \<^verbatim>\<open>sivfs_commit_update_checkpoints.c\<close> and \<^verbatim>\<open>sivfs_workingset.c\<close>.
  \<^item> \<open>Commit_Update\<close>: the end of a transaction with all components together, \<^verbatim>\<open>my_sivfs_commit_update\<close>.
  \<^item> \<open>Page_Fault\<close>: the fault handlers of \<^verbatim>\<open>inode.c\<close>.  A fault shows the snapshot, and the first write copies a checkpoint page.
  \<^item> \<open>Anon_Frame\<close>, \<open>Anon_Inodes\<close>, \<open>Anon_Refs\<close>: the life of anonymous inodes, \<^verbatim>\<open>sivfs_workingset.c\<close> and \<^verbatim>\<open>inode.c\<close>: selecting the inode of a
    path, opening, mapping and releasing files, and the end of a task.  Reference counts are exact after every sequence of these calls,
    and the end of a task with all its files closed frees its state and all its inodes.  \<open>Anon_Frame\<close> shows what the end of a transaction leaves alone.
  \<^item> \<open>Nontxnal\<close>: \<^verbatim>\<open>sivfs_nontxnal_ops.c\<close> and \<^verbatim>\<open>sivfs_setattr\<close>, changing the size of a file.
  \<^item> \<open>Sivfs_Module\<close>: the requests of \<^verbatim>\<open>module.c\<close>.  The request that ends a transaction applies the writeset as the user's memory had it to the
    abstract database or reports an abort; a block that was allocated and committed can be freed again and returns to the free list; pausing withdraws the
    versions that hold back the collectors.
  \<^item> \<open>Sivfs_Super\<close>: mounting and unmounting, \<^verbatim>\<open>super.c\<close>.  Mounting establishes the invariants that the theorems on checkpoints and the log
    assume; a mount that fails releases what it took.
  \<^item> \<open>User_Alloc\<close>, \<open>User_Heap\<close>: \<^verbatim>\<open>lib/sivfs_allocator.h\<close> with its size classes and lists.  Allocation hands out free memory only, freeing
    gives it back, both record their writes, and an abort restores the heads of the lists.

  \<^bold>\<open>Fuel.\<close>  Loops over a buffer, a tree level or a list recurse on it.  The loops along the log take the number of
  entries of the log plus one as fuel, and the lemmas of \<open>log_walk\<close> show that this is enough on a log in good order; the decoding loop of a writeset
  takes its length in words plus one, and the loops that unmap pages take the number of pages, of which each round removes one at least.  The loop of \<^verbatim>\<open>sivfs_malloc_ws\<close> runs at most twice.  The loop of \<^verbatim>\<open>sivfs_mm_release\<close>
  takes the number of dentries plus one.  In each case the properties state that the
  result is \<open>OK\<close>, so that running out of fuel is excluded.

  \<^bold>\<open>Not modelled.\<close>  The registration of the module, the dispatch of ioctls by number and the diagnostic request \<^verbatim>\<open>sivfs_ioctl_get_page_info\<close>
  (\<^verbatim>\<open>module.c\<close>), directories, symbolic links and special files (\<^verbatim>\<open>sivfs_mknod\<close> and its callers, \<^verbatim>\<open>inode.c\<close>), which are calls of the kernel on its own
  data structures, and the bodies of the threads, which call the modelled functions in a loop with waits in between.  The code for checking out
  whole checkpoints is not compiled in this configuration.  The memory model of the processor and the page-table walks of the kernel are outside of
  the model.  Writesets are assumed to have less than \<open>2 ^ 62\<close> bytes, and timestamps not to
  wrap, where a statement says so.
\<close>

end
